(* ===== verification/Prelude.thy ===== *)
theory Prelude
  imports Main "HOL-Library.Word" "HOL-Library.Monad_Syntax"
begin

unbundle bit_operations_syntax

text \<open>
  Shared vocabulary of the development: the machine integer types of \<open>rtdef.h\<close>, its error
  codes and alignment macros, the named collections the component theories fill, and the
  generic facts about lists and words that more than one component needs.
\<close>

section \<open>Named collections\<close>

named_theorems rt_defs \<open>definitions to unfold when a concrete call is evaluated\<close>
named_theorems frame_simps \<open>fields an operation leaves alone\<close>

section \<open>Stopping computations\<close>

text \<open>\<open>m\<close> does not stop the system, and its result satisfies \<open>Q\<close>.\<close>

definition ok :: "'a option \<Rightarrow> ('a \<Rightarrow> bool) \<Rightarrow> bool" where
  "ok m Q \<longleftrightarrow> (case m of None \<Rightarrow> False | Some r \<Rightarrow> Q r)"

lemma ok_Some [simp]: "ok (Some r) Q \<longleftrightarrow> Q r"
  by (simp add: ok_def)

lemma ok_None [simp]: "\<not> ok None Q"
  by (simp add: ok_def)

lemma ok_bind [simp]: "ok (m \<bind> f) Q \<longleftrightarrow> ok m (\<lambda>r. ok (f r) Q)"
  by (cases m) simp_all

lemma ok_if: "ok (if b then m else n) Q \<longleftrightarrow> (b \<longrightarrow> ok m Q) \<and> (\<not> b \<longrightarrow> ok n Q)"
  by simp

lemma ok_mono: "ok m P \<Longrightarrow> (\<And>r. P r \<Longrightarrow> Q r) \<Longrightarrow> ok m Q"
  by (cases m) simp_all

lemma ok_iff: "ok m Q \<longleftrightarrow> (\<exists>r. m = Some r \<and> Q r)"
  by (cases m) simp_all

lemma ok_pairE:
  assumes "ok m (\<lambda>(a, c). P a c)"
  obtains a c where "m = Some (a, c)" "P a c"
  using assms by (cases m) auto

definition rt_assert :: "bool \<Rightarrow> unit option" where
  "rt_assert b = (if b then Some () else None)"

lemma ok_assert [simp]: "ok (rt_assert b) Q \<longleftrightarrow> b \<and> Q ()"
  by (simp add: rt_assert_def)

lemma rt_assert_simps [simp]: "rt_assert True = Some ()" "rt_assert False = None"
  by (simp_all add: rt_assert_def)

section \<open>Machine integers (rtdef.h)\<close>

type_synonym u8 = "8 word"
type_synonym u16 = "16 word"
type_synonym u32 = "32 word"

text \<open>\<open>rt_err_t\<close> is a signed machine word that only ever holds small constants.\<close>

type_synonym rt_err_t = int

abbreviation RT_EOK :: rt_err_t where "RT_EOK \<equiv> 0"
abbreviation RT_ERROR :: rt_err_t where "RT_ERROR \<equiv> 1"
abbreviation RT_ETIMEOUT :: rt_err_t where "RT_ETIMEOUT \<equiv> 2"
abbreviation RT_EFULL :: rt_err_t where "RT_EFULL \<equiv> 3"
abbreviation RT_EEMPTY :: rt_err_t where "RT_EEMPTY \<equiv> 4"
abbreviation RT_ENOMEM :: rt_err_t where "RT_ENOMEM \<equiv> 5"
abbreviation RT_ENOSYS :: rt_err_t where "RT_ENOSYS \<equiv> 6"
abbreviation RT_EBUSY :: rt_err_t where "RT_EBUSY \<equiv> 7"
abbreviation RT_EINTR :: rt_err_t where "RT_EINTR \<equiv> 9"
abbreviation RT_EINVAL :: rt_err_t where "RT_EINVAL \<equiv> 10"

abbreviation RT_TICK_MAX :: u32 where "RT_TICK_MAX \<equiv> 0xffffffff"
abbreviation RT_TICK_HALF :: u32 where "RT_TICK_HALF \<equiv> 0x7fffffff"

lemma tick_half_is_div: "RT_TICK_MAX div 2 = RT_TICK_HALF"
  by simp

section \<open>Alignment (RT\_ALIGN, RT\_ALIGN\_DOWN)\<close>

definition rt_align :: "u32 \<Rightarrow> u32 \<Rightarrow> u32" where
  "rt_align n a = (n + a - 1) AND NOT (a - 1)"

definition rt_align_down :: "u32 \<Rightarrow> u32 \<Rightarrow> u32" where
  "rt_align_down n a = n AND NOT (a - 1)"

text \<open>\<open>RT_ALIGN_SIZE\<close> is 8 in \<open>rtconfig.h\<close>; the two macros at that width, read as numbers.\<close>

lemma unat_rt_align_down8: "unat (rt_align_down s 8) = unat s - unat s mod 8"
proof -
  have seven: "(7::u32) = mask 3" by (simp add: mask_eq_exp_minus_1)
  have "s AND NOT 7 = push_bit 3 (drop_bit 3 s)"
    unfolding seven by (rule bit_word_eqI) (auto simp: bit_simps)
  also have "\<dots> = s - take_bit 3 s"
    using bits_ident[of 3 s] by (metis add_diff_cancel_right')
  finally have "s AND NOT 7 = s - take_bit 3 s" .
  moreover have "unat (take_bit 3 s) = unat s mod 8"
    by (simp add: take_bit_eq_mod unat_mod)
  moreover have "take_bit 3 s \<le> s"
    by (simp add: word_le_nat_alt take_bit_eq_mod unat_mod)
  ultimately show ?thesis
    by (simp add: rt_align_down_def unat_sub)
qed

lemma rt_align_eq_down: "rt_align s 8 = rt_align_down (s + 7) 8"
  by (simp add: rt_align_def rt_align_down_def add_diff_eq[symmetric])

lemma unat_rt_align8:
  assumes "unat s + 7 < 2 ^ 32"
  shows "unat (rt_align s 8) = (unat s + 7) div 8 * 8"
proof -
  have "unat (s + 7) = unat s + 7"
    using assms by (subst unat_add_lem[THEN iffD1]) simp_all
  then show ?thesis
    by (simp add: rt_align_eq_down unat_rt_align_down8 minus_mod_eq_div_mult)
qed

lemma unat_exp2: "k < 32 \<Longrightarrow> unat (2 ^ k :: u32) = 2 ^ k"
proof -
  assume k: "k < 32"
  have "unat (of_nat (2 ^ k) :: u32) = take_bit 32 (2 ^ k)" by (subst unsigned_of_nat) simp
  with k show ?thesis by (simp add: take_bit_nat_eq_self)
qed

section \<open>Lists\<close>

lemma nth_mod_upt_rotate:
  "n \<le> m \<Longrightarrow> r < m \<Longrightarrow> length xs = m \<Longrightarrow>
   map (\<lambda>i. xs ! ((r + i) mod m)) [0..<n] = take n (drop r xs @ take r xs)"
  by (rule nth_equalityI) (auto simp: nth_append mod_if min_def add.commute)

end
