(* ===== verification/RtList.thy ===== *)
theory RtList
  imports Prelude
begin

text \<open>
  The intrusive lists of \<open>rtservice.h\<close>. A doubly linked list is a set of nodes with
  \<open>next\<close>/\<open>prev\<close> fields, held here in a store \<open>links\<close>; the operations are the pointer
  assignments of the C code, in its order. \<open>ring s h xs\<close> says that the nodes \<open>xs\<close> hang on the
  list head \<open>h\<close>. The second half gives the list-valued view that the kernel theories use (every
  head maps to the list of its members) and proves that the pointer code refines it.
\<close>

section \<open>Doubly linked lists\<close>

record 'n links =
  nxt :: "'n \<Rightarrow> 'n"
  prv :: "'n \<Rightarrow> 'n"

definition rt_list_init :: "'n \<Rightarrow> 'n links \<Rightarrow> 'n links" where
  "rt_list_init l s = s\<lparr>nxt := (nxt s)(l := l), prv := (prv s)(l := l)\<rparr>"

definition rt_list_insert_after :: "'n \<Rightarrow> 'n \<Rightarrow> 'n links \<Rightarrow> 'n links" where
  "rt_list_insert_after l n s =
     (let s1 = s\<lparr>prv := (prv s)(nxt s l := n)\<rparr>;
          s2 = s1\<lparr>nxt := (nxt s1)(n := nxt s1 l)\<rparr>;
          s3 = s2\<lparr>nxt := (nxt s2)(l := n)\<rparr>
      in s3\<lparr>prv := (prv s3)(n := l)\<rparr>)"

definition rt_list_insert_before :: "'n \<Rightarrow> 'n \<Rightarrow> 'n links \<Rightarrow> 'n links" where
  "rt_list_insert_before l n s =
     (let s1 = s\<lparr>nxt := (nxt s)(prv s l := n)\<rparr>;
          s2 = s1\<lparr>prv := (prv s1)(n := prv s1 l)\<rparr>;
          s3 = s2\<lparr>prv := (prv s2)(l := n)\<rparr>
      in s3\<lparr>nxt := (nxt s3)(n := l)\<rparr>)"

definition rt_list_remove :: "'n \<Rightarrow> 'n links \<Rightarrow> 'n links" where
  "rt_list_remove n s =
     (let s1 = s\<lparr>prv := (prv s)(nxt s n := prv s n)\<rparr>;
          s2 = s1\<lparr>nxt := (nxt s1)(prv s1 n := nxt s1 n)\<rparr>
      in s2\<lparr>nxt := (nxt s2)(n := n), prv := (prv s2)(n := n)\<rparr>)"

definition rt_list_isempty :: "'n \<Rightarrow> 'n links \<Rightarrow> bool" where
  "rt_list_isempty l s \<longleftrightarrow> nxt s l = l"

text \<open>The counting loop of \<open>rt_list_len\<close>; it runs for ever on a chain that never comes back.\<close>

partial_function (option) list_len_loop :: "'n links \<Rightarrow> 'n \<Rightarrow> 'n \<Rightarrow> u32 \<Rightarrow> u32 option" where
  "list_len_loop s l p len =
     (if nxt s p \<noteq> l then list_len_loop s l (nxt s p) (len + 1) else Some len)"

definition rt_list_len :: "'n \<Rightarrow> 'n links \<Rightarrow> u32 option" where
  "rt_list_len l s = list_len_loop s l l 0"

subsection \<open>Rings\<close>

fun path :: "'n links \<Rightarrow> 'n \<Rightarrow> 'n list \<Rightarrow> 'n \<Rightarrow> bool" where
  "path s a [] b \<longleftrightarrow> nxt s a = b \<and> prv s b = a"
| "path s a (x # xs) b \<longleftrightarrow> nxt s a = x \<and> prv s x = a \<and> path s x xs b"

definition ring :: "'n links \<Rightarrow> 'n \<Rightarrow> 'n list \<Rightarrow> bool" where
  "ring s h xs \<longleftrightarrow> distinct (h # xs) \<and> path s h xs h"

lemma path_append: "path s a (xs @ y # ys) b \<longleftrightarrow> path s a xs y \<and> path s y ys b"
  by (induction xs arbitrary: a) auto

lemma path_cong:
  assumes "\<And>x. x \<in> insert a (set xs) \<Longrightarrow> nxt s' x = nxt s x"
    and "\<And>x. x \<in> insert b (set xs) \<Longrightarrow> prv s' x = prv s x"
  shows "path s' a xs b = path s a xs b"
  using assms by (induction xs arbitrary: a) auto

lemma path_last: "path s a xs b \<Longrightarrow> prv s b = (if xs = [] then a else last xs)"
  by (induction xs arbitrary: a) auto

lemma path_first: "path s a xs b \<Longrightarrow> nxt s a = (if xs = [] then b else hd xs)"
  by (cases xs) auto

text \<open>Any member of a ring can be taken as its head.\<close>

lemma ring_rotate: "ring s h (as @ l # bs) \<longleftrightarrow> ring s l (bs @ h # as)"
  by (auto simp: ring_def path_append)

lemma ring_insert_after:
  assumes "ring s l ys" "n \<notin> set (l # ys)"
  shows "ring (rt_list_insert_after l n s) l (n # ys)"
proof (cases ys)
  case Nil
  with assms show ?thesis by (auto simp: ring_def rt_list_insert_after_def Let_def)
next
  case (Cons y zs)
  let ?s' = "rt_list_insert_after l n s"
  from assms Cons have p: "path s y zs l" "nxt s l = y" and d: "distinct (n # l # y # zs)"
    by (auto simp: ring_def)
  have "path ?s' y zs l = path s y zs l"
    using d p(2) by (intro path_cong) (auto simp: rt_list_insert_after_def Let_def)
  with p d Cons show ?thesis
    by (auto simp: ring_def rt_list_insert_after_def Let_def)
qed

lemma ring_insert_before:
  assumes "ring s l ys" "n \<notin> set (l # ys)"
  shows "ring (rt_list_insert_before l n s) l (ys @ [n])"
proof (cases ys rule: rev_cases)
  case Nil
  with assms show ?thesis by (auto simp: ring_def rt_list_insert_before_def Let_def)
next
  case (snoc zs z)
  let ?s' = "rt_list_insert_before l n s"
  from assms snoc have p: "path s l zs z" "prv s l = z" and d: "distinct (n # l # z # zs)"
    by (auto simp: ring_def path_append)
  have "path ?s' l zs z = path s l zs z"
    using d p(2) by (intro path_cong) (auto simp: rt_list_insert_before_def Let_def)
  with p d snoc show ?thesis
    by (auto simp: ring_def path_append rt_list_insert_before_def Let_def)
qed

lemma ring_remove:
  assumes "ring s n (y # ys)"
  shows "ring (rt_list_remove n s) y ys"
proof (cases ys rule: rev_cases)
  case Nil
  with assms show ?thesis by (auto simp: ring_def rt_list_remove_def Let_def)
next
  case (snoc zs z)
  let ?s' = "rt_list_remove n s"
  from assms snoc have p: "path s y zs z" "prv s n = z" "nxt s n = y"
    and d: "distinct (n # y # z # zs)"
    by (auto simp: ring_def path_append)
  have "path ?s' y zs z = path s y zs z"
    using d p(2,3) by (intro path_cong) (auto simp: rt_list_remove_def Let_def)
  with p d snoc show ?thesis
    by (auto simp: ring_def path_append rt_list_remove_def Let_def)
qed

lemma rt_list_remove_self:
  "nxt (rt_list_remove n s) n = n \<and> prv (rt_list_remove n s) n = n"
  by (simp add: rt_list_remove_def Let_def)

lemma rt_list_remove_unlinked:
  "nxt s n = n \<Longrightarrow> prv s n = n \<Longrightarrow> rt_list_remove n s = s"
  by (cases s) (simp add: rt_list_remove_def Let_def fun_upd_idem)

text \<open>An operation at one ring leaves every disjoint ring alone.\<close>

lemma ring_frame:
  assumes "ring s' h xs"
    and "\<And>x. x \<in> set (h # xs) \<Longrightarrow> nxt s x = nxt s' x \<and> prv s x = prv s' x"
  shows "ring s h xs"
proof -
  have "path s h xs h = path s' h xs h" by (rule path_cong) (use assms(2) in auto)
  with assms(1) show ?thesis by (simp add: ring_def)
qed

lemma ring_frame_insert_after:
  "ring s h xs \<Longrightarrow> l \<notin> set (h # xs) \<Longrightarrow> n \<notin> set (h # xs) \<Longrightarrow> nxt s l \<notin> set (h # xs) \<Longrightarrow>
   ring (rt_list_insert_after l n s) h xs"
  by (erule ring_frame) (auto simp: rt_list_insert_after_def Let_def)

lemma ring_frame_insert_before:
  "ring s h xs \<Longrightarrow> l \<notin> set (h # xs) \<Longrightarrow> n \<notin> set (h # xs) \<Longrightarrow> prv s l \<notin> set (h # xs) \<Longrightarrow>
   ring (rt_list_insert_before l n s) h xs"
  by (erule ring_frame) (auto simp: rt_list_insert_before_def Let_def)

lemma ring_frame_remove:
  "ring s h xs \<Longrightarrow> n \<notin> set (h # xs) \<Longrightarrow> nxt s n \<notin> set (h # xs) \<Longrightarrow>
   prv s n \<notin> set (h # xs) \<Longrightarrow> ring (rt_list_remove n s) h xs"
  by (erule ring_frame) (auto simp: rt_list_remove_def Let_def)

lemma ring_isempty: "ring s h xs \<Longrightarrow> rt_list_isempty h s \<longleftrightarrow> xs = []"
  by (cases xs) (auto simp: ring_def rt_list_isempty_def)

lemma list_len_loop_path:
  "path s p xs l \<Longrightarrow> l \<notin> set xs \<Longrightarrow> list_len_loop s l p len = Some (len + of_nat (length xs))"
proof (induction xs arbitrary: p len)
  case Nil
  then show ?case by (simp add: list_len_loop.simps)
next
  case (Cons x xs)
  then have "x \<noteq> l" "nxt s p = x" "path s x xs l" "l \<notin> set xs" by auto
  then show ?case by (subst list_len_loop.simps) (simp add: Cons.IH algebra_simps)
qed

lemma rt_list_len_ring: "ring s h xs \<Longrightarrow> rt_list_len h s = Some (of_nat (length xs))"
  by (auto simp: ring_def rt_list_len_def list_len_loop_path)

section \<open>The list-valued view\<close>

text \<open>
  A kernel has many list heads and many nodes, each node linked into at most one ring. The view
  maps every head to the list of its members; \<open>represents\<close> relates it to the pointer store.
\<close>

datatype ('h, 'n) lnode = Head 'h | Item 'n

definition q_push_front :: "'h \<Rightarrow> 'n \<Rightarrow> ('h \<Rightarrow> 'n list) \<Rightarrow> 'h \<Rightarrow> 'n list" where
  "q_push_front h n q = q(h := n # q h)"

definition q_push_back :: "'h \<Rightarrow> 'n \<Rightarrow> ('h \<Rightarrow> 'n list) \<Rightarrow> 'h \<Rightarrow> 'n list" where
  "q_push_back h n q = q(h := q h @ [n])"

primrec ins_before :: "'n \<Rightarrow> 'n \<Rightarrow> 'n list \<Rightarrow> 'n list" where
  "ins_before m n [] = []"
| "ins_before m n (x # xs) = (if x = m then n # x # xs else x # ins_before m n xs)"

definition q_insert_before :: "'n \<Rightarrow> 'n \<Rightarrow> ('h \<Rightarrow> 'n list) \<Rightarrow> 'h \<Rightarrow> 'n list" where
  "q_insert_before m n q = (\<lambda>h. ins_before m n (q h))"

definition q_remove :: "'n \<Rightarrow> ('h \<Rightarrow> 'n list) \<Rightarrow> 'h \<Rightarrow> 'n list" where
  "q_remove n q = (\<lambda>h. removeAll n (q h))"

definition unlinked :: "'n \<Rightarrow> ('h \<Rightarrow> 'n list) \<Rightarrow> bool" where
  "unlinked n q \<longleftrightarrow> (\<forall>h. n \<notin> set (q h))"

definition represents :: "('h, 'n) lnode links \<Rightarrow> ('h \<Rightarrow> 'n list) \<Rightarrow> bool" where
  "represents s q \<longleftrightarrow>
     (\<forall>h. ring s (Head h) (map Item (q h))) \<and>
     (\<forall>h h' n. n \<in> set (q h) \<and> n \<in> set (q h') \<longrightarrow> h = h') \<and>
     (\<forall>n. unlinked n q \<longrightarrow> nxt s (Item n) = Item n \<and> prv s (Item n) = Item n)"

lemma ins_before_notin: "m \<notin> set xs \<Longrightarrow> ins_before m n xs = xs"
  by (induction xs) auto

lemma ins_before_split: "m \<notin> set as \<Longrightarrow> ins_before m n (as @ m # bs) = as @ n # m # bs"
  by (induction as) auto

lemma set_ins_before: "set (ins_before m n xs) = (if m \<in> set xs then insert n (set xs) else set xs)"
  by (induction xs) auto

lemma unlinked_remove [simp]: "unlinked n (q_remove n q)"
  by (simp add: unlinked_def q_remove_def)

lemma q_remove_unlinked: "unlinked n q \<Longrightarrow> q_remove n q = q"
  by (auto simp: unlinked_def q_remove_def)

lemma representsD:
  assumes "represents s q"
  shows "ring s (Head h) (map Item (q h))"
    and "n \<in> set (q h) \<Longrightarrow> n \<in> set (q h') \<Longrightarrow> h = h'"
    and "unlinked n q \<Longrightarrow> nxt s (Item n) = Item n"
    and "unlinked n q \<Longrightarrow> prv s (Item n) = Item n"
  using assms by (auto simp: represents_def)

text \<open>Where the two neighbours of a node of the ring of \<open>h\<close> live.\<close>

lemma ring_neighbours:
  assumes "ring s h xs" "x \<in> set (h # xs)"
  shows "nxt s x \<in> set (h # xs) \<and> prv s x \<in> set (h # xs)"
proof (cases "x = h")
  case True
  from assms(1) have "path s h xs h" by (simp add: ring_def)
  from path_first[OF this] path_last[OF this] True show ?thesis by simp
next
  case False
  with assms(2) obtain as bs where "xs = as @ x # bs" by (auto dest: split_list)
  with assms(1) have p: "path s h as x" "path s x bs h" and xs: "xs = as @ x # bs"
    by (auto simp: ring_def path_append)
  from path_last[OF p(1)] path_first[OF p(2)] xs show ?thesis by simp
qed

text \<open>Rings of different heads do not meet.\<close>

lemma represents_disjoint:
  assumes "represents s q" "h \<noteq> h'"
  shows "set (Head h # map Item (q h)) \<inter> set (Head h' # map Item (q h')) = {}"
  using assms by (auto simp: represents_def)

text \<open>
  An operation at one ring, possibly moving one node in or out of it, changes the view at that
  head only.
\<close>

lemma rep_update:
  assumes rep: "represents s q"
    and ring': "ring s' (Head h) (map Item xs)"
    and frame: "\<And>x. x \<notin> set (Head h # map Item (q h)) \<union> {Item n} \<Longrightarrow>
                  nxt s' x = nxt s x \<and> prv s' x = prv s x"
    and sub: "set xs \<subseteq> insert n (set (q h))" "set (q h) \<subseteq> insert n (set xs)"
    and n: "unlinked n q \<or> n \<in> set (q h)"
    and gone: "n \<notin> set xs \<Longrightarrow> nxt s' (Item n) = Item n \<and> prv s' (Item n) = Item n"
  shows "represents s' (q(h := xs))"
  unfolding represents_def
proof (intro conjI allI impI)
  have other: "n \<notin> set (q g)" if "g \<noteq> h" for g
    using n that representsD(2)[OF rep] by (auto simp: unlinked_def)
  show "ring s' (Head g) (map Item ((q(h := xs)) g))" for g
  proof (cases "g = h")
    case False
    have "x \<notin> set (Head h # map Item (q h)) \<union> {Item n}" if "x \<in> set (Head g # map Item (q g))" for x
      using that other[OF False] represents_disjoint[OF rep False] by auto
    then have "ring s' (Head g) (map Item (q g))"
      using frame by (intro ring_frame[OF representsD(1)[OF rep]]) blast
    with False show ?thesis by simp
  qed (use ring' in simp)
  show "g = g'" if "m \<in> set ((q(h := xs)) g) \<and> m \<in> set ((q(h := xs)) g')" for g g' m
    using that other sub(1) representsD(2)[OF rep, of m]
    by (auto split: if_splits)
  fix m assume u: "unlinked m (q(h := xs))"
  then have m: "m \<notin> set xs" and m': "\<And>g. g \<noteq> h \<Longrightarrow> m \<notin> set (q g)"
    by (auto simp: unlinked_def split: if_splits)
  show "nxt s' (Item m) = Item m" "prv s' (Item m) = Item m"
  proof (atomize (full), cases "m = n")
    case False
    have um: "unlinked m q"
      unfolding unlinked_def
    proof
      show "m \<notin> set (q g)" for g using False m m'[of g] sub(2) by (cases "g = h") auto
    qed
    then have "Item m \<notin> set (Head h # map Item (q h)) \<union> {Item n}"
      using False by (auto simp: unlinked_def)
    with frame um representsD(3,4)[OF rep um]
    show "nxt s' (Item m) = Item m \<and> prv s' (Item m) = Item m" by simp
  qed (use gone m in simp)
qed

lemma rep_fresh: "unlinked n q \<Longrightarrow> Item n \<notin> set (Head h # map Item (q h))"
  by (auto simp: unlinked_def)

theorem rep_push_back:
  assumes rep: "represents s q" and new: "unlinked n q"
  shows "represents (rt_list_insert_before (Head h) (Item n) s) (q_push_back h n q)"
  unfolding q_push_back_def
proof (rule rep_update[OF rep])
  note r = representsD(1)[OF rep, of h]
  show "ring (rt_list_insert_before (Head h) (Item n) s) (Head h) (map Item (q h @ [n]))"
    using ring_insert_before[OF r rep_fresh[OF new]] by simp
qed (use new ring_neighbours[OF representsD(1)[OF rep, of h], of "Head h"] in
      \<open>auto simp: rt_list_insert_before_def Let_def\<close>)

theorem rep_push_front:
  assumes rep: "represents s q" and new: "unlinked n q"
  shows "represents (rt_list_insert_after (Head h) (Item n) s) (q_push_front h n q)"
  unfolding q_push_front_def
proof (rule rep_update[OF rep])
  note r = representsD(1)[OF rep, of h]
  show "ring (rt_list_insert_after (Head h) (Item n) s) (Head h) (map Item (n # q h))"
    using ring_insert_after[OF r rep_fresh[OF new]] by simp
qed (use new ring_neighbours[OF representsD(1)[OF rep, of h], of "Head h"] in
      \<open>auto simp: rt_list_insert_after_def Let_def\<close>)

theorem rep_insert_before:
  assumes rep: "represents s q" and new: "unlinked n q" and m: "m \<in> set (q h)"
  shows "represents (rt_list_insert_before (Item m) (Item n) s) (q_insert_before m n q)"
proof -
  note r = representsD(1)[OF rep, of h]
  from m obtain as bs where q: "q h = as @ m # bs" and as: "m \<notin> set as"
    by (meson split_list_first)
  have only: "m \<notin> set (q g)" if "g \<noteq> h" for g using representsD(2)[OF rep m] that by blast
  have view: "q_insert_before m n q = q(h := as @ n # m # bs)"
    using only as q by (auto simp: q_insert_before_def ins_before_notin ins_before_split)
  show ?thesis
    unfolding view
  proof (rule rep_update[OF rep])
    have "ring s (Item m) (map Item bs @ Head h # map Item as)"
      using r q by (simp add: ring_rotate)
    from ring_insert_before[OF this, of "Item n"]
    have "ring (rt_list_insert_before (Item m) (Item n) s) (Item m)
            (map Item bs @ Head h # (map Item as @ [Item n]))"
      using rep_fresh[OF new, of h] q by auto
    then show "ring (rt_list_insert_before (Item m) (Item n) s) (Head h)
                 (map Item (as @ n # m # bs))"
      using ring_rotate[of _ "Head h" "map Item as @ [Item n]" "Item m" "map Item bs"] by simp
  qed (use new q m ring_neighbours[OF r, of "Item m"] in
        \<open>auto simp: rt_list_insert_before_def Let_def\<close>)
qed

theorem rep_remove:
  assumes rep: "represents s q"
  shows "represents (rt_list_remove (Item n) s) (q_remove n q)"
proof (cases "unlinked n q")
  case True
  with rep show ?thesis
    by (simp add: q_remove_unlinked rt_list_remove_unlinked representsD(3,4))
next
  case False
  then obtain h where m: "n \<in> set (q h)" by (auto simp: unlinked_def)
  note r = representsD(1)[OF rep, of h]
  have d: "distinct (q h)" using r by (auto simp: ring_def distinct_map)
  from m obtain as bs where q: "q h = as @ n # bs" by (meson split_list)
  have only: "n \<notin> set (q g)" if "g \<noteq> h" for g using representsD(2)[OF rep m] that by blast
  have view: "q_remove n q = q(h := as @ bs)"
    using only d q by (auto simp: q_remove_def removeAll_id)
  have rot: "ring s (Item n) (map Item bs @ Head h # map Item as)"
    using r q by (simp add: ring_rotate)
  show ?thesis
    unfolding view
  proof (rule rep_update[OF rep])
    show "ring (rt_list_remove (Item n) s) (Head h) (map Item (as @ bs))"
    proof (cases bs)
      case Nil
      with rot show ?thesis using ring_remove[of s "Item n" "Head h"] by simp
    next
      case (Cons b bs')
      with rot have "ring (rt_list_remove (Item n) s) (Item b) (map Item bs' @ Head h # map Item as)"
        using ring_remove by (metis append_Cons list.simps(9))
      with Cons show ?thesis by (simp add: ring_rotate)
    qed
    show "set (as @ bs) \<subseteq> insert n (set (q h))" "set (q h) \<subseteq> insert n (set (as @ bs))"
      using q by auto
  qed (use m ring_neighbours[OF r, of "Item n"] in
        \<open>auto simp: rt_list_remove_def Let_def\<close>)
qed

lemma rep_isempty: "represents s q \<Longrightarrow> rt_list_isempty (Head h) s \<longleftrightarrow> q h = []"
  using ring_isempty[OF representsD(1)] by fastforce

lemma rep_first: "represents s q \<Longrightarrow> q h \<noteq> [] \<Longrightarrow> nxt s (Head h) = Item (hd (q h))"
  using path_first[of s "Head h"] representsD(1)[of s q h]
  by (auto simp: ring_def hd_map)

section \<open>The interface of a family of lists\<close>

text \<open>
  What the kernel relies on when it threads its nodes through many heads. \<open>rep s q\<close> relates a
  concrete state to the members of every head.
\<close>

locale list_family =
  fixes rep :: "'s \<Rightarrow> ('h \<Rightarrow> 'n list) \<Rightarrow> bool"
    and push_back :: "'h \<Rightarrow> 'n \<Rightarrow> 's \<Rightarrow> 's"
    and push_front :: "'h \<Rightarrow> 'n \<Rightarrow> 's \<Rightarrow> 's"
    and insert_at :: "'n \<Rightarrow> 'n \<Rightarrow> 's \<Rightarrow> 's"
    and unlink :: "'n \<Rightarrow> 's \<Rightarrow> 's"
    and is_empty :: "'h \<Rightarrow> 's \<Rightarrow> bool"
  assumes push_back_rep: "rep s q \<Longrightarrow> unlinked n q \<Longrightarrow> rep (push_back h n s) (q_push_back h n q)"
    and push_front_rep: "rep s q \<Longrightarrow> unlinked n q \<Longrightarrow> rep (push_front h n s) (q_push_front h n q)"
    and insert_at_rep: "rep s q \<Longrightarrow> unlinked n q \<Longrightarrow> m \<in> set (q h) \<Longrightarrow>
           rep (insert_at m n s) (q_insert_before m n q)"
    and unlink_rep: "rep s q \<Longrightarrow> rep (unlink n s) (q_remove n q)"
    and is_empty_rep: "rep s q \<Longrightarrow> is_empty h s \<longleftrightarrow> q h = []"
begin

text \<open>Moving a node to the end or the front of a list, wherever it was before.\<close>

lemma move_back_rep:
  "rep s q \<Longrightarrow> rep (push_back h n (unlink n s)) (q_push_back h n (q_remove n q))"
  by (intro push_back_rep unlink_rep unlinked_remove)

lemma move_front_rep:
  "rep s q \<Longrightarrow> rep (push_front h n (unlink n s)) (q_push_front h n (q_remove n q))"
  by (intro push_front_rep unlink_rep unlinked_remove)

lemma unlink_all_rep:
  "rep s q \<Longrightarrow> rep (fold unlink ns s) (fold q_remove ns q)"
  by (induction ns arbitrary: s q) (auto intro: unlink_rep)

lemma fold_q_remove: "fold q_remove ns q h = filter (\<lambda>n. n \<notin> set ns) (q h)"
proof (induction ns arbitrary: q)
  case (Cons n ns)
  then show ?case by (auto simp: q_remove_def removeAll_filter_not_eq intro!: filter_cong)
qed simp

text \<open>Unlinking every member of a list empties it, however the members are linked elsewhere.\<close>

lemma drain_empty: "rep s q \<Longrightarrow> is_empty h (fold unlink (q h) s)"
  using is_empty_rep[OF unlink_all_rep[of s q "q h"], of h] by (simp add: fold_q_remove)

end

interpretation dll: list_family represents
  "\<lambda>h n. rt_list_insert_before (Head h) (Item n)"
  "\<lambda>h n. rt_list_insert_after (Head h) (Item n)"
  "\<lambda>m n. rt_list_insert_before (Item m) (Item n)"
  "\<lambda>n. rt_list_remove (Item n)"
  "\<lambda>h. rt_list_isempty (Head h)"
  by unfold_locales
    (simp_all add: rep_push_back rep_push_front rep_insert_before rep_remove rep_isempty)

text \<open>The list-valued operations themselves, which the kernel theories compute with.\<close>

interpretation lists: list_family "(=)" q_push_back q_push_front q_insert_before q_remove
  "\<lambda>h q. q h = []"
  by unfold_locales simp_all

text \<open>C28: the pointer code of the doubly linked lists implements lists. When the nodes of a store
  hang on their heads as \<open>q\<close> says, inserting an unlinked node before or behind a head, or before
  another node, unlinking any node and testing a head for emptiness change and read the lists as
  appending, consing, inserting, removing and comparing with the empty list do.\<close>
theorem list_code_refines_lists:
  assumes "represents s q" "unlinked n q"
  shows "represents (rt_list_insert_before (Head h) (Item n) s) (q_push_back h n q) \<and>
    represents (rt_list_insert_after (Head h) (Item n) s) (q_push_front h n q) \<and>
    (m \<in> set (q h) \<longrightarrow>
       represents (rt_list_insert_before (Item m) (Item n) s) (q_insert_before m n q)) \<and>
    represents (rt_list_remove (Item m) s) (q_remove m q) \<and>
    (rt_list_isempty (Head h) s \<longleftrightarrow> q h = []) \<and>
    rt_list_len (Head h) s = Some (of_nat (length (q h)))"
  using dll.push_back_rep[OF assms] dll.push_front_rep[OF assms] dll.insert_at_rep[OF assms]
    dll.unlink_rep[OF assms(1)] dll.is_empty_rep[OF assms(1), of h]
    rt_list_len_ring[OF representsD(1)[OF assms(1)], of h]
  by auto

lemma represents_init:
  "represents \<lparr>nxt = \<lambda>x. x, prv = \<lambda>x. x\<rparr> (\<lambda>_. [])"
  by (simp add: represents_def ring_def)

theorem list_code_refines_lists_witness:
  "represents (rt_list_insert_before (Head (0::nat)) (Item (7::nat)) \<lparr>nxt = \<lambda>x. x, prv = \<lambda>x. x\<rparr>)
     (q_push_back 0 7 (\<lambda>_. []))"
  using list_code_refines_lists[OF represents_init, of "7::nat" "0::nat" 7]
  by (simp add: unlinked_def)

section \<open>Singly linked lists\<close>

type_synonym 'n slinks = "'n \<Rightarrow> 'n option"

definition rt_slist_init :: "'n \<Rightarrow> 'n slinks \<Rightarrow> 'n slinks" where
  "rt_slist_init l s = s(l := None)"

partial_function (option) rt_slist_tail :: "'n slinks \<Rightarrow> 'n \<Rightarrow> 'n option" where
  "rt_slist_tail s l = (case s l of None \<Rightarrow> Some l | Some l' \<Rightarrow> rt_slist_tail s l')"

definition rt_slist_append :: "'n \<Rightarrow> 'n \<Rightarrow> 'n slinks \<Rightarrow> 'n slinks option" where
  "rt_slist_append l n s =
     map_option (\<lambda>node. (s(node \<mapsto> n))(n := None)) (rt_slist_tail s l)"

definition rt_slist_insert :: "'n \<Rightarrow> 'n \<Rightarrow> 'n slinks \<Rightarrow> 'n slinks" where
  "rt_slist_insert l n s = (s(n := s l))(l \<mapsto> n)"

partial_function (option) slist_len_loop :: "'n slinks \<Rightarrow> 'n option \<Rightarrow> u32 \<Rightarrow> u32 option" where
  "slist_len_loop s l len =
     (case l of None \<Rightarrow> Some len | Some x \<Rightarrow> slist_len_loop s (s x) (len + 1))"

definition rt_slist_len :: "'n slinks \<Rightarrow> 'n \<Rightarrow> u32 option" where
  "rt_slist_len s l = slist_len_loop s (s l) 0"

text \<open>The search of \<open>rt_slist_remove\<close>: the last node before \<open>n\<close>, or the tail.\<close>

partial_function (option) slist_find :: "'n slinks \<Rightarrow> 'n \<Rightarrow> 'n \<Rightarrow> 'n option" where
  "slist_find s n node =
     (case s node of
        None \<Rightarrow> Some node
      | Some x \<Rightarrow> if x \<noteq> n then slist_find s n x else Some node)"

definition rt_slist_remove :: "'n \<Rightarrow> 'n \<Rightarrow> 'n slinks \<Rightarrow> 'n slinks option" where
  "rt_slist_remove l n s =
     map_option (\<lambda>node. case s node of None \<Rightarrow> s | Some x \<Rightarrow> s(node := s x)) (slist_find s n l)"

definition rt_slist_first :: "'n slinks \<Rightarrow> 'n \<Rightarrow> 'n option" where
  "rt_slist_first s l = s l"

definition rt_slist_next :: "'n slinks \<Rightarrow> 'n \<Rightarrow> 'n option" where
  "rt_slist_next s n = s n"

definition rt_slist_isempty :: "'n slinks \<Rightarrow> 'n \<Rightarrow> bool" where
  "rt_slist_isempty s l \<longleftrightarrow> s l = None"

primrec schain :: "'n slinks \<Rightarrow> 'n \<Rightarrow> 'n list \<Rightarrow> bool" where
  "schain s l [] \<longleftrightarrow> s l = None"
| "schain s l (x # xs) \<longleftrightarrow> s l = Some x \<and> schain s x xs"

definition slist :: "'n slinks \<Rightarrow> 'n \<Rightarrow> 'n list \<Rightarrow> bool" where
  "slist s l xs \<longleftrightarrow> distinct (l # xs) \<and> schain s l xs"

lemma schain_cong: "(\<And>x. x \<in> insert l (set xs) \<Longrightarrow> s' x = s x) \<Longrightarrow> schain s' l xs = schain s l xs"
  by (induction xs arbitrary: l) auto

lemma schain_tail: "schain s l xs \<Longrightarrow> rt_slist_tail s l = Some (last (l # xs))"
  by (induction xs arbitrary: l) (simp_all add: rt_slist_tail.simps)

lemma schain_find:
  "schain s l xs \<Longrightarrow> slist_find s n l = Some (last (l # takeWhile (\<lambda>x. x \<noteq> n) xs))"
  by (induction xs arbitrary: l) (simp_all add: slist_find.simps)

lemma schain_snoc:
  "schain s l xs \<Longrightarrow> n \<notin> set (l # xs) \<Longrightarrow> distinct (l # xs) \<Longrightarrow>
   schain ((s(last (l # xs) \<mapsto> n))(n := None)) l (xs @ [n])"
proof (induction xs arbitrary: l)
  case (Cons x xs)
  let ?s' = "(s(last (x # xs) \<mapsto> n))(n := None)"
  have "schain ?s' x (xs @ [n])" by (rule Cons.IH) (use Cons.prems in auto)
  moreover have "l \<noteq> last (x # xs)" using Cons.prems(3) last_in_set[of "x # xs"] by auto
  then have "?s' l = Some x" using Cons.prems by (auto simp del: last.simps)
  ultimately have "schain ?s' l ((x # xs) @ [n])" by simp
  then show ?case by (simp only: last.simps list.distinct if_False)
qed auto

theorem slist_append:
  assumes "slist s l xs" "n \<notin> set (l # xs)"
  shows "\<exists>s'. rt_slist_append l n s = Some s' \<and> slist s' l (xs @ [n])"
  using assms schain_tail[of s l xs] schain_snoc[of s l xs n]
  by (auto simp: rt_slist_append_def slist_def)

theorem slist_insert:
  assumes "slist s l xs" "n \<notin> set (l # xs)"
  shows "slist (rt_slist_insert l n s) l (n # xs)"
proof (cases xs)
  case (Cons y ys)
  have "schain (rt_slist_insert l n s) y ys = schain s y ys"
    using assms Cons by (intro schain_cong) (auto simp: rt_slist_insert_def slist_def)
  with assms Cons show ?thesis by (auto simp: slist_def rt_slist_insert_def)
qed (use assms in \<open>auto simp: slist_def rt_slist_insert_def\<close>)

lemma slist_len_loop_chain:
  "schain s l xs \<Longrightarrow> slist_len_loop s (s l) len = Some (len + of_nat (length xs))"
  by (induction xs arbitrary: l len) (simp_all add: slist_len_loop.simps algebra_simps)

theorem slist_len: "slist s l xs \<Longrightarrow> rt_slist_len s l = Some (of_nat (length xs))"
  by (auto simp: rt_slist_len_def slist_def slist_len_loop_chain[of s l xs])

lemma schain_append: "schain s l (xs @ ys) \<Longrightarrow> schain s (last (l # xs)) ys"
  by (induction xs arbitrary: l) auto

lemma schain_cut:
  "schain s l (as @ n # bs) \<Longrightarrow> distinct (l # as @ n # bs) \<Longrightarrow>
   schain (s(last (l # as) := s n)) l (as @ bs)"
proof (induction as arbitrary: l)
  case Nil
  then show ?case
  proof (cases bs)
    case (Cons b bs')
    with Nil have sn: "s n = Some b" by simp
    have "schain (s(l \<mapsto> b)) b bs' = schain s b bs'"
      using Nil Cons by (intro schain_cong) auto
    with Nil Cons sn show ?thesis by (simp add: fun_upd_def)
  qed auto
next
  case (Cons a as)
  let ?s' = "s(last (a # as) := s n)"
  have "schain ?s' a (as @ bs)" by (rule Cons.IH) (use Cons.prems in auto)
  moreover have "l \<noteq> last (a # as)" using Cons.prems(2) last_in_set[of "a # as"] by auto
  then have "?s' l = Some a" using Cons.prems by (auto simp del: last.simps)
  ultimately have "schain ?s' l ((a # as) @ bs)" by simp
  then show ?case by (simp only: last.simps list.distinct if_False)
qed

theorem slist_remove:
  assumes "slist s l xs"
  shows "\<exists>s'. rt_slist_remove l n s = Some s' \<and> slist s' l (removeAll n xs)"
proof (cases "n \<in> set xs")
  case True
  then obtain as bs where xs: "xs = as @ n # bs" and as: "n \<notin> set as"
    by (meson split_list_first)
  from assms xs have c: "schain s l (as @ n # bs)" and d: "distinct (l # as @ n # bs)"
    by (auto simp: slist_def)
  have "takeWhile (\<lambda>x. x \<noteq> n) (as @ n # bs) = as"
    using as by (subst takeWhile_append2) auto
  then have f: "slist_find s n l = Some (last (l # as))" using schain_find[OF c, of n] by simp
  have sl: "s (last (l # as)) = Some n" using schain_append[OF c] by simp
  have "rt_slist_remove l n s = Some (s(last (l # as) := s n))"
    unfolding rt_slist_remove_def f using sl by simp
  moreover have "slist (s(last (l # as) := s n)) l (as @ bs)"
    using schain_cut[OF c d] d by (simp add: slist_def)
  moreover have "removeAll n xs = as @ bs" using d xs as by (simp add: removeAll_id)
  ultimately show ?thesis by auto
next
  case False
  then have tw: "takeWhile (\<lambda>x. x \<noteq> n) xs = xs" by (auto simp: takeWhile_eq_all_conv)
  have f: "slist_find s n l = Some (last (l # xs))"
    using assms schain_find[of s l xs n] unfolding tw slist_def by simp
  have "s (last (l # xs)) = None"
    using assms schain_append[of s l xs "[]"] by (simp add: slist_def)
  then have "rt_slist_remove l n s = Some s"
    unfolding rt_slist_remove_def f by simp
  then show ?thesis using assms False by (simp add: removeAll_id)
qed

text \<open>Appending to, inserting into, counting and removing from a singly linked list return, and
  do what the operations of the same name do to a list; removing a node that is not there changes
  nothing.\<close>
theorem slist_code_refines_lists:
  assumes "slist s l xs" "n \<notin> set (l # xs)"
  shows "(\<exists>s'. rt_slist_append l n s = Some s' \<and> slist s' l (xs @ [n])) \<and>
    slist (rt_slist_insert l n s) l (n # xs) \<and>
    rt_slist_len s l = Some (of_nat (length xs)) \<and>
    (\<exists>s'. rt_slist_remove l m s = Some s' \<and> slist s' l (removeAll m xs)) \<and>
    (rt_slist_isempty s l \<longleftrightarrow> xs = [])"
proof -
  have "rt_slist_isempty s l \<longleftrightarrow> xs = []"
    using assms(1) by (cases xs) (auto simp: slist_def rt_slist_isempty_def)
  then show ?thesis
    using slist_append[OF assms] slist_insert[OF assms] slist_len[OF assms(1)]
      slist_remove[OF assms(1)] by blast
qed

theorem slist_code_refines_lists_witness:
  "\<exists>s'. rt_slist_append (0::nat) 1 (\<lambda>_. None) = Some s' \<and> slist s' 0 [1]"
  using slist_code_refines_lists[of "\<lambda>_. None" "0::nat" "[]" 1] by (simp add: slist_def)

end
