(* ===== verification/Kservice.thy ===== *)
theory Kservice
  imports Prelude
begin

text \<open>
  The find-first-set routine the scheduler uses to read its ready bitmap
  (\<open>src/kservice.c\<close> and \<open>libcpu/arm/cortex-m7/cpuport.c\<close>): the byte-table version, the
  modulo-37 version and the RBIT/CLZ version of the processor port. Each is shown to return the
  number of the lowest set bit, counted from 1, and 0 on the empty word.
\<close>

section \<open>The three implementations\<close>

definition lowest_bit_bitmap :: "nat list" where
  "lowest_bit_bitmap =
  [0, 0, 1, 0, 2, 0, 1, 0, 3, 0, 1, 0, 2, 0, 1, 0,
   4, 0, 1, 0, 2, 0, 1, 0, 3, 0, 1, 0, 2, 0, 1, 0,
   5, 0, 1, 0, 2, 0, 1, 0, 3, 0, 1, 0, 2, 0, 1, 0,
   4, 0, 1, 0, 2, 0, 1, 0, 3, 0, 1, 0, 2, 0, 1, 0,
   6, 0, 1, 0, 2, 0, 1, 0, 3, 0, 1, 0, 2, 0, 1, 0,
   4, 0, 1, 0, 2, 0, 1, 0, 3, 0, 1, 0, 2, 0, 1, 0,
   5, 0, 1, 0, 2, 0, 1, 0, 3, 0, 1, 0, 2, 0, 1, 0,
   4, 0, 1, 0, 2, 0, 1, 0, 3, 0, 1, 0, 2, 0, 1, 0,
   7, 0, 1, 0, 2, 0, 1, 0, 3, 0, 1, 0, 2, 0, 1, 0,
   4, 0, 1, 0, 2, 0, 1, 0, 3, 0, 1, 0, 2, 0, 1, 0,
   5, 0, 1, 0, 2, 0, 1, 0, 3, 0, 1, 0, 2, 0, 1, 0,
   4, 0, 1, 0, 2, 0, 1, 0, 3, 0, 1, 0, 2, 0, 1, 0,
   6, 0, 1, 0, 2, 0, 1, 0, 3, 0, 1, 0, 2, 0, 1, 0,
   4, 0, 1, 0, 2, 0, 1, 0, 3, 0, 1, 0, 2, 0, 1, 0,
   5, 0, 1, 0, 2, 0, 1, 0, 3, 0, 1, 0, 2, 0, 1, 0,
   4, 0, 1, 0, 2, 0, 1, 0, 3, 0, 1, 0, 2, 0, 1, 0]"

definition rt_ffs_table :: "u32 \<Rightarrow> nat" where
  "rt_ffs_table value =
     (if value = 0 then 0
      else if value AND 0xff \<noteq> 0 then lowest_bit_bitmap ! unat (value AND 0xff) + 1
      else if value AND 0xff00 \<noteq> 0
        then lowest_bit_bitmap ! unat (drop_bit 8 (value AND 0xff00)) + 9
      else if value AND 0xff0000 \<noteq> 0
        then lowest_bit_bitmap ! unat (drop_bit 16 (value AND 0xff0000)) + 17
      else lowest_bit_bitmap ! unat (drop_bit 24 (value AND 0xff000000)) + 25)"

definition lowest_bit_bitmap37 :: "nat list" where
  "lowest_bit_bitmap37 =
  [0, 1, 2, 27, 3, 24, 28, 32,
   4, 17, 25, 31, 29, 12, 32, 14,
   5, 8, 18, 32, 26, 23, 32, 16,
   30, 11, 13, 7, 32, 22, 15, 10,
   6, 21, 9, 20, 19]"

definition rt_ffs_tiny :: "u32 \<Rightarrow> nat" where
  "rt_ffs_tiny value =
     lowest_bit_bitmap37 ! unat (((value AND (value - 1)) XOR value) mod 37)"

text \<open>The two processor instructions, bit by bit.\<close>

definition rbit :: "u32 \<Rightarrow> u32" where
  "rbit v = horner_sum of_bool 2 (rev (map (bit v) [0..<32]))"

definition clz :: "u32 \<Rightarrow> nat" where
  "clz v = length (takeWhile Not (map (bit v) (rev [0..<32])))"

definition rt_ffs :: "u32 \<Rightarrow> nat" where
  "rt_ffs value = (if value = 0 then 0 else clz (rbit value) + 1)"

section \<open>Specification\<close>

definition first_set :: "u32 \<Rightarrow> nat \<Rightarrow> bool" where
  "first_set v n \<longleftrightarrow>
     (if v = 0 then n = 0 else 0 < n \<and> bit v (n - 1) \<and> (\<forall>i < n - 1. \<not> bit v i))"

lemma first_set_unique:
  assumes "first_set v m" "first_set v n" shows "m = n"
proof (cases "v = 0")
  case False
  with assms have "\<not> m - 1 < n - 1" "\<not> n - 1 < m - 1" "0 < m" "0 < n"
    by (auto simp: first_set_def)
  then show ?thesis by arith
qed (use assms in \<open>simp add: first_set_def\<close>)

lemma bit_rbit: "bit (rbit v) i \<longleftrightarrow> i < 32 \<and> bit v (31 - i)"
  by (auto simp: rbit_def bit_horner_sum_bit_word_iff rev_nth)

lemma rt_ffs_takeWhile:
  "v \<noteq> 0 \<Longrightarrow> rt_ffs v = length (takeWhile Not (map (bit v) [0..<32])) + 1"
proof -
  have "map (bit (rbit v)) (rev [0..<32]) = map (bit v) [0..<32]"
    by (rule nth_equalityI) (auto simp: bit_rbit rev_nth)
  then show "v \<noteq> 0 \<Longrightarrow> ?thesis" by (simp add: rt_ffs_def clz_def)
qed

lemma u32_nonzero_bit: "(v::u32) \<noteq> 0 \<longleftrightarrow> (\<exists>i < 32. bit v i)"
  by (auto simp: bit_eq_iff dest: bit_imp_le_length)

lemma first_set_takeWhile:
  assumes "v \<noteq> 0"
  shows "first_set v (length (takeWhile Not (map (bit v) [0..<32])) + 1)"
proof -
  let ?bs = "map (bit v) [0..<32]" and ?k = "length (takeWhile Not (map (bit v) [0..<32]))"
  from assms obtain i where "i < 32" "bit v i" using u32_nonzero_bit by blast
  then have "takeWhile Not ?bs \<noteq> ?bs" by (auto simp: takeWhile_eq_all_conv)
  then have k: "?k < length ?bs"
    by (metis length_takeWhile_le linorder_le_less_linear le_antisym takeWhile_eq_take take_all)
  then have "bit v ?k" using nth_length_takeWhile[OF k] by simp
  moreover have "\<not> bit v i" if "i < ?k" for i
    using nth_mem[OF that] set_takeWhileD[of "takeWhile Not ?bs ! i" Not ?bs]
      takeWhile_nth[OF that] that k by (simp add: in_set_conv_nth)
  ultimately show ?thesis using assms by (simp add: first_set_def)
qed

section \<open>The byte table\<close>

fun byte_entry_ok :: "nat \<Rightarrow> nat \<Rightarrow> bool" where
  "byte_entry_ok b 0 \<longleftrightarrow> odd b"
| "byte_entry_ok b (Suc n) \<longleftrightarrow> even b \<and> byte_entry_ok (b div 2) n"

lemma byte_entry_bits: "byte_entry_ok b n \<longleftrightarrow> bit b n \<and> (\<forall>i < n. \<not> bit b i)"
proof (induction b n rule: byte_entry_ok.induct)
  case (2 b n)
  have "(\<forall>i < Suc n. \<not> bit b i) \<longleftrightarrow> even b \<and> (\<forall>i < n. \<not> bit (b div 2) i)"
    by (auto simp: bit_Suc bit_0 less_Suc_eq_0_disj)
  with 2 show ?case by (auto simp: bit_Suc)
qed (simp add: bit_0)

lemma bitmap_bytes:
  "list_all (\<lambda>(b, n). b = 0 \<or> byte_entry_ok b n) (zip [0..<256] lowest_bit_bitmap)"
  by code_simp

lemma bitmap_byte:
  assumes "0 < b" "b < 256"
  shows "bit b (lowest_bit_bitmap ! b)" "i < lowest_bit_bitmap ! b \<Longrightarrow> \<not> bit b i"
proof -
  have "length lowest_bit_bitmap = 256" by (simp add: lowest_bit_bitmap_def)
  then have "(b, lowest_bit_bitmap ! b) \<in> set (zip [0..<256] lowest_bit_bitmap)"
    using assms(2) by (auto simp: set_zip intro!: exI[of _ b])
  then have "byte_entry_ok b (lowest_bit_bitmap ! b)"
    using bitmap_bytes assms(1) by (auto simp: list_all_iff)
  then show "bit b (lowest_bit_bitmap ! b)" "i < lowest_bit_bitmap ! b \<Longrightarrow> \<not> bit b i"
    by (auto simp: byte_entry_bits)
qed

lemma first_set_byte:
  assumes nz: "take_bit 8 (drop_bit s v) \<noteq> (0::u32)" and low: "\<forall>i < s. \<not> bit v i"
  shows "first_set v (lowest_bit_bitmap ! unat (take_bit 8 (drop_bit s v)) + s + 1)"
proof -
  let ?w = "take_bit 8 (drop_bit s v)" let ?n = "lowest_bit_bitmap ! unat ?w"
  have lt: "unat ?w < 256"
    by (simp add: take_bit_eq_mod unat_mod)
  have pos: "0 < unat ?w" using nz by (simp add: unat_gt_0)
  from bitmap_byte[OF pos lt] have b: "bit ?w ?n" "\<And>i. i < ?n \<Longrightarrow> \<not> bit ?w i"
    by (auto simp: bit_unsigned_iff dest: bit_imp_le_length)
  then have n8: "?n < 8" and hit: "bit v (s + ?n)" by (auto simp: bit_simps)
  have "\<not> bit v i" if "i < ?n + s" for i
  proof (cases "i < s")
    case False
    then obtain j where "i = s + j" using le_Suc_ex by (metis not_less)
    with that b(2)[of j] n8 show ?thesis by (auto simp: bit_simps)
  qed (use low in simp)
  moreover have "v \<noteq> 0" using hit by auto
  ultimately show ?thesis using hit by (simp add: first_set_def add.commute)
qed

lemma byte_masks:
  fixes v :: u32
  shows "v AND 0xff = take_bit 8 v"
    and "v AND 0xff00 = push_bit 8 (take_bit 8 (drop_bit 8 v))"
    and "v AND 0xff0000 = push_bit 16 (take_bit 8 (drop_bit 16 v))"
    and "v AND 0xff000000 = push_bit 24 (take_bit 8 (drop_bit 24 v))"
proof -
  have c: "(0xff::u32) = mask 8" "(0xff00::u32) = push_bit 8 (mask 8)"
    "(0xff0000::u32) = push_bit 16 (mask 8)" "(0xff000000::u32) = push_bit 24 (mask 8)"
    by (simp_all add: mask_eq_exp_minus_1 push_bit_eq_mult)
  show "v AND 0xff = take_bit 8 v"
    "v AND 0xff00 = push_bit 8 (take_bit 8 (drop_bit 8 v))"
    "v AND 0xff0000 = push_bit 16 (take_bit 8 (drop_bit 16 v))"
    "v AND 0xff000000 = push_bit 24 (take_bit 8 (drop_bit 24 v))"
    unfolding c by (rule bit_word_eqI, auto simp: bit_simps)+
qed

lemma drop_push_byte:
  fixes w :: u32
  shows "s \<le> 24 \<Longrightarrow> drop_bit s (push_bit s (take_bit 8 w)) = take_bit 8 w"
    and "s \<le> 24 \<Longrightarrow> push_bit s (take_bit 8 w) = 0 \<longleftrightarrow> take_bit 8 w = 0"
proof -
  show *: "drop_bit s (push_bit s (take_bit 8 w)) = take_bit 8 w" if "s \<le> 24"
    by (rule bit_word_eqI) (use that in \<open>auto simp: bit_simps\<close>)
  show "push_bit s (take_bit 8 w) = 0 \<longleftrightarrow> take_bit 8 w = 0" if "s \<le> 24"
    using *[OF that] by (metis drop_bit_of_0 push_bit_of_0)
qed

lemma zero_byte:
  fixes v :: u32
  shows "take_bit 8 (drop_bit s v) = 0 \<Longrightarrow> \<forall>i < s. \<not> bit v i \<Longrightarrow> \<forall>i < s + 8. \<not> bit v i"
proof (intro allI impI)
  fix i assume z: "take_bit 8 (drop_bit s v) = 0" "\<forall>i < s. \<not> bit v i" "i < s + 8"
  show "\<not> bit v i"
  proof (cases "i < s")
    case False
    then obtain j where j: "i = s + j" using le_Suc_ex by (metis not_less)
    have "\<not> bit (take_bit 8 (drop_bit s v)) j" using z(1) by simp
    with j z(3) show ?thesis by (simp add: bit_simps)
  qed (use z in simp)
qed

section \<open>Correctness\<close>

lemma rt_ffs_first_set: "first_set v (rt_ffs v)"
proof (cases "v = 0")
  case False
  then show ?thesis using first_set_takeWhile by (simp add: rt_ffs_takeWhile)
qed (simp add: first_set_def rt_ffs_def)

lemma rt_ffs_table_first_set: "first_set v (rt_ffs_table v)"
proof (cases "v = 0")
  case False
  let ?b = "\<lambda>s. take_bit 8 (drop_bit s v)"
  note b = first_set_byte and z = zero_byte
  have z0: "?b 0 = 0 \<Longrightarrow> \<forall>i < 8. \<not> bit v i" using z[of 0 v] by simp
  have z1: "?b 0 = 0 \<Longrightarrow> ?b 8 = 0 \<Longrightarrow> \<forall>i < 16. \<not> bit v i" using z[of 8 v] z0 by simp
  have z2: "?b 0 = 0 \<Longrightarrow> ?b 8 = 0 \<Longrightarrow> ?b 16 = 0 \<Longrightarrow> \<forall>i < 24. \<not> bit v i" using z[of 16 v] z1 by simp
  have z3: "?b 0 = 0 \<Longrightarrow> ?b 8 = 0 \<Longrightarrow> ?b 16 = 0 \<Longrightarrow> ?b 24 \<noteq> 0"
    using z[of 24 v] z2 False u32_nonzero_bit by force
  show ?thesis
    using False b[of 0 v] b[of 8 v] b[of 16 v] b[of 24 v] z0 z1 z2 z3
    unfolding rt_ffs_table_def byte_masks
    by (simp only: drop_push_byte drop_bit_0 id_apply split: if_split) (simp add: add.commute)
qed (simp add: first_set_def rt_ffs_table_def)

text \<open>The lowest set bit of a word, as the tiny version isolates it.\<close>

lemma isolate_lowest:
  fixes v :: u32
  assumes "bit v k" "\<forall>i < k. \<not> bit v i"
  shows "(v AND (v - 1)) XOR v = 2 ^ k"
proof -
  have k: "k < 32" using assms(1) by (auto dest: bit_imp_le_length)
  define u where "u = v AND NOT (mask (Suc k))"
  have "v = u OR 2 ^ k"
    unfolding u_def using assms k
    by (intro bit_word_eqI) (auto simp: bit_simps less_Suc_eq not_less)
  moreover have "u OR 2 ^ k = u + 2 ^ k" "u OR mask k = u + mask k"
    by (rule disjunctive_add[symmetric], auto simp: u_def bit_simps)+
  ultimately have "v = u OR 2 ^ k" "v - 1 = u OR mask k"
    by (simp_all add: mask_eq_exp_minus_1 algebra_simps)
  then show ?thesis
    using k assms by (intro bit_word_eqI) (auto simp: u_def bit_simps)
qed

lemma bitmap37: "list_all (\<lambda>k. lowest_bit_bitmap37 ! (2 ^ k mod 37) = k + 1) [0..<32]"
  by (simp add: lowest_bit_bitmap37_def upt_conv_Cons)

lemma rt_ffs_tiny_first_set: "first_set v (rt_ffs_tiny v)"
proof (cases "v = 0")
  case False
  with rt_ffs_first_set[of v] obtain k where
    k: "bit v k" "\<forall>i < k. \<not> bit v i" by (auto simp: first_set_def)
  then have "k < 32" by (auto dest: bit_imp_le_length)
  then have "unat ((2 ^ k :: u32) mod 37) = 2 ^ k mod 37"
    by (simp add: unat_mod unat_exp2)
  with k \<open>k < 32\<close> bitmap37 have "rt_ffs_tiny v = k + 1"
    by (simp add: rt_ffs_tiny_def isolate_lowest list_all_iff)
  with k False show ?thesis by (auto simp: first_set_def)
qed (simp add: first_set_def rt_ffs_tiny_def lowest_bit_bitmap37_def)

text \<open>The form the scheduler uses: the index of the lowest set bit of a non-empty bitmap.\<close>

lemma rt_ffs_lowest:
  assumes "v \<noteq> 0"
  shows "bit v (rt_ffs v - 1)" "i < rt_ffs v - 1 \<Longrightarrow> \<not> bit v i" "rt_ffs v - 1 < 32"
  using rt_ffs_first_set[of v] assms by (auto simp: first_set_def dest: bit_imp_le_length)

text \<open>The find-first-set of the processor port, which the scheduler calls on its ready
  bitmap, returns the number of the lowest set bit (0 on the empty word), and the byte-table and
  the modulo-37 versions of \<open>kservice.c\<close> compute the same function on every 32-bit word.\<close>
theorem rt_ffs_versions:
  "first_set v (rt_ffs v) \<and> rt_ffs_table v = rt_ffs v \<and> rt_ffs_tiny v = rt_ffs v"
  using rt_ffs_first_set rt_ffs_table_first_set rt_ffs_tiny_first_set first_set_unique by blast

end
