(* ===== verification/KernelState.thy ===== *)
theory KernelState
  imports RtList Kservice
begin

text \<open>
  The state of the uniprocessor kernel (\<open>RT_THREAD_PRIORITY_MAX\<close> 32, one timer level, no SMP, as
  \<open>rtconfig.h\<close> sets it) and the invariant the scheduler and everything above it rely on.

  Objects are named by numbers instead of addresses. Every intrusive thread list (a ready list, the
  list of threads suspended on an object, the list of dead threads) is an entry of \<open>queues\<close>; the
  \<open>tlist\<close> node of a thread is linked into at most one of them (theory RtList refines these
  list-valued operations to the pointer code). A failed \<open>RT_ASSERT\<close> stops the system in
  \<open>rt_assert_handler\<close>; operations that can fail one return an option, \<open>None\<close> standing for the
  stopped system.
\<close>

section \<open>Objects\<close>

type_synonym tid = nat

text \<open>A timer is the one built into a thread or a timer object of its own.\<close>

datatype tmid = ThreadTimer tid | UserTimer nat

datatype qid = Ready nat | Defunct | SemQ nat | MutexQ nat | EventQ nat
  | MbQ nat | MbSendQ nat | MqQ nat | MqSendQ nat | MpQ nat | CompletionQ nat | DqPushQ nat | DqPopQ nat

datatype tmq = TimerList | TempList

record rt_thread =
  error :: rt_err_t
  stat :: u8
  current_priority :: u8
  init_priority :: u8
  number_mask :: u32
  taken_object_list :: "nat list"
  pending_object :: "nat option"
  event_set :: u32
  event_info :: u8
  init_tick :: u32
  remaining_tick :: u32
  static_object :: bool

datatype timeout_fn = ThreadTimeout | UserTimeout nat

record rt_timer =
  timer_flag :: u8
  timeout_func :: timeout_fn
  parameter :: nat
  timer_init_tick :: u32
  timeout_tick :: u32

record rt_semaphore =
  sem_value :: u16
  sem_flag :: u8

record rt_mutex =
  ceiling_priority :: u8
  mutex_priority :: u8
  hold :: u8
  owner :: "tid option"
  mutex_flag :: u8

record rt_event =
  ev_set :: u32
  ev_flag :: u8

record rt_mailbox =
  msg_pool :: "u32 list"
  mb_size :: u16
  mb_entry :: u16
  in_offset :: u16
  out_offset :: u16
  mb_flag :: u8

text \<open>A message of a queue's pool: the link, the length and the bytes behind them.\<close>

record rt_mq_message =
  msg_next :: "nat option"
  msg_length :: u32
  msg_bytes :: "u8 list"

text \<open>The messages of the pool are numbered; \<open>node\<close> is the pool.\<close>

record rt_messagequeue =
  node :: "nat \<Rightarrow> rt_mq_message"
  msg_size :: u16
  max_msgs :: u16
  mq_entry :: u16
  msg_queue_head :: "nat option"
  msg_queue_tail :: "nat option"
  msg_queue_free :: "nat option"
  mq_flag :: u8

record rt_mempool =
  start_address :: u32
  mp_size :: u32
  block_size :: u32
  block_list :: u32
  block_total_count :: u32
  block_free_count :: u32

text \<open>The word in front of a block: the next free block, or the pool the block belongs to.\<close>

datatype block_word = NextBlock u32 | PoolOf nat

record kernel =
  threads :: "tid \<Rightarrow> rt_thread"
  queues :: "qid \<Rightarrow> tid list"
  ready_group :: u32
  lock_nest :: "16 word"
  cur :: "tid option"
  cur_priority :: u8
  interrupt_nest :: u8
  irq_disabled :: bool
  tick :: u32
  timers :: "tmid \<Rightarrow> rt_timer"
  timer_lists :: "tmq \<Rightarrow> tmid list"
  sems :: "nat \<Rightarrow> rt_semaphore"
  mutexes :: "nat \<Rightarrow> rt_mutex"
  events :: "nat \<Rightarrow> rt_event"
  mailboxes :: "nat \<Rightarrow> rt_mailbox"
  mqueues :: "nat \<Rightarrow> rt_messagequeue"
  mempools :: "nat \<Rightarrow> rt_mempool"
  block_words :: "u32 \<Rightarrow> block_word"

text \<open>Everything but threads, scheduling and time.\<close>

definition objects where
  "objects k = (sems k, mutexes k, events k, mailboxes k, mqueues k, mempools k, block_words k)"

lemma objectsD:
  assumes "objects k' = objects k"
  shows "sems k' = sems k" "mutexes k' = mutexes k" "events k' = events k"
    "mailboxes k' = mailboxes k" "mqueues k' = mqueues k" "mempools k' = mempools k"
    "block_words k' = block_words k"
  using assms by (simp_all add: objects_def)

section \<open>Thread states\<close>

abbreviation RT_THREAD_INIT :: u8 where "RT_THREAD_INIT \<equiv> 0"
abbreviation RT_THREAD_CLOSE :: u8 where "RT_THREAD_CLOSE \<equiv> 1"
abbreviation RT_THREAD_READY :: u8 where "RT_THREAD_READY \<equiv> 2"
abbreviation RT_THREAD_RUNNING :: u8 where "RT_THREAD_RUNNING \<equiv> 3"
abbreviation RT_THREAD_SUSPEND_MASK :: u8 where "RT_THREAD_SUSPEND_MASK \<equiv> 4"
abbreviation RT_THREAD_SUSPEND_INTERRUPTIBLE :: u8 where "RT_THREAD_SUSPEND_INTERRUPTIBLE \<equiv> 4"
abbreviation RT_THREAD_SUSPEND_KILLABLE :: u8 where "RT_THREAD_SUSPEND_KILLABLE \<equiv> 6"
abbreviation RT_THREAD_SUSPEND_UNINTERRUPTIBLE :: u8 where "RT_THREAD_SUSPEND_UNINTERRUPTIBLE \<equiv> 7"
abbreviation RT_THREAD_SUSPEND :: u8 where "RT_THREAD_SUSPEND \<equiv> RT_THREAD_SUSPEND_INTERRUPTIBLE"
abbreviation RT_THREAD_STAT_MASK :: u8 where "RT_THREAD_STAT_MASK \<equiv> 7"
abbreviation RT_THREAD_STAT_YIELD_MASK :: u8 where "RT_THREAD_STAT_YIELD_MASK \<equiv> 8"

definition upd_thread :: "tid \<Rightarrow> (rt_thread \<Rightarrow> rt_thread) \<Rightarrow> kernel \<Rightarrow> kernel" where
  "upd_thread t f k = k\<lparr>threads := (threads k)(t := f (threads k t))\<rparr>"

text \<open>The state code of a thread, its flag bits apart.\<close>

definition tstat :: "kernel \<Rightarrow> tid \<Rightarrow> u8" where
  "tstat k t = stat (threads k t) AND RT_THREAD_STAT_MASK"

definition prio :: "kernel \<Rightarrow> tid \<Rightarrow> nat" where
  "prio k t = unat (current_priority (threads k t))"

definition suspended :: "kernel \<Rightarrow> tid \<Rightarrow> bool" where
  "suspended k t \<longleftrightarrow> stat (threads k t) AND RT_THREAD_SUSPEND_MASK = RT_THREAD_SUSPEND_MASK"

definition set_stat :: "u8 \<Rightarrow> rt_thread \<Rightarrow> rt_thread" where
  "set_stat s th = th\<lparr>stat := s OR (stat th AND NOT RT_THREAD_STAT_MASK)\<rparr>"

definition rt_thread_self :: "kernel \<Rightarrow> tid option" where
  "rt_thread_self k = cur k"

lemma set_stat_simps [simp]:
  "current_priority (set_stat s th) = current_priority th"
  "number_mask (set_stat s th) = number_mask th"
  "error (set_stat s th) = error th"
  "init_priority (set_stat s th) = init_priority th"
  "pending_object (set_stat s th) = pending_object th"
  "taken_object_list (set_stat s th) = taken_object_list th"
  "event_set (set_stat s th) = event_set th"
  "event_info (set_stat s th) = event_info th"
  "init_tick (set_stat s th) = init_tick th"
  "remaining_tick (set_stat s th) = remaining_tick th"
  "static_object (set_stat s th) = static_object th"
  by (simp_all add: set_stat_def)

subsection \<open>The flag byte\<close>

lemma stat_code_set: "s AND 7 = s \<Longrightarrow> (s OR (x AND - 8)) AND 7 = (s::u8)"
  by (simp add: bit.conj_disj_distrib2 and.assoc)

lemma stat_code_or_yield: "(x OR 8) AND 7 = x AND (7::u8)"
  by (simp add: bit.conj_disj_distrib2)

lemma stat_code_clear_yield: "(x AND - 9) AND 7 = x AND (7::u8)"
  by (simp add: and.assoc)

lemma stat_yield_set: "s AND 7 = s \<Longrightarrow> (s OR (x AND - 8)) AND 8 = x AND (8::u8)"
proof -
  assume "s AND 7 = s"
  then have "s AND 8 = (s AND 7) AND 8" by simp
  also have "\<dots> = s AND (7 AND 8)" by (rule and.assoc)
  finally have "s AND 8 = 0" by simp
  then show ?thesis by (simp add: bit.conj_disj_distrib2 and.assoc)
qed

lemma suspended_tstat: "suspended k t \<longleftrightarrow> tstat k t AND 4 = 4"
  by (simp add: suspended_def tstat_def and.assoc)

lemma stat_set_stat: "s AND 7 = s \<Longrightarrow> stat (set_stat s th) AND 7 = s"
  by (simp add: set_stat_def stat_code_set)

lemma yield_set_stat: "s AND 7 = s \<Longrightarrow> stat (set_stat s th) AND 8 = stat th AND 8"
  by (simp add: set_stat_def stat_yield_set)

lemma suspended_codes:
  "tstat k t = 0 \<Longrightarrow> \<not> suspended k t" "tstat k t = 1 \<Longrightarrow> \<not> suspended k t"
  "tstat k t = 2 \<Longrightarrow> \<not> suspended k t" "tstat k t = 3 \<Longrightarrow> \<not> suspended k t"
  by (simp_all add: suspended_tstat)

subsection \<open>Reading through an update\<close>

lemma threads_upd_thread [simp]:
  "threads (upd_thread t f k) u = (if u = t then f (threads k t) else threads k u)"
  by (simp add: upd_thread_def)

lemma tstat_upd_thread:
  "tstat (upd_thread t f k) u = (if u = t then stat (f (threads k t)) AND 7 else tstat k u)"
  by (simp add: tstat_def)

lemma upd_thread_frame [simp, frame_simps]:
  "queues (upd_thread t f k) = queues k" "ready_group (upd_thread t f k) = ready_group k"
  "lock_nest (upd_thread t f k) = lock_nest k" "cur (upd_thread t f k) = cur k"
  "cur_priority (upd_thread t f k) = cur_priority k"
  "interrupt_nest (upd_thread t f k) = interrupt_nest k"
  "irq_disabled (upd_thread t f k) = irq_disabled k" "tick (upd_thread t f k) = tick k"
  "timers (upd_thread t f k) = timers k" "timer_lists (upd_thread t f k) = timer_lists k"
  "sems (upd_thread t f k) = sems k" "mutexes (upd_thread t f k) = mutexes k"
  "events (upd_thread t f k) = events k" "mailboxes (upd_thread t f k) = mailboxes k"
  "mqueues (upd_thread t f k) = mqueues k" "mempools (upd_thread t f k) = mempools k"
  "block_words (upd_thread t f k) = block_words k"
  by (simp_all add: upd_thread_def)

section \<open>The scheduling invariant\<close>

definition waitq :: "qid \<Rightarrow> bool" where
  "waitq q \<longleftrightarrow> q \<noteq> Defunct \<and> (\<forall>p. q \<noteq> Ready p)"

text \<open>
  The queues of the kernel, the ready bitmap and the states of the threads agree; the threads \<open>X\<close>
  are in the middle of a transition and in no queue.
\<close>

definition qinv :: "tid set \<Rightarrow> kernel \<Rightarrow> bool" where
  "qinv X k \<longleftrightarrow>
     (\<forall>q. distinct (queues k q)) \<and>
     (\<forall>q q' t. t \<in> set (queues k q) \<longrightarrow> t \<in> set (queues k q') \<longrightarrow> q = q') \<and>
     (\<forall>t \<in> X. unlinked t (queues k)) \<and>
     (\<forall>p. bit (ready_group k) p \<longleftrightarrow> queues k (Ready p) \<noteq> []) \<and>
     (\<forall>t p. t \<in> set (queues k (Ready p)) \<longrightarrow> tstat k t = RT_THREAD_READY \<and> prio k t = p) \<and>
     (\<forall>t. t \<notin> X \<longrightarrow> tstat k t = RT_THREAD_READY \<longrightarrow> t \<in> set (queues k (Ready (prio k t)))) \<and>
     (\<forall>t q. waitq q \<longrightarrow> t \<in> set (queues k q) \<longrightarrow> suspended k t) \<and>
     (\<forall>t \<in> set (queues k Defunct). tstat k t = RT_THREAD_CLOSE) \<and>
     (\<forall>t. prio k t < 32) \<and>
     (\<forall>t. number_mask (threads k t) \<in> {0, 2 ^ prio k t}) \<and>
     (\<forall>t. tstat k t \<notin> {RT_THREAD_INIT, RT_THREAD_CLOSE} \<longrightarrow>
        number_mask (threads k t) = 2 ^ prio k t)"

text \<open>Only the current thread runs, and it is never in a ready list.\<close>

definition cinv :: "kernel \<Rightarrow> bool" where
  "cinv k \<longleftrightarrow> (\<forall>t. tstat k t = RT_THREAD_RUNNING \<longrightarrow> cur k = Some t) \<and>
     (\<forall>t. cur k = Some t \<longrightarrow> tstat k t \<noteq> RT_THREAD_READY)"

definition kinv :: "kernel \<Rightarrow> bool" where
  "kinv k \<longleftrightarrow> qinv {} k \<and> cinv k"

lemma qinvD:
  assumes "qinv X k"
  shows "distinct (queues k q)"
    and "t \<in> set (queues k q) \<Longrightarrow> t \<in> set (queues k q') \<Longrightarrow> q = q'"
    and "t \<in> X \<Longrightarrow> unlinked t (queues k)"
    and "bit (ready_group k) p \<longleftrightarrow> queues k (Ready p) \<noteq> []"
    and "t \<in> set (queues k (Ready p)) \<Longrightarrow> tstat k t = RT_THREAD_READY"
    and "t \<in> set (queues k (Ready p)) \<Longrightarrow> prio k t = p"
    and "t \<notin> X \<Longrightarrow> tstat k t = RT_THREAD_READY \<Longrightarrow> t \<in> set (queues k (Ready (prio k t)))"
    and "waitq q \<Longrightarrow> t \<in> set (queues k q) \<Longrightarrow> suspended k t"
    and "t \<in> set (queues k Defunct) \<Longrightarrow> tstat k t = RT_THREAD_CLOSE"
    and "prio k t < 32"
    and "number_mask (threads k t) = 0 \<or> number_mask (threads k t) = 2 ^ prio k t"
    and "tstat k t \<noteq> RT_THREAD_INIT \<Longrightarrow> tstat k t \<noteq> RT_THREAD_CLOSE \<Longrightarrow>
           number_mask (threads k t) = 2 ^ prio k t"
  using assms unfolding qinv_def by blast+

lemma qinvI:
  assumes "\<And>q. distinct (queues k q)"
    and "\<And>q q' t. t \<in> set (queues k q) \<Longrightarrow> t \<in> set (queues k q') \<Longrightarrow> q = q'"
    and "\<And>t. t \<in> X \<Longrightarrow> unlinked t (queues k)"
    and "\<And>p. bit (ready_group k) p \<longleftrightarrow> queues k (Ready p) \<noteq> []"
    and "\<And>t p. t \<in> set (queues k (Ready p)) \<Longrightarrow> tstat k t = RT_THREAD_READY \<and> prio k t = p"
    and "\<And>t. t \<notin> X \<Longrightarrow> tstat k t = RT_THREAD_READY \<Longrightarrow> t \<in> set (queues k (Ready (prio k t)))"
    and "\<And>t q. waitq q \<Longrightarrow> t \<in> set (queues k q) \<Longrightarrow> suspended k t"
    and "\<And>t. t \<in> set (queues k Defunct) \<Longrightarrow> tstat k t = RT_THREAD_CLOSE"
    and "\<And>t. prio k t < 32"
    and "\<And>t. number_mask (threads k t) \<in> {0, 2 ^ prio k t}"
    and "\<And>t. tstat k t \<noteq> RT_THREAD_INIT \<Longrightarrow> tstat k t \<noteq> RT_THREAD_CLOSE \<Longrightarrow>
           number_mask (threads k t) = 2 ^ prio k t"
  shows "qinv X k"
  using assms unfolding qinv_def by blast

text \<open>The invariant reads the queues, the bitmap and four fields of a thread.\<close>

lemma qinv_cong:
  assumes "queues k' = queues k" "ready_group k' = ready_group k"
    and "\<And>t. tstat k' t = tstat k t"
    and "\<And>t. current_priority (threads k' t) = current_priority (threads k t)"
    and "\<And>t. number_mask (threads k' t) = number_mask (threads k t)"
  shows "qinv X k' = qinv X k"
  by (simp add: qinv_def suspended_tstat prio_def assms)

lemma cinv_cong:
  "cur k' = cur k \<Longrightarrow> (\<And>t. tstat k' t = tstat k t) \<Longrightarrow> cinv k' = cinv k"
  by (simp add: cinv_def)

text \<open>Leaving the middle of a transition, and starting one.\<close>

lemma qinv_settle: "qinv (insert t X) k \<Longrightarrow> tstat k t \<noteq> RT_THREAD_READY \<Longrightarrow> qinv X k"
  by (auto simp: qinv_def)

lemma qinv_begin: "qinv X k \<Longrightarrow> unlinked t (queues k) \<Longrightarrow> qinv (insert t X) k"
  by (auto simp: qinv_def)

lemma qinv_unlinked: "qinv (insert t X) k \<Longrightarrow> unlinked t (queues k)"
  by (simp add: qinv_def)

text \<open>A thread in transition may change its state and priority freely, its mask in step.\<close>

lemma qinv_upd:
  assumes "qinv (insert t X) k"
    and "unat (current_priority (f (threads k t))) < 32"
    and "number_mask (f (threads k t)) \<in> {0, 2 ^ unat (current_priority (f (threads k t)))}"
    and "stat (f (threads k t)) AND 7 \<notin> {RT_THREAD_INIT, RT_THREAD_CLOSE} \<Longrightarrow>
           number_mask (f (threads k t)) = 2 ^ unat (current_priority (f (threads k t)))"
  shows "qinv (insert t X) (upd_thread t f k)"
proof -
  have u: "t \<notin> set (queues k q)" for q
    using qinv_unlinked[OF assms(1)] by (simp add: unlinked_def)
  have s: "tstat (upd_thread t f k) v = (if v = t then stat (f (threads k t)) AND 7 else tstat k v)"
    "prio (upd_thread t f k) v = (if v = t then unat (current_priority (f (threads k t))) else prio k v)"
    for v by (simp_all add: tstat_upd_thread prio_def)
  show ?thesis
    using assms u unfolding qinv_def suspended_tstat s upd_thread_frame threads_upd_thread
    by (auto split: if_splits)
qed

section \<open>A small system\<close>

text \<open>
  A concrete state on which the theorems are exercised: thread 0 (priority 10) runs, thread 1
  (priority 5) and threads 2 and 3 (priority 10) are ready, thread 4 (priority 3) waits for
  semaphore 0; no timer is active.
\<close>

definition example_thread :: "u8 \<Rightarrow> u8 \<Rightarrow> rt_thread" where
  "example_thread st p =
     \<lparr>error = RT_EOK, stat = st, current_priority = p, init_priority = p,
      number_mask = (if st = RT_THREAD_INIT then 0 else 2 ^ unat p), taken_object_list = [],
      pending_object = None, event_set = 0, event_info = 0, init_tick = 10,
      remaining_tick = 10, static_object = True\<rparr>"

definition example_kernel :: kernel where
  "example_kernel =
     \<lparr>threads = (\<lambda>t. if t = 0 then example_thread 3 10 else if t = 1 then example_thread 2 5
        else if t = 2 \<or> t = 3 then example_thread 2 10 else if t = 4 then example_thread 7 3
        else example_thread 0 20),
      queues = (\<lambda>q. if q = Ready 5 then [1] else if q = Ready 10 then [2, 3]
        else if q = SemQ 0 then [4] else []),
      ready_group = 0x420, lock_nest = 0, cur = Some 0, cur_priority = 10, interrupt_nest = 0,
      irq_disabled = False, tick = 100,
      timers = (\<lambda>t. \<lparr>timer_flag = 0, timeout_func = (case t of ThreadTimer _ \<Rightarrow> ThreadTimeout
          | UserTimer n \<Rightarrow> UserTimeout n), parameter = (case t of ThreadTimer n \<Rightarrow> n | _ \<Rightarrow> 0),
          timer_init_tick = 0, timeout_tick = 0\<rparr>),
      timer_lists = (\<lambda>_. []),
      sems = (\<lambda>_. \<lparr>sem_value = 0, sem_flag = 0\<rparr>),
      mutexes = (\<lambda>_. \<lparr>ceiling_priority = 0xff, mutex_priority = 0xff, hold = 0, owner = None,
          mutex_flag = 1\<rparr>),
      events = (\<lambda>_. \<lparr>ev_set = 0, ev_flag = 0\<rparr>),
      mailboxes = (\<lambda>_. \<lparr>msg_pool = [0, 0, 0], mb_size = 3, mb_entry = 0, in_offset = 0,
          out_offset = 0, mb_flag = 0\<rparr>),
      mqueues = (\<lambda>_. \<lparr>node = (\<lambda>n. \<lparr>msg_next = (if n = 1 then Some 0 else None),
            msg_length = 0, msg_bytes = replicate 8 0\<rparr>),
          msg_size = 8, max_msgs = 2, mq_entry = 0, msg_queue_head = None, msg_queue_tail = None,
          msg_queue_free = Some 1, mq_flag = 0\<rparr>),
      mempools = (\<lambda>_. \<lparr>start_address = 0x1000, mp_size = 32, block_size = 12, block_list = 0x1000,
          block_total_count = 2, block_free_count = 2\<rparr>),
      block_words = (\<lambda>a. NextBlock (if a = 0x1000 then 0x1010 else 0))\<rparr>"

lemma example_tstat:
  "tstat example_kernel t = (if t = 0 then 3 else if t \<in> {1, 2, 3} then 2 else if t = 4 then 7 else 0)"
  by (simp add: tstat_def example_kernel_def example_thread_def)

lemma example_prio:
  "prio example_kernel t = (if t = 1 then 5 else if t \<in> {0, 2, 3} then 10 else if t = 4 then 3 else 20)"
  by (simp add: prio_def example_kernel_def example_thread_def)

lemma example_queues:
  "queues example_kernel q = (if q = Ready 5 then [1] else if q = Ready 10 then [2, 3]
     else if q = SemQ 0 then [4] else [])"
  by (simp add: example_kernel_def)

lemma example_mask:
  "number_mask (threads example_kernel t) =
     (if t = 1 then 2 ^ 5 else if t \<in> {0, 2, 3} then 2 ^ 10 else if t = 4 then 2 ^ 3 else 0)"
  by (simp add: example_kernel_def example_thread_def)

lemma example_group: "bit (ready_group example_kernel) p \<longleftrightarrow> p = 5 \<or> p = 10"
proof -
  have "ready_group example_kernel = 2 ^ 5 OR 2 ^ 10" by (simp add: example_kernel_def)
  then show ?thesis by (simp only: bit_or_iff bit_exp_iff) auto
qed

lemma example_kinv: "kinv example_kernel"
  unfolding kinv_def
proof
  show "qinv {} example_kernel"
    by (rule qinvI)
      (auto simp: example_tstat example_prio example_queues example_mask example_group
        suspended_tstat waitq_def split: if_splits)
  show "cinv example_kernel"
    unfolding cinv_def example_tstat by (simp add: example_kernel_def)
qed

text \<open>The same system before thread 1 was started.\<close>

definition example_quiet :: kernel where
  "example_quiet = example_kernel
     \<lparr>threads := (threads example_kernel)(1 := example_thread 0 5),
      queues := (queues example_kernel)(Ready 5 := []), ready_group := 2 ^ 10\<rparr>"

lemma quiet_simps:
  "tstat example_quiet t = (if t = 0 then 3 else if t \<in> {2, 3} then 2 else if t = 4 then 7 else 0)"
  "prio example_quiet t = prio example_kernel t"
  "queues example_quiet q = (if q = Ready 10 then [2, 3] else if q = SemQ 0 then [4] else [])"
  "number_mask (threads example_quiet t) =
     (if t \<in> {0, 2, 3} then 2 ^ 10 else if t = 4 then 2 ^ 3 else 0)"
  "cur example_quiet = Some 0"
  by (simp_all add: tstat_def prio_def example_quiet_def example_kernel_def example_thread_def)

lemma quiet_kinv: "kinv example_quiet"
  unfolding kinv_def
proof
  have g: "bit (ready_group example_quiet) p \<longleftrightarrow> p = 10" for p
    by (simp add: example_quiet_def bit_exp_iff del: power_numeral) auto
  show "qinv {} example_quiet"
    by (rule qinvI)
      (auto simp: quiet_simps example_prio g suspended_tstat waitq_def split: if_splits)
  show "cinv example_quiet"
    unfolding cinv_def quiet_simps by simp
qed

end
