(* ===== verification/Scheduler.thy ===== *)
theory Scheduler
  imports KernelState
begin

text \<open>
  \<open>src/scheduler_up.c\<close> and the interrupt nesting counter of \<open>src/irq.c\<close>: the ready queues, the choice of the next thread and the scheduler lock.
  The context switch itself (registers and stacks) and the stack overflow check are not modelled:
  \<open>rt_schedule\<close> ends with the new current thread.
\<close>

section \<open>Operations\<close>

definition rt_schedule_insert_thread :: "tid \<Rightarrow> kernel \<Rightarrow> kernel" where
  "rt_schedule_insert_thread t k =
     (if cur k = Some t then upd_thread t (set_stat RT_THREAD_RUNNING) k
      else
        let k1 = upd_thread t (set_stat RT_THREAD_READY) k;
            k2 = (if stat (threads k1 t) AND RT_THREAD_STAT_YIELD_MASK \<noteq> 0
                  then k1\<lparr>queues := q_push_back (Ready (prio k1 t)) t (queues k1)\<rparr>
                  else k1\<lparr>queues := q_push_front (Ready (prio k1 t)) t (queues k1)\<rparr>)
        in k2\<lparr>ready_group := ready_group k2 OR number_mask (threads k2 t)\<rparr>)"

definition rt_schedule_remove_thread :: "tid \<Rightarrow> kernel \<Rightarrow> kernel" where
  "rt_schedule_remove_thread t k =
     (let k1 = k\<lparr>queues := q_remove t (queues k)\<rparr>
      in if queues k1 (Ready (prio k1 t)) = []
         then k1\<lparr>ready_group := ready_group k1 AND NOT (number_mask (threads k1 t))\<rparr>
         else k1)"

text \<open>With an empty bitmap the C code would read outside the table.\<close>

definition scheduler_get_highest_priority_thread :: "kernel \<Rightarrow> (tid \<times> nat) option" where
  "scheduler_get_highest_priority_thread k =
     (if ready_group k = 0 then None
      else let p = rt_ffs (ready_group k) - 1
           in case queues k (Ready p) of [] \<Rightarrow> None | t # _ \<Rightarrow> Some (t, p))"

definition rt_system_scheduler_init :: "kernel \<Rightarrow> kernel" where
  "rt_system_scheduler_init k =
     k\<lparr>lock_nest := 0,
       queues := fold (\<lambda>offset q. q(Ready offset := [])) [0..<32] (queues k),
       ready_group := 0\<rparr>"

definition rt_system_scheduler_start :: "kernel \<Rightarrow> kernel option" where
  "rt_system_scheduler_start k =
     do {
       (to_thread, _) \<leftarrow> scheduler_get_highest_priority_thread k;
       let k1 = k\<lparr>cur := Some to_thread\<rparr>;
       let k2 = rt_schedule_remove_thread to_thread k1;
       Some (upd_thread to_thread (\<lambda>th. th\<lparr>stat := RT_THREAD_RUNNING\<rparr>) k2)
     }"

text \<open>The switch of \<open>rt_schedule\<close> to another thread, after the decision.\<close>

definition schedule_switch :: "tid \<Rightarrow> tid \<Rightarrow> nat \<Rightarrow> bool \<Rightarrow> kernel \<Rightarrow> kernel" where
  "schedule_switch from_thread to_thread highest_ready_priority need_insert_from_thread k =
     (let k1 = k\<lparr>cur_priority := of_nat highest_ready_priority, cur := Some to_thread\<rparr>;
          k2 = (if need_insert_from_thread then rt_schedule_insert_thread from_thread k1 else k1);
          k3 = rt_schedule_remove_thread to_thread k2
      in upd_thread to_thread (set_stat RT_THREAD_RUNNING) k3)"

definition rt_schedule :: "kernel \<Rightarrow> kernel option" where
  "rt_schedule k =
     (if lock_nest k = 0 \<and> ready_group k \<noteq> 0 then
        do {
          (highest, p) \<leftarrow> scheduler_get_highest_priority_thread k;
          c \<leftarrow> cur k;
          let running = (tstat k c = RT_THREAD_RUNNING);
          let stay = (running \<and>
                 (prio k c < p \<or>
                  prio k c = p \<and> stat (threads k c) AND RT_THREAD_STAT_YIELD_MASK = 0));
          let need_insert_from_thread = (running \<and> \<not> stay);
          let to_thread = (if stay then c else highest);
          let k1 = (if running
                    then upd_thread c (\<lambda>th. th\<lparr>stat := stat th AND NOT RT_THREAD_STAT_YIELD_MASK\<rparr>) k
                    else k);
          Some (if to_thread \<noteq> c
                then schedule_switch c to_thread p need_insert_from_thread k1
                else upd_thread c (set_stat RT_THREAD_RUNNING) (rt_schedule_remove_thread c k1))
        }
      else Some k)"

definition rt_enter_critical :: "kernel \<Rightarrow> kernel" where
  "rt_enter_critical k = k\<lparr>lock_nest := lock_nest k + 1\<rparr>"

definition rt_exit_critical :: "kernel \<Rightarrow> kernel option" where
  "rt_exit_critical k =
     (let k1 = k\<lparr>lock_nest := lock_nest k - 1\<rparr>
      in if sint (lock_nest k1) \<le> 0
         then let k2 = k1\<lparr>lock_nest := 0\<rparr>
              in if cur k2 \<noteq> None then rt_schedule k2 else Some k2
         else Some k1)"

definition rt_interrupt_enter :: "kernel \<Rightarrow> kernel" where
  "rt_interrupt_enter k = k\<lparr>interrupt_nest := interrupt_nest k + 1\<rparr>"

definition rt_interrupt_leave :: "kernel \<Rightarrow> kernel" where
  "rt_interrupt_leave k = k\<lparr>interrupt_nest := interrupt_nest k - 1\<rparr>"

definition rt_interrupt_get_nest :: "kernel \<Rightarrow> u8" where
  "rt_interrupt_get_nest k = interrupt_nest k"

definition rt_critical_level :: "kernel \<Rightarrow> u16" where
  "rt_critical_level k = lock_nest k"

text \<open>\<open>RT_DEBUG_SCHEDULER_AVAILABLE\<close> and its two companions, as conditions.\<close>

definition not_in_interrupt :: "kernel \<Rightarrow> bool" where
  "not_in_interrupt k \<longleftrightarrow> rt_interrupt_get_nest k = 0"

definition in_thread_context :: "kernel \<Rightarrow> bool" where
  "in_thread_context k \<longleftrightarrow> rt_thread_self k \<noteq> None \<and> not_in_interrupt k"

definition scheduler_available :: "kernel \<Rightarrow> bool" where
  "scheduler_available k \<longleftrightarrow>
     rt_critical_level k = 0 \<and> \<not> irq_disabled k \<and> in_thread_context k"

section \<open>Frames\<close>

lemma remove_frame [simp, frame_simps]:
  "threads (rt_schedule_remove_thread t k) = threads k"
  "queues (rt_schedule_remove_thread t k) = q_remove t (queues k)"
  "cur (rt_schedule_remove_thread t k) = cur k"
  "lock_nest (rt_schedule_remove_thread t k) = lock_nest k"
  "cur_priority (rt_schedule_remove_thread t k) = cur_priority k"
  "interrupt_nest (rt_schedule_remove_thread t k) = interrupt_nest k"
  "irq_disabled (rt_schedule_remove_thread t k) = irq_disabled k"
  "tick (rt_schedule_remove_thread t k) = tick k"
  "timers (rt_schedule_remove_thread t k) = timers k"
  "timer_lists (rt_schedule_remove_thread t k) = timer_lists k"
  "sems (rt_schedule_remove_thread t k) = sems k"
  "mutexes (rt_schedule_remove_thread t k) = mutexes k"
  "events (rt_schedule_remove_thread t k) = events k"
  "mailboxes (rt_schedule_remove_thread t k) = mailboxes k"
  "mqueues (rt_schedule_remove_thread t k) = mqueues k" "mempools (rt_schedule_remove_thread t k) = mempools k"
  "block_words (rt_schedule_remove_thread t k) = block_words k"
  by (simp_all add: rt_schedule_remove_thread_def Let_def)

lemma insert_frame [simp, frame_simps]:
  "cur (rt_schedule_insert_thread t k) = cur k"
  "lock_nest (rt_schedule_insert_thread t k) = lock_nest k"
  "cur_priority (rt_schedule_insert_thread t k) = cur_priority k"
  "interrupt_nest (rt_schedule_insert_thread t k) = interrupt_nest k"
  "irq_disabled (rt_schedule_insert_thread t k) = irq_disabled k"
  "tick (rt_schedule_insert_thread t k) = tick k"
  "timers (rt_schedule_insert_thread t k) = timers k"
  "timer_lists (rt_schedule_insert_thread t k) = timer_lists k"
  "sems (rt_schedule_insert_thread t k) = sems k"
  "mutexes (rt_schedule_insert_thread t k) = mutexes k"
  "events (rt_schedule_insert_thread t k) = events k"
  "mailboxes (rt_schedule_insert_thread t k) = mailboxes k"
  "mqueues (rt_schedule_insert_thread t k) = mqueues k" "mempools (rt_schedule_insert_thread t k) = mempools k"
  "block_words (rt_schedule_insert_thread t k) = block_words k"
  by (simp_all add: rt_schedule_insert_thread_def Let_def)

lemma threads_insert:
  "threads (rt_schedule_insert_thread t k) u =
     (if u = t then set_stat (if cur k = Some t then RT_THREAD_RUNNING else RT_THREAD_READY) (threads k t)
      else threads k u)"
  by (simp add: rt_schedule_insert_thread_def Let_def)

lemma tstat_remove [simp]: "tstat (rt_schedule_remove_thread t k) u = tstat k u"
  by (simp add: tstat_def)

lemma prio_remove [simp]: "prio (rt_schedule_remove_thread t k) u = prio k u"
  by (simp add: prio_def)

lemma tstat_insert:
  "tstat (rt_schedule_insert_thread t k) u =
     (if u = t then (if cur k = Some t then RT_THREAD_RUNNING else RT_THREAD_READY) else tstat k u)"
  by (auto simp: tstat_def threads_insert stat_set_stat)

lemma prio_insert [simp]: "prio (rt_schedule_insert_thread t k) u = prio k u"
  by (simp add: prio_def threads_insert)

lemma queues_insert:
  "queues (rt_schedule_insert_thread t k) =
     (if cur k = Some t then queues k
      else if stat (threads k t) AND RT_THREAD_STAT_YIELD_MASK \<noteq> 0
      then q_push_back (Ready (prio k t)) t (queues k)
      else q_push_front (Ready (prio k t)) t (queues k))"
  by (simp add: rt_schedule_insert_thread_def Let_def yield_set_stat prio_def)

lemma ready_group_insert:
  "ready_group (rt_schedule_insert_thread t k) =
     (if cur k = Some t then ready_group k else ready_group k OR number_mask (threads k t))"
  by (simp add: rt_schedule_insert_thread_def Let_def)

lemma ready_group_remove:
  "ready_group (rt_schedule_remove_thread t k) =
     (if q_remove t (queues k) (Ready (prio k t)) = []
      then ready_group k AND NOT (number_mask (threads k t)) else ready_group k)"
  by (simp add: rt_schedule_remove_thread_def Let_def prio_def)

section \<open>The invariant\<close>

lemma qinv_remove:
  assumes "qinv X k"
  shows "qinv (insert t X) (rt_schedule_remove_thread t k)"
proof -
  note D = qinvD[OF assms]
  let ?k = "rt_schedule_remove_thread t k"
  have sub: "set (queues ?k q) = set (queues k q) - {t}" for q
    by (simp add: q_remove_def)
  have bits: "bit (ready_group ?k) p \<longleftrightarrow> queues ?k (Ready p) \<noteq> []" for p
  proof (cases "t \<in> set (queues k (Ready (prio k t)))")
    case True
    then have m: "number_mask (threads k t) = 2 ^ prio k t"
      using D(5)[OF True] D(12)[of t] by simp
    have "q_remove t (queues k) (Ready p) = queues k (Ready p)" if "p \<noteq> prio k t"
    proof -
      have "t \<notin> set (queues k (Ready p))" using D(6)[of t p] that by blast
      then show ?thesis by (simp add: q_remove_def)
    qed
    then show ?thesis
      using D(4)[of p] D(10)[of t] True
      by (cases "p = prio k t")
        (auto simp: ready_group_remove m bit_simps q_remove_def dest: bit_imp_le_length)
  next
    case False
    then have "t \<notin> set (queues k (Ready p))" for p using D(6)[of t p] by auto
    then have same: "q_remove t (queues k) (Ready p) = queues k (Ready p)" for p
      by (simp add: q_remove_def)
    have "ready_group ?k = ready_group k"
    proof (cases "queues k (Ready (prio k t)) = []")
      case True
      then have "\<not> bit (ready_group k) (prio k t)" using D(4) by simp
      then have "ready_group k AND NOT (2 ^ prio k t) = ready_group k"
        by (intro bit_eqI) (auto simp: bit_simps)
      then show ?thesis using D(11)[of t] True by (auto simp: ready_group_remove same)
    qed (simp add: ready_group_remove same)
    then show ?thesis using D(4) same by simp
  qed
  show ?thesis
    unfolding qinv_def
    using D bits by (auto simp: unlinked_def sub suspended_tstat q_remove_def distinct_removeAll)
qed

text \<open>Unlinking a thread that is not ready leaves the bitmap alone.\<close>

lemma remove_not_ready:
  assumes q: "qinv X k" and "tstat k t \<noteq> RT_THREAD_READY"
  shows "rt_schedule_remove_thread t k = k\<lparr>queues := q_remove t (queues k)\<rparr>"
proof -
  note D = qinvD[OF q]
  have "t \<notin> set (queues k (Ready p))" for p using D(5)[of t p] assms(2) by blast
  then have same: "q_remove t (queues k) (Ready p) = queues k (Ready p)" for p
    by (simp add: q_remove_def)
  have "ready_group k AND NOT (number_mask (threads k t)) = ready_group k"
    if "queues k (Ready (prio k t)) = []"
  proof -
    have "\<not> bit (ready_group k) (prio k t)" using D(4) that by simp
    then have "ready_group k AND NOT (2 ^ prio k t) = ready_group k"
      by (intro bit_eqI) (auto simp: bit_simps)
    then show ?thesis using D(11)[of t] by auto
  qed
  moreover have "prio (k\<lparr>queues := q_remove t (queues k)\<rparr>) t = prio k t" by (simp add: prio_def)
  ultimately show ?thesis
    by (auto simp: rt_schedule_remove_thread_def Let_def same)
qed

lemma qinv_unlink:
  assumes "qinv X k" "tstat k t \<noteq> RT_THREAD_READY"
  shows "qinv (insert t X) (k\<lparr>queues := q_remove t (queues k)\<rparr>)"
  using qinv_remove[OF assms(1), of t] remove_not_ready[OF assms] by simp

lemma qinv_insert:
  assumes "qinv (insert t X) k" "t \<notin> X" "number_mask (threads k t) = 2 ^ prio k t"
  shows "qinv X (rt_schedule_insert_thread t k)"
proof (cases "cur k = Some t")
  case True
  have "qinv (insert t X) (upd_thread t (set_stat RT_THREAD_RUNNING) k)"
    using assms qinvD(10)[OF assms(1), of t] by (intro qinv_upd) (auto simp: prio_def)
  from qinv_settle[OF this] show ?thesis
    using True by (simp add: rt_schedule_insert_thread_def tstat_upd_thread stat_set_stat)
next
  case False
  note D = qinvD[OF assms(1)]
  let ?k = "rt_schedule_insert_thread t k" and ?p = "prio k t"
  have u: "t \<notin> set (queues k q)" for q using D(3)[of t] by (simp add: unlinked_def)
  have sub: "set (queues ?k q) = (if q = Ready ?p then insert t (set (queues k q)) else set (queues k q))"
    for q using False by (auto simp: queues_insert q_push_back_def q_push_front_def)
  have dist: "distinct (queues ?k q)" for q
    using D(1)[of q] u[of q] False by (auto simp: queues_insert q_push_back_def q_push_front_def)
  have bits: "bit (ready_group ?k) p \<longleftrightarrow> queues ?k (Ready p) \<noteq> []" for p
  proof (cases "p = ?p")
    case True
    then have "queues ?k (Ready p) \<noteq> []" using sub[of "Ready p"] by auto
    then show ?thesis using True False D(10)[of t] assms(3) by (simp add: ready_group_insert bit_simps)
  next
    case p: False
    then have "queues ?k (Ready p) = queues k (Ready p)"
      using False by (simp add: queues_insert q_push_back_def q_push_front_def)
    with p show ?thesis using False D(4)[of p] assms(3) by (simp add: ready_group_insert bit_simps)
  qed
  have st: "tstat ?k v = (if v = t then RT_THREAD_READY else tstat k v)" for v
    using False by (simp add: tstat_insert)
  show ?thesis
  proof (rule qinvI)
    show "v \<in> set (queues ?k q) \<Longrightarrow> v \<in> set (queues ?k q') \<Longrightarrow> q = q'" for q q' v
      using D(2)[of v q q'] u[of q] u[of q'] unfolding sub by (auto split: if_splits)
    show "v \<in> X \<Longrightarrow> unlinked v (queues ?k)" for v
      using D(3)[of v] assms(2) by (auto simp: unlinked_def sub)
    show "v \<in> set (queues ?k (Ready p)) \<Longrightarrow> tstat ?k v = RT_THREAD_READY \<and> prio ?k v = p" for v p
      using D(5,6)[of v p] u[of "Ready p"] by (auto simp: sub st split: if_splits)
    show "v \<notin> X \<Longrightarrow> tstat ?k v = RT_THREAD_READY \<Longrightarrow> v \<in> set (queues ?k (Ready (prio ?k v)))" for v
      using D(7)[of v] by (auto simp: sub st split: if_splits)
    show "waitq q \<Longrightarrow> v \<in> set (queues ?k q) \<Longrightarrow> suspended ?k v" for v q
      using D(8)[of q v] u[of q] by (auto simp: sub st suspended_tstat waitq_def)
    show "v \<in> set (queues ?k Defunct) \<Longrightarrow> tstat ?k v = RT_THREAD_CLOSE" for v
      using D(9)[of v] u[of Defunct] by (auto simp: sub st)
    show "tstat ?k v \<noteq> RT_THREAD_INIT \<Longrightarrow> tstat ?k v \<noteq> RT_THREAD_CLOSE \<Longrightarrow>
        number_mask (threads ?k v) = 2 ^ prio ?k v" for v
      using D(12)[of v] assms(3) by (auto simp: st threads_insert)
    show "number_mask (threads ?k v) \<in> {0, 2 ^ prio ?k v}" for v
      using D(11)[of v] assms(3) by (auto simp: threads_insert)
  qed (use D(10) dist bits in simp_all)
qed

lemma state_unlinked:
  assumes "qinv X k" "\<not> suspended k t" "tstat k t \<noteq> RT_THREAD_READY" "tstat k t \<noteq> RT_THREAD_CLOSE"
  shows "unlinked t (queues k)"
  unfolding unlinked_def
proof
  show "t \<notin> set (queues k q)" for q
    using qinvD(5)[OF assms(1), of t] qinvD(8)[OF assms(1), of q t] qinvD(9)[OF assms(1), of t] assms(2-)
    by (cases q) (auto simp: waitq_def)
qed

lemma running_unlinked: "qinv X k \<Longrightarrow> tstat k t = RT_THREAD_RUNNING \<Longrightarrow> unlinked t (queues k)"
  by (rule state_unlinked) (simp_all add: suspended_codes)

section \<open>The choice of the next thread\<close>

definition runnable :: "kernel \<Rightarrow> tid \<Rightarrow> bool" where
  "runnable k t \<longleftrightarrow> tstat k t = RT_THREAD_READY \<or> tstat k t = RT_THREAD_RUNNING"

lemma highest_ready:
  assumes "qinv {} k" "ready_group k \<noteq> 0"
  obtains h p where "scheduler_get_highest_priority_thread k = Some (h, p)"
    and "queues k (Ready p) \<noteq> []" "h = hd (queues k (Ready p))" "p < 32"
    and "\<And>t. tstat k t = RT_THREAD_READY \<Longrightarrow> p \<le> prio k t"
proof -
  let ?p = "rt_ffs (ready_group k) - 1"
  note D = qinvD[OF assms(1)] and f = rt_ffs_lowest[OF assms(2)]
  from f(1) D(4) have ne: "queues k (Ready ?p) \<noteq> []" by simp
  have "?p \<le> prio k t" if "tstat k t = RT_THREAD_READY" for t
    using D(7)[OF _ that] D(4)[of "prio k t"] f(2)[of "prio k t"] by (fastforce simp: not_less[symmetric])
  moreover have "scheduler_get_highest_priority_thread k = Some (hd (queues k (Ready ?p)), ?p)"
    using ne assms(2) by (simp add: scheduler_get_highest_priority_thread_def Let_def split: list.split)
  ultimately show ?thesis using that ne f(3) by blast
qed

text \<open>What scheduling leaves alone.\<close>

definition rest where
  "rest k = (lock_nest k, interrupt_nest k, irq_disabled k, tick k, timers k, timer_lists k,
     sems k, mutexes k, events k, mailboxes k, mqueues k, mempools k, block_words k)"

definition sched_frame :: "kernel \<Rightarrow> kernel \<Rightarrow> bool" where
  "sched_frame k k' \<longleftrightarrow>
     rest k' = rest k \<and>
     (\<forall>t. threads k' t = (threads k t)\<lparr>stat := stat (threads k' t)\<rparr>) \<and>
     (\<forall>t. runnable k' t = runnable k t) \<and>
     (\<forall>t. \<not> runnable k t \<longrightarrow> threads k' t = threads k t) \<and>
     (\<forall>q. (\<forall>p. q \<noteq> Ready p) \<longrightarrow> queues k' q = queues k q)"

lemma sched_frame_refl [simp]: "sched_frame k k"
  by (simp add: sched_frame_def)

text \<open>The highest priority among the runnable threads runs.\<close>

definition highest_runs :: "kernel \<Rightarrow> kernel \<Rightarrow> bool" where
  "highest_runs k k' \<longleftrightarrow>
     (\<exists>n. cur k' = Some n \<and> tstat k' n = RT_THREAD_RUNNING \<and>
          (\<forall>t. runnable k t \<longrightarrow> prio k n \<le> prio k t))"

lemma upd_stat_frame:
  "threads (upd_thread t (set_stat s) k) u =
     (threads k u)\<lparr>stat := if u = t then s OR (stat (threads k t) AND - 8) else stat (threads k u)\<rparr>"
  by (simp add: set_stat_def)

lemma schedule_switch_correct:
  assumes q: "qinv {} k" and h: "h \<in> set (queues k (Ready p))" and c: "cur k = Some c" "c \<noteq> h"
    and one: "\<And>t. tstat k t = RT_THREAD_RUNNING \<Longrightarrow> t = c"
    and need: "need \<longleftrightarrow> tstat k c = RT_THREAD_RUNNING" and nr: "tstat k c \<noteq> RT_THREAD_READY"
  shows "kinv (schedule_switch c h p need k)" "sched_frame k (schedule_switch c h p need k)"
    and "cur (schedule_switch c h p need k) = Some h"
    and "tstat (schedule_switch c h p need k) h = RT_THREAD_RUNNING"
proof -
  define k1 where "k1 = k\<lparr>cur_priority := of_nat p, cur := Some h\<rparr>"
  define k2 where "k2 = (if need then rt_schedule_insert_thread c k1 else k1)"
  define k3 where "k3 = rt_schedule_remove_thread h k2"
  define k' where "k' = upd_thread h (set_stat RT_THREAD_RUNNING) k3"
  have sw: "schedule_switch c h p need k = k'"
    by (simp add: schedule_switch_def Let_def k1_def k2_def k3_def k'_def)
  have hr: "tstat k h = RT_THREAD_READY" using qinvD(5)[OF q h] .
  have th1: "threads k1 = threads k" and qs1: "queues k1 = queues k" and c1: "cur k1 = Some h"
    by (simp_all add: k1_def)
  have q1: "qinv {} k1" using q by (subst qinv_cong[of _ k]) (simp_all add: tstat_def k1_def)
  have th2: "threads k2 u = (if need \<and> u = c then set_stat RT_THREAD_READY (threads k c) else threads k u)"
    for u using c(2) th1 c1 by (simp add: k2_def threads_insert)
  have qs2: "queues k2 g = queues k g" if "\<forall>p. g \<noteq> Ready p" for g
    using that qs1 by (simp add: k2_def queues_insert q_push_back_def q_push_front_def)
  have cr2: "cur k2 = Some h" and r2: "rest k2 = rest k" by (simp_all add: k2_def k1_def rest_def)
  have q2: "qinv {} k2"
  proof (cases need)
    case True
    then have r: "tstat k1 c = RT_THREAD_RUNNING" using need th1 by (simp add: tstat_def)
    have "qinv {c} k1" by (rule qinv_begin[OF q1 running_unlinked[OF q1 r]])
    moreover have "number_mask (threads k1 c) = 2 ^ prio k1 c"
      using qinvD(12)[OF q1, of c] r by simp
    ultimately show ?thesis using True by (simp add: qinv_insert k2_def)
  qed (use q1 in \<open>simp add: k2_def\<close>)
  have ts2: "tstat k2 u = (if need \<and> u = c then RT_THREAD_READY else tstat k u)" for u
    by (simp add: tstat_def th2 stat_set_stat)
  have q3: "qinv {h} k3" unfolding k3_def by (rule qinv_remove[OF q2])
  have th3: "threads k3 = threads k2" "queues k3 = q_remove h (queues k2)" "cur k3 = cur k2"
    "rest k3 = rest k2" by (simp_all add: k3_def rest_def)
  have "number_mask (threads k3 h) = 2 ^ prio k3 h"
    using qinvD(12)[OF q3, of h] ts2[of h] hr c(2) th3(1) by (simp add: tstat_def)
  then have qh: "qinv {h} k'"
    unfolding k'_def using qinvD(10)[OF q3, of h] q3
    by (intro qinv_upd) (simp_all add: prio_def)
  have th': "threads k' u = (if u = h then set_stat RT_THREAD_RUNNING (threads k h) else threads k2 u)"
    for u using c(2) by (simp add: k'_def th3 th2)
  have th: "tstat k' h = RT_THREAD_RUNNING" by (simp add: tstat_def th' stat_set_stat)
  have q': "qinv {} k'" by (rule qinv_settle[OF qh]) (simp add: th)
  have ts': "tstat k' u = (if u = h then RT_THREAD_RUNNING
      else if need \<and> u = c then RT_THREAD_READY else tstat k u)" for u
    using th ts2[of u] by (simp add: tstat_def th')
  have cur': "cur k' = Some h" by (simp add: k'_def th3 cr2)
  show "cur (schedule_switch c h p need k) = Some h"
    "tstat (schedule_switch c h p need k) h = RT_THREAD_RUNNING"
    unfolding sw by (rule cur', rule th)
  have run: "t = h" if r: "tstat k' t = RT_THREAD_RUNNING" for t
  proof (rule ccontr)
    assume "t \<noteq> h"
    with r ts'[of t] have t: "tstat k t = RT_THREAD_RUNNING" "\<not> (need \<and> t = c)"
      by (auto split: if_splits)
    from one[OF t(1)] t need show False by simp
  qed
  show "kinv (schedule_switch c h p need k)"
    unfolding sw kinv_def cinv_def cur' using q' th by (auto dest: run)
  have "queues k' g = queues k g" if g: "\<forall>p. g \<noteq> Ready p" for g
  proof -
    have "h \<notin> set (queues k g)" using qinvD(2)[OF q h] g by blast
    then show ?thesis by (simp add: k'_def th3 q_remove_def qs2[OF g])
  qed
  moreover have "runnable k' u = runnable k u" for u
    unfolding runnable_def ts' using hr need by auto
  moreover have "threads k' u = (threads k u)\<lparr>stat := stat (threads k' u)\<rparr>" for u
    by (simp add: th' th2 set_stat_def)
  moreover have "threads k' u = threads k u" if "\<not> runnable k u" for u
    using that hr need by (auto simp: th' th2 runnable_def)
  moreover have "rest k' = rest k" using r2 th3(4) by (simp add: k'_def rest_def)
  ultimately show "sched_frame k (schedule_switch c h p need k)"
    unfolding sw sched_frame_def by blast
qed

lemma tstat_clear_yield:
  "tstat (upd_thread t (\<lambda>th. th\<lparr>stat := stat th AND NOT 8\<rparr>) k) u = tstat k u"
  using stat_code_clear_yield by (simp add: tstat_upd_thread) (simp add: tstat_def)

lemma qinv_clear_yield:
  "qinv X (upd_thread t (\<lambda>th. th\<lparr>stat := stat th AND NOT 8\<rparr>) k) = qinv X k"
  by (rule qinv_cong) (simp_all add: tstat_clear_yield[simplified])

lemma prio_clear_yield [simp]:
  "prio (upd_thread t (\<lambda>th. th\<lparr>stat := s th\<rparr>) k) u = prio k u"
  by (simp add: prio_def)

text \<open>The current thread stays when it runs and nothing better is ready.\<close>

lemma schedule_stay:
  assumes q: "qinv {} k" and r: "tstat k c = RT_THREAD_RUNNING" and cinv: "cinv k"
    and k': "k' = upd_thread c (set_stat RT_THREAD_RUNNING) (rt_schedule_remove_thread c
               (upd_thread c (\<lambda>th. th\<lparr>stat := stat th AND NOT 8\<rparr>) k))"
  shows "kinv k'" "sched_frame k k'" "cur k' = cur k" "tstat k' u = tstat k u"
    "queues k' = queues k" "ready_group k' = ready_group k"
proof -
  let ?k1 = "upd_thread c (\<lambda>th. th\<lparr>stat := stat th AND NOT 8\<rparr>) k"
  have u: "unlinked c (queues k)" by (rule running_unlinked[OF q r])
  have st: "tstat k' v = tstat k v" for v
    using r tstat_clear_yield[of c k v] stat_set_stat[of 3]
    by (auto simp: k' tstat_def)
  show "tstat k' u = tstat k u" by (rule st)
  have q1: "qinv {} ?k1" using q by (simp only: qinv_clear_yield)
  show qs: "queues k' = queues k" by (simp add: k' q_remove_unlinked u)
  show gr: "ready_group k' = ready_group k"
  proof -
    have "ready_group k AND NOT (2 ^ prio k c) = ready_group k" if "queues k (Ready (prio k c)) = []"
      using qinvD(4)[OF q, of "prio k c"] that by (intro bit_eqI) (auto simp: bit_simps)
    moreover have "number_mask (threads k c) = 2 ^ prio k c"
      using qinvD(12)[OF q, of c] r by simp
    ultimately show ?thesis
      by (simp add: k' ready_group_remove q_remove_unlinked u)
  qed
  have q': "qinv {} k'"
    using q by (subst qinv_cong[of k' k]) (simp_all add: qs gr st, simp_all add: k')
  show cur: "cur k' = cur k" by (simp add: k')
  show "kinv k'" using q' cinv by (simp add: kinv_def cinv_def cur st)
  have "threads k' v = (threads k v)\<lparr>stat := stat (threads k' v)\<rparr>"
    "\<not> runnable k v \<Longrightarrow> threads k' v = threads k v" for v
    using r by (auto simp: k' set_stat_def runnable_def)
  moreover have "runnable k' v = runnable k v" for v by (simp add: runnable_def st)
  moreover have "rest k' = rest k" by (simp add: k' rest_def)
  ultimately show "sched_frame k k'" by (simp add: sched_frame_def qs)
qed

lemma sched_frame_trans:
  assumes "sched_frame k k1" "sched_frame k1 k2"
  shows "sched_frame k k2"
proof -
  have a: "threads k1 t = (threads k t)\<lparr>stat := stat (threads k1 t)\<rparr>"
    "threads k2 t = (threads k1 t)\<lparr>stat := stat (threads k2 t)\<rparr>" for t
    using assms unfolding sched_frame_def by blast+
  have "threads k2 t = (threads k t)\<lparr>stat := stat (threads k2 t)\<rparr>" for t
    by (subst a(2), subst a(1)) simp
  then show ?thesis
    using assms unfolding sched_frame_def by simp
qed

lemma sched_frame_clear_yield:
  "runnable k c \<Longrightarrow> sched_frame k (upd_thread c (\<lambda>th. th\<lparr>stat := stat th AND NOT 8\<rparr>) k)"
  unfolding sched_frame_def runnable_def tstat_clear_yield by (auto simp: rest_def)

lemma rt_schedule_correct:
  assumes inv: "kinv k" and c: "cur k = Some c"
  shows "ok (rt_schedule k) (\<lambda>k'. kinv k' \<and> sched_frame k k' \<and> cur k' \<noteq> None \<and>
           (lock_nest k = 0 \<longrightarrow> (\<exists>t. runnable k t) \<longrightarrow> highest_runs k k'))"
proof (cases "lock_nest k = 0 \<and> ready_group k \<noteq> 0")
  case False
  have q: "qinv {} k" and ci: "cinv k" using inv by (auto simp: kinv_def)
  have "highest_runs k k" if "lock_nest k = 0" "runnable k t" for t
  proof -
    have "tstat k u \<noteq> RT_THREAD_READY" for u
      using qinvD(7)[OF q, of u] qinvD(4)[OF q, of "prio k u"] False that(1) by auto
    then have run: "tstat k u = RT_THREAD_RUNNING \<and> u = c" if "runnable k u" for u
      using that ci c by (auto simp: cinv_def runnable_def)
    then show ?thesis using that(2) c by (auto simp: highest_runs_def dest!: run)
  qed
  then show ?thesis using False inv c by (auto simp: rt_schedule_def)
next
  case True
  have q: "qinv {} k" and ci: "cinv k" using inv by (auto simp: kinv_def)
  obtain h p where hp: "scheduler_get_highest_priority_thread k = Some (h, p)"
    "queues k (Ready p) \<noteq> []" "h = hd (queues k (Ready p))"
    and least: "\<And>t. tstat k t = RT_THREAD_READY \<Longrightarrow> p \<le> prio k t"
    using highest_ready[OF q] True by metis
  then have h: "h \<in> set (queues k (Ready p))" by simp
  have hr: "tstat k h = RT_THREAD_READY" "prio k h = p" using qinvD(5,6)[OF q h] .
  have nr: "tstat k c \<noteq> RT_THREAD_READY" using ci c by (simp add: cinv_def)
  with hr have ch: "c \<noteq> h" by auto
  have one: "t = c" if "tstat k t = RT_THREAD_RUNNING" for t
    using ci c that by (auto simp: cinv_def)
  let ?run = "tstat k c = RT_THREAD_RUNNING"
  let ?stay = "?run \<and> (prio k c < p \<or> prio k c = p \<and> stat (threads k c) AND 8 = 0)"
  let ?y = "upd_thread c (\<lambda>th. th\<lparr>stat := stat th AND NOT 8\<rparr>) k"
  show ?thesis
  proof (cases ?stay)
    case stay: True
    define k' where "k' = upd_thread c (set_stat RT_THREAD_RUNNING) (rt_schedule_remove_thread c ?y)"
    note S = schedule_stay[OF q conjunct1[OF stay] ci k'_def]
    have "rt_schedule k = Some k'"
      using True stay by (simp add: rt_schedule_def hp(1) c k'_def)
    moreover have "prio k c \<le> prio k t" if "runnable k t" for t
      using that stay least[of t] one[of t] by (auto simp: runnable_def)
    ultimately show ?thesis
      using S c stay by (auto simp: highest_runs_def)
  next
    case switch: False
    define k1 where "k1 = (if ?run then ?y else k)"
    have k1: "queues k1 = queues k" "cur k1 = cur k" "\<And>t. tstat k1 t = tstat k t"
      "\<And>t. prio k1 t = prio k t" "qinv {} k1" "sched_frame k k1"
      using q qinv_clear_yield[of "{}" c k] tstat_clear_yield[of c k] sched_frame_clear_yield[of k c]
      by (auto simp: k1_def runnable_def)
    define k' where "k' = schedule_switch c h p ?run k1"
    have S: "kinv k'" "sched_frame k1 k'" "cur k' = Some h" "tstat k' h = RT_THREAD_RUNNING"
      unfolding k'_def
      by (rule schedule_switch_correct; use k1 h c ch one nr in \<open>(simp; fail) | blast\<close>)+
    have "rt_schedule k = Some k'"
      using True switch ch by (auto simp: rt_schedule_def hp(1) c k'_def k1_def)
    moreover have "prio k h \<le> prio k t" if "runnable k t" for t
      using that switch hr least[of t] one[of t] by (auto simp: runnable_def)
    ultimately show ?thesis
      using S k1(6) sched_frame_trans by (auto simp: highest_runs_def)
  qed
qed

section \<open>Properties\<close>

text \<open>C1: scheduling. With the scheduler unlocked and at least one thread ready or running,
  \<open>rt_schedule\<close> does not stop the system, keeps the scheduling invariant (queues, bitmap and
  thread states agree, one running thread), leaves everything but the runnable threads' states
  and the ready queues alone, and makes a thread of the highest runnable priority current.\<close>
theorem schedule_runs_highest:
  assumes "kinv k" "cur k = Some c" "lock_nest k = 0" "runnable k t"
  shows "ok (rt_schedule k) (\<lambda>k'. kinv k' \<and> sched_frame k k' \<and> highest_runs k k')"
  using assms by (intro ok_mono[OF rt_schedule_correct[OF assms(1,2)]]) auto

theorem schedule_runs_highest_witness:
  "ok (rt_schedule example_kernel)
     (\<lambda>k'. kinv k' \<and> sched_frame example_kernel k' \<and> highest_runs example_kernel k')"
  by (rule schedule_runs_highest[OF example_kinv, of 0 0])
    (simp_all add: runnable_def example_tstat, simp_all add: example_kernel_def)

text \<open>No needless switch. A running thread that has not given up its time slice stays
  current when every ready thread has a priority value at least its own.\<close>
theorem schedule_keeps_current:
  assumes "kinv k" "cur k = Some c" "tstat k c = RT_THREAD_RUNNING"
    and "stat (threads k c) AND RT_THREAD_STAT_YIELD_MASK = 0"
    and "\<forall>t. tstat k t = RT_THREAD_READY \<longrightarrow> prio k c \<le> prio k t"
  shows "ok (rt_schedule k) (\<lambda>k'. cur k' = Some c \<and> queues k' = queues k \<and>
           (\<forall>t. tstat k' t = tstat k t))"
proof (cases "lock_nest k = 0 \<and> ready_group k \<noteq> 0")
  case True
  have q: "qinv {} k" and ci: "cinv k" using assms(1) by (auto simp: kinv_def)
  obtain h p where hp: "scheduler_get_highest_priority_thread k = Some (h, p)"
    "queues k (Ready p) \<noteq> []" "h = hd (queues k (Ready p))"
    using highest_ready[OF q] True by metis
  then have h: "h \<in> set (queues k (Ready p))" by simp
  have "prio k c \<le> p" using assms(5) qinvD(5,6)[OF q h] by auto
  with assms show ?thesis
    using schedule_stay[OF q assms(3) ci refl] True hp(1)
    by (simp add: rt_schedule_def le_less)
qed (use assms(2) in \<open>auto simp: rt_schedule_def\<close>)

theorem schedule_keeps_current_witness:
  "ok (rt_schedule example_quiet) (\<lambda>k'. cur k' = Some 0 \<and> queues k' = queues example_quiet \<and>
     (\<forall>t. tstat k' t = tstat example_quiet t))"
  by (rule schedule_keeps_current[OF quiet_kinv])
    (simp_all add: quiet_simps example_prio,
     simp add: example_quiet_def example_kernel_def example_thread_def)

section \<open>Critical sections\<close>

lemma enter_n: "(rt_enter_critical ^^ n) k = k\<lparr>lock_nest := lock_nest k + of_nat n\<rparr>"
  by (induction n) (simp_all add: rt_enter_critical_def algebra_simps)

lemma sint_small: "n < 2 ^ 15 \<Longrightarrow> sint (of_nat n :: 16 word) = int n"
  by (simp add: signed_of_nat signed_take_bit_int_eq_self)

text \<open>Critical sections nest. Up to 32767 nested \<open>rt_enter_critical\<close> calls, every
  \<open>rt_exit_critical\<close> but the outermost only counts down; the outermost unlocks the scheduler and,
  once a thread runs, schedules.\<close>
theorem critical_sections_nest:
  assumes "lock_nest k = 0" "0 < n" "n < 2 ^ 15"
  shows "rt_exit_critical ((rt_enter_critical ^^ n) k) =
     (if n = 1 then (if cur k \<noteq> None then rt_schedule k else Some k)
      else Some ((rt_enter_critical ^^ (n - 1)) k))"
proof -
  have s: "lock_nest k + of_nat n - 1 = (of_nat (n - 1) :: 16 word)"
    using assms by (simp add: of_nat_diff)
  have i: "sint (of_nat (n - 1) :: 16 word) = int (n - 1)"
    using assms by (intro sint_small) simp
  have k: "k\<lparr>lock_nest := 0\<rparr> = k" using assms(1) by (cases k) simp
  have sk: "rt_schedule (k\<lparr>lock_nest := 0\<rparr>) = rt_schedule k" by (simp only: k)
  show ?thesis
    using assms i s k sk by (auto simp: rt_exit_critical_def enter_n Let_def)
qed

theorem critical_sections_nest_witness:
  "rt_exit_critical ((rt_enter_critical ^^ 3) example_kernel) =
     Some ((rt_enter_critical ^^ 2) example_kernel)"
  using critical_sections_nest[of example_kernel 3] by (simp add: example_kernel_def)

text \<open>The nesting counter is a signed 16-bit variable. After 32769 nested
  \<open>rt_enter_critical\<close> calls a single \<open>rt_exit_critical\<close> unlocks the scheduler, although the
  comment in the source allows 65535 levels.\<close>
theorem critical_nest_overflow:
  "cur k = None \<Longrightarrow> lock_nest k = 0 \<Longrightarrow>
   rt_exit_critical ((rt_enter_critical ^^ 32769) k) = Some k"
proof -
  assume a: "cur k = None" "lock_nest k = 0"
  have "sint (32768 :: 16 word) \<le> 0" by simp
  moreover have "k\<lparr>lock_nest := 0\<rparr> = k" using a(2) by (cases k) simp
  ultimately show ?thesis using a by (simp add: rt_exit_critical_def enter_n Let_def)
qed

theorem critical_nest_overflow_witness:
  "rt_exit_critical ((rt_enter_critical ^^ 32769) (example_kernel\<lparr>cur := None\<rparr>)) =
     Some (example_kernel\<lparr>cur := None\<rparr>)"
  by (rule critical_nest_overflow) (simp_all add: example_kernel_def)

end
