(* ===== verification/Timer.thy ===== *)
theory Timer
  imports Scheduler
begin

text \<open>
  \<open>src/timer.c\<close>: the list of running timers, kept in the order of their timeouts, and the check
  the tick interrupt makes of it. Ticks are 32-bit and wrap around; the theorems read them
  relative to a base tick. \<open>RT_TIMER_SKIP_LIST_LEVEL\<close> is 1, so the skip list is one list, and
  there are no soft timers. The functions timers call are an argument of the check.
\<close>

section \<open>Operations\<close>

abbreviation RT_TIMER_FLAG_ACTIVATED :: u8 where "RT_TIMER_FLAG_ACTIVATED \<equiv> 1"
abbreviation RT_TIMER_FLAG_PERIODIC :: u8 where "RT_TIMER_FLAG_PERIODIC \<equiv> 2"

definition upd_timer :: "tmid \<Rightarrow> (rt_timer \<Rightarrow> rt_timer) \<Rightarrow> kernel \<Rightarrow> kernel" where
  "upd_timer x f k = k\<lparr>timers := (timers k)(x := f (timers k x))\<rparr>"

definition deactivate :: "rt_timer \<Rightarrow> rt_timer" where
  "deactivate tm = tm\<lparr>timer_flag := timer_flag tm AND NOT RT_TIMER_FLAG_ACTIVATED\<rparr>"

definition activated :: "kernel \<Rightarrow> tmid \<Rightarrow> bool" where
  "activated k x \<longleftrightarrow> timer_flag (timers k x) AND RT_TIMER_FLAG_ACTIVATED \<noteq> 0"

definition periodic :: "kernel \<Rightarrow> tmid \<Rightarrow> bool" where
  "periodic k x \<longleftrightarrow> timer_flag (timers k x) AND RT_TIMER_FLAG_PERIODIC \<noteq> 0"

text \<open>\<open>rt_list_init\<close> on the node of a timer leaves it unlinked.\<close>

definition timer_object_init :: "tmid \<Rightarrow> timeout_fn \<Rightarrow> nat \<Rightarrow> u32 \<Rightarrow> u8 \<Rightarrow> kernel \<Rightarrow> kernel" where
  "timer_object_init x timeout param time flag k =
     (let k1 = upd_timer x (\<lambda>_. \<lparr>timer_flag = flag AND NOT RT_TIMER_FLAG_ACTIVATED,
            timeout_func = timeout, parameter = param, timer_init_tick = time, timeout_tick = 0\<rparr>) k
      in k1\<lparr>timer_lists := q_remove x (timer_lists k1)\<rparr>)"

definition rt_timer_init ::
  "tmid \<Rightarrow> timeout_fn \<Rightarrow> nat \<Rightarrow> u32 \<Rightarrow> u8 \<Rightarrow> kernel \<Rightarrow> kernel option" where
  "rt_timer_init x timeout param time flag k =
     do {
       rt_assert (time < RT_TICK_MAX div 2);
       Some (timer_object_init x timeout param time flag k)
     }"

definition timer_remove :: "tmid \<Rightarrow> kernel \<Rightarrow> kernel" where
  "timer_remove x k = k\<lparr>timer_lists := q_remove x (timer_lists k)\<rparr>"

definition rt_timer_detach :: "tmid \<Rightarrow> kernel \<Rightarrow> kernel" where
  "rt_timer_detach x k = upd_timer x deactivate (timer_remove x k)"

definition timer_list_next_timeout :: "kernel \<Rightarrow> u32 option" where
  "timer_list_next_timeout k =
     (case timer_lists k TimerList of [] \<Rightarrow> None | x # _ \<Rightarrow> Some (timeout_tick (timers k x)))"

definition rt_timer_next_timeout_tick :: "kernel \<Rightarrow> u32" where
  "rt_timer_next_timeout_tick k =
     (case timer_list_next_timeout k of None \<Rightarrow> RT_TICK_MAX | Some next_timeout \<Rightarrow> next_timeout)"

text \<open>The search loop of \<open>rt_timer_start\<close> and the insertion after the node it stops at.\<close>

primrec timer_insert :: "(tmid \<Rightarrow> rt_timer) \<Rightarrow> tmid \<Rightarrow> tmid list \<Rightarrow> tmid list" where
  "timer_insert tms x [] = [x]"
| "timer_insert tms x (t # ts) =
     (let diff = timeout_tick (tms t) - timeout_tick (tms x)
      in if diff = 0 then t # timer_insert tms x ts
         else if diff < RT_TICK_MAX div 2 then x # t # ts
         else t # timer_insert tms x ts)"

definition rt_tick_get :: "kernel \<Rightarrow> u32" where
  "rt_tick_get k = tick k"

definition rt_timer_start :: "tmid \<Rightarrow> kernel \<Rightarrow> kernel" where
  "rt_timer_start x k =
     (let k1 = upd_timer x deactivate (timer_remove x k);
          k2 = upd_timer x (\<lambda>tm. tm\<lparr>timeout_tick := rt_tick_get k1 + timer_init_tick tm\<rparr>) k1;
          k3 = k2\<lparr>timer_lists := (timer_lists k2)(TimerList :=
                    timer_insert (timers k2) x (timer_lists k2 TimerList))\<rparr>
      in upd_timer x (\<lambda>tm. tm\<lparr>timer_flag := timer_flag tm OR RT_TIMER_FLAG_ACTIVATED\<rparr>) k3)"

definition rt_timer_stop :: "tmid \<Rightarrow> kernel \<Rightarrow> rt_err_t \<times> kernel" where
  "rt_timer_stop x k =
     (if activated k x then (RT_EOK, upd_timer x deactivate (timer_remove x k))
      else (- RT_ERROR, k))"

text \<open>The commands of \<open>rt_timer_control\<close>, with the argument they read or the value they store.\<close>

datatype timer_cmd = TimerGetTime | TimerSetTime u32 | TimerSetOneshot | TimerSetPeriodic
  | TimerGetState | TimerGetRemainTime | TimerGetFunc | TimerSetFunc timeout_fn
  | TimerGetParm | TimerSetParm nat | TimerOther

datatype timer_reply = NoReply | Tick u32 | Func timeout_fn | Parm nat

definition rt_timer_control :: "tmid \<Rightarrow> timer_cmd \<Rightarrow> kernel \<Rightarrow> (timer_reply \<times> kernel) option" where
  "rt_timer_control x cmd k =
     (case cmd of
        TimerGetTime \<Rightarrow> Some (Tick (timer_init_tick (timers k x)), k)
      | TimerSetTime arg \<Rightarrow>
          do {
            rt_assert (arg < RT_TICK_MAX div 2);
            Some (NoReply, upd_timer x (\<lambda>tm. tm\<lparr>timer_init_tick := arg\<rparr>) k)
          }
      | TimerSetOneshot \<Rightarrow>
          Some (NoReply, upd_timer x (\<lambda>tm. tm\<lparr>timer_flag :=
                  timer_flag tm AND NOT RT_TIMER_FLAG_PERIODIC\<rparr>) k)
      | TimerSetPeriodic \<Rightarrow>
          Some (NoReply, upd_timer x (\<lambda>tm. tm\<lparr>timer_flag :=
                  timer_flag tm OR RT_TIMER_FLAG_PERIODIC\<rparr>) k)
      | TimerGetState \<Rightarrow>
          Some (Tick (if activated k x then 1 else 0), k)
      | TimerGetRemainTime \<Rightarrow> Some (Tick (timeout_tick (timers k x)), k)
      | TimerGetFunc \<Rightarrow> Some (Func (timeout_func (timers k x)), k)
      | TimerSetFunc f \<Rightarrow> Some (NoReply, upd_timer x (\<lambda>tm. tm\<lparr>timeout_func := f\<rparr>) k)
      | TimerGetParm \<Rightarrow> Some (Parm (parameter (timers k x)), k)
      | TimerSetParm p \<Rightarrow> Some (NoReply, upd_timer x (\<lambda>tm. tm\<lparr>parameter := p\<rparr>) k)
      | TimerOther \<Rightarrow> Some (NoReply, k))"

text \<open>
  What \<open>rt_timer_check\<close> does with one expired timer, before and after the call of its timeout
  function, and the whole; \<open>call\<close> runs a timeout function.
\<close>

definition fire_begin :: "tmid \<Rightarrow> kernel \<Rightarrow> kernel" where
  "fire_begin x k =
     (let k1 = timer_remove x k;
          k2 = (if \<not> periodic k1 x then upd_timer x deactivate k1 else k1)
      in k2\<lparr>timer_lists := q_push_front TempList x (timer_lists k2)\<rparr>)"

definition fire_end :: "tmid \<Rightarrow> kernel \<Rightarrow> kernel" where
  "fire_end x k =
     (if timer_lists k TempList = [] then k
      else let k1 = timer_remove x k
           in if periodic k1 x \<and> activated k1 x
              then rt_timer_start x (upd_timer x deactivate k1)
              else k1)"

definition timer_fire ::
  "(timeout_fn \<Rightarrow> nat \<Rightarrow> kernel \<Rightarrow> kernel option) \<Rightarrow> tmid \<Rightarrow> kernel \<Rightarrow> kernel option" where
  "timer_fire call x k =
     do {
       let k1 = fire_begin x k;
       k2 \<leftarrow> call (timeout_func (timers k1 x)) (parameter (timers k1 x)) k1;
       Some (fire_end x k2)
     }"

partial_function (option) timer_check_loop ::
  "(timeout_fn \<Rightarrow> nat \<Rightarrow> kernel \<Rightarrow> kernel option) \<Rightarrow> u32 \<Rightarrow> kernel \<Rightarrow> kernel option" where
  "timer_check_loop call current_tick k =
     (case timer_lists k TimerList of
        [] \<Rightarrow> Some k
      | x # _ \<Rightarrow>
          if current_tick - timeout_tick (timers k x) < RT_TICK_MAX div 2
          then do {
            k' \<leftarrow> timer_fire call x k;
            timer_check_loop call (rt_tick_get k') k'
          }
          else Some k)"

definition rt_timer_check ::
  "(timeout_fn \<Rightarrow> nat \<Rightarrow> kernel \<Rightarrow> kernel option) \<Rightarrow> kernel \<Rightarrow> kernel option" where
  "rt_timer_check call k =
     timer_check_loop call (rt_tick_get k) (k\<lparr>timer_lists := (timer_lists k)(TempList := [])\<rparr>)"

section \<open>Frames\<close>

lemma timers_upd_timer [simp]:
  "timers (upd_timer x f k) y = (if y = x then f (timers k x) else timers k y)"
  by (simp add: upd_timer_def)

lemma upd_timer_frame [simp, frame_simps]:
  "threads (upd_timer x f k) = threads k" "queues (upd_timer x f k) = queues k"
  "ready_group (upd_timer x f k) = ready_group k" "lock_nest (upd_timer x f k) = lock_nest k"
  "cur (upd_timer x f k) = cur k" "cur_priority (upd_timer x f k) = cur_priority k"
  "interrupt_nest (upd_timer x f k) = interrupt_nest k"
  "irq_disabled (upd_timer x f k) = irq_disabled k" "tick (upd_timer x f k) = tick k"
  "timer_lists (upd_timer x f k) = timer_lists k" "sems (upd_timer x f k) = sems k"
  "mutexes (upd_timer x f k) = mutexes k" "events (upd_timer x f k) = events k"
  "mailboxes (upd_timer x f k) = mailboxes k"
  "mqueues (upd_timer x f k) = mqueues k" "mempools (upd_timer x f k) = mempools k"
  "block_words (upd_timer x f k) = block_words k"
  by (simp_all add: upd_timer_def)

text \<open>Timer operations change nothing but the timers and their lists.\<close>

definition timer_only :: "kernel \<Rightarrow> kernel \<Rightarrow> bool" where
  "timer_only k k' \<longleftrightarrow> k' = k\<lparr>timers := timers k', timer_lists := timer_lists k'\<rparr>"

lemma timer_only_refl [simp]: "timer_only k k"
  by (simp add: timer_only_def)

lemma timer_only_trans: "timer_only k k1 \<Longrightarrow> timer_only k1 k2 \<Longrightarrow> timer_only k k2"
  by (cases k; cases k1; cases k2) (simp add: timer_only_def)

lemma timer_only_ops [simp]:
  "timer_only k (upd_timer x f k)" "timer_only k (timer_remove x k)"
  "timer_only k (rt_timer_detach x k)" "timer_only k (rt_timer_start x k)"
  "timer_only k (snd (rt_timer_stop x k))"
  by (simp_all add: timer_only_def upd_timer_def timer_remove_def rt_timer_detach_def
      rt_timer_start_def rt_timer_stop_def Let_def)

lemma timer_onlyD:
  assumes "timer_only k k'"
  shows "threads k' = threads k" "queues k' = queues k" "ready_group k' = ready_group k"
    "lock_nest k' = lock_nest k" "cur k' = cur k" "cur_priority k' = cur_priority k"
    "interrupt_nest k' = interrupt_nest k" "irq_disabled k' = irq_disabled k" "tick k' = tick k"
    "sems k' = sems k" "mutexes k' = mutexes k" "events k' = events k" "mailboxes k' = mailboxes k"
    "mqueues k' = mqueues k" "mempools k' = mempools k" "block_words k' = block_words k"
  using assms by (cases k; cases k'; simp add: timer_only_def)+

lemmas timer_op_frame [simp] =
  timer_onlyD[OF timer_only_ops(2)] timer_onlyD[OF timer_only_ops(3)]
  timer_onlyD[OF timer_only_ops(4)] timer_onlyD[OF timer_only_ops(5)]

lemma timer_only_kinv:
  assumes "timer_only k k'"
  shows "tstat k' t = tstat k t" "prio k' t = prio k t" "suspended k' t = suspended k t"
    "runnable k' t = runnable k t" "qinv X k' = qinv X k" "cinv k' = cinv k" "kinv k' = kinv k"
proof -
  note F = timer_onlyD[OF assms]
  show t: "tstat k' t = tstat k t" for t by (simp add: tstat_def F)
  show "prio k' t = prio k t" "suspended k' t = suspended k t" "runnable k' t = runnable k t"
    by (simp_all add: prio_def suspended_def runnable_def t F)
  show q: "qinv X k' = qinv X k" for X by (rule qinv_cong) (simp_all add: F t)
  show c: "cinv k' = cinv k" by (rule cinv_cong) (simp_all add: F t)
  show "kinv k' = kinv k" by (simp add: kinv_def q c)
qed

lemma timer_remove_simps [simp]:
  "timers (timer_remove x k) = timers k"
  "timer_lists (timer_remove x k) = q_remove x (timer_lists k)"
  by (simp_all add: timer_remove_def)

lemma activated_simps [simp]:
  "timer_flag (deactivate tm) AND RT_TIMER_FLAG_ACTIVATED = 0"
  by (simp add: deactivate_def and.assoc)

lemma deactivate_simps [simp]:
  "timeout_func (deactivate tm) = timeout_func tm" "parameter (deactivate tm) = parameter tm"
  "timer_init_tick (deactivate tm) = timer_init_tick tm"
  "timeout_tick (deactivate tm) = timeout_tick tm"
  "timer_flag (deactivate tm) AND 2 = timer_flag tm AND 2"
  by (simp_all add: deactivate_def and.assoc)

section \<open>The order of the timer list\<close>

text \<open>
  Ticks from the base \<open>b\<close> to the timeout of a timer. The list is sorted by them. The unsigned
  differences of the code order the timers as long as no timer is due more than three ticks ago
  and none later than the maximal time, \<open>RT_TICK_MAX / 2 - 1\<close> ticks from now; the tick interrupt
  checks the list at every tick.
\<close>

definition due :: "u32 \<Rightarrow> kernel \<Rightarrow> tmid \<Rightarrow> nat" where
  "due b k x = unat (timeout_tick (timers k x) - b)"

definition timers_ok :: "u32 \<Rightarrow> kernel \<Rightarrow> bool" where
  "timers_ok b k \<longleftrightarrow>
     unat (tick k - b) \<le> 3 \<and>
     (\<forall>x \<in> set (timer_lists k TimerList). due b k x < unat (tick k - b) + (2 ^ 31 - 1)) \<and>
     sorted (map (due b k) (timer_lists k TimerList)) \<and> distinct (timer_lists k TimerList)"

lemma unat_diff_cases:
  fixes x y :: u32
  shows "unat (x - y) = (if unat y \<le> unat x then unat x - unat y else unat x + 2 ^ 32 - unat y)"
  by (simp add: unat_sub_if')

lemma later_iff:
  fixes u v b :: u32
  assumes "unat (v - b) = e + i" "i < 2 ^ 31 - 1" "unat (u - b) < e + (2 ^ 31 - 1)" "e \<le> 3"
  shows "u - v \<noteq> 0 \<and> u - v < RT_TICK_MAX div 2 \<longleftrightarrow> unat (v - b) < unat (u - b)"
proof -
  define x y where "x = u - b" and "y = v - b"
  have d: "u - v = x - y" by (simp add: x_def y_def)
  have z: "x - y \<noteq> 0 \<longleftrightarrow> unat (x - y) \<noteq> 0" by (simp add: unat_eq_zero)
  show ?thesis
    unfolding d x_def[symmetric] y_def[symmetric] z word_less_nat_alt unat_diff_cases
    using assms by (auto simp: x_def[symmetric] y_def[symmetric])
qed

lemma expired_iff:
  fixes u b c :: u32
  assumes "unat (c - b) \<le> 3" "unat (u - b) < unat (c - b) + (2 ^ 31 - 1)"
  shows "c - u < RT_TICK_MAX div 2 \<longleftrightarrow> unat (u - b) \<le> unat (c - b)"
proof -
  define x y where "x = u - b" and "y = c - b"
  have d: "c - u = y - x" by (simp add: x_def y_def)
  show ?thesis
    unfolding d x_def[symmetric] y_def[symmetric] word_less_nat_alt unat_diff_cases
    using assms by (auto simp: x_def[symmetric] y_def[symmetric])
qed

lemma timer_insert_split:
  "timer_insert tms x ts =
     (let early = (\<lambda>t. \<not> (timeout_tick (tms t) - timeout_tick (tms x) \<noteq> 0 \<and>
                      timeout_tick (tms t) - timeout_tick (tms x) < RT_TICK_MAX div 2))
      in takeWhile early ts @ x # dropWhile early ts)"
  by (induction ts) (simp_all add: Let_def)

lemma set_timer_insert: "set (timer_insert tms x ts) = insert x (set ts)"
  by (induction ts) (auto simp: Let_def)

lemma distinct_timer_insert: "distinct ts \<Longrightarrow> x \<notin> set ts \<Longrightarrow> distinct (timer_insert tms x ts)"
  by (induction ts) (auto simp: Let_def set_timer_insert)

lemma takeWhile_sorted_filter:
  "sorted (map f ts) \<Longrightarrow> takeWhile (\<lambda>t. \<not> c < f t) ts = filter (\<lambda>t. f t \<le> (c::nat)) ts \<and>
     dropWhile (\<lambda>t. \<not> c < f t) ts = filter (\<lambda>t. c < f t) ts"
proof (induction ts)
  case (Cons t ts)
  have "filter (\<lambda>t. f t \<le> c) ts = [] \<and> filter (\<lambda>t. c < f t) ts = ts" if "c < f t"
    using Cons.prems that by (auto simp: filter_empty_conv filter_id_conv)
  with Cons show ?case by (simp add: not_less)
qed simp

text \<open>A timer goes behind every timer that is due no later than it is.\<close>

definition start_tick :: "tmid \<Rightarrow> kernel \<Rightarrow> u32" where
  "start_tick x k = tick k + timer_init_tick (timers k x)"

lemma timers_start:
  "timers (rt_timer_start x k) y =
     (if y = x then (timers k x)\<lparr>timer_flag := timer_flag (timers k x) OR 1,
        timeout_tick := start_tick x k\<rparr> else timers k y)"
proof -
  have "(w AND - 2) OR 1 = w OR (1::u8)" for w
    by (rule bit_eqI) (auto simp: bit_simps bit_1_iff dest: bit_imp_le_length)
  then show ?thesis
    by (simp add: rt_timer_start_def Let_def deactivate_def start_tick_def rt_tick_get_def)
qed

lemma timer_insert_cong:
  "(\<And>t. timeout_tick (tms t) = timeout_tick (tms' t)) \<Longrightarrow> timer_insert tms x ts = timer_insert tms' x ts"
  by (induction ts) simp_all

lemma timer_lists_start:
  "timer_lists (rt_timer_start x k) =
     (q_remove x (timer_lists k))(TimerList :=
        timer_insert ((timers k)(x := (timers k x)\<lparr>timeout_tick := start_tick x k\<rparr>)) x
          (removeAll x (timer_lists k TimerList)))"
proof -
  define k2 where "k2 = upd_timer x (\<lambda>tm. tm\<lparr>timeout_tick := tick k + timer_init_tick tm\<rparr>)
    (upd_timer x deactivate (timer_remove x k))"
  have "timer_lists (rt_timer_start x k) =
      (q_remove x (timer_lists k))(TimerList := timer_insert (timers k2) x
         (removeAll x (timer_lists k TimerList)))"
    by (simp add: rt_timer_start_def Let_def k2_def rt_tick_get_def q_remove_def)
  moreover have "timer_insert (timers k2) x ts =
      timer_insert ((timers k)(x := (timers k x)\<lparr>timeout_tick := start_tick x k\<rparr>)) x ts" for ts
    by (rule timer_insert_cong) (simp add: k2_def start_tick_def)
  ultimately show ?thesis by simp
qed

lemma timers_okD:
  assumes "timers_ok b k"
  shows "unat (tick k - b) \<le> 3" "distinct (timer_lists k TimerList)"
    "x \<in> set (timer_lists k TimerList) \<Longrightarrow> due b k x < unat (tick k - b) + (2 ^ 31 - 1)"
    "sorted (map (due b k) (timer_lists k TimerList))"
  using assms by (auto simp: timers_ok_def)

lemma sorted_removeAll: "sorted (map f ts) \<Longrightarrow> sorted (map f (removeAll x ts))"
  by (induction ts) auto

lemma due_start:
  assumes "unat (tick k - b) \<le> 3" "unat (timer_init_tick (timers k x)) < 2 ^ 31 - 1"
  shows "due b (rt_timer_start x k) y =
     (if y = x then unat (tick k - b) + unat (timer_init_tick (timers k x)) else due b k y)"
proof -
  have "start_tick x k - b = (tick k - b) + timer_init_tick (timers k x)"
    by (simp add: start_tick_def)
  moreover have "unat ((tick k - b) + timer_init_tick (timers k x)) =
      unat (tick k - b) + unat (timer_init_tick (timers k x))"
    using assms by (subst unat_add_lem[THEN iffD1]) simp_all
  ultimately have "unat (start_tick x k - b) = unat (tick k - b) + unat (timer_init_tick (timers k x))"
    by (simp only:)
  then show ?thesis by (simp add: due_def timers_start)
qed

lemma timer_start_correct:
  assumes inv: "timers_ok b k" and i: "unat (timer_init_tick (timers k x)) < 2 ^ 31 - 1"
  defines "k' \<equiv> rt_timer_start x k" and "others \<equiv> removeAll x (timer_lists k TimerList)"
  shows "timer_lists k' TimerList =
      filter (\<lambda>y. due b k' y \<le> due b k' x) others @ x # filter (\<lambda>y. due b k' x < due b k' y) others"
    and "timers_ok b k'"
proof -
  note I = timers_okD[OF inv]
  let ?e = "unat (tick k - b)" and ?i = "unat (timer_init_tick (timers k x))"
  let ?c = "?e + ?i"
  have dx: "due b k' x = ?c" and dy: "\<And>y. y \<noteq> x \<Longrightarrow> due b k' y = due b k y"
    using due_start[OF I(1) i] by (simp_all add: k'_def)
  let ?tms = "(timers k)(x := (timers k x)\<lparr>timeout_tick := start_tick x k\<rparr>)"
  have c: "unat (start_tick x k - b) = ?e + ?i"
    using dx by (simp add: due_def k'_def timers_start)
  have early: "(timeout_tick (?tms t) - timeout_tick (?tms x) \<noteq> 0 \<and>
        timeout_tick (?tms t) - timeout_tick (?tms x) < RT_TICK_MAX div 2) \<longleftrightarrow> ?c < due b k t"
    if "t \<in> set others" for t
  proof -
    have t: "t \<noteq> x" "due b k t < ?e + (2 ^ 31 - 1)" using that I(3)[of t] by (auto simp: others_def)
    show ?thesis using later_iff[OF c i t(2)[unfolded due_def] I(1)] t(1) c by (simp add: due_def)
  qed
  have so: "sorted (map (due b k) others)" unfolding others_def by (rule sorted_removeAll[OF I(4)])
  have "timer_lists k' TimerList = timer_insert ?tms x others"
    by (simp add: k'_def timer_lists_start others_def)
  also have "\<dots> = takeWhile (\<lambda>t. \<not> ?c < due b k t) others @ x # dropWhile (\<lambda>t. \<not> ?c < due b k t) others"
    unfolding timer_insert_split Let_def using early
    by (intro arg_cong2[where f = append] arg_cong2[where f = Cons] takeWhile_cong dropWhile_cong refl)
      blast+
  also have "\<dots> = filter (\<lambda>y. due b k y \<le> ?c) others @ x # filter (\<lambda>y. ?c < due b k y) others"
    using takeWhile_sorted_filter[OF so, of ?c] by simp
  also have "\<dots> = filter (\<lambda>y. due b k' y \<le> due b k' x) others @
      x # filter (\<lambda>y. due b k' x < due b k' y) others"
    by (intro arg_cong2[where f = append] arg_cong2[where f = Cons] filter_cong refl)
      (auto simp: dx dy others_def)
  finally show list: "timer_lists k' TimerList = \<dots>" .
  have d: "distinct others" "x \<notin> set others" using I(2) by (simp_all add: others_def distinct_removeAll)
  have tick: "tick k' = tick k" by (simp add: k'_def)
  have s': "sorted (map (due b k') others)"
    using so by (rule subst[where P = sorted, rotated]) (auto simp: dy others_def)
  show "timers_ok b k'"
    unfolding timers_ok_def list tick
  proof (intro conjI ballI)
    show "?e \<le> 3" by (rule I(1))
    show "due b k' y < ?e + (2 ^ 31 - 1)" if "y \<in> set (filter (\<lambda>y. due b k' y \<le> due b k' x) others @
        x # filter (\<lambda>y. due b k' x < due b k' y) others)" for y
      using that I(3)[of y] i dx dy[of y] by (cases "y = x") (auto simp: others_def)
    show "sorted (map (due b k') (filter (\<lambda>y. due b k' y \<le> due b k' x) others @
        x # filter (\<lambda>y. due b k' x < due b k' y) others))"
      using sorted_filter[OF s'] by (auto simp: sorted_append)
    show "distinct (filter (\<lambda>y. due b k' y \<le> due b k' x) others @
        x # filter (\<lambda>y. due b k' x < due b k' y) others)"
      using d by auto
  qed
qed

section \<open>The check\<close>

definition expired :: "kernel \<Rightarrow> tmid \<Rightarrow> bool" where
  "expired k x \<longleftrightarrow> rt_tick_get k - timeout_tick (timers k x) < RT_TICK_MAX div 2"

text \<open>Timeout functions that do not touch timers themselves, and sensible periods.\<close>

definition leaves_timers :: "(timeout_fn \<Rightarrow> nat \<Rightarrow> kernel \<Rightarrow> kernel option) \<Rightarrow> bool" where
  "leaves_timers call \<longleftrightarrow> (\<forall>f p k k'. call f p k = Some k' \<longrightarrow>
     timers k' = timers k \<and> timer_lists k' = timer_lists k \<and> tick k' = tick k)"

definition periods_ok :: "kernel \<Rightarrow> bool" where
  "periods_ok k \<longleftrightarrow> (\<forall>x. periodic k x \<longrightarrow>
     0 < timer_init_tick (timers k x) \<and> unat (timer_init_tick (timers k x)) < 2 ^ 31 - 1)"

primrec fire_all :: "(timeout_fn \<Rightarrow> nat \<Rightarrow> kernel \<Rightarrow> kernel option) \<Rightarrow> tmid list \<Rightarrow> kernel \<Rightarrow> kernel option"
where
  "fire_all call [] k = Some k"
| "fire_all call (x # xs) k = do { k' \<leftarrow> timer_fire call x k; fire_all call xs k' }"

lemma expired_due:
  "timers_ok b k \<Longrightarrow> x \<in> set (timer_lists k TimerList) \<Longrightarrow>
   expired k x \<longleftrightarrow> due b k x \<le> unat (tick k - b)"
  using expired_iff[of "tick k" b "timeout_tick (timers k x)"] timers_okD(1)[of b k]
    timers_okD(3)[of b k x]
  by (simp add: expired_def due_def rt_tick_get_def)

lemma timers_ok_cong:
  assumes "tick k' = tick k" "timer_lists k' TimerList = timer_lists k TimerList"
    and "\<And>x. timeout_tick (timers k' x) = timeout_tick (timers k x)"
  shows "timers_ok b k' = timers_ok b k"
proof -
  have "due b k' = due b k" by (rule ext) (simp add: due_def assms(3))
  then show ?thesis by (simp add: timers_ok_def assms)
qed

lemma timers_ok_tl:
  assumes "timers_ok b k" "timer_lists k TimerList = x # ts"
    and "tick k' = tick k" "timer_lists k' TimerList = ts"
    and "\<And>x. timeout_tick (timers k' x) = timeout_tick (timers k x)"
  shows "timers_ok b k'"
proof -
  have "due b k' = due b k" by (rule ext) (simp add: due_def assms(5))
  then show ?thesis using assms by (simp add: timers_ok_def)
qed

lemma timer_fire_step:
  assumes call: "leaves_timers call" and inv: "timers_ok b k" and per: "periods_ok k"
    and ts: "timer_lists k TimerList = x # ts" and temp: "timer_lists k TempList = []"
    and k': "timer_fire call x k = Some k'"
  shows "timers_ok b k'" "periods_ok k'" "tick k' = tick k" "timer_lists k' TempList = []"
    and "filter (\<lambda>y. due b k' y \<le> unat (tick k - b)) (timer_lists k' TimerList) =
         filter (\<lambda>y. due b k y \<le> unat (tick k - b)) ts"
    and "y \<noteq> x \<Longrightarrow> timers k' y = timers k y"
    and "\<not> periodic k x \<Longrightarrow> \<not> activated k' x \<and> timer_lists k' TimerList = ts"
    and "set (timer_lists k' TimerList) \<subseteq> set (timer_lists k TimerList)"
proof -
  define k3 where "k3 = fire_begin x k"
  obtain k4 where c4: "call (timeout_func (timers k3 x)) (parameter (timers k3 x)) k3 = Some k4"
    and k'4: "k' = fire_end x k4"
    using k' unfolding timer_fire_def Let_def k3_def by (auto split: bind_splits)
  have d: "x \<notin> set ts" "distinct ts" using timers_okD(2)[OF inv] ts by auto
  have t3: "timers k3 y = (if y = x \<and> \<not> periodic k x then deactivate (timers k x) else timers k y)" for y
    by (simp add: k3_def fire_begin_def Let_def periodic_def)
  have l3: "timer_lists k3 TimerList = ts" "timer_lists k3 TempList = [x]" "tick k3 = tick k"
    using ts temp d by (simp_all add: k3_def fire_begin_def Let_def q_remove_def q_push_front_def)
  have k4: "timers k4 = timers k3" "timer_lists k4 = timer_lists k3" "tick k4 = tick k3"
    using call c4 by (auto simp: leaves_timers_def)
  define k5 where "k5 = timer_remove x k4"
  have k5: "timers k5 = timers k3" "timer_lists k5 TimerList = ts" "timer_lists k5 TempList = []"
    "tick k5 = tick k"
    using k4 l3 d by (simp_all add: k5_def q_remove_def)
  have p5: "periodic k5 y = periodic k y" for y by (simp add: periodic_def k5 t3)
  let ?again = "periodic k5 x \<and> activated k5 x"
  have k'5: "k' = (if ?again then rt_timer_start x (upd_timer x deactivate k5) else k5)"
    using k'4 k4 l3 by (simp add: fire_end_def k5_def Let_def)
  have ok5: "timers_ok b k5"
    by (rule timers_ok_tl[OF inv ts]) (simp_all add: k5 t3)
  have due5: "due b k5 y = due b k y" for y by (simp add: due_def k5 t3)
  show "tick k' = tick k" by (simp add: k'5 k5)
  show "timer_lists k' TempList = []" by (simp add: k'5 timer_lists_start k5 q_remove_def)
  show "y \<noteq> x \<Longrightarrow> timers k' y = timers k y" by (simp add: k'5 timers_start k5 t3)
  have pp: "periodic k' y = periodic k y" for y
  proof -
    have "(w OR 1) AND 2 = w AND (2::u8)" for w
      by (simp add: bit.conj_disj_distrib2)
    then show ?thesis using p5[of y] by (auto simp: periodic_def k'5 timers_start)
  qed
  have "timer_init_tick (timers k' y) = timer_init_tick (timers k y)" for y
    by (simp add: k'5 timers_start k5 t3)
  with per pp show "periods_ok k'" by (simp add: periods_ok_def)
  show "\<not> activated k' x \<and> timer_lists k' TimerList = ts" if "\<not> periodic k x"
    using that p5 by (simp add: k'5 k5 activated_def t3)
  have "timers_ok b k' \<and> set (timer_lists k' TimerList) \<subseteq> insert x (set ts) \<and>
    filter (\<lambda>y. due b k' y \<le> unat (tick k - b)) (timer_lists k' TimerList) =
      filter (\<lambda>y. due b k y \<le> unat (tick k - b)) ts"
  proof (cases ?again)
    case False
    then have "k' = k5" using k'5 by (simp only: if_False)
    then show ?thesis using ok5 k5(2) by (auto simp: due5)
  next
    case True
    let ?k6 = "upd_timer x deactivate k5"
    have k6: "k' = rt_timer_start x ?k6" using True by (simp add: k'5)
    have ok6: "timers_ok b ?k6" using ok5 by (subst timers_ok_cong[of _ k5]) simp_all
    have init6: "timer_init_tick (timers ?k6 x) = timer_init_tick (timers k x)"
      by (simp add: k5 t3)
    have i: "0 < timer_init_tick (timers ?k6 x)" "unat (timer_init_tick (timers ?k6 x)) < 2 ^ 31 - 1"
      unfolding init6 using per True p5[of x] by (auto simp: periods_ok_def)
    have l6: "removeAll x (timer_lists ?k6 TimerList) = ts" using k5(2) d by simp
    have e6: "tick ?k6 = tick k" using k5(4) by simp
    note S = timer_start_correct[OF ok6 i(2), folded k6, unfolded l6]
    have due6: "due b k' y = (if y = x then unat (tick k - b) + unat (timer_init_tick (timers ?k6 x))
        else due b k y)" for y
    proof -
      have "due b ?k6 y = due b k y" by (simp add: due_def k5 t3)
      then show ?thesis
        unfolding k6 by (subst due_start) (use timers_okD(1)[OF ok6] i e6 in simp_all)
    qed
    have gt: "unat (tick k - b) < due b k' x" using i(1) by (simp add: due6 unat_gt_0)
    have "filter (\<lambda>y. due b k' y \<le> unat (tick k - b)) (timer_lists k' TimerList) =
        filter (\<lambda>y. due b k' y \<le> unat (tick k - b)) ts"
    proof -
      have "filter (\<lambda>y. due b k' y \<le> unat (tick k - b)) (filter (\<lambda>y. due b k' y \<le> due b k' x) ts) =
          filter (\<lambda>y. due b k' y \<le> unat (tick k - b)) ts"
        unfolding filter_filter using gt by (intro filter_cong refl) auto
      moreover have "filter (\<lambda>y. due b k' y \<le> unat (tick k - b)) (filter (\<lambda>y. due b k' x < due b k' y) ts) = []"
        unfolding filter_filter using gt by (auto simp: filter_empty_conv)
      ultimately show ?thesis using S(1) gt by simp
    qed
    also have "\<dots> = filter (\<lambda>y. due b k y \<le> unat (tick k - b)) ts"
      using d by (intro filter_cong refl) (auto simp: due6)
    finally show ?thesis using S by auto
  qed
  then show "timers_ok b k'"
    "filter (\<lambda>y. due b k' y \<le> unat (tick k - b)) (timer_lists k' TimerList) =
      filter (\<lambda>y. due b k y \<le> unat (tick k - b)) ts"
    "set (timer_lists k' TimerList) \<subseteq> set (timer_lists k TimerList)" using ts by auto
qed

lemma sorted_prefix_empty:
  "sorted (map f (x # ts)) \<Longrightarrow> \<not> f x \<le> (e::nat) \<Longrightarrow> filter (\<lambda>y. f y \<le> e) (x # ts) = []"
  by (auto simp: filter_empty_conv)

text \<open>The timers after the expired ones \<open>fs\<close> have fired.\<close>

definition timers_swept :: "u32 \<Rightarrow> tmid list \<Rightarrow> kernel \<Rightarrow> kernel \<Rightarrow> bool" where
  "timers_swept b fs k k' \<longleftrightarrow>
     timers_ok b k' \<and> periods_ok k' \<and> tick k' = tick k \<and>
     timer_lists k' TempList = [] \<and>
     filter (\<lambda>y. due b k' y \<le> unat (tick k - b)) (timer_lists k' TimerList) = [] \<and>
     set (timer_lists k' TimerList) \<subseteq> set (timer_lists k TimerList) \<and>
     (\<forall>y. y \<notin> set fs \<longrightarrow> timers k' y = timers k y) \<and>
     (\<forall>y \<in> set fs. \<not> periodic k y \<longrightarrow> \<not> activated k' y \<and> y \<notin> set (timer_lists k' TimerList))"

lemma check_loop_fires:
  assumes "leaves_timers call" "timers_ok b k" "periods_ok k" "timer_lists k TempList = []"
    and "fs = filter (\<lambda>y. due b k y \<le> unat (tick k - b)) (timer_lists k TimerList)"
  shows "timer_check_loop call (rt_tick_get k) k = fire_all call fs k"
    and "fire_all call fs k = Some k' \<Longrightarrow> timers_swept b fs k k'"
proof -
  let ?e = "unat (tick k - b)"
  have "timer_check_loop call (rt_tick_get k) k = fire_all call fs k \<and>
    (fire_all call fs k = Some k' \<longrightarrow> timers_swept b fs k k')"
    using assms(2-5)
  proof (induction fs arbitrary: k)
    case Nil
    then have none: "filter (\<lambda>y. due b k y \<le> unat (tick k - b)) (timer_lists k TimerList) = []" by simp
    have "timer_check_loop call (rt_tick_get k) k = Some k"
    proof (cases "timer_lists k TimerList")
      case (Cons x ts)
      then have "\<not> expired k x" using expired_due[OF Nil(1), of x] none by auto
      then show ?thesis using Cons by (subst timer_check_loop.simps) (simp add: expired_def)
    qed (subst timer_check_loop.simps, simp)
    then show ?case using Nil none by (auto simp: timers_swept_def)
  next
    case (Cons x fs)
    obtain y ts where ts: "timer_lists k TimerList = y # ts"
      using Cons.prems(4) by (cases "timer_lists k TimerList") auto
    have "due b k y \<le> unat (tick k - b)"
      using sorted_prefix_empty[of "due b k" y ts "unat (tick k - b)"] timers_okD(4)[OF Cons.prems(1)]
        Cons.prems(4) unfolding ts by fastforce
    then have x: "y = x" and fs: "fs = filter (\<lambda>y. due b k y \<le> unat (tick k - b)) ts"
      and ex: "expired k x"
      using Cons.prems(4) expired_due[OF Cons.prems(1), of y] ts by auto
    have xd: "x \<notin> set ts" using timers_okD(2)[OF Cons.prems(1)] ts x by simp
    have loop: "timer_check_loop call (rt_tick_get k) k =
        do { k1 \<leftarrow> timer_fire call x k; timer_check_loop call (rt_tick_get k1) k1 }"
      using ts x ex by (subst timer_check_loop.simps) (simp add: expired_def)
    show ?case
    proof (cases "timer_fire call x k")
      case None
      then show ?thesis by (simp add: loop)
    next
      case (Some k1)
      note S = timer_fire_step[OF assms(1) Cons.prems(1,2) ts[unfolded x] Cons.prems(3) Some]
      have fs1: "fs = filter (\<lambda>y. due b k1 y \<le> unat (tick k1 - b)) (timer_lists k1 TimerList)"
        using fs S(3,5) by simp
      note IH = Cons.IH[OF S(1,2,4) fs1]
      have same: "periodic k1 y = periodic k y" if "y \<in> set fs" for y
      proof -
        have "y \<noteq> x" using that fs xd by auto
        then show ?thesis using S(6)[of y] by (simp add: periodic_def)
      qed
      have "\<not> activated k' x \<and> x \<notin> set (timer_lists k' TimerList)"
        if "fire_all call fs k1 = Some k'" "\<not> periodic k x"
      proof -
        have "x \<notin> set fs" using fs xd by auto
        then have "timers k' x = timers k1 x" using IH that(1) by (simp add: timers_swept_def)
        moreover have "x \<notin> set (timer_lists k' TimerList)"
          using IH that(1) S(7)[OF that(2)] xd by (auto simp: timers_swept_def)
        ultimately show ?thesis using S(7)[OF that(2)] by (simp add: activated_def)
      qed
      then show ?thesis using IH S(3,6,8) same by (auto simp: loop Some timers_swept_def)
    qed
  qed
  then show "timer_check_loop call (rt_tick_get k) k = fire_all call fs k"
    and "fire_all call fs k = Some k' \<Longrightarrow> timers_swept b fs k k'"
    by blast+
qed

section \<open>Properties\<close>

text \<open>C26: \<open>rt_timer_start\<close> keeps the list of running timers sorted by the time they are due, across
  the wrap-around of the tick counter, and puts the timer behind every timer due no later, so that
  of two timers due at the same tick the one started first fires first.\<close>
theorem timer_start_sorted:
  assumes "timers_ok b k" "unat (timer_init_tick (timers k x)) < 2 ^ 31 - 1"
  shows "timers_ok b (rt_timer_start x k) \<and>
    (let others = removeAll x (timer_lists k TimerList); d = due b (rt_timer_start x k)
     in timer_lists (rt_timer_start x k) TimerList =
          filter (\<lambda>y. d y \<le> d x) others @ x # filter (\<lambda>y. d x < d y) others)"
  using timer_start_correct[OF assms] by (simp add: Let_def)

definition example_timers :: kernel where
  "example_timers = example_kernel\<lparr>tick := 0xfffffffe,
     timers := (timers example_kernel)(
       UserTimer 0 := \<lparr>timer_flag = 1, timeout_func = UserTimeout 0, parameter = 7,
         timer_init_tick = 5, timeout_tick = 0xfffffffe\<rparr>,
       UserTimer 1 := \<lparr>timer_flag = 3, timeout_func = UserTimeout 1, parameter = 8,
         timer_init_tick = 4, timeout_tick = 0xfffffffe\<rparr>,
       UserTimer 2 := \<lparr>timer_flag = 1, timeout_func = UserTimeout 2, parameter = 9,
         timer_init_tick = 9, timeout_tick = 2\<rparr>,
       UserTimer 3 := \<lparr>timer_flag = 0, timeout_func = UserTimeout 3, parameter = 0,
         timer_init_tick = 4, timeout_tick = 0\<rparr>),
     timer_lists := (\<lambda>q. if q = TimerList then [UserTimer 0, UserTimer 1, UserTimer 2] else [])\<rparr>"

lemma example_timers_ok: "timers_ok 0xfffffffe example_timers"
  by (simp add: timers_ok_def due_def example_timers_def)

lemma example_periods_ok: "periods_ok example_timers"
  by (auto simp: periods_ok_def periodic_def example_timers_def example_kernel_def)

theorem timer_start_sorted_witness:
  "timers_ok 0xfffffffe (rt_timer_start (UserTimer 3) example_timers) \<and>
   timer_lists (rt_timer_start (UserTimer 3) example_timers) TimerList =
     [UserTimer 0, UserTimer 1, UserTimer 2, UserTimer 3]"
proof -
  have i: "unat (timer_init_tick (timers example_timers (UserTimer 3))) < 2 ^ 31 - 1"
    by (simp add: example_timers_def)
  have d: "due 0xfffffffe (rt_timer_start (UserTimer 3) example_timers) y =
      (if y = UserTimer 3 then 4 else due 0xfffffffe example_timers y)" for y
    by (subst due_start) (simp_all add: example_timers_def)
  show ?thesis
    using timer_start_sorted[OF example_timers_ok i]
    by (simp add: Let_def d) (simp add: due_def example_timers_def)
qed

lemma check_fires:
  assumes "leaves_timers call" "timers_ok b k" "periods_ok k"
  shows "rt_timer_check call k =
    fire_all call (filter (expired k) (timer_lists k TimerList))
      (k\<lparr>timer_lists := (timer_lists k)(TempList := [])\<rparr>)"
proof -
  let ?k = "k\<lparr>timer_lists := (timer_lists k)(TempList := [])\<rparr>"
  have ok: "timers_ok b ?k" using assms(2) by (subst timers_ok_cong[of _ k]) simp_all
  have "periods_ok ?k" using assms(3) by (simp add: periods_ok_def periodic_def)
  from check_loop_fires(1)[OF assms(1) ok this _ refl] have
    "timer_check_loop call (rt_tick_get k) ?k =
       fire_all call (filter (\<lambda>y. due b ?k y \<le> unat (tick k - b)) (timer_lists k TimerList)) ?k"
    by (simp add: rt_tick_get_def)
  moreover have "filter (\<lambda>y. due b ?k y \<le> unat (tick k - b)) (timer_lists k TimerList) =
      filter (expired k) (timer_lists k TimerList)"
    by (intro filter_cong refl) (simp add: expired_due[OF assms(2)], simp add: due_def)
  ultimately show ?thesis by (simp add: rt_timer_check_def)
qed

text \<open>C25: the timer check of the tick interrupt ends, and fires exactly the expired timers, each
  once, in the order in which they are due; it does nothing else.\<close>
theorem timer_check_fires_expired:
  assumes "leaves_timers call" "timers_ok b k" "periods_ok k"
  shows "rt_timer_check call k =
    fire_all call (filter (expired k) (timer_lists k TimerList))
      (k\<lparr>timer_lists := (timer_lists k)(TempList := [])\<rparr>)"
  by (rule check_fires[OF assms])

definition note_call :: "timeout_fn \<Rightarrow> nat \<Rightarrow> kernel \<Rightarrow> kernel option" where
  "note_call f p k = Some (k\<lparr>cur_priority := of_nat p\<rparr>)"

lemma note_call_leaves: "leaves_timers note_call"
  by (simp add: leaves_timers_def note_call_def)

lemma note_fire_all: "fire_all note_call xs k \<noteq> None"
  by (induction xs arbitrary: k) (simp_all add: timer_fire_def note_call_def Let_def)

theorem timer_check_fires_expired_witness:
  "rt_timer_check note_call example_timers =
     fire_all note_call [UserTimer 0, UserTimer 1]
       (example_timers\<lparr>timer_lists := (timer_lists example_timers)(TempList := [])\<rparr>)"
proof -
  have "filter (expired example_timers) (timer_lists example_timers TimerList) = [UserTimer 0, UserTimer 1]"
    by (simp add: expired_def rt_tick_get_def example_timers_def)
  then show ?thesis
    using timer_check_fires_expired[OF note_call_leaves example_timers_ok example_periods_ok]
    by simp
qed

lemma check_sweeps:
  assumes "leaves_timers call" "timers_ok b k" "periods_ok k"
    and "rt_timer_check call k = Some k'"
  shows "timers_ok (tick k') k' \<and> (\<forall>x \<in> set (timer_lists k' TimerList). \<not> expired k' x) \<and>
    (\<forall>x. x \<in> set (timer_lists k TimerList) \<and> expired k x \<and> \<not> periodic k x \<longrightarrow>
       \<not> activated k' x \<and> x \<notin> set (timer_lists k' TimerList)) \<and>
    (\<forall>x. \<not> (x \<in> set (timer_lists k TimerList) \<and> expired k x) \<longrightarrow> timers k' x = timers k x)"
proof -
  let ?k = "k\<lparr>timer_lists := (timer_lists k)(TempList := [])\<rparr>"
  let ?e = "unat (tick k - b)"
  define fs where "fs = filter (\<lambda>y. due b k y \<le> ?e) (timer_lists k TimerList)"
  have dk: "due b ?k = due b k" by (rule ext) (simp add: due_def)
  have ok: "timers_ok b ?k" using assms(2) by (subst timers_ok_cong[of _ k]) simp_all
  have per: "periods_ok ?k" using assms(3) by (simp add: periods_ok_def periodic_def)
  have fs: "fs = filter (\<lambda>y. due b ?k y \<le> unat (tick ?k - b)) (timer_lists ?k TimerList)"
    by (simp add: fs_def dk)
  note L = check_loop_fires[OF assms(1) ok per _ fs]
  have "fire_all call fs ?k = Some k'"
    using assms(4) L(1) by (simp add: rt_timer_check_def rt_tick_get_def)
  with L(2) have sw: "timers_swept b fs ?k k'" by simp
  then have ok': "timers_ok b k'" and tk: "tick k' = tick k"
    and none: "filter (\<lambda>y. due b k' y \<le> ?e) (timer_lists k' TimerList) = []"
    by (auto simp: timers_swept_def)
  have mem: "x \<in> set fs \<longleftrightarrow> x \<in> set (timer_lists k TimerList) \<and> expired k x" for x
    using expired_due[OF assms(2)] by (auto simp: fs_def)
  have late: "?e < due b k' x" if "x \<in> set (timer_lists k' TimerList)" for x
    using none that by (auto simp: filter_empty_conv not_le)
  have rebase: "due (tick k') k' x = due b k' x - ?e" if "x \<in> set (timer_lists k' TimerList)" for x
  proof -
    have "timeout_tick (timers k' x) - tick k = (timeout_tick (timers k' x) - b) - (tick k - b)" by simp
    then show ?thesis
      using late[OF that] unfolding due_def tk by (simp only: unat_diff_cases) (simp add: due_def)
  qed
  have so: "sorted (map (due (tick k') k') ts)"
    if "sorted (map (due b k') ts)" "set ts \<subseteq> set (timer_lists k' TimerList)" for ts
    using that by (induction ts) (auto simp: rebase diff_le_mono)
  have "due (tick k') k' x < 2 ^ 31 - 1" if "x \<in> set (timer_lists k' TimerList)" for x
    using timers_okD(3)[OF ok' that] rebase[OF that] late[OF that] tk by auto
  then have "timers_ok (tick k') k'"
    using so[OF timers_okD(4)[OF ok']] timers_okD(2)[OF ok'] by (simp add: timers_ok_def)
  moreover have "\<not> expired k' x" if "x \<in> set (timer_lists k' TimerList)" for x
    using expired_due[OF ok' that] late[OF that] tk by simp
  ultimately show ?thesis
    using sw mem by (auto simp: timers_swept_def periodic_def)
qed

text \<open>After a check no timer of the list is due; a one-shot timer that fired is out of the list
  and deactivated, a timer that was not due keeps its state, and the list is sorted and in the
  window counted from the current tick.\<close>
theorem timer_check_sweeps:
  assumes "leaves_timers call" "timers_ok b k" "periods_ok k"
    and "rt_timer_check call k = Some k'"
  shows "timers_ok (tick k') k' \<and> (\<forall>x \<in> set (timer_lists k' TimerList). \<not> expired k' x) \<and>
    (\<forall>x. x \<in> set (timer_lists k TimerList) \<and> expired k x \<and> \<not> periodic k x \<longrightarrow>
       \<not> activated k' x \<and> x \<notin> set (timer_lists k' TimerList)) \<and>
    (\<forall>x. \<not> (x \<in> set (timer_lists k TimerList) \<and> expired k x) \<longrightarrow> timers k' x = timers k x)"
  by (rule check_sweeps[OF assms])

theorem timer_check_sweeps_witness:
  "\<exists>k'. rt_timer_check note_call example_timers = Some k' \<and> timers_ok (tick k') k'"
proof -
  have c: "rt_timer_check note_call example_timers \<noteq> None"
    using check_fires[OF note_call_leaves example_timers_ok example_periods_ok] note_fire_all
    by simp
  then show ?thesis
    using timer_check_sweeps[OF note_call_leaves example_timers_ok example_periods_ok] by blast
qed

subsection \<open>A period of no ticks\<close>

definition zero_period :: "tmid \<Rightarrow> kernel \<Rightarrow> bool" where
  "zero_period x k \<longleftrightarrow> timer_lists k TimerList = [x] \<and> timer_lists k TempList = [] \<and>
     periodic k x \<and> activated k x \<and> timer_init_tick (timers k x) = 0 \<and>
     timeout_tick (timers k x) = tick k"

lemma zero_period_fire:
  assumes "leaves_timers call" "zero_period x k" "timer_fire call x k = Some k'"
  shows "zero_period x k'"
proof -
  define k3 where "k3 = fire_begin x k"
  have p: "periodic (timer_remove x k) x" using assms(2) by (simp add: zero_period_def periodic_def)
  obtain k4 where k4: "call (timeout_func (timers k3 x)) (parameter (timers k3 x)) k3 = Some k4"
    and k'4: "k' = fire_end x k4"
    using assms(3) unfolding timer_fire_def Let_def k3_def by (auto split: bind_splits)
  have "timers k4 = timers k3" "timer_lists k4 = timer_lists k3" "tick k4 = tick k3"
    using assms(1) k4 by (auto simp: leaves_timers_def)
  then have t4: "timers k4 = timers k" "tick k4 = tick k"
    "timer_lists k4 TempList = [x]" "timer_lists k4 TimerList = []"
    using assms(2) p
    by (simp_all add: k3_def fire_begin_def Let_def zero_period_def q_remove_def q_push_front_def)
  then have k'5: "k' = rt_timer_start x (upd_timer x deactivate (timer_remove x k4))"
    using assms(2) k'4 by (simp add: fire_end_def zero_period_def periodic_def activated_def)
  have fl: "(timer_flag (deactivate tm) OR 1) AND 1 = 1"
    "(timer_flag (deactivate tm) OR 1) AND 2 = timer_flag tm AND 2" for tm
    by (simp_all add: bit.conj_disj_distrib2 deactivate_def and.assoc)
  show ?thesis
    using assms(2) t4 fl
    by (simp add: zero_period_def k'5 timers_start timer_lists_start periodic_def activated_def
        start_tick_def q_remove_def)
qed

definition hangs :: "tmid \<Rightarrow> (timeout_fn \<Rightarrow> nat \<Rightarrow> kernel \<Rightarrow> kernel option) \<Rightarrow> u32 \<Rightarrow> kernel \<Rightarrow> bool" where
  "hangs x call c k \<longleftrightarrow> leaves_timers call \<and> zero_period x k \<and> c = rt_tick_get k"

lemma zero_period_loop:
  assumes "timer_check_loop call c k = Some k'"
  shows "\<not> hangs x call c k"
proof (rule timer_check_loop.raw_induct[where P = "\<lambda>call c k _. \<not> hangs x call c k", OF _ assms])
  fix loop call c k k'
  assume IH: "\<And>call c k y. loop call c k = Some y \<Longrightarrow> \<not> hangs x call c k"
    and step: "(case timer_lists k TimerList of [] \<Rightarrow> Some k
      | y # _ \<Rightarrow> if c - timeout_tick (timers k y) < RT_TICK_MAX div 2
          then timer_fire call y k \<bind> (\<lambda>k'. loop call (rt_tick_get k') k') else Some k) = Some (k' :: kernel)"
  show "\<not> hangs x call c k"
  proof
    assume a: "hangs x call c k"
    then have ts: "timer_lists k TimerList = [x]" and e: "c - timeout_tick (timers k x) = 0"
      by (simp_all add: hangs_def zero_period_def rt_tick_get_def)
    from step ts e obtain k1 where k1: "timer_fire call x k = Some k1"
      "loop call (rt_tick_get k1) k1 = Some k'"
      by (auto split: bind_splits)
    from IH[OF k1(2)] a zero_period_fire[of call x k k1] k1(1) show False by (auto simp: hangs_def)
  qed
qed

text \<open>A periodic timer started with a time of 0, which \<open>rt_timer_init\<close> accepts, makes the timer
  check loop for ever: at its timeout it is put back at the current tick and is due again.\<close>
theorem timer_check_zero_period:
  assumes "leaves_timers call" "zero_period x k"
  shows "rt_timer_check call k = None"
proof -
  have "k\<lparr>timer_lists := (timer_lists k)(TempList := [])\<rparr> = k"
    using assms(2) by (cases k) (simp add: zero_period_def fun_upd_idem)
  then show ?thesis
    using zero_period_loop[of call "rt_tick_get k" k _ x] assms
    by (cases "rt_timer_check call k") (auto simp: rt_timer_check_def hangs_def)
qed

theorem timer_check_zero_period_witness:
  "ok (rt_timer_init (UserTimer 4) (UserTimeout 4) 0 0 RT_TIMER_FLAG_PERIODIC example_kernel)
     (\<lambda>k. rt_timer_check note_call (rt_timer_start (UserTimer 4) k) = None)"
  by (simp add: rt_timer_init_def, rule timer_check_zero_period[OF note_call_leaves, of "UserTimer 4"])
    (simp add: zero_period_def timer_object_init_def timers_start timer_lists_start periodic_def
      activated_def start_tick_def q_remove_def example_kernel_def)

end
