(* ===== verification/Thread.thy ===== *)
theory Thread
  imports Timer
begin

text \<open>
  \<open>src/thread.c\<close> and \<open>src/clock.c\<close>: the life of a thread up to its end, and the tick. A call that
  blocks is split at its \<open>rt_schedule\<close>: the first half returns \<open>Waiting\<close>, and a function with
  the suffix \<open>_resume\<close> is the code the thread runs when it is scheduled again. Interrupts are
  disabled around the state changes of the C code; every function here is one atomic step.
\<close>

section \<open>Operations\<close>

datatype outcome = Done rt_err_t | Waiting

abbreviation RT_INTERRUPTIBLE :: nat where "RT_INTERRUPTIBLE \<equiv> 0"
abbreviation RT_KILLABLE :: nat where "RT_KILLABLE \<equiv> 1"
abbreviation RT_UNINTERRUPTIBLE :: nat where "RT_UNINTERRUPTIBLE \<equiv> 2"

definition set_error :: "tid \<Rightarrow> rt_err_t \<Rightarrow> kernel \<Rightarrow> kernel" where
  "set_error t e = upd_thread t (\<lambda>th. th\<lparr>error := e\<rparr>)"

text \<open>\<open>rt_set_errno\<close>; the error of code that runs in no thread is not kept.\<close>

definition rt_set_errno :: "rt_err_t \<Rightarrow> kernel \<Rightarrow> kernel" where
  "rt_set_errno e k =
     (if rt_interrupt_get_nest k \<noteq> 0 then k
      else case rt_thread_self k of None \<Rightarrow> k | Some t \<Rightarrow> set_error t e k)"

definition rt_thread_set_suspend_state :: "tid \<Rightarrow> nat \<Rightarrow> kernel \<Rightarrow> kernel option" where
  "rt_thread_set_suspend_state t suspend_flag k =
     (if suspend_flag = RT_INTERRUPTIBLE
        then Some (upd_thread t (set_stat RT_THREAD_SUSPEND_INTERRUPTIBLE) k)
      else if suspend_flag = RT_KILLABLE
        then Some (upd_thread t (set_stat RT_THREAD_SUSPEND_KILLABLE) k)
      else if suspend_flag = RT_UNINTERRUPTIBLE
        then Some (upd_thread t (set_stat RT_THREAD_SUSPEND_UNINTERRUPTIBLE) k)
      else None)"

definition rt_thread_suspend_with_flag :: "tid \<Rightarrow> nat \<Rightarrow> kernel \<Rightarrow> (rt_err_t \<times> kernel) option" where
  "rt_thread_suspend_with_flag t suspend_flag k =
     do {
       rt_assert (rt_thread_self k = Some t);
       if tstat k t \<noteq> RT_THREAD_READY \<and> tstat k t \<noteq> RT_THREAD_RUNNING
       then Some (- RT_ERROR, k)
       else do {
         let k1 = rt_schedule_remove_thread t k;
         k2 \<leftarrow> rt_thread_set_suspend_state t suspend_flag k1;
         let k3 = snd (rt_timer_stop (ThreadTimer t) k2);
         Some (RT_EOK, k3)
       }
     }"

definition rt_thread_suspend :: "tid \<Rightarrow> kernel \<Rightarrow> (rt_err_t \<times> kernel) option" where
  "rt_thread_suspend t k = rt_thread_suspend_with_flag t RT_UNINTERRUPTIBLE k"

definition rt_thread_resume :: "tid \<Rightarrow> kernel \<Rightarrow> rt_err_t \<times> kernel" where
  "rt_thread_resume t k =
     (if \<not> suspended k t then (- RT_ERROR, k)
      else
        let k1 = k\<lparr>queues := q_remove t (queues k)\<rparr>;
            k2 = snd (rt_timer_stop (ThreadTimer t) k1)
        in (RT_EOK, rt_schedule_insert_thread t k2))"

definition thread_timeout :: "tid \<Rightarrow> kernel \<Rightarrow> kernel option" where
  "thread_timeout t k =
     do {
       rt_assert (suspended k t);
       let k1 = set_error t (- RT_ETIMEOUT) k;
       let k2 = k1\<lparr>queues := q_remove t (queues k1)\<rparr>;
       rt_schedule (rt_schedule_insert_thread t k2)
     }"

text \<open>The initialisation shared by \<open>rt_thread_init\<close> and \<open>rt_thread_create\<close>; entry point, stack
  and name are not part of the model.\<close>

definition thread_object_init :: "tid \<Rightarrow> u8 \<Rightarrow> u32 \<Rightarrow> bool \<Rightarrow> kernel \<Rightarrow> kernel option" where
  "thread_object_init t priority tck static k =
     do {
       let k1 = k\<lparr>queues := q_remove t (queues k)\<rparr>;
       rt_assert (priority < 32);
       let k2 = upd_thread t (\<lambda>_. \<lparr>error = RT_EOK, stat = RT_THREAD_INIT,
              current_priority = priority, init_priority = priority, number_mask = 0,
              taken_object_list = [], pending_object = None, event_set = 0, event_info = 0,
              init_tick = tck, remaining_tick = tck, static_object = static\<rparr>) k1;
       rt_timer_init (ThreadTimer t) ThreadTimeout t 0 0 k2
     }"

definition rt_thread_init :: "tid \<Rightarrow> u8 \<Rightarrow> u32 \<Rightarrow> kernel \<Rightarrow> (rt_err_t \<times> kernel) option" where
  "rt_thread_init t priority tck k =
     do { k1 \<leftarrow> thread_object_init t priority tck True k; Some (RT_EOK, k1) }"

text \<open>\<open>object\<close> and \<open>stack_ok\<close> are the results of the two allocations of \<open>rt_thread_create\<close>.\<close>

definition rt_thread_create ::
  "tid option \<Rightarrow> bool \<Rightarrow> u8 \<Rightarrow> u32 \<Rightarrow> kernel \<Rightarrow> (tid option \<times> kernel) option" where
  "rt_thread_create object stack_ok priority tck k =
     (case object of
        None \<Rightarrow> Some (None, k)
      | Some t \<Rightarrow>
          if \<not> stack_ok then Some (None, k)
          else do { k1 \<leftarrow> thread_object_init t priority tck False k; Some (Some t, k1) })"

definition rt_thread_startup :: "tid \<Rightarrow> kernel \<Rightarrow> (rt_err_t \<times> kernel) option" where
  "rt_thread_startup t k =
     do {
       rt_assert (tstat k t = RT_THREAD_INIT);
       let k1 = upd_thread t (\<lambda>th. th\<lparr>number_mask := 2 ^ unat (current_priority th),
                                      stat := RT_THREAD_SUSPEND\<rparr>) k;
       let k2 = snd (rt_thread_resume t k1);
       k3 \<leftarrow> (if rt_thread_self k2 \<noteq> None then rt_schedule k2 else Some k2);
       Some (RT_EOK, k3)
     }"

definition rt_thread_yield :: "kernel \<Rightarrow> (rt_err_t \<times> kernel) option" where
  "rt_thread_yield k =
     do {
       t \<leftarrow> rt_thread_self k;
       let k1 = upd_thread t (\<lambda>th. th\<lparr>remaining_tick := init_tick th,
                                      stat := stat th OR RT_THREAD_STAT_YIELD_MASK\<rparr>) k;
       k2 \<leftarrow> rt_schedule k1;
       Some (RT_EOK, k2)
     }"

definition thread_timer_arm :: "tid \<Rightarrow> u32 \<Rightarrow> kernel \<Rightarrow> kernel option" where
  "thread_timer_arm t timeout k =
     do {
       (_, k1) \<leftarrow> rt_timer_control (ThreadTimer t) (TimerSetTime timeout) k;
       Some (rt_timer_start (ThreadTimer t) k1)
     }"

definition rt_thread_sleep :: "u32 \<Rightarrow> kernel \<Rightarrow> (outcome \<times> kernel) option" where
  "rt_thread_sleep tck k =
     (if tck = 0 then Some (Done (- RT_EINVAL), k)
      else do {
        t \<leftarrow> rt_thread_self k;
        rt_assert (scheduler_available k);
        let k1 = set_error t RT_EOK k;
        (err, k2) \<leftarrow> rt_thread_suspend_with_flag t RT_INTERRUPTIBLE k1;
        if err = RT_EOK then do {
          k3 \<leftarrow> thread_timer_arm t tck k2;
          let k4 = set_error t (- RT_EINTR) k3;
          k5 \<leftarrow> rt_schedule k4;
          Some (Waiting, k5)
        }
        else Some (Done err, k2)
      })"

text \<open>A sleep that ran its time is no error.\<close>

definition rt_thread_sleep_resume :: "tid \<Rightarrow> kernel \<Rightarrow> rt_err_t \<times> kernel" where
  "rt_thread_sleep_resume t k =
     (RT_EOK, if error (threads k t) = - RT_ETIMEOUT then set_error t RT_EOK k else k)"

definition rt_thread_delay :: "u32 \<Rightarrow> kernel \<Rightarrow> (outcome \<times> kernel) option" where
  "rt_thread_delay tck k = rt_thread_sleep tck k"

text \<open>\<open>last_tick\<close> is the variable the caller passes; its new value is returned.\<close>

definition rt_thread_delay_until ::
  "u32 \<Rightarrow> u32 \<Rightarrow> kernel \<Rightarrow> (outcome \<times> u32 \<times> kernel) option" where
  "rt_thread_delay_until last_tick inc_tick k =
     do {
       t \<leftarrow> rt_thread_self k;
       let k1 = set_error t RT_EOK k;
       let cur_tick = rt_tick_get k1;
       if cur_tick - last_tick < inc_tick then do {
         let last_tick' = last_tick + inc_tick;
         let left_tick = last_tick' - cur_tick;
         (_, k2) \<leftarrow> rt_thread_suspend_with_flag t RT_UNINTERRUPTIBLE k1;
         k3 \<leftarrow> thread_timer_arm t left_tick k2;
         k4 \<leftarrow> rt_schedule k3;
         Some (Waiting, last_tick', k4)
       }
       else Some (Done (error (threads k1 t)), cur_tick, k1)
     }"

definition rt_thread_delay_until_resume :: "tid \<Rightarrow> kernel \<Rightarrow> rt_err_t \<times> kernel" where
  "rt_thread_delay_until_resume t k =
     (let k1 = (if error (threads k t) = - RT_ETIMEOUT then set_error t RT_EOK k else k)
      in (error (threads k1 t), k1))"

abbreviation RT_TICK_PER_SECOND :: int where "RT_TICK_PER_SECOND \<equiv> 1000"

definition rt_tick_from_millisecond :: "32 word \<Rightarrow> u32" where
  "rt_tick_from_millisecond ms =
     (if sint ms < 0 then - 1
      else of_int (RT_TICK_PER_SECOND * (sint ms div 1000)) +
           of_int ((RT_TICK_PER_SECOND * (sint ms mod 1000) + 999) div 1000))"

definition rt_tick_get_millisecond :: "kernel \<Rightarrow> u32" where
  "rt_tick_get_millisecond k = rt_tick_get k * (1000 div of_int RT_TICK_PER_SECOND)"

definition rt_thread_mdelay :: "32 word \<Rightarrow> kernel \<Rightarrow> (outcome \<times> kernel) option" where
  "rt_thread_mdelay ms k = rt_thread_sleep (rt_tick_from_millisecond ms) k"

text \<open>\<open>RT_THREAD_CTRL_CHANGE_PRIORITY\<close> of \<open>rt_thread_control\<close>.\<close>

definition change_priority :: "tid \<Rightarrow> u8 \<Rightarrow> kernel \<Rightarrow> kernel" where
  "change_priority t p k =
     (let set_prio = upd_thread t (\<lambda>th. th\<lparr>current_priority := p, number_mask := 2 ^ unat p\<rparr>)
      in if tstat k t = RT_THREAD_READY
         then rt_schedule_insert_thread t (set_prio (rt_schedule_remove_thread t k))
         else set_prio k)"

definition rt_tick_set :: "u32 \<Rightarrow> kernel \<Rightarrow> kernel" where
  "rt_tick_set tck k = k\<lparr>tick := tck\<rparr>"

text \<open>The functions timers call: the time-out of a thread, or a user's function.\<close>

definition timeout_call ::
  "(nat \<Rightarrow> nat \<Rightarrow> kernel \<Rightarrow> kernel option) \<Rightarrow> timeout_fn \<Rightarrow> nat \<Rightarrow> kernel \<Rightarrow> kernel option" where
  "timeout_call user f param k =
     (case f of ThreadTimeout \<Rightarrow> thread_timeout param k | UserTimeout n \<Rightarrow> user n param k)"

definition rt_tick_increase ::
  "(nat \<Rightarrow> nat \<Rightarrow> kernel \<Rightarrow> kernel option) \<Rightarrow> kernel \<Rightarrow> kernel option" where
  "rt_tick_increase user k =
     do {
       let k1 = k\<lparr>tick := tick k + 1\<rparr>;
       t \<leftarrow> rt_thread_self k1;
       let k2 = upd_thread t (\<lambda>th. th\<lparr>remaining_tick := remaining_tick th - 1\<rparr>) k1;
       k3 \<leftarrow> (if remaining_tick (threads k2 t) = 0
             then rt_schedule (upd_thread t (\<lambda>th. th\<lparr>remaining_tick := init_tick th,
                    stat := stat th OR RT_THREAD_STAT_YIELD_MASK\<rparr>) k2)
             else Some k2);
       rt_timer_check (timeout_call user) k3
     }"

section \<open>The timer invariant\<close>

text \<open>
  Timers are in the window of the base tick \<open>b\<close>, linked timers are active, the timer of a thread
  runs the time-out of that thread, once, and is active only while the thread is suspended.
\<close>

definition tinv :: "u32 \<Rightarrow> kernel \<Rightarrow> bool" where
  "tinv b k \<longleftrightarrow> timers_ok b k \<and>
     (\<forall>x. unat (timer_init_tick (timers k x)) < 2 ^ 31 - 1) \<and>
     (\<forall>x \<in> set (timer_lists k TimerList). activated k x) \<and>
     (\<forall>t. timeout_func (timers k (ThreadTimer t)) = ThreadTimeout \<and>
          parameter (timers k (ThreadTimer t)) = t \<and> \<not> periodic k (ThreadTimer t)) \<and>
     (\<forall>t. activated k (ThreadTimer t) \<longrightarrow> suspended k t) \<and>
     (\<forall>n. timeout_func (timers k (UserTimer n)) \<noteq> ThreadTimeout)"

definition sysinv :: "u32 \<Rightarrow> kernel \<Rightarrow> bool" where
  "sysinv b k \<longleftrightarrow> kinv k \<and> tinv b k"

lemma tinvD:
  assumes "tinv b k"
  shows "timers_ok b k" "unat (timer_init_tick (timers k x)) < 2 ^ 31 - 1"
    "x \<in> set (timer_lists k TimerList) \<Longrightarrow> activated k x"
    "timeout_func (timers k (ThreadTimer t)) = ThreadTimeout"
    "parameter (timers k (ThreadTimer t)) = t" "\<not> periodic k (ThreadTimer t)"
    "activated k (ThreadTimer t) \<Longrightarrow> suspended k t"
    "timeout_func (timers k (UserTimer n)) \<noteq> ThreadTimeout"
  using assms by (auto simp: tinv_def)

text \<open>Changes of threads and queues that keep every thread with an active timer suspended.\<close>

lemma tinv_threads:
  assumes "tinv b k" "timers k' = timers k" "tick k' = tick k"
    and "timer_lists k' TimerList = timer_lists k TimerList"
    and "\<And>t. activated k (ThreadTimer t) \<Longrightarrow> suspended k t \<Longrightarrow> suspended k' t"
  shows "tinv b k'"
proof -
  have "timers_ok b k'" using tinvD(1)[OF assms(1)] by (subst timers_ok_cong[of _ k]) (simp_all add: assms)
  then show ?thesis
    using assms by (simp add: tinv_def activated_def periodic_def)
qed

lemma activated_deactivate: "\<not> activated (upd_timer x deactivate k) x"
  by (simp add: activated_def)

lemma tinv_stop:
  assumes "tinv b k"
  shows "tinv b (upd_timer x deactivate (timer_remove x k))" (is "tinv b ?k'")
proof -
  note T = tinvD[OF assms]
  have due: "due b ?k' = due b k" by (rule ext) (simp add: due_def)
  have "timers_ok b ?k'"
    using T(1) by (auto simp: timers_ok_def due q_remove_def sorted_removeAll distinct_removeAll)
  moreover have "activated ?k' y \<longleftrightarrow> y \<noteq> x \<and> activated k y" for y by (simp add: activated_def)
  moreover have "periodic ?k' y = periodic k y" for y by (simp add: periodic_def)
  moreover have "suspended ?k' t = suspended k t" for t by (simp add: suspended_def)
  ultimately show ?thesis
    using assms by (auto simp: tinv_def q_remove_def)
qed

lemma tinv_timer_stop: "tinv b k \<Longrightarrow> tinv b (snd (rt_timer_stop x k))"
  by (simp add: rt_timer_stop_def tinv_stop)

lemma stop_inactive: "tinv b k \<Longrightarrow> \<not> activated (snd (rt_timer_stop x k)) x"
  by (simp add: rt_timer_stop_def activated_deactivate)

lemma tinv_start:
  assumes "tinv b k" "\<And>t. x = ThreadTimer t \<Longrightarrow> suspended k t"
  shows "tinv b (rt_timer_start x k)" (is "tinv b ?k'")
proof -
  note T = tinvD[OF assms(1)]
  have ok: "timers_ok b ?k'" using timer_start_correct(2)[OF T(1,2)] .
  have fl: "(w OR 1) AND 1 = (1::u8)" "(w OR 1) AND 2 = w AND (2::u8)" for w
    by (simp_all add: bit.conj_disj_distrib2)
  have act: "activated ?k' y \<longleftrightarrow> y = x \<or> activated k y" for y
    by (simp add: activated_def timers_start fl)
  have per: "periodic ?k' y = periodic k y" for y
    by (simp add: periodic_def timers_start fl)
  have init: "timer_init_tick (timers ?k' y) = timer_init_tick (timers k y)"
    "timeout_func (timers ?k' y) = timeout_func (timers k y)"
    "parameter (timers ?k' y) = parameter (timers k y)" for y
    by (simp_all add: timers_start)
  have "set (timer_lists ?k' TimerList) \<subseteq> insert x (set (timer_lists k TimerList))"
    by (auto simp: timer_lists_start set_timer_insert)
  moreover have "suspended ?k' t = suspended k t" for t by (simp add: suspended_def)
  ultimately show ?thesis
    using ok assms T by (auto simp: tinv_def act per init)
qed

lemma tinv_set_time:
  assumes "tinv b k" "tck < RT_TICK_MAX div 2"
  shows "tinv b (upd_timer x (\<lambda>tm. tm\<lparr>timer_init_tick := tck\<rparr>) k)" (is "tinv b ?k'")
proof -
  have "timers_ok b ?k'"
    using tinvD(1)[OF assms(1)] by (subst timers_ok_cong[of _ k]) simp_all
  moreover have "activated ?k' y = activated k y" "periodic ?k' y = periodic k y"
    "suspended ?k' t = suspended k t" for y t
    by (simp_all add: activated_def periodic_def suspended_def)
  moreover have "unat tck < 2 ^ 31 - 1" using assms(2) by (simp add: word_less_nat_alt)
  ultimately show ?thesis
    using assms(1) by (auto simp: tinv_def)
qed

lemma thread_timer_arm_ok:
  assumes "tinv b k" "suspended k t"
  shows "thread_timer_arm t tck k =
      (if tck < RT_TICK_MAX div 2
       then Some (rt_timer_start (ThreadTimer t)
                    (upd_timer (ThreadTimer t) (\<lambda>tm. tm\<lparr>timer_init_tick := tck\<rparr>) k))
       else None)"
    and "ok (thread_timer_arm t tck k) (\<lambda>k'. tinv b k' \<and> timer_only k k') \<longleftrightarrow>
         tck < RT_TICK_MAX div 2"
proof -
  let ?k1 = "upd_timer (ThreadTimer t) (\<lambda>tm. tm\<lparr>timer_init_tick := tck\<rparr>) k"
  show eq: "thread_timer_arm t tck k =
      (if tck < RT_TICK_MAX div 2 then Some (rt_timer_start (ThreadTimer t) ?k1) else None)"
    by (simp add: thread_timer_arm_def rt_timer_control_def rt_assert_def)
  have "timer_only k (rt_timer_start (ThreadTimer t) ?k1)"
    by (rule timer_only_trans[of _ ?k1]) simp_all
  moreover have "tinv b (rt_timer_start (ThreadTimer t) ?k1)" if "tck < RT_TICK_MAX div 2"
    using tinv_set_time[OF assms(1) that] assms(2) by (intro tinv_start) (simp_all add: suspended_def)
  ultimately show "ok (thread_timer_arm t tck k) (\<lambda>k'. tinv b k' \<and> timer_only k k') \<longleftrightarrow>
      tck < RT_TICK_MAX div 2" by (simp add: eq)
qed

section \<open>The invariant under the operations\<close>

text \<open>Fields of a thread the scheduler does not read.\<close>

lemma sysinv_upd_keep:
  assumes "stat (f (threads k t)) AND 7 = tstat k t"
    "current_priority (f (threads k t)) = current_priority (threads k t)"
    "number_mask (f (threads k t)) = number_mask (threads k t)"
  shows "kinv (upd_thread t f k) = kinv k" "sysinv b k \<Longrightarrow> sysinv b (upd_thread t f k)"
    "tstat (upd_thread t f k) u = tstat k u" "suspended (upd_thread t f k) u = suspended k u"
    "prio (upd_thread t f k) u = prio k u" "runnable (upd_thread t f k) u = runnable k u"
proof -
  have t: "tstat (upd_thread t f k) v = tstat k v" for v using assms(1) by (simp add: tstat_upd_thread)
  then show "tstat (upd_thread t f k) u = tstat k u" "suspended (upd_thread t f k) u = suspended k u"
    "runnable (upd_thread t f k) u = runnable k u"
    by (simp_all add: suspended_tstat runnable_def)
  show "prio (upd_thread t f k) u = prio k u" using assms(2) by (simp add: prio_def)
  have "qinv {} (upd_thread t f k) = qinv {} k"
    by (rule qinv_cong) (use assms t in simp_all)
  moreover have "cinv (upd_thread t f k) = cinv k" by (rule cinv_cong) (simp_all add: t)
  ultimately show ki: "kinv (upd_thread t f k) = kinv k" by (simp add: kinv_def)
  have su: "suspended (upd_thread t f k) v = suspended k v" for v by (simp add: suspended_tstat t)
  have "tinv b (upd_thread t f k)" if "tinv b k"
    by (rule tinv_threads[OF that]) (simp_all add: su)
  then show "sysinv b k \<Longrightarrow> sysinv b (upd_thread t f k)" by (simp add: sysinv_def ki)
qed

lemma set_error_simps [simp]:
  "kinv (set_error t e k) = kinv k" "tstat (set_error t e k) u = tstat k u"
  "suspended (set_error t e k) u = suspended k u" "prio (set_error t e k) u = prio k u"
  "runnable (set_error t e k) u = runnable k u"
  "threads (set_error t e k) u = (if u = t then (threads k t)\<lparr>error := e\<rparr> else threads k u)"
  by (simp_all add: set_error_def sysinv_upd_keep tstat_def)

lemma set_error_frame [simp]:
  "queues (set_error t e k) = queues k" "ready_group (set_error t e k) = ready_group k"
  "lock_nest (set_error t e k) = lock_nest k" "cur (set_error t e k) = cur k"
  "interrupt_nest (set_error t e k) = interrupt_nest k" "tick (set_error t e k) = tick k"
  "irq_disabled (set_error t e k) = irq_disabled k" "timers (set_error t e k) = timers k"
  "timer_lists (set_error t e k) = timer_lists k" "sems (set_error t e k) = sems k"
  "mutexes (set_error t e k) = mutexes k" "events (set_error t e k) = events k"
  "mailboxes (set_error t e k) = mailboxes k"
  "mqueues (set_error t e k) = mqueues k" "mempools (set_error t e k) = mempools k"
  "block_words (set_error t e k) = block_words k"
  by (simp_all add: set_error_def)

lemma sysinv_set_error [simp]: "sysinv b (set_error t e k) = sysinv b k"
proof -
  have *: "sysinv b k' \<Longrightarrow> sysinv b (set_error t e' k')" for k' e'
    unfolding set_error_def by (rule sysinv_upd_keep(2)) (simp_all add: tstat_def)
  have "set_error t (error (threads k t)) (set_error t e k) = k"
    by (simp add: set_error_def upd_thread_def fun_upd_idem)
  with * show ?thesis by metis
qed

lemma sched_frameD:
  assumes "sched_frame k k'"
  shows "lock_nest k' = lock_nest k" "interrupt_nest k' = interrupt_nest k"
    "irq_disabled k' = irq_disabled k" "tick k' = tick k" "timers k' = timers k"
    "timer_lists k' = timer_lists k" "sems k' = sems k" "mutexes k' = mutexes k"
    "events k' = events k" "mailboxes k' = mailboxes k"
    and "error (threads k' t) = error (threads k t)"
    "current_priority (threads k' t) = current_priority (threads k t)"
    "event_set (threads k' t) = event_set (threads k t)"
    "event_info (threads k' t) = event_info (threads k t)"
    "pending_object (threads k' t) = pending_object (threads k t)"
    "taken_object_list (threads k' t) = taken_object_list (threads k t)"
    "init_priority (threads k' t) = init_priority (threads k t)"
    and "\<not> runnable k t \<Longrightarrow> threads k' t = threads k t" "runnable k' t = runnable k t"
    and "waitq q \<Longrightarrow> queues k' q = queues k q" "queues k' Defunct = queues k Defunct"
    and "mqueues k' = mqueues k" "mempools k' = mempools k" "block_words k' = block_words k"
proof -
  have "threads k' t = (threads k t)\<lparr>stat := stat (threads k' t)\<rparr>" for t
    using assms by (simp add: sched_frame_def)
  then show "error (threads k' t) = error (threads k t)"
    "current_priority (threads k' t) = current_priority (threads k t)"
    "event_set (threads k' t) = event_set (threads k t)"
    "event_info (threads k' t) = event_info (threads k t)"
    "pending_object (threads k' t) = pending_object (threads k t)"
    "taken_object_list (threads k' t) = taken_object_list (threads k t)"
    "init_priority (threads k' t) = init_priority (threads k t)"
    by (metis rt_thread.select_convs rt_thread.surjective rt_thread.update_convs(2))+
qed (use assms in \<open>auto simp: sched_frame_def rest_def waitq_def\<close>)

lemma suspended_not_runnable: "suspended k t \<Longrightarrow> \<not> runnable k t"
  by (auto simp: runnable_def suspended_tstat)

lemma sched_frame_suspended: "sched_frame k k' \<Longrightarrow> suspended k' t = suspended k t"
  using sched_frameD(18,19)[of k k' t] suspended_not_runnable
  by (metis suspended_def)

lemma sched_frame_tinv: "sched_frame k k' \<Longrightarrow> tinv b k \<Longrightarrow> tinv b k'"
  by (erule tinv_threads) (simp_all add: sched_frameD sched_frame_suspended)

lemma rt_schedule_sys:
  assumes "sysinv b k" "cur k = Some c"
  shows "ok (rt_schedule k) (\<lambda>k'. sysinv b k' \<and> sched_frame k k' \<and> cur k' \<noteq> None)"
  using assms by (intro ok_mono[OF rt_schedule_correct[of k c]]) (auto simp: sysinv_def sched_frame_tinv)

subsection \<open>Suspending and resuming\<close>

definition suspend_code :: "nat \<Rightarrow> u8" where
  "suspend_code flag =
     (if flag = RT_INTERRUPTIBLE then RT_THREAD_SUSPEND_INTERRUPTIBLE
      else if flag = RT_KILLABLE then RT_THREAD_SUSPEND_KILLABLE
      else RT_THREAD_SUSPEND_UNINTERRUPTIBLE)"

lemma suspend_code_simps [simp]:
  "suspend_code flag AND 7 = suspend_code flag" "suspend_code flag AND 4 = 4"
  by (simp_all add: suspend_code_def)

text \<open>The running thread suspends itself: it is in no queue before and after.\<close>

definition suspended_self :: "tid \<Rightarrow> nat \<Rightarrow> kernel \<Rightarrow> kernel" where
  "suspended_self t flag k =
     snd (rt_timer_stop (ThreadTimer t) (upd_thread t (set_stat (suspend_code flag)) k))"

lemma suspend_running:
  assumes inv: "kinv k" and c: "cur k = Some t" and r: "tstat k t = RT_THREAD_RUNNING"
    and f: "flag \<le> RT_UNINTERRUPTIBLE"
  shows "rt_thread_suspend_with_flag t flag k = Some (RT_EOK, suspended_self t flag k)"
proof -
  have q: "qinv {} k" using inv by (simp add: kinv_def)
  have "rt_schedule_remove_thread t k = k\<lparr>queues := q_remove t (queues k)\<rparr>"
    by (rule remove_not_ready[OF q]) (simp add: r)
  then have "rt_schedule_remove_thread t k = k"
    using running_unlinked[OF q r] by (simp add: q_remove_unlinked)
  moreover have "flag = 0 \<or> flag = 1 \<or> flag = 2" using f by auto
  ultimately show ?thesis
    using c r by (auto simp: rt_thread_suspend_with_flag_def rt_thread_self_def
        rt_thread_set_suspend_state_def suspended_self_def suspend_code_def)
qed

lemma suspended_self_frame [simp]:
  "threads (suspended_self t flag k) u =
     (if u = t then set_stat (suspend_code flag) (threads k t) else threads k u)"
  "queues (suspended_self t flag k) = queues k" "cur (suspended_self t flag k) = cur k"
  "lock_nest (suspended_self t flag k) = lock_nest k"
  "interrupt_nest (suspended_self t flag k) = interrupt_nest k" "tick (suspended_self t flag k) = tick k"
  "irq_disabled (suspended_self t flag k) = irq_disabled k"
  "sems (suspended_self t flag k) = sems k" "mutexes (suspended_self t flag k) = mutexes k"
  "events (suspended_self t flag k) = events k" "mailboxes (suspended_self t flag k) = mailboxes k"
  "mqueues (suspended_self t flag k) = mqueues k" "mempools (suspended_self t flag k) = mempools k"
  "block_words (suspended_self t flag k) = block_words k"
  by (simp_all add: suspended_self_def)

lemma suspended_self_state:
  "tstat (suspended_self t flag k) u = (if u = t then suspend_code flag else tstat k u)"
  "suspended (suspended_self t flag k) u \<longleftrightarrow> u = t \<or> suspended k u"
  "prio (suspended_self t flag k) u = prio k u"
proof -
  show s: "tstat (suspended_self t flag k) u = (if u = t then suspend_code flag else tstat k u)" for u
    by (simp add: tstat_def stat_set_stat)
  show "suspended (suspended_self t flag k) u \<longleftrightarrow> u = t \<or> suspended k u"
    by (auto simp: suspended_tstat s)
  show "prio (suspended_self t flag k) u = prio k u" by (simp add: prio_def)
qed

lemma suspended_self_sys:
  assumes inv: "sysinv b k" and c: "cur k = Some t" and r: "tstat k t = RT_THREAD_RUNNING"
  shows "sysinv b (suspended_self t flag k)"
proof -
  let ?k1 = "upd_thread t (set_stat (suspend_code flag)) k"
  have q: "qinv {} k" and ci: "cinv k" and ti: "tinv b k" using inv by (auto simp: sysinv_def kinv_def)
  have ts: "tstat ?k1 u = (if u = t then suspend_code flag else tstat k u)" for u
    by (simp add: tstat_upd_thread stat_set_stat)
  have sc: "suspend_code flag \<noteq> 2" "suspend_code flag \<noteq> 3" by (simp_all add: suspend_code_def)
  have "qinv {t} ?k1"
    using qinv_begin[OF q running_unlinked[OF q r]] qinvD(10)[OF q, of t] qinvD(12)[OF q, of t] r
    by (intro qinv_upd) (auto simp: prio_def)
  then have "qinv {} ?k1" by (rule qinv_settle) (simp add: ts sc)
  moreover have "cinv ?k1" using ci c sc by (auto simp: cinv_def ts split: if_splits)
  ultimately have "kinv ?k1" by (simp add: kinv_def)
  moreover have "suspended ?k1 u \<longleftrightarrow> u = t \<or> suspended k u" for u
    by (simp add: suspended_tstat ts)
  then have "tinv b ?k1" by (intro tinv_threads[OF ti]) simp_all
  ultimately show ?thesis
    by (simp add: sysinv_def suspended_self_def tinv_timer_stop timer_only_kinv[OF timer_only_ops(5)])
qed

text \<open>A suspended thread that is resumed leaves its queue and becomes ready.\<close>

definition resumed :: "tid \<Rightarrow> kernel \<Rightarrow> kernel" where
  "resumed t k = rt_schedule_insert_thread t
     (snd (rt_timer_stop (ThreadTimer t) (k\<lparr>queues := q_remove t (queues k)\<rparr>)))"

lemma rt_thread_resume_eq:
  "suspended k t \<Longrightarrow> rt_thread_resume t k = (RT_EOK, resumed t k)"
  "\<not> suspended k t \<Longrightarrow> rt_thread_resume t k = (- RT_ERROR, k)"
  by (simp_all add: rt_thread_resume_def resumed_def Let_def)

lemma resumed_frame [simp]:
  "cur (resumed t k) = cur k" "lock_nest (resumed t k) = lock_nest k"
  "interrupt_nest (resumed t k) = interrupt_nest k" "tick (resumed t k) = tick k"
  "irq_disabled (resumed t k) = irq_disabled k" "sems (resumed t k) = sems k"
  "mutexes (resumed t k) = mutexes k" "events (resumed t k) = events k"
  "mailboxes (resumed t k) = mailboxes k"
  "mqueues (resumed t k) = mqueues k" "mempools (resumed t k) = mempools k"
  "block_words (resumed t k) = block_words k"
  "threads (resumed t k) u =
     (if u = t then set_stat (if cur k = Some t then RT_THREAD_RUNNING else RT_THREAD_READY) (threads k t)
      else threads k u)"
  by (simp_all add: resumed_def threads_insert)

lemma resumed_state:
  "tstat (resumed t k) u =
     (if u = t then (if cur k = Some t then RT_THREAD_RUNNING else RT_THREAD_READY) else tstat k u)"
  "prio (resumed t k) u = prio k u"
  "u \<noteq> t \<Longrightarrow> suspended (resumed t k) u = suspended k u"
  by (simp_all add: resumed_def tstat_insert suspended_def threads_insert)
    (simp_all add: tstat_def prio_def)

lemma resumed_queues: "waitq q \<or> q = Defunct \<Longrightarrow> queues (resumed t k) q = removeAll t (queues k q)"
  by (auto simp: resumed_def queues_insert q_remove_def q_push_back_def q_push_front_def waitq_def)

lemma resumed_sys:
  assumes inv: "sysinv b k" and s: "suspended k t"
  shows "sysinv b (resumed t k)"
proof -
  let ?k1 = "k\<lparr>queues := q_remove t (queues k)\<rparr>"
  let ?k2 = "snd (rt_timer_stop (ThreadTimer t) ?k1)"
  have q: "qinv {} k" and ci: "cinv k" and ti: "tinv b k" using inv by (auto simp: sysinv_def kinv_def)
  have st: "tstat k t \<noteq> 0" "tstat k t \<noteq> 1" "tstat k t \<noteq> 2" "tstat k t \<noteq> 3"
    using s suspended_codes by auto
  have "qinv {t} ?k2"
    using qinv_unlink[OF q st(3)] timer_only_kinv(5)[OF timer_only_ops(5)] by simp
  moreover have "number_mask (threads ?k2 t) = 2 ^ prio ?k2 t"
    using qinvD(12)[OF q, of t] st by (simp add: prio_def)
  ultimately have "qinv {} (resumed t k)" unfolding resumed_def by (intro qinv_insert) simp_all
  moreover have "cinv (resumed t k)"
    using ci by (auto simp: cinv_def resumed_state)
  moreover have "tinv b ?k2"
    by (rule tinv_timer_stop, rule tinv_threads[OF ti]) (simp_all add: suspended_def)
  then have "tinv b (resumed t k)"
    unfolding resumed_def
  proof (rule tinv_threads)
    fix u assume a: "activated ?k2 (ThreadTimer u)" "suspended ?k2 u"
    have "tinv b ?k1" by (rule tinv_threads[OF ti]) (simp_all add: suspended_def)
    then have "u \<noteq> t" using stop_inactive[of b ?k1 "ThreadTimer t"] a(1) by auto
    then show "suspended (rt_schedule_insert_thread t ?k2) u"
      using a(2) by (simp add: suspended_def threads_insert)
  qed simp_all
  ultimately show ?thesis by (simp add: sysinv_def kinv_def)
qed

subsection \<open>Time-outs\<close>

lemma thread_timeout_eq:
  assumes "suspended k t" "\<not> activated k (ThreadTimer t)"
  shows "thread_timeout t k = rt_schedule (resumed t (set_error t (- RT_ETIMEOUT) k))"
proof -
  have "snd (rt_timer_stop (ThreadTimer t) k') = k'" if "timers k' = timers k" for k'
    using assms(2) that by (simp add: rt_timer_stop_def activated_def)
  then show ?thesis
    using assms(1) by (simp add: thread_timeout_def resumed_def)
qed

lemma thread_timeout_sys:
  assumes "sysinv b k" "suspended k t" "\<not> activated k (ThreadTimer t)" "cur k \<noteq> None"
  shows "ok (thread_timeout t k) (\<lambda>k'. sysinv b k' \<and> cur k' \<noteq> None)"
proof -
  obtain c where c: "cur k = Some c" using assms(4) by auto
  have "sysinv b (resumed t (set_error t (- RT_ETIMEOUT) k))"
    by (rule resumed_sys) (simp_all add: assms)
  from rt_schedule_sys[OF this, of c] show ?thesis
    unfolding thread_timeout_eq[OF assms(2,3)] by (rule ok_mono) (auto simp: c)
qed

lemma schedule_switch_timers:
  "timers (schedule_switch c h p n k) = timers k \<and> tick (schedule_switch c h p n k) = tick k \<and>
   timer_lists (schedule_switch c h p n k) = timer_lists k"
  by (simp add: schedule_switch_def Let_def)

lemma rt_schedule_timers:
  "rt_schedule k = Some k' \<Longrightarrow> timers k' = timers k \<and> timer_lists k' = timer_lists k \<and> tick k' = tick k"
  by (auto simp: rt_schedule_def Let_def schedule_switch_timers split: if_splits bind_splits)

lemma leaves_timers_call:
  assumes "\<And>n p k k'. user n p k = Some k' \<Longrightarrow>
      timers k' = timers k \<and> timer_lists k' = timer_lists k \<and> tick k' = tick k"
  shows "leaves_timers (timeout_call user)"
  unfolding leaves_timers_def
proof (intro allI impI)
  fix f p k k' assume k': "timeout_call user f p k = Some k'"
  show "timers k' = timers k \<and> timer_lists k' = timer_lists k \<and> tick k' = tick k"
  proof (cases f)
    case ThreadTimeout
    then have "rt_schedule (rt_schedule_insert_thread p ((set_error p (- RT_ETIMEOUT) k)
        \<lparr>queues := q_remove p (queues k)\<rparr>)) = Some k'"
      using k' by (auto simp: timeout_call_def thread_timeout_def rt_assert_def split: if_splits)
    from rt_schedule_timers[OF this] show ?thesis by simp
  qed (use k' assms in \<open>simp add: timeout_call_def\<close>)
qed

text \<open>What the functions of user timers must guarantee.\<close>

definition user_ok :: "u32 \<Rightarrow> (nat \<Rightarrow> nat \<Rightarrow> kernel \<Rightarrow> kernel option) \<Rightarrow> bool" where
  "user_ok b user \<longleftrightarrow>
     (\<forall>n p k k'. user n p k = Some k' \<longrightarrow>
        timers k' = timers k \<and> timer_lists k' = timer_lists k \<and> tick k' = tick k) \<and>
     (\<forall>n p k. sysinv b k \<and> cur k \<noteq> None \<longrightarrow> ok (user n p k) (\<lambda>k'. sysinv b k' \<and> cur k' \<noteq> None))"

lemma tinv_remove:
  assumes "tinv b k"
  shows "tinv b (timer_remove x k)" (is "tinv b ?k'")
proof -
  note T = tinvD[OF assms]
  have due: "due b ?k' = due b k" by (rule ext) (simp add: due_def)
  have "timers_ok b ?k'"
    using T(1) by (auto simp: timers_ok_def due q_remove_def sorted_removeAll distinct_removeAll)
  then show ?thesis
    using assms by (auto simp: tinv_def q_remove_def activated_def periodic_def suspended_def)
qed

lemma fire_begin_sys:
  assumes inv: "sysinv b k" and x: "x \<in> set (timer_lists k TimerList)"
  shows "sysinv b (fire_begin x k)" "timer_only k (fire_begin x k)"
    and "timeout_func (timers (fire_begin x k) x) = timeout_func (timers k x)"
    and "parameter (timers (fire_begin x k) x) = parameter (timers k x)"
    and "\<not> periodic k x \<Longrightarrow> \<not> activated (fire_begin x k) x"
proof -
  have ti: "tinv b k" and ki: "kinv k" using inv by (simp_all add: sysinv_def)
  define k2 where "k2 = (if \<not> periodic k x then upd_timer x deactivate (timer_remove x k)
    else timer_remove x k)"
  have k3: "fire_begin x k = k2\<lparr>timer_lists := q_push_front TempList x (timer_lists k2)\<rparr>"
    by (simp add: fire_begin_def k2_def periodic_def)
  have to2: "timer_only k k2"
    using timer_only_trans[OF timer_only_ops(2) timer_only_ops(1)] by (simp add: k2_def)
  then show to3: "timer_only k (fire_begin x k)"
    by (rule timer_only_trans) (simp add: k3 timer_only_def)
  have t2: "tinv b k2" using ti by (simp add: k2_def tinv_stop tinv_remove)
  have t3: "tinv b (fire_begin x k)"
    by (rule tinv_threads[OF t2]) (simp_all add: k3 q_push_front_def suspended_def)
  then show "sysinv b (fire_begin x k)" using ki timer_only_kinv(7)[OF to3] by (simp add: sysinv_def)
  show "timeout_func (timers (fire_begin x k) x) = timeout_func (timers k x)"
    "parameter (timers (fire_begin x k) x) = parameter (timers k x)"
    "\<not> periodic k x \<Longrightarrow> \<not> activated (fire_begin x k) x"
    by (simp_all add: k3 k2_def activated_def)
qed

lemma fire_end_sys:
  assumes "sysinv b k" "cur k \<noteq> None"
  shows "sysinv b (fire_end x k) \<and> cur (fire_end x k) \<noteq> None"
proof -
  define k1 where "k1 = timer_remove x k"
  have t1: "tinv b k1" and ki1: "kinv k1"
    using assms tinv_remove timer_only_kinv(7)[OF timer_only_ops(2)] by (auto simp: sysinv_def k1_def)
  have idem: "timer_remove x k1 = k1"
    by (simp add: k1_def timer_remove_def q_remove_unlinked)
  define k2 where "k2 = upd_timer x deactivate k1"
  have t2: "tinv b k2" using tinv_stop[OF t1, of x] by (simp add: idem k2_def)
  have "tinv b (rt_timer_start x k2)" if "periodic k1 x"
    by (rule tinv_start[OF t2]) (use that tinvD(6)[OF t1] in auto)
  moreover have "kinv (rt_timer_start x k2)"
    using ki1 timer_only_kinv(7)[OF timer_only_ops(4)] timer_only_kinv(7)[OF timer_only_ops(1)]
    by (simp add: k2_def)
  ultimately show ?thesis
    using assms t1 ki1 by (simp add: fire_end_def sysinv_def Let_def k1_def[symmetric] k2_def[symmetric])
      (simp add: k2_def k1_def)
qed

lemma timer_fire_sys:
  assumes inv: "sysinv b k" and c: "cur k \<noteq> None" and x: "x \<in> set (timer_lists k TimerList)"
    and user: "user_ok b user"
  shows "ok (timer_fire (timeout_call user) x k) (\<lambda>k'. sysinv b k' \<and> cur k' \<noteq> None)"
proof -
  let ?k3 = "fire_begin x k"
  note B = fire_begin_sys[OF inv x]
  have ti: "tinv b k" using inv by (simp add: sysinv_def)
  have c3: "cur ?k3 \<noteq> None" using c timer_onlyD(5)[OF B(2)] by simp
  have "ok (timeout_call user (timeout_func (timers ?k3 x)) (parameter (timers ?k3 x)) ?k3)
      (\<lambda>k'. sysinv b k' \<and> cur k' \<noteq> None)"
  proof (cases x)
    case (ThreadTimer t)
    have na: "\<not> activated ?k3 (ThreadTimer t)" using B(5) tinvD(6)[OF ti, of t] ThreadTimer by simp
    have "suspended k t" using tinvD(3)[OF ti x] tinvD(7)[OF ti] ThreadTimer by simp
    then have "suspended ?k3 t" using timer_only_kinv(3)[OF B(2)] by simp
    from thread_timeout_sys[OF B(1) this na c3] show ?thesis
      using tinvD(4,5)[OF ti, of t] B(3,4) ThreadTimer by (simp add: timeout_call_def)
  next
    case (UserTimer n)
    then obtain m where "timeout_func (timers ?k3 x) = UserTimeout m"
      using tinvD(8)[OF ti, of n] B(3) by (cases "timeout_func (timers k x)") auto
    then show ?thesis using user B(1) c3 by (simp add: user_ok_def timeout_call_def)
  qed
  then show ?thesis
    unfolding timer_fire_def Let_def ok_bind
    by (rule ok_mono) (simp only: ok_Some, rule fire_end_sys, auto)
qed

text \<open>Whatever relation each timer that fires keeps, a sweep of the timers keeps.\<close>

lemma fire_all_sys:
  assumes "sysinv b k" "cur k \<noteq> None" "user_ok b user" "periods_ok k" "timer_lists k TempList = []"
    and "fs = filter (\<lambda>y. due b k y \<le> unat (tick k - b)) (timer_lists k TimerList)"
    and "reflp R" "transp R"
    and fires: "\<And>x k k'. sysinv b k \<Longrightarrow> cur k \<noteq> None \<Longrightarrow> x \<in> set (timer_lists k TimerList) \<Longrightarrow>
      timer_fire (timeout_call user) x k = Some k' \<Longrightarrow> R k k'"
  shows "ok (fire_all (timeout_call user) fs k) (\<lambda>k'. sysinv b k' \<and> cur k' \<noteq> None \<and> R k k')"
  using assms(1,2,4-6)
proof (induction fs arbitrary: k)
  case Nil
  then show ?case using assms(7) by (simp add: reflpD)
next
  case (Cons x fs)
  have lv: "leaves_timers (timeout_call user)"
    using assms(3) by (intro leaves_timers_call) (auto simp: user_ok_def)
  have ok: "timers_ok b k" using Cons.prems(1) tinvD(1) by (simp add: sysinv_def)
  obtain y ts where ts: "timer_lists k TimerList = y # ts"
    using Cons.prems(5) by (cases "timer_lists k TimerList") auto
  have "due b k y \<le> unat (tick k - b)"
    using sorted_prefix_empty[of "due b k" y ts "unat (tick k - b)"] timers_okD(4)[OF ok]
      Cons.prems(5) unfolding ts by fastforce
  then have x: "y = x" and fs: "fs = filter (\<lambda>y. due b k y \<le> unat (tick k - b)) ts"
    using Cons.prems(5) ts by auto
  have xin: "x \<in> set (timer_lists k TimerList)" using ts x by simp
  have "ok (timer_fire (timeout_call user) x k) (\<lambda>k'. sysinv b k' \<and> cur k' \<noteq> None)"
    by (intro timer_fire_sys Cons.prems assms(3) xin)
  then obtain k1 where k1: "timer_fire (timeout_call user) x k = Some k1" "sysinv b k1" "cur k1 \<noteq> None"
    by (auto simp: ok_iff)
  note S = timer_fire_step[OF lv ok Cons.prems(3) ts[unfolded x] Cons.prems(4) k1(1)]
  have "ok (fire_all (timeout_call user) fs k1) (\<lambda>k'. sysinv b k' \<and> cur k' \<noteq> None \<and> R k1 k')"
    by (rule Cons.IH) (use k1 S fs in simp_all)
  moreover have "R k k1" by (rule fires[OF Cons.prems(1,2) xin k1(1)])
  ultimately show ?case using transpD[OF assms(8)] by (auto simp: k1(1) ok_iff)
qed

subsection \<open>The tick\<close>

lemma sysinv_tick:
  assumes "sysinv (tick k) k"
  shows "sysinv (tick k) (k\<lparr>tick := tick k + 1\<rparr>)"
proof -
  let ?k1 = "k\<lparr>tick := tick k + 1\<rparr>"
  have ti: "tinv (tick k) k" and ki: "kinv k" using assms by (simp_all add: sysinv_def)
  have due: "due (tick k) ?k1 = due (tick k) k" by (rule ext) (simp add: due_def)
  have "timers_ok (tick k) ?k1"
    using tinvD(1)[OF ti] by (auto simp: timers_ok_def due)
  then have "tinv (tick k) ?k1"
    using ti by (simp add: tinv_def activated_def periodic_def suspended_def)
  moreover have "qinv {} ?k1 = qinv {} k" by (rule qinv_cong) (simp_all add: tstat_def)
  moreover have "cinv ?k1 = cinv k" by (rule cinv_cong) (simp_all add: tstat_def)
  ultimately show ?thesis using ki by (simp add: sysinv_def kinv_def)
qed

lemma timer_check_sys:
  assumes inv: "sysinv b k" and c: "cur k \<noteq> None" and user: "user_ok b user" and per: "periods_ok k"
    and R: "reflp R" "transp R"
    and fires: "\<And>x k k'. sysinv b k \<Longrightarrow> cur k \<noteq> None \<Longrightarrow> x \<in> set (timer_lists k TimerList) \<Longrightarrow>
      timer_fire (timeout_call user) x k = Some k' \<Longrightarrow> R k k'"
  shows "ok (rt_timer_check (timeout_call user) k)
    (\<lambda>k'. sysinv (tick k') k' \<and> cur k' \<noteq> None \<and> tick k' = tick k \<and>
       R (k\<lparr>timer_lists := (timer_lists k)(TempList := [])\<rparr>) k')"
proof -
  let ?k = "k\<lparr>timer_lists := (timer_lists k)(TempList := [])\<rparr>"
  have lv: "leaves_timers (timeout_call user)"
    using user by (intro leaves_timers_call) (auto simp: user_ok_def)
  have ti: "tinv b k" and ki: "kinv k" using inv by (simp_all add: sysinv_def)
  have ok: "timers_ok b k" by (rule tinvD(1)[OF ti])
  have "tinv b ?k" by (rule tinv_threads[OF ti]) (simp_all add: suspended_def)
  moreover have "kinv ?k"
    using ki timer_only_kinv(7)[of k ?k] by (simp add: timer_only_def)
  ultimately have inv': "sysinv b ?k" by (simp add: sysinv_def)
  have per': "periods_ok ?k" using per by (simp add: periods_ok_def periodic_def)
  have dk: "due b ?k = due b k" by (rule ext) (simp add: due_def)
  have fs: "filter (expired k) (timer_lists k TimerList) =
      filter (\<lambda>y. due b ?k y \<le> unat (tick ?k - b)) (timer_lists ?k TimerList)"
    by (simp add: dk, intro filter_cong refl) (simp add: expired_due[OF ok])
  have "ok (fire_all (timeout_call user) (filter (expired k) (timer_lists k TimerList)) ?k)
      (\<lambda>k'. sysinv b k' \<and> cur k' \<noteq> None \<and> R ?k k')"
    by (rule fire_all_sys[OF inv' _ user per' _ fs R fires]) (use c in simp_all)
  then obtain k' where k': "rt_timer_check (timeout_call user) k = Some k'" "sysinv b k'" "cur k' \<noteq> None" "R ?k k'"
    unfolding check_fires[OF lv ok per, symmetric] by (auto simp: ok_iff)
  have ok': "timers_ok (tick k') k'" using check_sweeps[OF lv ok per k'(1)] by blast
  have "timers_ok b ?k" using ok by (subst timers_ok_cong[of _ k]) simp_all
  from check_loop_fires(2)[OF lv this per' _ fs] k'(1)[unfolded check_fires[OF lv ok per]]
  have "tick k' = tick k" by (simp add: timers_swept_def)
  moreover have "sysinv (tick k') k'" using k'(2) ok' by (simp add: sysinv_def tinv_def)
  ultimately show ?thesis using k' by simp
qed

text \<open>The tick interrupt is the sweep of the timers after the time slice of the running thread, which
  changes no error, no thread that waits and no queue of an object.\<close>

lemma tick_parts:
  assumes inv: "sysinv (tick k) k" and c: "cur k \<noteq> None"
  obtains k3 where "rt_tick_increase user k = rt_timer_check (timeout_call user) k3"
    "sysinv (tick k) k3" "cur k3 \<noteq> None" "tick k3 = tick k + 1" "timers k3 = timers k" "sems k3 = sems k"
    "\<And>q. waitq q \<Longrightarrow> queues k3 q = queues k q" "\<And>u. error (threads k3 u) = error (threads k u)"
    "\<And>u. runnable k3 u = runnable k u"
proof -
  obtain t where t: "cur k = Some t" using c by auto
  let ?k1 = "k\<lparr>tick := tick k + 1\<rparr>"
  let ?dec = "\<lambda>th. th\<lparr>remaining_tick := remaining_tick th - 1\<rparr>"
  let ?k2 = "upd_thread t ?dec ?k1"
  let ?yield = "\<lambda>th. th\<lparr>remaining_tick := init_tick th, stat := stat th OR 8\<rparr>"
  have s1: "sysinv (tick k) ?k1" by (rule sysinv_tick[OF inv])
  have s2: "sysinv (tick k) ?k2"
    by (rule sysinv_upd_keep(2)[OF _ _ _ s1]) (simp_all add: tstat_def)
  have s3: "sysinv (tick k) (upd_thread t ?yield ?k2)"
    by (rule sysinv_upd_keep(2)[OF _ _ _ s2]) (simp_all add: tstat_def stat_code_or_yield)
  have r: "runnable ?k2 u = runnable k u" "runnable (upd_thread t ?yield ?k2) u = runnable k u" for u
    by (simp_all add: runnable_def tstat_def stat_code_or_yield)
  have eq: "rt_tick_increase user k =
      (if remaining_tick (threads ?k2 t) = 0 then rt_schedule (upd_thread t ?yield ?k2) else Some ?k2) \<bind>
      rt_timer_check (timeout_call user)"
    using t by (simp add: rt_tick_increase_def rt_thread_self_def Let_def)
  show ?thesis
  proof (cases "remaining_tick (threads ?k2 t) = 0")
    case True
    obtain k3 where k3: "rt_schedule (upd_thread t ?yield ?k2) = Some k3" "sysinv (tick k) k3"
      "sched_frame (upd_thread t ?yield ?k2) k3" "cur k3 \<noteq> None"
      using rt_schedule_sys[OF s3, of t] t by (auto simp: ok_iff)
    note F = sched_frameD[OF k3(3)]
    show ?thesis
      by (rule that[of k3]) (use True eq k3 F in \<open>simp_all add: r\<close>)
  next
    case False
    show ?thesis
      by (rule that[of ?k2]) (use False eq s2 t r in simp_all)
  qed
qed

lemma tick_sys:
  assumes inv: "sysinv (tick k) k" and c: "cur k \<noteq> None"
    and user: "user_ok (tick k) user" and per: "periods_ok k"
  shows "ok (rt_tick_increase user k)
    (\<lambda>k'. sysinv (tick k') k' \<and> cur k' \<noteq> None \<and> tick k' = tick k + 1)"
proof -
  obtain k3 where k3: "rt_tick_increase user k = rt_timer_check (timeout_call user) k3"
    "sysinv (tick k) k3" "cur k3 \<noteq> None" "tick k3 = tick k + 1" "timers k3 = timers k"
    by (rule tick_parts[OF inv c, of user])
  have "periods_ok k3" using per k3(5) by (simp add: periods_ok_def periodic_def)
  from timer_check_sys[OF k3(2,3) user this, of "\<lambda>_ _. True"] show ?thesis
    using k3(1,4) by (auto simp: reflp_def transp_def elim!: ok_mono)
qed

section \<open>Yielding\<close>

text \<open>Thread \<open>a\<close> runs, \<open>b\<close> is the first of the ready threads of the same, highest priority.\<close>

definition front_pair :: "nat \<Rightarrow> tid \<Rightarrow> tid \<Rightarrow> tid list \<Rightarrow> kernel \<Rightarrow> bool" where
  "front_pair p a b others k \<longleftrightarrow>
     kinv k \<and> lock_nest k = 0 \<and> cur k = Some a \<and> tstat k a = RT_THREAD_RUNNING \<and> prio k a = p \<and>
     queues k (Ready p) = b # others \<and> (\<forall>q < p. queues k (Ready q) = [])"

lemma stat_yield_bits: "((s OR 8) AND - 9) AND (8::u8) = 0" "(s OR 8) AND 8 = (8::u8)"
  by (simp_all add: and.assoc bit.conj_disj_distrib2)

lemma yield_swaps:
  assumes "front_pair p a b others k"
  shows "ok (rt_thread_yield k) (\<lambda>(err, k'). err = RT_EOK \<and> front_pair p b a others k')"
proof -
  have inv: "kinv k" and lk: "lock_nest k = 0" and c: "cur k = Some a"
    and r: "tstat k a = RT_THREAD_RUNNING" and pa: "prio k a = p"
    and qs: "queues k (Ready p) = b # others" and low: "\<And>q. q < p \<Longrightarrow> queues k (Ready q) = []"
    using assms by (auto simp: front_pair_def)
  let ?f = "\<lambda>th. th\<lparr>remaining_tick := init_tick th, stat := stat th OR RT_THREAD_STAT_YIELD_MASK\<rparr>"
  define k1 where "k1 = upd_thread a ?f k"
  have keep: "kinv k1 = kinv k" "tstat k1 u = tstat k u" "prio k1 u = prio k u" for u
    unfolding k1_def by (rule sysinv_upd_keep; simp add: tstat_def stat_code_or_yield)+
  have inv1: "kinv k1" and q1: "qinv {} k1" using inv keep by (simp_all add: kinv_def)
  have f1: "queues k1 = queues k" "ready_group k1 = ready_group k" "cur k1 = Some a" "lock_nest k1 = 0"
    using c lk by (simp_all add: k1_def)
  have bp: "b \<in> set (queues k1 (Ready p))" using qs f1 by simp
  have "bit (ready_group k1) p" using qinvD(4)[OF q1] qs f1 by simp
  then have g: "ready_group k1 \<noteq> 0" by auto
  obtain h p' where hp: "scheduler_get_highest_priority_thread k1 = Some (h, p')"
    "queues k1 (Ready p') \<noteq> []" "h = hd (queues k1 (Ready p'))"
    and least: "\<And>t. tstat k1 t = RT_THREAD_READY \<Longrightarrow> p' \<le> prio k1 t"
    using highest_ready[OF q1 g] by metis
  have "p' \<le> p" using least qinvD(5,6)[OF q1 bp] by force
  moreover have "\<not> p' < p" using low[of p'] hp(2) f1 by auto
  ultimately have p': "p' = p" by simp
  have hb: "h = b" using hp(3) p' f1 qs by simp
  define k2 where "k2 = upd_thread a (\<lambda>th. th\<lparr>stat := stat th AND NOT 8\<rparr>) k1"
  have y: "stat (threads k1 a) AND 8 \<noteq> 0" by (simp add: k1_def stat_yield_bits)
  define k' where "k' = schedule_switch a b p True k2"
  have br: "tstat k1 b = RT_THREAD_READY" "prio k1 b = p" using qinvD(5,6)[OF q1 bp] by simp_all
  have ab: "a \<noteq> b" using br keep r by auto
  have "rt_schedule k1 = Some k'"
    using f1 g hp(1) p' hb y ab pa keep r by (simp add: rt_schedule_def k2_def k'_def)
  then have run: "rt_thread_yield k = Some (RT_EOK, k')"
    using c by (simp add: rt_thread_yield_def rt_thread_self_def k1_def)
  have k2: "queues k2 = queues k" "cur k2 = Some a" "lock_nest k2 = 0" "\<And>u. tstat k2 u = tstat k u"
    "\<And>u. prio k2 u = prio k u" "stat (threads k2 a) AND 8 = 0" "qinv {} k2"
    using f1 keep q1 tstat_clear_yield[of a k1] qinv_clear_yield[of "{}" a k1]
    by (simp_all add: k2_def stat_yield_bits k1_def)
  have one: "t = a" if "tstat k2 t = RT_THREAD_RUNNING" for t
    using inv c that k2(4) by (auto simp: kinv_def cinv_def)
  have bq: "b \<in> set (queues k2 (Ready p))" and nd: "True \<longleftrightarrow> tstat k2 a = RT_THREAD_RUNNING"
    and nr: "tstat k2 a \<noteq> RT_THREAD_READY" using qs k2(1,4) r by simp_all
  note S = schedule_switch_correct[OF k2(7) bq k2(2) ab one nd nr, folded k'_def]
  have "distinct (b # others)" using qinvD(1)[OF q1, of "Ready p"] f1 qs by simp
  then have "queues k' (Ready p) = a # others" "\<And>q. q < p \<Longrightarrow> queues k' (Ready q) = []"
    using k2 pa qs low ab unfolding k'_def schedule_switch_def Let_def
    by (simp_all add: queues_insert q_remove_def q_push_front_def prio_def)
  then have "front_pair p b a others k'"
    using S lk br keep k2(3,5) sched_frameD(1,12)[OF S(2)]
    by (simp add: front_pair_def prio_def)
  then show ?thesis by (simp add: run)
qed

primrec yields :: "nat \<Rightarrow> kernel \<Rightarrow> kernel option" where
  "yields 0 k = Some k"
| "yields (Suc n) k = do { (_, k1) \<leftarrow> rt_thread_yield k; yields n k1 }"

text \<open>C27: yielding is not fair. \<open>rt_schedule\<close> clears the yield flag of the running thread before
  it puts it back, so the thread goes to the front of its ready list instead of the end: of three
  or more threads with one priority that all yield, the first two alternate for ever, the one running
  after every even and the other after every odd number of yields, and the others never run: the ready list
  is always the one of the two that does not run, followed by the others in their old order.\<close>
theorem yield_starves_third:
  assumes "front_pair p a b others k"
  shows "ok (yields n k) (\<lambda>k'.
    cur k' = Some (if even n then a else b) \<and> tstat k' (if even n then a else b) = RT_THREAD_RUNNING \<and>
    queues k' (Ready p) = (if even n then b else a) # others)"
  using assms
proof (induction n arbitrary: a b k)
  case (Suc n)
  obtain k1 where k1: "rt_thread_yield k = Some (RT_EOK, k1)" "front_pair p b a others k1"
    using yield_swaps[OF Suc.prems] by (auto simp: ok_iff)
  show ?case
    using Suc.IH[OF k1(2)] by (cases "even n") (simp_all add: k1(1))
qed (simp add: front_pair_def)

theorem yield_starves_third_witness:
  "ok (yields 101 example_quiet) (\<lambda>k'. cur k' = Some 2 \<and> tstat k' 2 = RT_THREAD_RUNNING \<and>
     queues k' (Ready 10) = [0, 3])"
proof -
  have "front_pair 10 0 2 [3] example_quiet"
    by (simp add: front_pair_def quiet_kinv quiet_simps example_prio,
        simp add: example_quiet_def example_kernel_def)
  from yield_starves_third[OF this, of 101] show ?thesis by simp
qed

section \<open>Sleeping\<close>

text \<open>The running thread suspends itself and arms its timer.\<close>

lemma suspend_and_arm:
  assumes inv: "sysinv b k" and c: "cur k = Some t" and r: "tstat k t = RT_THREAD_RUNNING"
    and tck: "tck < RT_TICK_MAX div 2"
  shows "ok (thread_timer_arm t tck (suspended_self t flag k))
    (\<lambda>k'. sysinv b k' \<and> timer_only (suspended_self t flag k) k' \<and>
          ThreadTimer t \<in> set (timer_lists k' TimerList) \<and>
          timeout_tick (timers k' (ThreadTimer t)) = tick k + tck)"
proof -
  let ?k1 = "suspended_self t flag k"
  have s1: "sysinv b ?k1" by (rule suspended_self_sys[OF inv c r])
  have t1: "tinv b ?k1" "suspended ?k1 t" using s1 by (simp_all add: sysinv_def suspended_self_state)
  obtain k2 where k2: "thread_timer_arm t tck ?k1 = Some k2" "tinv b k2" "timer_only ?k1 k2"
    using thread_timer_arm_ok(2)[OF t1, of tck] tck by (auto simp: ok_iff)
  have "kinv k2" using s1 timer_only_kinv(7)[OF k2(3)] by (simp add: sysinv_def)
  moreover have "ThreadTimer t \<in> set (timer_lists k2 TimerList)"
    "timeout_tick (timers k2 (ThreadTimer t)) = tick k + tck"
    using k2(1) tck unfolding thread_timer_arm_ok(1)[OF t1]
    by (auto simp: timer_lists_start set_timer_insert timers_start start_tick_def)
  ultimately show ?thesis using k2 by (simp add: sysinv_def)
qed

lemma sleep_correct:
  assumes "sysinv b k" "cur k = Some t" "tstat k t = RT_THREAD_RUNNING" "scheduler_available k"
    and "0 < tck" "tck < RT_TICK_HALF"
  shows "ok (rt_thread_sleep tck k) (\<lambda>(r, k'). r = Waiting \<and> sysinv b k' \<and> cur k' \<noteq> None \<and> suspended k' t \<and>
    error (threads k' t) = - RT_EINTR \<and> ThreadTimer t \<in> set (timer_lists k' TimerList) \<and>
    timeout_tick (timers k' (ThreadTimer t)) = tick k + tck \<and>
    sems k' = sems k \<and> (\<forall>q. waitq q \<longrightarrow> queues k' q = queues k q))"
proof -
  let ?k1 = "set_error t RT_EOK k"
  have s1: "sysinv b ?k1" "cur ?k1 = Some t" "tstat ?k1 t = RT_THREAD_RUNNING"
    using assms by simp_all
  then have ki1: "kinv ?k1" by (simp add: sysinv_def)
  have sus: "rt_thread_suspend_with_flag t RT_INTERRUPTIBLE ?k1 =
      Some (RT_EOK, suspended_self t RT_INTERRUPTIBLE ?k1)"
    by (rule suspend_running[OF ki1 s1(2,3)]) simp
  have tck: "tck < RT_TICK_MAX div 2" using assms(6) by simp
  obtain k2 where k2: "thread_timer_arm t tck (suspended_self t RT_INTERRUPTIBLE ?k1) = Some k2"
    "sysinv b k2" "timer_only (suspended_self t RT_INTERRUPTIBLE ?k1) k2"
    "ThreadTimer t \<in> set (timer_lists k2 TimerList)"
    "timeout_tick (timers k2 (ThreadTimer t)) = tick k + tck"
    using suspend_and_arm[OF s1 tck, of RT_INTERRUPTIBLE] by (auto simp: ok_iff)
  let ?k3 = "set_error t (- RT_EINTR) k2"
  have s3: "sysinv b ?k3" "cur ?k3 = Some t" "suspended ?k3 t"
    using k2(2) timer_onlyD(5)[OF k2(3)] timer_only_kinv(3)[OF k2(3)] assms(2)
    by (simp_all add: suspended_self_state)
  obtain k4 where k4: "rt_schedule ?k3 = Some k4" "sysinv b k4" "sched_frame ?k3 k4"
    "cur k4 \<noteq> None"
    using rt_schedule_sys[OF s3(1,2)] by (auto simp: ok_iff)
  have "suspended k4 t" "error (threads k4 t) = - RT_EINTR"
    "timers k4 = timers k2" "timer_lists k4 = timer_lists k2"
    using k4(3) s3(3) sched_frame_suspended[OF k4(3)] sched_frameD(5,6,11)[OF k4(3)] by simp_all
  moreover have "queues k4 q = queues k q" if "waitq q" for q
    using sched_frameD(20)[OF k4(3) that] timer_onlyD(2)[OF k2(3)] by simp
  moreover have "sems k4 = sems k" using sched_frameD(7)[OF k4(3)] timer_onlyD(10)[OF k2(3)] by simp
  ultimately show ?thesis
    using assms(2,4,5) sus k2 k4
    by (simp add: rt_thread_sleep_def rt_thread_self_def)
qed

text \<open>Sleeping. For a running thread that may block, \<open>rt_thread_sleep\<close> with a time from 1 to
  \<open>RT_TICK_MAX / 2 - 1\<close> ticks does not stop the system, suspends the thread, and leaves its timer
  running, due exactly that many ticks from now.\<close>
theorem sleep_arms_timer:
  assumes "sysinv b k" "cur k = Some t" "tstat k t = RT_THREAD_RUNNING" "scheduler_available k"
    and "0 < tck" "tck < RT_TICK_HALF"
  shows "ok (rt_thread_sleep tck k) (\<lambda>(r, k'). r = Waiting \<and> sysinv b k' \<and> suspended k' t \<and>
    error (threads k' t) = - RT_EINTR \<and> ThreadTimer t \<in> set (timer_lists k' TimerList) \<and>
    timeout_tick (timers k' (ThreadTimer t)) = tick k + tck)"
  by (rule ok_mono[OF sleep_correct[OF assms]]) auto

lemma example_sysinv: "sysinv 100 example_kernel"
proof -
  have "timers_ok 100 example_kernel" by (simp add: timers_ok_def example_kernel_def)
  then have "tinv 100 example_kernel"
    by (simp add: tinv_def) (simp add: example_kernel_def activated_def periodic_def)
  then show ?thesis using example_kinv by (simp add: sysinv_def)
qed

lemma example_available: "scheduler_available example_kernel" "cur example_kernel = Some 0"
  by (simp_all add: scheduler_available_def in_thread_context_def not_in_interrupt_def
      rt_interrupt_get_nest_def rt_critical_level_def rt_thread_self_def example_kernel_def)

theorem sleep_arms_timer_witness:
  "ok (rt_thread_sleep 20 example_kernel) (\<lambda>(r, k'). r = Waiting \<and> sysinv 100 k' \<and>
    suspended k' 0 \<and> error (threads k' 0) = - RT_EINTR \<and>
    ThreadTimer 0 \<in> set (timer_lists k' TimerList) \<and>
    timeout_tick (timers k' (ThreadTimer 0)) = tick example_kernel + 20)"
  by (rule sleep_arms_timer[OF example_sysinv example_available(2) _ example_available(1)])
    (simp_all add: example_tstat)

text \<open>A negative delay, documented as waiting for ever, stops the system instead: the tick value
  -1 it is turned into fails the assertion of \<open>rt_timer_control\<close>.\<close>
theorem negative_mdelay_stops:
  assumes "sysinv b k" "cur k = Some t" "tstat k t = RT_THREAD_RUNNING" "sint ms < 0"
  shows "rt_thread_mdelay ms k = None"
proof -
  let ?k1 = "set_error t RT_EOK k"
  have s1: "sysinv b ?k1" "cur ?k1 = Some t" "tstat ?k1 t = RT_THREAD_RUNNING"
    using assms by simp_all
  then have ki1: "kinv ?k1" by (simp add: sysinv_def)
  have sus: "rt_thread_suspend_with_flag t RT_INTERRUPTIBLE ?k1 =
      Some (RT_EOK, suspended_self t RT_INTERRUPTIBLE ?k1)"
    by (rule suspend_running[OF ki1 s1(2,3)]) simp
  have "tinv b (suspended_self t RT_INTERRUPTIBLE ?k1)"
    using suspended_self_sys[OF s1] by (simp add: sysinv_def)
  then have "thread_timer_arm t (- 1) (suspended_self t RT_INTERRUPTIBLE ?k1) = None"
    by (subst thread_timer_arm_ok(1)) (simp_all add: suspended_self_state)
  then show ?thesis
    using assms(2,4) sus
    by (simp add: rt_thread_mdelay_def rt_tick_from_millisecond_def rt_thread_sleep_def
        rt_thread_self_def rt_assert_def)
qed

theorem negative_mdelay_stops_witness: "rt_thread_mdelay (- 5) example_kernel = None"
  by (rule negative_mdelay_stops[OF example_sysinv example_available(2)])
    (simp_all add: example_tstat)

section \<open>The tick interrupt\<close>

text \<open>C2: the tick interrupt keeps the system consistent. From a state in which the scheduling and
  the timer invariants hold, with user timers that have a period and whose functions keep the
  invariants, \<open>rt_tick_increase\<close> returns without failing an assertion, advances the tick by one,
  and the invariants hold again, the timers in the window of the new tick.\<close>
theorem tick_keeps_system:
  assumes "sysinv (tick k) k" "cur k \<noteq> None" "user_ok (tick k) user" "periods_ok k"
  shows "ok (rt_tick_increase user k)
    (\<lambda>k'. sysinv (tick k') k' \<and> cur k' \<noteq> None \<and> tick k' = tick k + 1)"
  by (rule tick_sys[OF assms])

theorem tick_keeps_system_witness:
  "ok (rt_tick_increase (\<lambda>_ _ k. Some k) example_kernel)
    (\<lambda>k'. sysinv (tick k') k' \<and> cur k' \<noteq> None \<and> tick k' = tick example_kernel + 1)"
proof (rule tick_keeps_system)
  have "tick example_kernel = 100" by (simp add: example_kernel_def)
  then show "sysinv (tick example_kernel) example_kernel" using example_sysinv by simp
  show "cur example_kernel \<noteq> None" using example_available(2) by simp
  show "user_ok (tick example_kernel) (\<lambda>_ _ k. Some k)" by (simp add: user_ok_def)
  show "periods_ok example_kernel" by (simp add: periods_ok_def periodic_def example_kernel_def)
qed

text \<open>Milliseconds are ticks at this tick rate: every non-negative delay in milliseconds is
  turned into the same number of ticks, a negative one into the all-ones tick.\<close>
lemma tick_from_millisecond_exact:
  "rt_tick_from_millisecond ms = (if sint ms < 0 then RT_TICK_MAX else ms)"
proof -
  have a: "(1000 * (s mod 1000) + 999) div 1000 = s mod 1000" for s :: int by simp
  have b: "of_int (1000 * (s div 1000)) + of_int (s mod 1000) = (of_int s :: u32)" for s :: int
    by (simp only: of_int_add[symmetric] mult_div_mod_eq)
  show ?thesis
    unfolding rt_tick_from_millisecond_def a b by simp
qed

end
