(* ===== verification/IpcList.thy ===== *)
theory IpcList
  imports Thread
begin

text \<open>
  The list of threads suspended on an IPC object (\<open>src/ipc.c\<close>, the functions \<open>_ipc_list_*\<close>), which
  semaphores, mutexes, events, mailboxes and message queues share, and the contract they rely on
  as a locale over the queue of the object.
\<close>

section \<open>Operations\<close>

abbreviation RT_IPC_FLAG_FIFO :: u8 where "RT_IPC_FLAG_FIFO \<equiv> 0"
abbreviation RT_IPC_FLAG_PRIO :: u8 where "RT_IPC_FLAG_PRIO \<equiv> 1"

text \<open>\<open>rt_list_init\<close> on the head.\<close>

definition ipc_object_init :: "qid \<Rightarrow> kernel \<Rightarrow> kernel" where
  "ipc_object_init q k = k\<lparr>queues := (queues k)(q := [])\<rparr>"

text \<open>The search loop for a priority-ordered list.\<close>

primrec prio_insert :: "(tid \<Rightarrow> u8) \<Rightarrow> tid \<Rightarrow> tid list \<Rightarrow> tid list" where
  "prio_insert pr t [] = [t]"
| "prio_insert pr t (s # ss) = (if pr t < pr s then t # s # ss else s # prio_insert pr t ss)"

definition ipc_list_suspend :: "qid \<Rightarrow> tid \<Rightarrow> u8 \<Rightarrow> nat \<Rightarrow> kernel \<Rightarrow> (rt_err_t \<times> kernel) option" where
  "ipc_list_suspend q t flag suspend_flag k =
     do {
       (ret, k1) \<leftarrow> (if \<not> suspended k t then rt_thread_suspend_with_flag t suspend_flag k
                    else Some (RT_EOK, k));
       if ret \<noteq> RT_EOK then Some (ret, k1)
       else if flag = RT_IPC_FLAG_FIFO
         then Some (RT_EOK, k1\<lparr>queues := q_push_back q t (queues k1)\<rparr>)
       else if flag = RT_IPC_FLAG_PRIO
         then Some (RT_EOK, k1\<lparr>queues := (queues k1)(q :=
                prio_insert (\<lambda>u. current_priority (threads k1 u)) t (queues k1 q))\<rparr>)
       else None
     }"

text \<open>Resuming the first thread; an empty list would be read past its head.\<close>

definition ipc_list_resume :: "qid \<Rightarrow> kernel \<Rightarrow> kernel option" where
  "ipc_list_resume q k =
     (case queues k q of
        [] \<Rightarrow> None
      | t # _ \<Rightarrow> Some (snd (rt_thread_resume t (set_error t RT_EOK k))))"

partial_function (option) ipc_list_resume_all :: "qid \<Rightarrow> kernel \<Rightarrow> kernel option" where
  "ipc_list_resume_all q k =
     (case queues k q of
        [] \<Rightarrow> Some k
      | t # _ \<Rightarrow> ipc_list_resume_all q (snd (rt_thread_resume t (set_error t (- RT_ERROR) k))))"

text \<open>A waiting call with a positive time-out arms the timer of the thread, then schedules.\<close>

definition arm_if :: "tid \<Rightarrow> int \<Rightarrow> kernel \<Rightarrow> kernel option" where
  "arm_if t timeout k = (if timeout > 0 then thread_timer_arm t (of_int timeout) k else Some k)"

text \<open>Waking the first waiter, if there is one, and scheduling.\<close>

definition wake_first :: "qid \<Rightarrow> kernel \<Rightarrow> kernel option" where
  "wake_first q k =
     (if queues k q \<noteq> [] then do { k1 \<leftarrow> ipc_list_resume q k; rt_schedule k1 } else Some k)"

text \<open>The waiting part of a call: suspend on \<open>q\<close>, arm the timer, schedule.\<close>

definition wait_pass :: "qid \<Rightarrow> tid \<Rightarrow> u8 \<Rightarrow> int \<Rightarrow> nat \<Rightarrow> kernel \<Rightarrow> (outcome \<times> kernel) option" where
  "wait_pass q t flag timeout suspend_flag k =
     do {
       (ret, k1) \<leftarrow> ipc_list_suspend q t flag suspend_flag k;
       if ret \<noteq> RT_EOK then Some (Done ret, k1)
       else do {
         k2 \<leftarrow> arm_if t timeout k1;
         k3 \<leftarrow> rt_schedule k2;
         Some (Waiting, k3)
       }
     }"

text \<open>The time-out left after waiting since tick \<open>before\<close>: signed 32-bit arithmetic, not below 0.\<close>

definition time_left :: "int \<Rightarrow> u32 \<Rightarrow> kernel \<Rightarrow> int" where
  "time_left timeout before k =
     (if timeout > 0 then
        let r = sint ((of_int timeout :: u32) - (rt_tick_get k - before)) in if r < 0 then 0 else r
      else timeout)"

text \<open>The commands of the control functions: \<open>RT_IPC_CMD_RESET\<close> with its argument, or another one.\<close>

datatype ipc_cmd = IpcReset u32 | IpcOther

section \<open>Queues of suspended threads\<close>

definition wait_insert :: "u8 \<Rightarrow> (tid \<Rightarrow> u8) \<Rightarrow> tid \<Rightarrow> tid list \<Rightarrow> tid list" where
  "wait_insert flag pr t ts = (if flag = RT_IPC_FLAG_FIFO then ts @ [t] else prio_insert pr t ts)"

lemma set_prio_insert: "set (prio_insert pr t ts) = insert t (set ts)"
  by (induction ts) auto

lemma distinct_prio_insert: "distinct ts \<Longrightarrow> t \<notin> set ts \<Longrightarrow> distinct (prio_insert pr t ts)"
  by (induction ts) (auto simp: set_prio_insert)

lemma sorted_prio_insert: "sorted (map pr ts) \<Longrightarrow> sorted (map pr (prio_insert pr t ts))"
  by (induction ts) (auto simp: set_prio_insert not_less dest: order_trans)

text \<open>Among equals the newcomer goes last.\<close>

lemma prio_insert_split:
  "sorted (map pr ts) \<Longrightarrow>
   prio_insert pr t ts = filter (\<lambda>s. pr s \<le> pr t) ts @ t # filter (\<lambda>s. pr t < pr s) ts"
proof (induction ts)
  case (Cons s ss)
  have "filter (\<lambda>s. pr s \<le> pr t) ss = [] \<and> filter (\<lambda>s. pr t < pr s) ss = ss" if "pr t < pr s"
    using Cons.prems that by (fastforce simp: filter_empty_conv filter_id_conv)
  with Cons show ?case by (auto simp: not_less)
qed simp

lemma set_wait_insert: "set (wait_insert flag pr t ts) = insert t (set ts)"
  by (auto simp: wait_insert_def set_prio_insert)

lemma distinct_wait_insert: "distinct ts \<Longrightarrow> t \<notin> set ts \<Longrightarrow> distinct (wait_insert flag pr t ts)"
  by (simp add: wait_insert_def distinct_prio_insert)

lemma wait_insert_nonempty [simp]: "wait_insert flag pr t ts \<noteq> []"
  using set_wait_insert[of flag pr t ts] by auto

text \<open>The system invariant does not read the IPC objects.\<close>

lemma sysinv_cong:
  assumes "threads k' = threads k" "queues k' = queues k" "ready_group k' = ready_group k"
    and "cur k' = cur k" "timers k' = timers k" "timer_lists k' = timer_lists k" "tick k' = tick k"
  shows "sysinv b k' = sysinv b k"
proof -
  have t: "tstat k' t = tstat k t" "suspended k' t = suspended k t" for t
    by (simp_all add: tstat_def suspended_def assms)
  have "qinv {} k' = qinv {} k" by (rule qinv_cong) (simp_all add: assms t)
  moreover have "cinv k' = cinv k" by (rule cinv_cong) (simp_all add: assms t)
  moreover have "timers_ok b k' = timers_ok b k" by (rule timers_ok_cong) (simp_all add: assms)
  then have "tinv b k' = tinv b k"
    by (simp add: tinv_def activated_def periodic_def assms t)
  ultimately show ?thesis by (simp add: sysinv_def kinv_def)
qed

text \<open>A suspended thread in no queue may join a wait queue.\<close>

lemma wait_queue_sys:
  assumes inv: "sysinv b k" and t: "suspended k t" "unlinked t (queues k)" and w: "waitq q"
    and xs: "set xs = insert t (set (queues k q))" "distinct xs"
  shows "sysinv b (k\<lparr>queues := (queues k)(q := xs)\<rparr>)" (is "sysinv b ?k'")
proof -
  have q: "qinv {} k" and ci: "cinv k" and ti: "tinv b k" using inv by (auto simp: sysinv_def kinv_def)
  note D = qinvD[OF q]
  have ts: "tstat ?k' u = tstat k u" "prio ?k' u = prio k u" "suspended ?k' u = suspended k u" for u
    by (simp_all add: tstat_def prio_def suspended_def)
  have u: "t \<notin> set (queues k g)" for g using t(2) by (simp add: unlinked_def)
  have rq: "queues ?k' (Ready p) = queues k (Ready p)" "queues ?k' Defunct = queues k Defunct" for p
    using w by (auto simp: waitq_def)
  have "qinv {} ?k'"
  proof (rule qinvI)
    show "distinct (queues ?k' g)" for g using D(1) xs(2) by simp
    show "v \<in> set (queues ?k' g) \<Longrightarrow> v \<in> set (queues ?k' h) \<Longrightarrow> g = h" for g h v
      using D(2)[of v g h] u[of g] u[of h] D(2)[of v g q] D(2)[of v h q] xs(1) by (auto split: if_splits)
    show "waitq g \<Longrightarrow> v \<in> set (queues ?k' g) \<Longrightarrow> suspended ?k' v" for v g
      using D(8)[of g v] t(1) xs(1) w D(8)[of q v] unfolding ts by (auto split: if_splits)
    show "bit (ready_group ?k') p \<longleftrightarrow> queues ?k' (Ready p) \<noteq> []" for p
      unfolding rq using D(4)[of p] by simp
    show "v \<in> set (queues ?k' (Ready p)) \<Longrightarrow> tstat ?k' v = RT_THREAD_READY \<and> prio ?k' v = p" for v p
      unfolding rq ts using D(5,6)[of v p] by simp
    show "v \<notin> {} \<Longrightarrow> tstat ?k' v = RT_THREAD_READY \<Longrightarrow> v \<in> set (queues ?k' (Ready (prio ?k' v)))" for v
      unfolding rq ts using D(7)[of v] by simp
    show "v \<in> set (queues ?k' Defunct) \<Longrightarrow> tstat ?k' v = RT_THREAD_CLOSE" for v
      unfolding rq ts by (rule D(9))
    show "prio ?k' v < 32" for v unfolding ts by (rule D(10))
    show "number_mask (threads ?k' v) \<in> {0, 2 ^ prio ?k' v}" for v
      unfolding ts using D(11)[of v] by simp
    show "tstat ?k' v \<noteq> RT_THREAD_INIT \<Longrightarrow> tstat ?k' v \<noteq> RT_THREAD_CLOSE \<Longrightarrow>
        number_mask (threads ?k' v) = 2 ^ prio ?k' v" for v
      unfolding ts using D(12)[of v] by simp
  qed simp
  moreover have "cinv ?k'" using ci by (simp add: cinv_def ts)
  moreover have "tinv b ?k'" by (rule tinv_threads[OF ti]) (simp_all add: ts)
  ultimately show ?thesis by (simp add: sysinv_def kinv_def)
qed

text \<open>Two descriptions of a thread that differ in its state at most.\<close>

definition stat_only :: "rt_thread \<Rightarrow> rt_thread \<Rightarrow> bool" where
  "stat_only th th' \<longleftrightarrow> th' = th\<lparr>stat := stat th'\<rparr>"

lemma stat_onlyD:
  assumes "stat_only th th'"
  shows "error th' = error th" "current_priority th' = current_priority th"
    "init_priority th' = init_priority th" "number_mask th' = number_mask th"
    "taken_object_list th' = taken_object_list th" "pending_object th' = pending_object th"
    "event_set th' = event_set th" "event_info th' = event_info th" "init_tick th' = init_tick th"
    "remaining_tick th' = remaining_tick th" "static_object th' = static_object th"
  using assms by (cases th; cases th'; simp add: stat_only_def)+

lemma stat_only_refl [simp]: "stat_only th th"
  by (simp add: stat_only_def)

lemma stat_only_trans: "stat_only th th' \<Longrightarrow> stat_only th' th'' \<Longrightarrow> stat_only th th''"
  unfolding stat_only_def by (metis rt_thread.update_convs(2) rt_thread.unfold_congs(2) rt_thread.surjective)

text \<open>What blocking on \<open>q\<close> leaves behind.\<close>

definition blocked :: "qid \<Rightarrow> u8 \<Rightarrow> tid \<Rightarrow> nat \<Rightarrow> kernel \<Rightarrow> kernel" where
  "blocked q flag t suspend_flag k =
     (let k1 = suspended_self t suspend_flag k
      in k1\<lparr>queues := (queues k)(q :=
              wait_insert flag (\<lambda>u. current_priority (threads k u)) t (queues k q))\<rparr>)"

text \<open>The state after the scheduler has run: \<open>t\<close> waits on \<open>q\<close>, its timer armed if a time-out was given.\<close>

definition waits_on :: "qid \<Rightarrow> u8 \<Rightarrow> tid \<Rightarrow> int \<Rightarrow> kernel \<Rightarrow> kernel \<Rightarrow> bool" where
  "waits_on q flag t timeout k k' \<longleftrightarrow>
     suspended k' t \<and> cur k' \<noteq> None \<and>
     queues k' q = wait_insert flag (\<lambda>u. current_priority (threads k u)) t (queues k q) \<and>
     (\<forall>g. waitq g \<longrightarrow> g \<noteq> q \<longrightarrow> queues k' g = queues k g) \<and>
     (\<forall>u. stat_only (threads k u) (threads k' u)) \<and>
     (\<forall>u. u \<noteq> t \<longrightarrow> runnable k' u = runnable k u) \<and>
     objects k' = objects k \<and> tick k' = tick k \<and> lock_nest k' = lock_nest k \<and>
     (timeout > 0 \<longrightarrow> ThreadTimer t \<in> set (timer_lists k' TimerList) \<and>
        timeout_tick (timers k' (ThreadTimer t)) = tick k + of_int timeout)"

lemma waits_onD:
  assumes "waits_on q flag t timeout k k'"
  shows "suspended k' t" "cur k' \<noteq> None"
    "queues k' q = wait_insert flag (\<lambda>u. current_priority (threads k u)) t (queues k q)"
    "waitq g \<Longrightarrow> g \<noteq> q \<Longrightarrow> queues k' g = queues k g"
    "stat_only (threads k u) (threads k' u)"
    "u \<noteq> t \<Longrightarrow> runnable k' u = runnable k u"
    "objects k' = objects k" "tick k' = tick k" "lock_nest k' = lock_nest k"
    "timeout > 0 \<Longrightarrow> ThreadTimer t \<in> set (timer_lists k' TimerList)"
    "timeout > 0 \<Longrightarrow> timeout_tick (timers k' (ThreadTimer t)) = tick k + of_int timeout"
  using assms unfolding waits_on_def by blast+

text \<open>Setting the error code first changes nothing else.\<close>

lemma waits_on_error:
  assumes "waits_on q flag t timeout (set_error t e k) k'"
  shows "error (threads k' t) = e"
    "queues k' q = wait_insert flag (\<lambda>u. current_priority (threads k u)) t (queues k q)"
    "waitq g \<Longrightarrow> g \<noteq> q \<Longrightarrow> queues k' g = queues k g"
    "objects k' = objects k" "tick k' = tick k"
    "timeout > 0 \<Longrightarrow> timeout_tick (timers k' (ThreadTimer t)) = tick k + of_int timeout"
proof -
  note W = waits_onD[OF assms]
  have pr: "(\<lambda>u. current_priority (threads (set_error t e k) u)) =
      (\<lambda>u. current_priority (threads k u))" by (rule ext) simp
  show "error (threads k' t) = e" using stat_onlyD(1)[OF W(5)[of t]] by simp
  show "queues k' q = wait_insert flag (\<lambda>u. current_priority (threads k u)) t (queues k q)"
    using W(3) unfolding pr by simp
  show "waitq g \<Longrightarrow> g \<noteq> q \<Longrightarrow> queues k' g = queues k g" using W(4)[of g] by simp
  show "objects k' = objects k" using W(7) by (simp add: objects_def)
  show "tick k' = tick k" using W(8) by simp
  show "timeout > 0 \<Longrightarrow> timeout_tick (timers k' (ThreadTimer t)) = tick k + of_int timeout"
    using W(11) by simp
qed

text \<open>The thread \<open>t\<close> has been taken off \<open>q\<close> and made ready, without error.\<close>

definition wakes :: "qid \<Rightarrow> tid \<Rightarrow> kernel \<Rightarrow> kernel \<Rightarrow> bool" where
  "wakes q t k k' \<longleftrightarrow>
     queues k' q = removeAll t (queues k q) \<and> runnable k' t \<and> error (threads k' t) = RT_EOK \<and>
     (\<forall>g. waitq g \<longrightarrow> g \<noteq> q \<longrightarrow> queues k' g = queues k g) \<and>
     (\<forall>u. u \<noteq> t \<longrightarrow> stat_only (threads k u) (threads k' u)) \<and>
     (\<forall>u. u \<noteq> t \<longrightarrow> runnable k' u = runnable k u) \<and>
     objects k' = objects k \<and> lock_nest k' = lock_nest k \<and>
     interrupt_nest k' = interrupt_nest k \<and> tick k' = tick k"

lemma wakesD:
  assumes "wakes q t k k'"
  shows "queues k' q = removeAll t (queues k q)" "runnable k' t" "error (threads k' t) = RT_EOK"
    "waitq g \<Longrightarrow> g \<noteq> q \<Longrightarrow> queues k' g = queues k g"
    "u \<noteq> t \<Longrightarrow> stat_only (threads k u) (threads k' u)"
    "u \<noteq> t \<Longrightarrow> runnable k' u = runnable k u"
    "objects k' = objects k" "tick k' = tick k" "lock_nest k' = lock_nest k"
  using assms unfolding wakes_def by blast+

lemma sched_frame_stat:
  "sched_frame k k' \<Longrightarrow> stat_only (threads k u) (threads k' u)"
  by (simp add: sched_frame_def stat_only_def)

text \<open>Every thread that waited on \<open>q\<close> is awake with an error, and nothing else has changed.\<close>

definition all_woken :: "qid \<Rightarrow> kernel \<Rightarrow> kernel \<Rightarrow> bool" where
  "all_woken q k k' \<longleftrightarrow>
     queues k' q = [] \<and> cur k' = cur k \<and>
     (\<forall>t \<in> set (queues k q). runnable k' t \<and> error (threads k' t) = - RT_ERROR) \<and>
     (\<forall>t. t \<notin> set (queues k q) \<longrightarrow> threads k' t = threads k t) \<and>
     (\<forall>g. waitq g \<longrightarrow> g \<noteq> q \<longrightarrow> queues k' g = queues k g) \<and>
     objects k' = objects k \<and> lock_nest k' = lock_nest k \<and>
     interrupt_nest k' = interrupt_nest k \<and> tick k' = tick k"

text \<open>The thread \<open>t\<close> runs in a sound system.\<close>

definition runs :: "u32 \<Rightarrow> tid \<Rightarrow> kernel \<Rightarrow> bool" where
  "runs b t k \<longleftrightarrow> sysinv b k \<and> cur k = Some t \<and> tstat k t = RT_THREAD_RUNNING"

lemma runs_set_error [simp]: "runs b t (set_error u e k) = runs b t k"
  by (simp add: runs_def)

lemma example_runs: "runs 100 0 example_kernel"
  using example_sysinv example_available example_tstat[of 0] by (simp add: runs_def)

lemma resumed_objects [simp]: "objects (resumed t k) = objects k"
  by (simp add: objects_def)

lemma set_error_objects [simp]: "objects (set_error t e k) = objects k"
  by (simp add: objects_def)

lemma sched_frame_objects: "sched_frame k k' \<Longrightarrow> objects k' = objects k"
  by (simp add: objects_def sched_frameD)

definition woke_first :: "qid \<Rightarrow> kernel \<Rightarrow> kernel \<Rightarrow> bool" where
  "woke_first q k k' \<longleftrightarrow> (case queues k q of [] \<Rightarrow> k' = k | t # _ \<Rightarrow> wakes q t k k')"

lemma woke_first_objects: "woke_first q k k' \<Longrightarrow> objects k' = objects k"
  by (auto simp: woke_first_def dest: wakesD(7) split: list.splits)

lemma woke_first_queues:
  "woke_first q k k' \<Longrightarrow> waitq g \<Longrightarrow> g \<noteq> q \<Longrightarrow> queues k' g = queues k g"
  by (auto simp: woke_first_def dest: wakesD(4) split: list.splits)

text \<open>What the users of an object see of it.\<close>

definition first_woken :: "qid \<Rightarrow> kernel \<Rightarrow> kernel \<Rightarrow> bool" where
  "first_woken q k k' \<longleftrightarrow>
     (case queues k q of
        [] \<Rightarrow> queues k' q = [] \<and> cur k' = cur k
      | t # ts \<Rightarrow> queues k' q = ts \<and> runnable k' t \<and> error (threads k' t) = RT_EOK)"

lemma woke_first_woken:
  assumes "woke_first q k k'" "kinv k"
  shows "first_woken q k k'"
proof -
  have "distinct (queues k q)" using assms(2) qinvD(1)[of "{}" k] by (simp add: kinv_def)
  then show ?thesis
    using assms(1) by (auto simp: woke_first_def first_woken_def removeAll_id dest: wakesD(1-3) split: list.splits)
qed

text \<open>The waiting calls of a thread, with the error code preset.\<close>

definition now_waits :: "qid \<Rightarrow> u8 \<Rightarrow> tid \<Rightarrow> int \<Rightarrow> kernel \<Rightarrow> kernel \<Rightarrow> bool" where
  "now_waits q flag t timeout k k' \<longleftrightarrow>
     suspended k' t \<and> error (threads k' t) = - RT_EINTR \<and> objects k' = objects k \<and>
     queues k' q = wait_insert flag (\<lambda>u. current_priority (threads k u)) t (queues k q) \<and>
     (\<forall>g. waitq g \<longrightarrow> g \<noteq> q \<longrightarrow> queues k' g = queues k g) \<and>
     (timeout > 0 \<longrightarrow> timeout_tick (timers k' (ThreadTimer t)) = tick k + of_int timeout)"

lemma waits_on_now:
  assumes "waits_on q flag t timeout (set_error t (- RT_EINTR) k) k'"
  shows "now_waits q flag t timeout k k'"
  unfolding now_waits_def
  by (intro conjI allI impI waits_onD(1)[OF assms] waits_on_error[OF assms])

text \<open>A caller that may have to wait runs and may be suspended; any context may call without waiting.\<close>

definition may_call :: "u32 \<Rightarrow> tid \<Rightarrow> int \<Rightarrow> kernel \<Rightarrow> bool" where
  "may_call b t timeout k \<longleftrightarrow> sysinv b k \<and> cur k = Some t \<and> timeout < 2 ^ 31 - 1 \<and>
     (timeout \<noteq> 0 \<longrightarrow> tstat k t = RT_THREAD_RUNNING \<and> scheduler_available k)"

lemma example_may_call: "timeout < 2 ^ 31 - 1 \<Longrightarrow> may_call 100 0 timeout example_kernel"
  using example_sysinv example_available example_tstat[of 0] by (simp add: may_call_def)

lemma time_left_exact:
  assumes "0 < timeout" "timeout < 2 ^ 31" "uint (tick k - before) < 2 ^ 31"
  shows "time_left timeout before k = max 0 (timeout - uint (tick k - before))"
proof -
  have "sint ((of_int timeout :: u32) - (tick k - before)) = timeout - uint (tick k - before)"
  proof -
    let ?d = "uint (tick k - before)"
    have eq: "(of_int timeout :: u32) - (tick k - before) = of_int (timeout - ?d)"
      by (simp add: of_int_diff)
    have "- (2 ^ 31) \<le> timeout - ?d" "timeout - ?d < 2 ^ 31"
      using assms uint_ge_0[of "tick k - before"] by linarith+
    then have "signed_take_bit 31 (timeout - ?d) = timeout - ?d" by (rule signed_take_bit_int_eq_self)
    then show ?thesis unfolding eq by (subst signed_of_int) simp
  qed
  then show ?thesis using assms(1) by (simp add: time_left_def rt_tick_get_def Let_def max_def)
qed

text \<open>Arming the timer of a suspended thread and scheduling.\<close>

definition only_scheduled :: "kernel \<Rightarrow> kernel \<Rightarrow> bool" where
  "only_scheduled k k' \<longleftrightarrow>
     (\<forall>u. stat_only (threads k u) (threads k' u)) \<and> (\<forall>u. suspended k' u = suspended k u) \<and>
     (\<forall>u. runnable k' u = runnable k u) \<and> (\<forall>g. waitq g \<longrightarrow> queues k' g = queues k g) \<and>
     objects k' = objects k \<and> tick k' = tick k \<and> lock_nest k' = lock_nest k"

lemma only_scheduledD:
  assumes "only_scheduled k k'"
  shows "stat_only (threads k u) (threads k' u)" "suspended k' u = suspended k u"
    "runnable k' u = runnable k u" "waitq g \<Longrightarrow> queues k' g = queues k g"
    "objects k' = objects k" "tick k' = tick k" "lock_nest k' = lock_nest k"
  using assms unfolding only_scheduled_def by blast+

lemma sched_frame_only: "sched_frame k k' \<Longrightarrow> only_scheduled k k'"
  by (simp add: only_scheduled_def sched_frame_stat sched_frame_suspended sched_frame_objects sched_frameD)

lemma arm_schedule:
  assumes inv: "sysinv b k" and c: "cur k = Some t" and s: "suspended k t" and to: "timeout < 2 ^ 31 - 1"
  obtains k2 k' where "arm_if t timeout k = Some k2" "rt_schedule k2 = Some k'" "sysinv b k'"
    "cur k' \<noteq> None" "only_scheduled k k'"
    "timeout > 0 \<longrightarrow> ThreadTimer t \<in> set (timer_lists k' TimerList) \<and>
       timeout_tick (timers k' (ThreadTimer t)) = tick k + of_int timeout"
proof -
  have ti: "tinv b k" using inv by (simp add: sysinv_def)
  obtain k2 where k2: "arm_if t timeout k = Some k2" "tinv b k2" "timer_only k k2"
    "timeout > 0 \<longrightarrow> ThreadTimer t \<in> set (timer_lists k2 TimerList) \<and>
       timeout_tick (timers k2 (ThreadTimer t)) = tick k + of_int timeout"
  proof (cases "timeout > 0")
    case True
    have "uint (of_int timeout :: u32) = timeout" using True to by (simp add: uint_word_of_int)
    then have lt: "(of_int timeout :: u32) < RT_TICK_MAX div 2"
      using to by (simp add: word_less_def)
    obtain k2 where "thread_timer_arm t (of_int timeout) k = Some k2" "tinv b k2" "timer_only k k2"
      using thread_timer_arm_ok(2)[OF ti s, of "of_int timeout"] lt by (auto simp: ok_iff)
    moreover from this(1) lt have "ThreadTimer t \<in> set (timer_lists k2 TimerList)"
      "timeout_tick (timers k2 (ThreadTimer t)) = tick k + of_int timeout"
      unfolding thread_timer_arm_ok(1)[OF ti s]
      by (auto simp: timer_lists_start set_timer_insert timers_start start_tick_def)
    ultimately show ?thesis using that True by (simp add: arm_if_def)
  qed (use that ti in \<open>simp add: arm_if_def\<close>)
  note F = timer_onlyD[OF k2(3)]
  have s2: "sysinv b k2" "cur k2 = Some t"
    using inv k2(2) timer_only_kinv(7)[OF k2(3)] F(5) c by (simp_all add: sysinv_def)
  obtain k3 where k3: "rt_schedule k2 = Some k3" "sysinv b k3" "sched_frame k2 k3" "cur k3 \<noteq> None"
    using rt_schedule_sys[OF s2] by (auto simp: ok_iff)
  note G = sched_frameD[OF k3(3)] and O = only_scheduledD[OF sched_frame_only[OF k3(3)]]
  have "only_scheduled k k3"
    unfolding only_scheduled_def
    using O F timer_only_kinv(3,4)[OF k2(3)] by (auto simp: objects_def)
  with that[OF k2(1) k3(1,2,4)] k2(4) G(5,6) show ?thesis by simp
qed

section \<open>The contract of an IPC object\<close>

locale ipc_object =
  fixes q :: qid
  assumes waiting: "waitq q"
begin

lemma suspend_eq:
  assumes inv: "sysinv b k" and c: "cur k = Some t" and r: "tstat k t = RT_THREAD_RUNNING"
    and f: "flag \<in> {RT_IPC_FLAG_FIFO, RT_IPC_FLAG_PRIO}" "sflag \<le> RT_UNINTERRUPTIBLE"
  shows "ipc_list_suspend q t flag sflag k = Some (RT_EOK, blocked q flag t sflag k)"
proof -
  have ki: "kinv k" using inv by (simp add: sysinv_def)
  have "\<not> suspended k t" using r suspended_codes by blast
  moreover have "(\<lambda>u. current_priority (threads (suspended_self t sflag k) u)) =
      (\<lambda>u. current_priority (threads k u))" by (rule ext) simp
  ultimately show ?thesis
    using suspend_running[OF ki c r f(2)] f(1)
    by (auto simp: ipc_list_suspend_def blocked_def wait_insert_def q_push_back_def Let_def)
qed

lemma blocked_sys:
  assumes inv: "sysinv b k" and c: "cur k = Some t" and r: "tstat k t = RT_THREAD_RUNNING"
  shows "sysinv b (blocked q flag t sflag k)"
proof -
  let ?k1 = "suspended_self t sflag k"
  have s1: "sysinv b ?k1" by (rule suspended_self_sys[OF inv c r])
  have q: "qinv {} k" using inv by (auto simp: sysinv_def kinv_def)
  have u: "unlinked t (queues k)" by (rule running_unlinked[OF q r])
  have "sysinv b (?k1\<lparr>queues := (queues ?k1)(q :=
      wait_insert flag (\<lambda>u. current_priority (threads k u)) t (queues k q))\<rparr>)"
    using u qinvD(1)[OF q, of q]
    by (intro wait_queue_sys[OF s1 _ _ waiting])
      (simp_all add: suspended_self_state set_wait_insert distinct_wait_insert unlinked_def)
  then show ?thesis by (simp add: blocked_def Let_def)
qed

lemma blocked_state:
  "suspended (blocked q flag t sflag k) u \<longleftrightarrow> u = t \<or> suspended k u"
  "runnable (blocked q flag t sflag k) u \<longleftrightarrow> u \<noteq> t \<and> runnable k u"
proof -
  have ts: "tstat (blocked q flag t sflag k) v = tstat (suspended_self t sflag k) v" for v
    by (simp add: blocked_def Let_def tstat_def)
  show s: "suspended (blocked q flag t sflag k) u \<longleftrightarrow> u = t \<or> suspended k u"
    using suspended_self_state(2)[of t sflag k u] by (simp add: suspended_tstat ts)
  show "runnable (blocked q flag t sflag k) u \<longleftrightarrow> u \<noteq> t \<and> runnable k u"
    using s suspended_not_runnable[of "blocked q flag t sflag k" u]
    by (auto simp: runnable_def ts suspended_self_state)
qed

lemma block_tail:
  assumes inv: "sysinv b k" and c: "cur k = Some t" and r: "tstat k t = RT_THREAD_RUNNING"
    and to: "timeout < 2 ^ 31 - 1"
  shows "ok (arm_if t timeout (blocked q flag t sflag k) \<bind> rt_schedule)
    (\<lambda>k'. sysinv b k' \<and> waits_on q flag t timeout k k')"
proof -
  let ?k1 = "blocked q flag t sflag k"
  have s1: "sysinv b ?k1" by (rule blocked_sys[OF inv c r])
  have t1: "suspended ?k1 t" by (simp add: blocked_state)
  have c1: "cur ?k1 = Some t" using c by (simp add: blocked_def Let_def)
  have th1: "stat_only (threads k u) (threads ?k1 u)"
    "queues ?k1 = (queues k)(q := wait_insert flag (\<lambda>u. current_priority (threads k u)) t (queues k q))"
    "objects ?k1 = objects k" "tick ?k1 = tick k" "lock_nest ?k1 = lock_nest k" for u
    by (simp_all add: blocked_def Let_def set_stat_def objects_def stat_only_def)
  obtain k2 k' where k': "arm_if t timeout ?k1 = Some k2" "rt_schedule k2 = Some k'" "sysinv b k'"
    "cur k' \<noteq> None" "only_scheduled ?k1 k'"
    "timeout > 0 \<longrightarrow> ThreadTimer t \<in> set (timer_lists k' TimerList) \<and>
       timeout_tick (timers k' (ThreadTimer t)) = tick ?k1 + of_int timeout"
    by (rule arm_schedule[OF s1 c1 t1 to])
  note O = only_scheduledD[OF k'(5)]
  have st: "stat_only (threads k u) (threads k' u)" for u by (rule stat_only_trans[OF th1(1) O(1)])
  have ru: "runnable k' u = runnable k u" if "u \<noteq> t" for u
    using O(3)[of u] blocked_state(2)[of flag t sflag k u] that by simp
  have "waits_on q flag t timeout k k'"
    unfolding waits_on_def
    using O(2,4,5,6,7) k'(4,6) th1(2-) t1 waiting st ru by simp
  then show ?thesis using k'(1-3) by simp
qed

text \<open>The whole waiting path: suspend, arm the timer, schedule.\<close>

lemma wait_path:
  assumes "runs b t k" "flag \<in> {RT_IPC_FLAG_FIFO, RT_IPC_FLAG_PRIO}" "sflag \<le> RT_UNINTERRUPTIBLE"
    and "timeout < 2 ^ 31 - 1"
  obtains k1 k2 k' where "ipc_list_suspend q t flag sflag k = Some (RT_EOK, k1)"
    "arm_if t timeout k1 = Some k2" "rt_schedule k2 = Some k'" "sysinv b k'"
    "waits_on q flag t timeout k k'"
proof -
  have r: "sysinv b k" "cur k = Some t" "tstat k t = RT_THREAD_RUNNING"
    using assms(1) by (simp_all add: runs_def)
  from block_tail[OF r assms(4), of flag sflag] obtain k2 k' where
    "arm_if t timeout (blocked q flag t sflag k) = Some k2" "rt_schedule k2 = Some k'"
    "sysinv b k'" "waits_on q flag t timeout k k'"
    by (auto simp: ok_iff Option.bind_eq_Some_conv)
  with suspend_eq[OF r assms(2,3)] show ?thesis by (rule that)
qed

lemma head_suspended: "kinv k \<Longrightarrow> queues k q = t # ts \<Longrightarrow> suspended k t"
  using qinvD(8)[OF _ waiting, of "{}" k t] by (simp add: kinv_def)

lemma resume_eq:
  assumes inv: "kinv k" and ts: "queues k q = t # ts"
  shows "ipc_list_resume q k = Some (resumed t (set_error t RT_EOK k))"
  using head_suspended[OF assms] ts by (simp add: ipc_list_resume_def rt_thread_resume_eq)

lemma resumed_head:
  assumes inv: "sysinv b k" and ts: "queues k q = t # ts"
  shows "sysinv b (resumed t (set_error t e k))"
    and "queues (resumed t (set_error t e k)) q = ts"
    and "runnable (resumed t (set_error t e k)) t"
proof -
  have q: "qinv {} k" and ki: "kinv k" using inv by (auto simp: sysinv_def kinv_def)
  show "sysinv b (resumed t (set_error t e k))"
    using head_suspended[OF ki ts] inv by (intro resumed_sys) simp_all
  show "queues (resumed t (set_error t e k)) q = ts"
    using qinvD(1)[OF q, of q] ts waiting by (simp add: resumed_queues removeAll_id)
  show "runnable (resumed t (set_error t e k)) t" by (simp add: runnable_def resumed_state)
qed

lemma other_queue:
  assumes inv: "kinv k" and t: "t \<in> set (queues k q)" and g: "waitq g" "g \<noteq> q"
  shows "queues (resumed t (set_error t e k)) g = queues k g"
proof -
  have "qinv {} k" using inv by (simp add: kinv_def)
  then have "t \<notin> set (queues k g)" using qinvD(2)[of "{}" k t q g] t g(2) by auto
  then show ?thesis using g(1) by (simp add: resumed_queues)
qed

text \<open>Any waiter may be resumed; the head is the usual one.\<close>

lemma resume_member:
  assumes inv: "sysinv b k" and c: "cur k = Some c" and t: "t \<in> set (queues k q)"
  shows "ok (rt_schedule (resumed t (set_error t RT_EOK k)))
    (\<lambda>k'. sysinv b k' \<and> cur k' \<noteq> None \<and> wakes q t k k')"
proof -
  let ?k1 = "resumed t (set_error t RT_EOK k)"
  have ki: "kinv k" and q: "qinv {} k" using inv by (auto simp: sysinv_def kinv_def)
  have s: "suspended k t" by (rule qinvD(8)[OF q waiting t])
  then have s1: "sysinv b ?k1" by (intro resumed_sys) (simp_all add: inv)
  have rt: "runnable ?k1 t" by (simp add: runnable_def resumed_state)
  have ru: "runnable ?k1 u = runnable k u" if "u \<noteq> t" for u
    using that by (simp add: runnable_def resumed_state)
  have qq: "queues ?k1 q = removeAll t (queues k q)" using waiting by (simp add: resumed_queues)
  show ?thesis
  proof (rule ok_mono[OF rt_schedule_sys[OF s1, of c]])
    show "cur ?k1 = Some c" using c by simp
    fix k'
    assume k': "sysinv b k' \<and> sched_frame ?k1 k' \<and> cur k' \<noteq> None"
    then have sf: "sched_frame ?k1 k'" by simp
    note F = sched_frameD[OF sf]
    have th: "stat_only (threads k u) (threads k' u)" if "u \<noteq> t" for u
      using sched_frame_stat[OF sf, of u] that by simp
    have qs: "queues k' g = queues k g" if "waitq g" "g \<noteq> q" for g
      using F(20)[OF that(1)] other_queue[OF ki t that] by simp
    have own: "queues k' q = removeAll t (queues k q)" "runnable k' t" "error (threads k' t) = RT_EOK"
      using F(20)[OF waiting] qq F(19)[of t] rt F(11)[of t] by simp_all
    have others: "runnable k' u = runnable k u" if "u \<noteq> t" for u
      using F(19)[of u] ru[OF that] by simp
    have fr: "objects k' = objects k" "lock_nest k' = lock_nest k"
      "interrupt_nest k' = interrupt_nest k" "tick k' = tick k"
      using F(1,2,4) sched_frame_objects[OF sf] by simp_all
    have "wakes q t k k'"
      unfolding wakes_def by (intro conjI allI impI own others fr qs th)
    then show "sysinv b k' \<and> cur k' \<noteq> None \<and> wakes q t k k'" using k' by simp
  qed
qed

lemma resume_schedule:
  assumes "sysinv b k" "cur k = Some c" "queues k q = t # ts"
  shows "ok (ipc_list_resume q k \<bind> rt_schedule)
    (\<lambda>k'. sysinv b k' \<and> cur k' \<noteq> None \<and> wakes q t k k')"
  using resume_member[OF assms(1,2), of t] resume_eq[OF _ assms(3)] assms
  by (simp add: sysinv_def)

lemma resume_path:
  assumes "sysinv b k" "cur k = Some c" "queues k q = t # ts"
  obtains k1 k' where "ipc_list_resume q k = Some k1" "rt_schedule k1 = Some k'" "sysinv b k'"
    "cur k' \<noteq> None" "wakes q t k k'"
  using resume_schedule[OF assms] that
  by (auto simp: ok_iff Option.bind_eq_Some_conv)

lemma wake_first_ok:
  assumes "sysinv b k" "cur k = Some c"
  obtains k' where "wake_first q k = Some k'" "sysinv b k'" "cur k' \<noteq> None" "woke_first q k k'"
proof (cases "queues k q")
  case Nil
  then show ?thesis using that[of k] assms by (simp add: wake_first_def woke_first_def)
next
  case (Cons t ts)
  obtain k1 k' where "ipc_list_resume q k = Some k1" "rt_schedule k1 = Some k'" "sysinv b k'"
    "cur k' \<noteq> None" "wakes q t k k'" by (rule resume_path[OF assms Cons])
  then show ?thesis using that[of k'] Cons by (simp add: wake_first_def woke_first_def)
qed

lemma wait_pass_ok:
  assumes "runs b t k" "flag \<in> {RT_IPC_FLAG_FIFO, RT_IPC_FLAG_PRIO}" "sflag \<le> RT_UNINTERRUPTIBLE"
    and "timeout < 2 ^ 31 - 1"
  obtains k' where "wait_pass q t flag timeout sflag k = Some (Waiting, k')" "sysinv b k'"
    "waits_on q flag t timeout k k'"
  by (rule wait_path[OF assms]) (rule that, simp_all add: wait_pass_def)

text \<open>The loop of \<open>_ipc_list_resume_all\<close> ends with every waiter awake and told so.\<close>

lemma resume_all_ok:
  assumes "sysinv b k"
  shows "ok (ipc_list_resume_all q k)
    (\<lambda>k'. sysinv b k' \<and> all_woken q k k')"
  using assms
proof (induction "queues k q" arbitrary: k)
  case Nil
  then show ?case by (subst ipc_list_resume_all.simps) (simp add: all_woken_def)
next
  case (Cons t ts)
  have ki: "kinv k" and qi: "qinv {} k" using Cons.prems by (auto simp: sysinv_def kinv_def)
  let ?k1 = "resumed t (set_error t (- RT_ERROR) k)"
  note H = resumed_head[OF Cons.prems Cons.hyps(2)[symmetric], of "- RT_ERROR"]
  have step: "ipc_list_resume_all q k = ipc_list_resume_all q ?k1"
    using Cons.hyps(2)[symmetric] head_suspended[OF ki Cons.hyps(2)[symmetric]]
    by (subst ipc_list_resume_all.simps) (simp add: rt_thread_resume_eq)
  have t: "t \<notin> set ts" using qinvD(1)[OF qi, of q] Cons.hyps(2)[symmetric] by simp
  have other: "queues ?k1 g = queues k g" if "waitq g" "g \<noteq> q" for g
  proof -
    have "t \<notin> set (queues k g)"
      using qinvD(2)[OF qi, of t q g] that(2) Cons.hyps(2)[symmetric] by auto
    then show ?thesis using that(1) by (simp add: resumed_queues)
  qed
  show ?case
    unfolding step
  proof (rule ok_mono[OF Cons.hyps(1)[OF H(2)[symmetric] H(1)]])
    fix k'
    assume s: "sysinv b k' \<and> all_woken q ?k1 k'"
    have ob: "objects ?k1 = objects k" by (simp add: objects_def)
    from s have a: "all_woken q ?k1 k'" by simp
    then have tt: "threads k' t = threads ?k1 t" using t H(2) by (simp add: all_woken_def)
    then have "runnable k' t" "error (threads k' t) = - RT_ERROR"
      using H(3) by (simp_all add: runnable_def tstat_def)
    then show "sysinv b k' \<and> all_woken q k k'"
      using s other ob H(2) Cons.hyps(2)[symmetric] by (auto simp: all_woken_def)
  qed
qed

end

text \<open>The lock of the scheduler.\<close>

lemma sysinv_lock [simp]: "sysinv b (k\<lparr>lock_nest := x\<rparr>) = sysinv b k"
  by (rule sysinv_cong) simp_all

lemma exit_critical_ok:
  assumes "sysinv b k" "cur k = Some c"
  obtains k' l where "rt_exit_critical k = Some k'" "sysinv b k'" "cur k' \<noteq> None" "only_scheduled (k\<lparr>lock_nest := l\<rparr>) k'"
proof (cases "sint (lock_nest k - 1) \<le> 0")
  case True
  have "sysinv b (k\<lparr>lock_nest := 0\<rparr>)" "cur (k\<lparr>lock_nest := 0\<rparr>) = Some c" using assms by simp_all
  from rt_schedule_sys[OF this] obtain k' where k': "rt_schedule (k\<lparr>lock_nest := 0\<rparr>) = Some k'" "sysinv b k'"
    "sched_frame (k\<lparr>lock_nest := 0\<rparr>) k'" "cur k' \<noteq> None" by (auto simp: ok_iff)
  then have "rt_exit_critical k = Some k'" using True assms(2) by (simp add: rt_exit_critical_def Let_def)
  then show ?thesis using k'(2,4) sched_frame_only[OF k'(3)] by (rule that)
next
  case False
  then have "rt_exit_critical k = Some (k\<lparr>lock_nest := lock_nest k - 1\<rparr>)" by (simp add: rt_exit_critical_def Let_def)
  moreover have "only_scheduled (k\<lparr>lock_nest := lock_nest k - 1\<rparr>) (k\<lparr>lock_nest := lock_nest k - 1\<rparr>)"
    by (rule sched_frame_only) simp
  ultimately show ?thesis using assms by (intro that[of "k\<lparr>lock_nest := lock_nest k - 1\<rparr>" "lock_nest k - 1"]) simp_all
qed

interpretation semq: ipc_object "SemQ s" for s
  by unfold_locales (simp add: waitq_def)

interpretation mutexq: ipc_object "MutexQ s" for s
  by unfold_locales (simp add: waitq_def)

interpretation eventq: ipc_object "EventQ s" for s
  by unfold_locales (simp add: waitq_def)

interpretation mbq: ipc_object "MbQ s" for s
  by unfold_locales (simp add: waitq_def)

interpretation mbsendq: ipc_object "MbSendQ s" for s
  by unfold_locales (simp add: waitq_def)

interpretation mqq: ipc_object "MqQ s" for s
  by unfold_locales (simp add: waitq_def)

interpretation mqsendq: ipc_object "MqSendQ s" for s
  by unfold_locales (simp add: waitq_def)

interpretation mpq: ipc_object "MpQ s" for s
  by unfold_locales (simp add: waitq_def)

end
