(* ===== verification/Sem.thy ===== *)
theory Sem
  imports IpcList
begin

text \<open>
  Semaphores (\<open>src/ipc.c\<close>, \<open>rt_sem_*\<close>). A take that finds no unit suspends the caller on the
  semaphore's queue; a release hands its unit to the first waiter. The object manager's part
  (names, registration, allocation) is not modelled.
\<close>

section \<open>Operations\<close>

definition upd_sem :: "nat \<Rightarrow> (rt_semaphore \<Rightarrow> rt_semaphore) \<Rightarrow> kernel \<Rightarrow> kernel" where
  "upd_sem s f k = k\<lparr>sems := (sems k)(s := f (sems k s))\<rparr>"

definition rt_sem_init :: "nat \<Rightarrow> u32 \<Rightarrow> u8 \<Rightarrow> kernel \<Rightarrow> (rt_err_t \<times> kernel) option" where
  "rt_sem_init s v flag k =
     do {
       rt_assert (v < 0x10000);
       rt_assert (flag = RT_IPC_FLAG_FIFO \<or> flag = RT_IPC_FLAG_PRIO);
       let k1 = ipc_object_init (SemQ s) k;
       Some (RT_EOK, upd_sem s (\<lambda>_. \<lparr>sem_value = ucast v, sem_flag = flag\<rparr>) k1)
     }"

text \<open>\<open>object\<close> is the result of the object allocation.\<close>

definition rt_sem_create ::
  "nat option \<Rightarrow> u32 \<Rightarrow> u8 \<Rightarrow> kernel \<Rightarrow> (nat option \<times> kernel) option" where
  "rt_sem_create object v flag k =
     do {
       rt_assert (v < 0x10000);
       rt_assert (flag = RT_IPC_FLAG_FIFO \<or> flag = RT_IPC_FLAG_PRIO);
       rt_assert (not_in_interrupt k);
       case object of
         None \<Rightarrow> Some (None, k)
       | Some s \<Rightarrow>
           let k1 = ipc_object_init (SemQ s) k
           in Some (Some s, upd_sem s (\<lambda>_. \<lparr>sem_value = ucast v, sem_flag = flag\<rparr>) k1)
     }"

definition rt_sem_detach :: "nat \<Rightarrow> kernel \<Rightarrow> (rt_err_t \<times> kernel) option" where
  "rt_sem_detach s k =
     do { k1 \<leftarrow> ipc_list_resume_all (SemQ s) k; Some (RT_EOK, k1) }"

definition rt_sem_delete :: "nat \<Rightarrow> kernel \<Rightarrow> (rt_err_t \<times> kernel) option" where
  "rt_sem_delete s k =
     do {
       rt_assert (not_in_interrupt k);
       k1 \<leftarrow> ipc_list_resume_all (SemQ s) k;
       Some (RT_EOK, k1)
     }"

text \<open>\<open>timeout\<close> is signed: 0 does not wait, a negative value waits for ever.\<close>

definition sem_take :: "nat \<Rightarrow> int \<Rightarrow> nat \<Rightarrow> kernel \<Rightarrow> (outcome \<times> kernel) option" where
  "sem_take s timeout suspend_flag k =
     do {
       rt_assert (sem_value (sems k s) = 0 \<and> timeout \<noteq> 0 \<longrightarrow> scheduler_available k);
       if sem_value (sems k s) > 0
       then Some (Done RT_EOK, upd_sem s (\<lambda>sm. sm\<lparr>sem_value := sem_value sm - 1\<rparr>) k)
       else if timeout = 0 then Some (Done (- RT_ETIMEOUT), k)
       else do {
         t \<leftarrow> rt_thread_self k;
         let k1 = set_error t (- RT_EINTR) k;
         wait_pass (SemQ s) t (sem_flag (sems k1 s)) timeout suspend_flag k1
       }
     }"

definition sem_take_resume :: "tid \<Rightarrow> kernel \<Rightarrow> rt_err_t" where
  "sem_take_resume t k =
     (if error (threads k t) \<noteq> RT_EOK then error (threads k t) else RT_EOK)"

definition rt_sem_take :: "nat \<Rightarrow> int \<Rightarrow> kernel \<Rightarrow> (outcome \<times> kernel) option" where
  "rt_sem_take s timeout k = sem_take s timeout RT_UNINTERRUPTIBLE k"

definition rt_sem_take_interruptible :: "nat \<Rightarrow> int \<Rightarrow> kernel \<Rightarrow> (outcome \<times> kernel) option" where
  "rt_sem_take_interruptible s timeout k = sem_take s timeout RT_INTERRUPTIBLE k"

definition rt_sem_take_killable :: "nat \<Rightarrow> int \<Rightarrow> kernel \<Rightarrow> (outcome \<times> kernel) option" where
  "rt_sem_take_killable s timeout k = sem_take s timeout RT_KILLABLE k"

definition rt_sem_trytake :: "nat \<Rightarrow> kernel \<Rightarrow> (outcome \<times> kernel) option" where
  "rt_sem_trytake s k = rt_sem_take s 0 k"

definition rt_sem_release :: "nat \<Rightarrow> kernel \<Rightarrow> (rt_err_t \<times> kernel) option" where
  "rt_sem_release s k =
     (if queues k (SemQ s) \<noteq> [] then do {
        k1 \<leftarrow> ipc_list_resume (SemQ s) k;
        k2 \<leftarrow> rt_schedule k1;
        Some (RT_EOK, k2)
      }
      else if sem_value (sems k s) < 0xffff
      then Some (RT_EOK, upd_sem s (\<lambda>sm. sm\<lparr>sem_value := sem_value sm + 1\<rparr>) k)
      else Some (- RT_EFULL, k))"

definition rt_sem_control :: "nat \<Rightarrow> ipc_cmd \<Rightarrow> kernel \<Rightarrow> (rt_err_t \<times> kernel) option" where
  "rt_sem_control s cmd k =
     (case cmd of
        IpcReset v \<Rightarrow> do {
          k1 \<leftarrow> ipc_list_resume_all (SemQ s) k;
          let k2 = upd_sem s (\<lambda>sm. sm\<lparr>sem_value := ucast v\<rparr>) k1;
          k3 \<leftarrow> rt_schedule k2;
          Some (RT_EOK, k3)
        }
      | IpcOther \<Rightarrow> Some (- RT_ERROR, k))"

section \<open>Invariant\<close>

text \<open>Nobody waits while units are left.\<close>

definition sem_wf :: "nat \<Rightarrow> kernel \<Rightarrow> bool" where
  "sem_wf s k \<longleftrightarrow> sem_flag (sems k s) \<in> {RT_IPC_FLAG_FIFO, RT_IPC_FLAG_PRIO} \<and>
     (sem_value (sems k s) \<noteq> 0 \<longrightarrow> queues k (SemQ s) = [])"

text \<open>What a semaphore is to its users: a number of units and the threads waiting for one.\<close>

definition sem_view :: "nat \<Rightarrow> kernel \<Rightarrow> nat \<times> tid list" where
  "sem_view s k = (unat (sem_value (sems k s)), queues k (SemQ s))"

lemma upd_sem_simps [simp]:
  "sems (upd_sem s f k) r = (if r = s then f (sems k s) else sems k r)"
  "threads (upd_sem s f k) = threads k" "queues (upd_sem s f k) = queues k"
  "ready_group (upd_sem s f k) = ready_group k" "cur (upd_sem s f k) = cur k"
  "timers (upd_sem s f k) = timers k" "timer_lists (upd_sem s f k) = timer_lists k"
  "tick (upd_sem s f k) = tick k" "lock_nest (upd_sem s f k) = lock_nest k"
  "interrupt_nest (upd_sem s f k) = interrupt_nest k"
  by (simp_all add: upd_sem_def)

lemma sysinv_upd_sem [simp]: "sysinv b (upd_sem s f k) = sysinv b k"
  by (rule sysinv_cong) simp_all

lemma upd_sem_frame [simp]:
  "runnable (upd_sem s f k) t = runnable k t" "suspended (upd_sem s f k) t = suspended k t"
  "tstat (upd_sem s f k) t = tstat k t" "runs b t (upd_sem s f k) = runs b t k"
  by (simp_all add: runnable_def suspended_def tstat_def runs_def)

section \<open>Taking\<close>

lemma sem_take_waits:
  assumes run: "runs b t k" and wf: "sem_wf s k" and empty: "sem_value (sems k s) = 0"
    and to: "timeout \<noteq> 0" "timeout < 2 ^ 31 - 1" and av: "scheduler_available k"
    and sf: "sflag \<le> RT_UNINTERRUPTIBLE"
  shows "ok (sem_take s timeout sflag k) (\<lambda>(r, k'). r = Waiting \<and> sysinv b k' \<and>
    waits_on (SemQ s) (sem_flag (sems k s)) t timeout (set_error t (- RT_EINTR) k) k')"
proof -
  have r: "runs b t (set_error t (- RT_EINTR) k)" "cur k = Some t" using run by (simp_all add: runs_def)
  have fl: "sem_flag (sems k s) \<in> {RT_IPC_FLAG_FIFO, RT_IPC_FLAG_PRIO}"
    using wf by (simp add: sem_wf_def)
  show ?thesis
    by (rule semq.wait_pass_ok[OF r(1) fl sf to(2), of s])
      (use empty to(1) av r(2) in \<open>simp add: sem_take_def rt_thread_self_def\<close>)
qed

text \<open>What a take does to a semaphore seen as units and waiters.\<close>

definition sem_took ::
  "nat \<Rightarrow> int \<Rightarrow> tid \<Rightarrow> kernel \<Rightarrow> outcome \<times> kernel \<Rightarrow> bool" where
  "sem_took s timeout t k = (\<lambda>(r, k').
     case sem_view s k of
       (Suc n, ws) \<Rightarrow> r = Done RT_EOK \<and> sem_view s k' = (n, ws) \<and> cur k' = cur k
     | (0, ws) \<Rightarrow>
         if timeout = 0 then r = Done (- RT_ETIMEOUT) \<and> k' = k
         else r = Waiting \<and> suspended k' t \<and> error (threads k' t) = - RT_EINTR \<and>
           sem_view s k' = (0, wait_insert (sem_flag (sems k s))
             (\<lambda>u. current_priority (threads k u)) t ws) \<and>
           (timeout > 0 \<longrightarrow> ThreadTimer t \<in> set (timer_lists k' TimerList) \<and>
              timeout_tick (timers k' (ThreadTimer t)) = tick k + of_int timeout))"

lemma u16_pred: "(v::u16) \<noteq> 0 \<Longrightarrow> unat v = Suc (unat (v - 1))"
  by (simp add: unat_minus_one unat_gt_0)

lemma sem_take_correct:
  assumes "runs b t k" "sem_wf s k" "timeout < 2 ^ 31 - 1" "sflag \<le> RT_UNINTERRUPTIBLE"
    and "timeout \<noteq> 0 \<longrightarrow> scheduler_available k"
  shows "ok (sem_take s timeout sflag k)
    (\<lambda>(r, k'). sysinv b k' \<and> sem_wf s k' \<and> sem_took s timeout t k (r, k'))"
proof (cases "sem_value (sems k s) = 0")
  case False
  then have v: "unat (sem_value (sems k s)) = Suc (unat (sem_value (sems k s) - 1))"
    by (rule u16_pred)
  have "sysinv b k" using assms(1) by (simp add: runs_def)
  then show ?thesis
    using False v assms(2) by (simp add: sem_take_def sem_took_def sem_view_def sem_wf_def word_gt_0)
next
  case empty: True
  show ?thesis
  proof (cases "timeout = 0")
    case True
    then show ?thesis
      using empty assms(1,2) by (simp add: sem_take_def sem_took_def sem_view_def runs_def)
  next
    case False
    have av: "scheduler_available k" using False assms(5) by simp
    from sem_take_waits[OF assms(1,2) empty False assms(3) av assms(4)]
    obtain r k' where "sem_take s timeout sflag k = Some (r, k')"
      "r = Waiting \<and> sysinv b k' \<and>
       waits_on (SemQ s) (sem_flag (sems k s)) t timeout (set_error t (- RT_EINTR) k) k'"
      by (rule ok_pairE)
    then have k': "sem_take s timeout sflag k = Some (Waiting, k')" "sysinv b k'"
      "waits_on (SemQ s) (sem_flag (sems k s)) t timeout (set_error t (- RT_EINTR) k) k'"
      by blast+
    note W = waits_onD[OF k'(3)] and E = waits_on_error[OF k'(3)]
    have "sems k' = sems k" by (rule objectsD(1)[OF E(4)])
    then have wf: "sem_wf s k'" and view: "sem_view s k' = (0, wait_insert (sem_flag (sems k s))
        (\<lambda>u. current_priority (threads k u)) t (queues k (SemQ s)))"
      using assms(2) empty E(2) by (simp_all add: sem_wf_def sem_view_def)
    have "sem_view s k = (0, queues k (SemQ s))" using empty by (simp add: sem_view_def)
    then have "sem_took s timeout t k (Waiting, k')"
      unfolding sem_took_def using False W(1,10) E(1,6) view by simp
    then show ?thesis using k'(1,2) wf by simp
  qed
qed

section \<open>Releasing\<close>

definition sem_released :: "nat \<Rightarrow> kernel \<Rightarrow> rt_err_t \<times> kernel \<Rightarrow> bool" where
  "sem_released s k = (\<lambda>(e, k').
     case sem_view s k of
       (n, w # ws) \<Rightarrow> e = RT_EOK \<and> sem_view s k' = (n, ws) \<and> runnable k' w \<and>
         sem_take_resume w k' = RT_EOK
     | (n, []) \<Rightarrow>
         if n < 65535 then e = RT_EOK \<and> sem_view s k' = (n + 1, []) \<and> cur k' = cur k
         else e = - RT_EFULL \<and> k' = k)"

lemma u16_succ: "(v::u16) < 0xffff \<Longrightarrow> unat (v + 1) = unat v + 1"
  by (simp add: word_less_nat_alt unat_word_ariths)

lemma sem_release_correct:
  assumes inv: "sysinv b k" and wf: "sem_wf s k" and c: "cur k = Some c"
  shows "ok (rt_sem_release s k)
    (\<lambda>(e, k'). sysinv b k' \<and> sem_wf s k' \<and> cur k' \<noteq> None \<and> sem_released s k (e, k'))"
proof (cases "queues k (SemQ s)")
  case Nil
  have "unat (sem_value (sems k s)) < 65535 \<longleftrightarrow> sem_value (sems k s) < 0xffff"
    by (simp add: word_less_nat_alt)
  then show ?thesis
    using Nil assms u16_succ[of "sem_value (sems k s)"]
    by (simp add: rt_sem_release_def sem_released_def sem_view_def sem_wf_def)
next
  case (Cons w ws)
  obtain k1 k' where k': "ipc_list_resume (SemQ s) k = Some k1" "rt_schedule k1 = Some k'"
    "sysinv b k'" "cur k' \<noteq> None" "wakes (SemQ s) w k k'"
    by (rule semq.resume_path[OF inv c Cons])
  note W = wakesD[OF k'(5)]
  have "distinct (queues k (SemQ s))"
    using inv qinvD(1)[of "{}" k] by (simp add: sysinv_def kinv_def)
  then have q: "queues k' (SemQ s) = ws" using W(1) Cons by (simp add: removeAll_id)
  have o: "sems k' = sems k" by (rule objectsD(1)[OF W(7)])
  have "sem_view s k = (unat (sem_value (sems k s)), w # ws)"
    "sem_view s k' = (unat (sem_value (sems k s)), ws)"
    using Cons q o by (simp_all add: sem_view_def)
  then have "sem_released s k (RT_EOK, k')"
    using W(2,3) by (simp add: sem_released_def sem_take_resume_def)
  moreover have "sem_wf s k'" using wf Cons o by (simp add: sem_wf_def)
  ultimately show ?thesis
    using k'(1-4) Cons by (simp add: rt_sem_release_def)
qed

section \<open>Resetting and deleting\<close>

lemma sem_detach_correct:
  assumes "sysinv b k"
  shows "ok (rt_sem_detach s k) (\<lambda>(e, k'). e = RT_EOK \<and> sysinv b k' \<and> all_woken (SemQ s) k k')"
  using semq.resume_all_ok[OF assms, of s] by (auto simp: rt_sem_detach_def ok_iff)

lemma sem_reset_correct:
  assumes inv: "sysinv b k" and wf: "sem_wf s k" and c: "cur k = Some c"
  shows "ok (rt_sem_control s (IpcReset v) k) (\<lambda>(e, k'). e = RT_EOK \<and> sysinv b k' \<and> sem_wf s k' \<and>
    sem_view s k' = (unat v mod 65536, []) \<and>
    (\<forall>t \<in> set (queues k (SemQ s)). runnable k' t \<and> sem_take_resume t k' = - RT_ERROR))"
proof -
  obtain k1 where k1: "ipc_list_resume_all (SemQ s) k = Some k1" "sysinv b k1" "all_woken (SemQ s) k k1"
    using semq.resume_all_ok[OF inv, of s] by (auto simp: ok_iff)
  let ?k2 = "upd_sem s (\<lambda>sm. sm\<lparr>sem_value := ucast v\<rparr>) k1"
  have q1: "queues k1 (SemQ s) = []" "cur k1 = Some c" "sems k1 = sems k"
    and woken: "\<And>t. t \<in> set (queues k (SemQ s)) \<Longrightarrow> runnable k1 t \<and> error (threads k1 t) = - RT_ERROR"
    using k1(3) c by (auto simp: all_woken_def dest: objectsD(1))
  have "sysinv b ?k2" "cur ?k2 = Some c" using k1(2) q1 by simp_all
  then obtain k' where k': "rt_schedule ?k2 = Some k'" "sysinv b k'" "sched_frame ?k2 k'"
    using rt_schedule_sys[of b ?k2 c] by (auto simp: ok_iff)
  note F = sched_frameD[OF k'(3)]
  have "waitq (SemQ s)" by (simp add: waitq_def)
  then have "queues k' (SemQ s) = []" using F(20) q1(1) by simp
  moreover have "runnable k' t \<and> sem_take_resume t k' = - RT_ERROR" if "t \<in> set (queues k (SemQ s))" for t
    using woken[OF that] F(11)[of t] F(19)[of t] by (simp add: sem_take_resume_def)
  ultimately show ?thesis
    using k' k1(1) F(7) q1(3) wf
    by (simp add: rt_sem_control_def sem_view_def sem_wf_def unsigned_ucast_eq take_bit_eq_mod Let_def)
qed

section \<open>Properties\<close>

text \<open>C4: A take with a unit left returns at once; without one it returns \<open>-RT_ETIMEOUT\<close> when it
  may not wait, and otherwise suspends the caller at its place among the waiters with its timer due in
  exactly the time-out. No assertion fails and the system stays sound.\<close>
theorem sem_take_refines:
  assumes "runs b t k" "sem_wf s k" "timeout < 2 ^ 31 - 1"
    and "timeout \<noteq> 0 \<longrightarrow> scheduler_available k"
  shows "ok (rt_sem_take s timeout k)
    (\<lambda>(r, k'). sysinv b k' \<and> sem_wf s k' \<and> sem_took s timeout t k (r, k'))"
  unfolding rt_sem_take_def by (rule sem_take_correct) (use assms in simp_all)

lemma example_sem_wf: "sem_wf s example_kernel"
  by (simp add: sem_wf_def example_kernel_def)

theorem sem_take_refines_witness:
  "ok (rt_sem_take 0 20 example_kernel)
    (\<lambda>(r, k'). sysinv 100 k' \<and> sem_wf 0 k' \<and> sem_took 0 20 0 example_kernel (r, k'))"
  by (rule sem_take_refines[OF example_runs example_sem_wf]) (simp_all add: example_available)

text \<open>C5: A release hands its unit to the first waiter, which becomes runnable and will return
  \<open>RT_EOK\<close>; without waiters the count goes up by one, and a full count is left as it is and reported.\<close>
theorem sem_release_refines:
  assumes "sysinv b k" "sem_wf s k" "cur k = Some c"
  shows "ok (rt_sem_release s k)
    (\<lambda>(e, k'). sysinv b k' \<and> sem_wf s k' \<and> cur k' \<noteq> None \<and> sem_released s k (e, k'))"
  by (rule sem_release_correct[OF assms])

theorem sem_release_refines_witness:
  "ok (rt_sem_release 0 example_kernel)
    (\<lambda>(e, k'). sysinv 100 k' \<and> sem_wf 0 k' \<and> cur k' \<noteq> None \<and> sem_released 0 example_kernel (e, k'))"
  by (rule sem_release_refines[OF example_sysinv example_sem_wf example_available(2)])

end
