(* ===== verification/Event.thy ===== *)
theory Event
  imports IpcList
begin

text \<open>
  Event sets (\<open>src/ipc.c\<close>, \<open>rt_event_*\<close>). A waiter names a set of events and whether it wants all of
  them (\<open>RT_EVENT_FLAG_AND\<close>) or any (\<open>RT_EVENT_FLAG_OR\<close>), and whether they are consumed
  (\<open>RT_EVENT_FLAG_CLEAR\<close>). A send wakes every waiter its events satisfy, then consumes.
\<close>

section \<open>Operations\<close>

abbreviation RT_EVENT_FLAG_AND :: u8 where "RT_EVENT_FLAG_AND \<equiv> 1"
abbreviation RT_EVENT_FLAG_OR :: u8 where "RT_EVENT_FLAG_OR \<equiv> 2"
abbreviation RT_EVENT_FLAG_CLEAR :: u8 where "RT_EVENT_FLAG_CLEAR \<equiv> 4"

definition upd_event :: "nat \<Rightarrow> (rt_event \<Rightarrow> rt_event) \<Rightarrow> kernel \<Rightarrow> kernel" where
  "upd_event e f k = k\<lparr>events := (events k)(e := f (events k e))\<rparr>"

definition rt_event_init :: "nat \<Rightarrow> u8 \<Rightarrow> kernel \<Rightarrow> (rt_err_t \<times> kernel) option" where
  "rt_event_init e flag k =
     do {
       rt_assert (flag = RT_IPC_FLAG_FIFO \<or> flag = RT_IPC_FLAG_PRIO);
       let k1 = ipc_object_init (EventQ e) k;
       Some (RT_EOK, upd_event e (\<lambda>_. \<lparr>ev_set = 0, ev_flag = flag\<rparr>) k1)
     }"

text \<open>\<open>object\<close> is the result of the object allocation.\<close>

definition rt_event_create ::
  "nat option \<Rightarrow> u8 \<Rightarrow> kernel \<Rightarrow> (nat option \<times> kernel) option" where
  "rt_event_create object flag k =
     do {
       rt_assert (flag = RT_IPC_FLAG_FIFO \<or> flag = RT_IPC_FLAG_PRIO);
       rt_assert (not_in_interrupt k);
       case object of
         None \<Rightarrow> Some (None, k)
       | Some e \<Rightarrow>
           let k1 = ipc_object_init (EventQ e) k
           in Some (Some e, upd_event e (\<lambda>_. \<lparr>ev_set = 0, ev_flag = flag\<rparr>) k1)
     }"

definition rt_event_detach :: "nat \<Rightarrow> kernel \<Rightarrow> (rt_err_t \<times> kernel) option" where
  "rt_event_detach e k =
     do { k1 \<leftarrow> ipc_list_resume_all (EventQ e) k; Some (RT_EOK, k1) }"

definition rt_event_delete :: "nat \<Rightarrow> kernel \<Rightarrow> (rt_err_t \<times> kernel) option" where
  "rt_event_delete e k =
     do {
       rt_assert (not_in_interrupt k);
       k1 \<leftarrow> ipc_list_resume_all (EventQ e) k;
       Some (RT_EOK, k1)
     }"

text \<open>A satisfied waiter is resumed and told so.\<close>

definition event_wake :: "tid \<Rightarrow> kernel \<Rightarrow> kernel" where
  "event_wake t k = set_error t RT_EOK (snd (rt_thread_resume t k))"

text \<open>
  The loop over the waiters: the events to clear, whether to schedule, and the state. A waiter that
  asked for neither AND nor OR ends the whole call at once (\<open>Inl\<close>).
\<close>

fun event_loop :: "nat \<Rightarrow> tid list \<Rightarrow> u32 \<Rightarrow> bool \<Rightarrow> kernel \<Rightarrow> kernel + (u32 \<times> bool \<times> kernel)" where
  "event_loop e [] clr need k = Inr (clr, need, k)"
| "event_loop e (t # ts) clr need k =
     (let evs = ev_set (events k e); info = event_info (threads k t); es = event_set (threads k t) in
      if info AND RT_EVENT_FLAG_AND \<noteq> 0 then
        if es AND evs = es
        then event_loop e ts (if info AND RT_EVENT_FLAG_CLEAR \<noteq> 0 then clr OR es else clr) True
               (event_wake t k)
        else event_loop e ts clr need k
      else if info AND RT_EVENT_FLAG_OR \<noteq> 0 then
        if es AND evs \<noteq> 0
        then let k1 = upd_thread t (\<lambda>th. th\<lparr>event_set := es AND evs\<rparr>) k
             in event_loop e ts (if info AND RT_EVENT_FLAG_CLEAR \<noteq> 0 then clr OR (es AND evs) else clr)
                  True (event_wake t k1)
        else event_loop e ts clr need k
      else Inl k)"

definition rt_event_send :: "nat \<Rightarrow> u32 \<Rightarrow> kernel \<Rightarrow> (rt_err_t \<times> kernel) option" where
  "rt_event_send e evs k =
     (if evs = 0 then Some (- RT_ERROR, k)
      else
        let k1 = upd_event e (\<lambda>ev. ev\<lparr>ev_set := ev_set ev OR evs\<rparr>) k
        in case event_loop e (queues k1 (EventQ e)) 0 False k1 of
             Inl k2 \<Rightarrow> Some (- RT_EINVAL, k2)
           | Inr (clr, need, k2) \<Rightarrow>
               let k3 = (if clr \<noteq> 0 then upd_event e (\<lambda>ev. ev\<lparr>ev_set := ev_set ev AND NOT clr\<rparr>) k2
                         else k2)
               in if need then do { k4 \<leftarrow> rt_schedule k3; Some (RT_EOK, k4) } else Some (RT_EOK, k3))"

text \<open>Are the events there? An option with neither AND nor OR fails an assertion.\<close>

definition event_check :: "u32 \<Rightarrow> u32 \<Rightarrow> u8 \<Rightarrow> bool option" where
  "event_check cur_set evs opt =
     (if opt AND RT_EVENT_FLAG_AND \<noteq> 0 then Some (cur_set AND evs = evs)
      else if opt AND RT_EVENT_FLAG_OR \<noteq> 0 then Some (cur_set AND evs \<noteq> 0)
      else None)"

text \<open>The second component is what is stored through \<open>recved\<close>.\<close>

definition event_recv ::
  "nat \<Rightarrow> u32 \<Rightarrow> u8 \<Rightarrow> int \<Rightarrow> nat \<Rightarrow> kernel \<Rightarrow> (outcome \<times> u32 option \<times> kernel) option" where
  "event_recv e evs opt timeout suspend_flag k =
     do {
       rt_assert (scheduler_available k);
       if evs = 0 then Some (Done (- RT_ERROR), None, k)
       else do {
         t \<leftarrow> rt_thread_self k;
         let k1 = set_error t (- RT_EINTR) k;
         let cur_set = ev_set (events k1 e);
         status \<leftarrow> event_check cur_set evs opt;
         if status then
           let k2 = set_error t RT_EOK k1;
               k3 = upd_thread t (\<lambda>th. th\<lparr>event_set := cur_set AND evs, event_info := opt\<rparr>) k2;
               k4 = (if opt AND RT_EVENT_FLAG_CLEAR \<noteq> 0
                     then upd_event e (\<lambda>ev. ev\<lparr>ev_set := ev_set ev AND NOT evs\<rparr>) k3 else k3)
           in Some (Done (error (threads k4 t)), Some (cur_set AND evs), k4)
         else if timeout = 0 then Some (Done (- RT_ETIMEOUT), None, set_error t (- RT_ETIMEOUT) k1)
         else do {
           let k2 = upd_thread t (\<lambda>th. th\<lparr>event_set := evs, event_info := opt\<rparr>) k1;
           (ret, k3) \<leftarrow> ipc_list_suspend (EventQ e) t (ev_flag (events k2 e)) suspend_flag k2;
           if ret \<noteq> RT_EOK then Some (Done ret, None, k3)
           else do {
             k4 \<leftarrow> arm_if t timeout k3;
             k5 \<leftarrow> rt_schedule k4;
             Some (Waiting, None, k5)
           }
         }
       }
     }"

text \<open>The rest of \<open>_rt_event_recv\<close>, when the thread runs again.\<close>

definition event_recv_resume :: "tid \<Rightarrow> kernel \<Rightarrow> rt_err_t \<times> u32 option" where
  "event_recv_resume t k =
     (if error (threads k t) \<noteq> RT_EOK then (error (threads k t), None)
      else (error (threads k t), Some (event_set (threads k t))))"

definition rt_event_recv where
  "rt_event_recv e evs opt timeout k = event_recv e evs opt timeout RT_UNINTERRUPTIBLE k"

definition rt_event_recv_interruptible where
  "rt_event_recv_interruptible e evs opt timeout k = event_recv e evs opt timeout RT_INTERRUPTIBLE k"

definition rt_event_recv_killable where
  "rt_event_recv_killable e evs opt timeout k = event_recv e evs opt timeout RT_KILLABLE k"

definition rt_event_control :: "nat \<Rightarrow> ipc_cmd \<Rightarrow> kernel \<Rightarrow> (rt_err_t \<times> kernel) option" where
  "rt_event_control e cmd k =
     (case cmd of
        IpcReset _ \<Rightarrow> do {
          k1 \<leftarrow> ipc_list_resume_all (EventQ e) k;
          k2 \<leftarrow> rt_schedule (upd_event e (\<lambda>ev. ev\<lparr>ev_set := 0\<rparr>) k1);
          Some (RT_EOK, k2)
        }
      | IpcOther \<Rightarrow> Some (- RT_ERROR, k))"

lemma upd_event_simps [simp]:
  "events (upd_event e f k) r = (if r = e then f (events k e) else events k r)"
  "threads (upd_event e f k) = threads k" "queues (upd_event e f k) = queues k"
  "ready_group (upd_event e f k) = ready_group k" "cur (upd_event e f k) = cur k"
  "timers (upd_event e f k) = timers k" "timer_lists (upd_event e f k) = timer_lists k"
  "tick (upd_event e f k) = tick k" "lock_nest (upd_event e f k) = lock_nest k"
  "interrupt_nest (upd_event e f k) = interrupt_nest k"
  "runnable (upd_event e f k) t = runnable k t" "suspended (upd_event e f k) t = suspended k t"
  "tstat (upd_event e f k) t = tstat k t"
  by (simp_all add: upd_event_def runnable_def suspended_def tstat_def)

lemma sysinv_upd_event [simp]: "sysinv b (upd_event e f k) = sysinv b k"
  by (rule sysinv_cong) simp_all

section \<open>Waiters\<close>

definition satisfied :: "u32 \<Rightarrow> rt_thread \<Rightarrow> bool" where
  "satisfied v th \<longleftrightarrow>
     (if event_info th AND RT_EVENT_FLAG_AND \<noteq> 0 then event_set th AND v = event_set th
      else event_set th AND v \<noteq> 0)"

text \<open>What a satisfied waiter receives, and what it consumes.\<close>

definition receives :: "u32 \<Rightarrow> rt_thread \<Rightarrow> u32" where
  "receives v th = event_set th AND v"

definition consumes :: "u32 \<Rightarrow> rt_thread \<Rightarrow> u32" where
  "consumes v th = (if event_info th AND RT_EVENT_FLAG_CLEAR \<noteq> 0 then receives v th else 0)"

definition wants :: "rt_thread \<Rightarrow> bool" where
  "wants th \<longleftrightarrow> event_info th AND RT_EVENT_FLAG_AND \<noteq> 0 \<or> event_info th AND RT_EVENT_FLAG_OR \<noteq> 0"

text \<open>Nobody waits for events that are there.\<close>

definition event_wf :: "nat \<Rightarrow> kernel \<Rightarrow> bool" where
  "event_wf e k \<longleftrightarrow> ev_flag (events k e) \<in> {RT_IPC_FLAG_FIFO, RT_IPC_FLAG_PRIO} \<and>
     (\<forall>t \<in> set (queues k (EventQ e)). wants (threads k t) \<and> \<not> satisfied (ev_set (events k e)) (threads k t))"

lemma satisfied_mono: "satisfied (v AND w) th \<Longrightarrow> satisfied v th"
proof -
  have "event_set th AND v = event_set th" if a: "event_set th AND (v AND w) = event_set th"
  proof -
    have "event_set th AND v = (event_set th AND (v AND w)) AND v" by (simp add: a)
    also have "\<dots> = event_set th AND (v AND w)" by (simp add: ac_simps)
    finally show ?thesis by (simp add: a)
  qed
  moreover have "event_set th AND v \<noteq> 0" if "event_set th AND (v AND w) \<noteq> 0"
    using that by (auto simp flip: and.assoc)
  ultimately show "satisfied (v AND w) th \<Longrightarrow> satisfied v th"
    by (auto simp: satisfied_def split: if_splits)
qed

section \<open>Sending\<close>

definition woken_thread :: "u32 \<Rightarrow> rt_thread \<Rightarrow> rt_thread \<Rightarrow> bool" where
  "woken_thread v th th' \<longleftrightarrow> error th' = RT_EOK \<and> event_set th' = receives v th \<and>
     event_info th' = event_info th"

text \<open>The loop as a whole: every satisfied waiter among \<open>ts\<close> awake, the others as they were.\<close>

definition broadcast :: "nat \<Rightarrow> u32 \<Rightarrow> tid list \<Rightarrow> kernel \<Rightarrow> kernel \<Rightarrow> bool" where
  "broadcast e v ts k k' \<longleftrightarrow>
     queues k' (EventQ e) =
       filter (\<lambda>t. \<not> (t \<in> set ts \<and> satisfied v (threads k t))) (queues k (EventQ e)) \<and>
     (\<forall>t \<in> set ts. satisfied v (threads k t) \<longrightarrow>
        runnable k' t \<and> woken_thread v (threads k t) (threads k' t)) \<and>
     (\<forall>t. \<not> (t \<in> set ts \<and> satisfied v (threads k t)) \<longrightarrow> threads k' t = threads k t) \<and>
     (\<forall>g. waitq g \<longrightarrow> g \<noteq> EventQ e \<longrightarrow> queues k' g = queues k g) \<and>
     objects k' = objects k \<and> cur k' = cur k \<and> lock_nest k' = lock_nest k \<and>
     interrupt_nest k' = interrupt_nest k \<and> tick k' = tick k"

definition consumed :: "u32 \<Rightarrow> rt_thread list \<Rightarrow> u32" where
  "consumed v ths = fold (\<lambda>th c. c OR consumes v th) (filter (satisfied v) ths) 0"

lemma fold_or: "fold (\<lambda>th c. c OR f th) ths (c::u32) = c OR fold (\<lambda>th c. c OR f th) ths 0"
proof (induction ths arbitrary: c)
  case (Cons a ths)
  show ?case unfolding fold_simps using Cons[of "c OR f a"] Cons[of "0 OR f a"] by (simp add: or.assoc)
qed simp

lemma consumed_simps [simp]:
  "consumed v [] = 0"
  "consumed v (th # ths) = (if satisfied v th then consumes v th OR consumed v ths else consumed v ths)"
  by (simp_all add: consumed_def fold_or[of _ _ "consumes v th"])

text \<open>One step of the loop for a waiter that is satisfied.\<close>

definition event_woken :: "u32 \<Rightarrow> tid \<Rightarrow> kernel \<Rightarrow> kernel" where
  "event_woken v t k =
     event_wake t (if event_info (threads k t) AND RT_EVENT_FLAG_AND \<noteq> 0 then k
       else upd_thread t (\<lambda>th. th\<lparr>event_set := event_set th AND v\<rparr>) k)"

lemma event_loop_step:
  assumes "wants (threads k t)" "v = ev_set (events k e)"
  shows "event_loop e (t # ts) clr need k =
    (if satisfied v (threads k t)
     then event_loop e ts (clr OR consumes v (threads k t)) True (event_woken v t k)
     else event_loop e ts clr need k)"
  using assms
  by (auto simp: wants_def satisfied_def consumes_def receives_def event_woken_def Let_def upd_thread_def)

lemma event_woken_ok:
  assumes inv: "sysinv b k" and t: "t \<in> set (queues k (EventQ e))" and s: "satisfied v (threads k t)"
  defines "k' \<equiv> event_woken v t k"
  shows "sysinv b k'" "queues k' (EventQ e) = removeAll t (queues k (EventQ e))"
    "runnable k' t" "woken_thread v (threads k t) (threads k' t)"
    "u \<noteq> t \<Longrightarrow> threads k' u = threads k u"
    "waitq g \<Longrightarrow> g \<noteq> EventQ e \<Longrightarrow> queues k' g = queues k g"
    "objects k' = objects k" "cur k' = cur k" "lock_nest k' = lock_nest k"
    "interrupt_nest k' = interrupt_nest k" "tick k' = tick k"
proof -
  define k1 where "k1 = (if event_info (threads k t) AND RT_EVENT_FLAG_AND \<noteq> 0 then k
       else upd_thread t (\<lambda>th. th\<lparr>event_set := event_set th AND v\<rparr>) k)"
  have q: "qinv {} k" and ki: "kinv k" using inv by (auto simp: sysinv_def kinv_def)
  have f1: "sysinv b k1" "queues k1 = queues k" "cur k1 = cur k" "lock_nest k1 = lock_nest k"
    "interrupt_nest k1 = interrupt_nest k" "tick k1 = tick k" "objects k1 = objects k"
    "suspended k1 u = suspended k u" for u
    using inv by (simp_all add: k1_def sysinv_upd_keep tstat_def objects_def)
  have kk: "kinv k1" using f1(1) by (simp add: sysinv_def)
  have t1: "t \<in> set (queues k1 (EventQ e))" using t f1(2) by simp
  have susp: "suspended k1 t"
    using qinvD(8)[OF q _ t] f1(8) by (simp add: waitq_def)
  have k': "k' = set_error t RT_EOK (resumed t k1)"
    using susp by (simp add: k'_def event_woken_def event_wake_def k1_def[symmetric] rt_thread_resume_eq)
  show "sysinv b k'" unfolding k' using resumed_sys[OF f1(1) susp] by simp
  show "queues k' (EventQ e) = removeAll t (queues k (EventQ e))"
    unfolding k' by (simp add: resumed_queues waitq_def f1)
  show "runnable k' t" unfolding k' by (simp add: runnable_def resumed_state)
  have "event_set (threads k1 t) = receives v (threads k t) \<and>
      event_info (threads k1 t) = event_info (threads k t)"
    using s by (auto simp: k1_def satisfied_def receives_def)
  then show "woken_thread v (threads k t) (threads k' t)"
    unfolding k' by (simp add: woken_thread_def)
  have "threads k1 u = threads k u" if "u \<noteq> t" for u using that by (simp add: k1_def)
  then show "u \<noteq> t \<Longrightarrow> threads k' u = threads k u" unfolding k' by simp
  show "queues k' g = queues k g" if "waitq g" "g \<noteq> EventQ e"
    using eventq.other_queue[OF kk t1 that, of "error (threads k1 t)"] f1(2) that
    unfolding k' by (simp add: resumed_queues set_error_def)
  show "objects k' = objects k" "cur k' = cur k" "lock_nest k' = lock_nest k"
    "interrupt_nest k' = interrupt_nest k" "tick k' = tick k"
    unfolding k' using f1 by simp_all
qed

lemma broadcastD:
  assumes "broadcast e v ts k k'"
  shows "queues k' (EventQ e) =
      filter (\<lambda>u. \<not> (u \<in> set ts \<and> satisfied v (threads k u))) (queues k (EventQ e))"
    "u \<in> set ts \<Longrightarrow> satisfied v (threads k u) \<Longrightarrow>
       runnable k' u \<and> woken_thread v (threads k u) (threads k' u)"
    "\<not> (u \<in> set ts \<and> satisfied v (threads k u)) \<Longrightarrow> threads k' u = threads k u"
    "waitq g \<Longrightarrow> g \<noteq> EventQ e \<Longrightarrow> queues k' g = queues k g"
    "objects k' = objects k" "cur k' = cur k" "lock_nest k' = lock_nest k"
    "interrupt_nest k' = interrupt_nest k" "tick k' = tick k"
  using assms by (simp_all add: broadcast_def)

lemma broadcast_skip:
  assumes "broadcast e v ts k k'" "\<not> satisfied v (threads k t)"
  shows "broadcast e v (t # ts) k k'"
proof -
  have "(u \<in> set (t # ts) \<and> satisfied v (threads k u)) = (u \<in> set ts \<and> satisfied v (threads k u))" for u
    using assms(2) by auto
  then show ?thesis using assms unfolding broadcast_def by simp
qed

lemma broadcast_step:
  assumes inv: "sysinv b k" and t: "t \<in> set (queues k (EventQ e))" and s: "satisfied v (threads k t)"
    and br: "broadcast e v ts (event_woken v t k) k'" and nt: "t \<notin> set ts"
  shows "broadcast e v (t # ts) k k'"
proof -
  let ?k1 = "event_woken v t k"
  note W = event_woken_ok[OF inv t s]
  have same: "(u \<in> set ts \<and> satisfied v (threads ?k1 u)) = (u \<in> set ts \<and> satisfied v (threads k u))" for u
    using W(5)[of u] nt by (cases "u = t") auto
  have iff: "(u \<in> set (t # ts) \<and> satisfied v (threads k u)) =
      (u = t \<or> u \<in> set ts \<and> satisfied v (threads ?k1 u))" for u
    using s same by auto
  note B = broadcastD[OF br]
  have own: "threads k' t = threads ?k1 t" using B(3) nt by blast
  show ?thesis
    unfolding broadcast_def
  proof (intro conjI ballI allI impI)
    show "queues k' (EventQ e) =
      filter (\<lambda>t'. \<not> (t' \<in> set (t # ts) \<and> satisfied v (threads k t'))) (queues k (EventQ e))"
      unfolding iff B(1) W(2) removeAll_filter_not_eq by (simp add: filter_filter conj_commute) metis
    show "threads k' u = threads k u" if "\<not> (u \<in> set (t # ts) \<and> satisfied v (threads k u))" for u
      using that W(5)[of u] B(3)[of u] unfolding iff by simp
    show "queues k' g = queues k g" if "waitq g" "g \<noteq> EventQ e" for g
      using B(4)[OF that] W(6)[OF that] by simp
    fix u assume u: "u \<in> set (t # ts)" "satisfied v (threads k u)"
    show "runnable k' u"
      using u W(3) own B(2)[of u] same[of u] by (cases "u = t") (auto simp: runnable_def tstat_def)
    show "woken_thread v (threads k u) (threads k' u)"
      using u W(4) own B(2)[of u] same[of u] W(5)[of u] by (cases "u = t") auto
  qed (simp_all add: B W)
qed

lemma event_loop_ok:
  assumes "sysinv b k" "set ts \<subseteq> set (queues k (EventQ e))" "distinct ts"
    and "\<And>t. t \<in> set ts \<Longrightarrow> wants (threads k t)" "v = ev_set (events k e)"
  shows "\<exists>k'. event_loop e ts clr need k =
      Inr (clr OR consumed v (map (threads k) ts),
           need \<or> (\<exists>t \<in> set ts. satisfied v (threads k t)), k') \<and>
    sysinv b k' \<and> broadcast e v ts k k'"
  using assms
proof (induction ts arbitrary: k clr need)
  case Nil
  then show ?case by (simp add: broadcast_def)
next
  case (Cons t ts)
  have w: "wants (threads k t)" using Cons.prems(4) by simp
  note step = event_loop_step[of k t v e ts clr need, OF w Cons.prems(5)]
  show ?case
  proof (cases "satisfied v (threads k t)")
    case False
    obtain k' where "event_loop e ts clr need k =
        Inr (clr OR consumed v (map (threads k) ts),
           need \<or> (\<exists>t \<in> set ts. satisfied v (threads k t)), k')"
      "sysinv b k'" "broadcast e v ts k k'"
      using Cons.IH[of k clr need] Cons.prems by auto
    then show ?thesis using False broadcast_skip[of e v ts k k' t] by (simp add: step del: event_loop.simps)
  next
    case True
    let ?k1 = "event_woken v t k"
    have t: "t \<in> set (queues k (EventQ e))" "t \<notin> set ts" using Cons.prems(2,3) by auto
    note W = event_woken_ok[OF Cons.prems(1) t(1) True]
    have th: "threads ?k1 u = threads k u" if "u \<in> set ts" for u using W(5)[of u] that t(2) by auto
    have m: "map (threads ?k1) ts = map (threads k) ts" using th by simp
    have sub: "set ts \<subseteq> set (queues ?k1 (EventQ e))" using Cons.prems(2) t(2) W(2) by auto
    have v: "v = ev_set (events ?k1 e)" using Cons.prems(5) objectsD(3)[OF W(7)] by simp
    have w1: "\<And>u. u \<in> set ts \<Longrightarrow> wants (threads ?k1 u)" using th Cons.prems(4) by simp
    have d: "distinct ts" using Cons.prems(3) by simp
    obtain k' where k': "event_loop e ts (clr OR consumes v (threads k t)) True ?k1 =
        Inr (clr OR consumes v (threads k t) OR consumed v (map (threads k) ts), True, k')"
      "sysinv b k'" "broadcast e v ts ?k1 k'"
      using Cons.IH[OF W(1) sub d w1 v, of "clr OR consumes v (threads k t)" True] unfolding m by (auto simp: or.assoc)
    show ?thesis
      using k'(1,2) True broadcast_step[OF Cons.prems(1) t(1) True k'(3) t(2)] by (simp add: step or.assoc del: event_loop.simps)
  qed
qed

lemma stat_only_event:
  "stat_only th th' \<Longrightarrow> satisfied v th' = satisfied v th" "stat_only th th' \<Longrightarrow> wants th' = wants th"
  "stat_only th th' \<Longrightarrow> receives v th' = receives v th"
  by (simp_all add: satisfied_def wants_def receives_def stat_onlyD)

text \<open>What a send does: the satisfied waiters receive their events, those to be consumed are cleared.\<close>

definition event_sent :: "nat \<Rightarrow> u32 \<Rightarrow> kernel \<Rightarrow> kernel \<Rightarrow> bool" where
  "event_sent e evs k k' \<longleftrightarrow>
     (let v = ev_set (events k e) OR evs; ws = queues k (EventQ e) in
      ev_set (events k' e) = v AND NOT (consumed v (map (threads k) ws)) \<and>
      queues k' (EventQ e) = filter (\<lambda>t. \<not> satisfied v (threads k t)) ws \<and>
      (\<forall>t \<in> set ws. satisfied v (threads k t) \<longrightarrow>
         runnable k' t \<and> event_recv_resume t k' = (RT_EOK, Some (receives v (threads k t)))))"

lemma event_send_correct:
  assumes inv: "sysinv b k" and wf: "event_wf e k" and c: "cur k = Some c" and nz: "evs \<noteq> 0"
  shows "ok (rt_event_send e evs k)
    (\<lambda>(err, k'). err = RT_EOK \<and> sysinv b k' \<and> event_wf e k' \<and> event_sent e evs k k')"
proof -
  define v where "v = ev_set (events k e) OR evs"
  define ws where "ws = queues k (EventQ e)"
  define k1 where "k1 = upd_event e (\<lambda>ev. ev\<lparr>ev_set := ev_set ev OR evs\<rparr>) k"
  define clr where "clr = consumed v (map (threads k) ws)"
  have f1: "threads k1 = threads k" "queues k1 = queues k" "cur k1 = Some c" "sysinv b k1"
    "ev_set (events k1 e) = v" "ev_flag (events k1 e) = ev_flag (events k e)"
    using inv c by (simp_all add: k1_def v_def)
  have d: "distinct ws" using inv qinvD(1)[of "{}" k] by (simp add: sysinv_def kinv_def ws_def)
  have w: "\<And>t. t \<in> set ws \<Longrightarrow> wants (threads k t)" using wf by (auto simp: event_wf_def ws_def)
  obtain k2 where k2: "event_loop e ws 0 False k1 =
      Inr (clr, (\<exists>t \<in> set ws. satisfied v (threads k t)), k2)" "sysinv b k2" "broadcast e v ws k1 k2"
    using event_loop_ok[OF f1(4) _ d, of e v 0 False] w f1(5) unfolding f1 clr_def ws_def by auto
  define k3 where "k3 = (if clr \<noteq> 0 then upd_event e (\<lambda>ev. ev\<lparr>ev_set := ev_set ev AND NOT clr\<rparr>) k2 else k2)"
  note B = broadcastD[OF k2(3), unfolded f1(1-3)]
  have q2: "queues k2 (EventQ e) = filter (\<lambda>t. \<not> satisfied v (threads k t)) ws"
    unfolding B(1) ws_def[symmetric] by (rule filter_cong) simp_all
  have o2: "events k2 = events k1" by (rule objectsD(3)[OF B(5)])
  have e3: "ev_set (events k3 e) = v AND NOT clr" "ev_flag (events k3 e) = ev_flag (events k e)"
    "sysinv b k3" "cur k3 = Some c" "queues k3 = queues k2" "threads k3 = threads k2"
    using k2(2) B(6) f1(5,6) o2 by (simp_all add: k3_def)
  have fin: "event_wf e k' \<and> event_sent e evs k k'" if sf: "sched_frame k3 k'" for k'
  proof -
    note F = sched_frameD[OF sf]
    have q': "queues k' (EventQ e) = filter (\<lambda>t. \<not> satisfied v (threads k t)) ws"
      using F(20)[of "EventQ e"] q2 e3(5) by (simp add: waitq_def)
    have s': "stat_only (threads k2 t) (threads k' t)" for t
      using sched_frame_stat[OF sf, of t] e3(6) by simp
    have ev': "events k' = events k3" by (rule F(9))
    have rest: "\<not> satisfied (v AND NOT clr) (threads k' t) \<and> wants (threads k' t)"
      if "t \<in> set (queues k' (EventQ e))" for t
    proof -
      have t: "t \<in> set ws" "\<not> satisfied v (threads k t)" using that q' by auto
      have "threads k2 t = threads k t" using B(3)[of t] t(2) by simp
      then show ?thesis
        using stat_only_event(1,2)[OF s'[of t]] t(2) w[OF t(1)] satisfied_mono by metis
    qed
    have woken: "runnable k' t \<and> event_recv_resume t k' = (RT_EOK, Some (receives v (threads k t)))"
      if "t \<in> set ws" "satisfied v (threads k t)" for t
    proof -
      have "runnable k2 t" "woken_thread v (threads k t) (threads k2 t)"
        using B(2)[of t] that unfolding ws_def by blast+
      moreover have "runnable k3 t = runnable k2 t" by (simp add: k3_def)
      ultimately show ?thesis
        using F(19)[of t] stat_onlyD(1,7)[OF s'[of t]]
        by (simp add: event_recv_resume_def woken_thread_def)
    qed
    show ?thesis
      using rest woken wf e3(1,2) q'
      unfolding event_wf_def event_sent_def Let_def v_def[symmetric] ws_def[symmetric] clr_def[symmetric] ev'
      by simp
  qed
  have code: "rt_event_send e evs k =
      (if \<exists>t \<in> set ws. satisfied v (threads k t)
       then do { k4 \<leftarrow> rt_schedule k3; Some (RT_EOK, k4) } else Some (RT_EOK, k3))"
    using nz k2(1) f1(2) by (simp add: rt_event_send_def k1_def[symmetric] k3_def Let_def ws_def)
  show ?thesis
  proof (cases "\<exists>t \<in> set ws. satisfied v (threads k t)")
    case True
    obtain k' where "rt_schedule k3 = Some k'" "sysinv b k'" "sched_frame k3 k'"
      using rt_schedule_sys[OF e3(3,4)] by (auto simp: ok_iff)
    then show ?thesis using True fin[of k'] by (simp add: code)
  next
    case False
    then show ?thesis using e3(3) fin[of k3] by (simp add: code)
  qed
qed

section \<open>Receiving\<close>

lemma running_not_queued: "runs b t k \<Longrightarrow> t \<notin> set (queues k q)"
  using running_unlinked[of "{}" k t] by (simp add: runs_def sysinv_def kinv_def unlinked_def)

lemma runs_event_fields:
  assumes "runs b t k"
  shows "runs b t (upd_thread t (\<lambda>th. th\<lparr>event_set := s, event_info := i\<rparr>) k)"
  using assms by (simp add: runs_def sysinv_upd_keep tstat_def)

text \<open>The request of a receiver, as the waiter it would be.\<close>

definition request :: "u32 \<Rightarrow> u8 \<Rightarrow> rt_thread \<Rightarrow> rt_thread" where
  "request evs opt th = th\<lparr>event_set := evs, event_info := opt\<rparr>"

definition event_received ::
  "nat \<Rightarrow> u32 \<Rightarrow> u8 \<Rightarrow> int \<Rightarrow> tid \<Rightarrow> kernel \<Rightarrow> outcome \<times> u32 option \<times> kernel \<Rightarrow> bool" where
  "event_received e evs opt timeout t k = (\<lambda>(r, recved, k').
     let v = ev_set (events k e); rq = request evs opt (threads k t) in
     if satisfied v rq
     then r = Done RT_EOK \<and> recved = Some (receives v rq) \<and> cur k' = cur k \<and>
       ev_set (events k' e) = v AND NOT (consumes v rq) \<and> queues k' = queues k
     else if timeout = 0
     then r = Done (- RT_ETIMEOUT) \<and> recved = None \<and> events k' = events k \<and> queues k' = queues k
     else r = Waiting \<and> suspended k' t \<and> events k' = events k \<and>
       error (threads k' t) = - RT_EINTR \<and>
       event_set (threads k' t) = evs \<and> event_info (threads k' t) = opt \<and>
       queues k' (EventQ e) = wait_insert (ev_flag (events k e))
         (\<lambda>u. current_priority (threads k u)) t (queues k (EventQ e)) \<and>
       (timeout > 0 \<longrightarrow> timeout_tick (timers k' (ThreadTimer t)) = tick k + of_int timeout))"

lemma consume_request:
  "(v :: u32) AND NOT evs = v AND NOT (evs AND v)"
  by (simp add: bit.conj_disj_distrib)

lemma event_wf_clear:
  assumes "event_wf e k" "queues k' = queues k" "ev_flag (events k' e) = ev_flag (events k e)"
    and "ev_set (events k' e) = ev_set (events k e) AND w"
    and "\<And>u. u \<in> set (queues k (EventQ e)) \<Longrightarrow> threads k' u = threads k u"
  shows "event_wf e k'"
  using assms satisfied_mono unfolding event_wf_def by metis

lemma event_recv_correct:
  assumes run: "runs b t k" and wf: "event_wf e k" and av: "scheduler_available k"
    and nz: "evs \<noteq> 0" and opt: "opt AND RT_EVENT_FLAG_AND \<noteq> 0 \<or> opt AND RT_EVENT_FLAG_OR \<noteq> 0"
    and to: "timeout < 2 ^ 31 - 1" and sf: "sflag \<le> RT_UNINTERRUPTIBLE"
  shows "ok (event_recv e evs opt timeout sflag k)
    (\<lambda>(r, recved, k'). sysinv b k' \<and> event_wf e k' \<and> event_received e evs opt timeout t k (r, recved, k'))"
proof -
  define v where "v = ev_set (events k e)"
  define rq where "rq = request evs opt (threads k t)"
  have c: "rt_thread_self k = Some t" "sysinv b k" using run by (simp_all add: rt_thread_self_def runs_def)
  have status: "event_check v evs opt = Some (satisfied v rq)"
    using opt by (auto simp: event_check_def satisfied_def rq_def request_def and.commute)
  have nt: "t \<notin> set (queues k (EventQ e))" by (rule running_not_queued[OF run])
  consider (have_it) "satisfied v rq" | (miss) "\<not> satisfied v rq" "timeout = 0"
    | (wait) "\<not> satisfied v rq" "timeout \<noteq> 0" by blast
  then show ?thesis
  proof cases
    case have_it
    define k3 where "k3 = upd_thread t (\<lambda>th. th\<lparr>event_set := v AND evs, event_info := opt\<rparr>)
      (set_error t RT_EOK (set_error t (- RT_EINTR) k))"
    define k4 where "k4 = (if opt AND RT_EVENT_FLAG_CLEAR \<noteq> 0
      then upd_event e (\<lambda>ev. ev\<lparr>ev_set := ev_set ev AND NOT evs\<rparr>) k3 else k3)"
    have r3: "runs b t k3" unfolding k3_def by (rule runs_event_fields) (simp add: run)
    have f4: "sysinv b k4" "queues k4 = queues k" "cur k4 = cur k" "error (threads k4 t) = RT_EOK"
      "ev_flag (events k4 e) = ev_flag (events k e)"
      "ev_set (events k4 e) = v AND (if opt AND RT_EVENT_FLAG_CLEAR \<noteq> 0 then NOT evs else - 1)"
      using r3 by (simp_all add: k4_def k3_def runs_def v_def)
    have th: "threads k4 u = threads k u" if "u \<in> set (queues k (EventQ e))" for u
      using nt that by (auto simp: k4_def k3_def)
    have "event_recv e evs opt timeout sflag k = Some (Done RT_EOK, Some (v AND evs), k4)"
      using have_it status nz av c(1) f4(4) unfolding k4_def k3_def
      by (simp add: event_recv_def v_def[symmetric] Let_def split del: if_split)
    moreover have "event_wf e k4"
      by (rule event_wf_clear[OF wf f4(2,5) f4(6)[unfolded v_def] th])
    moreover have "ev_set (events k4 e) = v AND NOT (consumes v rq)"
      unfolding f4(6) using consume_request[of v evs]
      by (simp add: consumes_def receives_def rq_def request_def)
    then have "event_received e evs opt timeout t k (Done RT_EOK, Some (v AND evs), k4)"
      using have_it f4 unfolding event_received_def Let_def v_def[symmetric] rq_def[symmetric]
      by (simp add: receives_def rq_def request_def and.commute)
    ultimately show ?thesis using f4(1) by simp
  next
    case miss
    define k2 where "k2 = set_error t (- RT_ETIMEOUT) (set_error t (- RT_EINTR) k)"
    have f: "sysinv b k2" "queues k2 = queues k" "events k2 = events k" using c by (simp_all add: k2_def)
    have th: "threads k2 u = threads k u" if "u \<in> set (queues k (EventQ e))" for u
      using nt that by (auto simp: k2_def)
    have "event_recv e evs opt timeout sflag k = Some (Done (- RT_ETIMEOUT), None, k2)"
      using miss status nz av c(1)
      by (simp add: event_recv_def v_def[symmetric] k2_def[symmetric] Let_def)
    moreover have "event_wf e k2" using wf th by (simp add: event_wf_def f)
    moreover have "event_received e evs opt timeout t k (Done (- RT_ETIMEOUT), None, k2)"
      using miss f unfolding event_received_def Let_def v_def[symmetric] rq_def[symmetric] by simp
    ultimately show ?thesis using f(1) by simp
  next
    case wait
    define k2 where "k2 = upd_thread t (\<lambda>th. th\<lparr>event_set := evs, event_info := opt\<rparr>)
      (set_error t (- RT_EINTR) k)"
    have r2: "runs b t k2" unfolding k2_def by (rule runs_event_fields) (simp add: run)
    have fl: "ev_flag (events k e) \<in> {RT_IPC_FLAG_FIFO, RT_IPC_FLAG_PRIO}" using wf by (simp add: event_wf_def)
    obtain k3 k4 k' where k': "ipc_list_suspend (EventQ e) t (ev_flag (events k e)) sflag k2 = Some (RT_EOK, k3)"
      "arm_if t timeout k3 = Some k4" "rt_schedule k4 = Some k'" "sysinv b k'"
      "waits_on (EventQ e) (ev_flag (events k e)) t timeout k2 k'"
      by (rule eventq.wait_path[OF r2 fl sf to])
    note W = waits_onD[OF k'(5)]
    have pr: "(\<lambda>u. current_priority (threads k2 u)) = (\<lambda>u. current_priority (threads k u))"
      by (rule ext) (simp add: k2_def)
    have q: "queues k' (EventQ e) = wait_insert (ev_flag (events k e))
         (\<lambda>u. current_priority (threads k u)) t (queues k (EventQ e))"
      using W(3) unfolding pr by (simp add: k2_def)
    have ev: "events k' = events k" using objectsD(3)[OF W(7)] by (simp add: k2_def)
    have own: "error (threads k' t) = - RT_EINTR" "event_set (threads k' t) = evs"
      "event_info (threads k' t) = opt"
      using stat_onlyD[OF W(5)[of t]] by (simp_all add: k2_def)
    have "satisfied v (threads k' t) = satisfied v rq" "wants (threads k' t)"
      using own opt by (simp_all add: satisfied_def rq_def request_def wants_def)
    moreover have "satisfied v (threads k' u) = satisfied v (threads k u)"
      "wants (threads k' u) = wants (threads k u)" if "u \<noteq> t" for u
      using stat_only_event(1,2)[OF W(5)[of u]] that by (simp_all add: k2_def)
    ultimately have "event_wf e k'"
      using wf wait(1) unfolding event_wf_def ev q v_def[symmetric] set_wait_insert
      by (auto split: if_splits) metis+
    moreover have "event_recv e evs opt timeout sflag k = Some (Waiting, None, k')"
      using wait status nz av c(1) k'(1-3)
      by (simp add: event_recv_def v_def[symmetric] k2_def[symmetric] Let_def)
    moreover have "event_received e evs opt timeout t k (Waiting, None, k')"
      using wait W(1) W(11) own ev q unfolding event_received_def Let_def v_def[symmetric] rq_def[symmetric]
      by (simp add: k2_def)
    ultimately show ?thesis using k'(4) by simp
  qed
qed

section \<open>Properties\<close>

text \<open>C6: A send wakes exactly the waiters its events satisfy, hands each what it asked for and got,
  and then clears what the clearing ones consumed; afterwards nobody waits for events that are there.\<close>
theorem event_send_wakes:
  assumes "sysinv b k" "event_wf e k" "cur k = Some c" "evs \<noteq> 0"
  shows "ok (rt_event_send e evs k)
    (\<lambda>(err, k'). err = RT_EOK \<and> sysinv b k' \<and> event_wf e k' \<and> event_sent e evs k k')"
  by (rule event_send_correct[OF assms])

text \<open>Thread 2 waits for event 1 or 4 (to be cleared), thread 3 for both 1 and 2.\<close>

definition example_events :: kernel where
  "example_events = example_kernel\<lparr>
     threads := (threads example_kernel)
       (2 := (example_thread 7 10)\<lparr>event_set := 5, event_info := 6\<rparr>,
        3 := (example_thread 7 10)\<lparr>event_set := 3, event_info := 1\<rparr>),
     queues := (queues example_kernel)(Ready 10 := [], EventQ 0 := [2, 3]),
     ready_group := 2 ^ 5\<rparr>"

lemma example_events_simps:
  "tstat example_events t = (if t = 0 then 3 else if t = 1 then 2 else if t \<in> {2, 3, 4} then 7 else 0)"
  "prio example_events t = prio example_kernel t"
  "queues example_events q = (if q = Ready 5 then [1] else if q = SemQ 0 then [4]
     else if q = EventQ 0 then [2, 3] else [])"
  "number_mask (threads example_events t) = number_mask (threads example_kernel t)"
  "cur example_events = Some 0" "events example_events e = \<lparr>ev_set = 0, ev_flag = 0\<rparr>"
  by (simp_all add: tstat_def prio_def example_events_def example_kernel_def example_thread_def)

lemma example_events_sysinv: "sysinv 100 example_events"
proof -
  have g: "bit (ready_group example_events) p \<longleftrightarrow> p = 5" for p
    by (simp add: example_events_def bit_exp_iff del: power_numeral) auto
  have "qinv {} example_events"
    by (rule qinvI)
      (auto simp: example_events_simps example_prio example_mask g suspended_tstat waitq_def split: if_splits)
  moreover have "cinv example_events" unfolding cinv_def example_events_simps by simp
  moreover have "tinv 100 example_events"
    by (rule tinv_threads[of _ example_kernel])
      (use example_sysinv in \<open>simp_all add: sysinv_def example_events_def example_kernel_def activated_def\<close>)
  ultimately show ?thesis by (simp add: sysinv_def kinv_def)
qed

lemma example_events_wf: "event_wf 0 example_events"
  by (simp add: event_wf_def example_events_simps wants_def satisfied_def)
    (simp add: example_events_def example_thread_def)

theorem event_send_wakes_witness:
  "ok (rt_event_send 0 1 example_events)
    (\<lambda>(err, k'). err = RT_EOK \<and> sysinv 100 k' \<and> event_wf 0 k' \<and> event_sent 0 1 example_events k')"
  by (rule event_send_wakes[OF example_events_sysinv example_events_wf]) (simp_all add: example_events_simps)

text \<open>C7: A receive whose events are there returns them at once and clears them if asked to; otherwise
  it returns \<open>-RT_ETIMEOUT\<close> when it may not wait, and else joins the waiters with its request recorded.\<close>
theorem event_recv_refines:
  assumes "runs b t k" "event_wf e k" "scheduler_available k" "evs \<noteq> 0" "timeout < 2 ^ 31 - 1"
    and "opt AND RT_EVENT_FLAG_AND \<noteq> 0 \<or> opt AND RT_EVENT_FLAG_OR \<noteq> 0"
  shows "ok (rt_event_recv e evs opt timeout k)
    (\<lambda>(r, recved, k'). sysinv b k' \<and> event_wf e k' \<and>
       event_received e evs opt timeout t k (r, recved, k'))"
  unfolding rt_event_recv_def by (rule event_recv_correct) (use assms in simp_all)

theorem event_recv_refines_witness:
  "ok (rt_event_recv 0 3 2 20 example_events)
    (\<lambda>(r, recved, k'). sysinv 100 k' \<and> event_wf 0 k' \<and>
       event_received 0 3 2 20 0 example_events (r, recved, k'))"
proof (rule event_recv_refines)
  show "runs 100 0 example_events"
    using example_events_sysinv by (simp add: runs_def example_events_simps)
  show "scheduler_available example_events"
    using example_available
    by (simp add: scheduler_available_def in_thread_context_def not_in_interrupt_def
        rt_interrupt_get_nest_def rt_critical_level_def rt_thread_self_def example_events_def)
qed (simp_all add: example_events_wf)

end
