(* ===== verification/Fifo.thy ===== *)
theory Fifo
  imports Prelude
begin

text \<open>
  The contract of a bounded queue of messages, which mailboxes, message queues and data queues provide:
  \<open>items\<close> is the sequence held, \<open>put\<close> adds at the end, \<open>get\<close> takes from the front, and in the extension
  \<open>urgent\<close> adds at the front.
\<close>

locale bounded_queue =
  fixes wf :: "'q \<Rightarrow> bool" and items :: "'q \<Rightarrow> 'a list" and cap :: "'q \<Rightarrow> nat"
    and fits :: "'q \<Rightarrow> 'a \<Rightarrow> bool"
    and put :: "'a \<Rightarrow> 'q \<Rightarrow> 'q" and get :: "'q \<Rightarrow> 'a \<times> 'q"
  assumes put_wf: "wf q \<Longrightarrow> fits q x \<Longrightarrow> length (items q) < cap q \<Longrightarrow> wf (put x q)"
    and put_items: "wf q \<Longrightarrow> fits q x \<Longrightarrow> length (items q) < cap q \<Longrightarrow> items (put x q) = items q @ [x]"
    and get_wf: "wf q \<Longrightarrow> items q = x # xs \<Longrightarrow> wf (snd (get q))"
    and get_items: "wf q \<Longrightarrow> items q = x # xs \<Longrightarrow> items (snd (get q)) = xs"
    and get_value: "wf q \<Longrightarrow> items q = x # xs \<Longrightarrow> fst (get q) = x"
    and cap_put: "cap (put x q) = cap q"
    and cap_get: "cap (snd (get q)) = cap q"
    and fits_put: "fits (put x q) y = fits q y"
    and bound: "wf q \<Longrightarrow> length (items q) \<le> cap q"
begin

text \<open>Taking \<open>n\<close> messages.\<close>

primrec take_n :: "nat \<Rightarrow> 'q \<Rightarrow> 'a list \<times> 'q" where
  "take_n 0 q = ([], q)"
| "take_n (Suc n) q = (let (x, q1) = get q; (xs, q2) = take_n n q1 in (x # xs, q2))"

lemma put_all:
  "wf q \<Longrightarrow> (\<forall>x \<in> set xs. fits q x) \<Longrightarrow> length (items q) + length xs \<le> cap q \<Longrightarrow>
   wf (fold put xs q) \<and> items (fold put xs q) = items q @ xs \<and> cap (fold put xs q) = cap q"
  by (induction xs arbitrary: q) (simp_all add: put_wf put_items cap_put fits_put)

lemma take_all:
  "wf q \<Longrightarrow> n \<le> length (items q) \<Longrightarrow>
   fst (take_n n q) = take n (items q) \<and> wf (snd (take_n n q)) \<and>
   items (snd (take_n n q)) = drop n (items q)"
proof (induction n arbitrary: q)
  case (Suc n)
  then obtain x xs where q: "items q = x # xs" by (cases "items q") auto
  have g: "get q = (x, snd (get q))" using get_value[OF Suc.prems(1) q] by (metis prod.collapse)
  note h = get_wf[OF Suc.prems(1) q] get_items[OF Suc.prems(1) q]
  from Suc.IH[OF h(1)] Suc.prems(2) q h show ?case
    by (subst (1 2 3) take_n.simps, subst (1 2 3) g) (simp add: Let_def case_prod_beta)
qed simp

text \<open>Messages come out in the order in which they went in.\<close>

lemma first_in_first_out:
  assumes "wf q" "items q = []" "length xs \<le> cap q" "\<forall>x \<in> set xs. fits q x"
  shows "fst (take_n (length xs) (fold put xs q)) = xs"
  using put_all[of q xs] take_all[of "fold put xs q" "length xs"] assms by simp

end

text \<open>The queue whose users may also put a message in front of all others.\<close>

locale bounded_fifo = bounded_queue wf items cap fits put get
  for wf :: "'q \<Rightarrow> bool" and items :: "'q \<Rightarrow> 'a list" and cap :: "'q \<Rightarrow> nat"
    and fits :: "'q \<Rightarrow> 'a \<Rightarrow> bool"
    and put :: "'a \<Rightarrow> 'q \<Rightarrow> 'q" and get :: "'q \<Rightarrow> 'a \<times> 'q" +
  fixes urgent :: "'a \<Rightarrow> 'q \<Rightarrow> 'q"
  assumes urgent_wf: "wf q \<Longrightarrow> fits q x \<Longrightarrow> length (items q) < cap q \<Longrightarrow> wf (urgent x q)"
    and urgent_items: "wf q \<Longrightarrow> fits q x \<Longrightarrow> length (items q) < cap q \<Longrightarrow> items (urgent x q) = x # items q"
    and cap_urgent: "cap (urgent x q) = cap q"
begin

lemma urgent_first:
  assumes "wf q" "fits q x" "length (items q) < cap q"
  shows "fst (get (urgent x q)) = x" "items (snd (get (urgent x q))) = items q"
  using urgent_wf[OF assms] urgent_items[OF assms] get_items[of "urgent x q"] get_value[of "urgent x q"]
  by simp_all

end

text \<open>
  The contract of a bounded buffer of bytes: a put accepts as many bytes as there is room for, a get
  delivers as many as asked for and there.
\<close>

datatype 'a stream_op = PutAll "'a list" | GetUpTo nat

locale byte_buffer =
  fixes wf :: "'q \<Rightarrow> bool" and bytes :: "'q \<Rightarrow> 'a list" and cap :: "'q \<Rightarrow> nat"
    and put :: "'a list \<Rightarrow> nat \<Rightarrow> 'q \<Rightarrow> (nat \<times> 'q) option" and get :: "nat \<Rightarrow> 'q \<Rightarrow> ('a list \<times> 'q) option"
  assumes put_law: "wf q \<Longrightarrow> n \<le> length xs \<Longrightarrow> ok (put xs n q) (\<lambda>(r, q'). wf q' \<and> cap q' = cap q \<and>
      r = min n (cap q - length (bytes q)) \<and> bytes q' = bytes q @ take r xs)"
    and get_law: "wf q \<Longrightarrow> ok (get n q) (\<lambda>(xs, q'). wf q' \<and> cap q' = cap q \<and>
      xs = take n (bytes q) \<and> bytes q' = drop n (bytes q))"
    and within: "wf q \<Longrightarrow> length (bytes q) \<le> cap q"
begin

text \<open>A run of puts and gets: the bytes accepted, the bytes delivered, the buffer after.\<close>

primrec run :: "'a stream_op list \<Rightarrow> 'q \<Rightarrow> ('a list \<times> 'a list \<times> 'q) option" where
  "run [] q = Some ([], [], q)"
| "run (x # xs) q =
     (case x of
        PutAll ys \<Rightarrow> do {
          (r, q1) \<leftarrow> put ys (length ys) q;
          (a, d, q2) \<leftarrow> run xs q1;
          Some (take r ys @ a, d, q2)
        }
      | GetUpTo n \<Rightarrow> do {
          (ys, q1) \<leftarrow> get n q;
          (a, d, q2) \<leftarrow> run xs q1;
          Some (a, ys @ d, q2)
        })"

text \<open>Nothing is lost, doubled or reordered.\<close>

lemma stream:
  "wf q \<Longrightarrow> ok (run xs q) (\<lambda>(a, d, q'). wf q' \<and> cap q' = cap q \<and> bytes q @ a = d @ bytes q')"
proof (induction xs arbitrary: q)
  case (Cons x xs)
  show ?case
  proof (cases x)
    case (PutAll ys)
    obtain r q1 where p: "put ys (length ys) q = Some (r, q1)" "wf q1 \<and> cap q1 = cap q \<and>
        r = min (length ys) (cap q - length (bytes q)) \<and> bytes q1 = bytes q @ take r ys"
      using put_law[OF Cons.prems, of "length ys" ys] by (rule ok_pairE) simp_all
    then have "wf q1" by simp
    from Cons.IH[OF this] show ?thesis using PutAll p by (auto simp: ok_iff)
  next
    case (GetUpTo n)
    obtain ys q1 where g: "get n q = Some (ys, q1)" "wf q1 \<and> cap q1 = cap q \<and>
        ys = take n (bytes q) \<and> bytes q1 = drop n (bytes q)"
      using get_law[OF Cons.prems, of n] by (rule ok_pairE)
    then have w: "wf q1" "bytes q = ys @ bytes q1" by simp_all
    have c: "cap q1 = cap q" using g(2) by simp
    obtain a d q2 where r: "run xs q1 = Some (a, d, q2)" "wf q2" "cap q2 = cap q1" "bytes q1 @ a = d @ bytes q2"
      using Cons.IH[OF w(1)] by (auto simp: ok_iff)
    show ?thesis using GetUpTo g(1) r c unfolding w(2) by simp
  qed
qed simp

lemma stream_from_empty:
  assumes "wf q" "bytes q = []"
  shows "ok (run xs q) (\<lambda>(a, d, q'). wf q' \<and> a = d @ bytes q' \<and> length (bytes q') \<le> cap q)"
proof -
  obtain a d q' where "run xs q = Some (a, d, q')" "wf q'" "cap q' = cap q" "bytes q @ a = d @ bytes q'"
    using stream[OF assms(1), of xs] by (auto simp: ok_iff)
  then show ?thesis using within[of q'] assms(2) by simp
qed

end

end
