(* ===== verification/Mailbox.thy ===== *)
theory Mailbox
  imports IpcList Fifo
begin

text \<open>
  Mailboxes (\<open>src/ipc.c\<close>, \<open>rt_mb_*\<close>): a ring of 32-bit messages with threads waiting for a message on
  one queue and threads waiting for room on another.
\<close>

section \<open>The ring\<close>

abbreviation RT_MB_ENTRY_MAX :: u16 where "RT_MB_ENTRY_MAX \<equiv> 0xffff"

text \<open>Storing at the input offset, at the position before the output offset, and fetching.\<close>

definition mb_put :: "u32 \<Rightarrow> rt_mailbox \<Rightarrow> rt_mailbox" where
  "mb_put v mb =
     (let i = in_offset mb + 1 in
      mb\<lparr>msg_pool := (msg_pool mb)[unat (in_offset mb) := v],
         in_offset := (if i \<ge> mb_size mb then 0 else i)\<rparr>)"

definition mb_put_urgent :: "u32 \<Rightarrow> rt_mailbox \<Rightarrow> rt_mailbox" where
  "mb_put_urgent v mb =
     (let i = (if out_offset mb > 0 then out_offset mb - 1 else mb_size mb - 1) in
      mb\<lparr>out_offset := i, msg_pool := (msg_pool mb)[unat i := v], mb_entry := mb_entry mb + 1\<rparr>)"

definition mb_fetch :: "rt_mailbox \<Rightarrow> u32 \<times> rt_mailbox" where
  "mb_fetch mb =
     (let i = out_offset mb + 1 in
      (msg_pool mb ! unat (out_offset mb),
       mb\<lparr>out_offset := (if i \<ge> mb_size mb then 0 else i),
          mb_entry := (if mb_entry mb > 0 then mb_entry mb - 1 else mb_entry mb)\<rparr>))"

section \<open>Operations\<close>

definition upd_mb :: "nat \<Rightarrow> (rt_mailbox \<Rightarrow> rt_mailbox) \<Rightarrow> kernel \<Rightarrow> kernel" where
  "upd_mb m f k = k\<lparr>mailboxes := (mailboxes k)(m := f (mailboxes k m))\<rparr>"

definition mb_reset :: "u32 list \<Rightarrow> u16 \<Rightarrow> u8 \<Rightarrow> rt_mailbox" where
  "mb_reset pool sz flag =
     \<lparr>msg_pool = pool, mb_size = sz, mb_entry = 0, in_offset = 0, out_offset = 0, mb_flag = flag\<rparr>"

text \<open>\<open>pool\<close> is what the memory given to the mailbox holds at first.\<close>

definition rt_mb_init ::
  "nat \<Rightarrow> u32 list \<Rightarrow> u32 \<Rightarrow> u8 \<Rightarrow> kernel \<Rightarrow> (rt_err_t \<times> kernel) option" where
  "rt_mb_init m pool sz flag k =
     do {
       rt_assert (flag = RT_IPC_FLAG_FIFO \<or> flag = RT_IPC_FLAG_PRIO);
       let k1 = ipc_object_init (MbQ m) k;
       let k2 = upd_mb m (\<lambda>_. mb_reset pool (ucast sz) flag) k1;
       Some (RT_EOK, ipc_object_init (MbSendQ m) k2)
     }"

text \<open>\<open>object\<close> and \<open>memory\<close> are the results of the two allocations.\<close>

definition rt_mb_create ::
  "nat option \<Rightarrow> (nat \<Rightarrow> u32 list option) \<Rightarrow> u32 \<Rightarrow> u8 \<Rightarrow> kernel \<Rightarrow> (nat option \<times> kernel) option" where
  "rt_mb_create object memory sz flag k =
     do {
       rt_assert (flag = RT_IPC_FLAG_FIFO \<or> flag = RT_IPC_FLAG_PRIO);
       rt_assert (not_in_interrupt k);
       case object of
         None \<Rightarrow> Some (None, k)
       | Some m \<Rightarrow>
           let k1 = ipc_object_init (MbQ m) k
           in case memory (unat (ucast sz :: u16) * 4) of
                None \<Rightarrow> Some (None, k1)
              | Some pool \<Rightarrow>
                  let k2 = upd_mb m (\<lambda>_. mb_reset pool (ucast sz) flag) k1
                  in Some (Some m, ipc_object_init (MbSendQ m) k2)
     }"

definition rt_mb_detach :: "nat \<Rightarrow> kernel \<Rightarrow> (rt_err_t \<times> kernel) option" where
  "rt_mb_detach m k =
     do {
       k1 \<leftarrow> ipc_list_resume_all (MbQ m) k;
       k2 \<leftarrow> ipc_list_resume_all (MbSendQ m) k1;
       Some (RT_EOK, k2)
     }"

definition rt_mb_delete :: "nat \<Rightarrow> kernel \<Rightarrow> (rt_err_t \<times> kernel) option" where
  "rt_mb_delete m k =
     do {
       rt_assert (not_in_interrupt k);
       k1 \<leftarrow> ipc_list_resume_all (MbQ m) k;
       k2 \<leftarrow> ipc_list_resume_all (MbSendQ m) k1;
       Some (RT_EOK, k2)
     }"

text \<open>The waiting loop, from its test on, and what follows it.\<close>

definition mb_send_loop :: "nat \<Rightarrow> u32 \<Rightarrow> int \<Rightarrow> nat \<Rightarrow> kernel \<Rightarrow> (outcome \<times> kernel) option" where
  "mb_send_loop m v timeout suspend_flag k =
     (let mb = mailboxes k m in
      if mb_entry mb = mb_size mb then do {
        t \<leftarrow> rt_thread_self k;
        let k1 = set_error t (- RT_EINTR) k;
        if timeout = 0 then Some (Done (- RT_EFULL), k1)
        else wait_pass (MbSendQ m) t (mb_flag mb) timeout suspend_flag k1
      }
      else
        let k1 = upd_mb m (mb_put v) k
        in if mb_entry mb < RT_MB_ENTRY_MAX then do {
             k2 \<leftarrow> wake_first (MbQ m) (upd_mb m (\<lambda>mb. mb\<lparr>mb_entry := mb_entry mb + 1\<rparr>) k1);
             Some (Done RT_EOK, k2)
           }
           else Some (Done (- RT_EFULL), k1))"

definition mb_send_wait :: "nat \<Rightarrow> u32 \<Rightarrow> int \<Rightarrow> nat \<Rightarrow> kernel \<Rightarrow> (outcome \<times> kernel) option" where
  "mb_send_wait m v timeout suspend_flag k =
     do {
       rt_assert (timeout \<noteq> 0 \<longrightarrow> scheduler_available k);
       if mb_entry (mailboxes k m) = mb_size (mailboxes k m) \<and> timeout = 0
       then Some (Done (- RT_EFULL), k)
       else mb_send_loop m v timeout suspend_flag k
     }"

text \<open>The thread \<open>t\<close> runs again after it has waited since tick \<open>before\<close>.\<close>

definition mb_send_resume ::
  "tid \<Rightarrow> nat \<Rightarrow> u32 \<Rightarrow> int \<Rightarrow> u32 \<Rightarrow> nat \<Rightarrow> kernel \<Rightarrow> (outcome \<times> kernel) option" where
  "mb_send_resume t m v timeout before suspend_flag k =
     (if error (threads k t) \<noteq> RT_EOK then Some (Done (error (threads k t)), k)
      else mb_send_loop m v (time_left timeout before k) suspend_flag k)"

definition rt_mb_send_wait where
  "rt_mb_send_wait m v timeout k = mb_send_wait m v timeout RT_UNINTERRUPTIBLE k"

definition rt_mb_send_wait_interruptible where
  "rt_mb_send_wait_interruptible m v timeout k = mb_send_wait m v timeout RT_INTERRUPTIBLE k"

definition rt_mb_send_wait_killable where
  "rt_mb_send_wait_killable m v timeout k = mb_send_wait m v timeout RT_KILLABLE k"

definition rt_mb_send where "rt_mb_send m v k = rt_mb_send_wait m v 0 k"

definition rt_mb_send_interruptible where
  "rt_mb_send_interruptible m v k = rt_mb_send_wait_interruptible m v 0 k"

definition rt_mb_send_killable where
  "rt_mb_send_killable m v k = rt_mb_send_wait_killable m v 0 k"

definition rt_mb_urgent :: "nat \<Rightarrow> u32 \<Rightarrow> kernel \<Rightarrow> (rt_err_t \<times> kernel) option" where
  "rt_mb_urgent m v k =
     (if mb_entry (mailboxes k m) = mb_size (mailboxes k m) then Some (- RT_EFULL, k)
      else do {
        k1 \<leftarrow> wake_first (MbQ m) (upd_mb m (mb_put_urgent v) k);
        Some (RT_EOK, k1)
      })"

text \<open>The second component is what is stored through \<open>value\<close>.\<close>

definition mb_recv_loop ::
  "nat \<Rightarrow> int \<Rightarrow> nat \<Rightarrow> kernel \<Rightarrow> (outcome \<times> u32 option \<times> kernel) option" where
  "mb_recv_loop m timeout suspend_flag k =
     (let mb = mailboxes k m in
      if mb_entry mb = 0 then do {
        t \<leftarrow> rt_thread_self k;
        let k1 = set_error t (- RT_EINTR) k;
        if timeout = 0 then Some (Done (- RT_ETIMEOUT), None, set_error t (- RT_ETIMEOUT) k1)
        else do {
          (r, k2) \<leftarrow> wait_pass (MbQ m) t (mb_flag mb) timeout suspend_flag k1;
          Some (r, None, k2)
        }
      }
      else do {
        let (v, mb1) = mb_fetch mb;
        k1 \<leftarrow> wake_first (MbSendQ m) (upd_mb m (\<lambda>_. mb1) k);
        Some (Done RT_EOK, Some v, k1)
      })"

definition mb_recv :: "nat \<Rightarrow> int \<Rightarrow> nat \<Rightarrow> kernel \<Rightarrow> (outcome \<times> u32 option \<times> kernel) option" where
  "mb_recv m timeout suspend_flag k =
     do {
       rt_assert (timeout \<noteq> 0 \<longrightarrow> scheduler_available k);
       if mb_entry (mailboxes k m) = 0 \<and> timeout = 0 then Some (Done (- RT_ETIMEOUT), None, k)
       else mb_recv_loop m timeout suspend_flag k
     }"

definition mb_recv_resume ::
  "tid \<Rightarrow> nat \<Rightarrow> int \<Rightarrow> u32 \<Rightarrow> nat \<Rightarrow> kernel \<Rightarrow> (outcome \<times> u32 option \<times> kernel) option" where
  "mb_recv_resume t m timeout before suspend_flag k =
     (if error (threads k t) \<noteq> RT_EOK then Some (Done (error (threads k t)), None, k)
      else mb_recv_loop m (time_left timeout before k) suspend_flag k)"

definition rt_mb_recv where
  "rt_mb_recv m timeout k = mb_recv m timeout RT_UNINTERRUPTIBLE k"

definition rt_mb_recv_interruptible where
  "rt_mb_recv_interruptible m timeout k = mb_recv m timeout RT_INTERRUPTIBLE k"

definition rt_mb_recv_killable where
  "rt_mb_recv_killable m timeout k = mb_recv m timeout RT_KILLABLE k"

definition rt_mb_control :: "nat \<Rightarrow> ipc_cmd \<Rightarrow> kernel \<Rightarrow> (rt_err_t \<times> kernel) option" where
  "rt_mb_control m cmd k =
     (case cmd of
        IpcReset _ \<Rightarrow> do {
          k1 \<leftarrow> ipc_list_resume_all (MbQ m) k;
          k2 \<leftarrow> ipc_list_resume_all (MbSendQ m) k1;
          k3 \<leftarrow> rt_schedule (upd_mb m (\<lambda>mb. mb\<lparr>mb_entry := 0, in_offset := 0, out_offset := 0\<rparr>) k2);
          Some (RT_EOK, k3)
        }
      | IpcOther \<Rightarrow> Some (- RT_ERROR, k))"

section \<open>The ring is a bounded queue\<close>

definition ring_wf :: "rt_mailbox \<Rightarrow> bool" where
  "ring_wf mb \<longleftrightarrow> length (msg_pool mb) = unat (mb_size mb) \<and>
     (mb_size mb = 0 \<and> in_offset mb = 0 \<and> out_offset mb = 0 \<or>
      in_offset mb < mb_size mb \<and> out_offset mb < mb_size mb) \<and>
     mb_entry mb \<le> mb_size mb \<and>
     unat (in_offset mb) = (unat (out_offset mb) + unat (mb_entry mb)) mod unat (mb_size mb)"

definition mails :: "rt_mailbox \<Rightarrow> u32 list" where
  "mails mb = map (\<lambda>i. msg_pool mb ! ((unat (out_offset mb) + i) mod unat (mb_size mb)))
     [0..<unat (mb_entry mb)]"

text \<open>Storing as a send does it, the counter included.\<close>

definition mb_store :: "u32 \<Rightarrow> rt_mailbox \<Rightarrow> rt_mailbox" where
  "mb_store v mb = (mb_put v mb)\<lparr>mb_entry := mb_entry mb + 1\<rparr>"

lemma mod_next:
  assumes "i < (n::nat)"
  shows "(i + 1) mod n = (if n \<le> i + 1 then 0 else i + 1)"
  using assms by (cases "i + 1 = n") auto

lemma u16_next:
  assumes "i < (n::u16)"
  shows "unat (if n \<le> i + 1 then 0 else i + 1) = (unat i + 1) mod unat n"
proof -
  have "unat n < 65536" using unsigned_less[of n] by simp
  then have "unat (i + 1) = unat i + 1" using assms by (simp add: word_less_nat_alt unat_word_ariths)
  then show ?thesis using assms mod_next[of "unat i" "unat n"] by (simp add: word_le_nat_alt word_less_nat_alt)
qed

lemma mod_offsets_differ:
  assumes "j < (e::nat)" "e < n"
  shows "(a + j) mod n \<noteq> (a + e) mod n"
proof
  assume "(a + j) mod n = (a + e) mod n"
  then have "n dvd (a + e) - (a + j)"
    by (intro iffD1[OF mod_eq_dvd_iff_nat]) (use assms in simp_all)
  then have "n dvd e - j" by simp
  then show False using assms by (auto dest: dvd_imp_le)
qed

lemma mails_nth:
  "j < unat (mb_entry mb) \<Longrightarrow>
   mails mb ! j = msg_pool mb ! ((unat (out_offset mb) + j) mod unat (mb_size mb))"
  by (simp add: mails_def)

lemma length_mails [simp]: "length (mails mb) = unat (mb_entry mb)"
  by (simp add: mails_def)

lemma ring_room:
  assumes "ring_wf mb" "length (mails mb) < unat (mb_size mb)"
  shows "in_offset mb < mb_size mb" "out_offset mb < mb_size mb" "mb_size mb \<noteq> 0"
    "unat (mb_entry mb + 1) = unat (mb_entry mb) + 1" "mb_entry mb < RT_MB_ENTRY_MAX"
    "unat (mb_entry mb) < unat (mb_size mb)"
proof -
  have l: "unat (mb_entry mb) < unat (mb_size mb)" using assms(2) by simp
  then show nz: "mb_size mb \<noteq> 0" and "unat (mb_entry mb) < unat (mb_size mb)" by auto
  then show "in_offset mb < mb_size mb" "out_offset mb < mb_size mb" using assms(1) by (auto simp: ring_wf_def)
  have "unat (mb_size mb) < 65536" using unsigned_less[of "mb_size mb"] by simp
  then have e: "unat (mb_entry mb) < 65535" using l by simp
  then show "mb_entry mb < RT_MB_ENTRY_MAX" by (simp add: word_less_nat_alt)
  show "unat (mb_entry mb + 1) = unat (mb_entry mb) + 1" using e by (simp add: unat_word_ariths)
qed

lemma mb_store_ok:
  assumes wf: "ring_wf mb" and room: "length (mails mb) < unat (mb_size mb)"
  shows "ring_wf (mb_store v mb)" "mails (mb_store v mb) = mails mb @ [v]"
proof -
  note R = ring_room[OF assms]
  have n: "0 < unat (mb_size mb)" using R(6) by simp
  have len: "length (msg_pool mb) = unat (mb_size mb)" and ent: "mb_entry mb \<le> mb_size mb"
    and ino: "unat (in_offset mb) = (unat (out_offset mb) + unat (mb_entry mb)) mod unat (mb_size mb)"
    using wf by (simp_all add: ring_wf_def)
  have f: "in_offset (mb_store v mb) = (if mb_size mb \<le> in_offset mb + 1 then 0 else in_offset mb + 1)"
    "out_offset (mb_store v mb) = out_offset mb" "mb_size (mb_store v mb) = mb_size mb"
    "mb_entry (mb_store v mb) = mb_entry mb + 1"
    "msg_pool (mb_store v mb) = (msg_pool mb)[unat (in_offset mb) := v]"
    by (simp_all add: mb_store_def mb_put_def Let_def)
  have "in_offset (mb_store v mb) < mb_size mb"
    using R(1,3) by (auto simp: f not_le word_gt_0)
  moreover have "unat (in_offset (mb_store v mb)) =
      (unat (out_offset mb) + unat (mb_entry mb + 1)) mod unat (mb_size mb)"
    unfolding f(1) u16_next[OF R(1)] ino R(4) by (simp add: mod_simps)
  moreover have "mb_entry mb + 1 \<le> mb_size mb" using R(4,6) by (simp add: word_le_nat_alt)
  ultimately show "ring_wf (mb_store v mb)"
    unfolding ring_wf_def f using len R(2) by simp
  show "mails (mb_store v mb) = mails mb @ [v]"
  proof (rule nth_equalityI)
    fix j assume "j < length (mails (mb_store v mb))"
    then have j: "j < unat (mb_entry mb) + 1" by (simp add: f R(4))
    have p: "mails (mb_store v mb) ! j =
        (msg_pool mb)[unat (in_offset mb) := v] ! ((unat (out_offset mb) + j) mod unat (mb_size mb))"
      using j by (subst mails_nth) (simp_all add: f R(4))
    show "mails (mb_store v mb) ! j = (mails mb @ [v]) ! j"
    proof (cases "j = unat (mb_entry mb)")
      case True
      have "unat (in_offset mb) < length (msg_pool mb)" using R(1) len by (simp add: word_less_nat_alt)
      then show ?thesis using p True ino by (simp add: nth_append)
    next
      case False
      then have j: "j < unat (mb_entry mb)" using j by simp
      have "(unat (out_offset mb) + j) mod unat (mb_size mb) \<noteq> unat (in_offset mb)"
        unfolding ino using mod_offsets_differ[OF j R(6)] .
      then show ?thesis using p j by (simp add: nth_append mails_nth)
    qed
  qed (simp add: f R(4))
qed

lemma u16_prev:
  assumes "i < (n::u16)"
  shows "unat (if i > 0 then i - 1 else n - 1) = (unat i + (unat n - 1)) mod unat n"
    "(if i > 0 then i - 1 else n - 1) < n"
proof -
  have n: "0 < unat n" "unat i < unat n" using assms by (auto simp: word_less_nat_alt)
  show eq: "unat (if i > 0 then i - 1 else n - 1) = (unat i + (unat n - 1)) mod unat n"
  proof (cases "i = 0")
    case True
    have "unat (n - 1) = unat n - 1" using n by (intro unat_minus_one) auto
    then show ?thesis using True n by simp
  next
    case False
    then have i: "0 < unat i" "unat (i - 1) = unat i - 1" by (simp_all add: unat_gt_0 unat_minus_one)
    have "(unat i + (unat n - 1)) mod unat n = (unat i - 1 + unat n) mod unat n"
      using i(1) n by (intro arg_cong[of _ _ "\<lambda>x. x mod unat n"]) simp
    also have "\<dots> = unat i - 1" using n by simp
    finally show ?thesis using False i(2) by (simp add: word_gt_0)
  qed
  show "(if i > 0 then i - 1 else n - 1) < n"
    unfolding word_less_nat_alt[of _ n] eq using n by simp
qed

lemma mb_put_urgent_ok:
  assumes wf: "ring_wf mb" and room: "length (mails mb) < unat (mb_size mb)"
  shows "ring_wf (mb_put_urgent v mb)" "mails (mb_put_urgent v mb) = v # mails mb"
proof -
  note R = ring_room[OF assms]
  define n where "n = unat (mb_size mb)"
  define o' where "o' = (if out_offset mb > 0 then out_offset mb - 1 else mb_size mb - 1)"
  have n: "0 < n" "unat (mb_entry mb) < n" "unat (out_offset mb) < n"
    using R(2,6) by (simp_all add: n_def word_less_nat_alt)
  have len: "length (msg_pool mb) = n" and
    ino: "unat (in_offset mb) = (unat (out_offset mb) + unat (mb_entry mb)) mod n"
    using wf by (simp_all add: ring_wf_def n_def)
  have o': "unat o' = (unat (out_offset mb) + (n - 1)) mod n" "o' < mb_size mb"
    using u16_prev[OF R(2)] by (simp_all add: o'_def n_def)
  have prv: "(unat o' + Suc j) mod n = (unat (out_offset mb) + j) mod n" for j
  proof -
    have "(unat o' + Suc j) mod n = (unat (out_offset mb) + (n - 1) + Suc j) mod n"
      unfolding o'(1) by (rule mod_add_left_eq)
    also have "unat (out_offset mb) + (n - 1) + Suc j = unat (out_offset mb) + j + n" using n(1) by simp
    finally show ?thesis by simp
  qed
  have f: "in_offset (mb_put_urgent v mb) = in_offset mb" "out_offset (mb_put_urgent v mb) = o'"
    "mb_size (mb_put_urgent v mb) = mb_size mb" "mb_entry (mb_put_urgent v mb) = mb_entry mb + 1"
    "msg_pool (mb_put_urgent v mb) = (msg_pool mb)[unat o' := v]"
    by (simp_all add: mb_put_urgent_def Let_def o'_def)
  have "mb_entry mb + 1 \<le> mb_size mb" using R(4,6) by (simp add: word_le_nat_alt)
  moreover have "unat (in_offset mb) = (unat o' + unat (mb_entry mb + 1)) mod n"
    unfolding R(4) ino using prv[of "unat (mb_entry mb)"] by simp
  ultimately show "ring_wf (mb_put_urgent v mb)"
    unfolding ring_wf_def f using len R(1) o'(2) by (simp add: n_def)
  show "mails (mb_put_urgent v mb) = v # mails mb"
  proof (rule nth_equalityI)
    fix j assume "j < length (mails (mb_put_urgent v mb))"
    then have j: "j < unat (mb_entry mb) + 1" by (simp add: f R(4))
    have p: "mails (mb_put_urgent v mb) ! j = (msg_pool mb)[unat o' := v] ! ((unat o' + j) mod n)"
      using j by (subst mails_nth) (simp_all add: f R(4) n_def)
    have on: "unat o' < n" using o'(1) n(1) by simp
    show "mails (mb_put_urgent v mb) ! j = (v # mails mb) ! j"
    proof (cases j)
      case 0
      then show ?thesis using p on len by simp
    next
      case (Suc i)
      have "(unat o' + 0) mod n \<noteq> (unat o' + Suc i) mod n"
        using mod_offsets_differ[of 0 "Suc i" n "unat o'"] j Suc n(2) by simp
      then have "unat o' \<noteq> (unat (out_offset mb) + i) mod n" using on prv[of i] by simp
      then show ?thesis using p j Suc prv[of i] by (simp add: mails_nth n_def)
    qed
  qed (simp add: f R(4))
qed

lemma mb_fetch_ok:
  assumes wf: "ring_wf mb" and ms: "mails mb = x # xs"
  shows "ring_wf (snd (mb_fetch mb))" "mails (snd (mb_fetch mb)) = xs" "fst (mb_fetch mb) = x"
proof -
  define n where "n = unat (mb_size mb)"
  define o' where "o' = (if out_offset mb + 1 \<ge> mb_size mb then 0 else out_offset mb + 1)"
  have e: "unat (mb_entry mb) = Suc (length xs)" using ms length_mails[of mb] by simp
  have nz: "mb_entry mb > 0" using e by (auto simp: word_gt_0)
  have bnd: "in_offset mb < mb_size mb" "out_offset mb < mb_size mb" "mb_entry mb \<le> mb_size mb"
    and len: "length (msg_pool mb) = n" and
    ino: "unat (in_offset mb) = (unat (out_offset mb) + unat (mb_entry mb)) mod n"
    using wf nz by (auto simp: ring_wf_def n_def)
  have n: "0 < n" "unat (out_offset mb) < n" using bnd(2) by (auto simp: n_def word_less_nat_alt)
  have o': "unat o' = (unat (out_offset mb) + 1) mod n" using u16_next[OF bnd(2)] by (simp add: o'_def n_def)
  have f: "in_offset (snd (mb_fetch mb)) = in_offset mb" "out_offset (snd (mb_fetch mb)) = o'"
    "mb_size (snd (mb_fetch mb)) = mb_size mb" "mb_entry (snd (mb_fetch mb)) = mb_entry mb - 1"
    "msg_pool (snd (mb_fetch mb)) = msg_pool mb"
    using nz by (simp_all add: mb_fetch_def Let_def o'_def)
  have e1: "unat (mb_entry mb - 1) = length xs" using nz e by (simp add: unat_minus_one word_gt_0)
  have step: "(unat o' + j) mod n = (unat (out_offset mb) + Suc j) mod n" for j
    unfolding o' by (simp add: mod_simps)
  have "o' < mb_size mb" using o' n(1) by (simp add: word_less_nat_alt n_def)
  moreover have "mb_entry mb - 1 \<le> mb_size mb" using bnd(3) e e1 by (simp add: word_le_nat_alt)
  moreover have "unat (in_offset mb) = (unat o' + unat (mb_entry mb - 1)) mod n"
    unfolding ino e1 step e by simp
  ultimately show "ring_wf (snd (mb_fetch mb))"
    unfolding ring_wf_def f using len bnd(1) by (simp add: n_def)
  show "mails (snd (mb_fetch mb)) = xs"
  proof (rule nth_equalityI)
    fix j assume "j < length (mails (snd (mb_fetch mb)))"
    then have j: "j < length xs" by (simp add: f e1)
    have "mails (snd (mb_fetch mb)) ! j = msg_pool mb ! ((unat o' + j) mod n)"
      using j by (subst mails_nth) (simp_all add: f e1 n_def)
    also have "\<dots> = mails mb ! Suc j"
      unfolding step using j e by (subst mails_nth) (simp_all add: n_def)
    finally show "mails (snd (mb_fetch mb)) ! j = xs ! j" using ms by simp
  qed (simp add: f e1)
  have "x = mails mb ! 0" using ms by simp
  also have "\<dots> = msg_pool mb ! unat (out_offset mb)" using e n by (subst mails_nth) (simp_all add: n_def)
  finally show "fst (mb_fetch mb) = x" by (simp add: mb_fetch_def Let_def)
qed

interpretation mbring: bounded_fifo ring_wf mails "\<lambda>mb. unat (mb_size mb)" "\<lambda>_ _. True"
  mb_store mb_fetch mb_put_urgent
proof unfold_locales
  show "ring_wf q \<Longrightarrow> length (mails q) \<le> unat (mb_size q)" for q
    by (simp add: ring_wf_def word_le_nat_alt)
qed (simp_all add: mb_store_ok mb_put_urgent_ok mb_fetch_ok,
  simp_all add: mb_store_def mb_put_def mb_put_urgent_def mb_fetch_def Let_def)

section \<open>Sending and receiving\<close>

lemma upd_mb_simps [simp]:
  "mailboxes (upd_mb m f k) r = (if r = m then f (mailboxes k m) else mailboxes k r)"
  "threads (upd_mb m f k) = threads k" "queues (upd_mb m f k) = queues k"
  "ready_group (upd_mb m f k) = ready_group k" "cur (upd_mb m f k) = cur k"
  "timers (upd_mb m f k) = timers k" "timer_lists (upd_mb m f k) = timer_lists k"
  "tick (upd_mb m f k) = tick k" "lock_nest (upd_mb m f k) = lock_nest k"
  "interrupt_nest (upd_mb m f k) = interrupt_nest k"
  "runnable (upd_mb m f k) t = runnable k t"
  "upd_mb m g (upd_mb m f k) = upd_mb m (\<lambda>x. g (f x)) k"
  by (simp_all add: upd_mb_def runnable_def tstat_def)

lemma sysinv_upd_mb [simp]: "sysinv b (upd_mb m f k) = sysinv b k"
  by (rule sysinv_cong) simp_all

definition mb_wf :: "nat \<Rightarrow> kernel \<Rightarrow> bool" where
  "mb_wf m k \<longleftrightarrow> mb_flag (mailboxes k m) \<in> {RT_IPC_FLAG_FIFO, RT_IPC_FLAG_PRIO} \<and> ring_wf (mailboxes k m)"

lemma upd_mb_frame: "first_woken q (upd_mb m f k) k' = first_woken q k k'"
  by (simp add: first_woken_def split: list.split)

text \<open>The mailbox as its users see it.\<close>

definition mb_sent :: "nat \<Rightarrow> u32 \<Rightarrow> int \<Rightarrow> tid \<Rightarrow> kernel \<Rightarrow> outcome \<times> kernel \<Rightarrow> bool" where
  "mb_sent m v timeout t k = (\<lambda>(r, k').
     let mb = mailboxes k m in
     if length (mails mb) < unat (mb_size mb)
     then r = Done RT_EOK \<and> mails (mailboxes k' m) = mails mb @ [v] \<and> first_woken (MbQ m) k k'
     else if timeout = 0
     then r = Done (- RT_EFULL) \<and> mailboxes k' = mailboxes k \<and> queues k' = queues k
     else r = Waiting \<and> now_waits (MbSendQ m) (mb_flag mb) t timeout k k')"

definition mb_received ::
  "nat \<Rightarrow> int \<Rightarrow> tid \<Rightarrow> kernel \<Rightarrow> outcome \<times> u32 option \<times> kernel \<Rightarrow> bool" where
  "mb_received m timeout t k = (\<lambda>(r, v, k').
     let mb = mailboxes k m in
     case mails mb of
       x # xs \<Rightarrow> r = Done RT_EOK \<and> v = Some x \<and> mails (mailboxes k' m) = xs \<and>
         first_woken (MbSendQ m) k k'
     | [] \<Rightarrow>
         v = None \<and>
         (if timeout = 0
          then r = Done (- RT_ETIMEOUT) \<and> mailboxes k' = mailboxes k \<and> queues k' = queues k
          else r = Waiting \<and> now_waits (MbQ m) (mb_flag mb) t timeout k k'))"

lemma mb_send_loop_correct:
  assumes call: "may_call b t timeout k" and wf: "mb_wf m k" and sf: "sflag \<le> RT_UNINTERRUPTIBLE"
  shows "ok (mb_send_loop m v timeout sflag k)
    (\<lambda>(r, k'). sysinv b k' \<and> mb_wf m k' \<and> mb_sent m v timeout t k (r, k'))"
proof -
  let ?mb = "mailboxes k m"
  have inv: "sysinv b k" and c: "cur k = Some t" and to: "timeout < 2 ^ 31 - 1"
    using call by (simp_all add: may_call_def)
  have rw: "ring_wf ?mb" and fl: "mb_flag ?mb \<in> {RT_IPC_FLAG_FIFO, RT_IPC_FLAG_PRIO}"
    using wf by (simp_all add: mb_wf_def)
  have le: "unat (mb_entry ?mb) \<le> unat (mb_size ?mb)" using mbring.bound[OF rw] by simp
  show ?thesis
  proof (cases "mb_entry ?mb = mb_size ?mb")
    case False
    then have room: "length (mails ?mb) < unat (mb_size ?mb)"
      using le by (simp add: nat_less_le word_unat_eq_iff)
    define k1 where "k1 = upd_mb m (mb_store v) k"
    have k1: "sysinv b k1" "cur k1 = Some t" using inv c by (simp_all add: k1_def)
    obtain k' where k': "wake_first (MbQ m) k1 = Some k'" "sysinv b k'" "woke_first (MbQ m) k1 k'"
      by (rule mbq.wake_first_ok[OF k1, of m])
    have mk: "mailboxes k' = mailboxes k1" by (rule objectsD(4)[OF woke_first_objects[OF k'(3)]])
    have "first_woken (MbQ m) k k'"
      using woke_first_woken[OF k'(3)] k1(1) by (simp add: k1_def upd_mb_frame sysinv_def)
    moreover have "mails (mailboxes k' m) = mails ?mb @ [v]" "mb_wf m k'"
      using mb_store_ok[OF rw room, of v] fl by (simp_all add: mk k1_def mb_wf_def)
        (simp add: mb_store_def mb_put_def Let_def)
    moreover have "mb_send_loop m v timeout sflag k = Some (Done RT_EOK, k')"
      using False k'(1) ring_room(5)[OF rw room] by (simp add: mb_send_loop_def Let_def k1_def mb_store_def[abs_def] mb_put_def)
    ultimately show ?thesis using k'(2) room by (simp add: mb_sent_def Let_def)
  next
    case full: True
    show ?thesis
    proof (cases "timeout = 0")
      case True
      then show ?thesis
        using full inv c wf by (simp add: mb_send_loop_def mb_sent_def mb_wf_def rt_thread_self_def Let_def)
    next
      case False
      have run: "runs b t (set_error t (- RT_EINTR) k)" using call False by (simp add: may_call_def runs_def)
      obtain k' where k': "wait_pass (MbSendQ m) t (mb_flag ?mb) timeout sflag (set_error t (- RT_EINTR) k) =
          Some (Waiting, k')" "sysinv b k'"
        "waits_on (MbSendQ m) (mb_flag ?mb) t timeout (set_error t (- RT_EINTR) k) k'"
        by (rule mbsendq.wait_pass_ok[OF run fl sf to, of m])
      have "mailboxes k' = mailboxes k" by (rule objectsD(4)[OF waits_on_error(4)[OF k'(3)]])
      then have "mb_wf m k'" using wf by (simp add: mb_wf_def)
      then show ?thesis
        using full False k'(1,2) c waits_on_now[OF k'(3)]
        by (simp add: mb_send_loop_def mb_sent_def rt_thread_self_def Let_def)
    qed
  qed
qed

lemma mb_recv_loop_correct:
  assumes call: "may_call b t timeout k" and wf: "mb_wf m k" and sf: "sflag \<le> RT_UNINTERRUPTIBLE"
  shows "ok (mb_recv_loop m timeout sflag k)
    (\<lambda>(r, v, k'). sysinv b k' \<and> mb_wf m k' \<and> mb_received m timeout t k (r, v, k'))"
proof -
  let ?mb = "mailboxes k m"
  have inv: "sysinv b k" and c: "cur k = Some t" and to: "timeout < 2 ^ 31 - 1"
    using call by (simp_all add: may_call_def)
  have rw: "ring_wf ?mb" and fl: "mb_flag ?mb \<in> {RT_IPC_FLAG_FIFO, RT_IPC_FLAG_PRIO}"
    using wf by (simp_all add: mb_wf_def)
  show ?thesis
  proof (cases "mails ?mb")
    case (Cons x xs)
    then have ne: "mb_entry ?mb \<noteq> 0" using length_mails[of ?mb] by auto
    define k1 where "k1 = upd_mb m (\<lambda>_. snd (mb_fetch ?mb)) k"
    have k1: "sysinv b k1" "cur k1 = Some t" using inv c by (simp_all add: k1_def)
    obtain k' where k': "wake_first (MbSendQ m) k1 = Some k'" "sysinv b k'" "woke_first (MbSendQ m) k1 k'"
      by (rule mbsendq.wake_first_ok[OF k1, of m])
    have mk: "mailboxes k' = mailboxes k1" by (rule objectsD(4)[OF woke_first_objects[OF k'(3)]])
    have "first_woken (MbSendQ m) k k'"
      using woke_first_woken[OF k'(3)] k1(1) by (simp add: k1_def upd_mb_frame sysinv_def)
    moreover have "mails (mailboxes k' m) = xs" "mb_wf m k'"
      using mb_fetch_ok[OF rw Cons] fl by (simp_all add: mk k1_def mb_wf_def)
        (simp add: mb_fetch_def Let_def)
    moreover have "mb_recv_loop m timeout sflag k = Some (Done RT_EOK, Some x, k')"
      using ne k'(1) mb_fetch_ok(3)[OF rw Cons] by (simp add: mb_recv_loop_def Let_def k1_def case_prod_beta)
    ultimately show ?thesis using k'(2) Cons by (simp add: mb_received_def Let_def)
  next
    case Nil
    then have e: "mb_entry ?mb = 0" using length_mails[of ?mb] by (simp add: unat_eq_0)
    show ?thesis
    proof (cases "timeout = 0")
      case True
      then show ?thesis
        using e Nil inv c wf by (simp add: mb_recv_loop_def mb_received_def mb_wf_def rt_thread_self_def Let_def)
    next
      case False
      have run: "runs b t (set_error t (- RT_EINTR) k)" using call False by (simp add: may_call_def runs_def)
      obtain k' where k': "wait_pass (MbQ m) t (mb_flag ?mb) timeout sflag (set_error t (- RT_EINTR) k) =
          Some (Waiting, k')" "sysinv b k'"
        "waits_on (MbQ m) (mb_flag ?mb) t timeout (set_error t (- RT_EINTR) k) k'"
        by (rule mbq.wait_pass_ok[OF run fl sf to, of m])
      have "mailboxes k' = mailboxes k" by (rule objectsD(4)[OF waits_on_error(4)[OF k'(3)]])
      then have "mb_wf m k'" using wf by (simp add: mb_wf_def)
      then show ?thesis
        using e Nil False k'(1,2) c waits_on_now[OF k'(3)]
        by (simp add: mb_recv_loop_def mb_received_def rt_thread_self_def Let_def)
    qed
  qed
qed

lemma mb_urgent_correct:
  assumes inv: "sysinv b k" and c: "cur k = Some t" and wf: "mb_wf m k"
  shows "ok (rt_mb_urgent m v k) (\<lambda>(e, k'). sysinv b k' \<and> mb_wf m k' \<and>
    (let mb = mailboxes k m in
     if length (mails mb) < unat (mb_size mb)
     then e = RT_EOK \<and> mails (mailboxes k' m) = v # mails mb \<and> first_woken (MbQ m) k k'
     else e = - RT_EFULL \<and> k' = k))"
proof -
  let ?mb = "mailboxes k m"
  have rw: "ring_wf ?mb" and fl: "mb_flag ?mb \<in> {RT_IPC_FLAG_FIFO, RT_IPC_FLAG_PRIO}"
    using wf by (simp_all add: mb_wf_def)
  show ?thesis
  proof (cases "mb_entry ?mb = mb_size ?mb")
    case False
    then have room: "length (mails ?mb) < unat (mb_size ?mb)"
      using mbring.bound[OF rw] by (simp add: nat_less_le word_unat_eq_iff)
    define k1 where "k1 = upd_mb m (mb_put_urgent v) k"
    have k1: "sysinv b k1" "cur k1 = Some t" using inv c by (simp_all add: k1_def)
    obtain k' where k': "wake_first (MbQ m) k1 = Some k'" "sysinv b k'" "woke_first (MbQ m) k1 k'"
      by (rule mbq.wake_first_ok[OF k1, of m])
    have mk: "mailboxes k' = mailboxes k1" by (rule objectsD(4)[OF woke_first_objects[OF k'(3)]])
    have "first_woken (MbQ m) k k'"
      using woke_first_woken[OF k'(3)] k1(1) by (simp add: k1_def upd_mb_frame sysinv_def)
    moreover have "mails (mailboxes k' m) = v # mails ?mb" "mb_wf m k'"
      using mb_put_urgent_ok[OF rw room, of v] fl by (simp_all add: mk k1_def mb_wf_def)
        (simp add: mb_put_urgent_def Let_def)
    moreover have "rt_mb_urgent m v k = Some (RT_EOK, k')"
      using False k'(1) by (simp add: rt_mb_urgent_def k1_def)
    ultimately show ?thesis using k'(2) room by (simp add: Let_def)
  qed (use inv wf in \<open>simp add: rt_mb_urgent_def Let_def\<close>)
qed

text \<open>After \<open>rt_mb_init\<close> the mailbox is sound and empty, with a size of 16 bits.\<close>

lemma mb_reset_ok:
  assumes "length pool = unat sz"
  shows "ring_wf (mb_reset pool sz flag)" "mails (mb_reset pool sz flag) = []"
  using assms by (auto simp: ring_wf_def mails_def mb_reset_def word_gt_0)

section \<open>Properties\<close>

text \<open>C8: With room left a send appends the message and wakes the first receiver, which will return
  without error; on a full mailbox it returns \<open>-RT_EFULL\<close> when it may not wait, and otherwise suspends the
  caller among the senders with its timer armed. It fails no assertion and keeps the ring sound.\<close>
theorem mb_send_refines:
  assumes "may_call b t timeout k" "mb_wf m k"
  shows "ok (rt_mb_send_wait m v timeout k)
    (\<lambda>(r, k'). sysinv b k' \<and> mb_wf m k' \<and> mb_sent m v timeout t k (r, k'))"
proof (cases "mb_entry (mailboxes k m) = mb_size (mailboxes k m) \<and> timeout = 0")
  case True
  then show ?thesis
    using assms by (simp add: rt_mb_send_wait_def mb_send_wait_def mb_sent_def may_call_def Let_def)
next
  case False
  have "ok (mb_send_loop m v timeout RT_UNINTERRUPTIBLE k)
    (\<lambda>(r, k'). sysinv b k' \<and> mb_wf m k' \<and> mb_sent m v timeout t k (r, k'))"
    by (rule mb_send_loop_correct[OF assms]) simp
  moreover have "rt_mb_send_wait m v timeout k = mb_send_loop m v timeout RT_UNINTERRUPTIBLE k"
    using False assms(1) by (auto simp: rt_mb_send_wait_def mb_send_wait_def may_call_def)
  ultimately show ?thesis by simp
qed

lemma example_mb_wf: "mb_wf m example_kernel"
  by (simp add: mb_wf_def ring_wf_def example_kernel_def)

theorem mb_send_refines_witness:
  "ok (rt_mb_send_wait 0 42 0 example_kernel)
    (\<lambda>(r, k'). sysinv 100 k' \<and> mb_wf 0 k' \<and> mb_sent 0 42 0 0 example_kernel (r, k'))"
  by (rule mb_send_refines[OF example_may_call example_mb_wf]) simp

text \<open>C9: A receive takes the oldest message and wakes the first waiting sender; on an empty mailbox
  it returns \<open>-RT_ETIMEOUT\<close> when it may not wait, and otherwise suspends the caller among the receivers.\<close>
theorem mb_recv_refines:
  assumes "may_call b t timeout k" "mb_wf m k"
  shows "ok (rt_mb_recv m timeout k)
    (\<lambda>(r, v, k'). sysinv b k' \<and> mb_wf m k' \<and> mb_received m timeout t k (r, v, k'))"
proof (cases "mb_entry (mailboxes k m) = 0 \<and> timeout = 0")
  case True
  then have "mails (mailboxes k m) = []" by (simp add: mails_def)
  then show ?thesis
    using True assms by (simp add: rt_mb_recv_def mb_recv_def mb_received_def may_call_def Let_def)
next
  case False
  have "ok (mb_recv_loop m timeout RT_UNINTERRUPTIBLE k)
    (\<lambda>(r, v, k'). sysinv b k' \<and> mb_wf m k' \<and> mb_received m timeout t k (r, v, k'))"
    by (rule mb_recv_loop_correct[OF assms]) simp
  moreover have "rt_mb_recv m timeout k = mb_recv_loop m timeout RT_UNINTERRUPTIBLE k"
    using False assms(1) by (auto simp: rt_mb_recv_def mb_recv_def may_call_def)
  ultimately show ?thesis by simp
qed

theorem mb_recv_refines_witness:
  "ok (rt_mb_recv 0 20 example_kernel)
    (\<lambda>(r, v, k'). sysinv 100 k' \<and> mb_wf 0 k' \<and> mb_received 0 20 0 example_kernel (r, v, k'))"
  by (rule mb_recv_refines[OF example_may_call example_mb_wf]) simp

text \<open>Messages stored in an empty mailbox come out in the order in which they were stored, whatever
  the position of the offsets, and an urgent message comes out first.\<close>
theorem mailbox_in_order:
  assumes "ring_wf mb" "mails mb = []" "length vs < unat (mb_size mb)"
  shows "fst (mbring.take_n (length vs) (fold mb_store vs mb)) = vs \<and>
    fst (mb_fetch (mb_put_urgent u (fold mb_store vs mb))) = u \<and>
    mails (snd (mb_fetch (mb_put_urgent u (fold mb_store vs mb)))) = vs"
  using mbring.first_in_first_out[of mb vs] mbring.put_all[of mb vs]
    mbring.urgent_first[of "fold mb_store vs mb" u] assms by simp

theorem mailbox_in_order_witness:
  "fst (mbring.take_n (length [7, 8 :: u32]) (fold mb_store [7, 8]
      \<lparr>msg_pool = [0, 0, 0], mb_size = 3, mb_entry = 0, in_offset = 2, out_offset = 2, mb_flag = 0\<rparr>)) = [7, 8]"
  by (rule mailbox_in_order[THEN conjunct1]) (simp_all add: ring_wf_def mails_def)

end
