(* ===== verification/MsgQueue.thy ===== *)
theory MsgQueue
  imports IpcList Fifo
begin

text \<open>
  Message queues (\<open>src/ipc.c\<close>, \<open>rt_mq_*\<close>, without message priorities as configured): a pool of
  messages, each in the linked list of the queued ones or in the list of the free ones; receivers and
  senders wait on two queues. The pool is numbered from 0; a link is a number or none.
\<close>

abbreviation RT_MQ_ENTRY_MAX :: u16 where "RT_MQ_ENTRY_MAX \<equiv> 0xffff"
abbreviation RT_ALIGN_SIZE :: u32 where "RT_ALIGN_SIZE \<equiv> 8"
abbreviation sizeof_mq_message :: u32 where "sizeof_mq_message \<equiv> 8"

section \<open>The lists of messages\<close>

definition upd_node :: "nat \<Rightarrow> (rt_mq_message \<Rightarrow> rt_mq_message) \<Rightarrow> rt_messagequeue \<Rightarrow> rt_messagequeue" where
  "upd_node p f q = q\<lparr>node := (node q)(p := f (node q p))\<rparr>"

text \<open>The loop that puts every message of the pool on the free list.\<close>

primrec mq_link_free :: "nat \<Rightarrow> rt_messagequeue \<Rightarrow> rt_messagequeue" where
  "mq_link_free 0 q = q\<lparr>msg_queue_free := None\<rparr>"
| "mq_link_free (Suc n) q =
     (let q1 = mq_link_free n q
      in (upd_node n (\<lambda>nd. nd\<lparr>msg_next := msg_queue_free q1\<rparr>) q1)\<lparr>msg_queue_free := Some n\<rparr>)"

definition mq_reset :: "rt_messagequeue \<Rightarrow> rt_messagequeue" where
  "mq_reset q =
     (mq_link_free (unat (max_msgs q)) (q\<lparr>msg_queue_head := None, msg_queue_tail := None\<rparr>))\<lparr>mq_entry := 0\<rparr>"

text \<open>Filling the message \<open>p\<close>, the head of the free list, and linking it at the end or at the front.\<close>

definition mq_fill :: "nat \<Rightarrow> u8 list \<Rightarrow> u32 \<Rightarrow> rt_messagequeue \<Rightarrow> rt_messagequeue" where
  "mq_fill p buf sz q =
     upd_node p (\<lambda>nd. nd\<lparr>msg_length := sz,
         msg_bytes := take (unat sz) buf @ drop (unat sz) (msg_bytes nd)\<rparr>) q"

definition mq_link_tail :: "nat \<Rightarrow> rt_messagequeue \<Rightarrow> rt_messagequeue" where
  "mq_link_tail p q =
     (let q1 = (case msg_queue_tail q of
                  Some l \<Rightarrow> upd_node l (\<lambda>nd. nd\<lparr>msg_next := Some p\<rparr>) q
                | None \<Rightarrow> q);
          q2 = q1\<lparr>msg_queue_tail := Some p\<rparr>
      in if msg_queue_head q2 = None then q2\<lparr>msg_queue_head := Some p\<rparr> else q2)"

definition mq_link_head :: "nat \<Rightarrow> rt_messagequeue \<Rightarrow> rt_messagequeue" where
  "mq_link_head p q =
     (let q1 = (upd_node p (\<lambda>nd. nd\<lparr>msg_next := msg_queue_head q\<rparr>) q)\<lparr>msg_queue_head := Some p\<rparr>
      in if msg_queue_tail q1 = None then q1\<lparr>msg_queue_tail := Some p\<rparr> else q1)"

definition mq_enqueue :: "nat \<Rightarrow> u8 list \<Rightarrow> u32 \<Rightarrow> rt_messagequeue \<Rightarrow> rt_messagequeue" where
  "mq_enqueue p buf sz q =
     (let q1 = q\<lparr>msg_queue_free := msg_next (node q p)\<rparr>;
          q2 = upd_node p (\<lambda>nd. nd\<lparr>msg_next := None\<rparr>) q1
      in mq_link_tail p (mq_fill p buf sz q2))"

definition mq_enqueue_urgent :: "nat \<Rightarrow> u8 list \<Rightarrow> u32 \<Rightarrow> rt_messagequeue \<Rightarrow> rt_messagequeue" where
  "mq_enqueue_urgent p buf sz q =
     (let q1 = q\<lparr>msg_queue_free := msg_next (node q p)\<rparr> in mq_link_head p (mq_fill p buf sz q1))"

text \<open>Unlinking the first message, and giving a message back.\<close>

definition mq_unlink_head :: "nat \<Rightarrow> rt_messagequeue \<Rightarrow> rt_messagequeue" where
  "mq_unlink_head p q =
     (let q1 = q\<lparr>msg_queue_head := msg_next (node q p)\<rparr>
      in if msg_queue_tail q1 = Some p then q1\<lparr>msg_queue_tail := None\<rparr> else q1)"

definition mq_release :: "nat \<Rightarrow> rt_messagequeue \<Rightarrow> rt_messagequeue" where
  "mq_release p q =
     (upd_node p (\<lambda>nd. nd\<lparr>msg_next := msg_queue_free q\<rparr>) q)\<lparr>msg_queue_free := Some p\<rparr>"

partial_function (option) mq_drain :: "rt_messagequeue \<Rightarrow> rt_messagequeue option" where
  "mq_drain q =
     (case msg_queue_head q of
        None \<Rightarrow> Some q
      | Some p \<Rightarrow> mq_drain (mq_release p (mq_unlink_head p q)))"

section \<open>Operations\<close>

definition upd_mq :: "nat \<Rightarrow> (rt_messagequeue \<Rightarrow> rt_messagequeue) \<Rightarrow> kernel \<Rightarrow> kernel" where
  "upd_mq m f k = k\<lparr>mqueues := (mqueues k)(m := f (mqueues k m))\<rparr>"

text \<open>\<open>memory\<close> is what the pool holds at first.\<close>

definition rt_mq_init ::
  "nat \<Rightarrow> (nat \<Rightarrow> rt_mq_message) \<Rightarrow> u32 \<Rightarrow> u32 \<Rightarrow> u8 \<Rightarrow> kernel \<Rightarrow> (rt_err_t \<times> kernel) option" where
  "rt_mq_init m memory msize pool_size flag k =
     do {
       rt_assert (flag = RT_IPC_FLAG_FIFO \<or> flag = RT_IPC_FLAG_PRIO);
       let k1 = ipc_object_init (MqQ m) k;
       let cnt = ucast (pool_size div (rt_align msize RT_ALIGN_SIZE + sizeof_mq_message));
       let k2 = upd_mq m (\<lambda>q. q\<lparr>node := memory, mq_flag := flag, msg_size := ucast msize, max_msgs := cnt\<rparr>) k1;
       if cnt = 0 then Some (- RT_EINVAL, k2)
       else Some (RT_EOK, ipc_object_init (MqSendQ m) (upd_mq m mq_reset k2))
     }"

definition rt_mq_create ::
  "nat option \<Rightarrow> (u32 \<Rightarrow> (nat \<Rightarrow> rt_mq_message) option) \<Rightarrow> u32 \<Rightarrow> u32 \<Rightarrow> u8 \<Rightarrow> kernel \<Rightarrow> (nat option \<times> kernel) option" where
  "rt_mq_create object memory msize cnt flag k =
     do {
       rt_assert (flag = RT_IPC_FLAG_FIFO \<or> flag = RT_IPC_FLAG_PRIO);
       rt_assert (not_in_interrupt k);
       case object of
         None \<Rightarrow> Some (None, k)
       | Some m \<Rightarrow>
           let k1 = ipc_object_init (MqQ m) k;
               k2 = upd_mq m (\<lambda>q. q\<lparr>mq_flag := flag, msg_size := ucast msize, max_msgs := ucast cnt\<rparr>) k1
           in case memory ((rt_align msize RT_ALIGN_SIZE + sizeof_mq_message) * ucast (max_msgs (mqueues k2 m))) of
                None \<Rightarrow> Some (None, k2)
              | Some pool \<Rightarrow>
                  Some (Some m, ipc_object_init (MqSendQ m) (upd_mq m (\<lambda>q. mq_reset (q\<lparr>node := pool\<rparr>)) k2))
     }"

definition rt_mq_detach :: "nat \<Rightarrow> kernel \<Rightarrow> (rt_err_t \<times> kernel) option" where
  "rt_mq_detach m k =
     do {
       k1 \<leftarrow> ipc_list_resume_all (MqQ m) k;
       k2 \<leftarrow> ipc_list_resume_all (MqSendQ m) k1;
       Some (RT_EOK, k2)
     }"

definition rt_mq_delete :: "nat \<Rightarrow> kernel \<Rightarrow> (rt_err_t \<times> kernel) option" where
  "rt_mq_delete m k =
     do {
       rt_assert (not_in_interrupt k);
       k1 \<leftarrow> ipc_list_resume_all (MqQ m) k;
       k2 \<leftarrow> ipc_list_resume_all (MqSendQ m) k1;
       Some (RT_EOK, k2)
     }"

text \<open>Counting a linked message and waking the first receiver.\<close>

definition mq_count :: "nat \<Rightarrow> kernel \<Rightarrow> (rt_err_t \<times> kernel) option" where
  "mq_count m k =
     (if mq_entry (mqueues k m) < RT_MQ_ENTRY_MAX then do {
        k1 \<leftarrow> wake_first (MqQ m) (upd_mq m (\<lambda>q. q\<lparr>mq_entry := mq_entry q + 1\<rparr>) k);
        Some (RT_EOK, k1)
      }
      else Some (- RT_EFULL, k))"

definition mq_send_loop ::
  "nat \<Rightarrow> u8 list \<Rightarrow> u32 \<Rightarrow> int \<Rightarrow> nat \<Rightarrow> kernel \<Rightarrow> (outcome \<times> kernel) option" where
  "mq_send_loop m buf sz timeout suspend_flag k =
     (case msg_queue_free (mqueues k m) of
        None \<Rightarrow> do {
          t \<leftarrow> rt_thread_self k;
          let k1 = set_error t (- RT_EINTR) k;
          if timeout = 0 then Some (Done (- RT_EFULL), k1)
          else wait_pass (MqSendQ m) t (mq_flag (mqueues k m)) timeout suspend_flag k1
        }
      | Some p \<Rightarrow> do {
          (e, k1) \<leftarrow> mq_count m (upd_mq m (mq_enqueue p buf sz) k);
          Some (Done e, k1)
        })"

definition mq_send_wait ::
  "nat \<Rightarrow> u8 list \<Rightarrow> u32 \<Rightarrow> int \<Rightarrow> nat \<Rightarrow> kernel \<Rightarrow> (outcome \<times> kernel) option" where
  "mq_send_wait m buf sz timeout suspend_flag k =
     do {
       rt_assert (sz \<noteq> 0);
       rt_assert (timeout \<noteq> 0 \<longrightarrow> scheduler_available k);
       if sz > ucast (msg_size (mqueues k m)) then Some (Done (- RT_ERROR), k)
       else if msg_queue_free (mqueues k m) = None \<and> timeout = 0 then Some (Done (- RT_EFULL), k)
       else mq_send_loop m buf sz timeout suspend_flag k
     }"

text \<open>The thread \<open>t\<close> runs again after it has waited since tick \<open>before\<close>.\<close>

definition mq_send_resume ::
  "tid \<Rightarrow> nat \<Rightarrow> u8 list \<Rightarrow> u32 \<Rightarrow> int \<Rightarrow> u32 \<Rightarrow> nat \<Rightarrow> kernel \<Rightarrow> (outcome \<times> kernel) option" where
  "mq_send_resume t m buf sz timeout before suspend_flag k =
     (if error (threads k t) \<noteq> RT_EOK then Some (Done (error (threads k t)), k)
      else mq_send_loop m buf sz (time_left timeout before k) suspend_flag k)"

definition rt_mq_send_wait where
  "rt_mq_send_wait m buf sz timeout k = mq_send_wait m buf sz timeout RT_UNINTERRUPTIBLE k"

definition rt_mq_send_wait_interruptible where
  "rt_mq_send_wait_interruptible m buf sz timeout k = mq_send_wait m buf sz timeout RT_INTERRUPTIBLE k"

definition rt_mq_send_wait_killable where
  "rt_mq_send_wait_killable m buf sz timeout k = mq_send_wait m buf sz timeout RT_KILLABLE k"

definition rt_mq_send where "rt_mq_send m buf sz k = rt_mq_send_wait m buf sz 0 k"

definition rt_mq_send_interruptible where
  "rt_mq_send_interruptible m buf sz k = rt_mq_send_wait_interruptible m buf sz 0 k"

definition rt_mq_send_killable where
  "rt_mq_send_killable m buf sz k = rt_mq_send_wait_killable m buf sz 0 k"

definition rt_mq_urgent :: "nat \<Rightarrow> u8 list \<Rightarrow> u32 \<Rightarrow> kernel \<Rightarrow> (rt_err_t \<times> kernel) option" where
  "rt_mq_urgent m buf sz k =
     do {
       rt_assert (sz \<noteq> 0);
       if sz > ucast (msg_size (mqueues k m)) then Some (- RT_ERROR, k)
       else case msg_queue_free (mqueues k m) of
              None \<Rightarrow> Some (- RT_EFULL, k)
            | Some p \<Rightarrow> mq_count m (upd_mq m (mq_enqueue_urgent p buf sz) k)
     }"

text \<open>The second component is what is copied to \<open>buffer\<close>; the call returns its length.\<close>

definition mq_recv_loop ::
  "nat \<Rightarrow> u32 \<Rightarrow> int \<Rightarrow> nat \<Rightarrow> kernel \<Rightarrow> (outcome \<times> u8 list \<times> kernel) option" where
  "mq_recv_loop m sz timeout suspend_flag k =
     (let q = mqueues k m in
      if mq_entry q = 0 then do {
        t \<leftarrow> rt_thread_self k;
        let k1 = set_error t (- RT_EINTR) k;
        if timeout = 0 then Some (Done (- RT_ETIMEOUT), [], set_error t (- RT_ETIMEOUT) k1)
        else do {
          (r, k2) \<leftarrow> wait_pass (MqQ m) t (mq_flag q) timeout suspend_flag k1;
          Some (r, [], k2)
        }
      }
      else do {
        p \<leftarrow> msg_queue_head q;
        let q1 = mq_unlink_head p q;
        let q2 = (if mq_entry q1 > 0 then q1\<lparr>mq_entry := mq_entry q1 - 1\<rparr> else q1);
        let len = (if msg_length (node q2 p) > sz then sz else msg_length (node q2 p));
        let out = take (unat len) (msg_bytes (node q2 p));
        k1 \<leftarrow> wake_first (MqSendQ m) (upd_mq m (\<lambda>_. mq_release p q2) k);
        Some (Done (uint len), out, k1)
      })"

definition mq_recv ::
  "nat \<Rightarrow> u32 \<Rightarrow> int \<Rightarrow> nat \<Rightarrow> kernel \<Rightarrow> (outcome \<times> u8 list \<times> kernel) option" where
  "mq_recv m sz timeout suspend_flag k =
     do {
       rt_assert (sz \<noteq> 0);
       rt_assert (timeout \<noteq> 0 \<longrightarrow> scheduler_available k);
       if mq_entry (mqueues k m) = 0 \<and> timeout = 0 then Some (Done (- RT_ETIMEOUT), [], k)
       else mq_recv_loop m sz timeout suspend_flag k
     }"

definition mq_recv_resume ::
  "tid \<Rightarrow> nat \<Rightarrow> u32 \<Rightarrow> int \<Rightarrow> u32 \<Rightarrow> nat \<Rightarrow> kernel \<Rightarrow> (outcome \<times> u8 list \<times> kernel) option" where
  "mq_recv_resume t m sz timeout before suspend_flag k =
     (if error (threads k t) \<noteq> RT_EOK then Some (Done (error (threads k t)), [], k)
      else mq_recv_loop m sz (time_left timeout before k) suspend_flag k)"

definition rt_mq_recv where
  "rt_mq_recv m sz timeout k = mq_recv m sz timeout RT_UNINTERRUPTIBLE k"

definition rt_mq_recv_interruptible where
  "rt_mq_recv_interruptible m sz timeout k = mq_recv m sz timeout RT_INTERRUPTIBLE k"

definition rt_mq_recv_killable where
  "rt_mq_recv_killable m sz timeout k = mq_recv m sz timeout RT_KILLABLE k"

definition rt_mq_control :: "nat \<Rightarrow> ipc_cmd \<Rightarrow> kernel \<Rightarrow> (rt_err_t \<times> kernel) option" where
  "rt_mq_control m cmd k =
     (case cmd of
        IpcReset _ \<Rightarrow> do {
          k1 \<leftarrow> ipc_list_resume_all (MqQ m) k;
          k2 \<leftarrow> ipc_list_resume_all (MqSendQ m) k1;
          q \<leftarrow> mq_drain (mqueues k2 m);
          k3 \<leftarrow> rt_schedule (upd_mq m (\<lambda>_. q\<lparr>mq_entry := 0\<rparr>) k2);
          Some (RT_EOK, k3)
        }
      | IpcOther \<Rightarrow> Some (- RT_ERROR, k))"

section \<open>Chains\<close>

fun chain :: "(nat \<Rightarrow> rt_mq_message) \<Rightarrow> nat option \<Rightarrow> nat list \<Rightarrow> bool" where
  "chain nd None [] = True"
| "chain nd (Some p) (x # xs) = (p = x \<and> chain nd (msg_next (nd x)) xs)"
| "chain nd _ _ = False"

primrec walk :: "nat \<Rightarrow> (nat \<Rightarrow> rt_mq_message) \<Rightarrow> nat option \<Rightarrow> nat list" where
  "walk 0 nd p = []"
| "walk (Suc n) nd p = (case p of None \<Rightarrow> [] | Some x \<Rightarrow> x # walk n nd (msg_next (nd x)))"

lemma walk_chain: "chain nd p xs \<Longrightarrow> walk (length xs) nd p = xs"
  by (induction nd p xs rule: chain.induct) auto

lemma chain_cong:
  "chain nd p xs \<Longrightarrow> (\<And>x. x \<in> set xs \<Longrightarrow> msg_next (nd' x) = msg_next (nd x)) \<Longrightarrow> chain nd' p xs"
  by (induction nd p xs rule: chain.induct) auto

lemma chain_append:
  "chain nd p xs \<Longrightarrow> distinct (xs @ [n]) \<Longrightarrow> xs \<noteq> [] \<Longrightarrow> msg_next (nd n) = None \<Longrightarrow>
   chain (nd(last xs := (nd (last xs))\<lparr>msg_next := Some n\<rparr>)) p (xs @ [n])"
proof (induction nd p xs rule: chain.induct)
  case (2 nd p x xs)
  show ?case
  proof (cases xs)
    case Nil
    then show ?thesis using 2 by auto
  next
    case (Cons y ys)
    then have "x \<noteq> last xs" using "2.prems"(2) by (metis distinct.simps(2) last_in_set append_Cons
          distinct_append list.distinct(1))
    then show ?thesis using 2 Cons by simp
  qed
qed auto

lemma chain_Nil [simp]: "chain nd p [] \<longleftrightarrow> p = None"
  by (cases p) auto

lemma chain_head: "chain nd p xs \<Longrightarrow> p = (if xs = [] then None else Some (hd xs))"
  by (induction nd p xs rule: chain.induct) auto

section \<open>The lists are a bounded queue\<close>

definition mq_lists :: "rt_messagequeue \<Rightarrow> nat list \<Rightarrow> nat list \<Rightarrow> bool" where
  "mq_lists q ns fs \<longleftrightarrow>
     chain (node q) (msg_queue_head q) ns \<and> chain (node q) (msg_queue_free q) fs \<and>
     distinct (ns @ fs) \<and> length ns = unat (mq_entry q) \<and>
     length ns + length fs = unat (max_msgs q) \<and>
     msg_queue_tail q = (if ns = [] then None else Some (last ns)) \<and>
     (\<forall>p \<in> set ns. msg_length (node q p) \<le> ucast (msg_size q) \<and>
        unat (msg_length (node q p)) \<le> length (msg_bytes (node q p)))"

definition mq_nodes :: "rt_messagequeue \<Rightarrow> nat list" where
  "mq_nodes q = walk (unat (mq_entry q)) (node q) (msg_queue_head q)"

definition mq_free :: "rt_messagequeue \<Rightarrow> nat list" where
  "mq_free q = walk (unat (max_msgs q) - unat (mq_entry q)) (node q) (msg_queue_free q)"

definition mq_ok :: "rt_messagequeue \<Rightarrow> bool" where
  "mq_ok q \<longleftrightarrow> mq_lists q (mq_nodes q) (mq_free q)"

definition content :: "rt_mq_message \<Rightarrow> u8 list" where
  "content nd = take (unat (msg_length nd)) (msg_bytes nd)"

definition messages :: "rt_messagequeue \<Rightarrow> u8 list list" where
  "messages q = map (\<lambda>p. content (node q p)) (mq_nodes q)"

lemma mq_lists_nodes:
  assumes "mq_lists q ns fs"
  shows "mq_nodes q = ns" "mq_free q = fs" "mq_ok q"
proof -
  have n: "unat (mq_entry q) = length ns" "unat (max_msgs q) - unat (mq_entry q) = length fs"
    and c: "chain (node q) (msg_queue_head q) ns" "chain (node q) (msg_queue_free q) fs"
    using assms by (auto simp: mq_lists_def)
  show w: "mq_nodes q = ns" "mq_free q = fs"
    using walk_chain[OF c(1)] walk_chain[OF c(2)] n by (simp_all add: mq_nodes_def mq_free_def)
  show "mq_ok q" using assms w by (simp add: mq_ok_def)
qed

definition mq_stored :: "nat \<Rightarrow> u8 list \<Rightarrow> u32 \<Rightarrow> rt_messagequeue \<Rightarrow> rt_messagequeue" where
  "mq_stored p buf sz q = (mq_enqueue p buf sz q)\<lparr>mq_entry := mq_entry q + 1\<rparr>"

definition mq_stored_urgent :: "nat \<Rightarrow> u8 list \<Rightarrow> u32 \<Rightarrow> rt_messagequeue \<Rightarrow> rt_messagequeue" where
  "mq_stored_urgent p buf sz q = (mq_enqueue_urgent p buf sz q)\<lparr>mq_entry := mq_entry q + 1\<rparr>"

definition mq_taken :: "nat \<Rightarrow> rt_messagequeue \<Rightarrow> rt_messagequeue" where
  "mq_taken p q =
     (let q1 = mq_unlink_head p q
      in mq_release p (if mq_entry q1 > 0 then q1\<lparr>mq_entry := mq_entry q1 - 1\<rparr> else q1))"

lemma mq_count_room:
  assumes "mq_lists q ns (p # fs)"
  shows "unat (mq_entry q + 1) = length ns + 1" "mq_entry q < RT_MQ_ENTRY_MAX"
proof -
  have "length ns < unat (max_msgs q)" "length ns = unat (mq_entry q)"
    using assms by (simp_all add: mq_lists_def)
  moreover have "unat (max_msgs q) < 65536" using unsigned_less[of "max_msgs q"] by simp
  ultimately show "unat (mq_entry q + 1) = length ns + 1" "mq_entry q < RT_MQ_ENTRY_MAX"
    by (simp_all add: unat_word_ariths word_less_nat_alt)
qed

lemma mq_stored_ok:
  assumes L: "mq_lists q ns (p # fs)" and sz: "sz \<le> ucast (msg_size q)" "unat sz \<le> length buf"
  shows "mq_lists (mq_stored p buf sz q) (ns @ [p]) fs"
    and "content (node (mq_stored p buf sz q) p) =
      take (unat sz) (take (unat sz) buf @ drop (unat sz) (msg_bytes (node q p)))"
    and "x \<in> set ns \<Longrightarrow> content (node (mq_stored p buf sz q) x) = content (node q x)"
proof -
  define X where "X = (node q p)\<lparr>msg_next := None, msg_length := sz,
    msg_bytes := take (unat sz) buf @ drop (unat sz) (msg_bytes (node q p))\<rparr>"
  define nd1 where "nd1 = (node q)(p := X)"
  define nd where "nd = (if ns = [] then nd1
    else nd1(last ns := (nd1 (last ns))\<lparr>msg_next := Some p\<rparr>))"
  have fr: "msg_queue_free q = Some p" "chain (node q) (msg_next (node q p)) fs"
    and hd: "chain (node q) (msg_queue_head q) ns"
    and d: "distinct (ns @ p # fs)" and tl: "msg_queue_tail q = (if ns = [] then None else Some (last ns))"
    and len: "length ns + length (p # fs) = unat (max_msgs q)"
    and ml: "\<forall>x \<in> set ns. msg_length (node q x) \<le> ucast (msg_size q) \<and>
      unat (msg_length (node q x)) \<le> length (msg_bytes (node q x))"
    using L chain_head[of "node q" "msg_queue_free q" "p # fs"] by (simp_all add: mq_lists_def)
  have l: "ns \<noteq> [] \<Longrightarrow> last ns \<noteq> p" "ns \<noteq> [] \<Longrightarrow> last ns \<notin> set fs" "ns \<noteq> [] \<Longrightarrow> last ns \<in> set ns"
    using d last_in_set[of ns] by (auto simp: disjoint_iff)
  have h: "(msg_queue_head q = None) = (ns = [])" using chain_head[OF hd] by simp
  let ?q' = "mq_stored p buf sz q"
  have f: "node ?q' = nd" "msg_queue_free ?q' = msg_next (node q p)" "msg_queue_tail ?q' = Some p"
    "msg_queue_head ?q' = (if ns = [] then Some p else msg_queue_head q)"
    "mq_entry ?q' = mq_entry q + 1" "max_msgs ?q' = max_msgs q" "msg_size ?q' = msg_size q"
    using tl h l(1)
    by (auto simp: mq_stored_def mq_enqueue_def mq_link_tail_def mq_fill_def upd_node_def Let_def
        nd_def nd1_def X_def)
  have nx: "msg_next (nd x) = msg_next (node q x)" if "x \<noteq> p" "ns = [] \<or> x \<noteq> last ns" for x
    using that by (auto simp: nd_def nd1_def)
  have cf: "chain nd (msg_next (node q p)) fs"
    using fr(2) by (rule chain_cong) (use d l in \<open>auto intro!: nx\<close>)
  have ch: "chain nd (msg_queue_head ?q') (ns @ [p])"
  proof (cases "ns = []")
    case True
    then show ?thesis by (simp add: f nd_def nd1_def X_def)
  next
    case False
    have "chain nd1 (msg_queue_head q) ns"
      using hd by (rule chain_cong) (use d in \<open>auto simp: nd1_def\<close>)
    then show ?thesis
      using chain_append[of nd1 "msg_queue_head q" ns p] False d by (simp add: f nd_def nd1_def X_def)
  qed
  have nx: "nd x = (if x = p then X else if ns \<noteq> [] \<and> x = last ns then (node q x)\<lparr>msg_next := Some p\<rparr>
      else node q x)" for x
    using l(1) by (cases "ns = []") (simp_all add: nd_def nd1_def)
  have nl: "msg_length (nd x) = (if x = p then sz else msg_length (node q x))"
    "msg_bytes (nd x) = (if x = p then msg_bytes X else msg_bytes (node q x))"
    "content (nd x) = (if x = p then content X else content (node q x))" for x
    unfolding nx by (simp_all add: X_def content_def)
  show "mq_lists ?q' (ns @ [p]) fs"
    unfolding mq_lists_def
  proof (intro conjI ballI)
    show "distinct ((ns @ [p]) @ fs)" using d by simp
    show "length (ns @ [p]) = unat (mq_entry ?q')" using mq_count_room(1)[OF L] by (simp add: f)
    show "length (ns @ [p]) + length fs = unat (max_msgs ?q')" using len by (simp add: f)
    show "msg_length (node ?q' x) \<le> ucast (msg_size ?q')"
      "unat (msg_length (node ?q' x)) \<le> length (msg_bytes (node ?q' x))" if "x \<in> set (ns @ [p])" for x
      using that ml sz unfolding f nl by (auto simp: X_def)
  qed (use cf ch in \<open>simp_all add: f\<close>)
  show "content (node ?q' p) = take (unat sz) (take (unat sz) buf @ drop (unat sz) (msg_bytes (node q p)))"
    unfolding f nl by (simp add: X_def content_def)
  show "x \<in> set ns \<Longrightarrow> content (node ?q' x) = content (node q x)"
    unfolding f nl using d by auto
qed

lemma mq_stored_urgent_ok:
  assumes L: "mq_lists q ns (p # fs)" and sz: "sz \<le> ucast (msg_size q)" "unat sz \<le> length buf"
  shows "mq_lists (mq_stored_urgent p buf sz q) (p # ns) fs"
    and "content (node (mq_stored_urgent p buf sz q) p) =
      take (unat sz) (take (unat sz) buf @ drop (unat sz) (msg_bytes (node q p)))"
    and "x \<in> set ns \<Longrightarrow> content (node (mq_stored_urgent p buf sz q) x) = content (node q x)"
proof -
  define X where "X = (node q p)\<lparr>msg_length := sz,
    msg_bytes := take (unat sz) buf @ drop (unat sz) (msg_bytes (node q p)),
    msg_next := msg_queue_head q\<rparr>"
  have fr: "msg_queue_free q = Some p" "chain (node q) (msg_next (node q p)) fs"
    and hd: "chain (node q) (msg_queue_head q) ns"
    and d: "distinct (ns @ p # fs)" and tl: "msg_queue_tail q = (if ns = [] then None else Some (last ns))"
    and len: "length ns + length (p # fs) = unat (max_msgs q)"
    and ml: "\<forall>x \<in> set ns. msg_length (node q x) \<le> ucast (msg_size q) \<and>
      unat (msg_length (node q x)) \<le> length (msg_bytes (node q x))"
    using L chain_head[of "node q" "msg_queue_free q" "p # fs"] by (simp_all add: mq_lists_def)
  let ?q' = "mq_stored_urgent p buf sz q" and ?nd = "(node q)(p := X)"
  have f: "node ?q' = ?nd" "msg_queue_free ?q' = msg_next (node q p)"
    "msg_queue_tail ?q' = Some (last (p # ns))" "msg_queue_head ?q' = Some p"
    "mq_entry ?q' = mq_entry q + 1" "max_msgs ?q' = max_msgs q" "msg_size ?q' = msg_size q"
    using tl by (simp_all add: mq_stored_urgent_def mq_enqueue_urgent_def mq_link_head_def mq_fill_def
        upd_node_def Let_def X_def)
  have cf: "chain ?nd (msg_next (node q p)) fs" using fr(2) by (rule chain_cong) (use d in auto)
  have ch: "chain ?nd (msg_queue_head q) ns" using hd by (rule chain_cong) (use d in auto)
  show "mq_lists ?q' (p # ns) fs"
    unfolding mq_lists_def
  proof (intro conjI ballI)
    show "distinct ((p # ns) @ fs)" using d by auto
    show "length (p # ns) = unat (mq_entry ?q')" using mq_count_room(1)[OF L] by (simp add: f)
    show "length (p # ns) + length fs = unat (max_msgs ?q')" using len by (simp add: f)
    show "msg_length (node ?q' x) \<le> ucast (msg_size ?q')"
      "unat (msg_length (node ?q' x)) \<le> length (msg_bytes (node ?q' x))" if "x \<in> set (p # ns)" for x
      using that ml sz unfolding f by (auto simp: X_def)
  qed (use cf ch in \<open>simp_all add: f X_def\<close>)
  show "content (node ?q' p) = take (unat sz) (take (unat sz) buf @ drop (unat sz) (msg_bytes (node q p)))"
    unfolding f by (simp add: X_def content_def)
  show "x \<in> set ns \<Longrightarrow> content (node ?q' x) = content (node q x)"
    unfolding f using d by auto
qed

lemma mq_taken_ok:
  assumes L: "mq_lists q (p # ns) fs"
  shows "mq_lists (mq_taken p q) ns (p # fs)" "msg_queue_head q = Some p" "mq_entry q \<noteq> 0"
    and "content (node (mq_taken p q) x) = content (node q x)"
    and "max_msgs (mq_taken p q) = max_msgs q" "msg_size (mq_taken p q) = msg_size q"
    and "mq_flag (mq_taken p q) = mq_flag q"
proof -
  have hd: "msg_queue_head q = Some p" "chain (node q) (msg_next (node q p)) ns"
    and fr: "chain (node q) (msg_queue_free q) fs"
    and d: "distinct ((p # ns) @ fs)" and tl: "msg_queue_tail q = Some (last (p # ns))"
    and len: "length (p # ns) + length fs = unat (max_msgs q)" "Suc (length ns) = unat (mq_entry q)"
    and ml: "\<forall>x \<in> set (p # ns). msg_length (node q x) \<le> ucast (msg_size q) \<and>
      unat (msg_length (node q x)) \<le> length (msg_bytes (node q x))"
    using L chain_head[of "node q" "msg_queue_head q" "p # ns"] by (auto simp: mq_lists_def)
  show "msg_queue_head q = Some p" by (rule hd)
  show ne: "mq_entry q \<noteq> 0" using len(2) by auto
  have e: "unat (mq_entry q - 1) = length ns" using len(2) ne by (simp add: unat_minus_one)
  have last: "(last (p # ns) = p) = (ns = [])" using d last_in_set[of ns] by auto
  let ?q' = "mq_taken p q" and ?nd = "(node q)(p := (node q p)\<lparr>msg_next := msg_queue_free q\<rparr>)"
  have f: "node ?q' = ?nd" "msg_queue_free ?q' = Some p"
    "msg_queue_tail ?q' = (if ns = [] then None else Some (last ns))"
    "msg_queue_head ?q' = msg_next (node q p)"
    "mq_entry ?q' = mq_entry q - 1" "max_msgs ?q' = max_msgs q" "msg_size ?q' = msg_size q"
    "mq_flag ?q' = mq_flag q"
    using tl last ne by (auto simp: mq_taken_def mq_unlink_head_def mq_release_def upd_node_def Let_def word_gt_0)
  show "content (node ?q' x) = content (node q x)" unfolding f by (simp add: content_def)
  show "max_msgs ?q' = max_msgs q" "msg_size ?q' = msg_size q" "mq_flag ?q' = mq_flag q" by (rule f)+
  have cf: "chain ?nd (msg_queue_free q) fs" using fr by (rule chain_cong) (use d in auto)
  have ch: "chain ?nd (msg_next (node q p)) ns" using hd(2) by (rule chain_cong) (use d in auto)
  show "mq_lists ?q' ns (p # fs)"
    unfolding mq_lists_def
  proof (intro conjI ballI)
    show "distinct (ns @ p # fs)" using d by auto
    show "length ns = unat (mq_entry ?q')" using e by (simp add: f)
    show "length ns + length (p # fs) = unat (max_msgs ?q')" using len(1) by (simp add: f)
    show "msg_length (node ?q' x) \<le> ucast (msg_size ?q')"
      "unat (msg_length (node ?q' x)) \<le> length (msg_bytes (node ?q' x))" if "x \<in> set ns" for x
      using that ml unfolding f by auto
  qed (use cf ch in \<open>simp_all add: f\<close>)
qed

text \<open>The operations on the queue alone, as a send, an urgent send and a receive perform them.\<close>

definition mq_put :: "u8 list \<Rightarrow> rt_messagequeue \<Rightarrow> rt_messagequeue" where
  "mq_put x q =
     (case msg_queue_free q of None \<Rightarrow> q | Some p \<Rightarrow> mq_stored p x (of_nat (length x)) q)"

definition mq_put_urgent :: "u8 list \<Rightarrow> rt_messagequeue \<Rightarrow> rt_messagequeue" where
  "mq_put_urgent x q =
     (case msg_queue_free q of None \<Rightarrow> q | Some p \<Rightarrow> mq_stored_urgent p x (of_nat (length x)) q)"

definition mq_get :: "rt_messagequeue \<Rightarrow> u8 list \<times> rt_messagequeue" where
  "mq_get q =
     (case msg_queue_head q of None \<Rightarrow> ([], q) | Some p \<Rightarrow> (content (node q p), mq_taken p q))"

lemma messages_lists: "mq_lists q ns fs \<Longrightarrow> messages q = map (\<lambda>p. content (node q p)) ns"
  by (simp add: messages_def mq_lists_nodes)

lemma mq_room:
  assumes "mq_ok q" "length (messages q) < unat (max_msgs q)"
  obtains ns p fs where "mq_lists q ns (p # fs)" "msg_queue_free q = Some p"
proof -
  have L: "mq_lists q (mq_nodes q) (mq_free q)" using assms(1) by (simp add: mq_ok_def)
  then obtain p fs where "mq_free q = p # fs"
    using assms(2) by (cases "mq_free q") (auto simp: messages_def mq_lists_def)
  then show ?thesis
    using that[of "mq_nodes q" p fs] L chain_head[of "node q" "msg_queue_free q" "p # fs"]
    by (simp add: mq_lists_def)
qed

lemma mq_full:
  assumes "mq_ok q"
  shows "msg_queue_free q = None \<longleftrightarrow> length (messages q) = unat (max_msgs q)"
    "length (messages q) \<le> unat (max_msgs q)"
    "length (messages q) = unat (mq_entry q)"
proof -
  have L: "mq_lists q (mq_nodes q) (mq_free q)" using assms(1) by (simp add: mq_ok_def)
  then show "msg_queue_free q = None \<longleftrightarrow> length (messages q) = unat (max_msgs q)"
    using chain_head[of "node q" "msg_queue_free q" "mq_free q"] by (auto simp: messages_def mq_lists_def)
  show "length (messages q) \<le> unat (max_msgs q)" "length (messages q) = unat (mq_entry q)"
    using L by (simp_all add: messages_def mq_lists_def)
qed

lemma mq_head:
  assumes "mq_ok q" "messages q = x # xs"
  obtains p ns fs where "mq_lists q (p # ns) fs" "x = content (node q p)" "xs = map (\<lambda>p. content (node q p)) ns"
proof -
  have L: "mq_lists q (mq_nodes q) (mq_free q)" using assms(1) by (simp add: mq_ok_def)
  obtain p ns where "mq_nodes q = p # ns" using assms(2) by (cases "mq_nodes q") (auto simp: messages_def)
  then show ?thesis using that[of p ns "mq_free q"] L assms(2) by (simp add: messages_def)
qed

lemma stored_bytes:
  "length buf \<ge> n \<Longrightarrow> take n (take n buf @ drop n ys) = take n buf"
  by simp

lemma mq_store_messages:
  assumes L: "mq_lists q ns (p # fs)" and sz: "sz \<le> ucast (msg_size q)" "unat sz \<le> length buf"
  shows "messages (mq_stored p buf sz q) = messages q @ [take (unat sz) buf]"
    and "messages (mq_stored_urgent p buf sz q) = take (unat sz) buf # messages q"
  using messages_lists[OF mq_stored_ok(1)[OF L sz]] messages_lists[OF mq_stored_urgent_ok(1)[OF L sz]]
    messages_lists[OF L] mq_stored_ok(2,3)[OF L sz] mq_stored_urgent_ok(2,3)[OF L sz] sz(2)
  by (simp_all add: stored_bytes)

definition mq_fits :: "rt_messagequeue \<Rightarrow> u8 list \<Rightarrow> bool" where
  "mq_fits q x \<longleftrightarrow> length x \<le> unat (msg_size q)"

lemma mq_fits_size:
  assumes "mq_fits q x"
  shows "(of_nat (length x) :: u32) \<le> ucast (msg_size q)" "unat (of_nat (length x) :: u32) = length x"
proof -
  have m: "unat (msg_size q) < 65536" using unsigned_less[of "msg_size q"] by simp
  then have l: "length x < 65536" using assms by (simp add: mq_fits_def)
  show u: "unat (of_nat (length x) :: u32) = length x" using l by (simp add: unsigned_of_nat take_bit_nat_eq_self)
  show "(of_nat (length x) :: u32) \<le> ucast (msg_size q)"
    using assms u m by (simp add: word_le_nat_alt mq_fits_def unsigned_ucast_eq take_bit_nat_eq_self)
qed

lemma mq_const:
  "msg_size (mq_put x q) = msg_size q" "max_msgs (mq_put x q) = max_msgs q"
  "max_msgs (mq_put_urgent x q) = max_msgs q" "max_msgs (snd (mq_get q)) = max_msgs q"
  by (auto simp: mq_put_def mq_put_urgent_def mq_get_def mq_stored_def mq_stored_urgent_def
      mq_enqueue_def mq_enqueue_urgent_def mq_link_tail_def mq_link_head_def mq_fill_def upd_node_def
      mq_taken_def mq_unlink_head_def mq_release_def Let_def split: option.splits)

interpretation mqueue: bounded_fifo mq_ok messages "\<lambda>q. unat (max_msgs q)" mq_fits
  mq_put mq_get mq_put_urgent
proof unfold_locales
  fix q x assume a: "mq_ok q" "mq_fits q x" "length (messages q) < unat (max_msgs q)"
  obtain ns p fs where L: "mq_lists q ns (p # fs)" and fr: "msg_queue_free q = Some p"
    by (rule mq_room[OF a(1,3)])
  note s = mq_fits_size[OF a(2)]
  have p: "mq_put x q = mq_stored p x (of_nat (length x)) q"
    "mq_put_urgent x q = mq_stored_urgent p x (of_nat (length x)) q"
    by (simp_all add: mq_put_def mq_put_urgent_def fr)
  have l: "unat (of_nat (length x) :: u32) \<le> length x" using s(2) by simp
  show "mq_ok (mq_put x q)" "mq_ok (mq_put_urgent x q)"
    unfolding p using mq_lists_nodes(3) mq_stored_ok(1)[OF L s(1) l] mq_stored_urgent_ok(1)[OF L s(1) l] by blast+
  show "messages (mq_put x q) = messages q @ [x]" "messages (mq_put_urgent x q) = x # messages q"
    unfolding p using mq_store_messages[OF L s(1), of x] s(2) by simp_all
next
  fix q x xs assume a: "mq_ok q" "messages q = x # xs"
  obtain p ns fs where L: "mq_lists q (p # ns) fs" and x: "x = content (node q p)"
    "xs = map (\<lambda>p. content (node q p)) ns" by (rule mq_head[OF a])
  note T = mq_taken_ok[OF L]
  have g: "mq_get q = (x, mq_taken p q)" by (simp add: mq_get_def T(2) x)
  show "mq_ok (snd (mq_get q))" unfolding g using mq_lists_nodes(3)[OF T(1)] by simp
  show "messages (snd (mq_get q)) = xs" unfolding g using messages_lists[OF T(1)] T(4) x by simp
  show "fst (mq_get q) = x" by (simp add: g)
next
  show "mq_ok q \<Longrightarrow> length (messages q) \<le> unat (max_msgs q)" for q by (rule mq_full(2))
qed (simp_all add: mq_const mq_fits_def)

section \<open>Initialising and draining\<close>

lemma link_free_simps:
  "msg_queue_head (mq_link_free n q) = msg_queue_head q"
  "msg_queue_tail (mq_link_free n q) = msg_queue_tail q"
  "max_msgs (mq_link_free n q) = max_msgs q" "msg_size (mq_link_free n q) = msg_size q"
  "mq_flag (mq_link_free n q) = mq_flag q"
  by (induction n) (simp_all add: upd_node_def Let_def)

lemma link_free_chain:
  "chain (node (mq_link_free n q)) (msg_queue_free (mq_link_free n q)) (rev [0..<n])"
proof (induction n)
  case (Suc n)
  have "chain (node (mq_link_free (Suc n) q)) (msg_queue_free (mq_link_free n q)) (rev [0..<n])"
    using Suc by (rule chain_cong) (auto simp: upd_node_def Let_def)
  then show ?case by (simp add: upd_node_def Let_def fun_upd_def)
qed simp

lemma mq_reset_ok: "mq_ok (mq_reset q)" "messages (mq_reset q) = []" "mq_flag (mq_reset q) = mq_flag q"
proof -
  let ?n = "unat (max_msgs q)"
  have "mq_lists (mq_reset q) [] (rev [0..<?n])"
    using link_free_chain[of ?n "q\<lparr>msg_queue_head := None, msg_queue_tail := None\<rparr>"]
    by (simp add: mq_lists_def mq_reset_def link_free_simps)
  then show "mq_ok (mq_reset q)" "messages (mq_reset q) = []"
    by (simp_all add: mq_lists_nodes(3) messages_lists)
qed (simp add: mq_reset_def link_free_simps)

text \<open>A reset leaves the counter alone until the loop has ended.\<close>

definition mq_lists_but_entry :: "rt_messagequeue \<Rightarrow> nat list \<Rightarrow> nat list \<Rightarrow> bool" where
  "mq_lists_but_entry q ns fs \<longleftrightarrow> mq_lists (q\<lparr>mq_entry := of_nat (length ns)\<rparr>) ns fs"

lemma mq_drain_step:
  assumes "mq_lists_but_entry q (p # ns) fs"
  shows "mq_lists_but_entry (mq_release p (mq_unlink_head p q)) ns (p # fs)" "msg_queue_head q = Some p"
proof -
  let ?q0 = "q\<lparr>mq_entry := of_nat (length (p # ns))\<rparr>"
  have L: "mq_lists ?q0 (p # ns) fs" using assms by (simp add: mq_lists_but_entry_def)
  note T = mq_taken_ok[OF L]
  show "msg_queue_head q = Some p" using T(2) by simp
  have "mq_entry ?q0 > 0" using T(3) by (simp add: word_gt_0)
  then have "mq_taken p ?q0 = (mq_release p (mq_unlink_head p q))\<lparr>mq_entry := of_nat (length ns)\<rparr>"
    by (simp add: mq_taken_def mq_release_def mq_unlink_head_def upd_node_def Let_def)
  then show "mq_lists_but_entry (mq_release p (mq_unlink_head p q)) ns (p # fs)"
    using T(1) by (simp add: mq_lists_but_entry_def)
qed

lemma mq_drain_ok:
  "mq_lists_but_entry q ns fs \<Longrightarrow>
   \<exists>q'. mq_drain q = Some q' \<and> mq_lists_but_entry q' [] (rev ns @ fs) \<and> mq_flag q' = mq_flag q"
proof (induction ns arbitrary: q fs)
  case Nil
  then show ?case by (subst mq_drain.simps) (simp add: mq_lists_but_entry_def mq_lists_def)
next
  case (Cons p ns)
  note S = mq_drain_step[OF Cons.prems]
  have "mq_flag (mq_release p (mq_unlink_head p q)) = mq_flag q"
    by (simp add: mq_release_def mq_unlink_head_def upd_node_def Let_def)
  then show ?case using Cons.IH[OF S(1)] S(2) by (subst mq_drain.simps) simp
qed

section \<open>Sending and receiving\<close>

lemma upd_mq_simps [simp]:
  "mqueues (upd_mq m f k) r = (if r = m then f (mqueues k m) else mqueues k r)"
  "threads (upd_mq m f k) = threads k" "queues (upd_mq m f k) = queues k"
  "ready_group (upd_mq m f k) = ready_group k" "cur (upd_mq m f k) = cur k"
  "timers (upd_mq m f k) = timers k" "timer_lists (upd_mq m f k) = timer_lists k"
  "tick (upd_mq m f k) = tick k" "lock_nest (upd_mq m f k) = lock_nest k"
  "interrupt_nest (upd_mq m f k) = interrupt_nest k"
  "runnable (upd_mq m f k) t = runnable k t"
  "upd_mq m g (upd_mq m f k) = upd_mq m (\<lambda>x. g (f x)) k"
  by (simp_all add: upd_mq_def runnable_def tstat_def)

lemma sysinv_upd_mq [simp]: "sysinv b (upd_mq m f k) = sysinv b k"
  by (rule sysinv_cong) simp_all

lemma upd_mq_frame: "first_woken q (upd_mq m f k) k' = first_woken q k k'"
  by (simp add: first_woken_def split: list.split)

definition mq_wf :: "nat \<Rightarrow> kernel \<Rightarrow> bool" where
  "mq_wf m k \<longleftrightarrow> mq_flag (mqueues k m) \<in> {RT_IPC_FLAG_FIFO, RT_IPC_FLAG_PRIO} \<and> mq_ok (mqueues k m)"

definition mq_sent ::
  "nat \<Rightarrow> u8 list \<Rightarrow> u32 \<Rightarrow> int \<Rightarrow> tid \<Rightarrow> kernel \<Rightarrow> outcome \<times> kernel \<Rightarrow> bool" where
  "mq_sent m buf sz timeout t k = (\<lambda>(r, k').
     let q = mqueues k m in
     if length (messages q) < unat (max_msgs q)
     then r = Done RT_EOK \<and> messages (mqueues k' m) = messages q @ [take (unat sz) buf] \<and>
       first_woken (MqQ m) k k'
     else if timeout = 0
     then r = Done (- RT_EFULL) \<and> mqueues k' = mqueues k \<and> queues k' = queues k
     else r = Waiting \<and> now_waits (MqSendQ m) (mq_flag q) t timeout k k')"

definition mq_received ::
  "nat \<Rightarrow> u32 \<Rightarrow> int \<Rightarrow> tid \<Rightarrow> kernel \<Rightarrow> outcome \<times> u8 list \<times> kernel \<Rightarrow> bool" where
  "mq_received m sz timeout t k = (\<lambda>(r, out, k').
     let q = mqueues k m in
     case messages q of
       x # xs \<Rightarrow> out = take (unat sz) x \<and> r = Done (int (length out)) \<and>
         messages (mqueues k' m) = xs \<and> first_woken (MqSendQ m) k k'
     | [] \<Rightarrow>
         out = [] \<and>
         (if timeout = 0
          then r = Done (- RT_ETIMEOUT) \<and> mqueues k' = mqueues k \<and> queues k' = queues k
          else r = Waiting \<and> now_waits (MqQ m) (mq_flag q) t timeout k k'))"

text \<open>A linked message is counted, and the first receiver woken.\<close>

lemma mq_count_ok:
  assumes inv: "sysinv b k" and c: "cur k = Some t" and e: "mq_entry (f (mqueues k m)) < RT_MQ_ENTRY_MAX"
  obtains k' where "mq_count m (upd_mq m f k) = Some (RT_EOK, k')" "sysinv b k'" "cur k' \<noteq> None"
    "mqueues k' m = (f (mqueues k m))\<lparr>mq_entry := mq_entry (f (mqueues k m)) + 1\<rparr>" "first_woken (MqQ m) k k'"
proof -
  define k1 where "k1 = upd_mq m (\<lambda>q. q\<lparr>mq_entry := mq_entry q + 1\<rparr>) (upd_mq m f k)"
  have k1: "sysinv b k1" "cur k1 = Some t" using inv c by (simp_all add: k1_def)
  obtain k' where k': "wake_first (MqQ m) k1 = Some k'" "sysinv b k'" "cur k' \<noteq> None" "woke_first (MqQ m) k1 k'"
    by (rule mqq.wake_first_ok[OF k1, of m])
  have mk: "mqueues k' = mqueues k1" by (rule objectsD(5)[OF woke_first_objects[OF k'(4)]])
  have "first_woken (MqQ m) k k'"
    using woke_first_woken[OF k'(4)] k1(1) by (simp add: k1_def upd_mq_frame sysinv_def)
  moreover have "mq_count m (upd_mq m f k) = Some (RT_EOK, k')"
    using k'(1) e by (simp add: mq_count_def k1_def)
  ultimately show ?thesis using that k'(2,3) mk by (simp add: k1_def)
qed

lemma mq_send_loop_correct:
  assumes call: "may_call b t timeout k" and wf: "mq_wf m k" and sf: "sflag \<le> RT_UNINTERRUPTIBLE"
    and sz: "sz \<le> ucast (msg_size (mqueues k m))" "unat sz \<le> length buf"
  shows "ok (mq_send_loop m buf sz timeout sflag k)
    (\<lambda>(r, k'). sysinv b k' \<and> mq_wf m k' \<and> mq_sent m buf sz timeout t k (r, k'))"
proof -
  let ?q = "mqueues k m"
  have inv: "sysinv b k" and c: "cur k = Some t" and to: "timeout < 2 ^ 31 - 1"
    using call by (simp_all add: may_call_def)
  have qk: "mq_ok ?q" and fl: "mq_flag ?q \<in> {RT_IPC_FLAG_FIFO, RT_IPC_FLAG_PRIO}"
    using wf by (simp_all add: mq_wf_def)
  show ?thesis
  proof (cases "length (messages ?q) < unat (max_msgs ?q)")
    case True
    obtain ns p fs where L: "mq_lists ?q ns (p # fs)" and fr: "msg_queue_free ?q = Some p"
      by (rule mq_room[OF qk True])
    have en: "mq_entry (mq_enqueue p buf sz ?q) = mq_entry ?q" "mq_flag (mq_enqueue p buf sz ?q) = mq_flag ?q"
      by (simp_all add: mq_enqueue_def mq_link_tail_def mq_fill_def upd_node_def Let_def split: option.splits)
    obtain k' where k': "mq_count m (upd_mq m (mq_enqueue p buf sz) k) = Some (RT_EOK, k')" "sysinv b k'"
      "mqueues k' m = (mq_enqueue p buf sz ?q)\<lparr>mq_entry := mq_entry (mq_enqueue p buf sz ?q) + 1\<rparr>"
      "first_woken (MqQ m) k k'"
      by (rule mq_count_ok[OF inv c, of "mq_enqueue p buf sz" m]) (use mq_count_room(2)[OF L] en in simp)
    have q': "mqueues k' m = mq_stored p buf sz ?q" using k'(3) by (simp add: mq_stored_def en)
    have "mq_wf m k'"
      using mq_lists_nodes(3)[OF mq_stored_ok(1)[OF L sz]] fl en(2) by (simp add: mq_wf_def q') (simp add: mq_stored_def)
    moreover have "messages (mqueues k' m) = messages ?q @ [take (unat sz) buf]"
      unfolding q' by (rule mq_store_messages(1)[OF L sz])
    ultimately show ?thesis
      using True fr k'(1,2,4) by (simp add: mq_send_loop_def mq_sent_def Let_def)
  next
    case False
    then have full: "msg_queue_free ?q = None" using mq_full[OF qk] by simp
    show ?thesis
    proof (cases "timeout = 0")
      case True
      then show ?thesis
        using False full inv c wf by (simp add: mq_send_loop_def mq_sent_def mq_wf_def rt_thread_self_def Let_def)
    next
      case nz: False
      have run: "runs b t (set_error t (- RT_EINTR) k)" using call nz by (simp add: may_call_def runs_def)
      obtain k' where k': "wait_pass (MqSendQ m) t (mq_flag ?q) timeout sflag (set_error t (- RT_EINTR) k) =
          Some (Waiting, k')" "sysinv b k'"
        "waits_on (MqSendQ m) (mq_flag ?q) t timeout (set_error t (- RT_EINTR) k) k'"
        by (rule mqsendq.wait_pass_ok[OF run fl sf to, of m])
      have "mqueues k' = mqueues k" by (rule objectsD(5)[OF waits_on_error(4)[OF k'(3)]])
      then have "mq_wf m k'" using wf by (simp add: mq_wf_def)
      then show ?thesis
        using False full nz k'(1,2) c waits_on_now[OF k'(3)]
        by (simp add: mq_send_loop_def mq_sent_def rt_thread_self_def Let_def)
    qed
  qed
qed

lemma mq_recv_loop_correct:
  assumes call: "may_call b t timeout k" and wf: "mq_wf m k" and sf: "sflag \<le> RT_UNINTERRUPTIBLE"
  shows "ok (mq_recv_loop m sz timeout sflag k)
    (\<lambda>(r, out, k'). sysinv b k' \<and> mq_wf m k' \<and> mq_received m sz timeout t k (r, out, k'))"
proof -
  let ?q = "mqueues k m"
  have inv: "sysinv b k" and c: "cur k = Some t" and to: "timeout < 2 ^ 31 - 1"
    using call by (simp_all add: may_call_def)
  have qk: "mq_ok ?q" and fl: "mq_flag ?q \<in> {RT_IPC_FLAG_FIFO, RT_IPC_FLAG_PRIO}"
    using wf by (simp_all add: mq_wf_def)
  show ?thesis
  proof (cases "messages ?q")
    case (Cons x xs)
    obtain p ns fs where L: "mq_lists ?q (p # ns) fs" and x: "x = content (node ?q p)"
      and xs: "xs = map (\<lambda>p. content (node ?q p)) ns" by (rule mq_head[OF qk Cons])
    note T = mq_taken_ok[OF L]
    let ?nd = "node ?q p"
    define len where "len = (if msg_length ?nd > sz then sz else msg_length ?nd)"
    have bytes: "unat (msg_length ?nd) \<le> length (msg_bytes ?nd)" using L by (simp add: mq_lists_def)
    have out: "take (unat len) (msg_bytes ?nd) = take (unat sz) x"
      by (auto simp: len_def x content_def min_def word_le_nat_alt word_less_nat_alt)
    have n: "uint len = int (length (take (unat sz) x))"
    proof -
      have "unat len = length (take (unat sz) x)"
        using bytes by (auto simp: len_def x content_def min_def word_less_nat_alt)
      then show ?thesis by (simp add: uint_nat)
    qed
    define k1 where "k1 = upd_mq m (\<lambda>_. mq_taken p ?q) k"
    have k1: "sysinv b k1" "cur k1 = Some t" using inv c by (simp_all add: k1_def)
    obtain k' where k': "wake_first (MqSendQ m) k1 = Some k'" "sysinv b k'" "woke_first (MqSendQ m) k1 k'"
      by (rule mqsendq.wake_first_ok[OF k1, of m])
    have mk: "mqueues k' = mqueues k1" by (rule objectsD(5)[OF woke_first_objects[OF k'(3)]])
    have "first_woken (MqSendQ m) k k'"
      using woke_first_woken[OF k'(3)] k1(1) by (simp add: k1_def upd_mq_frame sysinv_def)
    moreover have "messages (mqueues k' m) = xs" "mq_wf m k'"
      using messages_lists[OF T(1)] T(4,7) xs mq_lists_nodes(3)[OF T(1)] fl
      by (simp_all add: mk k1_def mq_wf_def)
    moreover have "mq_recv_loop m sz timeout sflag k = Some (Done (uint len), take (unat len) (msg_bytes ?nd), k')"
    proof -
      have un: "node (mq_unlink_head p ?q) = node ?q" "mq_entry (mq_unlink_head p ?q) = mq_entry ?q"
        by (simp_all add: mq_unlink_head_def Let_def)
      then show ?thesis
        using T(2,3) k'(1)
        by (simp add: mq_recv_loop_def Let_def k1_def mq_taken_def len_def word_gt_0)
    qed
    ultimately show ?thesis using k'(2) Cons out n by (simp add: mq_received_def Let_def)
  next
    case Nil
    then have e: "mq_entry ?q = 0" using mq_full(3)[OF qk] by (simp add: unat_eq_0)
    show ?thesis
    proof (cases "timeout = 0")
      case True
      then show ?thesis
        using e Nil inv c wf by (simp add: mq_recv_loop_def mq_received_def mq_wf_def rt_thread_self_def Let_def)
    next
      case False
      have run: "runs b t (set_error t (- RT_EINTR) k)" using call False by (simp add: may_call_def runs_def)
      obtain k' where k': "wait_pass (MqQ m) t (mq_flag ?q) timeout sflag (set_error t (- RT_EINTR) k) =
          Some (Waiting, k')" "sysinv b k'"
        "waits_on (MqQ m) (mq_flag ?q) t timeout (set_error t (- RT_EINTR) k) k'"
        by (rule mqq.wait_pass_ok[OF run fl sf to, of m])
      have "mqueues k' = mqueues k" by (rule objectsD(5)[OF waits_on_error(4)[OF k'(3)]])
      then have "mq_wf m k'" using wf by (simp add: mq_wf_def)
      then show ?thesis
        using e Nil False k'(1,2) c waits_on_now[OF k'(3)]
        by (simp add: mq_recv_loop_def mq_received_def rt_thread_self_def Let_def)
    qed
  qed
qed

lemma mq_urgent_correct:
  assumes inv: "sysinv b k" and c: "cur k = Some t" and wf: "mq_wf m k" and nz: "sz \<noteq> 0"
    and sz: "sz \<le> ucast (msg_size (mqueues k m))" "unat sz \<le> length buf"
  shows "ok (rt_mq_urgent m buf sz k) (\<lambda>(e, k'). sysinv b k' \<and> mq_wf m k' \<and>
    (let q = mqueues k m in
     if length (messages q) < unat (max_msgs q)
     then e = RT_EOK \<and> messages (mqueues k' m) = take (unat sz) buf # messages q \<and> first_woken (MqQ m) k k'
     else e = - RT_EFULL \<and> k' = k))"
proof -
  let ?q = "mqueues k m"
  have qk: "mq_ok ?q" and fl: "mq_flag ?q \<in> {RT_IPC_FLAG_FIFO, RT_IPC_FLAG_PRIO}"
    using wf by (simp_all add: mq_wf_def)
  show ?thesis
  proof (cases "length (messages ?q) < unat (max_msgs ?q)")
    case True
    obtain ns p fs where L: "mq_lists ?q ns (p # fs)" and fr: "msg_queue_free ?q = Some p"
      by (rule mq_room[OF qk True])
    have en: "mq_entry (mq_enqueue_urgent p buf sz ?q) = mq_entry ?q"
      "mq_flag (mq_enqueue_urgent p buf sz ?q) = mq_flag ?q"
      by (simp_all add: mq_enqueue_urgent_def mq_link_head_def mq_fill_def upd_node_def Let_def)
    obtain k' where k': "mq_count m (upd_mq m (mq_enqueue_urgent p buf sz) k) = Some (RT_EOK, k')" "sysinv b k'"
      "mqueues k' m = (mq_enqueue_urgent p buf sz ?q)\<lparr>mq_entry := mq_entry (mq_enqueue_urgent p buf sz ?q) + 1\<rparr>"
      "first_woken (MqQ m) k k'"
      by (rule mq_count_ok[OF inv c, of "mq_enqueue_urgent p buf sz" m]) (use mq_count_room(2)[OF L] en in simp)
    have q': "mqueues k' m = mq_stored_urgent p buf sz ?q" using k'(3) by (simp add: mq_stored_urgent_def en)
    have "mq_wf m k'"
      using mq_lists_nodes(3)[OF mq_stored_urgent_ok(1)[OF L sz]] fl en(2)
      by (simp add: mq_wf_def q') (simp add: mq_stored_urgent_def)
    moreover have "messages (mqueues k' m) = take (unat sz) buf # messages ?q"
      unfolding q' by (rule mq_store_messages(2)[OF L sz])
    ultimately show ?thesis
      using True fr k'(1,2,4) nz sz(1) by (simp add: rt_mq_urgent_def Let_def)
  next
    case False
    then have "msg_queue_free ?q = None" using mq_full[OF qk] by simp
    then show ?thesis using False inv wf nz sz(1) by (simp add: rt_mq_urgent_def Let_def)
  qed
qed

text \<open>A reset wakes both queues and leaves an empty, sound queue.\<close>

lemma mq_reset_correct:
  assumes inv: "sysinv b k" and wf: "mq_wf m k" and c: "cur k = Some c"
  shows "ok (rt_mq_control m (IpcReset v) k) (\<lambda>(e, k'). e = RT_EOK \<and> sysinv b k' \<and> mq_wf m k' \<and>
    messages (mqueues k' m) = [] \<and> queues k' (MqQ m) = [] \<and> queues k' (MqSendQ m) = [])"
proof -
  obtain k1 where k1: "ipc_list_resume_all (MqQ m) k = Some k1" "sysinv b k1" "all_woken (MqQ m) k k1"
    using mqq.resume_all_ok[OF inv, of m] by (auto simp: ok_iff)
  obtain k2 where k2: "ipc_list_resume_all (MqSendQ m) k1 = Some k2" "sysinv b k2" "all_woken (MqSendQ m) k1 k2"
    using mqsendq.resume_all_ok[OF k1(2), of m] by (auto simp: ok_iff)
  have mk: "mqueues k2 = mqueues k" and c2: "cur k2 = Some c"
    and qs: "queues k2 (MqQ m) = []" "queues k2 (MqSendQ m) = []"
    using k1(3) k2(3) c by (auto simp: all_woken_def waitq_def dest: objectsD(5))
  have L: "mq_lists (mqueues k m) (mq_nodes (mqueues k m)) (mq_free (mqueues k m))"
    using wf by (simp add: mq_wf_def mq_ok_def)
  then have "of_nat (length (mq_nodes (mqueues k m))) = mq_entry (mqueues k m)"
    by (simp add: mq_lists_def)
  then have "mq_lists_but_entry (mqueues k m) (mq_nodes (mqueues k m)) (mq_free (mqueues k m))"
    using L by (simp add: mq_lists_but_entry_def)
  from mq_drain_ok[OF this] obtain q' fs where q': "mq_drain (mqueues k m) = Some q'"
    "mq_lists_but_entry q' [] fs" "mq_flag q' = mq_flag (mqueues k m)" by blast
  let ?q = "q'\<lparr>mq_entry := 0\<rparr>" and ?k3 = "upd_mq m (\<lambda>_. q'\<lparr>mq_entry := 0\<rparr>) k2"
  have L': "mq_lists ?q [] fs" using q'(2) by (simp add: mq_lists_but_entry_def)
  have "sysinv b ?k3" "cur ?k3 = Some c" using k2(2) c2 by simp_all
  then obtain k' where k': "rt_schedule ?k3 = Some k'" "sysinv b k'" "sched_frame ?k3 k'"
    using rt_schedule_sys[of b ?k3 c] by (auto simp: ok_iff)
  note F = sched_frameD[OF k'(3)]
  have "mqueues k' m = ?q" using F(22) by simp
  then have "mq_wf m k'" "messages (mqueues k' m) = []"
    using wf mq_lists_nodes(3)[OF L'] messages_lists[OF L'] q'(3) by (simp_all add: mq_wf_def)
  moreover have "queues k' (MqQ m) = []" "queues k' (MqSendQ m) = []"
    using F(20)[of "MqQ m"] F(20)[of "MqSendQ m"] qs by (simp_all add: waitq_def)
  moreover have "rt_mq_control m (IpcReset v) k = Some (RT_EOK, k')"
    using k1(1) k2(1) q'(1) k'(1) by (simp add: rt_mq_control_def mk)
  ultimately show ?thesis using k'(2) by simp
qed

section \<open>Properties\<close>

text \<open>C10: With a free message left a send copies its bytes to the end of the queue and wakes the first
  receiver; on a full queue it returns \<open>-RT_EFULL\<close> when it may not wait, and otherwise suspends the
  caller among the senders. The linked lists of the queue stay sound.\<close>
theorem mq_send_refines:
  assumes "may_call b t timeout k" "mq_wf m k" "sz \<noteq> 0" "unat sz \<le> length buf"
    and "sz \<le> ucast (msg_size (mqueues k m))"
  shows "ok (rt_mq_send_wait m buf sz timeout k)
    (\<lambda>(r, k'). sysinv b k' \<and> mq_wf m k' \<and> mq_sent m buf sz timeout t k (r, k'))"
proof (cases "msg_queue_free (mqueues k m) = None \<and> timeout = 0")
  case True
  then show ?thesis
    using assms mq_full(1)[of "mqueues k m"]
    by (simp add: rt_mq_send_wait_def mq_send_wait_def mq_sent_def may_call_def mq_wf_def Let_def)
next
  case False
  have "ok (mq_send_loop m buf sz timeout RT_UNINTERRUPTIBLE k)
    (\<lambda>(r, k'). sysinv b k' \<and> mq_wf m k' \<and> mq_sent m buf sz timeout t k (r, k'))"
    by (rule mq_send_loop_correct) (use assms in simp_all)
  moreover have "rt_mq_send_wait m buf sz timeout k = mq_send_loop m buf sz timeout RT_UNINTERRUPTIBLE k"
    using False assms by (auto simp: rt_mq_send_wait_def mq_send_wait_def may_call_def)
  ultimately show ?thesis by simp
qed

lemma example_mq_wf: "mq_wf m example_kernel"
proof -
  have "mq_lists (mqueues example_kernel m) [] [1, 0]"
    by (simp add: mq_lists_def example_kernel_def)
  from mq_lists_nodes(3)[OF this] show ?thesis by (simp add: mq_wf_def) (simp add: example_kernel_def)
qed

lemma example_mq_size: "msg_size (mqueues example_kernel m) = 8"
  by (simp add: example_kernel_def)

theorem mq_send_refines_witness:
  "ok (rt_mq_send_wait 0 [1, 2, 3] 3 20 example_kernel)
    (\<lambda>(r, k'). sysinv 100 k' \<and> mq_wf 0 k' \<and> mq_sent 0 [1, 2, 3] 3 20 0 example_kernel (r, k'))"
  by (rule mq_send_refines[OF example_may_call example_mq_wf]) (simp_all add: example_mq_size)

text \<open>C11: A receive returns the bytes of the oldest message, cut to the buffer, and their number, gives the
  message back to the free list and wakes the first sender; on an empty queue it returns
  \<open>-RT_ETIMEOUT\<close> when it may not wait, and otherwise suspends the caller.\<close>
theorem mq_recv_refines:
  assumes "may_call b t timeout k" "mq_wf m k" "sz \<noteq> 0"
  shows "ok (rt_mq_recv m sz timeout k)
    (\<lambda>(r, out, k'). sysinv b k' \<and> mq_wf m k' \<and> mq_received m sz timeout t k (r, out, k'))"
proof (cases "mq_entry (mqueues k m) = 0 \<and> timeout = 0")
  case True
  then have "messages (mqueues k m) = []" by (simp add: messages_def mq_nodes_def)
  then show ?thesis
    using True assms by (simp add: rt_mq_recv_def mq_recv_def mq_received_def may_call_def Let_def)
next
  case False
  have "ok (mq_recv_loop m sz timeout RT_UNINTERRUPTIBLE k)
    (\<lambda>(r, out, k'). sysinv b k' \<and> mq_wf m k' \<and> mq_received m sz timeout t k (r, out, k'))"
    by (rule mq_recv_loop_correct) (use assms in simp_all)
  moreover have "rt_mq_recv m sz timeout k = mq_recv_loop m sz timeout RT_UNINTERRUPTIBLE k"
    using False assms by (auto simp: rt_mq_recv_def mq_recv_def may_call_def)
  ultimately show ?thesis by simp
qed

theorem mq_recv_refines_witness:
  "ok (rt_mq_recv 0 8 20 example_kernel)
    (\<lambda>(r, out, k'). sysinv 100 k' \<and> mq_wf 0 k' \<and> mq_received 0 8 20 0 example_kernel (r, out, k'))"
  by (rule mq_recv_refines[OF example_may_call example_mq_wf]) simp_all

text \<open>A reset ends: it frees every message, wakes every receiver and sender, and leaves a sound
  empty queue.\<close>
theorem mq_reset_empties:
  assumes "sysinv b k" "mq_wf m k" "cur k = Some c"
  shows "ok (rt_mq_control m (IpcReset v) k) (\<lambda>(e, k'). e = RT_EOK \<and> sysinv b k' \<and> mq_wf m k' \<and>
    messages (mqueues k' m) = [] \<and> queues k' (MqQ m) = [] \<and> queues k' (MqSendQ m) = [])"
  by (rule mq_reset_correct[OF assms])

theorem mq_reset_empties_witness:
  "ok (rt_mq_control 0 (IpcReset 0) example_kernel) (\<lambda>(e, k'). e = RT_EOK \<and> sysinv 100 k' \<and> mq_wf 0 k' \<and>
    messages (mqueues k' 0) = [] \<and> queues k' (MqQ 0) = [] \<and> queues k' (MqSendQ 0) = [])"
  by (rule mq_reset_empties[OF example_sysinv example_mq_wf example_available(2)])

end
