(* ===== verification/Mutex.thy ===== *)
theory Mutex
  imports IpcList
begin

text \<open>
  Mutexes (\<open>src/ipc.c\<close>, \<open>rt_mutex_*\<close>): recursive ownership, priority inheritance along chains of
  waiting owners, and priority ceilings. The node of a mutex in the taken list of its owner is an entry
  of \<open>taken_object_list\<close>.
\<close>

section \<open>Operations\<close>

abbreviation RT_MUTEX_HOLD_MAX :: u8 where "RT_MUTEX_HOLD_MAX \<equiv> 0xff"

definition upd_mutex :: "nat \<Rightarrow> (rt_mutex \<Rightarrow> rt_mutex) \<Rightarrow> kernel \<Rightarrow> kernel" where
  "upd_mutex m f k = k\<lparr>mutexes := (mutexes k)(m := f (mutexes k m))\<rparr>"

text \<open>\<open>rt_list_remove\<close> on the node of a mutex in a taken list.\<close>

definition taken_remove :: "nat \<Rightarrow> kernel \<Rightarrow> kernel" where
  "taken_remove m k =
     k\<lparr>threads := (\<lambda>t. (threads k t)\<lparr>taken_object_list := removeAll m (taken_object_list (threads k t))\<rparr>)\<rparr>"

definition taken_insert :: "tid \<Rightarrow> nat \<Rightarrow> kernel \<Rightarrow> kernel" where
  "taken_insert t m k = upd_thread t (\<lambda>th. th\<lparr>taken_object_list := m # taken_object_list th\<rparr>) k"

definition first_waiter_priority :: "nat \<Rightarrow> kernel \<Rightarrow> u8" where
  "first_waiter_priority m k =
     (case queues k (MutexQ m) of t # _ \<Rightarrow> current_priority (threads k t) | [] \<Rightarrow> 0xff)"

definition mutex_update_priority :: "nat \<Rightarrow> kernel \<Rightarrow> kernel" where
  "mutex_update_priority m k = upd_mutex m (\<lambda>mx. mx\<lparr>mutex_priority := first_waiter_priority m k\<rparr>) k"

definition mutex_prio :: "rt_mutex \<Rightarrow> u8" where
  "mutex_prio mx = (if mutex_priority mx < ceiling_priority mx then mutex_priority mx else ceiling_priority mx)"

definition thread_get_mutex_priority :: "tid \<Rightarrow> kernel \<Rightarrow> u8" where
  "thread_get_mutex_priority t k =
     fold (\<lambda>m p. let q = mutex_prio (mutexes k m) in if p > q then q else p)
       (taken_object_list (threads k t)) (init_priority (threads k t))"

text \<open>The loop of \<open>_thread_update_priority\<close>, from thread to mutex to owner.\<close>

partial_function (option) update_priority_loop :: "tid \<Rightarrow> nat \<Rightarrow> kernel \<Rightarrow> kernel option" where
  "update_priority_loop t suspend_flag k =
     (if suspended k t then
        case pending_object (threads k t) of
          None \<Rightarrow> Some k
        | Some m \<Rightarrow> do {
            (ret, k1) \<leftarrow> ipc_list_suspend (MutexQ m) t (mutex_flag (mutexes k m)) suspend_flag
                         (k\<lparr>queues := q_remove t (queues k)\<rparr>);
            if ret \<noteq> RT_EOK then Some k1
            else do {
              let k2 = mutex_update_priority m k1;
              ow \<leftarrow> owner (mutexes k2 m);
              let p = thread_get_mutex_priority ow k2;
              if p \<noteq> current_priority (threads k2 ow)
              then update_priority_loop ow suspend_flag (change_priority ow p k2)
              else Some k2
            }
          }
      else Some k)"

definition thread_update_priority :: "tid \<Rightarrow> u8 \<Rightarrow> nat \<Rightarrow> kernel \<Rightarrow> kernel option" where
  "thread_update_priority t p suspend_flag k = update_priority_loop t suspend_flag (change_priority t p k)"

definition mutex_reset :: "nat \<Rightarrow> kernel \<Rightarrow> kernel" where
  "mutex_reset m k = upd_mutex m (\<lambda>_. \<lparr>ceiling_priority = 0xff, mutex_priority = 0xff,
     hold = 0, owner = None, mutex_flag = RT_IPC_FLAG_PRIO\<rparr>) k"

definition rt_mutex_init :: "nat \<Rightarrow> kernel \<Rightarrow> rt_err_t \<times> kernel" where
  "rt_mutex_init m k = (RT_EOK, mutex_reset m (ipc_object_init (MutexQ m) k))"

text \<open>\<open>object\<close> is the result of the object allocation.\<close>

definition rt_mutex_create :: "nat option \<Rightarrow> kernel \<Rightarrow> (nat option \<times> kernel) option" where
  "rt_mutex_create object k =
     do {
       rt_assert (not_in_interrupt k);
       case object of
         None \<Rightarrow> Some (None, k)
       | Some m \<Rightarrow> Some (Some m, mutex_reset m (ipc_object_init (MutexQ m) k))
     }"

definition rt_mutex_detach :: "nat \<Rightarrow> kernel \<Rightarrow> (rt_err_t \<times> kernel) option" where
  "rt_mutex_detach m k =
     do { k1 \<leftarrow> ipc_list_resume_all (MutexQ m) k; Some (RT_EOK, taken_remove m k1) }"

definition rt_mutex_delete :: "nat \<Rightarrow> kernel \<Rightarrow> (rt_err_t \<times> kernel) option" where
  "rt_mutex_delete m k =
     do {
       rt_assert (not_in_interrupt k);
       k1 \<leftarrow> ipc_list_resume_all (MutexQ m) k;
       Some (RT_EOK, taken_remove m k1)
     }"

text \<open>The owner falls back to the highest priority its mutexes still ask for.\<close>

definition restore_owner :: "nat \<Rightarrow> kernel \<Rightarrow> kernel option" where
  "restore_owner m k =
     do {
       ow \<leftarrow> owner (mutexes k m);
       let p = thread_get_mutex_priority ow k;
       if p \<noteq> current_priority (threads k ow) then thread_update_priority ow p RT_UNINTERRUPTIBLE k
       else Some k
     }"

text \<open>The thread \<open>t\<close> no longer waits for \<open>m\<close>.\<close>

definition mutex_withdraw :: "nat \<Rightarrow> tid \<Rightarrow> kernel \<Rightarrow> kernel option" where
  "mutex_withdraw m t k =
     (let need_update = (case owner (mutexes k m) of
            None \<Rightarrow> False
          | Some ow \<Rightarrow> current_priority (threads k ow) = current_priority (threads k t));
          k1 = mutex_update_priority m k
      in if need_update then restore_owner m k1 else Some k1)"

definition rt_mutex_drop_thread :: "nat \<Rightarrow> tid \<Rightarrow> kernel \<Rightarrow> kernel option" where
  "rt_mutex_drop_thread m t k = mutex_withdraw m t (k\<lparr>queues := q_remove t (queues k)\<rparr>)"

definition rt_mutex_setprioceiling :: "nat \<Rightarrow> u8 \<Rightarrow> kernel \<Rightarrow> (u8 \<times> kernel) option" where
  "rt_mutex_setprioceiling m p k =
     (if p < 32 then
        let old = ceiling_priority (mutexes k m);
            k1 = upd_mutex m (\<lambda>mx. mx\<lparr>ceiling_priority := p\<rparr>) k
        in if owner (mutexes k1 m) \<noteq> None
           then do { k2 \<leftarrow> restore_owner m k1; Some (old, k2) }
           else Some (old, k1)
      else Some (0xff, rt_set_errno (- RT_EINVAL) k))"

definition rt_mutex_getprioceiling :: "nat \<Rightarrow> kernel \<Rightarrow> u8" where
  "rt_mutex_getprioceiling m k = ceiling_priority (mutexes k m)"

text \<open>Taking a free mutex, and joining the waiters of an owned one.\<close>

definition mutex_take_free :: "nat \<Rightarrow> tid \<Rightarrow> nat \<Rightarrow> kernel \<Rightarrow> kernel option" where
  "mutex_take_free m t suspend_flag k =
     do {
       let k1 = upd_mutex m (\<lambda>mx. mx\<lparr>owner := Some t, mutex_priority := 0xff, hold := 1\<rparr>) k;
       let c = ceiling_priority (mutexes k1 m);
       k2 \<leftarrow> (if c \<noteq> 0xff \<and> c < current_priority (threads k1 t)
             then thread_update_priority t c suspend_flag k1 else Some k1);
       Some (taken_insert t m k2)
     }"

definition mutex_take_wait ::
  "nat \<Rightarrow> tid \<Rightarrow> tid \<Rightarrow> int \<Rightarrow> nat \<Rightarrow> kernel \<Rightarrow> (outcome \<times> kernel) option" where
  "mutex_take_wait m t ow timeout suspend_flag k =
     do {
       let p = current_priority (threads k t);
       (ret, k1) \<leftarrow> ipc_list_suspend (MutexQ m) t (mutex_flag (mutexes k m)) suspend_flag k;
       if ret \<noteq> RT_EOK then Some (Done ret, k1)
       else do {
         let k2 = upd_thread t (\<lambda>th. th\<lparr>pending_object := Some m\<rparr>) k1;
         k3 \<leftarrow> (if p < mutex_priority (mutexes k2 m) then
                 let k' = upd_mutex m (\<lambda>mx. mx\<lparr>mutex_priority := p\<rparr>) k2
                 in if p < current_priority (threads k' ow)
                    then thread_update_priority ow p RT_UNINTERRUPTIBLE k' else Some k'
               else Some k2);
         k4 \<leftarrow> arm_if t timeout k3;
         k5 \<leftarrow> rt_schedule k4;
         Some (Waiting, k5)
       }
     }"

definition mutex_take :: "nat \<Rightarrow> int \<Rightarrow> nat \<Rightarrow> kernel \<Rightarrow> (outcome \<times> kernel) option" where
  "mutex_take m timeout suspend_flag k =
     do {
       rt_assert (scheduler_available k);
       t \<leftarrow> rt_thread_self k;
       let k1 = set_error t RT_EOK k;
       let mx = mutexes k1 m;
       case owner mx of
         None \<Rightarrow> do { k2 \<leftarrow> mutex_take_free m t suspend_flag k1; Some (Done RT_EOK, k2) }
       | Some ow \<Rightarrow>
           if ow = t then
             if hold mx < RT_MUTEX_HOLD_MAX
             then Some (Done RT_EOK, upd_mutex m (\<lambda>mx. mx\<lparr>hold := hold mx + 1\<rparr>) k1)
             else Some (Done (- RT_EFULL), k1)
           else if timeout = 0 then Some (Done (- RT_ETIMEOUT), set_error t (- RT_ETIMEOUT) k1)
           else mutex_take_wait m t ow timeout suspend_flag k1
     }"

text \<open>The rest of the call when the thread \<open>t\<close> runs again.\<close>

definition mutex_take_resume :: "nat \<Rightarrow> tid \<Rightarrow> kernel \<Rightarrow> (rt_err_t \<times> kernel) option" where
  "mutex_take_resume m t k =
     (if error (threads k t) = RT_EOK then Some (RT_EOK, k)
      else do {
        k1 \<leftarrow> mutex_withdraw m t k;
        let k2 = upd_thread t (\<lambda>th. th\<lparr>pending_object := None\<rparr>) k1;
        let e = error (threads k2 t);
        Some (if e > 0 then - e else e, k2)
      })"

definition rt_mutex_take where
  "rt_mutex_take m timeout k = mutex_take m timeout RT_UNINTERRUPTIBLE k"

definition rt_mutex_take_interruptible where
  "rt_mutex_take_interruptible m timeout k = mutex_take m timeout RT_INTERRUPTIBLE k"

definition rt_mutex_take_killable where
  "rt_mutex_take_killable m timeout k = mutex_take m timeout RT_KILLABLE k"

definition rt_mutex_trytake where
  "rt_mutex_trytake m k = rt_mutex_take m 0 k"

text \<open>The last release: the priority of the thread, then the next owner.\<close>

definition release_priority :: "nat \<Rightarrow> tid \<Rightarrow> kernel \<Rightarrow> bool \<times> kernel" where
  "release_priority m t k =
     (let mx = mutexes k m in
      if ceiling_priority mx \<noteq> 0xff \<or> current_priority (threads k t) = mutex_priority mx
      then (True, change_priority t (thread_get_mutex_priority t k) k) else (False, k))"

definition hand_over :: "nat \<Rightarrow> kernel \<Rightarrow> bool \<times> kernel" where
  "hand_over m k =
     (case queues k (MutexQ m) of
        n # _ \<Rightarrow>
          let k1 = k\<lparr>queues := q_remove n (queues k)\<rparr>;
              k2 = upd_mutex m (\<lambda>mx. mx\<lparr>owner := Some n, hold := 1\<rparr>) k1;
              k3 = taken_insert n m k2;
              k4 = upd_thread n (\<lambda>th. th\<lparr>pending_object := None\<rparr>) k3;
              k5 = snd (rt_thread_resume n k4)
          in (True, mutex_update_priority m k5)
      | [] \<Rightarrow> (False, upd_mutex m (\<lambda>mx. mx\<lparr>owner := None, mutex_priority := 0xff\<rparr>) k))"

definition rt_mutex_release :: "nat \<Rightarrow> kernel \<Rightarrow> (rt_err_t \<times> kernel) option" where
  "rt_mutex_release m k =
     do {
       rt_assert (in_thread_context k);
       t \<leftarrow> rt_thread_self k;
       if owner (mutexes k m) \<noteq> Some t then Some (- RT_ERROR, set_error t (- RT_ERROR) k)
       else
         let k1 = upd_mutex m (\<lambda>mx. mx\<lparr>hold := hold mx - 1\<rparr>) k
         in if hold (mutexes k1 m) \<noteq> 0 then Some (RT_EOK, k1)
            else
              let (need1, k2) = release_priority m t (taken_remove m k1);
                  (need2, k3) = hand_over m k2
              in if need1 \<or> need2 then do { k4 \<leftarrow> rt_schedule k3; Some (RT_EOK, k4) }
                 else Some (RT_EOK, k3)
     }"

definition rt_mutex_control :: "nat \<Rightarrow> ipc_cmd \<Rightarrow> kernel \<Rightarrow> rt_err_t \<times> kernel" where
  "rt_mutex_control m cmd k = (- RT_ERROR, k)"


section \<open>Changing a priority\<close>

lemma ready_not_waiting: "kinv k \<Longrightarrow> tstat k t = RT_THREAD_READY \<Longrightarrow> waitq g \<Longrightarrow> t \<notin> set (queues k g)"
  using qinvD(8)[of "{}" k g t] suspended_codes(3)[of k t] by (auto simp: kinv_def)

lemma set_stat_same: "stat th AND 7 = s \<Longrightarrow> set_stat s th = th"
proof -
  assume s: "stat th AND 7 = s"
  have "(x AND 7) OR (x AND NOT 7) = (x::u8)" for x
    by (metis and.right_neutral bit.conj_disj_distrib bit.disj_cancel_right)
  from this[of "stat th"] have "s OR (stat th AND - 8) = stat th" using s by simp
  then show ?thesis by (simp add: set_stat_def)
qed

lemma change_priority_simps:
  assumes "kinv k"
  shows "threads (change_priority t p k) u =
      (if u = t then (threads k t)\<lparr>current_priority := p, number_mask := 2 ^ unat p\<rparr> else threads k u)"
    and "waitq g \<Longrightarrow> queues (change_priority t p k) g = queues k g"
    and "queues (change_priority t p k) Defunct = queues k Defunct"
proof -
  have c: "cur k \<noteq> Some t" if "tstat k t = RT_THREAD_READY"
    using assms that by (auto simp: kinv_def cinv_def)
  have nc: "t \<notin> set (queues k Defunct)" if "tstat k t = RT_THREAD_READY"
    using assms that qinvD(9)[of "{}" k t] by (auto simp: kinv_def)
  show "threads (change_priority t p k) u =
      (if u = t then (threads k t)\<lparr>current_priority := p, number_mask := 2 ^ unat p\<rparr> else threads k u)"
    using c by (auto simp: change_priority_def Let_def threads_insert tstat_def intro!: set_stat_same)
  show "waitq g \<Longrightarrow> queues (change_priority t p k) g = queues k g"
    using ready_not_waiting[OF assms, of t g]
    by (auto simp: change_priority_def Let_def queues_insert q_push_back_def q_push_front_def q_remove_def
        removeAll_id waitq_def)
  show "queues (change_priority t p k) Defunct = queues k Defunct"
    using nc by (auto simp: change_priority_def Let_def queues_insert q_push_back_def q_push_front_def
        q_remove_def removeAll_id)
qed

lemma change_priority_frame [simp]:
  "cur (change_priority t p k) = cur k" "lock_nest (change_priority t p k) = lock_nest k"
  "interrupt_nest (change_priority t p k) = interrupt_nest k" "tick (change_priority t p k) = tick k"
  "timers (change_priority t p k) = timers k" "timer_lists (change_priority t p k) = timer_lists k"
  "objects (change_priority t p k) = objects k" "mutexes (change_priority t p k) = mutexes k"
  by (simp_all add: change_priority_def Let_def objects_def)

lemma change_priority_state:
  assumes "kinv k"
  shows "tstat (change_priority t p k) u = tstat k u" "suspended (change_priority t p k) u = suspended k u"
    "runnable (change_priority t p k) u = runnable k u"
proof -
  show s: "tstat (change_priority t p k) v = tstat k v" for v
    by (simp add: tstat_def change_priority_simps(1)[OF assms])
  show "suspended (change_priority t p k) u = suspended k u" "runnable (change_priority t p k) u = runnable k u"
    by (simp_all add: suspended_tstat runnable_def s)
qed

lemma change_priority_sys:
  assumes inv: "sysinv b k" and p: "unat p < 32"
  shows "sysinv b (change_priority t p k)"
proof -
  let ?f = "\<lambda>th. th\<lparr>current_priority := p, number_mask := 2 ^ unat p\<rparr>"
  have ki: "kinv k" and q: "qinv {} k" and ci: "cinv k" and ti: "tinv b k"
    using inv by (auto simp: sysinv_def kinv_def)
  have "qinv {} (change_priority t p k)"
  proof (cases "tstat k t = RT_THREAD_READY")
    case True
    let ?k1 = "upd_thread t ?f (rt_schedule_remove_thread t k)"
    have "qinv (insert t {}) ?k1"
      using p by (intro qinv_upd qinv_remove[OF q]) simp_all
    then have "qinv {} (rt_schedule_insert_thread t ?k1)"
      by (rule qinv_insert) (simp_all add: prio_def)
    then show ?thesis using True by (simp add: change_priority_def Let_def)
  next
    case False
    note D = qinvD[OF q]
    let ?k1 = "upd_thread t ?f k"
    have s: "tstat ?k1 u = tstat k u" "suspended ?k1 u = suspended k u"
      "prio ?k1 u = (if u = t then unat p else prio k u)" for u
      by (simp_all add: tstat_upd_thread suspended_def prio_def) (simp add: tstat_def)
    have "qinv {} ?k1"
    proof (rule qinvI)
      show "distinct (queues ?k1 g)" for g using D(1) by simp
      show "u \<in> set (queues ?k1 g) \<Longrightarrow> u \<in> set (queues ?k1 h) \<Longrightarrow> g = h" for g h u using D(2) by simp
      show "bit (ready_group ?k1) i \<longleftrightarrow> queues ?k1 (Ready i) \<noteq> []" for i using D(4) by simp
      show "u \<in> set (queues ?k1 (Ready i)) \<Longrightarrow> tstat ?k1 u = RT_THREAD_READY \<and> prio ?k1 u = i" for u i
        unfolding s using D(5,6)[of u i] False by auto
      show "u \<notin> {} \<Longrightarrow> tstat ?k1 u = RT_THREAD_READY \<Longrightarrow> u \<in> set (queues ?k1 (Ready (prio ?k1 u)))" for u
        unfolding s using D(7)[of u] False by auto
      show "waitq g \<Longrightarrow> u \<in> set (queues ?k1 g) \<Longrightarrow> suspended ?k1 u" for u g
        unfolding s using D(8)[of g u] by simp
      show "u \<in> set (queues ?k1 Defunct) \<Longrightarrow> tstat ?k1 u = RT_THREAD_CLOSE" for u
        unfolding s using D(9)[of u] by simp
      show "prio ?k1 u < 32" for u unfolding s using D(10)[of u] p by simp
      show "number_mask (threads ?k1 u) \<in> {0, 2 ^ prio ?k1 u}" for u
        unfolding s using D(11)[of u] by auto
      show "tstat ?k1 u \<noteq> RT_THREAD_INIT \<Longrightarrow> tstat ?k1 u \<noteq> RT_THREAD_CLOSE \<Longrightarrow>
          number_mask (threads ?k1 u) = 2 ^ prio ?k1 u" for u
        unfolding s using D(12)[of u] by auto
    qed simp
    then show ?thesis using False by (simp add: change_priority_def Let_def)
  qed
  moreover have "cinv (change_priority t p k)"
    using ci by (simp add: cinv_def change_priority_state[OF ki])
  moreover have "tinv b (change_priority t p k)"
    by (rule tinv_threads[OF ti]) (simp_all add: change_priority_state[OF ki])
  ultimately show ?thesis by (simp add: sysinv_def kinv_def)
qed

section \<open>The invariant of the mutexes\<close>

text \<open>Owners and taken lists agree, a mutex without owner has no waiters, waiters know what they wait for.\<close>

definition mutex_inv :: "kernel \<Rightarrow> bool" where
  "mutex_inv k \<longleftrightarrow>
     (\<forall>t. unat (init_priority (threads k t)) < 32) \<and>
     (\<forall>m. mutex_flag (mutexes k m) = RT_IPC_FLAG_PRIO) \<and>
     (\<forall>m t. owner (mutexes k m) = Some t \<longleftrightarrow> m \<in> set (taken_object_list (threads k t))) \<and>
     (\<forall>m. owner (mutexes k m) = None \<longleftrightarrow> hold (mutexes k m) = 0) \<and>
     (\<forall>m. owner (mutexes k m) = None \<longrightarrow> queues k (MutexQ m) = []) \<and>
     (\<forall>t m. t \<in> set (queues k (MutexQ m)) \<longleftrightarrow>
        suspended k t \<and> pending_object (threads k t) = Some m)"

lemma mutex_invD:
  assumes "mutex_inv k"
  shows "unat (init_priority (threads k t)) < 32" "mutex_flag (mutexes k m) = RT_IPC_FLAG_PRIO"
    "owner (mutexes k m) = Some t \<longleftrightarrow> m \<in> set (taken_object_list (threads k t))"
    "owner (mutexes k m) = None \<longleftrightarrow> hold (mutexes k m) = 0"
    "owner (mutexes k m) = None \<Longrightarrow> queues k (MutexQ m) = []"
    "t \<in> set (queues k (MutexQ m)) \<longleftrightarrow> suspended k t \<and> pending_object (threads k t) = Some m"
  using assms unfolding mutex_inv_def by blast+

text \<open>
  Priority inheritance: the waiters are sorted, the priority of the mutex is at least as high as theirs,
  and that of the owner at least as high as that of the mutex. Priorities are higher when smaller.
\<close>

definition waiters_ok :: "kernel \<Rightarrow> nat \<Rightarrow> bool" where
  "waiters_ok k m \<longleftrightarrow>
     sorted (map (\<lambda>t. current_priority (threads k t)) (queues k (MutexQ m))) \<and>
     (\<forall>t \<in> set (queues k (MutexQ m)). mutex_priority (mutexes k m) \<le> current_priority (threads k t))"

definition owner_ok :: "kernel \<Rightarrow> nat \<Rightarrow> tid \<Rightarrow> bool" where
  "owner_ok k m ow \<longleftrightarrow> (owner (mutexes k m) = Some ow \<longrightarrow>
     current_priority (threads k ow) \<le> mutex_priority (mutexes k m))"

definition pi_inv :: "kernel \<Rightarrow> bool" where
  "pi_inv k \<longleftrightarrow> (\<forall>m. waiters_ok k m \<and> (\<forall>ow. owner_ok k m ow))"

definition waits_for :: "kernel \<Rightarrow> tid \<Rightarrow> tid \<Rightarrow> bool" where
  "waits_for k t ow \<longleftrightarrow> (\<exists>m. t \<in> set (queues k (MutexQ m)) \<and> owner (mutexes k m) = Some ow)"

text \<open>No owner runs at a lower priority than a thread it keeps waiting.\<close>

lemma pi_no_inversion:
  "pi_inv k \<Longrightarrow> waits_for k t ow \<Longrightarrow> current_priority (threads k ow) \<le> current_priority (threads k t)"
  by (force simp: pi_inv_def waits_for_def waiters_ok_def owner_ok_def)

text \<open>No deadlock: the waiting threads can be ranked.\<close>

definition ranked :: "(tid \<Rightarrow> nat) \<Rightarrow> kernel \<Rightarrow> bool" where
  "ranked r k \<longleftrightarrow> (\<forall>t ow. waits_for k t ow \<longrightarrow> r ow < r t)"

subsection \<open>What the inheritance loop may change\<close>

definition pi_frame :: "kernel \<Rightarrow> kernel \<Rightarrow> bool" where
  "pi_frame k k' \<longleftrightarrow>
     cur k' = cur k \<and> lock_nest k' = lock_nest k \<and> interrupt_nest k' = interrupt_nest k \<and>
     tick k' = tick k \<and> timers k' = timers k \<and> timer_lists k' = timer_lists k \<and>
     (\<forall>t. threads k' t = (threads k t)\<lparr>current_priority := current_priority (threads k' t),
        number_mask := number_mask (threads k' t)\<rparr>) \<and>
     (\<forall>m. mutexes k' m = (mutexes k m)\<lparr>mutex_priority := mutex_priority (mutexes k' m)\<rparr>) \<and>
     (\<forall>g. waitq g \<longrightarrow> set (queues k' g) = set (queues k g)) \<and>
     (\<forall>g. waitq g \<longrightarrow> (\<forall>m. g \<noteq> MutexQ m) \<longrightarrow> queues k' g = queues k g) \<and>
     queues k' Defunct = queues k Defunct"

lemma pi_frameD:
  assumes "pi_frame k k'"
  shows "cur k' = cur k" "lock_nest k' = lock_nest k" "tick k' = tick k"
    "stat (threads k' t) = stat (threads k t)" "error (threads k' t) = error (threads k t)"
    "init_priority (threads k' t) = init_priority (threads k t)"
    "taken_object_list (threads k' t) = taken_object_list (threads k t)"
    "pending_object (threads k' t) = pending_object (threads k t)"
    "owner (mutexes k' m) = owner (mutexes k m)" "hold (mutexes k' m) = hold (mutexes k m)"
    "mutex_flag (mutexes k' m) = mutex_flag (mutexes k m)"
    "ceiling_priority (mutexes k' m) = ceiling_priority (mutexes k m)"
    "waitq g \<Longrightarrow> set (queues k' g) = set (queues k g)"
    "tstat k' t = tstat k t" "suspended k' t = suspended k t" "runnable k' t = runnable k t"
    "interrupt_nest k' = interrupt_nest k" "queues k' Defunct = queues k Defunct"
proof -
  have th: "threads k' t = (threads k t)\<lparr>current_priority := current_priority (threads k' t),
      number_mask := number_mask (threads k' t)\<rparr>" for t using assms unfolding pi_frame_def by blast
  show "stat (threads k' t) = stat (threads k t)" "error (threads k' t) = error (threads k t)"
    "init_priority (threads k' t) = init_priority (threads k t)"
    "taken_object_list (threads k' t) = taken_object_list (threads k t)"
    "pending_object (threads k' t) = pending_object (threads k t)" for t
    by (subst th, simp)+
  then show "tstat k' t = tstat k t" "suspended k' t = suspended k t" "runnable k' t = runnable k t"
    by (simp_all add: tstat_def suspended_def runnable_def)
  have mx: "mutexes k' m = (mutexes k m)\<lparr>mutex_priority := mutex_priority (mutexes k' m)\<rparr>" for m
    using assms unfolding pi_frame_def by blast
  show "owner (mutexes k' m) = owner (mutexes k m)" "hold (mutexes k' m) = hold (mutexes k m)"
    "mutex_flag (mutexes k' m) = mutex_flag (mutexes k m)"
    "ceiling_priority (mutexes k' m) = ceiling_priority (mutexes k m)"
    by (subst mx, simp)+
qed (use assms in \<open>unfold pi_frame_def, blast+\<close>)

lemma pi_frame_refl [simp]: "pi_frame k k"
  by (simp add: pi_frame_def)

lemma pi_frame_trans:
  assumes "pi_frame k k1" "pi_frame k1 k2"
  shows "pi_frame k k2"
proof -
  have a: "threads k1 t = (threads k t)\<lparr>current_priority := current_priority (threads k1 t),
      number_mask := number_mask (threads k1 t)\<rparr>"
    "threads k2 t = (threads k1 t)\<lparr>current_priority := current_priority (threads k2 t),
      number_mask := number_mask (threads k2 t)\<rparr>"
    "mutexes k1 m = (mutexes k m)\<lparr>mutex_priority := mutex_priority (mutexes k1 m)\<rparr>"
    "mutexes k2 m = (mutexes k1 m)\<lparr>mutex_priority := mutex_priority (mutexes k2 m)\<rparr>" for t m
    using assms unfolding pi_frame_def by blast+
  have "threads k2 t = (threads k t)\<lparr>current_priority := current_priority (threads k2 t),
      number_mask := number_mask (threads k2 t)\<rparr>" for t
    by (subst a(2), subst a(1)) simp
  moreover have "mutexes k2 m = (mutexes k m)\<lparr>mutex_priority := mutex_priority (mutexes k2 m)\<rparr>" for m
    by (subst a(4), subst a(3)) simp
  ultimately show ?thesis using assms unfolding pi_frame_def by simp
qed

lemma pi_frame_inv:
  assumes "pi_frame k k'"
  shows "mutex_inv k' = mutex_inv k" "waits_for k' t ow = waits_for k t ow" "ranked r k' = ranked r k"
proof -
  note F = pi_frameD[OF assms]
  have q: "set (queues k' (MutexQ m)) = set (queues k (MutexQ m))" for m by (simp add: F(13) waitq_def)
  then have e: "(queues k' (MutexQ m) = []) = (queues k (MutexQ m) = [])" for m by (metis set_empty)
  show "mutex_inv k' = mutex_inv k" by (simp add: mutex_inv_def F q e)
  show w: "waits_for k' t ow = waits_for k t ow" for t ow by (simp add: waits_for_def F q)
  show "ranked r k' = ranked r k" by (simp add: ranked_def w)
qed

lemma change_priority_pi_frame:
  assumes "kinv k"
  shows "pi_frame k (change_priority t p k)"
  by (auto simp: pi_frame_def change_priority_simps[OF assms])

subsection \<open>The loop\<close>

lemma upd_mutex_simps [simp]:
  "mutexes (upd_mutex m f k) i = (if i = m then f (mutexes k m) else mutexes k i)"
  "threads (upd_mutex m f k) = threads k" "queues (upd_mutex m f k) = queues k"
  "ready_group (upd_mutex m f k) = ready_group k" "cur (upd_mutex m f k) = cur k"
  "timers (upd_mutex m f k) = timers k" "timer_lists (upd_mutex m f k) = timer_lists k"
  "tick (upd_mutex m f k) = tick k" "lock_nest (upd_mutex m f k) = lock_nest k"
  "interrupt_nest (upd_mutex m f k) = interrupt_nest k"
  "runnable (upd_mutex m f k) t = runnable k t" "suspended (upd_mutex m f k) t = suspended k t"
  "tstat (upd_mutex m f k) t = tstat k t"
  by (simp_all add: upd_mutex_def runnable_def tstat_def suspended_def)

lemma sysinv_upd_mutex [simp]: "sysinv b (upd_mutex m f k) = sysinv b k"
  by (rule sysinv_cong) simp_all

lemma fold_min_le:
  "fold (\<lambda>m p. let q = g m in if p > q then q else p) ms (i::u8) \<le> i"
  "m \<in> set ms \<Longrightarrow> fold (\<lambda>m p. let q = g m in if p > q then q else p) ms i \<le> g m"
proof (induction ms arbitrary: i)
  case (Cons a ms)
  { case 1 show ?case using Cons.IH(1)[of "if i > g a then g a else i"] by (auto simp: Let_def split: if_splits) }
  { case 2 then show ?case
      using Cons.IH(1)[of "if i > g a then g a else i"] Cons.IH(2)[of "if i > g a then g a else i"]
      by (auto simp: Let_def split: if_splits) }
qed simp_all

lemma get_mutex_priority_le:
  "thread_get_mutex_priority t k \<le> init_priority (threads k t)"
  "m \<in> set (taken_object_list (threads k t)) \<Longrightarrow> thread_get_mutex_priority t k \<le> mutex_prio (mutexes k m)"
  "m \<in> set (taken_object_list (threads k t)) \<Longrightarrow> thread_get_mutex_priority t k \<le> mutex_priority (mutexes k m)"
proof -
  show "thread_get_mutex_priority t k \<le> init_priority (threads k t)"
    unfolding thread_get_mutex_priority_def by (rule fold_min_le)
  show a: "m \<in> set (taken_object_list (threads k t)) \<Longrightarrow>
      thread_get_mutex_priority t k \<le> mutex_prio (mutexes k m)"
    unfolding thread_get_mutex_priority_def by (rule fold_min_le(2))
  have "mutex_prio mx \<le> mutex_priority mx" for mx by (auto simp: mutex_prio_def)
  then show "m \<in> set (taken_object_list (threads k t)) \<Longrightarrow>
      thread_get_mutex_priority t k \<le> mutex_priority (mutexes k m)"
    using a order_trans by blast
qed

text \<open>Inheritance holds but for the owner \<open>ow\<close>; but for the queue \<open>t\<close> waits in.\<close>

definition pi_except :: "kernel \<Rightarrow> tid \<Rightarrow> bool" where
  "pi_except k ow \<longleftrightarrow> (\<forall>m. waiters_ok k m \<and> (\<forall>u. u \<noteq> ow \<longrightarrow> owner_ok k m u))"

definition pi_but :: "kernel \<Rightarrow> tid \<Rightarrow> bool" where
  "pi_but k t \<longleftrightarrow> (\<forall>m. if suspended k t \<and> pending_object (threads k t) = Some m
     then sorted (map (\<lambda>u. current_priority (threads k u)) (removeAll t (queues k (MutexQ m))))
     else waiters_ok k m \<and> (\<forall>ow. owner_ok k m ow))"

lemma pi_change:
  assumes ki: "kinv k" and mi: "mutex_inv k" and ex: "pi_except k ow"
    and p: "\<And>m. m \<in> set (taken_object_list (threads k ow)) \<Longrightarrow> p \<le> mutex_priority (mutexes k m)"
  shows "pi_but (change_priority ow p k) ow"
  unfolding pi_but_def
proof
  fix m
  let ?k = "change_priority ow p k"
  note C = change_priority_simps[OF ki, where t = ow and p = p] and S = change_priority_state[OF ki, where t = ow and p = p]
  have q: "queues ?k (MutexQ m) = queues k (MutexQ m)" by (rule C(2)) (simp add: waitq_def)
  have wo: "waiters_ok k m" and oo: "\<And>u. u \<noteq> ow \<Longrightarrow> owner_ok k m u"
    using ex by (simp_all add: pi_except_def)
  have pr: "current_priority (threads ?k u) = current_priority (threads k u)" if "u \<noteq> ow" for u
    using that by (simp add: C(1))
  have pend: "pending_object (threads ?k ow) = pending_object (threads k ow)" by (simp add: C(1))
  show "if suspended ?k ow \<and> pending_object (threads ?k ow) = Some m
      then sorted (map (\<lambda>u. current_priority (threads ?k u)) (removeAll ow (queues ?k (MutexQ m))))
      else waiters_ok ?k m \<and> (\<forall>u. owner_ok ?k m u)"
  proof (cases "suspended k ow \<and> pending_object (threads k ow) = Some m")
    case True
    have "sorted (map (\<lambda>u. current_priority (threads k u)) (removeAll ow (queues k (MutexQ m))))"
      using wo unfolding waiters_ok_def removeAll_filter_not_eq by (intro sorted_filter) simp
    moreover have "map (\<lambda>u. current_priority (threads ?k u)) (removeAll ow (queues k (MutexQ m))) =
        map (\<lambda>u. current_priority (threads k u)) (removeAll ow (queues k (MutexQ m)))"
      using pr by simp
    ultimately have "sorted (map (\<lambda>u. current_priority (threads ?k u)) (removeAll ow (queues k (MutexQ m))))"
      by (simp only:)
    then show ?thesis using True S(2)[of ow] pend by (simp add: q)
  next
    case False
    then have nq: "ow \<notin> set (queues k (MutexQ m))" using mutex_invD(6)[OF mi] by simp
    have prq: "current_priority (threads ?k u) = current_priority (threads k u)"
      if "u \<in> set (queues k (MutexQ m))" for u using pr[of u] nq that by metis
    have "map (\<lambda>u. current_priority (threads ?k u)) (queues k (MutexQ m)) =
        map (\<lambda>u. current_priority (threads k u)) (queues k (MutexQ m))"
      using prq by (rule map_cong[OF refl])
    then have "waiters_ok ?k m" using wo prq unfolding waiters_ok_def q by (simp only:) simp
    moreover have "owner_ok ?k m u" for u
    proof (cases "u = ow")
      case True
      then show ?thesis using p[of m] mutex_invD(3)[OF mi, of m ow] by (simp add: owner_ok_def C(1))
    next
      case False
      then show ?thesis using oo[OF False] pr[OF False] by (simp add: owner_ok_def)
    qed
    ultimately show ?thesis using False S(2)[of ow] pend by auto
  qed
qed

lemma sysinv_unlink_suspended:
  assumes inv: "sysinv b k" and s: "suspended k t"
  shows "sysinv b (k\<lparr>queues := q_remove t (queues k)\<rparr>)"
proof -
  let ?k = "k\<lparr>queues := q_remove t (queues k)\<rparr>"
  have q: "qinv {} k" and ci: "cinv k" and ti: "tinv b k" using inv by (auto simp: sysinv_def kinv_def)
  have r: "tstat k t \<noteq> RT_THREAD_READY" using s suspended_codes(3) by blast
  have ts: "tstat ?k u = tstat k u" "suspended ?k u = suspended k u" for u
    by (simp_all add: tstat_def suspended_def)
  have "qinv {} ?k" using qinv_settle[OF qinv_unlink[OF q r]] r by (simp add: ts)
  moreover have "cinv ?k" using ci by (simp add: cinv_def ts)
  moreover have "tinv b ?k" by (rule tinv_threads[OF ti]) (simp_all add: ts)
  ultimately show ?thesis by (simp add: sysinv_def kinv_def)
qed

lemma sorted_hd_le: "sorted (map f xs) \<Longrightarrow> x \<in> set xs \<Longrightarrow> f (hd xs) \<le> (f x :: u8)"
  by (cases xs) auto

lemma first_waiter_le:
  assumes "sorted (map (\<lambda>u. current_priority (threads k u)) (queues k (MutexQ m)))"
    and "t \<in> set (queues k (MutexQ m))"
  shows "first_waiter_priority m k \<le> current_priority (threads k t)"
  using sorted_hd_le[OF assms] assms(2) by (cases "queues k (MutexQ m)") (auto simp: first_waiter_priority_def)

text \<open>One pass: the thread is put back in its place, and its mutex takes on the priority of the first waiter.\<close>

lemma requeue_ok:
  assumes inv: "sysinv b k" and mi: "mutex_inv k" and but: "pi_but k t"
    and s: "suspended k t" "pending_object (threads k t) = Some m"
    and ow: "owner (mutexes k m) = Some ow" "ow \<noteq> t"
  obtains k1 where "ipc_list_suspend (MutexQ m) t (mutex_flag (mutexes k m)) sf
      (k\<lparr>queues := q_remove t (queues k)\<rparr>) = Some (RT_EOK, k1)"
    and "sysinv b (mutex_update_priority m k1)" "pi_frame k (mutex_update_priority m k1)"
    and "pi_except (mutex_update_priority m k1) ow" "threads (mutex_update_priority m k1) = threads k"
proof -
  let ?pr = "\<lambda>u. current_priority (threads k u)"
  let ?k0 = "k\<lparr>queues := q_remove t (queues k)\<rparr>"
  define xs where "xs = prio_insert ?pr t (removeAll t (queues k (MutexQ m)))"
  define k1 where "k1 = ?k0\<lparr>queues := (queues ?k0)(MutexQ m := xs)\<rparr>"
  define k2 where "k2 = mutex_update_priority m k1"
  have ki: "kinv k" and q: "qinv {} k" using inv by (auto simp: sysinv_def kinv_def)
  have tq: "t \<in> set (queues k (MutexQ m))" using mutex_invD(6)[OF mi] s by simp
  have wq: "waitq (MutexQ m)" by (simp add: waitq_def)
  have s0: "suspended ?k0 t" using s(1) by (simp add: suspended_def)
  have code: "ipc_list_suspend (MutexQ m) t (mutex_flag (mutexes k m)) sf ?k0 = Some (RT_EOK, k1)"
    using s0 mutex_invD(2)[OF mi, of m] by (simp add: ipc_list_suspend_def k1_def xs_def q_remove_def)
  have xs: "set xs = set (queues k (MutexQ m))" "distinct xs"
    using tq qinvD(1)[OF q, of "MutexQ m"]
    by (auto simp: xs_def set_prio_insert intro!: distinct_prio_insert distinct_removeAll)
  have i0: "sysinv b ?k0" by (rule sysinv_unlink_suspended[OF inv s(1)])
  have "sysinv b k1"
    unfolding k1_def using xs tq by (intro wait_queue_sys[OF i0 s0 _ wq]) (auto simp: unlinked_def q_remove_def)
  then have i2: "sysinv b k2" by (simp add: k2_def mutex_update_priority_def)
  have th2: "threads k2 = threads k" by (simp add: k2_def mutex_update_priority_def k1_def)
  have other: "queues k2 g = queues k g" if "waitq g" "g \<noteq> MutexQ m" for g
  proof -
    have "t \<notin> set (queues k g)" using qinvD(2)[OF q tq, of g] that(2) by auto
    then show ?thesis using that by (simp add: k2_def mutex_update_priority_def k1_def q_remove_def removeAll_id)
  qed
  have own: "queues k2 (MutexQ m) = xs" by (simp add: k2_def mutex_update_priority_def k1_def)
  have mx: "mutexes k2 i = (if i = m then (mutexes k m)\<lparr>mutex_priority := first_waiter_priority m k2\<rparr>
      else mutexes k i)" for i
    by (simp add: k2_def mutex_update_priority_def k1_def first_waiter_priority_def split: list.split)
  have fr: "pi_frame k k2"
    unfolding pi_frame_def
  proof (intro conjI allI impI)
    show "set (queues k2 g) = set (queues k g)" if "waitq g" for g
      using other[OF that] own xs(1) by (cases "g = MutexQ m") auto
    show "queues k2 g = queues k g" if "waitq g" "\<forall>m. g \<noteq> MutexQ m" for g
      using other[OF that(1)] that(2) by simp
    show "mutexes k2 i = (mutexes k i)\<lparr>mutex_priority := mutex_priority (mutexes k2 i)\<rparr>" for i by (simp add: mx)
    have "tstat k t \<noteq> RT_THREAD_CLOSE" using s(1) suspended_codes(2) by blast
    then have "t \<notin> set (queues k Defunct)" using qinvD(9)[OF q, of t] by blast
    then show "queues k2 Defunct = queues k Defunct"
      by (simp add: k2_def mutex_update_priority_def k1_def q_remove_def removeAll_id)
  qed (simp_all add: th2, simp_all add: k2_def mutex_update_priority_def k1_def)
  have sorted: "sorted (map ?pr xs)"
    unfolding xs_def using but s by (intro sorted_prio_insert) (auto simp: pi_but_def)
  have "waiters_ok k2 m"
    using sorted first_waiter_le[of k2 m] by (auto simp: waiters_ok_def own th2 mx)
  moreover have "waiters_ok k2 i \<and> (\<forall>u. owner_ok k2 i u)" if "i \<noteq> m" for i
  proof -
    have "waiters_ok k i" "\<And>u. owner_ok k i u" using but s that by (auto simp: pi_but_def)
    then show ?thesis
      using other[of "MutexQ i"] that by (simp add: waiters_ok_def owner_ok_def th2 mx waitq_def)
  qed
  moreover have "owner_ok k2 m u" if "u \<noteq> ow" for u using that ow(1) by (simp add: owner_ok_def mx)
  ultimately have "pi_except k2 ow" by (metis pi_except_def)
  then show ?thesis using that[OF code] i2 fr th2 unfolding k2_def by blast
qed

lemma update_loop_ok:
  assumes "sysinv b k" "mutex_inv k" "ranked r k" "pi_but k t"
  shows "ok (update_priority_loop t sf k) (\<lambda>k'. sysinv b k' \<and> pi_frame k k' \<and> pi_inv k' \<and>
    (\<forall>u. r t \<le> r u \<longrightarrow> current_priority (threads k' u) = current_priority (threads k u)))"
  using assms
proof (induction "r t" arbitrary: t k rule: less_induct)
  case less
  note inv = less.prems(1) and mi = less.prems(2) and rk = less.prems(3) and but = less.prems(4)
  show ?case
  proof (cases "suspended k t \<and> pending_object (threads k t) \<noteq> None")
    case False
    then have "pi_inv k" using but by (auto simp: pi_but_def pi_inv_def)
    moreover have "update_priority_loop t sf k = Some k"
      using False by (subst update_priority_loop.simps) (auto split: option.splits)
    ultimately show ?thesis using inv by simp
  next
    case True
    then obtain m where s: "suspended k t" "pending_object (threads k t) = Some m" by auto
    have tq: "t \<in> set (queues k (MutexQ m))" using mutex_invD(6)[OF mi] s by simp
    then obtain ow where ow: "owner (mutexes k m) = Some ow" using mutex_invD(5)[OF mi, of m] by fastforce
    have lt: "r ow < r t" using rk tq ow unfolding ranked_def waits_for_def by blast
    then have ne: "ow \<noteq> t" by auto
    obtain k1 where k1: "ipc_list_suspend (MutexQ m) t (mutex_flag (mutexes k m)) sf
        (k\<lparr>queues := q_remove t (queues k)\<rparr>) = Some (RT_EOK, k1)"
      and i2: "sysinv b (mutex_update_priority m k1)" and fr: "pi_frame k (mutex_update_priority m k1)"
      and ex: "pi_except (mutex_update_priority m k1) ow" and th: "threads (mutex_update_priority m k1) = threads k"
      by (rule requeue_ok[OF inv mi but s ow ne])
    define k2 where "k2 = mutex_update_priority m k1"
    define p where "p = thread_get_mutex_priority ow k2"
    note F = pi_frameD[OF fr, folded k2_def]
    have mi2: "mutex_inv k2" and rk2: "ranked r k2" using mi rk pi_frame_inv[OF fr] by (simp_all add: k2_def)
    have o2: "owner (mutexes k2 m) = Some ow" using F(9) ow by simp
    have step: "update_priority_loop t sf k =
        (if p \<noteq> current_priority (threads k2 ow) then update_priority_loop ow sf (change_priority ow p k2)
         else Some k2)"
      using s k1 o2 by (subst update_priority_loop.simps) (simp add: k2_def[symmetric] p_def Let_def)
    have pm: "p \<le> mutex_priority (mutexes k2 i)" if "i \<in> set (taken_object_list (threads k2 ow))" for i
      unfolding p_def by (rule get_mutex_priority_le(3)[OF that])
    show ?thesis
    proof (cases "p = current_priority (threads k2 ow)")
      case True
      have "owner_ok k2 i ow" for i
        using pm[of i] mutex_invD(3)[OF mi2, of i ow] True by (simp add: owner_ok_def)
      then have "pi_inv k2" using ex unfolding pi_except_def pi_inv_def k2_def by metis
      then show ?thesis using True step i2 fr th by (simp add: k2_def)
    next
      case False
      let ?k3 = "change_priority ow p k2"
      have ki2: "kinv k2" using i2 by (simp add: sysinv_def k2_def)
      have "p \<le> init_priority (threads k2 ow)" unfolding p_def by (rule get_mutex_priority_le(1))
      then have p: "unat p < 32" using mutex_invD(1)[OF mi2, of ow] by (simp add: word_le_nat_alt)
      have i3: "sysinv b ?k3" by (rule change_priority_sys[OF _ p]) (use i2 in \<open>simp add: k2_def\<close>)
      have fr3: "pi_frame k2 ?k3" by (rule change_priority_pi_frame[OF ki2])
      have "pi_but ?k3 ow" by (rule pi_change[OF ki2 mi2 ex[folded k2_def] pm])
      moreover have "mutex_inv ?k3" "ranked r ?k3" using mi2 rk2 pi_frame_inv[OF fr3] by simp_all
      ultimately have "ok (update_priority_loop ow sf ?k3) (\<lambda>k'. sysinv b k' \<and> pi_frame ?k3 k' \<and> pi_inv k' \<and>
        (\<forall>u. r ow \<le> r u \<longrightarrow> current_priority (threads k' u) = current_priority (threads ?k3 u)))"
        using less.hyps[OF lt i3] by blast
      then have "ok (update_priority_loop ow sf ?k3) (\<lambda>k'. sysinv b k' \<and> pi_frame k k' \<and> pi_inv k' \<and>
        (\<forall>u. r t \<le> r u \<longrightarrow> current_priority (threads k' u) = current_priority (threads k u)))"
      proof (rule ok_mono)
        fix k'
        assume a: "sysinv b k' \<and> pi_frame ?k3 k' \<and> pi_inv k' \<and>
          (\<forall>u. r ow \<le> r u \<longrightarrow> current_priority (threads k' u) = current_priority (threads ?k3 u))"
        have "pi_frame k k'" using pi_frame_trans[OF fr[folded k2_def] pi_frame_trans[OF fr3]] a by blast
        moreover have "current_priority (threads k' u) = current_priority (threads k u)" if "r t \<le> r u" for u
        proof -
          have "u \<noteq> ow" "r ow \<le> r u" using that lt by auto
          then show ?thesis using a change_priority_simps(1)[OF ki2, of ow p u] th by (simp add: k2_def)
        qed
        ultimately show "sysinv b k' \<and> pi_frame k k' \<and> pi_inv k' \<and>
          (\<forall>u. r t \<le> r u \<longrightarrow> current_priority (threads k' u) = current_priority (threads k u))" using a by blast
      qed
      then show ?thesis using False step by simp
    qed
  qed
qed

text \<open>The whole of \<open>_thread_update_priority\<close> for a thread whose new priority suits its mutexes.\<close>

lemma thread_update_priority_ok:
  assumes inv: "sysinv b k" and mi: "mutex_inv k" and rk: "ranked r k" and ex: "pi_except k ow"
    and p: "unat p < 32" "\<And>m. m \<in> set (taken_object_list (threads k ow)) \<Longrightarrow> p \<le> mutex_priority (mutexes k m)"
  shows "ok (thread_update_priority ow p sf k) (\<lambda>k'. sysinv b k' \<and> pi_frame k k' \<and> pi_inv k' \<and>
    current_priority (threads k' ow) = p)"
proof -
  let ?k1 = "change_priority ow p k"
  have ki: "kinv k" using inv by (simp add: sysinv_def)
  have fr: "pi_frame k ?k1" by (rule change_priority_pi_frame[OF ki])
  have "ok (update_priority_loop ow sf ?k1) (\<lambda>k'. sysinv b k' \<and> pi_frame ?k1 k' \<and> pi_inv k' \<and>
    (\<forall>u. r ow \<le> r u \<longrightarrow> current_priority (threads k' u) = current_priority (threads ?k1 u)))"
    by (rule update_loop_ok)
      (use change_priority_sys[OF inv p(1)] mi rk pi_frame_inv[OF fr] pi_change[OF ki mi ex p(2)] in simp_all)
  then show ?thesis
    unfolding thread_update_priority_def
    by (rule ok_mono) (use pi_frame_trans[OF fr] in \<open>auto simp: change_priority_simps(1)[OF ki]\<close>)
qed

text \<open>Scheduling and errors do not touch the mutexes.\<close>

lemma mutex_cong:
  assumes "\<And>u. current_priority (threads k' u) = current_priority (threads k u)"
    and "\<And>u. init_priority (threads k' u) = init_priority (threads k u)"
    and "\<And>u. taken_object_list (threads k' u) = taken_object_list (threads k u)"
    and "\<And>u. pending_object (threads k' u) = pending_object (threads k u)"
    and "\<And>u. suspended k' u = suspended k u"
    and "\<And>m. queues k' (MutexQ m) = queues k (MutexQ m)" "mutexes k' = mutexes k"
  shows "mutex_inv k' = mutex_inv k" "pi_inv k' = pi_inv k" "waits_for k' t ow = waits_for k t ow"
    "ranked r k' = ranked r k"
proof -
  show "mutex_inv k' = mutex_inv k" by (simp add: mutex_inv_def assms)
  show "pi_inv k' = pi_inv k" by (simp add: pi_inv_def waiters_ok_def owner_ok_def assms)
  show "waits_for k' t ow = waits_for k t ow" for t ow by (simp add: waits_for_def assms)
  then show "ranked r k' = ranked r k" by (simp add: ranked_def)
qed

lemma set_error_mutex [simp]:
  "mutex_inv (set_error t e k) = mutex_inv k" "pi_inv (set_error t e k) = pi_inv k"
  "waits_for (set_error t e k) u ow = waits_for k u ow" "ranked r (set_error t e k) = ranked r k"
  by (rule mutex_cong; simp)+

lemma only_scheduled_mutex:
  assumes "only_scheduled k k'"
  shows "mutex_inv k' = mutex_inv k" "pi_inv k' = pi_inv k" "mutexes k' = mutexes k"
    "queues k' (MutexQ m) = queues k (MutexQ m)"
proof -
  note O = only_scheduledD[OF assms]
  have q: "queues k' (MutexQ m) = queues k (MutexQ m)" for m by (rule O(4)) (simp add: waitq_def)
  have mx: "mutexes k' = mutexes k" by (rule objectsD(2)[OF O(5)])
  show "mutex_inv k' = mutex_inv k" "pi_inv k' = pi_inv k"
    by (rule mutex_cong; simp add: O(2) q mx stat_onlyD[OF O(1)])+
  show "mutexes k' = mutexes k" "queues k' (MutexQ m) = queues k (MutexQ m)" by (rule mx q)+
qed

section \<open>Taking\<close>

text \<open>A thread that is not suspended: the loop ends at once.\<close>

lemma update_priority_running:
  assumes "kinv k" "\<not> suspended k t"
  shows "thread_update_priority t p sf k = Some (change_priority t p k)"
  using assms by (simp add: thread_update_priority_def update_priority_loop.simps change_priority_state)

lemma u8_max: "(x::u8) \<le> 0xff"
proof -
  have "unat x < 256" using unsigned_less[of x] by simp
  then show ?thesis by (simp add: word_le_nat_alt)
qed

lemma sysinv_kinv: "sysinv b k \<Longrightarrow> kinv k"
  by (simp add: sysinv_def)

lemma take_free_ok:
  assumes inv: "sysinv b k" and mi: "mutex_inv k" and pi: "pi_inv k"
    and ns: "\<not> suspended k t" and free: "owner (mutexes k m) = None"
  shows "ok (mutex_take_free m t sf k) (\<lambda>k'. sysinv b k' \<and> mutex_inv k' \<and> pi_inv k' \<and> cur k' = cur k \<and>
    tick k' = tick k \<and> owner (mutexes k' m) = Some t \<and> hold (mutexes k' m) = 1 \<and>
    current_priority (threads k' t) \<le> current_priority (threads k t))"
proof -
  define c where "c = ceiling_priority (mutexes k m)"
  define k1 where "k1 = upd_mutex m (\<lambda>mx. mx\<lparr>owner := Some t, mutex_priority := 0xff, hold := 1\<rparr>) k"
  define up where "up \<longleftrightarrow> c \<noteq> 0xff \<and> c < current_priority (threads k t)"
  define k2 where "k2 = (if up then change_priority t c k1 else k1)"
  define k' where "k' = taken_insert t m k2"
  have i1: "sysinv b k1" using inv by (simp add: k1_def)
  note K1 = sysinv_kinv[OF i1]
  have c32: "up \<Longrightarrow> unat c < 32"
    using qinvD(10)[of "{}" k t] inv by (auto simp: up_def sysinv_def kinv_def prio_def word_less_nat_alt)
  have i2: "sysinv b k2" using change_priority_sys[OF i1 c32] i1 by (simp add: k2_def)
  have th2: "threads k2 u = (if u = t \<and> up then (threads k t)\<lparr>current_priority := c, number_mask := 2 ^ unat c\<rparr>
      else threads k u)" for u
    by (auto simp: k2_def change_priority_simps(1)[OF K1]) (simp_all add: k1_def)
  have st2: "suspended k2 u = suspended k u" "mutexes k2 = mutexes k1" "cur k2 = cur k" "tick k2 = tick k" for u
    by (auto simp: k2_def change_priority_state[OF K1]) (simp_all add: k1_def)
  have q2: "queues k2 (MutexQ i) = queues k (MutexQ i)" for i
    by (auto simp: k2_def change_priority_simps(2)[OF K1] waitq_def) (simp_all add: k1_def)
  have i': "sysinv b k'"
    unfolding k'_def taken_insert_def by (rule sysinv_upd_keep(2)[OF _ _ _ i2]) (simp_all add: tstat_def)
  have th: "init_priority (threads k' u) = init_priority (threads k u)"
    "pending_object (threads k' u) = pending_object (threads k u)"
    "taken_object_list (threads k' u) = (if u = t then m # taken_object_list (threads k t)
        else taken_object_list (threads k u))"
    "current_priority (threads k' u) = (if u = t \<and> up then c else current_priority (threads k u))" for u
    by (auto simp: k'_def taken_insert_def th2)
  have st: "suspended k' u = suspended k u" "cur k' = cur k" "tick k' = tick k" for u
    using st2 by (simp_all add: k'_def taken_insert_def suspended_def)
  have q': "queues k' (MutexQ i) = queues k (MutexQ i)" for i by (simp add: k'_def taken_insert_def q2)
  have mx: "mutexes k' i = (if i = m then (mutexes k m)\<lparr>owner := Some t, mutex_priority := 0xff, hold := 1\<rparr>
      else mutexes k i)" for i
    by (simp add: k'_def taken_insert_def st2) (simp add: k1_def)
  note M = mutex_invD[OF mi]
  have empty: "queues k (MutexQ m) = []" using M(5) free by simp
  have nt: "t \<notin> set (queues k (MutexQ i))" for i using M(6) ns by simp
  have le: "current_priority (threads k' u) \<le> current_priority (threads k u)" for u
    by (auto simp: th up_def)
  have "m \<notin> set (taken_object_list (threads k u))" for u using M(3)[of m u] free by simp
  then have "mutex_inv k'"
    using M(1,2,4,5,6) empty free unfolding mutex_inv_def th st q' mx
    by (auto simp: M(3)[symmetric]) (use free in simp)
  moreover have "pi_inv k'"
    unfolding pi_inv_def
  proof (intro allI conjI)
    fix i
    have "waiters_ok k i" "\<And>u. owner_ok k i u" using pi by (simp_all add: pi_inv_def)
    moreover have pr: "current_priority (threads k' u) = current_priority (threads k u)"
      if "u \<in> set (queues k (MutexQ i))" for u using that nt[of i] by (auto simp: th)
    moreover have "map (\<lambda>u. current_priority (threads k' u)) (queues k (MutexQ i)) =
        map (\<lambda>u. current_priority (threads k u)) (queues k (MutexQ i))" using pr by (rule map_cong[OF refl])
    ultimately show "waiters_ok k' i" using empty unfolding waiters_ok_def q' mx by (simp only:) auto
    show "owner_ok k' i u" for u
      using \<open>\<And>u. owner_ok k i u\<close>[of u] le[of u] u8_max[of "current_priority (threads k' u)"]
      by (auto simp: owner_ok_def mx)
  qed
  moreover have "mutex_take_free m t sf k = Some k'"
  proof -
    have "\<not> suspended k1 t" using ns by (simp add: k1_def)
    then have "thread_update_priority t c sf k1 = Some (change_priority t c k1)"
      by (rule update_priority_running[OF K1])
    moreover have "ceiling_priority (mutexes k1 m) = c" "current_priority (threads k1 t) = current_priority (threads k t)"
      by (simp_all add: k1_def c_def)
    ultimately show ?thesis
      by (simp add: mutex_take_free_def k1_def[symmetric] k'_def k2_def up_def Let_def)
  qed
  ultimately show ?thesis using i' st(2,3) le[of t] by (simp add: mx)
qed

text \<open>The state in which a thread has just joined the waiters.\<close>

definition joined :: "nat \<Rightarrow> tid \<Rightarrow> nat \<Rightarrow> kernel \<Rightarrow> kernel" where
  "joined m t sflag k = upd_thread t (\<lambda>th. th\<lparr>pending_object := Some m\<rparr>)
     (blocked (MutexQ m) RT_IPC_FLAG_PRIO t sflag k)"

lemma joined_simps:
  "current_priority (threads (joined m t sf k) u) = current_priority (threads k u)"
  "init_priority (threads (joined m t sf k) u) = init_priority (threads k u)"
  "taken_object_list (threads (joined m t sf k) u) = taken_object_list (threads k u)"
  "pending_object (threads (joined m t sf k) u) = (if u = t then Some m else pending_object (threads k u))"
  "error (threads (joined m t sf k) u) = error (threads k u)"
  "suspended (joined m t sf k) u \<longleftrightarrow> u = t \<or> suspended k u" "mutexes (joined m t sf k) = mutexes k"
  "cur (joined m t sf k) = cur k" "tick (joined m t sf k) = tick k"
  "queues (joined m t sf k) (MutexQ i) =
     (if i = m then prio_insert (\<lambda>u. current_priority (threads k u)) t (queues k (MutexQ m))
      else queues k (MutexQ i))"
proof -
  let ?k1 = "blocked (MutexQ m) RT_IPC_FLAG_PRIO t sf k"
  have b: "stat_only (threads k u) (threads ?k1 u)" for u
    by (simp add: blocked_def Let_def set_stat_def stat_only_def)
  note S = stat_onlyD[OF b]
  show "current_priority (threads (joined m t sf k) u) = current_priority (threads k u)"
    "init_priority (threads (joined m t sf k) u) = init_priority (threads k u)"
    "taken_object_list (threads (joined m t sf k) u) = taken_object_list (threads k u)"
    "pending_object (threads (joined m t sf k) u) = (if u = t then Some m else pending_object (threads k u))"
    "error (threads (joined m t sf k) u) = error (threads k u)"
    using S by (simp_all add: joined_def)
  show "suspended (joined m t sf k) u \<longleftrightarrow> u = t \<or> suspended k u"
    using mutexq.blocked_state(1)[of m RT_IPC_FLAG_PRIO t sf k u]
    by (simp add: joined_def sysinv_upd_keep tstat_def)
  show "mutexes (joined m t sf k) = mutexes k" "cur (joined m t sf k) = cur k" "tick (joined m t sf k) = tick k"
    "queues (joined m t sf k) (MutexQ i) =
     (if i = m then prio_insert (\<lambda>u. current_priority (threads k u)) t (queues k (MutexQ m))
      else queues k (MutexQ i))"
    by (simp_all add: joined_def blocked_def Let_def wait_insert_def)
qed

lemma joined_ok:
  assumes run: "runs b t k" and mi: "mutex_inv k" and pi: "pi_inv k" and rk: "ranked r k"
    and ow: "owner (mutexes k m) = Some ow" "r ow < r t"
  shows "sysinv b (joined m t sflag k)" "mutex_inv (joined m t sflag k)" "ranked r (joined m t sflag k)"
    "i \<noteq> m \<Longrightarrow> waiters_ok (joined m t sflag k) i" "owner_ok (joined m t sflag k) i u"
    "sorted (map (\<lambda>u. current_priority (threads k u)) (queues (joined m t sflag k) (MutexQ m)))"
    "set (queues (joined m t sflag k) (MutexQ m)) = insert t (set (queues k (MutexQ m)))"
proof -
  let ?k1 = "blocked (MutexQ m) RT_IPC_FLAG_PRIO t sflag k" and ?k2 = "joined m t sflag k"
  have inv: "sysinv b k" and c: "cur k = Some t" and r: "tstat k t = RT_THREAD_RUNNING"
    using run by (simp_all add: runs_def)
  note M = mutex_invD[OF mi] and f = joined_simps[of m t sflag k]
  have i1: "sysinv b ?k1" by (rule mutexq.blocked_sys[OF inv c r])
  show "sysinv b ?k2"
    unfolding joined_def by (rule sysinv_upd_keep(2)[OF _ _ _ i1]) (simp_all add: tstat_def)
  have nq: "t \<notin> set (queues k (MutexQ i))" for i
    using M(6)[of t i] r suspended_codes(4)[of k t] by simp
  have e: "queues k (MutexQ i) = []" if "owner (mutexes k i) = None" for i by (rule M(5)[OF that])
  show "mutex_inv ?k2"
    unfolding mutex_inv_def f
  proof (intro conjI allI impI)
    show "u \<in> set (if i = m then prio_insert (\<lambda>u. current_priority (threads k u)) t (queues k (MutexQ m))
          else queues k (MutexQ i)) \<longleftrightarrow>
        (u = t \<or> suspended k u) \<and> (if u = t then Some m else pending_object (threads k u)) = Some i" for u i
      using M(6)[of u i] nq[of i] by (auto simp: set_prio_insert)
    show "(if i = m then prio_insert (\<lambda>u. current_priority (threads k u)) t (queues k (MutexQ m))
          else queues k (MutexQ i)) = []" if "owner (mutexes k i) = None" for i
      using that e ow(1) by auto
  qed (use M(1-4) in auto)
  have "r v < r u" if "waits_for ?k2 u v" for u v
  proof (cases "u = t")
    case True
    then show ?thesis using that ow nq by (auto simp: waits_for_def f split: if_splits)
  next
    case False
    then have "waits_for k u v"
      using that by (auto simp: waits_for_def f set_prio_insert split: if_splits)
    then show ?thesis using rk by (simp add: ranked_def)
  qed
  then show "ranked r ?k2" by (simp add: ranked_def)
  show "sorted (map (\<lambda>u. current_priority (threads k u)) (queues ?k2 (MutexQ m)))"
    using pi sorted_prio_insert by (simp add: f pi_inv_def waiters_ok_def)
  show "i \<noteq> m \<Longrightarrow> waiters_ok ?k2 i" using pi by (simp add: f pi_inv_def waiters_ok_def)
  show "owner_ok ?k2 i u" using pi by (simp add: f pi_inv_def owner_ok_def)
  show "set (queues ?k2 (MutexQ m)) = insert t (set (queues k (MutexQ m)))" by (simp add: f set_prio_insert)
qed

text \<open>The priorities after a thread of priority \<open>p\<close> has joined.\<close>

definition inherit :: "nat \<Rightarrow> tid \<Rightarrow> u8 \<Rightarrow> kernel \<Rightarrow> kernel option" where
  "inherit m ow p k2 =
     (if p < mutex_priority (mutexes k2 m) then
        let k' = upd_mutex m (\<lambda>mx. mx\<lparr>mutex_priority := p\<rparr>) k2
        in if p < current_priority (threads k' ow)
           then thread_update_priority ow p RT_UNINTERRUPTIBLE k' else Some k'
      else Some k2)"

lemma inherit_ok:
  assumes inv: "sysinv b k" and mi: "mutex_inv k" and rk: "ranked r k"
    and w: "\<And>i. i \<noteq> m \<Longrightarrow> waiters_ok k i" and oo: "\<And>i u. owner_ok k i u"
    and sorted: "sorted (map (\<lambda>u. current_priority (threads k u)) (queues k (MutexQ m)))"
    and old: "\<And>u. u \<in> set (queues k (MutexQ m)) \<Longrightarrow> u \<noteq> t \<Longrightarrow>
       mutex_priority (mutexes k m) \<le> current_priority (threads k u)"
    and p: "p = current_priority (threads k t)" and ow: "owner (mutexes k m) = Some ow"
  shows "ok (inherit m ow p k) (\<lambda>k'. sysinv b k' \<and> mutex_inv k' \<and> pi_inv k' \<and> pi_frame k k')"
proof (cases "p < mutex_priority (mutexes k m)")
  case False
  have "waiters_ok k i" for i
  proof (cases "i = m")
    case True
    have "mutex_priority (mutexes k m) \<le> current_priority (threads k u)" if "u \<in> set (queues k (MutexQ m))" for u
      using old[OF that] False p by (cases "u = t") auto
    then show ?thesis using True sorted by (simp add: waiters_ok_def)
  qed (rule w)
  then have "pi_inv k" using oo by (simp add: pi_inv_def)
  then show ?thesis using False inv mi by (simp add: inherit_def)
next
  case True
  define k' where "k' = upd_mutex m (\<lambda>mx. mx\<lparr>mutex_priority := p\<rparr>) k"
  have ki: "kinv k" by (rule sysinv_kinv[OF inv])
  have i': "sysinv b k'" using inv by (simp add: k'_def)
  have fr: "pi_frame k k'" by (simp add: pi_frame_def k'_def)
  have mi': "mutex_inv k'" "ranked r k'" using mi rk pi_frame_inv[OF fr] by simp_all
  have w': "waiters_ok k' i" for i
  proof (cases "i = m")
    case True
    have "p \<le> current_priority (threads k u)" if "u \<in> set (queues k (MutexQ m))" for u
      using old[OF that] p \<open>p < _\<close> by (cases "u = t") auto
    then show ?thesis using True sorted by (simp add: waiters_ok_def k'_def)
  next
    case False
    then show ?thesis using w[OF False] by (simp add: waiters_ok_def k'_def)
  qed
  show ?thesis
  proof (cases "p < current_priority (threads k ow)")
    case False
    have "owner_ok k' i u" for i u
      using oo[of i u] ow False by (auto simp: owner_ok_def k'_def)
    then have "pi_inv k'" using w' by (simp add: pi_inv_def)
    then show ?thesis using True False i' mi' fr by (simp add: inherit_def Let_def k'_def)
  next
    case lt: True
    have ex: "pi_except k' ow"
      using w' oo ow unfolding pi_except_def owner_ok_def by (auto simp: k'_def)
    have p32: "unat p < 32" using qinvD(10)[of "{}" k t] ki p by (simp add: kinv_def prio_def)
    have pm: "p \<le> mutex_priority (mutexes k' i)" if "i \<in> set (taken_object_list (threads k' ow))" for i
      using that oo[of i ow] mutex_invD(3)[OF mi, of i ow] lt by (auto simp: k'_def owner_ok_def)
    from thread_update_priority_ok[OF i' mi' ex p32 pm, of RT_UNINTERRUPTIBLE]
    have "ok (thread_update_priority ow p RT_UNINTERRUPTIBLE k')
      (\<lambda>k''. sysinv b k'' \<and> mutex_inv k'' \<and> pi_inv k'' \<and> pi_frame k k'')"
    proof (rule ok_mono)
      fix k''
      assume a: "sysinv b k'' \<and> pi_frame k' k'' \<and> pi_inv k'' \<and> current_priority (threads k'' ow) = p"
      then have f': "pi_frame k' k''" by simp
      show "sysinv b k'' \<and> mutex_inv k'' \<and> pi_inv k'' \<and> pi_frame k k''"
        using a pi_frame_trans[OF fr f'] pi_frame_inv(1)[OF f'] mi'(1) by simp
    qed
    then show ?thesis using True lt by (simp add: inherit_def Let_def k'_def)
  qed
qed

lemma take_wait_ok:
  assumes run: "runs b t k" and mi: "mutex_inv k" and pi: "pi_inv k" and rk: "ranked r k"
    and ow: "owner (mutexes k m) = Some ow" "r ow < r t" and sf: "sflag \<le> RT_UNINTERRUPTIBLE"
    and to: "timeout < 2 ^ 31 - 1"
  shows "ok (mutex_take_wait m t ow timeout sflag k) (\<lambda>(r, k'). r = Waiting \<and> sysinv b k' \<and> mutex_inv k' \<and>
    pi_inv k' \<and> suspended k' t \<and> waits_for k' t ow \<and> owner (mutexes k' m) = Some ow \<and>
    hold (mutexes k' m) = hold (mutexes k m) \<and>
    set (queues k' (MutexQ m)) = insert t (set (queues k (MutexQ m))) \<and>
    error (threads k' t) = error (threads k t) \<and>
    (timeout > 0 \<longrightarrow> timeout_tick (timers k' (ThreadTimer t)) = tick k + of_int timeout))"
proof -
  define p where "p = current_priority (threads k t)"
  have inv: "sysinv b k" and c: "cur k = Some t" and r: "tstat k t = RT_THREAD_RUNNING"
    using run by (simp_all add: runs_def)
  note M = mutex_invD[OF mi]
  define k1 where "k1 = blocked (MutexQ m) RT_IPC_FLAG_PRIO t sflag k"
  define k2 where "k2 = joined m t sflag k"
  have fl: "mutex_flag (mutexes k m) \<in> {RT_IPC_FLAG_FIFO, RT_IPC_FLAG_PRIO}" using M(2) by simp
  have code: "ipc_list_suspend (MutexQ m) t (mutex_flag (mutexes k m)) sflag k = Some (RT_EOK, k1)"
    using mutexq.suspend_eq[OF inv c r fl sf, of m] M(2) by (simp add: k1_def)
  have k2: "upd_thread t (\<lambda>th. th\<lparr>pending_object := Some m\<rparr>) k1 = k2" by (simp add: k2_def k1_def joined_def)
  note J = joined_ok[OF run mi pi rk ow, where sflag = sflag, folded k2_def] and f = joined_simps[of m t sflag k, folded k2_def]
  have old: "mutex_priority (mutexes k2 m) \<le> current_priority (threads k2 u)"
    if "u \<in> set (queues k2 (MutexQ m))" "u \<noteq> t" for u
    using that pi J(7) by (auto simp: f pi_inv_def waiters_ok_def)
  have "ok (inherit m ow p k2) (\<lambda>k'. sysinv b k' \<and> mutex_inv k' \<and> pi_inv k' \<and> pi_frame k2 k')"
    by (rule inherit_ok[where t = t]) (use J old ow(1) in \<open>simp_all add: f p_def\<close>)
  then obtain k3 where k3: "inherit m ow p k2 = Some k3" "sysinv b k3" "mutex_inv k3" "pi_inv k3" "pi_frame k2 k3"
    by (auto simp: ok_iff)
  note F = pi_frameD[OF k3(5)]
  have s3: "cur k3 = Some t" "suspended k3 t" using F(1,15) f c by simp_all
  obtain k4 k' where k': "arm_if t timeout k3 = Some k4" "rt_schedule k4 = Some k'" "sysinv b k'"
    "only_scheduled k3 k'"
    "timeout > 0 \<longrightarrow> ThreadTimer t \<in> set (timer_lists k' TimerList) \<and>
       timeout_tick (timers k' (ThreadTimer t)) = tick k3 + of_int timeout"
    by (rule arm_schedule[OF k3(2) s3 to])
  note O = only_scheduledD[OF k'(4)] and OM = only_scheduled_mutex[OF k'(4)]
  have "set (queues k' (MutexQ m)) = insert t (set (queues k (MutexQ m)))"
    using OM(4)[of m] F(13)[of "MutexQ m"] J(7) by (simp add: waitq_def)
  moreover have mx: "owner (mutexes k' m) = Some ow" "hold (mutexes k' m) = hold (mutexes k m)"
    using OM(3) F(9,10)[of m] f(7) ow(1) by simp_all
  moreover have "waits_for k' t ow" using calculation(1) mx(1) by (auto simp: waits_for_def)
  moreover have "error (threads k' t) = error (threads k t)"
    using stat_onlyD(1)[OF O(1)[of t]] F(5)[of t] f(5)[of t] by simp
  moreover have "mutex_take_wait m t ow timeout sflag k = Some (Waiting, k')"
    using code k3(1) k'(1,2)
    by (simp add: mutex_take_wait_def k2 p_def[symmetric] inherit_def[symmetric])
  ultimately show ?thesis
    using k'(3,5) OM(1,2) k3(3,4) O(2)[of t] s3(2) F(3) f(9) by simp
qed

text \<open>What a take does to a mutex, as its users see it.\<close>

definition mutex_took :: "nat \<Rightarrow> int \<Rightarrow> tid \<Rightarrow> kernel \<Rightarrow> outcome \<times> kernel \<Rightarrow> bool" where
  "mutex_took m timeout t k = (\<lambda>(r, k').
     case owner (mutexes k m) of
       None \<Rightarrow> r = Done RT_EOK \<and> owner (mutexes k' m) = Some t \<and> hold (mutexes k' m) = 1
     | Some ow \<Rightarrow>
         if ow = t then
           owner (mutexes k' m) = Some t \<and> cur k' = Some t \<and>
           (if unat (hold (mutexes k m)) < 255
            then r = Done RT_EOK \<and> unat (hold (mutexes k' m)) = unat (hold (mutexes k m)) + 1
            else r = Done (- RT_EFULL) \<and> mutexes k' = mutexes k)
         else if timeout = 0 then r = Done (- RT_ETIMEOUT) \<and> error (threads k' t) = - RT_ETIMEOUT \<and>
           mutexes k' = mutexes k \<and> cur k' = Some t
         else r = Waiting \<and> suspended k' t \<and> waits_for k' t ow \<and> owner (mutexes k' m) = Some ow \<and>
           hold (mutexes k' m) = hold (mutexes k m) \<and>
           set (queues k' (MutexQ m)) = insert t (set (queues k (MutexQ m))) \<and>
           (timeout > 0 \<longrightarrow> timeout_tick (timers k' (ThreadTimer t)) = tick k + of_int timeout))"

lemma u8_succ: "(v::u8) < 0xff \<Longrightarrow> unat (v + 1) = unat v + 1"
  by (simp add: word_less_nat_alt unat_word_ariths)

lemma hold_inc_ok:
  assumes mi: "mutex_inv k" and pi: "pi_inv k" and ow: "owner (mutexes k m) = Some t"
    and h: "hold (mutexes k m) < 0xff"
  shows "mutex_inv (upd_mutex m (\<lambda>mx. mx\<lparr>hold := hold mx + 1\<rparr>) k)"
    "pi_inv (upd_mutex m (\<lambda>mx. mx\<lparr>hold := hold mx + 1\<rparr>) k)"
proof -
  have "hold (mutexes k m) + 1 \<noteq> 0" using u8_succ[OF h] by (metis unat_0 add_is_0 one_neq_zero)
  moreover have "hold (mutexes k m) \<noteq> 0" using mutex_invD(4)[OF mi, of m] ow by simp
  ultimately show "mutex_inv (upd_mutex m (\<lambda>mx. mx\<lparr>hold := hold mx + 1\<rparr>) k)"
    using mi unfolding mutex_inv_def by simp
  show "pi_inv (upd_mutex m (\<lambda>mx. mx\<lparr>hold := hold mx + 1\<rparr>) k)"
    using pi by (simp add: pi_inv_def waiters_ok_def owner_ok_def)
qed

lemma mutex_take_correct:
  assumes run: "runs b t k" and mi: "mutex_inv k" and pi: "pi_inv k" and rk: "ranked r k"
    and ow: "\<And>ow. owner (mutexes k m) = Some ow \<Longrightarrow> ow \<noteq> t \<Longrightarrow> r ow < r t"
    and av: "scheduler_available k" and to: "timeout < 2 ^ 31 - 1" and sf: "sflag \<le> RT_UNINTERRUPTIBLE"
  shows "ok (mutex_take m timeout sflag k)
    (\<lambda>(x, k'). sysinv b k' \<and> mutex_inv k' \<and> pi_inv k' \<and> mutex_took m timeout t k (x, k'))"
proof -
  let ?k = "set_error t RT_EOK k"
  have inv: "sysinv b ?k" and c: "cur k = Some t" and ns: "\<not> suspended ?k t"
    using run suspended_codes(4)[of k t] by (auto simp: runs_def)
  have mi': "mutex_inv ?k" and pi': "pi_inv ?k" using mi pi by simp_all
  note start = mutex_take_def rt_thread_self_def
  show ?thesis
  proof (cases "owner (mutexes k m)")
    case None
    have "owner (mutexes ?k m) = None" using None by simp
    from take_free_ok[OF inv mi' pi' ns this, of sflag] show ?thesis
      using None av c by (auto simp: start mutex_took_def ok_iff)
  next
    case (Some ow)
    show ?thesis
    proof (cases "ow = t")
      case True
      then have o': "owner (mutexes ?k m) = Some t" using Some by simp
      show ?thesis
      proof (cases "hold (mutexes k m) < 0xff")
        case lt: True
        then have h: "hold (mutexes ?k m) < 0xff" by simp
        show ?thesis
          using hold_inc_ok[OF mi' pi' o' h] inv u8_succ[OF lt] lt av c True Some
          by (simp add: start mutex_took_def word_less_nat_alt)
      next
        case False
        then show ?thesis
          using inv mi' pi' av c True Some by (simp add: start mutex_took_def word_less_nat_alt)
      qed
    next
      case ne: False
      show ?thesis
      proof (cases "timeout = 0")
        case True
        then show ?thesis using inv mi' pi' av c ne Some by (simp add: start mutex_took_def)
      next
        case False
        have "owner (mutexes ?k m) = Some ow" "runs b t ?k" "ranked r ?k" using Some run rk by simp_all
        from take_wait_ok[OF this(2) mi' pi' this(3,1) ow[OF Some ne] sf to] show ?thesis
          using False av c ne Some by (auto simp: start mutex_took_def ok_iff)
      qed
    qed
  qed
qed

section \<open>Releasing\<close>

lemma sysinv_threads_cong:
  assumes "\<And>u. stat (threads k' u) = stat (threads k u)"
    and "\<And>u. current_priority (threads k' u) = current_priority (threads k u)"
    and "\<And>u. number_mask (threads k' u) = number_mask (threads k u)"
    and "queues k' = queues k" "ready_group k' = ready_group k"
    and "cur k' = cur k" "timers k' = timers k" "timer_lists k' = timer_lists k" "tick k' = tick k"
  shows "sysinv b k' = sysinv b k"
proof -
  have t: "tstat k' t = tstat k t" "suspended k' t = suspended k t" "prio k' t = prio k t" for t
    by (simp_all add: tstat_def suspended_def prio_def assms(1,2))
  have "qinv {} k' = qinv {} k" by (rule qinv_cong) (simp_all add: assms t)
  moreover have "cinv k' = cinv k" by (rule cinv_cong) (simp_all add: assms t)
  moreover have "timers_ok b k' = timers_ok b k" by (rule timers_ok_cong) (simp_all add: assms)
  then have "tinv b k' = tinv b k" by (simp add: tinv_def activated_def periodic_def assms t)
  ultimately show ?thesis by (simp add: sysinv_def kinv_def)
qed

lemma taken_remove_simps [simp]:
  "threads (taken_remove m k) t =
     (threads k t)\<lparr>taken_object_list := removeAll m (taken_object_list (threads k t))\<rparr>"
  "mutexes (taken_remove m k) = mutexes k" "queues (taken_remove m k) = queues k"
  "ready_group (taken_remove m k) = ready_group k" "cur (taken_remove m k) = cur k"
  "timers (taken_remove m k) = timers k" "timer_lists (taken_remove m k) = timer_lists k"
  "tick (taken_remove m k) = tick k" "lock_nest (taken_remove m k) = lock_nest k"
  "suspended (taken_remove m k) t = suspended k t" "tstat (taken_remove m k) t = tstat k t"
  "runnable (taken_remove m k) t = runnable k t"
  by (simp_all add: taken_remove_def suspended_def tstat_def runnable_def)

lemma sysinv_taken_remove [simp]: "sysinv b (taken_remove m k) = sysinv b k"
  by (rule sysinv_threads_cong) simp_all

text \<open>The state of a release between the two owners: nobody has the mutex, the waiters are unchanged.\<close>

definition between :: "nat \<Rightarrow> tid \<Rightarrow> kernel \<Rightarrow> kernel \<Rightarrow> bool" where
  "between m t k k2 \<longleftrightarrow>
     cur k2 = cur k \<and> tick k2 = tick k \<and> lock_nest k2 = lock_nest k \<and>
     (\<forall>u. tstat k2 u = tstat k u \<and> suspended k2 u = suspended k u \<and>
        init_priority (threads k2 u) = init_priority (threads k u) \<and>
        pending_object (threads k2 u) = pending_object (threads k u) \<and>
        error (threads k2 u) = error (threads k u) \<and>
        taken_object_list (threads k2 u) = removeAll m (taken_object_list (threads k u)) \<and>
        (u \<noteq> t \<longrightarrow> current_priority (threads k2 u) = current_priority (threads k u))) \<and>
     (\<forall>i. mutexes k2 i = (if i = m then (mutexes k m)\<lparr>hold := 0\<rparr> else mutexes k i)) \<and>
     (\<forall>i. queues k2 (MutexQ i) = queues k (MutexQ i)) \<and>
     (\<forall>i. owner (mutexes k i) = Some t \<longrightarrow> i \<noteq> m \<longrightarrow>
        current_priority (threads k2 t) \<le> mutex_priority (mutexes k i)) \<and>
     current_priority (threads k2 t) \<le> max (current_priority (threads k t)) (init_priority (threads k t))"

lemma betweenD:
  assumes "between m t k k2"
  shows "cur k2 = cur k" "tick k2 = tick k" "lock_nest k2 = lock_nest k"
    "tstat k2 u = tstat k u" "suspended k2 u = suspended k u"
    "init_priority (threads k2 u) = init_priority (threads k u)"
    "pending_object (threads k2 u) = pending_object (threads k u)"
    "error (threads k2 u) = error (threads k u)"
    "taken_object_list (threads k2 u) = removeAll m (taken_object_list (threads k u))"
    "u \<noteq> t \<Longrightarrow> current_priority (threads k2 u) = current_priority (threads k u)"
    "mutexes k2 i = (if i = m then (mutexes k m)\<lparr>hold := 0\<rparr> else mutexes k i)"
    "queues k2 (MutexQ i) = queues k (MutexQ i)"
    "owner (mutexes k i) = Some t \<Longrightarrow> i \<noteq> m \<Longrightarrow>
       current_priority (threads k2 t) \<le> mutex_priority (mutexes k i)"
  using assms unfolding between_def by simp_all

lemma release_priority_ok:
  assumes inv: "sysinv b k" and mi: "mutex_inv k" and pi: "pi_inv k"
    and ow: "owner (mutexes k m) = Some t" "hold (mutexes k m) = 1"
  obtains need k2 where "release_priority m t (taken_remove m (upd_mutex m (\<lambda>mx. mx\<lparr>hold := hold mx - 1\<rparr>) k)) = (need, k2)"
    "sysinv b k2" "between m t k k2"
proof -
  let ?k1 = "taken_remove m (upd_mutex m (\<lambda>mx. mx\<lparr>hold := hold mx - 1\<rparr>) k)"
  let ?need = "ceiling_priority (mutexes ?k1 m) \<noteq> 0xff \<or>
    current_priority (threads ?k1 t) = mutex_priority (mutexes ?k1 m)"
  define p where "p = thread_get_mutex_priority t ?k1"
  define k2 where "k2 = (if ?need then change_priority t p ?k1 else ?k1)"
  have i1: "sysinv b ?k1" using inv by simp
  note K = sysinv_kinv[OF i1] and M = mutex_invD[OF mi]
  note C = change_priority_simps[OF K, where t = t and p = p]
  have code: "release_priority m t ?k1 = (?need, k2)"
    by (simp add: release_priority_def k2_def p_def Let_def)
  have pl: "p \<le> init_priority (threads ?k1 t)" unfolding p_def by (rule get_mutex_priority_le(1))
  have p32: "unat p < 32" using pl M(1)[of t] by (simp add: word_le_nat_alt)
  have i2: "sysinv b k2" using i1 change_priority_sys[OF i1 p32] by (simp add: k2_def)
  have pr: "current_priority (threads k2 t) \<le> mutex_priority (mutexes k i)"
    if "owner (mutexes k i) = Some t" "i \<noteq> m" for i
  proof -
    have "i \<in> set (taken_object_list (threads ?k1 t))" using that M(3)[of i t] by simp
    then have "p \<le> mutex_priority (mutexes k i)"
      using get_mutex_priority_le(3)[of i ?k1 t] that(2) by (simp add: p_def)
    moreover have "current_priority (threads k t) \<le> mutex_priority (mutexes k i)"
      using pi that(1) by (simp add: pi_inv_def owner_ok_def)
    ultimately show ?thesis by (auto simp: k2_def C(1))
  qed
  have "between m t k k2"
    unfolding between_def
  proof (intro conjI allI impI)
    show "current_priority (threads k2 t) \<le> max (current_priority (threads k t)) (init_priority (threads k t))"
      using pl by (auto simp: k2_def C(1) le_max_iff_disj)
  qed (use pr ow(2) in \<open>auto simp: k2_def C change_priority_state[OF K] waitq_def\<close>)
  with code i2 show ?thesis by (rule that)
qed

text \<open>Nobody waits: the mutex is free.\<close>

lemma hand_over_none:
  assumes inv: "sysinv b k2" and mi: "mutex_inv k" and pi: "pi_inv k" and bt: "between m t k k2"
    and ow: "owner (mutexes k m) = Some t" and nt: "\<not> suspended k t" and q: "queues k (MutexQ m) = []"
  obtains k3 where "hand_over m k2 = (False, k3)" "sysinv b k3" "mutex_inv k3" "pi_inv k3"
    "owner (mutexes k3 m) = None" "cur k3 = cur k" "queues k3 (MutexQ m) = []"
proof -
  note B = betweenD[OF bt] and M = mutex_invD[OF mi]
  define k3 where "k3 = upd_mutex m (\<lambda>mx. mx\<lparr>owner := None, mutex_priority := 0xff\<rparr>) k2"
  have code: "hand_over m k2 = (False, k3)" using q B(12)[of m] by (simp add: hand_over_def k3_def)
  have mx: "mutexes k3 i = (if i = m then (mutexes k m)\<lparr>hold := 0, owner := None, mutex_priority := 0xff\<rparr>
      else mutexes k i)" for i by (simp add: k3_def B(11))
  have f: "threads k3 = threads k2" "suspended k3 u = suspended k u" "queues k3 (MutexQ i) = queues k (MutexQ i)" for u i
    by (simp_all add: k3_def B(5,12))
  have "mutex_inv k3"
    unfolding mutex_inv_def f mx B(6,7,9)
    using M(1,2,4,5,6) q ow by (auto simp: M(3)[symmetric])
  moreover have "pi_inv k3"
    unfolding pi_inv_def
  proof (intro allI conjI)
    fix i
    have w: "waiters_ok k i" and oo: "\<And>u. owner_ok k i u" using pi by (simp_all add: pi_inv_def)
    have pr: "current_priority (threads k3 u) = current_priority (threads k u)"
      if "u \<in> set (queues k (MutexQ i))" for u
    proof -
      have "u \<noteq> t" using that M(6)[of u i] nt by auto
      then show ?thesis by (simp add: f B(10))
    qed
    have "map (\<lambda>u. current_priority (threads k3 u)) (queues k (MutexQ i)) =
        map (\<lambda>u. current_priority (threads k u)) (queues k (MutexQ i))" using pr by (rule map_cong[OF refl])
    then show "waiters_ok k3 i" using w pr q unfolding waiters_ok_def f(3) mx by (simp only:) auto
    show "owner_ok k3 i u" for u
      using oo[of u] B(13)[of i] B(10)[of u] by (cases "u = t") (auto simp: owner_ok_def mx f)
  qed
  ultimately show ?thesis
    using that[OF code] inv q B(1) f(3) by (simp add: k3_def)
qed

text \<open>Somebody waits: the first waiter becomes the owner and runs on.\<close>

lemma hand_over_first:
  assumes inv: "sysinv b k2" and mi: "mutex_inv k" and pi: "pi_inv k" and bt: "between m t k k2"
    and ow: "owner (mutexes k m) = Some t" and c: "cur k = Some t" and nt: "\<not> suspended k t"
    and q: "queues k (MutexQ m) = n # ws"
  obtains k3 where "hand_over m k2 = (True, k3)" "sysinv b k3" "mutex_inv k3" "pi_inv k3"
    "owner (mutexes k3 m) = Some n" "hold (mutexes k3 m) = 1" "cur k3 = cur k" "queues k3 (MutexQ m) = ws"
    "runnable k3 n" "error (threads k3 n) = error (threads k n)"
    "current_priority (threads k3 n) = current_priority (threads k n)"
proof -
  note B = betweenD[OF bt] and M = mutex_invD[OF mi]
  have qi: "qinv {} k2" using inv by (simp add: sysinv_def kinv_def)
  have sn: "suspended k n" "pending_object (threads k n) = Some m" using M(6)[of n m] q by simp_all
  then have ne: "n \<noteq> t" using nt by auto
  have nw: "n \<notin> set ws" using qinvD(1)[OF qi, of "MutexQ m"] B(12)[of m] q by simp
  define k4 where "k4 = upd_thread n (\<lambda>th. th\<lparr>pending_object := None\<rparr>)
    (taken_insert n m (upd_mutex m (\<lambda>mx. mx\<lparr>owner := Some n, hold := 1\<rparr>) (k2\<lparr>queues := q_remove n (queues k2)\<rparr>)))"
  define k3 where "k3 = mutex_update_priority m (resumed n k4)"
  have s4: "suspended k4 n" using sn B(5)[of n] by (simp add: k4_def taken_insert_def suspended_def)
  have code: "hand_over m k2 = (True, k3)"
    using q B(12)[of m] rt_thread_resume_eq(1)[OF s4] by (simp add: hand_over_def k3_def k4_def Let_def)
  have s2: "suspended k2 n" using sn B(5) by simp
  have "sysinv b k4 = sysinv b (k2\<lparr>queues := q_remove n (queues k2)\<rparr>)"
    by (rule sysinv_threads_cong) (simp_all add: k4_def taken_insert_def)
  then have i4: "sysinv b k4" using sysinv_unlink_suspended[OF inv s2] by simp
  have i3: "sysinv b k3" using resumed_sys[OF i4 s4] by (simp add: k3_def mutex_update_priority_def)
  have th: "current_priority (threads k3 u) = current_priority (threads k2 u)"
    "init_priority (threads k3 u) = init_priority (threads k u)"
    "pending_object (threads k3 u) = (if u = n then None else pending_object (threads k u))"
    "taken_object_list (threads k3 u) = (if u = n then m # removeAll m (taken_object_list (threads k u))
       else removeAll m (taken_object_list (threads k u)))"
    "error (threads k3 u) = error (threads k u)" for u
    by (auto simp: k3_def mutex_update_priority_def k4_def taken_insert_def set_stat_def B(6,7,8,9))
  have su: "suspended k3 u \<longleftrightarrow> u \<noteq> n \<and> suspended k u" for u
  proof (cases "u = n")
    case True
    have "tstat k3 n = RT_THREAD_READY \<or> tstat k3 n = RT_THREAD_RUNNING"
      by (simp add: k3_def mutex_update_priority_def resumed_state)
    then show ?thesis using True suspended_codes(3,4)[of k3 n] by auto
  next
    case False
    then show ?thesis
      by (simp add: k3_def mutex_update_priority_def resumed_state(3))
        (simp add: k4_def taken_insert_def suspended_def B(5)[unfolded suspended_def])
  qed
  have rn: "runnable k3 n" by (auto simp: k3_def mutex_update_priority_def runnable_def resumed_state)
  have qn: "n \<notin> set (queues k (MutexQ i))" if "i \<noteq> m" for i using M(6)[of n i] sn that by simp
  have qs: "queues k3 (MutexQ i) = (if i = m then ws else queues k (MutexQ i))" for i
    using qn[of i] nw q B(12)[of i] B(12)[of m]
    by (simp add: k3_def mutex_update_priority_def resumed_queues waitq_def)
      (simp add: k4_def taken_insert_def q_remove_def removeAll_id)
  have fw: "first_waiter_priority m k3 = first_waiter_priority m (resumed n k4)"
    unfolding k3_def mutex_update_priority_def first_waiter_priority_def upd_mutex_simps by (rule refl)
  have mx: "mutexes k3 i = (if i = m then (mutexes k m)\<lparr>owner := Some n, hold := 1,
      mutex_priority := first_waiter_priority m k3\<rparr> else mutexes k i)" for i
    unfolding fw by (simp add: k3_def mutex_update_priority_def) (auto simp: k4_def taken_insert_def B(11))
  have wsx: "u \<in> set ws \<longleftrightarrow> u \<noteq> n \<and> suspended k u \<and> pending_object (threads k u) = Some m" for u
    using M(6)[of u m] q nw by auto
  have "mutex_inv k3"
    unfolding mutex_inv_def th su qs mx
    using M(1,2,4,5,6) q ow wsx sn ne by (auto simp: M(3)[symmetric])
  moreover have "pi_inv k3"
    unfolding pi_inv_def
  proof (intro allI conjI)
    fix i
    have w: "waiters_ok k i" and oo: "\<And>u. owner_ok k i u" using pi by (simp_all add: pi_inv_def)
    have pr: "current_priority (threads k3 u) = current_priority (threads k u)"
      if "u \<in> set (queues k (MutexQ i))" for u
    proof -
      have "u \<noteq> t" using that M(6)[of u i] nt by auto
      then show ?thesis by (simp add: th B(10))
    qed
    have sub: "set (queues k3 (MutexQ i)) \<subseteq> set (queues k (MutexQ i))" using q by (auto simp: qs)
    have "map (\<lambda>u. current_priority (threads k3 u)) (queues k3 (MutexQ i)) =
        map (\<lambda>u. current_priority (threads k u)) (queues k3 (MutexQ i))"
      using pr sub by (intro map_cong[OF refl]) blast
    moreover have "sorted (map (\<lambda>u. current_priority (threads k u)) (queues k3 (MutexQ i)))"
      using w q by (auto simp: qs waiters_ok_def)
    ultimately have srt: "sorted (map (\<lambda>u. current_priority (threads k3 u)) (queues k3 (MutexQ i)))"
      by (simp only:)
    show "waiters_ok k3 i"
    proof (cases "i = m")
      case True
      then show ?thesis using srt first_waiter_le[of k3 m] by (auto simp: waiters_ok_def mx)
    next
      case False
      then show ?thesis using srt pr w by (auto simp: waiters_ok_def mx qs)
    qed
    have hd: "current_priority (threads k n) \<le> first_waiter_priority m k3" if "i = m"
    proof (cases ws)
      case Nil
      then show ?thesis using u8_max by (simp add: first_waiter_priority_def qs)
    next
      case (Cons w' ws')
      then have "current_priority (threads k n) \<le> current_priority (threads k w')"
        using w q that by (simp add: waiters_ok_def)
      then show ?thesis using Cons pr[of w'] q that by (simp add: first_waiter_priority_def qs)
    qed
    show "owner_ok k3 i u" for u
      using oo[of u] B(13)[of i] B(10)[of u] hd ne ow by (cases "u = t") (auto simp: owner_ok_def mx th)
  qed
  ultimately show ?thesis
    using that[OF code i3] rn B(1) th(1)[of n] B(10)[OF ne] th(5) qs[of m] by (simp add: mx) (simp add: k3_def mutex_update_priority_def k4_def taken_insert_def)
qed

text \<open>What a release does to a mutex.\<close>

definition mutex_released :: "nat \<Rightarrow> tid \<Rightarrow> kernel \<Rightarrow> rt_err_t \<times> kernel \<Rightarrow> bool" where
  "mutex_released m t k = (\<lambda>(e, k').
     if owner (mutexes k m) \<noteq> Some t
     then e = - RT_ERROR \<and> error (threads k' t) = - RT_ERROR \<and> mutexes k' = mutexes k \<and> cur k' = Some t
     else e = RT_EOK \<and>
       (if 1 < unat (hold (mutexes k m))
        then owner (mutexes k' m) = Some t \<and> unat (hold (mutexes k' m)) = unat (hold (mutexes k m)) - 1 \<and>
          cur k' = Some t \<and> queues k' (MutexQ m) = queues k (MutexQ m)
        else case queues k (MutexQ m) of
            [] \<Rightarrow> owner (mutexes k' m) = None
          | n # ws \<Rightarrow> owner (mutexes k' m) = Some n \<and> hold (mutexes k' m) = 1 \<and>
              queues k' (MutexQ m) = ws \<and> runnable k' n \<and> error (threads k' n) = error (threads k n) \<and>
              current_priority (threads k' n) = current_priority (threads k n) \<and>
              (\<forall>w \<in> set ws. current_priority (threads k n) \<le> current_priority (threads k w))))"

lemma hold_dec_ok:
  assumes mi: "mutex_inv k" and pi: "pi_inv k" and ow: "owner (mutexes k m) = Some t"
    and h: "hold (mutexes k m) - 1 \<noteq> 0"
  shows "mutex_inv (upd_mutex m (\<lambda>mx. mx\<lparr>hold := hold mx - 1\<rparr>) k)"
    "pi_inv (upd_mutex m (\<lambda>mx. mx\<lparr>hold := hold mx - 1\<rparr>) k)"
proof -
  have "hold (mutexes k m) \<noteq> 0" using mutex_invD(4)[OF mi, of m] ow by simp
  then show "mutex_inv (upd_mutex m (\<lambda>mx. mx\<lparr>hold := hold mx - 1\<rparr>) k)"
    using mi h unfolding mutex_inv_def by simp
  show "pi_inv (upd_mutex m (\<lambda>mx. mx\<lparr>hold := hold mx - 1\<rparr>) k)"
    using pi by (simp add: pi_inv_def waiters_ok_def owner_ok_def)
qed

lemma u8_pred: "(v::u8) \<noteq> 0 \<Longrightarrow> unat (v - 1) = unat v - 1"
  by (simp add: unat_minus_one)

lemma only_scheduled_thread:
  assumes "only_scheduled k k'"
  shows "error (threads k' u) = error (threads k u)" "runnable k' u = runnable k u"
    "current_priority (threads k' u) = current_priority (threads k u)"
  using only_scheduledD(1,3)[OF assms, of u] stat_onlyD(1,2) by auto

lemma release_last:
  assumes "in_thread_context k" "cur k = Some t" "owner (mutexes k m) = Some t" "hold (mutexes k m) = 1"
    and "release_priority m t (taken_remove m (upd_mutex m (\<lambda>mx. mx\<lparr>hold := hold mx - 1\<rparr>) k)) = (need, k2)"
    and "hand_over m k2 = (woken, k3)"
  shows "rt_mutex_release m k =
    (if need \<or> woken then do { k4 \<leftarrow> rt_schedule k3; Some (RT_EOK, k4) } else Some (RT_EOK, k3))"
proof -
  have "hold (mutexes (upd_mutex m (\<lambda>mx. mx\<lparr>hold := hold mx - 1\<rparr>) k) m) = 0" by (simp add: assms(4))
  then show ?thesis
    unfolding rt_mutex_release_def rt_thread_self_def Let_def assms(2,3)
    by (simp add: assms(1,3,5,6) del: upd_mutex_simps)
qed

lemma schedule_keeps_mutexes:
  assumes "sysinv b k" "cur k = Some t"
  obtains k' where "rt_schedule k = Some k'" "sysinv b k'" "only_scheduled k k'"
proof -
  obtain k' where "rt_schedule k = Some k'" "sysinv b k'" "sched_frame k k'"
    using rt_schedule_sys[OF assms] by (auto simp: ok_iff)
  then show ?thesis by (intro that sched_frame_only)
qed

lemma mutex_release_correct:
  assumes run: "runs b t k" and mi: "mutex_inv k" and pi: "pi_inv k" and itc: "in_thread_context k"
  shows "ok (rt_mutex_release m k)
    (\<lambda>(e, k'). sysinv b k' \<and> mutex_inv k' \<and> pi_inv k' \<and> mutex_released m t k (e, k'))"
proof -
  have inv: "sysinv b k" and c: "cur k = Some t" and ns: "\<not> suspended k t"
    using run suspended_codes(4)[of k t] by (auto simp: runs_def)
  note M = mutex_invD[OF mi]
  note start = rt_mutex_release_def rt_thread_self_def
  show ?thesis
  proof (cases "owner (mutexes k m) = Some t")
    case False
    then show ?thesis using inv mi pi itc c by (simp add: start mutex_released_def)
  next
    case ow: True
    have h0: "hold (mutexes k m) \<noteq> 0" using M(4)[of m] ow by simp
    have hp: "unat (hold (mutexes k m) - 1) = unat (hold (mutexes k m)) - 1" by (rule u8_pred[OF h0])
    have lt: "1 < unat (hold (mutexes k m)) \<longleftrightarrow> hold (mutexes k m) - 1 \<noteq> 0"
      using hp h0 by (metis One_nat_def diff_is_0_eq not_less unat_eq_zero)
    show ?thesis
    proof (cases "hold (mutexes k m) - 1 = 0")
      case False
      then show ?thesis
        using hold_dec_ok[OF mi pi ow False] inv itc c ow hp lt by (simp add: start mutex_released_def)
    next
      case True
      then have h1: "hold (mutexes k m) = 1" by simp
      obtain need k2 where k2: "release_priority m t (taken_remove m (upd_mutex m (\<lambda>mx. mx\<lparr>hold := hold mx - 1\<rparr>) k))
          = (need, k2)" "sysinv b k2" "between m t k k2"
        by (rule release_priority_ok[OF inv mi pi ow h1])
      show ?thesis
      proof (cases "queues k (MutexQ m)")
        case Nil
        obtain k3 where k3: "hand_over m k2 = (False, k3)" "sysinv b k3" "mutex_inv k3" "pi_inv k3"
          "owner (mutexes k3 m) = None" "cur k3 = cur k" "queues k3 (MutexQ m) = []"
          by (rule hand_over_none[OF k2(2) mi pi k2(3) ow ns Nil])
        have c3: "cur k3 = Some t" using k3(6) c by simp
        obtain k' where k': "rt_schedule k3 = Some k'" "sysinv b k'" "only_scheduled k3 k'"
          by (rule schedule_keeps_mutexes[OF k3(2) c3])
        note S = only_scheduled_mutex[OF k'(3)]
        have rel: "mutex_released m t k (RT_EOK, k3)" "mutex_released m t k (RT_EOK, k')"
          using Nil ow h1 k3(5) S(3) by (simp_all add: mutex_released_def)
        then show ?thesis
          unfolding release_last[OF itc c ow h1 k2(1) k3(1)] using k3(2-4) k'(1,2) S(1,2) by simp
      next
        case (Cons n ws)
        obtain k3 where k3: "hand_over m k2 = (True, k3)" "sysinv b k3" "mutex_inv k3" "pi_inv k3"
          "owner (mutexes k3 m) = Some n" "hold (mutexes k3 m) = 1" "cur k3 = cur k" "queues k3 (MutexQ m) = ws"
          "runnable k3 n" "error (threads k3 n) = error (threads k n)"
          "current_priority (threads k3 n) = current_priority (threads k n)"
          by (rule hand_over_first[OF k2(2) mi pi k2(3) ow c ns Cons])
        have c3: "cur k3 = Some t" using k3(7) c by simp
        obtain k' where k': "rt_schedule k3 = Some k'" "sysinv b k'" "only_scheduled k3 k'"
          by (rule schedule_keeps_mutexes[OF k3(2) c3])
        note S = only_scheduled_mutex[OF k'(3)] and T = only_scheduled_thread[OF k'(3)]
        have "waiters_ok k m" using pi by (simp add: pi_inv_def)
        then have "\<forall>w \<in> set ws. current_priority (threads k n) \<le> current_priority (threads k w)"
          using Cons by (simp add: waiters_ok_def)
        then have "mutex_released m t k (RT_EOK, k')"
          using Cons ow h1 k3(5-) S(3,4) T by (simp add: mutex_released_def)
        then show ?thesis
          unfolding release_last[OF itc c ow h1 k2(1) k3(1)] using k3(2-4) k'(1,2) S(1,2) by simp
      qed
    qed
  qed
qed

section \<open>Giving back a priority\<close>

lemma restore_owner_ok:
  assumes inv: "sysinv b k" and mi: "mutex_inv k" and pi: "pi_inv k" and rk: "ranked r k"
    and ow: "owner (mutexes k m) = Some ow"
  obtains k' where "restore_owner m k = Some k'" "sysinv b k'" "mutex_inv k'" "pi_inv k'" "pi_frame k k'"
    "current_priority (threads k' ow) = thread_get_mutex_priority ow k"
proof -
  define p where "p = thread_get_mutex_priority ow k"
  have "p \<le> init_priority (threads k ow)" unfolding p_def by (rule get_mutex_priority_le(1))
  then have p32: "unat p < 32" using mutex_invD(1)[OF mi, of ow] by (simp add: word_le_nat_alt)
  have pm: "p \<le> mutex_priority (mutexes k i)" if "i \<in> set (taken_object_list (threads k ow))" for i
    unfolding p_def by (rule get_mutex_priority_le(3)[OF that])
  have ex: "pi_except k ow" using pi by (simp add: pi_inv_def pi_except_def)
  show ?thesis
  proof (cases "p = current_priority (threads k ow)")
    case True
    then have "restore_owner m k = Some k" using ow by (simp add: restore_owner_def p_def[symmetric] Let_def)
    then show ?thesis by (rule that[OF _ inv mi pi pi_frame_refl]) (use True in \<open>simp add: p_def\<close>)
  next
    case False
    from thread_update_priority_ok[OF inv mi rk ex p32 pm, of RT_UNINTERRUPTIBLE]
    obtain k' where k': "thread_update_priority ow p RT_UNINTERRUPTIBLE k = Some k'" "sysinv b k'"
      "pi_frame k k'" "pi_inv k'" "current_priority (threads k' ow) = p" by (auto simp: ok_iff)
    have "restore_owner m k = Some k'" using k'(1) ow False by (simp add: restore_owner_def p_def Let_def)
    moreover have "mutex_inv k'" using pi_frame_inv(1)[OF k'(3)] mi by simp
    ultimately show ?thesis using k'(2-5) by (intro that) (simp_all add: p_def)
  qed
qed

lemma pi_cong:
  assumes "\<And>u. current_priority (threads k' u) = current_priority (threads k u)"
    and "\<And>m. queues k' (MutexQ m) = queues k (MutexQ m)"
    and "\<And>m. owner (mutexes k' m) = owner (mutexes k m)"
    and "\<And>m. mutex_priority (mutexes k' m) = mutex_priority (mutexes k m)"
  shows "pi_inv k' = pi_inv k"
  unfolding pi_inv_def waiters_ok_def owner_ok_def assms by (rule refl)

lemma update_mutex_ok:
  assumes pi: "pi_inv k"
  shows "pi_inv (mutex_update_priority m k)" "pi_frame k (mutex_update_priority m k)"
    "sysinv b (mutex_update_priority m k) = sysinv b k"
proof -
  show "pi_frame k (mutex_update_priority m k)" "sysinv b (mutex_update_priority m k) = sysinv b k"
    by (simp_all add: mutex_update_priority_def pi_frame_def)
  have w: "waiters_ok k i" and oo: "owner_ok k i u" for i u using pi by (simp_all add: pi_inv_def)
  have s: "sorted (map (\<lambda>u. current_priority (threads k u)) (queues k (MutexQ m)))"
    using w[of m] by (simp add: waiters_ok_def)
  have up: "current_priority (threads k u) \<le> first_waiter_priority m k" if "owner (mutexes k m) = Some u" for u
  proof (cases "queues k (MutexQ m)")
    case Nil
    then show ?thesis using u8_max by (simp add: first_waiter_priority_def)
  next
    case (Cons w ws)
    then have "mutex_priority (mutexes k m) \<le> current_priority (threads k w)"
      using \<open>\<And>i. waiters_ok k i\<close>[of m] by (simp add: waiters_ok_def)
    then show ?thesis using Cons oo[of m u] that by (simp add: first_waiter_priority_def owner_ok_def)
  qed
  show "pi_inv (mutex_update_priority m k)"
    unfolding pi_inv_def
  proof (intro allI conjI)
    show "waiters_ok (mutex_update_priority m k) i" for i
      using w[of i] first_waiter_le[OF s] by (simp add: waiters_ok_def mutex_update_priority_def)
    show "owner_ok (mutex_update_priority m k) i u" for i u
      using oo[of i u] up[of u] by (simp add: owner_ok_def mutex_update_priority_def)
  qed
qed

lemma withdraw_ok:
  assumes inv: "sysinv b k" and mi: "mutex_inv k" and pi: "pi_inv k" and rk: "ranked r k"
  obtains k' where "mutex_withdraw m t k = Some k'" "sysinv b k'" "mutex_inv k'" "pi_inv k'" "pi_frame k k'"
proof -
  let ?k1 = "mutex_update_priority m k"
  note U = update_mutex_ok[OF pi, where m = m]
  have i1: "sysinv b ?k1" "mutex_inv ?k1" "ranked r ?k1"
    using U inv mi rk pi_frame_inv[OF U(2)] by simp_all
  show ?thesis
  proof (cases "\<exists>ow. owner (mutexes k m) = Some ow \<and> current_priority (threads k ow) = current_priority (threads k t)")
    case False
    then have "mutex_withdraw m t k = Some ?k1" by (auto simp: mutex_withdraw_def split: option.split)
    then show ?thesis using that U(1,2) i1(1,2) by blast
  next
    case True
    then obtain ow where ow: "owner (mutexes k m) = Some ow"
      "current_priority (threads k ow) = current_priority (threads k t)" by blast
    have "owner (mutexes ?k1 m) = Some ow" using pi_frameD(9)[OF U(2), of m] ow(1) by simp
    then obtain k' where k': "restore_owner m ?k1 = Some k'" "sysinv b k'" "mutex_inv k'" "pi_inv k'"
      "pi_frame ?k1 k'" by (rule restore_owner_ok[OF i1(1,2) U(1) i1(3)])
    have "mutex_withdraw m t k = Some k'" using ow k'(1) by (simp add: mutex_withdraw_def)
    then show ?thesis using that k'(2-4) pi_frame_trans[OF U(2) k'(5)] by blast
  qed
qed

text \<open>A wait that ended without the mutex: the error is reported, inheritance still holds.\<close>

lemma take_resume_ok:
  assumes inv: "sysinv b k" and mi: "mutex_inv k" and pi: "pi_inv k" and rk: "ranked r k"
    and e: "error (threads k t) < 0" and ns: "\<not> suspended k t"
  shows "ok (mutex_take_resume m t k) (\<lambda>(e, k'). e = error (threads k t) \<and> sysinv b k' \<and> mutex_inv k' \<and>
    pi_inv k' \<and> pending_object (threads k' t) = None \<and> owner (mutexes k' m) = owner (mutexes k m))"
proof -
  obtain k1 where k1: "mutex_withdraw m t k = Some k1" "sysinv b k1" "mutex_inv k1" "pi_inv k1" "pi_frame k k1"
    by (rule withdraw_ok[OF inv mi pi rk])
  let ?k2 = "upd_thread t (\<lambda>th. th\<lparr>pending_object := None\<rparr>) k1"
  note F = pi_frameD[OF k1(5)]
  have s: "suspended ?k2 u = suspended k1 u" for u by (simp add: sysinv_upd_keep tstat_def)
  have i2: "sysinv b ?k2" by (rule sysinv_upd_keep(2)[OF _ _ _ k1(2)]) (simp_all add: tstat_def)
  have "\<not> suspended k1 t" using F(15) ns by simp
  then have "mutex_inv ?k2" using k1(3) unfolding mutex_inv_def s by auto
  moreover have "pi_inv ?k2" using k1(4) by (subst pi_cong[where k = k1]) simp_all
  ultimately show ?thesis
    using i2 e k1(1) F(5)[of t] F(9)[of m] by (simp add: mutex_take_resume_def Let_def)
qed

text \<open>The ceiling of a mutex bounds the priority of its owner at once.\<close>

lemma setprioceiling_ok:
  assumes inv: "sysinv b k" and mi: "mutex_inv k" and pi: "pi_inv k" and rk: "ranked r k" and p: "p < 32"
  shows "ok (rt_mutex_setprioceiling m p k) (\<lambda>(old, k'). old = ceiling_priority (mutexes k m) \<and> sysinv b k' \<and>
    mutex_inv k' \<and> pi_inv k' \<and> rt_mutex_getprioceiling m k' = p \<and>
    (case owner (mutexes k m) of None \<Rightarrow> threads k' = threads k
     | Some ow \<Rightarrow> owner (mutexes k' m) = Some ow \<and> current_priority (threads k' ow) \<le> p))"
proof -
  let ?k1 = "upd_mutex m (\<lambda>mx. mx\<lparr>ceiling_priority := p\<rparr>) k"
  have i1: "sysinv b ?k1" using inv by simp
  have m1: "mutex_inv ?k1" using mi by (simp add: mutex_inv_def)
  have p1: "pi_inv ?k1" using pi by (subst pi_cong[where k = k]) simp_all
  have "waits_for ?k1 t u = waits_for k t u" for t u by (auto simp: waits_for_def split: if_splits)
  then have r1: "ranked r ?k1" using rk by (simp add: ranked_def)
  show ?thesis
  proof (cases "owner (mutexes k m)")
    case None
    then show ?thesis
      using p i1 m1 p1 by (simp add: rt_mutex_setprioceiling_def rt_mutex_getprioceiling_def Let_def)
  next
    case (Some ow)
    then have o1: "owner (mutexes ?k1 m) = Some ow" by simp
    obtain k' where k': "restore_owner m ?k1 = Some k'" "sysinv b k'" "mutex_inv k'" "pi_inv k'"
      "pi_frame ?k1 k'" "current_priority (threads k' ow) = thread_get_mutex_priority ow ?k1"
      by (rule restore_owner_ok[OF i1 m1 p1 r1 o1])
    note F = pi_frameD[OF k'(5)]
    have "m \<in> set (taken_object_list (threads ?k1 ow))" by (rule mutex_invD(3)[OF m1, THEN iffD1, OF o1])
    from get_mutex_priority_le(2)[OF this] have "current_priority (threads k' ow) \<le> p"
      by (auto simp: k'(6) mutex_prio_def split: if_splits)
    then show ?thesis
      using p k' o1 F(9,12)[of m] Some
      by (simp add: rt_mutex_setprioceiling_def rt_mutex_getprioceiling_def Let_def)
  qed
qed

section \<open>Properties\<close>

text \<open>
  An example: thread 0 runs and owns mutex 2, which thread 2 waits for; thread 5 owns mutex 0 and waits
  for mutex 1, which thread 6 owns.
\<close>

definition example_mutexes :: kernel where
  "example_mutexes = example_kernel\<lparr>
     threads := (threads example_kernel)
       (0 := (example_thread 3 10)\<lparr>taken_object_list := [2]\<rparr>,
        2 := (example_thread 7 10)\<lparr>pending_object := Some 2\<rparr>,
        5 := (example_thread 7 20)\<lparr>taken_object_list := [0], pending_object := Some 1\<rparr>,
        6 := (example_thread 2 20)\<lparr>taken_object_list := [1]\<rparr>),
     queues := (queues example_kernel)
       (Ready 10 := [3], Ready 20 := [6], MutexQ 1 := [5], MutexQ 2 := [2]),
     ready_group := 2 ^ 5 OR 2 ^ 10 OR 2 ^ 20,
     mutexes := (mutexes example_kernel)
       (0 := \<lparr>ceiling_priority = 0xff, mutex_priority = 0xff, hold = 1, owner = Some 5, mutex_flag = 1\<rparr>,
        1 := \<lparr>ceiling_priority = 0xff, mutex_priority = 20, hold = 1, owner = Some 6, mutex_flag = 1\<rparr>,
        2 := \<lparr>ceiling_priority = 0xff, mutex_priority = 10, hold = 1, owner = Some 0, mutex_flag = 1\<rparr>)\<rparr>"

lemma example_mutexes_simps:
  "tstat example_mutexes t = (if t = 0 then 3 else if t \<in> {1, 3, 6} then 2 else if t \<in> {2, 4, 5} then 7 else 0)"
  "current_priority (threads example_mutexes t) =
     (if t = 1 then 5 else if t \<in> {0, 2, 3} then 10 else if t = 4 then 3 else 20)"
  "queues example_mutexes q = (if q = Ready 5 then [1] else if q = Ready 10 then [3] else if q = Ready 20 then [6]
     else if q = SemQ 0 then [4] else if q = MutexQ 1 then [5] else if q = MutexQ 2 then [2] else [])"
  "number_mask (threads example_mutexes t) =
     (if t = 1 then 2 ^ 5 else if t \<in> {0, 2, 3} then 2 ^ 10 else if t = 4 then 2 ^ 3
      else if t \<in> {5, 6} then 2 ^ 20 else 0)"
  "cur example_mutexes = Some 0" "tick example_mutexes = 100"
  "owner (mutexes example_mutexes m) = (if m = 0 then Some 5 else if m = 1 then Some 6
     else if m = 2 then Some 0 else None)"
  "hold (mutexes example_mutexes m) = (if m < 3 then 1 else 0)"
  "mutex_flag (mutexes example_mutexes m) = 1"
  "mutex_priority (mutexes example_mutexes m) = (if m = 1 then 20 else if m = 2 then 10 else 0xff)"
  "taken_object_list (threads example_mutexes t) = (if t = 0 then [2] else if t = 5 then [0]
     else if t = 6 then [1] else [])"
  "pending_object (threads example_mutexes t) = (if t = 2 then Some 2 else if t = 5 then Some 1 else None)"
  "init_priority (threads example_mutexes t) = current_priority (threads example_mutexes t)"
  by (auto simp: tstat_def example_mutexes_def example_kernel_def example_thread_def)

lemma example_mutexes_sysinv: "sysinv 100 example_mutexes"
proof -
  have p: "prio example_mutexes t = (if t = 1 then 5 else if t \<in> {0, 2, 3} then 10 else if t = 4 then 3 else 20)" for t
    by (simp add: prio_def example_mutexes_simps)
  have g: "bit (ready_group example_mutexes) i \<longleftrightarrow> i = 5 \<or> i = 10 \<or> i = 20" for i
    by (simp add: example_mutexes_def bit_or_iff bit_exp_iff del: power_numeral) auto
  have "qinv {} example_mutexes"
    by (rule qinvI)
      (auto simp: example_mutexes_simps p g suspended_tstat waitq_def split: if_splits)
  moreover have "cinv example_mutexes" unfolding cinv_def example_mutexes_simps by simp
  moreover have "tinv 100 example_mutexes"
    by (rule tinv_threads[of _ example_kernel])
      (use example_sysinv in \<open>simp_all add: sysinv_def example_mutexes_def example_kernel_def activated_def\<close>)
  ultimately show ?thesis by (simp add: sysinv_def kinv_def)
qed

lemma example_mutexes_ok: "mutex_inv example_mutexes" "pi_inv example_mutexes" "runs 100 0 example_mutexes"
  "ranked (\<lambda>t. if t = 2 then 3 else if t = 0 then 2 else if t = 5 then 1 else 0) example_mutexes"
  "scheduler_available example_mutexes"
proof -
  show "mutex_inv example_mutexes"
    by (auto simp: mutex_inv_def example_mutexes_simps suspended_tstat split: if_splits)
  show "pi_inv example_mutexes"
    by (auto simp: pi_inv_def waiters_ok_def owner_ok_def example_mutexes_simps split: if_splits)
  show "runs 100 0 example_mutexes"
    using example_mutexes_sysinv by (simp add: runs_def example_mutexes_simps)
  show "ranked (\<lambda>t. if t = 2 then 3 else if t = 0 then 2 else if t = 5 then 1 else 0) example_mutexes"
    by (auto simp: ranked_def waits_for_def example_mutexes_simps split: if_splits)
  show "scheduler_available example_mutexes"
    using example_available
    by (simp add: scheduler_available_def in_thread_context_def not_in_interrupt_def
        rt_interrupt_get_nest_def rt_critical_level_def rt_thread_self_def example_mutexes_def)
qed

text \<open>C12: Taking a mutex returns at once when it is free or the caller's own (up to 255 times, then
  \<open>-RT_EFULL\<close>), returns \<open>-RT_ETIMEOUT\<close> when it may not wait, and otherwise suspends the caller. After
  every outcome no owner runs at a lower priority than a thread it keeps waiting, through chains of any length.\<close>
theorem mutex_take_inherits:
  assumes "runs b t k" "mutex_inv k" "pi_inv k" "ranked r k"
    and "\<And>ow. owner (mutexes k m) = Some ow \<Longrightarrow> ow \<noteq> t \<Longrightarrow> r ow < r t"
    and "scheduler_available k" "timeout < 2 ^ 31 - 1"
  shows "ok (rt_mutex_take m timeout k)
    (\<lambda>(x, k'). sysinv b k' \<and> mutex_inv k' \<and> pi_inv k' \<and> mutex_took m timeout t k (x, k') \<and>
       (\<forall>u v. waits_for k' u v \<longrightarrow> current_priority (threads k' v) \<le> current_priority (threads k' u)))"
proof -
  have "ok (rt_mutex_take m timeout k)
    (\<lambda>(x, k'). sysinv b k' \<and> mutex_inv k' \<and> pi_inv k' \<and> mutex_took m timeout t k (x, k'))"
    unfolding rt_mutex_take_def by (rule mutex_take_correct[OF assms]) simp_all
  then show ?thesis by (rule ok_mono) (auto dest: pi_no_inversion)
qed

theorem mutex_take_inherits_witness:
  "ok (rt_mutex_take 0 20 example_mutexes)
    (\<lambda>(x, k'). sysinv 100 k' \<and> mutex_inv k' \<and> pi_inv k' \<and> mutex_took 0 20 0 example_mutexes (x, k') \<and>
       (\<forall>u v. waits_for k' u v \<longrightarrow> current_priority (threads k' v) \<le> current_priority (threads k' u)))"
  by (rule mutex_take_inherits[OF example_mutexes_ok(3,1,2,4)])
    (simp_all add: example_mutexes_simps example_mutexes_ok(5))

text \<open>C13: Only the owner can release. Its last release frees the mutex, or hands it to the first waiter,
  which has the highest priority of them, runs on at its old priority whatever the ceiling, and will return
  \<open>RT_EOK\<close>; earlier ones only count down. Ownership and inheritance stay consistent.\<close>
theorem mutex_release_hands_over:
  assumes "runs b t k" "mutex_inv k" "pi_inv k" "in_thread_context k"
  shows "ok (rt_mutex_release m k)
    (\<lambda>(e, k'). sysinv b k' \<and> mutex_inv k' \<and> pi_inv k' \<and> mutex_released m t k (e, k'))"
  by (rule mutex_release_correct[OF assms])

theorem mutex_release_hands_over_witness:
  "ok (rt_mutex_release 2 example_mutexes)
    (\<lambda>(e, k'). sysinv 100 k' \<and> mutex_inv k' \<and> pi_inv k' \<and> mutex_released 2 0 example_mutexes (e, k'))"
  by (rule mutex_release_hands_over[OF example_mutexes_ok(3,1,2)])
    (use example_mutexes_ok(5) in \<open>simp add: scheduler_available_def\<close>)

text \<open>Setting the ceiling of a mutex returns the old one and takes effect on the owner at once: it
  runs at the ceiling or higher, and the threads that wait on it or that it waits for stay without inversion.\<close>
theorem ceiling_bounds_owner:
  assumes "sysinv b k" "mutex_inv k" "pi_inv k" "ranked r k" "p < 32"
  shows "ok (rt_mutex_setprioceiling m p k) (\<lambda>(old, k'). old = ceiling_priority (mutexes k m) \<and> sysinv b k' \<and>
    mutex_inv k' \<and> pi_inv k' \<and> rt_mutex_getprioceiling m k' = p \<and>
    (case owner (mutexes k m) of None \<Rightarrow> threads k' = threads k
     | Some ow \<Rightarrow> owner (mutexes k' m) = Some ow \<and> current_priority (threads k' ow) \<le> p))"
  by (rule setprioceiling_ok[OF assms])

theorem ceiling_bounds_owner_witness:
  "ok (rt_mutex_setprioceiling 0 4 example_mutexes) (\<lambda>(old, k'). old = ceiling_priority (mutexes example_mutexes 0) \<and>
    sysinv 100 k' \<and> mutex_inv k' \<and> pi_inv k' \<and> rt_mutex_getprioceiling 0 k' = 4 \<and>
    (case owner (mutexes example_mutexes 0) of None \<Rightarrow> threads k' = threads example_mutexes
     | Some ow \<Rightarrow> owner (mutexes k' 0) = Some ow \<and> current_priority (threads k' ow) \<le> 4))"
  by (rule ceiling_bounds_owner[OF example_mutexes_sysinv example_mutexes_ok(1,2,4)]) simp

end
