(* ===== verification/MemPool.thy ===== *)
theory MemPool
  imports IpcList
begin

text \<open>
  Memory pools (\<open>src/mempool.c\<close>): a region cut into blocks of one size, each with a word in front that
  links the free blocks and names the pool of a block in use.
\<close>

section \<open>Operations\<close>

abbreviation RT_ALIGN_SIZE :: u32 where "RT_ALIGN_SIZE \<equiv> 8"

datatype mp_outcome = Block u32 | Blocked

definition upd_pool :: "nat \<Rightarrow> (rt_mempool \<Rightarrow> rt_mempool) \<Rightarrow> kernel \<Rightarrow> kernel" where
  "upd_pool m f k = k\<lparr>mempools := (mempools k)(m := f (mempools k m))\<rparr>"

definition set_word :: "u32 \<Rightarrow> block_word \<Rightarrow> kernel \<Rightarrow> kernel" where
  "set_word a w k = k\<lparr>block_words := (block_words k)(a := w)\<rparr>"

text \<open>The loop that links the blocks, and the word of the last one.\<close>

definition mp_link_blocks :: "u32 \<Rightarrow> u32 \<Rightarrow> nat \<Rightarrow> (u32 \<Rightarrow> block_word) \<Rightarrow> u32 \<Rightarrow> block_word" where
  "mp_link_blocks start stride n ws =
     (let ws' = fold (\<lambda>i w. w(start + of_nat i * stride := NextBlock (start + (of_nat i + 1) * stride)))
        [0..<n] ws
      in ws'(start + (of_nat n - 1) * stride := NextBlock 0))"

definition mp_setup :: "nat \<Rightarrow> u32 \<Rightarrow> u32 \<Rightarrow> u32 \<Rightarrow> u32 \<Rightarrow> kernel \<Rightarrow> kernel" where
  "mp_setup m start s bs count k =
     (ipc_object_init (MpQ m) (upd_pool m (\<lambda>_. \<lparr>start_address = start, mp_size = s, block_size = bs,
        block_list = start, block_total_count = count, block_free_count = count\<rparr>) k))
     \<lparr>block_words := mp_link_blocks start (bs + 4) (unat count) (block_words k)\<rparr>"

definition rt_mp_init :: "nat \<Rightarrow> u32 \<Rightarrow> u32 \<Rightarrow> u32 \<Rightarrow> kernel \<Rightarrow> (rt_err_t \<times> kernel) option" where
  "rt_mp_init m start s bs k =
     do {
       rt_assert (start \<noteq> 0);
       rt_assert (s > 0 \<and> bs > 0);
       let s' = rt_align_down s RT_ALIGN_SIZE;
       let bs' = rt_align bs RT_ALIGN_SIZE;
       Some (RT_EOK, mp_setup m start s' bs' (s' div (bs' + 4)) k)
     }"

text \<open>\<open>object\<close> is the result of the object allocation, \<open>room\<close> that of \<open>rt_malloc\<close>.\<close>

definition rt_mp_create ::
  "nat option \<Rightarrow> (u32 \<Rightarrow> u32) \<Rightarrow> u32 \<Rightarrow> u32 \<Rightarrow> kernel \<Rightarrow> (nat option \<times> kernel) option" where
  "rt_mp_create object room count bs k =
     do {
       rt_assert (not_in_interrupt k);
       rt_assert (count > 0 \<and> bs > 0);
       case object of
         None \<Rightarrow> Some (None, k)
       | Some m \<Rightarrow>
           let bs' = rt_align bs RT_ALIGN_SIZE;
               s = (bs' + 4) * count;
               start = room s
           in if start = 0 then Some (None, k)
              else Some (Some m, mp_setup m start s bs' count k)
     }"

definition rt_mp_detach :: "nat \<Rightarrow> kernel \<Rightarrow> (rt_err_t \<times> kernel) option" where
  "rt_mp_detach m k = do { k1 \<leftarrow> ipc_list_resume_all (MpQ m) k; Some (RT_EOK, k1) }"

definition rt_mp_delete :: "nat \<Rightarrow> kernel \<Rightarrow> (rt_err_t \<times> kernel) option" where
  "rt_mp_delete m k =
     do {
       rt_assert (not_in_interrupt k);
       k1 \<leftarrow> ipc_list_resume_all (MpQ m) k;
       Some (RT_EOK, k1)
     }"

text \<open>The block in front of the free list; its word must be a link.\<close>

definition mp_take :: "nat \<Rightarrow> kernel \<Rightarrow> (mp_outcome \<times> kernel) option" where
  "mp_take m k =
     do {
       let b = block_list (mempools k m);
       rt_assert (b \<noteq> 0);
       case block_words k b of
         PoolOf _ \<Rightarrow> None
       | NextBlock n \<Rightarrow> Some (Block (b + 4), set_word b (PoolOf m)
           (upd_pool m (\<lambda>mp. mp\<lparr>block_free_count := block_free_count mp - 1, block_list := n\<rparr>) k))
     }"

text \<open>The newcomer goes to the front of the waiters.\<close>

definition mp_wait :: "nat \<Rightarrow> tid \<Rightarrow> int \<Rightarrow> kernel \<Rightarrow> (mp_outcome \<times> kernel) option" where
  "mp_wait m t timeout k =
     do {
       rt_assert (not_in_interrupt k);
       (_, k1) \<leftarrow> rt_thread_suspend t (set_error t RT_EOK k);
       k2 \<leftarrow> arm_if t timeout (k1\<lparr>queues := q_push_front (MpQ m) t (queues k1)\<rparr>);
       k3 \<leftarrow> rt_schedule k2;
       Some (Blocked, k3)
     }"

definition rt_mp_alloc :: "nat \<Rightarrow> int \<Rightarrow> kernel \<Rightarrow> (mp_outcome \<times> kernel) option" where
  "rt_mp_alloc m timeout k =
     (if block_free_count (mempools k m) = 0 then
        if timeout = 0 then Some (Block 0, rt_set_errno (- RT_ETIMEOUT) k)
        else do { t \<leftarrow> rt_thread_self k; mp_wait m t timeout k }
      else mp_take m k)"

text \<open>The thread \<open>t\<close> runs again after it has waited since tick \<open>before\<close>.\<close>

definition mp_alloc_resume :: "tid \<Rightarrow> nat \<Rightarrow> int \<Rightarrow> u32 \<Rightarrow> kernel \<Rightarrow> (mp_outcome \<times> kernel) option" where
  "mp_alloc_resume t m timeout before k =
     (if error (threads k t) \<noteq> RT_EOK then Some (Block 0, k)
      else rt_mp_alloc m (time_left timeout before k) k)"

text \<open>The word in front of the block must name its pool.\<close>

definition rt_mp_free :: "u32 \<Rightarrow> kernel \<Rightarrow> kernel option" where
  "rt_mp_free block k =
     (if block = 0 then Some k
      else
        let p = block - 4 in
        case block_words k p of
          NextBlock _ \<Rightarrow> None
        | PoolOf m \<Rightarrow>
            let l = block_list (mempools k m);
                k1 = set_word p (NextBlock l)
                  (upd_pool m (\<lambda>mp. mp\<lparr>block_free_count := block_free_count mp + 1, block_list := p\<rparr>) k)
            in wake_first (MpQ m) k1)"

section \<open>Blocks\<close>

definition mp_block :: "rt_mempool \<Rightarrow> nat \<Rightarrow> u32" where
  "mp_block mp i = start_address mp + of_nat i * (block_size mp + 4)"

definition mp_blocks :: "rt_mempool \<Rightarrow> u32 list" where
  "mp_blocks mp = map (mp_block mp) [0..<unat (block_total_count mp)]"

definition mp_fits :: "rt_mempool \<Rightarrow> bool" where
  "mp_fits mp \<longleftrightarrow> start_address mp \<noteq> 0 \<and> block_size mp \<noteq> 0 \<and> unat (block_size mp) + 4 < 2 ^ 32 \<and>
     unat (start_address mp) + unat (block_total_count mp) * (unat (block_size mp) + 4) \<le> 2 ^ 32"

lemma unat_mp_block:
  assumes "mp_fits mp" "i < unat (block_total_count mp)"
  shows "unat (mp_block mp i) = unat (start_address mp) + i * (unat (block_size mp) + 4)"
proof -
  let ?s = "unat (block_size mp) + 4"
  have s: "unat (block_size mp + 4) = ?s"
    using assms(1) by (simp add: mp_fits_def unat_word_ariths)
  have "Suc i * ?s \<le> unat (block_total_count mp) * ?s" using assms(2) by (intro mult_le_mono1) simp
  then have b: "unat (start_address mp) + (i * ?s + ?s) \<le> 2 ^ 32"
    using assms(1) by (simp add: mp_fits_def)
  have i: "unat (of_nat i :: u32) = i"
  proof -
    have "unat (block_total_count mp) < 2 ^ 32" using unsigned_less[of "block_total_count mp"] by simp
    then show ?thesis using assms(2) by (simp add: unsigned_of_nat take_bit_nat_eq_self)
  qed
  have "unat (of_nat i * (block_size mp + 4) :: u32) = i * ?s"
  proof -
    have "i * ?s < 2 ^ 32" using b by linarith
    then have "unat (of_nat i :: u32) * unat (block_size mp + 4) < 2 ^ LENGTH(32)" unfolding s i by simp
    from unat_mult_lem[THEN iffD1, OF this] show ?thesis unfolding s i .
  qed
  moreover have "unat (start_address mp) + i * ?s < 2 ^ 32" using b by linarith
  ultimately show ?thesis by (simp only: mp_block_def unat_word_ariths) simp
qed

lemma mp_block_inj:
  assumes "mp_fits mp"
  shows "inj_on (mp_block mp) {..<unat (block_total_count mp)}"
proof (rule inj_onI)
  fix i j
  assume "i \<in> {..<unat (block_total_count mp)}" "j \<in> {..<unat (block_total_count mp)}" "mp_block mp i = mp_block mp j"
  then have "i * (unat (block_size mp) + 4) = j * (unat (block_size mp) + 4)"
    using unat_mp_block[OF assms, of i] unat_mp_block[OF assms, of j] by (metis add_left_cancel lessThan_iff)
  then show "i = j" by (simp only: mult_cancel2) simp
qed

lemma mp_block_nonzero: "mp_fits mp \<Longrightarrow> i < unat (block_total_count mp) \<Longrightarrow> mp_block mp i \<noteq> 0"
  using unat_mp_block[of mp i] by (auto simp: mp_fits_def unat_eq_zero)

lemma mp_blocksD:
  assumes "mp_fits mp" "b \<in> set (mp_blocks mp)"
  obtains i where "i < unat (block_total_count mp)" "b = mp_block mp i" "b \<noteq> 0"
  using assms mp_block_nonzero[OF assms(1)] by (auto simp: mp_blocks_def)

text \<open>Two blocks, words in front included, do not overlap, and all lie in the region.\<close>

lemma mp_blocks_apart:
  assumes "mp_fits mp" "i < j" "j < unat (block_total_count mp)"
  shows "unat (mp_block mp i) + 4 + unat (block_size mp) \<le> unat (mp_block mp j)"
proof -
  have "Suc i * (unat (block_size mp) + 4) \<le> j * (unat (block_size mp) + 4)"
    using assms(2) by (intro mult_le_mono1) simp
  then show ?thesis using assms by (simp add: unat_mp_block)
qed

lemma mp_block_inside:
  assumes "mp_fits mp" "i < unat (block_total_count mp)"
  shows "unat (mp_block mp i) + 4 + unat (block_size mp) \<le>
    unat (start_address mp) + unat (block_total_count mp) * (unat (block_size mp) + 4)"
proof -
  have "Suc i * (unat (block_size mp) + 4) \<le> unat (block_total_count mp) * (unat (block_size mp) + 4)"
    using assms(2) by (intro mult_le_mono1) simp
  then show ?thesis using assms by (simp add: unat_mp_block)
qed

lemma mp_payload_nonzero:
  assumes fits: "mp_fits mp" and b: "b \<in> set (mp_blocks mp)"
  shows "b + 4 \<noteq> 0"
proof -
  obtain i where i: "i < unat (block_total_count mp)" "b = mp_block mp i" by (rule mp_blocksD[OF assms])
  have "0 < unat (block_size mp)" using fits by (simp add: mp_fits_def unat_gt_0)
  then have "unat b + 4 < 2 ^ 32"
  proof -
    have "unat (start_address mp) + unat (block_total_count mp) * (unat (block_size mp) + 4) \<le> 2 ^ 32"
      using fits by (simp only: mp_fits_def)
    then show ?thesis
      using mp_block_inside[OF fits i(1)] \<open>0 < unat (block_size mp)\<close> unfolding i(2) by linarith
  qed
  then have "unat (b + 4) = unat b + 4" by (simp add: unat_word_ariths)
  then show ?thesis by (metis add_is_0 unat_0 zero_neq_numeral)
qed

text \<open>The free list: a chain of links from block to block.\<close>

primrec block_chain :: "(u32 \<Rightarrow> block_word) \<Rightarrow> u32 \<Rightarrow> u32 list \<Rightarrow> bool" where
  "block_chain ws a [] \<longleftrightarrow> a = 0"
| "block_chain ws a (b # bs) \<longleftrightarrow> a = b \<and> b \<noteq> 0 \<and>
     (case ws b of NextBlock n \<Rightarrow> block_chain ws n bs | PoolOf _ \<Rightarrow> False)"

lemma block_chain_upd: "a \<notin> set bs \<Longrightarrow> block_chain (ws(a := w)) p bs = block_chain ws p bs"
  by (induction bs arbitrary: p) (auto split: block_word.split)

text \<open>A pool with the free blocks \<open>fs\<close>, first one first; the others are in use.\<close>

definition mp_wf :: "nat \<Rightarrow> u32 list \<Rightarrow> kernel \<Rightarrow> bool" where
  "mp_wf m fs k \<longleftrightarrow>
     (let mp = mempools k m in
        mp_fits mp \<and> distinct fs \<and> set fs \<subseteq> set (mp_blocks mp) \<and>
        unat (block_free_count mp) = length fs \<and>
        block_chain (block_words k) (block_list mp) fs \<and>
        (\<forall>b \<in> set (mp_blocks mp). b \<notin> set fs \<longrightarrow> block_words k b = PoolOf m))"

lemma mp_wfD:
  assumes "mp_wf m fs k"
  shows "mp_fits (mempools k m)" "distinct fs" "set fs \<subseteq> set (mp_blocks (mempools k m))"
    "unat (block_free_count (mempools k m)) = length fs"
    "block_chain (block_words k) (block_list (mempools k m)) fs"
    "b \<in> set (mp_blocks (mempools k m)) \<Longrightarrow> b \<notin> set fs \<Longrightarrow> block_words k b = PoolOf m"
  using assms by (auto simp: mp_wf_def Let_def)

lemma pool_simps [simp]:
  "mempools (upd_pool m f k) i = (if i = m then f (mempools k m) else mempools k i)"
  "block_words (upd_pool m f k) = block_words k" "threads (upd_pool m f k) = threads k"
  "queues (upd_pool m f k) = queues k" "ready_group (upd_pool m f k) = ready_group k"
  "cur (upd_pool m f k) = cur k" "timers (upd_pool m f k) = timers k"
  "timer_lists (upd_pool m f k) = timer_lists k" "tick (upd_pool m f k) = tick k"
  "mempools (set_word a w k) = mempools k" "block_words (set_word a w k) = (block_words k)(a := w)"
  "threads (set_word a w k) = threads k" "queues (set_word a w k) = queues k"
  "ready_group (set_word a w k) = ready_group k" "cur (set_word a w k) = cur k"
  "timers (set_word a w k) = timers k" "timer_lists (set_word a w k) = timer_lists k"
  "tick (set_word a w k) = tick k"
  by (simp_all add: upd_pool_def set_word_def)

lemma sysinv_pool [simp]: "sysinv b (upd_pool m f k) = sysinv b k" "sysinv b (set_word a w k) = sysinv b k"
  by (rule sysinv_cong; simp)+

lemma mp_wf_cong:
  "mempools k' m = mempools k m \<Longrightarrow> block_words k' = block_words k \<Longrightarrow> mp_wf m fs k' = mp_wf m fs k"
  by (simp add: mp_wf_def)

section \<open>Allocation\<close>

lemma u32_pred: "(v::u32) \<noteq> 0 \<Longrightarrow> unat (v - 1) = unat v - 1"
  by (simp add: unat_minus_one)

lemma mp_take_ok:
  assumes wf: "mp_wf m (b # fs) k"
  obtains n where "block_words k b = NextBlock n" "block_list (mempools k m) = b"
    "mp_take m k = Some (Block (b + 4), set_word b (PoolOf m)
       (upd_pool m (\<lambda>mp. mp\<lparr>block_free_count := block_free_count mp - 1, block_list := n\<rparr>) k))"
    "mp_wf m fs (set_word b (PoolOf m)
       (upd_pool m (\<lambda>mp. mp\<lparr>block_free_count := block_free_count mp - 1, block_list := n\<rparr>) k))"
proof -
  note W = mp_wfD[OF wf]
  obtain n where n: "block_words k b = NextBlock n" "block_list (mempools k m) = b" "b \<noteq> 0"
    "block_chain (block_words k) n fs"
    using W(5) by (auto split: block_word.splits)
  let ?k = "set_word b (PoolOf m)
     (upd_pool m (\<lambda>mp. mp\<lparr>block_free_count := block_free_count mp - 1, block_list := n\<rparr>) k)"
  let ?mp = "(mempools k m)\<lparr>block_free_count := block_free_count (mempools k m) - 1, block_list := n\<rparr>"
  have blocks: "mp_blocks ?mp = mp_blocks (mempools k m)" "mp_fits ?mp = mp_fits (mempools k m)"
    by (simp_all add: mp_blocks_def mp_block_def mp_fits_def)
  have "block_free_count (mempools k m) \<noteq> 0" using W(4) by auto
  then have "unat (block_free_count (mempools k m) - 1) = length fs" using W(4) by (simp add: u32_pred)
  then have "mp_wf m fs ?k"
    using W(1,2,3,6) n(4) by (simp add: mp_wf_def Let_def blocks block_chain_upd)
  then show ?thesis using that[OF n(1,2)] n by (simp add: mp_take_def)
qed

text \<open>What an allocation does to a pool with the free blocks \<open>fs\<close>.\<close>

definition mp_allocated ::
  "nat \<Rightarrow> int \<Rightarrow> tid \<Rightarrow> u32 list \<Rightarrow> kernel \<Rightarrow> mp_outcome \<times> kernel \<Rightarrow> bool" where
  "mp_allocated m timeout t fs k = (\<lambda>(r, k').
     case fs of
       b # fs' \<Rightarrow> r = Block (b + 4) \<and> mp_wf m fs' k' \<and> threads k' = threads k \<and> queues k' = queues k \<and>
         cur k' = cur k \<and> (\<forall>a. a \<noteq> b \<longrightarrow> block_words k' a = block_words k a)
     | [] \<Rightarrow> objects k' = objects k \<and>
         (if timeout = 0 then r = Block 0 \<and> k' = rt_set_errno (- RT_ETIMEOUT) k
          else r = Blocked \<and> suspended k' t \<and> error (threads k' t) = RT_EOK \<and>
            queues k' (MpQ m) = t # queues k (MpQ m) \<and>
            (timeout > 0 \<longrightarrow> timeout_tick (timers k' (ThreadTimer t)) = tick k + of_int timeout)))"

lemma mp_wait_ok:
  assumes run: "runs b t k" and ni: "not_in_interrupt k" and to: "timeout < 2 ^ 31 - 1"
  shows "ok (mp_wait m t timeout k) (\<lambda>(r, k'). r = Blocked \<and> sysinv b k' \<and> objects k' = objects k \<and>
    suspended k' t \<and> error (threads k' t) = RT_EOK \<and> queues k' (MpQ m) = t # queues k (MpQ m) \<and>
    (timeout > 0 \<longrightarrow> timeout_tick (timers k' (ThreadTimer t)) = tick k + of_int timeout))"
proof -
  let ?k0 = "set_error t RT_EOK k"
  have r0: "sysinv b ?k0" "cur ?k0 = Some t" "tstat ?k0 t = RT_THREAD_RUNNING"
    using run by (simp_all add: runs_def)
  define k1 where "k1 = suspended_self t RT_UNINTERRUPTIBLE ?k0"
  define k2 where "k2 = k1\<lparr>queues := q_push_front (MpQ m) t (queues k1)\<rparr>"
  have ki: "kinv ?k0" and q: "qinv {} ?k0" using r0(1) by (auto simp: sysinv_def kinv_def)
  have code: "rt_thread_suspend t ?k0 = Some (RT_EOK, k1)"
    unfolding rt_thread_suspend_def k1_def by (rule suspend_running[OF ki r0(2,3)]) simp
  have u: "unlinked t (queues k1)" using running_unlinked[OF q r0(3)] by (simp add: k1_def)
  have i1: "sysinv b k1" unfolding k1_def by (rule suspended_self_sys[OF r0])
  have s1: "suspended k1 t" by (simp add: k1_def suspended_self_state)
  have wq: "waitq (MpQ m)" by (simp add: waitq_def)
  have q1: "queues k1 = queues k" by (simp add: k1_def)
  have "distinct (queues k (MpQ m))" using qinvD(1)[OF q, of "MpQ m"] by simp
  then have "sysinv b (k1\<lparr>queues := (queues k1)(MpQ m := t # queues k (MpQ m))\<rparr>)"
    by (intro wait_queue_sys[OF i1 s1 u wq]) (use u in \<open>auto simp: q1 unlinked_def\<close>)
  then have i2: "sysinv b k2" by (simp add: k2_def q_push_front_def q1)
  have s2: "cur k2 = Some t" "suspended k2 t"
    using s1 r0(2) by (simp_all add: k2_def k1_def suspended_def)
  obtain k3 k' where k': "arm_if t timeout k2 = Some k3" "rt_schedule k3 = Some k'" "sysinv b k'"
    "only_scheduled k2 k'" "timeout > 0 \<longrightarrow> ThreadTimer t \<in> set (timer_lists k' TimerList) \<and>
       timeout_tick (timers k' (ThreadTimer t)) = tick k2 + of_int timeout"
    by (rule arm_schedule[OF i2 s2 to])
  note O = only_scheduledD[OF k'(4)]
  have ob: "objects k' = objects k" using O(5) by (simp add: k2_def k1_def objects_def)
  have "queues k' (MpQ m) = t # queues k (MpQ m)" using O(4)[OF wq] q1 by (simp add: k2_def q_push_front_def)
  moreover have "error (threads k' t) = RT_EOK"
    using stat_onlyD(1)[OF O(1)[of t]] by (simp add: k2_def k1_def set_stat_def)
  moreover have "mp_wait m t timeout k = Some (Blocked, k')"
    using ni code k'(1,2) by (simp add: mp_wait_def k2_def)
  ultimately show ?thesis
    using ob k'(3,5) O(2)[of t] s2(2) by (simp add: k2_def k1_def)
qed

lemma mp_alloc_correct:
  assumes call: "may_call b t timeout k" and wf: "mp_wf m fs k"
  shows "ok (rt_mp_alloc m timeout k) (\<lambda>(r, k'). sysinv b k' \<and> mp_allocated m timeout t fs k (r, k'))"
proof (cases fs)
  case (Cons f fs')
  have "block_free_count (mempools k m) \<noteq> 0" using mp_wfD(4)[OF wf] Cons by auto
  moreover obtain n where "mp_take m k = Some (Block (f + 4), set_word f (PoolOf m)
       (upd_pool m (\<lambda>mp. mp\<lparr>block_free_count := block_free_count mp - 1, block_list := n\<rparr>) k))"
    "mp_wf m fs' (set_word f (PoolOf m)
       (upd_pool m (\<lambda>mp. mp\<lparr>block_free_count := block_free_count mp - 1, block_list := n\<rparr>) k))"
    using mp_take_ok[of m f fs' k] wf Cons by blast
  ultimately show ?thesis
    using Cons call by (simp add: rt_mp_alloc_def mp_allocated_def may_call_def)
next
  case Nil
  have z: "block_free_count (mempools k m) = 0" using mp_wfD(4)[OF wf] Nil by (simp add: unat_eq_zero)
  have inv: "sysinv b k" and c: "cur k = Some t" using call by (simp_all add: may_call_def)
  show ?thesis
  proof (cases "timeout = 0")
    case True
    have "objects (rt_set_errno e k) = objects k" "sysinv b (rt_set_errno e k)" for e
      using inv by (simp_all add: rt_set_errno_def split: option.split)
    then show ?thesis using True z Nil by (simp add: rt_mp_alloc_def mp_allocated_def)
  next
    case False
    then have r: "runs b t k" "not_in_interrupt k" "timeout < 2 ^ 31 - 1"
      using call by (simp_all add: may_call_def runs_def scheduler_available_def in_thread_context_def not_in_interrupt_def)
    show ?thesis
      using mp_wait_ok[OF r, of m] False z Nil c
      by (auto simp: rt_mp_alloc_def mp_allocated_def rt_thread_self_def ok_iff)
  qed
qed

section \<open>Release\<close>

text \<open>What a release of the block \<open>b\<close> in use does.\<close>

definition mp_freed :: "nat \<Rightarrow> u32 \<Rightarrow> u32 list \<Rightarrow> kernel \<Rightarrow> kernel \<Rightarrow> bool" where
  "mp_freed m b fs k k' \<longleftrightarrow>
     mp_wf m (b # fs) k' \<and> first_woken (MpQ m) k k' \<and> (\<forall>a. a \<noteq> b \<longrightarrow> block_words k' a = block_words k a)"

lemma mp_put_wf:
  assumes wf: "mp_wf m fs k" and b: "b \<in> set (mp_blocks (mempools k m))" "b \<notin> set fs"
  shows "mp_wf m (b # fs) (set_word b (NextBlock (block_list (mempools k m)))
    (upd_pool m (\<lambda>mp. mp\<lparr>block_free_count := block_free_count mp + 1, block_list := b\<rparr>) k))"
proof -
  note W = mp_wfD[OF wf]
  let ?mp = "(mempools k m)\<lparr>block_free_count := block_free_count (mempools k m) + 1, block_list := b\<rparr>"
  have blocks: "mp_blocks ?mp = mp_blocks (mempools k m)" "mp_fits ?mp = mp_fits (mempools k m)"
    by (simp_all add: mp_blocks_def mp_block_def mp_fits_def)
  have b0: "b \<noteq> 0" by (rule mp_blocksD[OF W(1) b(1)])
  have "card (set (b # fs)) \<le> card (set (mp_blocks (mempools k m)))"
    using W(3) b by (intro card_mono) auto
  then have "length (b # fs) \<le> card (set (mp_blocks (mempools k m)))"
    using distinct_card[of "b # fs"] W(2) b by simp
  also have "\<dots> \<le> unat (block_total_count (mempools k m))"
    using card_length[of "mp_blocks (mempools k m)"] by (simp add: mp_blocks_def)
  also have "\<dots> < 2 ^ 32" using unsigned_less[of "block_total_count (mempools k m)"] by simp
  finally have "unat (block_free_count (mempools k m) + 1) = Suc (length fs)"
    using W(4) by (simp add: unat_word_ariths)
  then show ?thesis
    using W(1,2,3,5,6) b b0 by (simp add: mp_wf_def Let_def blocks block_chain_upd)
qed

lemma mp_free_correct:
  assumes inv: "sysinv b k" and c: "cur k = Some c" and wf: "mp_wf m fs k"
    and a: "a \<in> set (mp_blocks (mempools k m))" "a \<notin> set fs"
  shows "ok (rt_mp_free (a + 4) k) (\<lambda>k'. sysinv b k' \<and> cur k' \<noteq> None \<and> mp_freed m a fs k k')"
proof -
  define k1 where "k1 = set_word a (NextBlock (block_list (mempools k m)))
    (upd_pool m (\<lambda>mp. mp\<lparr>block_free_count := block_free_count mp + 1, block_list := a\<rparr>) k)"
  have s1: "sysinv b k1" "cur k1 = Some c" using inv c by (simp_all add: k1_def)
  obtain k' where k': "wake_first (MpQ m) k1 = Some k'" "sysinv b k'" "cur k' \<noteq> None"
    "woke_first (MpQ m) k1 k'" by (rule mpq.wake_first_ok[OF s1])
  note OB = woke_first_objects[OF k'(4)]
  have mk: "mempools k' = mempools k1" "block_words k' = block_words k1" by (rule objectsD(6)[OF OB], rule objectsD(7)[OF OB])
  have "mp_wf m (a # fs) k1" unfolding k1_def by (rule mp_put_wf[OF wf a])
  then have "mp_wf m (a # fs) k'" using mk by (subst mp_wf_cong[of k' m k1]) simp_all
  moreover have "first_woken (MpQ m) k1 k'"
    using woke_first_woken[OF k'(4)] s1(1) by (simp add: sysinv_def)
  then have "first_woken (MpQ m) k k'" unfolding first_woken_def k1_def pool_simps by simp
  moreover have "rt_mp_free (a + 4) k = Some k'"
    using mp_wfD(6)[OF wf a] mp_payload_nonzero[OF mp_wfD(1)[OF wf] a(1)] k'(1)
    by (simp add: rt_mp_free_def k1_def Let_def)
  ultimately show ?thesis using k'(2,3) mk by (simp add: mp_freed_def k1_def)
qed

section \<open>Initialisation\<close>

lemma link_fold:
  fixes start stride :: u32
  defines "B \<equiv> \<lambda>i. start + of_nat i * stride"
  assumes "inj_on B {..<n}"
  shows "i < n \<Longrightarrow> fold (\<lambda>i w. w(start + of_nat i * stride := NextBlock (start + (of_nat i + 1) * stride)))
      [0..<n] ws (B i) = NextBlock (B (Suc i))"
    and "a \<notin> B ` {..<n} \<Longrightarrow> fold (\<lambda>i w. w(start + of_nat i * stride := NextBlock (start + (of_nat i + 1) * stride)))
      [0..<n] ws a = ws a"
  using assms(2)
proof (induction n arbitrary: i a)
  case (Suc n)
  { case 1
    have inj: "inj_on B {..<n}" by (rule inj_on_subset[OF 1(2)]) auto
    have "B i \<noteq> B n" if "i < n" using 1 that by (auto dest: inj_onD)
    then show ?case using 1 Suc.IH(1)[OF _ inj, of i] by (auto simp: B_def less_Suc_eq add.commute) }
  { case 2
    have inj: "inj_on B {..<n}" by (rule inj_on_subset[OF 2(2)]) auto
    show ?case using 2 Suc.IH(2)[OF _ inj, of a] by (auto simp: B_def lessThan_Suc) }
qed simp_all

lemma linked_chain:
  fixes start stride :: u32
  defines "B \<equiv> \<lambda>i. start + of_nat i * stride"
  assumes inj: "inj_on B {..<n}" and nz: "\<And>i. i < n \<Longrightarrow> B i \<noteq> 0" and j: "j \<le> n"
  shows "block_chain (mp_link_blocks start stride n ws) (if j < n then B j else 0) (map B [j..<n])"
  using j
proof (induction "n - j" arbitrary: j)
  case 0
  then show ?case by simp
next
  case (Suc d)
  then have jn: "j < n" by simp
  let ?w = "mp_link_blocks start stride n ws"
  have last: "start + (of_nat n - 1) * stride = B (n - 1)" using jn by (simp add: B_def of_nat_diff)
  have "B j = B (n - 1) \<longleftrightarrow> j = n - 1" using inj jn by (auto dest: inj_onD)
  then have "?w (B j) = NextBlock (if Suc j < n then B (Suc j) else 0)"
    using link_fold(1)[OF inj[unfolded B_def] jn, of ws] last jn
    by (auto simp: mp_link_blocks_def Let_def B_def[symmetric])
      (auto simp: B_def)
  moreover have "block_chain ?w (if Suc j < n then B (Suc j) else 0) (map B [Suc j..<n])"
    using Suc jn by auto
  ultimately show ?case using jn nz[OF jn] by (simp add: upt_conv_Cons)
qed

lemma mp_setup_wf:
  assumes fits: "mp_fits (mempools (mp_setup m start s bs count k) m)" and c: "count \<noteq> 0"
  shows "mp_wf m (mp_blocks (mempools (mp_setup m start s bs count k) m)) (mp_setup m start s bs count k)"
proof -
  let ?k = "mp_setup m start s bs count k"
  let ?mp = "mempools ?k m"
  have mp: "?mp = \<lparr>start_address = start, mp_size = s, block_size = bs,
      block_list = start, block_total_count = count, block_free_count = count\<rparr>"
    by (simp add: mp_setup_def ipc_object_init_def)
  have B: "mp_block ?mp = (\<lambda>i. start + of_nat i * (bs + 4))" by (rule ext) (simp add: mp_block_def mp)
  have w: "block_words ?k = mp_link_blocks start (bs + 4) (unat count) (block_words k)"
    by (simp add: mp_setup_def)
  have n: "0 < unat count" using c by (simp add: unat_gt_0)
  have inj: "inj_on (mp_block ?mp) {..<unat count}" using mp_block_inj[OF fits] by (simp add: mp)
  have nz: "\<And>i. i < unat count \<Longrightarrow> mp_block ?mp i \<noteq> 0" using mp_block_nonzero[OF fits] by (simp add: mp)
  have "block_chain (block_words ?k) start (mp_blocks ?mp)"
    using linked_chain[OF inj[unfolded B] nz[unfolded B], of 0 "block_words k"] n
    unfolding w mp_blocks_def B by (simp add: mp)
  moreover have "distinct (mp_blocks ?mp)"
    unfolding mp_blocks_def using mp_block_inj[OF fits] by (simp add: distinct_map atLeast0LessThan)
  moreover have "length (mp_blocks ?mp) = unat count" by (simp add: mp_blocks_def mp)
  moreover have "block_list ?mp = start" "block_free_count ?mp = count" by (simp_all add: mp)
  ultimately show ?thesis using fits by (simp add: mp_wf_def Let_def)
qed

lemma mp_init_eq:
  assumes "start \<noteq> 0" "s \<noteq> 0" "bs \<noteq> 0"
  shows "rt_mp_init m start s bs k = Some (RT_EOK, mp_setup m start (rt_align_down s 8) (rt_align bs 8)
    (rt_align_down s 8 div (rt_align bs 8 + 4)) k)"
  using assms by (simp add: rt_mp_init_def Let_def word_gt_0)

lemma mp_init_correct:
  assumes nz: "start \<noteq> 0" "bs \<noteq> 0" and bs: "unat bs + 11 < 2 ^ 32"
    and s: "unat start + unat s \<le> 2 ^ 32" and room: "(unat bs + 7) div 8 * 8 + 4 \<le> unat s - unat s mod 8"
  shows "ok (rt_mp_init m start s bs k) (\<lambda>(e, k'). e = RT_EOK \<and>
    (let mp = mempools k' m; n = (unat s - unat s mod 8) div ((unat bs + 7) div 8 * 8 + 4) in
       mp_wf m (mp_blocks mp) k' \<and> length (mp_blocks mp) = n \<and> queues k' (MpQ m) = [] \<and> bs \<le> block_size mp \<and>
       (\<forall>i < n. unat start \<le> unat (mp_block mp i) \<and>
          unat (mp_block mp i) + 4 + unat (block_size mp) \<le> unat start + unat s \<and>
          (\<forall>j < i. unat (mp_block mp j) + 4 + unat (block_size mp) \<le> unat (mp_block mp i)))))"
proof -
  define s' where "s' = rt_align_down s 8"
  define bs' where "bs' = rt_align bs 8"
  define count where "count = s' div (bs' + 4)"
  let ?k = "mp_setup m start s' bs' count k"
  let ?n = "(unat s - unat s mod 8) div ((unat bs + 7) div 8 * 8 + 4)"
  have us: "unat s' = unat s - unat s mod 8" by (simp add: s'_def unat_rt_align_down8)
  have ub: "unat bs' = (unat bs + 7) div 8 * 8" using bs by (simp add: bs'_def unat_rt_align8)
  have ble: "unat bs \<le> unat bs'" "unat bs' \<le> unat bs + 7" unfolding ub by presburger+
  have st: "unat (bs' + 4) = unat bs' + 4" using ble(2) bs by (simp add: unat_word_ariths)
  have un: "unat count = ?n" by (simp add: count_def unat_div st us ub)
  have mul: "unat count * (unat bs' + 4) \<le> unat s - unat s mod 8"
    unfolding un ub by (simp add: div_times_less_eq_dividend)
  have mp: "mempools ?k m = \<lparr>start_address = start, mp_size = s', block_size = bs',
      block_list = start, block_total_count = count, block_free_count = count\<rparr>"
    by (simp add: mp_setup_def ipc_object_init_def)
  have "bs' \<noteq> 0" using ble(1) nz(2) by (metis le_zero_eq unat_0 unat_eq_zero)
  then have fits: "mp_fits (mempools ?k m)" using nz(1) ble(2) bs s mul by (simp add: mp_fits_def mp)
  have "0 < unat count" unfolding un using room by (simp add: div_greater_zero_iff)
  then have c: "count \<noteq> 0" by auto
  have "s \<noteq> 0" using room by auto
  note code = mp_init_eq[OF nz(1) this nz(2), folded s'_def bs'_def, folded count_def]
  have len: "length (mp_blocks (mempools ?k m)) = ?n" by (simp add: mp_blocks_def mp un)
  have blk: "unat start \<le> unat (mp_block (mempools ?k m) i) \<and>
      unat (mp_block (mempools ?k m) i) + 4 + unat bs' \<le> unat start + unat s \<and>
      (\<forall>j < i. unat (mp_block (mempools ?k m) j) + 4 + unat bs' \<le> unat (mp_block (mempools ?k m) i))"
    if "i < ?n" for i
  proof -
    have i: "i < unat (block_total_count (mempools ?k m))" using that by (simp add: mp un)
    show ?thesis
      using unat_mp_block[OF fits i] mp_block_inside[OF fits i] mp_blocks_apart[OF fits _ i] mul s
      by (simp add: mp)
  qed
  have q: "queues ?k (MpQ m) = []" by (simp add: mp_setup_def ipc_object_init_def)
  have "bs \<le> bs'" using ble(1) by (simp add: word_le_nat_alt)
  moreover have "block_size (mempools ?k m) = bs'" by (simp add: mp)
  ultimately show ?thesis using code mp_setup_wf[OF fits c] len blk q by (simp add: Let_def)
qed

section \<open>Deletion, and what allocation and release undo\<close>

lemma mp_detach_correct:
  assumes "sysinv b k"
  shows "ok (rt_mp_detach m k) (\<lambda>(e, k'). e = RT_EOK \<and> sysinv b k' \<and> all_woken (MpQ m) k k')"
  using mpq.resume_all_ok[OF assms, of m] by (auto simp: rt_mp_detach_def ok_iff)

lemma mp_alloc_free_undo:
  assumes wf: "mp_wf m (b # fs) k" and nq: "queues k (MpQ m) = []"
  shows "ok (rt_mp_alloc m timeout k) (\<lambda>(r, k'). r = Block (b + 4) \<and> rt_mp_free (b + 4) k' = Some k)"
proof -
  obtain n where n: "block_words k b = NextBlock n" "block_list (mempools k m) = b"
    "mp_take m k = Some (Block (b + 4), set_word b (PoolOf m)
       (upd_pool m (\<lambda>mp. mp\<lparr>block_free_count := block_free_count mp - 1, block_list := n\<rparr>) k))"
    by (rule mp_take_ok[OF wf])
  note W = mp_wfD[OF wf]
  have "b \<in> set (mp_blocks (mempools k m))" using W(3) by simp
  then have nz: "b + 4 \<noteq> 0" by (rule mp_payload_nonzero[OF W(1)])
  have z: "block_free_count (mempools k m) \<noteq> 0" using W(4) by auto
  have "(block_words k)(b := NextBlock n) = block_words k" using n(1) by (simp add: fun_upd_idem)
  moreover have "(mempools k)(m := mempools k m\<lparr>block_list := b\<rparr>) = mempools k"
    using n(2) by (simp add: fun_upd_idem)
  ultimately have "rt_mp_free (b + 4) (set_word b (PoolOf m)
       (upd_pool m (\<lambda>mp. mp\<lparr>block_free_count := block_free_count mp - 1, block_list := n\<rparr>) k)) = Some k"
    using nq nz by (simp add: rt_mp_free_def Let_def wake_first_def) (simp add: set_word_def upd_pool_def)
  then show ?thesis using z n(3) by (simp add: rt_mp_alloc_def)
qed

section \<open>Properties\<close>

text \<open>C22: An allocation takes the first free block, which no other caller holds, and marks it as the
  pool's; without a free block it fails with \<open>-RT_ETIMEOUT\<close> when it may not wait, and otherwise suspends
  the caller in front of the other waiters with its timer due in exactly the time-out.\<close>
theorem mp_alloc_takes_free_block:
  assumes "may_call b t timeout k" "mp_wf m fs k"
  shows "ok (rt_mp_alloc m timeout k) (\<lambda>(r, k'). sysinv b k' \<and> mp_allocated m timeout t fs k (r, k'))"
  by (rule mp_alloc_correct[OF assms])

lemma example_mp_wf: "mp_wf m [0x1000, 0x1010] example_kernel"
proof -
  have "mp_blocks (mempools example_kernel m) = [0x1000, 0x1010]"
    by (simp add: mp_blocks_def mp_block_def example_kernel_def upt_rec)
  then show ?thesis by (simp add: mp_wf_def Let_def mp_fits_def) (simp add: example_kernel_def)
qed

theorem mp_alloc_takes_free_block_witness:
  "ok (rt_mp_alloc 0 20 example_kernel)
    (\<lambda>(r, k'). sysinv 100 k' \<and> mp_allocated 0 20 0 [0x1000, 0x1010] example_kernel (r, k'))"
  by (rule mp_alloc_takes_free_block[OF example_may_call example_mp_wf]) simp

text \<open>The release of a block in use puts it in front of the free blocks and wakes the first waiter;
  the words of all other blocks, of this pool or another, stay as they are.\<close>
theorem mp_free_returns_block:
  assumes "sysinv b k" "cur k = Some c" "mp_wf m fs k"
    and "a \<in> set (mp_blocks (mempools k m))" "a \<notin> set fs"
  shows "ok (rt_mp_free (a + 4) k) (\<lambda>k'. sysinv b k' \<and> cur k' \<noteq> None \<and> mp_freed m a fs k k')"
  by (rule mp_free_correct[OF assms])

definition example_pool :: kernel where
  "example_pool = example_kernel\<lparr>
     mempools := (\<lambda>_. \<lparr>start_address = 0x1000, mp_size = 32, block_size = 12, block_list = 0x1010,
       block_total_count = 2, block_free_count = 1\<rparr>),
     block_words := (\<lambda>a. if a = 0x1000 then PoolOf 0 else NextBlock 0)\<rparr>"

lemma example_pool_ok: "sysinv 100 example_pool" "cur example_pool = Some 0" "mp_wf 0 [0x1010] example_pool"
  "mp_blocks (mempools example_pool 0) = [0x1000, 0x1010]"
proof -
  show "sysinv 100 example_pool"
    using example_sysinv by (subst sysinv_cong[of _ example_kernel]) (simp_all add: example_pool_def)
  show "cur example_pool = Some 0" using example_available(2) by (simp add: example_pool_def)
  show blocks: "mp_blocks (mempools example_pool 0) = [0x1000, 0x1010]"
    by (simp add: mp_blocks_def mp_block_def example_pool_def upt_rec)
  then show "mp_wf 0 [0x1010] example_pool"
    by (simp add: mp_wf_def Let_def mp_fits_def) (simp add: example_pool_def)
qed

theorem mp_free_returns_block_witness:
  "ok (rt_mp_free 0x1004 example_pool)
    (\<lambda>k'. sysinv 100 k' \<and> cur k' \<noteq> None \<and> mp_freed 0 0x1000 [0x1010] example_pool k')"
  using mp_free_returns_block[OF example_pool_ok(1-3), where a = "0x1000"] by (simp add: example_pool_ok(4))

text \<open>Initialisation cuts the region into as many blocks as fit, all free, each of at least the size
  asked for, inside the region and apart from the others, words in front included.\<close>
theorem mp_init_partitions:
  assumes "start \<noteq> 0" "bs \<noteq> 0" "unat bs + 11 < 2 ^ 32"
    and "unat start + unat s \<le> 2 ^ 32" "(unat bs + 7) div 8 * 8 + 4 \<le> unat s - unat s mod 8"
  shows "ok (rt_mp_init m start s bs k) (\<lambda>(e, k'). e = RT_EOK \<and>
    (let mp = mempools k' m; n = (unat s - unat s mod 8) div ((unat bs + 7) div 8 * 8 + 4) in
       mp_wf m (mp_blocks mp) k' \<and> length (mp_blocks mp) = n \<and> queues k' (MpQ m) = [] \<and> bs \<le> block_size mp \<and>
       (\<forall>i < n. unat start \<le> unat (mp_block mp i) \<and>
          unat (mp_block mp i) + 4 + unat (block_size mp) \<le> unat start + unat s \<and>
          (\<forall>j < i. unat (mp_block mp j) + 4 + unat (block_size mp) \<le> unat (mp_block mp i)))))"
  by (rule mp_init_correct[OF assms])

theorem mp_init_partitions_witness:
  "ok (rt_mp_init 0 0x2000 100 10 example_kernel) (\<lambda>(e, k'). e = RT_EOK \<and>
    (let mp = mempools k' 0; n = (unat (100::u32) - unat (100::u32) mod 8) div ((unat (10::u32) + 7) div 8 * 8 + 4) in
       mp_wf 0 (mp_blocks mp) k' \<and> length (mp_blocks mp) = n \<and> queues k' (MpQ 0) = [] \<and> 10 \<le> block_size mp \<and>
       (\<forall>i < n. unat (0x2000::u32) \<le> unat (mp_block mp i) \<and>
          unat (mp_block mp i) + 4 + unat (block_size mp) \<le> unat (0x2000::u32) + unat (100::u32) \<and>
          (\<forall>j < i. unat (mp_block mp j) + 4 + unat (block_size mp) \<le> unat (mp_block mp i)))))"
  by (rule mp_init_partitions) simp_all

text \<open>Without waiters, an allocation and the release of its block leave the system exactly as it was.\<close>
theorem mp_alloc_free_roundtrip:
  assumes "mp_wf m (b # fs) k" "queues k (MpQ m) = []"
  shows "ok (rt_mp_alloc m timeout k) (\<lambda>(r, k'). r = Block (b + 4) \<and> rt_mp_free (b + 4) k' = Some k)"
  by (rule mp_alloc_free_undo[OF assms])

theorem mp_alloc_free_roundtrip_witness:
  "ok (rt_mp_alloc 0 20 example_kernel)
    (\<lambda>(r, k'). r = Block (0x1000 + 4) \<and> rt_mp_free (0x1000 + 4) k' = Some example_kernel)"
  by (rule mp_alloc_free_roundtrip[OF example_mp_wf]) (simp add: example_kernel_def)

text \<open>A region too small for one block is accepted, and the word in front of the region is overwritten.\<close>
theorem mp_init_writes_in_front:
  assumes "start \<noteq> 0" "s \<noteq> 0" "bs \<noteq> 0" "rt_align_down s 8 < rt_align bs 8 + 4"
  shows "ok (rt_mp_init m start s bs k) (\<lambda>(e, k'). e = RT_EOK \<and>
    block_words k' = (block_words k)(start - (rt_align bs 8 + 4) := NextBlock 0))"
proof -
  have "unat (rt_align_down s 8) < unat (rt_align bs 8 + 4)" using assms(4) by (simp add: word_less_nat_alt)
  then have "unat (rt_align_down s 8 div (rt_align bs 8 + 4)) = 0" by (simp add: unat_div)
  then have "rt_align_down s 8 div (rt_align bs 8 + 4) = 0" by (simp add: unat_eq_zero)
  then show ?thesis
    using mp_init_eq[OF assms(1-3)] by (simp add: mp_setup_def mp_link_blocks_def ipc_object_init_def algebra_simps)
qed

theorem mp_init_writes_in_front_witness:
  "ok (rt_mp_init 0 0x2000 16 20 example_kernel) (\<lambda>(e, k'). e = RT_EOK \<and>
    block_words k' = (block_words example_kernel)(0x2000 - (rt_align 20 8 + 4) := NextBlock 0))"
  by (rule mp_init_writes_in_front) (simp_all add: rt_align_def rt_align_down_def)

end
