(* ===== verification/RingBuffer.thy ===== *)
theory RingBuffer
  imports Fifo
begin

text \<open>
  The ring buffer of the device drivers (\<open>components/drivers/ipc/ringbuffer.c\<close>): two indices with a mirror
  bit each over a pool of bytes. Accesses beyond the pool or the caller's array are the value \<open>None\<close>.
\<close>

section \<open>Operations\<close>

text \<open>Conversions to \<open>rt_uint32_t\<close> and to the 31 bits of an index.\<close>

definition u32_of :: "int \<Rightarrow> nat" where
  "u32_of i = nat (i mod 2 ^ 32)"

definition u31_of :: "nat \<Rightarrow> nat" where
  "u31_of n = n mod 2 ^ 31"

definition mem_read :: "nat \<Rightarrow> nat \<Rightarrow> u8 list \<Rightarrow> u8 list option" where
  "mem_read i n xs = (if i + n \<le> length xs then Some (take n (drop i xs)) else None)"

definition mem_write :: "nat \<Rightarrow> u8 list \<Rightarrow> u8 list \<Rightarrow> u8 list option" where
  "mem_write i ys xs = (if i + length ys \<le> length xs
     then Some (take i xs @ ys @ drop (i + length ys) xs) else None)"

record rt_ringbuffer =
  buffer_ptr :: "u8 list"
  read_mirror :: bool
  read_index :: nat
  write_mirror :: bool
  write_index :: nat
  buffer_size :: int

datatype rt_ringbuffer_state = RT_RINGBUFFER_EMPTY | RT_RINGBUFFER_FULL | RT_RINGBUFFER_HALFFULL

definition rt_ringbuffer_status :: "rt_ringbuffer \<Rightarrow> rt_ringbuffer_state" where
  "rt_ringbuffer_status rb =
     (if read_index rb = write_index rb then
        if read_mirror rb = write_mirror rb then RT_RINGBUFFER_EMPTY else RT_RINGBUFFER_FULL
      else RT_RINGBUFFER_HALFFULL)"

definition rt_ringbuffer_init :: "u8 list \<Rightarrow> int \<Rightarrow> rt_ringbuffer option" where
  "rt_ringbuffer_init pool s =
     (if s > 0 then Some \<lparr>buffer_ptr = pool, read_mirror = False, read_index = 0,
        write_mirror = False, write_index = 0, buffer_size = s - s mod 8\<rparr> else None)"

definition rt_ringbuffer_get_size :: "rt_ringbuffer \<Rightarrow> nat" where
  "rt_ringbuffer_get_size rb = u32_of (buffer_size rb)"

definition rt_ringbuffer_data_len :: "rt_ringbuffer \<Rightarrow> nat" where
  "rt_ringbuffer_data_len rb =
     (case rt_ringbuffer_status rb of
        RT_RINGBUFFER_EMPTY \<Rightarrow> 0
      | RT_RINGBUFFER_FULL \<Rightarrow> u32_of (buffer_size rb)
      | RT_RINGBUFFER_HALFFULL \<Rightarrow>
          let wi = write_index rb; ri = read_index rb in
          if wi > ri then wi - ri else u32_of (buffer_size rb - (int ri - int wi)))"

definition rt_ringbuffer_space_len :: "rt_ringbuffer \<Rightarrow> nat" where
  "rt_ringbuffer_space_len rb = u32_of (buffer_size rb - int (rt_ringbuffer_data_len rb))"

text \<open>The copying part of a put, with or without going into the mirror.\<close>

definition rb_copy_in :: "u8 list \<Rightarrow> nat \<Rightarrow> rt_ringbuffer \<Rightarrow> (bool \<times> rt_ringbuffer) option" where
  "rb_copy_in ptr n rb =
     (let w = write_index rb; room = u32_of (buffer_size rb - int w) in
      if room > n then do {
        src \<leftarrow> mem_read 0 n ptr;
        buf \<leftarrow> mem_write w src (buffer_ptr rb);
        Some (False, rb\<lparr>buffer_ptr := buf, write_index := u31_of (w + n)\<rparr>)
      }
      else do {
        src \<leftarrow> mem_read 0 room ptr;
        buf \<leftarrow> mem_write w src (buffer_ptr rb);
        src' \<leftarrow> mem_read room (u32_of (int n - int room)) ptr;
        buf' \<leftarrow> mem_write 0 src' buf;
        Some (True, rb\<lparr>buffer_ptr := buf', write_mirror := \<not> write_mirror rb,
          write_index := u31_of (u32_of (int n - int room))\<rparr>)
      })"

definition rt_ringbuffer_put :: "u8 list \<Rightarrow> nat \<Rightarrow> rt_ringbuffer \<Rightarrow> (nat \<times> rt_ringbuffer) option" where
  "rt_ringbuffer_put ptr n rb =
     (let s = rt_ringbuffer_space_len rb in
      if s = 0 then Some (0, rb)
      else let n' = (if s < n then s else n) in do {
        (_, rb1) \<leftarrow> rb_copy_in ptr n' rb;
        Some (n', rb1)
      })"

definition rt_ringbuffer_put_force ::
  "u8 list \<Rightarrow> nat \<Rightarrow> rt_ringbuffer \<Rightarrow> (nat \<times> rt_ringbuffer) option" where
  "rt_ringbuffer_put_force ptr n rb =
     (let space = rt_ringbuffer_space_len rb; s = u32_of (buffer_size rb);
          (ptr', n') = (if n > s then (drop (n - s) ptr, s) else (ptr, n))
      in do {
        (mirrored, rb1) \<leftarrow> rb_copy_in ptr' n' rb;
        Some (n',
          if n' > space then
            if mirrored then
              rb1\<lparr>read_mirror := (if write_index rb1 \<le> read_index rb1 then \<not> read_mirror rb1 else read_mirror rb1),
                  read_index := write_index rb1\<rparr>
            else rb1\<lparr>read_index := write_index rb1\<rparr>
          else rb1)
      })"

text \<open>The copying part of a get.\<close>

definition rb_copy_out :: "nat \<Rightarrow> rt_ringbuffer \<Rightarrow> (u8 list \<times> rt_ringbuffer) option" where
  "rb_copy_out n rb =
     (let r = read_index rb; room = u32_of (buffer_size rb - int r) in
      if room > n then do {
        xs \<leftarrow> mem_read r n (buffer_ptr rb);
        Some (xs, rb\<lparr>read_index := u31_of (r + n)\<rparr>)
      }
      else do {
        xs \<leftarrow> mem_read r room (buffer_ptr rb);
        ys \<leftarrow> mem_read 0 (u32_of (int n - int room)) (buffer_ptr rb);
        Some (xs @ ys, rb\<lparr>read_mirror := \<not> read_mirror rb, read_index := u31_of (u32_of (int n - int room))\<rparr>)
      })"

text \<open>The bytes written to the caller's array; their number is the result.\<close>

definition rt_ringbuffer_get :: "nat \<Rightarrow> rt_ringbuffer \<Rightarrow> (u8 list \<times> rt_ringbuffer) option" where
  "rt_ringbuffer_get n rb =
     (let s = rt_ringbuffer_data_len rb in
      if s = 0 then Some ([], rb) else rb_copy_out (if s < n then s else n) rb)"

text \<open>The pointer returned (an index into the pool), the size and the buffer.\<close>

definition rt_ringbuffer_peek :: "rt_ringbuffer \<Rightarrow> nat option \<times> nat \<times> rt_ringbuffer" where
  "rt_ringbuffer_peek rb =
     (let s = rt_ringbuffer_data_len rb; r = read_index rb; room = u32_of (buffer_size rb - int r) in
      if s = 0 then (None, 0, rb)
      else if room > s then (Some r, s, rb\<lparr>read_index := u31_of (r + s)\<rparr>)
      else (Some r, room, rb\<lparr>read_mirror := \<not> read_mirror rb, read_index := 0\<rparr>))"

definition rt_ringbuffer_putchar :: "u8 \<Rightarrow> rt_ringbuffer \<Rightarrow> (nat \<times> rt_ringbuffer) option" where
  "rt_ringbuffer_putchar ch rb =
     (if rt_ringbuffer_space_len rb = 0 then Some (0, rb)
      else do {
        buf \<leftarrow> mem_write (write_index rb) [ch] (buffer_ptr rb);
        let rb1 = rb\<lparr>buffer_ptr := buf\<rparr>;
        Some (1, if int (write_index rb1) = buffer_size rb1 - 1
          then rb1\<lparr>write_mirror := \<not> write_mirror rb1, write_index := 0\<rparr>
          else rb1\<lparr>write_index := u31_of (write_index rb1 + 1)\<rparr>)
      })"

definition rt_ringbuffer_putchar_force :: "u8 \<Rightarrow> rt_ringbuffer \<Rightarrow> (nat \<times> rt_ringbuffer) option" where
  "rt_ringbuffer_putchar_force ch rb =
     do {
       let old_state = rt_ringbuffer_status rb;
       buf \<leftarrow> mem_write (write_index rb) [ch] (buffer_ptr rb);
       let rb1 = rb\<lparr>buffer_ptr := buf\<rparr>;
       Some (1, if int (write_index rb1) = buffer_size rb1 - 1
         then let rb2 = rb1\<lparr>write_mirror := \<not> write_mirror rb1, write_index := 0\<rparr>
              in if old_state = RT_RINGBUFFER_FULL
                 then rb2\<lparr>read_mirror := \<not> read_mirror rb2, read_index := write_index rb2\<rparr> else rb2
         else let rb2 = rb1\<lparr>write_index := u31_of (write_index rb1 + 1)\<rparr>
              in if old_state = RT_RINGBUFFER_FULL then rb2\<lparr>read_index := write_index rb2\<rparr> else rb2)
     }"

definition rt_ringbuffer_getchar :: "rt_ringbuffer \<Rightarrow> (u8 option \<times> rt_ringbuffer) option" where
  "rt_ringbuffer_getchar rb =
     (if rt_ringbuffer_data_len rb = 0 then Some (None, rb)
      else do {
        xs \<leftarrow> mem_read (read_index rb) 1 (buffer_ptr rb);
        Some (Some (hd xs), if int (read_index rb) = buffer_size rb - 1
          then rb\<lparr>read_mirror := \<not> read_mirror rb, read_index := 0\<rparr>
          else rb\<lparr>read_index := u31_of (read_index rb + 1)\<rparr>)
      })"

definition rt_ringbuffer_reset :: "rt_ringbuffer \<Rightarrow> rt_ringbuffer" where
  "rt_ringbuffer_reset rb = rb\<lparr>read_mirror := False, read_index := 0, write_mirror := False, write_index := 0\<rparr>"

text \<open>\<open>object\<close> says whether the allocation of the object succeeded, \<open>alloc\<close> is that of the pool.\<close>

definition rt_ringbuffer_create :: "bool \<Rightarrow> (nat \<Rightarrow> u8 list option) \<Rightarrow> nat \<Rightarrow> rt_ringbuffer option option" where
  "rt_ringbuffer_create object alloc s =
     (if s > 0 then
        let s' = s - s mod 8 in
        if \<not> object then Some None
        else case alloc s' of
            None \<Rightarrow> Some None
          | Some pool \<Rightarrow> (case rt_ringbuffer_init pool (int s') of None \<Rightarrow> None | Some rb \<Rightarrow> Some (Some rb))
      else None)"

section \<open>Memory\<close>

lemma mem_read_ok: "i + n \<le> length xs \<Longrightarrow> mem_read i n xs = Some (take n (drop i xs))"
  by (simp add: mem_read_def)

lemma mem_write_ok:
  assumes "length ys = n" "i + n \<le> length xs"
  obtains zs where "mem_write i ys xs = Some zs" "length zs = length xs"
    "\<And>j. j < length xs \<Longrightarrow> zs ! j = (if i \<le> j \<and> j < i + n then ys ! (j - i) else xs ! j)"
proof
  let ?zs = "take i xs @ ys @ drop (i + length ys) xs"
  show "mem_write i ys xs = Some ?zs" "length ?zs = length xs" using assms by (simp_all add: mem_write_def)
  show "?zs ! j = (if i \<le> j \<and> j < i + n then ys ! (j - i) else xs ! j)" if "j < length xs" for j
    using assms that by (auto simp: nth_append)
qed

section \<open>The bytes in the buffer\<close>

text \<open>The number of bytes in the ring, and the invariant: the mirrors tell a full buffer from an empty one.\<close>

definition rb_cap :: "rt_ringbuffer \<Rightarrow> nat" where
  "rb_cap rb = nat (buffer_size rb)"

definition rb_used :: "rt_ringbuffer \<Rightarrow> nat" where
  "rb_used rb = (if read_mirror rb = write_mirror rb then write_index rb - read_index rb
     else rb_cap rb + write_index rb - read_index rb)"

definition rb_wf :: "rt_ringbuffer \<Rightarrow> bool" where
  "rb_wf rb \<longleftrightarrow> 0 < buffer_size rb \<and> buffer_size rb < 2 ^ 31 \<and> rb_cap rb \<le> length (buffer_ptr rb) \<and>
     read_index rb < rb_cap rb \<and> write_index rb < rb_cap rb \<and>
     (if read_mirror rb = write_mirror rb then read_index rb \<le> write_index rb
      else write_index rb \<le> read_index rb)"

definition rb_data :: "rt_ringbuffer \<Rightarrow> u8 list" where
  "rb_data rb = map (\<lambda>i. buffer_ptr rb ! ((read_index rb + i) mod rb_cap rb)) [0..<rb_used rb]"

lemma length_rb_data [simp]: "length (rb_data rb) = rb_used rb"
  by (simp add: rb_data_def)

lemma u32_of_nat: "0 \<le> i \<Longrightarrow> i < 2 ^ 32 \<Longrightarrow> u32_of i = nat i"
  by (simp add: u32_of_def)

lemma rb_wfD:
  assumes "rb_wf rb"
  shows "buffer_size rb = int (rb_cap rb)" "rb_cap rb < 2 ^ 31" "0 < rb_cap rb"
    "rb_cap rb \<le> length (buffer_ptr rb)" "read_index rb < rb_cap rb" "write_index rb < rb_cap rb"
    "read_mirror rb = write_mirror rb \<Longrightarrow> read_index rb \<le> write_index rb"
    "read_mirror rb \<noteq> write_mirror rb \<Longrightarrow> write_index rb \<le> read_index rb"
  using assms by (auto simp: rb_wf_def rb_cap_def split: if_splits)

lemma rb_sizes:
  assumes wf: "rb_wf rb"
  shows "rb_used rb \<le> rb_cap rb" "(read_index rb + rb_used rb) mod rb_cap rb = write_index rb"
    "rt_ringbuffer_data_len rb = rb_used rb" "rt_ringbuffer_space_len rb = rb_cap rb - rb_used rb"
    "u32_of (buffer_size rb) = rb_cap rb"
    "i < rb_cap rb \<Longrightarrow> u32_of (buffer_size rb - int i) = rb_cap rb - i"
proof -
  note W = rb_wfD[OF wf]
  have conv: "u32_of (buffer_size rb - int i) = rb_cap rb - i" if "i \<le> rb_cap rb" for i
    unfolding W(1) using that W(2) by (subst u32_of_nat) (auto simp: of_nat_diff)
  show le: "rb_used rb \<le> rb_cap rb" using W(5-8) by (auto simp: rb_used_def)
  show "(read_index rb + rb_used rb) mod rb_cap rb = write_index rb"
    using W(5-8) by (auto simp: rb_used_def)
  show len: "rt_ringbuffer_data_len rb = rb_used rb"
  proof (cases "read_index rb = write_index rb")
    case True
    then show ?thesis
      using conv[of 0] W(7,8) by (auto simp: rt_ringbuffer_data_len_def rt_ringbuffer_status_def rb_used_def)
  next
    case False
    have "u32_of (buffer_size rb - (int (read_index rb) - int (write_index rb))) =
        rb_cap rb - (read_index rb - write_index rb)" if "write_index rb < read_index rb"
      using conv[of "read_index rb - write_index rb"] that W(5) by (simp add: of_nat_diff)
    moreover have "(read_mirror rb = write_mirror rb) = (read_index rb < write_index rb)"
      using W(7,8) False by linarith
    ultimately show ?thesis
      using False W(5,6)
      by (simp add: rt_ringbuffer_data_len_def rt_ringbuffer_status_def rb_used_def Let_def)
  qed
  show "rt_ringbuffer_space_len rb = rb_cap rb - rb_used rb"
    unfolding rt_ringbuffer_space_len_def len by (rule conv[OF le])
  show "u32_of (buffer_size rb) = rb_cap rb" using conv[of 0] by simp
  show "i < rb_cap rb \<Longrightarrow> u32_of (buffer_size rb - int i) = rb_cap rb - i" by (rule conv) simp
qed

section \<open>Copying in and out\<close>

lemma nth_rb_data: "i < rb_used rb \<Longrightarrow> rb_data rb ! i = buffer_ptr rb ! ((read_index rb + i) mod rb_cap rb)"
  by (simp add: rb_data_def)

text \<open>The bytes arrive behind the write index, round the end of the pool; the others stay.\<close>

lemma copy_in_ok:
  assumes wf: "rb_wf rb" and n: "n \<le> rb_cap rb" and p: "n \<le> length ptr"
  obtains buf where "rb_copy_in ptr n rb = Some (rb_cap rb \<le> write_index rb + n,
      rb\<lparr>buffer_ptr := buf, write_mirror := (if rb_cap rb \<le> write_index rb + n then \<not> write_mirror rb else write_mirror rb),
         write_index := (write_index rb + n) mod rb_cap rb\<rparr>)"
    and "length buf = length (buffer_ptr rb)"
    and "\<And>j. j < n \<Longrightarrow> buf ! ((write_index rb + j) mod rb_cap rb) = ptr ! j"
    and "\<And>j. n \<le> j \<Longrightarrow> j < rb_cap rb \<Longrightarrow>
      buf ! ((write_index rb + j) mod rb_cap rb) = buffer_ptr rb ! ((write_index rb + j) mod rb_cap rb)"
proof -
  note W = rb_wfD[OF wf] and S = rb_sizes[OF wf]
  let ?w = "write_index rb" and ?N = "rb_cap rb" and ?old = "buffer_ptr rb"
  have room: "u32_of (buffer_size rb - int ?w) = ?N - ?w" by (rule S(6)[OF W(6)])
  show ?thesis
  proof (cases "n < ?N - ?w")
    case True
    have fit: "length (take n ptr) = n" "?w + n \<le> length ?old" using p True W(4) by simp_all
    obtain buf where buf: "mem_write ?w (take n ptr) ?old = Some buf" "length buf = length ?old"
      "\<And>j. j < length ?old \<Longrightarrow> buf ! j = (if ?w \<le> j \<and> j < ?w + n then take n ptr ! (j - ?w) else ?old ! j)"
      by (rule mem_write_ok[OF fit]) blast
    have "u31_of (?w + n) = ?w + n" using True W(2) by (simp add: u31_of_def)
    then have code: "rb_copy_in ptr n rb = Some (?N \<le> ?w + n,
      rb\<lparr>buffer_ptr := buf, write_mirror := (if ?N \<le> ?w + n then \<not> write_mirror rb else write_mirror rb),
         write_index := (?w + n) mod ?N\<rparr>)"
      using True p buf(1) by (simp add: rb_copy_in_def room mem_read_ok Let_def)
    have a: "buf ! ((?w + j) mod ?N) = ptr ! j" if "j < n" for j
      using that True buf(3)[of "?w + j"] W(4) by simp
    have b: "buf ! ((?w + j) mod ?N) = ?old ! ((?w + j) mod ?N)" if "n \<le> j" "j < ?N" for j
    proof -
      have "(?w + j) mod ?N < ?w \<or> (?w + j) mod ?N = ?w + j" using that W(6) by (auto simp: mod_if)
      moreover have "(?w + j) mod ?N < length ?old" using W(3,4) by (meson mod_less_divisor less_le_trans)
      ultimately show ?thesis using buf(3)[of "(?w + j) mod ?N"] that by auto
    qed
    show ?thesis by (rule that[OF code buf(2) a b])
  next
    case False
    define c where "c = ?N - ?w"
    have c: "c \<le> n" "?w + c = ?N" using False W(6) by (auto simp: c_def)
    have room': "u32_of (buffer_size rb - int ?w) = c" using room by (simp add: c_def)
    have nc: "\<not> n < c" using False by (simp add: c_def)
    have rest: "u32_of (int n - int c) = n - c"
      using c(1) n W(2) by (subst u32_of_nat) (auto simp: of_nat_diff)
    have fit: "length (take c ptr) = c" "?w + c \<le> length ?old" using p c W(4) by simp_all
    obtain b1 where b1: "mem_write ?w (take c ptr) ?old = Some b1" "length b1 = length ?old"
      "\<And>j. j < length ?old \<Longrightarrow> b1 ! j = (if ?w \<le> j \<and> j < ?w + c then take c ptr ! (j - ?w) else ?old ! j)"
      by (rule mem_write_ok[OF fit]) blast
    have fit': "length (take (n - c) (drop c ptr)) = n - c" "0 + (n - c) \<le> length b1" using p n W(4) b1(2) by simp_all
    obtain buf where buf: "mem_write 0 (take (n - c) (drop c ptr)) b1 = Some buf" "length buf = length b1"
      "\<And>j. j < length b1 \<Longrightarrow> buf ! j = (if 0 \<le> j \<and> j < 0 + (n - c) then take (n - c) (drop c ptr) ! (j - 0) else b1 ! j)"
      by (rule mem_write_ok[OF fit']) blast
    have wn: "(?w + n) mod ?N = n - c" "n - c \<le> ?w" using c n W(6) by (auto simp: mod_if c_def)
    have "u31_of (n - c) = n - c" using n W(2) by (simp add: u31_of_def)
    then have code: "rb_copy_in ptr n rb = Some (?N \<le> ?w + n,
      rb\<lparr>buffer_ptr := buf, write_mirror := (if ?N \<le> ?w + n then \<not> write_mirror rb else write_mirror rb),
         write_index := (?w + n) mod ?N\<rparr>)"
      using nc p c wn(1) b1(1) buf(1) by (simp add: rb_copy_in_def room' rest mem_read_ok Let_def)
    have pos: "(?w + j) mod ?N = (if j < c then ?w + j else j - c)" if "j < ?N" for j
      using that W(6) c by (auto simp: mod_if)
    have a: "buf ! ((?w + j) mod ?N) = ptr ! j" if "j < n" for j
    proof (cases "j < c")
      case True
      then have "\<not> ?w + j < n - c" using wn(2) by simp
      moreover have "?w + j < length ?old" using True c(2) W(4) by simp
      ultimately show ?thesis using True pos[of j] that n b1(2,3) buf(3)[of "?w + j"] by simp
    next
      case False
      moreover have "j - c < n - c" using that False by simp
      moreover have "j - c < length ?old" using that n W(4) by simp
      ultimately show ?thesis using pos[of j] that n p b1(2) buf(3)[of "j - c"] by simp
    qed
    have b: "buf ! ((?w + j) mod ?N) = ?old ! ((?w + j) mod ?N)" if "n \<le> j" "j < ?N" for j
    proof -
      have "\<not> j < c" "\<not> j - c < n - c" "j - c < ?w" using that c by auto
      then show ?thesis using pos[of j] that W(4) b1(2) b1(3)[of "j - c"] buf(3)[of "j - c"] by simp
    qed
    show ?thesis using that[OF code _ a b] buf(2) b1(2) by simp
  qed
qed

text \<open>Seen from the read index: the old bytes not overwritten, then the new ones.\<close>

lemma copied_data:
  assumes wf: "rb_wf rb" and n: "n \<le> rb_cap rb" and p: "n \<le> length ptr"
    and new: "\<And>j. j < n \<Longrightarrow> buf ! ((write_index rb + j) mod rb_cap rb) = ptr ! j"
    and old: "\<And>j. n \<le> j \<Longrightarrow> j < rb_cap rb \<Longrightarrow>
      buf ! ((write_index rb + j) mod rb_cap rb) = buffer_ptr rb ! ((write_index rb + j) mod rb_cap rb)"
    and i: "i < rb_used rb + n" "rb_used rb + n \<le> i + rb_cap rb"
  shows "buf ! ((read_index rb + i) mod rb_cap rb) = (rb_data rb @ take n ptr) ! i"
proof -
  note S = rb_sizes[OF wf]
  show ?thesis
  proof (cases "i < rb_used rb")
    case True
    define j where "j = rb_cap rb + i - rb_used rb"
    have j: "n \<le> j" "j < rb_cap rb" "rb_used rb + j = i + rb_cap rb" using True i(2) S(1) by (auto simp: j_def)
    have "(write_index rb + j) mod rb_cap rb = (read_index rb + (rb_used rb + j)) mod rb_cap rb"
      unfolding S(2)[symmetric] by (simp add: mod_add_left_eq add.assoc)
    also have "\<dots> = (read_index rb + i) mod rb_cap rb" by (simp add: j(3) add.assoc[symmetric])
    finally show ?thesis using old[OF j(1,2)] True by (simp add: nth_append nth_rb_data)
  next
    case False
    define j where "j = i - rb_used rb"
    have j: "j < n" "rb_used rb + j = i" using False i(1) by (auto simp: j_def)
    have "(write_index rb + j) mod rb_cap rb = (read_index rb + (rb_used rb + j)) mod rb_cap rb"
      unfolding S(2)[symmetric] by (simp add: mod_add_left_eq add.assoc)
    then show ?thesis using new[OF j(1)] j False by (simp add: nth_append j_def)
  qed
qed

lemma rb_data_eqI:
  assumes "rb_used rb = length xs"
    and "\<And>i. i < length xs \<Longrightarrow> buffer_ptr rb ! ((read_index rb + i) mod rb_cap rb) = xs ! i"
  shows "rb_data rb = xs"
  by (rule nth_equalityI) (use assms in \<open>simp_all add: nth_rb_data\<close>)

text \<open>The write index moves on; the mirror flips when it passes the end.\<close>

definition rb_written :: "u8 list \<Rightarrow> nat \<Rightarrow> rt_ringbuffer \<Rightarrow> rt_ringbuffer" where
  "rb_written buf n rb = rb\<lparr>buffer_ptr := buf,
     write_mirror := (if rb_cap rb \<le> write_index rb + n then \<not> write_mirror rb else write_mirror rb),
     write_index := (write_index rb + n) mod rb_cap rb\<rparr>"

lemma rb_written_simps [simp]:
  "buffer_ptr (rb_written buf n rb) = buf" "read_index (rb_written buf n rb) = read_index rb"
  "read_mirror (rb_written buf n rb) = read_mirror rb" "buffer_size (rb_written buf n rb) = buffer_size rb"
  "rb_cap (rb_written buf n rb) = rb_cap rb"
  "write_index (rb_written buf n rb) = (write_index rb + n) mod rb_cap rb"
  by (simp_all add: rb_written_def rb_cap_def)

lemma rb_written_wf:
  assumes wf: "rb_wf rb" and n: "rb_used rb + n \<le> rb_cap rb" and b: "length buf = length (buffer_ptr rb)"
  shows "rb_wf (rb_written buf n rb)" "rb_used (rb_written buf n rb) = rb_used rb + n"
proof -
  note W = rb_wfD[OF wf]
  have m: "(write_index rb + n) mod rb_cap rb =
      (if rb_cap rb \<le> write_index rb + n then write_index rb + n - rb_cap rb else write_index rb + n)"
    using W(6) n by (auto simp: mod_if)
  have pos: "0 < buffer_size rb" "buffer_size rb < 2 ^ 31" using wf by (simp_all add: rb_wf_def)
  show "rb_wf (rb_written buf n rb)"
    unfolding rb_wf_def rb_written_simps m
    using W(3-8) n b pos by (auto simp: rb_written_def rb_used_def split: if_splits)
  show "rb_used (rb_written buf n rb) = rb_used rb + n"
    unfolding rb_used_def rb_written_simps m
    using W(3-8) n by (auto simp: rb_written_def rb_used_def split: if_splits)
qed

section \<open>The operations on the sequence of bytes\<close>

lemma put_correct:
  assumes wf: "rb_wf rb" and p: "n \<le> length ptr"
  shows "ok (rt_ringbuffer_put ptr n rb) (\<lambda>(r, rb'). rb_wf rb' \<and> rb_cap rb' = rb_cap rb \<and>
    r = min n (rb_cap rb - rb_used rb) \<and> rb_data rb' = rb_data rb @ take r ptr)"
proof -
  note S = rb_sizes[OF wf]
  define r where "r = min n (rb_cap rb - rb_used rb)"
  show ?thesis
  proof (cases "rb_cap rb = rb_used rb")
    case True
    then show ?thesis using wf by (simp add: rt_ringbuffer_put_def S(4) Let_def)
  next
    case False
    have r: "r \<le> rb_cap rb" "r \<le> length ptr" "rb_used rb + r \<le> rb_cap rb" using p S(1) by (auto simp: r_def)
    obtain buf where buf: "rb_copy_in ptr r rb = Some (rb_cap rb \<le> write_index rb + r, rb_written buf r rb)"
      "length buf = length (buffer_ptr rb)"
      "\<And>j. j < r \<Longrightarrow> buf ! ((write_index rb + j) mod rb_cap rb) = ptr ! j"
      "\<And>j. r \<le> j \<Longrightarrow> j < rb_cap rb \<Longrightarrow>
        buf ! ((write_index rb + j) mod rb_cap rb) = buffer_ptr rb ! ((write_index rb + j) mod rb_cap rb)"
      using copy_in_ok[OF wf r(1,2)] unfolding rb_written_def by blast
    note wfn = rb_written_wf[OF wf r(3) buf(2)]
    have "rb_data (rb_written buf r rb) = rb_data rb @ take r ptr"
    proof (rule rb_data_eqI)
      show "rb_used (rb_written buf r rb) = length (rb_data rb @ take r ptr)" using wfn(2) r(2) by simp
      show "buffer_ptr (rb_written buf r rb) ! ((read_index (rb_written buf r rb) + i) mod
          rb_cap (rb_written buf r rb)) = (rb_data rb @ take r ptr) ! i"
        if "i < length (rb_data rb @ take r ptr)" for i
        using copied_data[OF wf r(1,2) buf(3,4), of i] that r by simp
    qed
    moreover have "(if rb_cap rb - rb_used rb < n then rb_cap rb - rb_used rb else n) = r"
      by (simp add: r_def min_def)
    then have "rt_ringbuffer_put ptr n rb = Some (r, rb_written buf r rb)"
      using buf(1) False S(1) by (simp add: rt_ringbuffer_put_def S(4) Let_def)
    ultimately show ?thesis using wfn(1) by (simp add: r_def)
  qed
qed

lemma get_correct:
  assumes wf: "rb_wf rb"
  shows "ok (rt_ringbuffer_get n rb) (\<lambda>(xs, rb'). rb_wf rb' \<and> rb_cap rb' = rb_cap rb \<and>
    xs = take n (rb_data rb) \<and> rb_data rb' = drop n (rb_data rb))"
proof -
  note W = rb_wfD[OF wf] and S = rb_sizes[OF wf]
  let ?N = "rb_cap rb" and ?r = "read_index rb"
  define l where "l = min n (rb_used rb)"
  show ?thesis
  proof (cases "rb_used rb = 0")
    case True
    then have "rb_data rb = []" by (simp add: rb_data_def)
    then show ?thesis using wf True by (simp add: rt_ringbuffer_get_def S(3))
  next
    case False
    have l: "l \<le> ?N" "l \<le> rb_used rb" using S(1) by (auto simp: l_def)
    define rb' where "rb' = rb\<lparr>read_mirror := (if ?N \<le> ?r + l then \<not> read_mirror rb else read_mirror rb),
      read_index := (?r + l) mod ?N\<rparr>"
    have c': "rb_cap rb' = ?N" by (simp add: rb'_def rb_cap_def)
    have m: "(?r + l) mod ?N = (if ?N \<le> ?r + l then ?r + l - ?N else ?r + l)" using W(5) l by (auto simp: mod_if)
    have pos: "0 < buffer_size rb" "buffer_size rb < 2 ^ 31" using wf by (simp_all add: rb_wf_def)
    have wf': "rb_wf rb'"
      unfolding rb_wf_def c' using W(3-8) l pos
      by (auto simp: rb'_def m rb_used_def split: if_splits)
    have used: "rb_used rb' = rb_used rb - l"
      unfolding rb_used_def c' using W(3-8) l
      by (auto simp: rb'_def m rb_used_def split: if_splits)
    have "rb_data rb' = drop l (rb_data rb)"
    proof (rule rb_data_eqI)
      show "rb_used rb' = length (drop l (rb_data rb))" using used by simp
      show "buffer_ptr rb' ! ((read_index rb' + i) mod rb_cap rb') = drop l (rb_data rb) ! i"
        if "i < length (drop l (rb_data rb))" for i
        using that by (simp add: c' nth_rb_data) (simp add: rb'_def mod_add_left_eq add.assoc)
    qed
    moreover have "drop l (rb_data rb) = drop n (rb_data rb)" "take l (rb_data rb) = take n (rb_data rb)"
      by (simp_all add: l_def min_def)
    moreover have "rb_copy_out l rb = Some (take l (rb_data rb), rb')"
    proof -
      have room: "u32_of (buffer_size rb - int ?r) = ?N - ?r" by (rule S(6)[OF W(5)])
      show ?thesis
      proof (cases "l < ?N - ?r")
        case True
        have "take l (drop ?r (buffer_ptr rb)) = take l (rb_data rb)"
          by (rule nth_equalityI) (use True l W(4) in \<open>simp_all add: nth_rb_data\<close>)
        moreover have "u31_of (?r + l) = ?r + l" using True W(2) by (simp add: u31_of_def)
        ultimately show ?thesis
          using True W(4) by (simp add: rb_copy_out_def room mem_read_ok Let_def rb'_def m)
      next
        case False
        define c where "c = ?N - ?r"
        have c: "c \<le> l" "?r + c = ?N" "\<not> l < c" using False W(5) by (auto simp: c_def)
        have rest: "u32_of (int l - int c) = l - c"
          using c(1) l W(2) by (subst u32_of_nat) (auto simp: of_nat_diff)
        have u: "u31_of (l - c) = l - c" using l W(2) by (simp add: u31_of_def)
        have "take c (drop ?r (buffer_ptr rb)) @ take (l - c) (drop 0 (buffer_ptr rb)) = take l (rb_data rb)"
        proof (rule nth_equalityI)
          have len: "length (take c (drop ?r (buffer_ptr rb))) = c" using c W(4) by simp
          show "length (take c (drop ?r (buffer_ptr rb)) @ take (l - c) (drop 0 (buffer_ptr rb))) =
              length (take l (rb_data rb))" using c l W(4) by simp
          show "(take c (drop ?r (buffer_ptr rb)) @ take (l - c) (drop 0 (buffer_ptr rb))) ! i =
              take l (rb_data rb) ! i"
            if "i < length (take c (drop ?r (buffer_ptr rb)) @ take (l - c) (drop 0 (buffer_ptr rb)))" for i
          proof -
            have i: "i < l" using that c l W(4) by simp
            then have "(?r + i) mod ?N = (if i < c then ?r + i else i - c)" using c l W(5) by (auto simp: mod_if)
            then show ?thesis using i c l W(4) by (simp add: nth_append nth_rb_data)
          qed
        qed
        then show ?thesis
          using c False l W(4) m by (simp add: rb_copy_out_def room c_def[symmetric] rest u mem_read_ok Let_def rb'_def)
      qed
    qed
    moreover have "(if rb_used rb < n then rb_used rb else n) = l" by (simp add: l_def min_def)
    ultimately show ?thesis
      using wf' c' False by (simp add: rt_ringbuffer_get_def S(3) Let_def)
  qed
qed

text \<open>A forced put keeps the last bytes of old and new together.\<close>

lemma put_force_correct:
  assumes wf: "rb_wf rb" and p: "n \<le> length ptr"
  shows "ok (rt_ringbuffer_put_force ptr n rb) (\<lambda>(r, rb'). rb_wf rb' \<and> rb_cap rb' = rb_cap rb \<and>
    r = min n (rb_cap rb) \<and>
    rb_data rb' = drop (rb_used rb + r - rb_cap rb) (rb_data rb @ drop (n - r) (take n ptr)))"
proof -
  note W = rb_wfD[OF wf] and S = rb_sizes[OF wf]
  let ?N = "rb_cap rb" and ?w = "write_index rb"
  define r where "r = min n ?N"
  define ptr' where "ptr' = drop (n - r) ptr"
  have r: "r \<le> ?N" "r \<le> length ptr'" using p by (auto simp: r_def ptr'_def)
  have tk: "take r ptr' = drop (n - r) (take n ptr)" by (simp add: ptr'_def drop_take r_def)
  have args: "(if n > u32_of (buffer_size rb) then (drop (n - u32_of (buffer_size rb)) ptr, u32_of (buffer_size rb))
      else (ptr, n)) = (ptr', r)"
    by (simp add: S(5) r_def ptr'_def)
  obtain buf where buf: "rb_copy_in ptr' r rb = Some (?N \<le> ?w + r, rb_written buf r rb)"
    "length buf = length (buffer_ptr rb)"
    "\<And>j. j < r \<Longrightarrow> buf ! ((?w + j) mod ?N) = ptr' ! j"
    "\<And>j. r \<le> j \<Longrightarrow> j < ?N \<Longrightarrow> buf ! ((?w + j) mod ?N) = buffer_ptr rb ! ((?w + j) mod ?N)"
    using copy_in_ok[OF wf r] unfolding rb_written_def by blast
  have data: "buf ! ((read_index rb + i) mod ?N) = (rb_data rb @ take r ptr') ! i"
    if "i < rb_used rb + r" "rb_used rb + r \<le> i + ?N" for i
    using copied_data[OF wf r, of buf i] buf(3,4) that by blast
  define rb1 where "rb1 = rb_written buf r rb"
  show ?thesis
  proof (cases "rb_used rb + r \<le> ?N")
    case True
    note wfn = rb_written_wf[OF wf True buf(2), folded rb1_def]
    have "rb_data rb1 = rb_data rb @ take r ptr'"
    proof (rule rb_data_eqI)
      show "rb_used rb1 = length (rb_data rb @ take r ptr')" using wfn(2) r(2) by simp
      show "buffer_ptr rb1 ! ((read_index rb1 + i) mod rb_cap rb1) = (rb_data rb @ take r ptr') ! i"
        if "i < length (rb_data rb @ take r ptr')" for i
        using data[of i] that r True by (simp add: rb1_def)
    qed
    moreover have "rt_ringbuffer_put_force ptr n rb = Some (r, rb1)"
      unfolding rt_ringbuffer_put_force_def Let_def args
      using buf(1) True by (simp add: S(4) rb1_def)
    ultimately show ?thesis using wfn(1) True by (simp add: tk r_def[symmetric]) (simp add: rb1_def)
  next
    case False
    define rb' where "rb' = rb1\<lparr>read_mirror := (if ?N \<le> ?w + r \<and> write_index rb1 \<le> read_index rb1
        then \<not> read_mirror rb1 else read_mirror rb1), read_index := write_index rb1\<rparr>"
    have code: "rt_ringbuffer_put_force ptr n rb = Some (r, rb')"
      unfolding rt_ringbuffer_put_force_def Let_def args
      using buf(1) False S(1) by (simp add: S(4) rb1_def[symmetric] rb'_def)
    have m: "(?w + r) mod ?N = (if ?N \<le> ?w + r then ?w + r - ?N else ?w + r)"
      using W(6) r(1) by (auto simp: mod_if)
    have c': "rb_cap rb' = ?N" by (simp add: rb'_def rb1_def rb_cap_def rb_written_def)
    have idx: "read_index rb' = (?w + r) mod ?N" "write_index rb' = (?w + r) mod ?N"
      "buffer_ptr rb' = buf" "buffer_size rb' = buffer_size rb"
      by (simp_all add: rb'_def rb1_def)
    have mir: "read_mirror rb' \<noteq> write_mirror rb'"
      using False W(5-8) r(1) m
      by (auto simp: rb'_def rb1_def rb_written_def rb_used_def split: if_splits)
    have pos: "0 < buffer_size rb" "buffer_size rb < 2 ^ 31" using wf by (simp_all add: rb_wf_def)
    have lt: "(?w + r) mod ?N < ?N" using W(3) by simp
    have wf': "rb_wf rb'" unfolding rb_wf_def c' idx using mir lt pos W(4) buf(2) by simp
    have used: "rb_used rb' = ?N" using mir lt by (simp add: rb_used_def c' idx)
    let ?xs = "drop (rb_used rb + r - ?N) (rb_data rb @ take r ptr')"
    have "rb_data rb' = ?xs"
    proof (rule rb_data_eqI)
      show "rb_used rb' = length ?xs" using used r False by simp
      show "buffer_ptr rb' ! ((read_index rb' + i) mod rb_cap rb') = ?xs ! i" if "i < length ?xs" for i
      proof -
        define j where "j = rb_used rb + r - ?N + i"
        have j: "j < rb_used rb + r" "rb_used rb + r \<le> j + ?N" "j + ?N = rb_used rb + r + i"
          using that r False by (auto simp: j_def)
        have "(read_index rb + j) mod ?N = (read_index rb + (j + ?N)) mod ?N" by (simp add: add.assoc[symmetric])
        also have "\<dots> = (?w + r + i) mod ?N"
          unfolding j(3) S(2)[symmetric] by (simp add: mod_add_left_eq add.assoc)
        finally have "(read_index rb + j) mod ?N = ((?w + r) mod ?N + i) mod ?N" by (simp add: mod_add_left_eq)
        then show ?thesis using data[OF j(1,2)] that by (simp add: c' idx j_def del: drop_append)
      qed
    qed
    then show ?thesis using code wf' c' by (simp add: tk r_def[symmetric])
  qed
qed

text \<open>A peek hands out the bytes up to the end of the pool, and takes them out of the buffer.\<close>

lemma peek_correct:
  assumes wf: "rb_wf rb"
  shows "case rt_ringbuffer_peek rb of (p, n, rb') \<Rightarrow> rb_wf rb' \<and> rb_data rb' = drop n (rb_data rb) \<and>
    (rb_data rb = [] \<longrightarrow> p = None \<and> n = 0) \<and>
    (rb_data rb \<noteq> [] \<longrightarrow> 0 < n \<and> n \<le> length (rb_data rb) \<and>
       (\<exists>r. p = Some r \<and> r + n \<le> rb_cap rb \<and> take n (drop r (buffer_ptr rb)) = take n (rb_data rb)))"
proof -
  note W = rb_wfD[OF wf] and S = rb_sizes[OF wf]
  let ?N = "rb_cap rb" and ?r = "read_index rb"
  have room: "u32_of (buffer_size rb - int ?r) = ?N - ?r" by (rule S(6)[OF W(5)])
  show ?thesis
  proof (cases "rb_used rb = 0")
    case True
    then have "rb_data rb = []" by (simp add: rb_data_def)
    then show ?thesis using wf True by (simp add: rt_ringbuffer_peek_def S(3) Let_def)
  next
    case False
    define n where "n = (if ?N - ?r > rb_used rb then rb_used rb else ?N - ?r)"
    have n: "0 < n" "n \<le> rb_used rb" "?r + n \<le> ?N" using False W(5) by (auto simp: n_def)
    obtain xs rb' where g: "rt_ringbuffer_get n rb = Some (xs, rb')" "rb_wf rb' \<and> rb_cap rb' = ?N \<and>
        xs = take n (rb_data rb) \<and> rb_data rb' = drop n (rb_data rb)"
      using get_correct[OF wf, of n] by (rule ok_pairE)
    have "rt_ringbuffer_get n rb = rb_copy_out n rb"
      using False n by (simp add: rt_ringbuffer_get_def S(3) Let_def)
    then have out: "rb_copy_out n rb = Some (xs, rb')" using g(1) by simp
    have "rt_ringbuffer_peek rb = (Some ?r, n, rb')"
    proof (cases "rb_used rb < ?N - ?r")
      case True
      then have "n = rb_used rb" by (simp add: n_def)
      then show ?thesis
        using out True False W(4) by (simp add: rt_ringbuffer_peek_def S(3) room rb_copy_out_def mem_read_ok Let_def)
    next
      case long: False
      then have nr: "?N - ?r = n" by (simp add: n_def)
      have "rb' = rb\<lparr>read_mirror := \<not> read_mirror rb, read_index := 0\<rparr>"
        using out n(3) W(4) unfolding rb_copy_out_def room nr Let_def
        by (auto simp: mem_read_ok u32_of_def u31_of_def)
      then show ?thesis using long False unfolding rt_ringbuffer_peek_def S(3) room nr Let_def by auto
    qed
    moreover have "take n (drop ?r (buffer_ptr rb)) = take n (rb_data rb)"
      by (rule nth_equalityI) (use n W(4,5) in \<open>auto simp: nth_rb_data\<close>)
    moreover have "rb_data rb \<noteq> []" using False by (simp flip: length_0_conv)
    ultimately show ?thesis using n g(2) by simp
  qed
qed

section \<open>Single bytes\<close>

text \<open>The operations on single bytes are those on blocks of length one.\<close>

lemma mem_write_nil [simp]: "mem_write 0 [] xs = Some xs"
  by (simp add: mem_write_def)

lemma u32_of_0 [simp]: "u32_of 0 = 0"
  by (simp add: u32_of_def)

lemma last_index: "rb_wf rb \<Longrightarrow> i < rb_cap rb \<Longrightarrow> int i = buffer_size rb - 1 \<longleftrightarrow> rb_cap rb - i = 1"
  using rb_wfD(1)[of rb] by linarith

lemma copy_in_one:
  assumes wf: "rb_wf rb"
  shows "rb_copy_in [ch] 1 rb = do {
    buf \<leftarrow> mem_write (write_index rb) [ch] (buffer_ptr rb);
    let rb1 = rb\<lparr>buffer_ptr := buf\<rparr>;
    Some (if int (write_index rb1) = buffer_size rb1 - 1
      then (True, rb1\<lparr>write_mirror := \<not> write_mirror rb1, write_index := 0\<rparr>)
      else (False, rb1\<lparr>write_index := u31_of (write_index rb1 + 1)\<rparr>))
  }"
proof -
  note W = rb_wfD[OF wf]
  have room: "u32_of (buffer_size rb - int (write_index rb)) = rb_cap rb - write_index rb"
    by (rule rb_sizes(6)[OF wf W(6)])
  show ?thesis
  proof (cases "rb_cap rb - write_index rb = 1")
    case True
    then have room1: "u32_of (buffer_size rb - int (write_index rb)) = 1" using room by simp
    show ?thesis
      using last_index[OF wf W(6)] True unfolding rb_copy_in_def room1 Let_def
      by (auto simp: mem_read_def u31_of_def intro!: arg_cong2[where f = Option.bind])
  next
    case False
    then have "1 < rb_cap rb - write_index rb" using W(6) by linarith
    then show ?thesis
      using last_index[OF wf W(6)] False unfolding rb_copy_in_def room Let_def
      by (auto simp: mem_read_def intro!: arg_cong2[where f = Option.bind])
  qed
qed

lemma putchar_put:
  assumes wf: "rb_wf rb"
  shows "rt_ringbuffer_putchar ch rb = rt_ringbuffer_put [ch] 1 rb"
proof (cases "rt_ringbuffer_space_len rb = 0")
  case False
  then show ?thesis
    using copy_in_one[OF wf, of ch]
    by (cases "mem_write (write_index rb) [ch] (buffer_ptr rb)")
      (simp_all add: rt_ringbuffer_putchar_def rt_ringbuffer_put_def Let_def)
qed (simp add: rt_ringbuffer_putchar_def rt_ringbuffer_put_def)

lemma status_full:
  assumes "rb_wf rb"
  shows "rt_ringbuffer_status rb = RT_RINGBUFFER_FULL \<longleftrightarrow> rb_used rb = rb_cap rb"
  using rb_wfD[OF assms] by (auto simp: rt_ringbuffer_status_def rb_used_def)

lemma putchar_force_put_force:
  assumes wf: "rb_wf rb"
  shows "rt_ringbuffer_putchar_force ch rb = rt_ringbuffer_put_force [ch] 1 rb"
proof -
  note S = rb_sizes[OF wf]
  have sp: "1 > rt_ringbuffer_space_len rb \<longleftrightarrow> rt_ringbuffer_status rb = RT_RINGBUFFER_FULL"
    using S(1) by (auto simp: S(4) status_full[OF wf])
  have "\<not> 1 > u32_of (buffer_size rb)" using rb_wfD(3)[OF wf] by (simp add: S(5))
  then show ?thesis
    unfolding rt_ringbuffer_putchar_force_def rt_ringbuffer_put_force_def Let_def sp[symmetric]
    using copy_in_one[OF wf, of ch]
    by (cases "mem_write (write_index rb) [ch] (buffer_ptr rb)") (simp_all add: Let_def)
qed

lemma getchar_get:
  assumes wf: "rb_wf rb"
  shows "rt_ringbuffer_getchar rb = map_option (\<lambda>(xs, rb'). (case xs of [] \<Rightarrow> None | x # _ \<Rightarrow> Some x, rb'))
    (rt_ringbuffer_get 1 rb)"
proof -
  note W = rb_wfD[OF wf] and S = rb_sizes[OF wf]
  have room: "u32_of (buffer_size rb - int (read_index rb)) = rb_cap rb - read_index rb" by (rule S(6)[OF W(5)])
  show ?thesis
  proof (cases "rb_used rb = 0")
    case True
    then show ?thesis by (simp add: rt_ringbuffer_getchar_def rt_ringbuffer_get_def S(3))
  next
    case False
    obtain x xs where x: "drop (read_index rb) (buffer_ptr rb) = x # xs"
      using W(4,5) by (cases "drop (read_index rb) (buffer_ptr rb)") auto
    have r: "mem_read (read_index rb) 1 (buffer_ptr rb) = Some [x]" using W(4,5) x by (simp add: mem_read_def)
    have g: "rt_ringbuffer_get 1 rb = rb_copy_out 1 rb" using False by (simp add: rt_ringbuffer_get_def S(3) Let_def)
    show ?thesis
    proof (cases "rb_cap rb - read_index rb = 1")
      case True
      then have room1: "u32_of (buffer_size rb - int (read_index rb)) = 1" using room by simp
      show ?thesis
        using last_index[OF wf W(5)] True False r
        unfolding g rt_ringbuffer_getchar_def rb_copy_out_def room1 Let_def
        by (simp add: S(3) mem_read_def u31_of_def)
    next
      case nl: False
      then have "1 < rb_cap rb - read_index rb" using W(5) by linarith
      then show ?thesis
        using last_index[OF wf W(5)] nl False r
        unfolding g rt_ringbuffer_getchar_def rb_copy_out_def room Let_def by (simp add: S(3))
    qed
  qed
qed

lemma init_correct:
  assumes "8 \<le> s" "s < 2 ^ 31" "nat s \<le> length pool"
  shows "ok (rt_ringbuffer_init pool s) (\<lambda>rb. rb_wf rb \<and> rb_data rb = [] \<and> int (rb_cap rb) = s - s mod 8)"
proof -
  have "0 < s - s mod 8" "s - s mod 8 \<le> s" using assms(1) pos_mod_bound[of 8 s] pos_mod_sign[of 8 s] by linarith+
  then show ?thesis
    using assms by (auto simp: rt_ringbuffer_init_def rb_wf_def rb_cap_def rb_data_def rb_used_def)
qed

interpretation rb: byte_buffer rb_wf rb_data rb_cap rt_ringbuffer_put rt_ringbuffer_get
  by unfold_locales (simp_all add: put_correct get_correct rb_sizes(1))

section \<open>Properties\<close>

text \<open>C23: Whatever sequence of puts and gets is made on an empty ring buffer, no access leaves the pool,
  and the bytes accepted are the bytes delivered followed by those still in the buffer, which fit in it.\<close>
theorem ringbuffer_is_byte_stream:
  assumes "rb_wf q" "rb_data q = []"
  shows "ok (rb.run xs q) (\<lambda>(a, d, q'). rb_wf q' \<and> a = d @ rb_data q' \<and> length (rb_data q') \<le> rb_cap q)"
  by (rule rb.stream_from_empty[OF assms])

definition example_ring :: rt_ringbuffer where
  "example_ring = \<lparr>buffer_ptr = replicate 10 0, read_mirror = False, read_index = 6, write_mirror = False,
     write_index = 6, buffer_size = 8\<rparr>"

lemma example_ring_wf: "rb_wf example_ring" "rb_data example_ring = []"
  by (simp_all add: rb_wf_def rb_cap_def rb_data_def rb_used_def example_ring_def)

theorem ringbuffer_is_byte_stream_witness:
  "ok (rb.run [PutAll [1, 2, 3, 4, 5], GetUpTo 3, PutAll [6, 7, 8, 9, 10, 11, 12], GetUpTo 20] example_ring)
    (\<lambda>(a, d, q'). rb_wf q' \<and> a = d @ rb_data q' \<and> length (rb_data q') \<le> rb_cap example_ring)"
  by (rule ringbuffer_is_byte_stream[OF example_ring_wf])

text \<open>A forced put accepts everything up to the capacity, and the buffer then holds the last bytes of
  the old contents and the new ones, dropping the oldest. The operations on single bytes are the block
  operations with length one.\<close>
theorem put_force_keeps_last:
  assumes "rb_wf rb" "n \<le> length ptr"
  shows "ok (rt_ringbuffer_put_force ptr n rb) (\<lambda>(r, rb'). rb_wf rb' \<and> rb_cap rb' = rb_cap rb \<and>
      r = min n (rb_cap rb) \<and>
      rb_data rb' = drop (rb_used rb + r - rb_cap rb) (rb_data rb @ drop (n - r) (take n ptr))) \<and>
    rt_ringbuffer_putchar_force ch rb = rt_ringbuffer_put_force [ch] 1 rb \<and>
    rt_ringbuffer_putchar ch rb = rt_ringbuffer_put [ch] 1 rb"
  by (intro conjI put_force_correct[OF assms] putchar_force_put_force[OF assms(1)] putchar_put[OF assms(1)])

theorem put_force_keeps_last_witness:
  "ok (rt_ringbuffer_put_force [1, 2, 3, 4, 5, 6, 7, 8, 9, 10] 10 example_ring) (\<lambda>(r, rb'). rb_wf rb' \<and>
      rb_cap rb' = rb_cap example_ring \<and> r = min 10 (rb_cap example_ring) \<and>
      rb_data rb' = drop (rb_used example_ring + r - rb_cap example_ring)
        (rb_data example_ring @ drop (10 - r) (take 10 [1, 2, 3, 4, 5, 6, 7, 8, 9, 10]))) \<and>
    rt_ringbuffer_putchar_force 0 example_ring = rt_ringbuffer_put_force [0] 1 example_ring \<and>
    rt_ringbuffer_putchar 0 example_ring = rt_ringbuffer_put [0] 1 example_ring"
  by (rule put_force_keeps_last[OF example_ring_wf(1)]) simp

end
