(* ===== verification/ThreadEnd.thy ===== *)
theory ThreadEnd
  imports Mutex
begin

text \<open>
  The end of a thread (\<open>rt_thread_detach\<close>, \<open>rt_thread_delete\<close> and \<open>_thread_exit\<close> of \<open>src/thread.c\<close>), the
  list of dead threads and its clean-up by the idle thread (\<open>src/idle.c\<close>), and \<open>rt_thread_control\<close>.
\<close>

section \<open>Operations\<close>

definition rt_thread_defunct_enqueue :: "tid \<Rightarrow> kernel \<Rightarrow> kernel" where
  "rt_thread_defunct_enqueue t k = k\<lparr>queues := q_push_front Defunct t (queues k)\<rparr>"

definition rt_thread_defunct_dequeue :: "kernel \<Rightarrow> tid option \<times> kernel" where
  "rt_thread_defunct_dequeue k =
     (case queues k Defunct of
        [] \<Rightarrow> (None, k)
      | t # _ \<Rightarrow> (Some t, k\<lparr>queues := q_remove t (queues k)\<rparr>))"

text \<open>The clean-up of dead threads; \<open>cleanup\<close> calls the function the thread has set, if any.\<close>

partial_function (option) rt_defunct_execute :: "(tid \<Rightarrow> kernel \<Rightarrow> kernel option) \<Rightarrow> kernel \<Rightarrow> kernel option" where
  "rt_defunct_execute cleanup k =
     (case rt_thread_defunct_dequeue k of
        (None, k1) \<Rightarrow> Some k1
      | (Some t, k1) \<Rightarrow> do { k2 \<leftarrow> cleanup t k1; rt_defunct_execute cleanup k2 })"

definition close_stat :: "tid \<Rightarrow> kernel \<Rightarrow> kernel" where
  "close_stat t k = upd_thread t (\<lambda>th. th\<lparr>stat := RT_THREAD_CLOSE\<rparr>) (rt_timer_detach (ThreadTimer t) k)"

definition thread_exit :: "kernel \<Rightarrow> kernel option" where
  "thread_exit k =
     do {
       t \<leftarrow> rt_thread_self k;
       rt_schedule (rt_thread_defunct_enqueue t (close_stat t (rt_schedule_remove_thread t k)))
     }"

text \<open>The common body of \<open>rt_thread_detach\<close> and \<open>rt_thread_delete\<close>.\<close>

definition close_thread :: "tid \<Rightarrow> kernel \<Rightarrow> (rt_err_t \<times> kernel) option" where
  "close_thread t k =
     (if tstat k t = RT_THREAD_CLOSE then Some (RT_EOK, k)
      else do {
        let k1 = close_stat t (if tstat k t \<noteq> RT_THREAD_INIT then rt_schedule_remove_thread t k else k);
        k2 \<leftarrow> (case pending_object (threads k1 t) of
                None \<Rightarrow> Some k1
              | Some m \<Rightarrow> do {
                  k' \<leftarrow> rt_mutex_drop_thread m t k1;
                  Some (upd_thread t (\<lambda>th. th\<lparr>pending_object := None\<rparr>) k')
                });
        Some (RT_EOK, rt_thread_defunct_enqueue t k2)
      })"

definition rt_thread_detach :: "tid \<Rightarrow> kernel \<Rightarrow> (rt_err_t \<times> kernel) option" where
  "rt_thread_detach t k = do { rt_assert (static_object (threads k t)); close_thread t k }"

definition rt_thread_delete :: "tid \<Rightarrow> kernel \<Rightarrow> (rt_err_t \<times> kernel) option" where
  "rt_thread_delete t k = do { rt_assert (\<not> static_object (threads k t)); close_thread t k }"

datatype thread_cmd = ChangePriority u8 | Startup | Close | OtherCmd

definition rt_thread_control :: "tid \<Rightarrow> thread_cmd \<Rightarrow> kernel \<Rightarrow> (rt_err_t \<times> kernel) option" where
  "rt_thread_control t cmd k =
     (case cmd of
        ChangePriority p \<Rightarrow> Some (RT_EOK, change_priority t p k)
      | Startup \<Rightarrow> rt_thread_startup t k
      | Close \<Rightarrow> do {
          (e, k1) \<leftarrow> (if static_object (threads k t) then rt_thread_detach t k else rt_thread_delete t k);
          k2 \<leftarrow> rt_schedule k1;
          Some (e, k2)
        }
      | OtherCmd \<Rightarrow> Some (RT_EOK, k))"

section \<open>Closing a thread\<close>

text \<open>A thread taken off its list, without timer and closed; the dead threads are not counted yet.\<close>

definition closing :: "tid \<Rightarrow> kernel \<Rightarrow> kernel" where
  "closing t k = close_stat t (if tstat k t \<noteq> RT_THREAD_INIT then rt_schedule_remove_thread t k else k)"

lemma close_stat_frame [simp]:
  "queues (close_stat t k) = queues k" "cur (close_stat t k) = cur k" "tick (close_stat t k) = tick k"
  "lock_nest (close_stat t k) = lock_nest k" "interrupt_nest (close_stat t k) = interrupt_nest k"
  "objects (close_stat t k) = objects k" "mutexes (close_stat t k) = mutexes k"
  "ready_group (close_stat t k) = ready_group k"
  "threads (close_stat t k) u = (if u = t then (threads k t)\<lparr>stat := RT_THREAD_CLOSE\<rparr> else threads k u)"
  using timer_onlyD[OF timer_only_ops(3)[where k = k and x = "ThreadTimer t"]]
  by (simp_all add: close_stat_def objects_def)

lemma remove_thread_frame:
  "threads (rt_schedule_remove_thread t k) = threads k" "cur (rt_schedule_remove_thread t k) = cur k"
  "queues (rt_schedule_remove_thread t k) = q_remove t (queues k)"
  "objects (rt_schedule_remove_thread t k) = objects k" "tick (rt_schedule_remove_thread t k) = tick k"
  "timers (rt_schedule_remove_thread t k) = timers k" "timer_lists (rt_schedule_remove_thread t k) = timer_lists k"
  by (simp_all add: rt_schedule_remove_thread_def Let_def objects_def)

lemma closing_frame:
  assumes "kinv k"
  shows "threads (closing t k) u = (if u = t then (threads k t)\<lparr>stat := RT_THREAD_CLOSE\<rparr> else threads k u)"
    "cur (closing t k) = cur k" "objects (closing t k) = objects k" "mutexes (closing t k) = mutexes k"
    "tstat k t \<noteq> RT_THREAD_CLOSE \<Longrightarrow> queues (closing t k) = q_remove t (queues k)"
    "tick (closing t k) = tick k"
proof -
  show "threads (closing t k) u = (if u = t then (threads k t)\<lparr>stat := RT_THREAD_CLOSE\<rparr> else threads k u)"
    "cur (closing t k) = cur k" "objects (closing t k) = objects k" "tick (closing t k) = tick k"
    by (simp_all add: closing_def remove_thread_frame)
  then show "mutexes (closing t k) = mutexes k" by (auto dest: objectsD(2))
  have q: "qinv {} k" using assms by (simp add: kinv_def)
  show "queues (closing t k) = q_remove t (queues k)" if "tstat k t \<noteq> RT_THREAD_CLOSE"
  proof (cases "tstat k t = RT_THREAD_INIT")
    case True
    have "unlinked t (queues k)"
      using True that suspended_codes(1)[OF True] by (intro state_unlinked[OF q]) simp_all
    then show ?thesis using True by (simp add: closing_def q_remove_unlinked)
  qed (simp add: closing_def remove_thread_frame)
qed

lemma tinv_close:
  assumes ti: "tinv b k"
  shows "tinv b (close_stat t k)" "\<not> activated (close_stat t k) (ThreadTimer t)"
proof -
  let ?k1 = "rt_timer_detach (ThreadTimer t) k"
  have t1: "tinv b ?k1" unfolding rt_timer_detach_def by (rule tinv_stop[OF ti])
  have na: "\<not> activated ?k1 (ThreadTimer t)" unfolding rt_timer_detach_def by (rule activated_deactivate)
  show "\<not> activated (close_stat t k) (ThreadTimer t)" using na by (simp add: close_stat_def activated_def)
  show "tinv b (close_stat t k)"
  proof (rule tinv_threads[OF t1])
    fix u
    assume a: "activated ?k1 (ThreadTimer u)" "suspended ?k1 u"
    then have "u \<noteq> t" using na by auto
    then show "suspended (close_stat t k) u" using a(2) by (simp add: suspended_def)
  qed (simp_all add: close_stat_def)
qed

lemma closing_sys:
  assumes inv: "sysinv b k" and nc: "tstat k t \<noteq> RT_THREAD_CLOSE"
  shows "sysinv b (closing t k)" "unlinked t (queues (closing t k))" "tstat (closing t k) t = RT_THREAD_CLOSE"
    "u \<noteq> t \<Longrightarrow> suspended (closing t k) u = suspended k u" "\<not> suspended (closing t k) t"
    "\<not> activated (closing t k) (ThreadTimer t)"
proof -
  have ki: "kinv k" and q: "qinv {} k" and ci: "cinv k" and ti: "tinv b k"
    using inv by (auto simp: sysinv_def kinv_def)
  define k1 where "k1 = (if tstat k t \<noteq> RT_THREAD_INIT then rt_schedule_remove_thread t k else k)"
  have th1: "threads k1 = threads k" "cur k1 = cur k" "timers k1 = timers k" "timer_lists k1 = timer_lists k"
    "tick k1 = tick k" by (simp_all add: k1_def remove_thread_frame)
  have ti1: "tinv b k1" by (rule tinv_threads[OF ti]) (simp_all add: th1 suspended_def)
  have q1: "qinv {t} k1"
  proof (cases "tstat k t = RT_THREAD_INIT")
    case True
    have "unlinked t (queues k)"
      using True nc suspended_codes(1)[OF True] by (intro state_unlinked[OF q]) simp_all
    then show ?thesis using True qinv_begin[OF q] by (simp add: k1_def)
  qed (use qinv_remove[OF q] in \<open>simp add: k1_def\<close>)
  let ?f = "\<lambda>th. th\<lparr>stat := RT_THREAD_CLOSE\<rparr>"
  have c: "closing t k = close_stat t k1" by (simp add: closing_def k1_def)
  note D = qinvD[OF q1]
  have "qinv {t} (rt_timer_detach (ThreadTimer t) k1)"
    using q1 timer_only_kinv(5)[OF timer_only_ops(3), of "{t}"] by simp
  then have q2: "qinv {t} (closing t k)"
    unfolding c close_stat_def
    using D(10,11)[of t] by (intro qinv_upd) (auto simp: prio_def)
  have st: "tstat (closing t k) u = (if u = t then RT_THREAD_CLOSE else tstat k u)" for u
    unfolding c by (simp add: tstat_def th1)
  show "tstat (closing t k) t = RT_THREAD_CLOSE" by (simp add: st)
  show "unlinked t (queues (closing t k))" by (rule qinv_unlinked[OF q2])
  show "u \<noteq> t \<Longrightarrow> suspended (closing t k) u = suspended k u" "\<not> suspended (closing t k) t"
    by (simp_all add: suspended_tstat st)
  have "qinv {} (closing t k)" using qinv_settle[OF q2] by (simp add: st)
  moreover have "cinv (closing t k)" using ci by (auto simp: cinv_def st closing_frame(2)[OF ki])
  ultimately show "sysinv b (closing t k)" unfolding sysinv_def kinv_def c using tinv_close(1)[OF ti1] by simp
  show "\<not> activated (closing t k) (ThreadTimer t)" unfolding c by (rule tinv_close(2)[OF ti1])
qed

text \<open>The mutexes do not miss the thread: it only leaves the waiters of one of them.\<close>

lemma closing_mutex:
  assumes inv: "sysinv b k" and nc: "tstat k t \<noteq> RT_THREAD_CLOSE"
    and mi: "mutex_inv k" and pi: "pi_inv k" and rk: "ranked r k"
  shows "mutex_inv (closing t k)" "pi_inv (closing t k)" "ranked r (closing t k)"
proof -
  have ki: "kinv k" by (rule sysinv_kinv[OF inv])
  note F = closing_frame[OF ki] and S = closing_sys[OF inv nc] and M = mutex_invD[OF mi]
  have q: "queues (closing t k) (MutexQ m) = removeAll t (queues k (MutexQ m))" for m
    by (simp add: F(5)[OF nc] q_remove_def)
  have su: "suspended (closing t k) u \<longleftrightarrow> u \<noteq> t \<and> suspended k u" for u
    using S(4)[of u] S(5) by (cases "u = t") simp_all
  have th: "init_priority (threads (closing t k) u) = init_priority (threads k u)"
    "current_priority (threads (closing t k) u) = current_priority (threads k u)"
    "taken_object_list (threads (closing t k) u) = taken_object_list (threads k u)"
    "pending_object (threads (closing t k) u) = pending_object (threads k u)" for u
    by (simp_all add: F(1))
  show "mutex_inv (closing t k)"
    unfolding mutex_inv_def th su q F(4)
    using M by (auto simp: M(3)[symmetric])
  have srt: "sorted (map f (removeAll t xs))" if "sorted (map f xs)" for f :: "tid \<Rightarrow> u8" and xs
    unfolding removeAll_filter_not_eq using that by (rule sorted_filter)
  show "pi_inv (closing t k)"
    using pi srt unfolding pi_inv_def waiters_ok_def owner_ok_def th q F(4) by auto
  have "waits_for k u ow" if "waits_for (closing t k) u ow" for u ow
    using that by (auto simp: waits_for_def q F(4))
  then show "ranked r (closing t k)" using rk by (auto simp: ranked_def)
qed

text \<open>A closed thread in no queue may join the dead ones.\<close>

lemma defunct_sys:
  assumes inv: "sysinv b k" and t: "tstat k t = RT_THREAD_CLOSE" "unlinked t (queues k)"
  shows "sysinv b (rt_thread_defunct_enqueue t k)"
proof -
  let ?k = "rt_thread_defunct_enqueue t k"
  have q: "qinv {} k" and ci: "cinv k" and ti: "tinv b k" using inv by (auto simp: sysinv_def kinv_def)
  note D = qinvD[OF q]
  have u: "t \<notin> set (queues k g)" for g using t(2) by (simp add: unlinked_def)
  have qs: "queues ?k g = (if g = Defunct then t # queues k Defunct else queues k g)" for g
    by (simp add: rt_thread_defunct_enqueue_def q_push_front_def)
  have s: "tstat ?k v = tstat k v" "suspended ?k v = suspended k v" "prio ?k v = prio k v"
    "threads ?k = threads k" "ready_group ?k = ready_group k" "cur ?k = cur k" for v
    by (simp_all add: rt_thread_defunct_enqueue_def tstat_def suspended_def prio_def)
  have "qinv {} ?k"
  proof (rule qinvI)
    show "distinct (queues ?k g)" for g using D(1)[of g] D(1)[of Defunct] u[of Defunct] by (simp add: qs)
    show "v \<in> set (queues ?k g) \<Longrightarrow> v \<in> set (queues ?k h) \<Longrightarrow> g = h" for g h v
      using D(2)[of v g h] u[of g] u[of h] D(2)[of v g Defunct] D(2)[of v Defunct h]
      by (auto simp: qs split: if_splits)
    show "bit (ready_group ?k) p \<longleftrightarrow> queues ?k (Ready p) \<noteq> []" for p using D(4)[of p] by (simp add: qs s)
    show "v \<in> set (queues ?k (Ready p)) \<Longrightarrow> tstat ?k v = RT_THREAD_READY \<and> prio ?k v = p" for v p
      using D(5,6)[of v p] by (simp add: qs s)
    show "v \<notin> {} \<Longrightarrow> tstat ?k v = RT_THREAD_READY \<Longrightarrow> v \<in> set (queues ?k (Ready (prio ?k v)))" for v
      using D(7)[of v] by (simp add: qs s)
    show "waitq g \<Longrightarrow> v \<in> set (queues ?k g) \<Longrightarrow> suspended ?k v" for v g
      using D(8)[of g v] by (auto simp: qs s waitq_def)
    show "v \<in> set (queues ?k Defunct) \<Longrightarrow> tstat ?k v = RT_THREAD_CLOSE" for v
      using D(9)[of v] t(1) by (auto simp: qs s)
    show "prio ?k v < 32" for v unfolding s by (rule D(10))
    show "number_mask (threads ?k v) \<in> {0, 2 ^ prio ?k v}" for v unfolding s using D(11)[of v] by simp
    show "tstat ?k v \<noteq> RT_THREAD_INIT \<Longrightarrow> tstat ?k v \<noteq> RT_THREAD_CLOSE \<Longrightarrow>
        number_mask (threads ?k v) = 2 ^ prio ?k v" for v unfolding s using D(12)[of v] by simp
  qed simp
  moreover have "cinv ?k" using ci by (simp add: cinv_def s)
  moreover have "tinv b ?k"
    by (rule tinv_threads[OF ti]) (simp_all add: rt_thread_defunct_enqueue_def suspended_def)
  ultimately show ?thesis by (simp add: sysinv_def kinv_def)
qed

lemma clear_pending_ok:
  assumes "\<not> suspended k t"
  shows "sysinv b (upd_thread t (\<lambda>th. th\<lparr>pending_object := None\<rparr>) k) = sysinv b k"
    "mutex_inv k \<Longrightarrow> mutex_inv (upd_thread t (\<lambda>th. th\<lparr>pending_object := None\<rparr>) k)"
    "pi_inv (upd_thread t (\<lambda>th. th\<lparr>pending_object := None\<rparr>) k) = pi_inv k"
proof -
  let ?k = "upd_thread t (\<lambda>th. th\<lparr>pending_object := None\<rparr>) k"
  show "sysinv b ?k = sysinv b k" by (rule sysinv_threads_cong) simp_all
  have s: "suspended ?k u = suspended k u" for u by (simp add: sysinv_upd_keep tstat_def)
  show "mutex_inv k \<Longrightarrow> mutex_inv ?k" using assms unfolding mutex_inv_def s by auto
  show "pi_inv ?k = pi_inv k" by (rule pi_cong) simp_all
qed

lemma defunct_mutex [simp]:
  "mutex_inv (rt_thread_defunct_enqueue t k) = mutex_inv k" "pi_inv (rt_thread_defunct_enqueue t k) = pi_inv k"
  by (rule mutex_cong; simp add: rt_thread_defunct_enqueue_def q_push_front_def suspended_def)+

text \<open>What has become of a thread that was closed.\<close>

definition thread_closed :: "tid \<Rightarrow> kernel \<Rightarrow> kernel \<Rightarrow> bool" where
  "thread_closed t k k' \<longleftrightarrow>
     tstat k' t = RT_THREAD_CLOSE \<and> cur k' = cur k \<and>
     queues k' Defunct = (if tstat k t = RT_THREAD_CLOSE then queues k Defunct else t # queues k Defunct) \<and>
     (\<forall>g. g \<noteq> Defunct \<longrightarrow> t \<notin> set (queues k' g)) \<and> \<not> activated k' (ThreadTimer t) \<and>
     (\<forall>m. set (queues k' (MutexQ m)) = set (queues k (MutexQ m)) - {t}) \<and>
     (\<forall>m. owner (mutexes k' m) = owner (mutexes k m))"

lemma closed_not_waiting:
  assumes "sysinv b k" "tstat k t = RT_THREAD_CLOSE"
  shows "g \<noteq> Defunct \<Longrightarrow> t \<notin> set (queues k g)" "\<not> activated k (ThreadTimer t)"
proof -
  have q: "qinv {} k" and ti: "tinv b k" using assms(1) by (auto simp: sysinv_def kinv_def)
  have s: "\<not> suspended k t" by (rule suspended_codes(2)[OF assms(2)])
  show "\<not> activated k (ThreadTimer t)" using ti s by (auto simp: tinv_def)
  show "g \<noteq> Defunct \<Longrightarrow> t \<notin> set (queues k g)"
    using qinvD(5)[OF q, of t] qinvD(8)[OF q, of g t] assms(2) s by (cases g) (auto simp: waitq_def)
qed

lemma close_thread_correct:
  assumes inv: "sysinv b k" and mi: "mutex_inv k" and pi: "pi_inv k" and rk: "ranked r k"
  shows "ok (close_thread t k) (\<lambda>(e, k'). e = RT_EOK \<and> sysinv b k' \<and> mutex_inv k' \<and> pi_inv k' \<and>
    thread_closed t k k')"
proof (cases "tstat k t = RT_THREAD_CLOSE")
  case True
  then show ?thesis
    using inv mi pi closed_not_waiting[OF inv True]
    by (simp add: close_thread_def thread_closed_def)
next
  case nc: False
  define k1 where "k1 = closing t k"
  have ki: "kinv k" by (rule sysinv_kinv[OF inv])
  note F = closing_frame[OF ki, where t = t, folded k1_def] and S = closing_sys[OF inv nc, folded k1_def]
    and C = closing_mutex[OF inv nc mi pi rk, folded k1_def]
  have def0: "queues k1 Defunct = queues k Defunct"
  proof -
    have "t \<notin> set (queues k Defunct)" using qinvD(9)[of "{}" k t] ki nc by (auto simp: kinv_def)
    then show ?thesis by (simp add: F(5)[OF nc] q_remove_def removeAll_id)
  qed
  have "\<exists>k2. (case pending_object (threads k1 t) of
                None \<Rightarrow> Some k1
              | Some m \<Rightarrow> do {
                  k' \<leftarrow> rt_mutex_drop_thread m t k1;
                  Some (upd_thread t (\<lambda>th. th\<lparr>pending_object := None\<rparr>) k')
                }) = Some k2 \<and> sysinv b k2 \<and> mutex_inv k2 \<and> pi_inv k2 \<and> tstat k2 t = RT_THREAD_CLOSE \<and>
      cur k2 = cur k1 \<and> queues k2 Defunct = queues k1 Defunct \<and>
      (\<forall>m. set (queues k2 (MutexQ m)) = set (queues k1 (MutexQ m))) \<and>
      (\<forall>m. owner (mutexes k2 m) = owner (mutexes k1 m))"
  proof (cases "pending_object (threads k1 t)")
    case None
    then show ?thesis using S(1,3) C(1,2) by simp
  next
    case (Some m)
    obtain k' where k': "mutex_withdraw m t k1 = Some k'" "sysinv b k'" "mutex_inv k'" "pi_inv k'" "pi_frame k1 k'"
      by (rule withdraw_ok[OF S(1) C])
    note P = pi_frameD[OF k'(5)]
    have drop: "rt_mutex_drop_thread m t k1 = Some k'"
      using k'(1) by (simp add: rt_mutex_drop_thread_def q_remove_unlinked[OF S(2)])
    have ns: "\<not> suspended k' t" using P(15)[of t] S(5) by simp
    have tt: "tstat (upd_thread t (\<lambda>th. th\<lparr>pending_object := None\<rparr>) k') t = RT_THREAD_CLOSE"
      using P(14)[of t] S(3) by (simp add: tstat_def)
    show ?thesis
      using Some drop clear_pending_ok[OF ns] k'(2-4) tt P(1,9,13,18) by (simp add: waitq_def)
  qed
  then obtain k2 where k2: "(case pending_object (threads k1 t) of
                None \<Rightarrow> Some k1
              | Some m \<Rightarrow> do {
                  k' \<leftarrow> rt_mutex_drop_thread m t k1;
                  Some (upd_thread t (\<lambda>th. th\<lparr>pending_object := None\<rparr>) k')
                }) = Some k2" "sysinv b k2" "mutex_inv k2" "pi_inv k2" "tstat k2 t = RT_THREAD_CLOSE"
      "cur k2 = cur k1" "queues k2 Defunct = queues k1 Defunct"
      "\<And>m. set (queues k2 (MutexQ m)) = set (queues k1 (MutexQ m))"
      "\<And>m. owner (mutexes k2 m) = owner (mutexes k1 m)"
    by blast
  let ?k' = "rt_thread_defunct_enqueue t k2"
  have "t \<notin> set (queues k2 Defunct)" using S(2) by (simp add: k2(7) unlinked_def)
  then have "unlinked t (queues k2)"
    using closed_not_waiting(1)[OF k2(2,5)] by (metis unlinked_def)
  then have s': "sysinv b ?k'" by (rule defunct_sys[OF k2(2,5)])
  have t': "tstat ?k' t = RT_THREAD_CLOSE" using k2(5) by (simp add: rt_thread_defunct_enqueue_def tstat_def)
  have "set (queues k1 (MutexQ m)) = set (queues k (MutexQ m)) - {t}" for m
    by (simp add: F(5)[OF nc] q_remove_def)
  then have "thread_closed t k ?k'"
    unfolding thread_closed_def
    using t' closed_not_waiting[OF s' t'] nc k2(6-9) F(2,4) def0
    by (simp add: rt_thread_defunct_enqueue_def q_push_front_def)
  moreover have "close_thread t k = Some (RT_EOK, ?k')"
    using nc k2(1) by (simp add: close_thread_def closing_def[symmetric] k1_def[symmetric] Let_def)
  ultimately show ?thesis using s' k2(3,4) by simp
qed

section \<open>The clean-up\<close>

text \<open>What the user's clean-up functions may do.\<close>

definition cleanup_ok :: "u32 \<Rightarrow> (tid \<Rightarrow> kernel \<Rightarrow> kernel option) \<Rightarrow> bool" where
  "cleanup_ok b cleanup \<longleftrightarrow> (\<forall>t k. sysinv b k \<longrightarrow>
     ok (cleanup t k) (\<lambda>k'. sysinv b k' \<and> queues k' Defunct = queues k Defunct))"

lemma dequeue_sys:
  assumes inv: "sysinv b k" and d: "queues k Defunct = t # ts"
  shows "sysinv b (k\<lparr>queues := q_remove t (queues k)\<rparr>)" "q_remove t (queues k) Defunct = ts"
proof -
  let ?k = "k\<lparr>queues := q_remove t (queues k)\<rparr>"
  have q: "qinv {} k" and ci: "cinv k" and ti: "tinv b k" using inv by (auto simp: sysinv_def kinv_def)
  have c: "tstat k t = RT_THREAD_CLOSE" using qinvD(9)[OF q, of t] d by simp
  then have r: "tstat k t \<noteq> RT_THREAD_READY" by simp
  have ts: "tstat ?k u = tstat k u" "suspended ?k u = suspended k u" for u
    by (simp_all add: tstat_def suspended_def)
  have "qinv {} ?k" using qinv_settle[OF qinv_unlink[OF q r]] r by (simp add: ts)
  moreover have "cinv ?k" using ci by (simp add: cinv_def ts)
  moreover have "tinv b ?k" by (rule tinv_threads[OF ti]) (simp_all add: ts)
  ultimately show "sysinv b ?k" by (simp add: sysinv_def kinv_def)
  have "distinct (t # ts)" using qinvD(1)[OF q, of Defunct] d by simp
  then show "q_remove t (queues k) Defunct = ts" by (simp add: q_remove_def d removeAll_id)
qed

text \<open>The loop ends with no dead thread left.\<close>

lemma defunct_execute_correct:
  assumes c: "cleanup_ok b cleanup" and inv: "sysinv b k"
  shows "ok (rt_defunct_execute cleanup k) (\<lambda>k'. sysinv b k' \<and> queues k' Defunct = [])"
  using inv
proof (induction "queues k Defunct" arbitrary: k)
  case Nil
  then show ?case
    by (subst rt_defunct_execute.simps) (simp add: rt_thread_defunct_dequeue_def)
next
  case (Cons t ts)
  let ?k1 = "k\<lparr>queues := q_remove t (queues k)\<rparr>"
  note d = dequeue_sys[OF Cons.prems Cons.hyps(2)[symmetric]]
  obtain k2 where k2: "cleanup t ?k1 = Some k2" "sysinv b k2" "queues k2 Defunct = ts"
    using c d unfolding cleanup_ok_def ok_iff by fastforce
  have step: "rt_defunct_execute cleanup k = rt_defunct_execute cleanup k2"
    using Cons.hyps(2)[symmetric] k2(1)
    by (subst rt_defunct_execute.simps) (simp add: rt_thread_defunct_dequeue_def)
  show ?case unfolding step by (rule Cons.hyps(1)[OF k2(3)[symmetric] k2(2)])
qed

text \<open>A thread that returns from its function: it never runs again.\<close>

lemma thread_exit_correct:
  assumes inv: "sysinv b k" and c: "cur k = Some t" and r: "tstat k t = RT_THREAD_RUNNING"
  shows "ok (thread_exit k) (\<lambda>k'. sysinv b k' \<and> cur k' \<noteq> None \<and> tstat k' t = RT_THREAD_CLOSE \<and>
    queues k' Defunct = t # queues k Defunct)"
proof -
  have nc: "tstat k t \<noteq> RT_THREAD_CLOSE" and ni: "tstat k t \<noteq> RT_THREAD_INIT" using r by simp_all
  have ki: "kinv k" by (rule sysinv_kinv[OF inv])
  note S = closing_sys[OF inv nc] and F = closing_frame[OF ki, where t = t]
  let ?k1 = "rt_thread_defunct_enqueue t (closing t k)"
  have i1: "sysinv b ?k1" by (rule defunct_sys[OF S(1,3,2)])
  have c1: "cur ?k1 = Some t" using c F(2) by (simp add: rt_thread_defunct_enqueue_def)
  have s1: "tstat ?k1 t = RT_THREAD_CLOSE" using S(3) by (simp add: rt_thread_defunct_enqueue_def tstat_def)
  have "t \<notin> set (queues k Defunct)" using qinvD(9)[of "{}" k t] ki nc by (auto simp: kinv_def)
  then have d1: "queues ?k1 Defunct = t # queues k Defunct"
    by (simp add: rt_thread_defunct_enqueue_def q_push_front_def F(5)[OF nc] q_remove_def removeAll_id)
  obtain k' where k': "rt_schedule ?k1 = Some k'" "sysinv b k'" "sched_frame ?k1 k'" "cur k' \<noteq> None"
    using rt_schedule_sys[OF i1 c1] by (auto simp: ok_iff)
  have "\<not> runnable ?k1 t" using s1 by (simp add: runnable_def)
  then have "tstat k' t = RT_THREAD_CLOSE" using sched_frameD(18)[OF k'(3), of t] s1 by (simp add: tstat_def)
  moreover have "queues k' Defunct = t # queues k Defunct" using sched_frameD(21)[OF k'(3)] d1 by simp
  moreover have "thread_exit k = Some k'"
    using c ni k'(1) by (simp add: thread_exit_def rt_thread_self_def closing_def)
  ultimately show ?thesis using k'(2,4) by simp
qed

section \<open>Properties\<close>

text \<open>C24: Detaching a thread in any state takes it off every list, stops its timer and queues it for
  clean-up; if it waited for a mutex, the priorities of the owners are put right again. What it owned
  stays owned.\<close>
theorem detach_leaves_no_trace:
  assumes "sysinv b k" "mutex_inv k" "pi_inv k" "ranked r k" "static_object (threads k t)"
  shows "ok (rt_thread_detach t k) (\<lambda>(e, k'). e = RT_EOK \<and> sysinv b k' \<and> mutex_inv k' \<and> pi_inv k' \<and>
    thread_closed t k k')"
  using close_thread_correct[OF assms(1-4), of t] assms(5) by (simp add: rt_thread_detach_def)

theorem detach_leaves_no_trace_witness:
  "ok (rt_thread_detach 5 example_mutexes) (\<lambda>(e, k'). e = RT_EOK \<and> sysinv 100 k' \<and> mutex_inv k' \<and> pi_inv k' \<and>
    thread_closed 5 example_mutexes k')"
  by (rule detach_leaves_no_trace[OF example_mutexes_sysinv example_mutexes_ok(1,2,4)])
    (simp add: example_mutexes_def example_thread_def)

text \<open>The clean-up of the idle thread ends with no dead thread left, whatever the clean-up functions
  of the threads do short of breaking the system or ending threads themselves.\<close>
theorem clean_up_ends:
  assumes "cleanup_ok b cleanup" "sysinv b k"
  shows "ok (rt_defunct_execute cleanup k) (\<lambda>k'. sysinv b k' \<and> queues k' Defunct = [])"
  by (rule defunct_execute_correct[OF assms])

definition example_dead :: kernel where
  "example_dead = example_kernel\<lparr>
     threads := (threads example_kernel)(5 := example_thread 1 20, 6 := example_thread 1 20),
     queues := (queues example_kernel)(Defunct := [6, 5])\<rparr>"

lemma example_dead_sysinv: "sysinv 100 example_dead"
proof -
  have s: "tstat example_dead t = (if t = 5 \<or> t = 6 then 1 else tstat example_kernel t)"
    "prio example_dead t = prio example_kernel t"
    "queues example_dead q = (if q = Defunct then [6, 5] else queues example_kernel q)"
    "number_mask (threads example_dead t) = (if t = 5 \<or> t = 6 then 2 ^ 20 else number_mask (threads example_kernel t))"
    "ready_group example_dead = ready_group example_kernel" "cur example_dead = Some 0" for t q
    by (auto simp: tstat_def prio_def example_dead_def example_kernel_def example_thread_def)
  have "qinv {} example_dead"
    by (rule qinvI)
      (auto simp: s example_queues example_tstat example_prio example_mask example_group suspended_tstat waitq_def
        split: if_splits)
  moreover have "cinv example_dead" unfolding cinv_def s example_tstat by simp
  moreover have "tinv 100 example_dead"
    by (rule tinv_threads[of _ example_kernel])
      (use example_sysinv in \<open>simp_all add: sysinv_def example_dead_def example_kernel_def activated_def\<close>)
  ultimately show ?thesis by (simp add: sysinv_def kinv_def)
qed

theorem clean_up_ends_witness:
  "ok (rt_defunct_execute (\<lambda>t k. Some k) example_dead) (\<lambda>k'. sysinv 100 k' \<and> queues k' Defunct = [])"
  by (rule clean_up_ends[OF _ example_dead_sysinv]) (simp add: cleanup_ok_def)

end
