(* ===== verification/System.thy ===== *)
theory System
  imports Sem
begin

text \<open>
  Threads and the tick interrupt together: runs of semaphore calls, sleeps, yields and ticks in any
  order, from any thread that happens to be current. A call is one step, which carries the
  result of the call; a waiting call ends in the step that wakes the thread, with the error the thread is left with.
\<close>

section \<open>Steps\<close>

datatype sys_call = SysTake nat int | SysRelease nat | SysSleep u32 | SysYield | SysTick

text \<open>A call that may suspend needs a running thread and an available scheduler; \<open>user\<close> runs the functions
  of user timers.\<close>

definition can_block :: "kernel \<Rightarrow> bool" where
  "can_block k \<longleftrightarrow> (\<exists>t. cur k = Some t \<and> tstat k t = RT_THREAD_RUNNING) \<and> scheduler_available k"

text \<open>A step carries the result of its call; the interrupt has none.\<close>

inductive sys_step ::
  "(nat \<Rightarrow> nat \<Rightarrow> kernel \<Rightarrow> kernel option) \<Rightarrow> kernel \<Rightarrow> sys_call \<Rightarrow> outcome option \<Rightarrow> kernel \<Rightarrow> bool"
  for user where
  take: "can_block k \<Longrightarrow> timeout < 2 ^ 31 - 1 \<Longrightarrow> rt_sem_take s timeout k = Some (r, k') \<Longrightarrow>
    sys_step user k (SysTake s timeout) (Some r) k'"
| release: "rt_sem_release s k = Some (e, k') \<Longrightarrow> sys_step user k (SysRelease s) (Some (Done e)) k'"
| sleep: "can_block k \<Longrightarrow> n < RT_TICK_MAX div 2 \<Longrightarrow> rt_thread_sleep n k = Some (r, k') \<Longrightarrow>
    sys_step user k (SysSleep n) (Some r) k'"
| yield: "rt_thread_yield k = Some (e, k') \<Longrightarrow> sys_step user k SysYield (Some (Done e)) k'"
| tick: "rt_tick_increase user k = Some k' \<Longrightarrow> sys_step user k SysTick None k'"

inductive_cases sys_stepE: "sys_step user k c r k'"

text \<open>The threads that got a unit of the semaphore \<open>s\<close> in a step, whatever the step was: the caller, if its take
  returned \<open>RT_EOK\<close>, and every waiter that was in the queue before and is not after, if the take it is
  in will return \<open>RT_EOK\<close>. The units that were brought in: the releases that returned \<open>RT_EOK\<close>.\<close>

definition served :: "nat \<Rightarrow> kernel \<Rightarrow> kernel \<Rightarrow> tid list" where
  "served s k k' = filter (\<lambda>t. t \<notin> set (queues k' (SemQ s)) \<and> sem_take_resume t k' = RT_EOK) (queues k (SemQ s))"

fun took :: "nat \<Rightarrow> sys_call \<Rightarrow> outcome option \<Rightarrow> nat" where
  "took s (SysTake r timeout) res = (if r = s \<and> res = Some (Done RT_EOK) then 1 else 0)"
| "took s _ _ = 0"

definition granted :: "nat \<Rightarrow> kernel \<Rightarrow> sys_call \<Rightarrow> outcome option \<Rightarrow> kernel \<Rightarrow> nat" where
  "granted s k c res k' = took s c res + length (served s k k')"

fun released :: "nat \<Rightarrow> sys_call \<Rightarrow> outcome option \<Rightarrow> nat" where
  "released s (SysRelease r) res = (if r = s \<and> res = Some (Done RT_EOK) then 1 else 0)"
| "released s _ _ = 0"

inductive sys_run ::
  "(nat \<Rightarrow> nat \<Rightarrow> kernel \<Rightarrow> kernel option) \<Rightarrow> nat \<Rightarrow> kernel \<Rightarrow> nat \<Rightarrow> nat \<Rightarrow> kernel \<Rightarrow> bool"
  for user s k0 where
  start: "sys_run user s k0 0 0 k0"
| further: "sys_run user s k0 rel gr k \<Longrightarrow> sys_step user k c res k' \<Longrightarrow>
    sys_run user s k0 (rel + released s c res) (gr + granted s k c res k') k'"

section \<open>What the steps leave alone\<close>

text \<open>Time stands still and user timers keep their period.\<close>

definition calm :: "kernel \<Rightarrow> kernel \<Rightarrow> bool" where
  "calm k k' \<longleftrightarrow> tick k' = tick k \<and>
     (\<forall>n. timer_init_tick (timers k' (UserTimer n)) = timer_init_tick (timers k (UserTimer n)) \<and>
        periodic k' (UserTimer n) = periodic k (UserTimer n))"

text \<open>Semaphores keep their count and gain no waiter; a thread that need not wait keeps the error it will return;
  a waiter that leaves its queue can run again, with an error, so without a unit.\<close>

definition unserved :: "kernel \<Rightarrow> tid \<Rightarrow> bool" where
  "unserved k t \<longleftrightarrow> runnable k t \<and> error (threads k t) \<noteq> RT_EOK"

definition quiet :: "kernel \<Rightarrow> kernel \<Rightarrow> bool" where
  "quiet k k' \<longleftrightarrow> sems k' = sems k \<and> (\<forall>s. set (queues k' (SemQ s)) \<subseteq> set (queues k (SemQ s))) \<and>
     (\<forall>t. unserved k t \<longrightarrow> unserved k' t) \<and>
     (\<forall>s. \<forall>t \<in> set (queues k (SemQ s)). t \<notin> set (queues k' (SemQ s)) \<longrightarrow> unserved k' t)"

definition steady :: "kernel \<Rightarrow> kernel \<Rightarrow> bool" where
  "steady k k' \<longleftrightarrow> calm k k' \<and> quiet k k'"

lemma calm_refl [simp]: "calm k k"
  by (simp add: calm_def)

lemma calm_trans: "calm k k1 \<Longrightarrow> calm k1 k2 \<Longrightarrow> calm k k2"
  by (simp add: calm_def)

lemma quiet_trans:
  assumes "quiet k k1" "quiet k1 k2"
  shows "quiet k k2"
proof -
  have "unserved k2 t" if "t \<in> set (queues k (SemQ s))" "t \<notin> set (queues k2 (SemQ s))" for s t
    using assms that unfolding quiet_def by (cases "t \<in> set (queues k1 (SemQ s))") blast+
  then show ?thesis using assms unfolding quiet_def by (metis subset_trans)
qed

lemma steady_self [simp]: "steady k k"
  by (simp add: steady_def quiet_def)

lemma steady_refl: "reflp steady"
  by (simp add: reflp_def)

lemma steady_trans: "transp steady"
  using calm_trans quiet_trans unfolding steady_def by (intro transpI) blast

lemmas steady_then = transpD[OF steady_trans]

lemma steadyD:
  assumes "steady k k'"
  shows "calm k k'" "sems k' = sems k" "set (queues k' (SemQ s)) \<subseteq> set (queues k (SemQ s))"
    "t \<in> set (queues k (SemQ s)) \<Longrightarrow> t \<notin> set (queues k' (SemQ s)) \<Longrightarrow> unserved k' t"
  using assms by (auto simp: steady_def quiet_def)

lemma calmI: "timers k' = timers k \<Longrightarrow> tick k' = tick k \<Longrightarrow> calm k k'"
  by (simp add: calm_def periodic_def)

text \<open>Changes that leave the queues of the semaphores alone.\<close>

lemma steadyI:
  assumes "calm k k'" "sems k' = sems k" "\<And>s. queues k' (SemQ s) = queues k (SemQ s)"
    and "\<And>t. unserved k t \<Longrightarrow> unserved k' t"
  shows "steady k k'"
  using assms by (simp add: steady_def quiet_def)

lemma flag_bits: "(w OR 1) AND 2 = w AND (2::u8)"
  by (simp add: bit.conj_disj_distrib2)

subsection \<open>Timers\<close>

lemma timer_ops_calm:
  "calm k (timer_remove x k)" "calm k (upd_timer x deactivate k)" "calm k (rt_timer_start x k)"
  "calm k (snd (rt_timer_stop x k))" "calm k (upd_timer (ThreadTimer t) f k)"
  "calm k (fire_begin x k)" "calm k (fire_end x k)"
proof -
  show d: "calm k (timer_remove x k)" "calm k (upd_timer x deactivate k)" for k
    by (simp_all add: calm_def periodic_def)
  show "calm k (upd_timer (ThreadTimer t) f k)" by (simp add: calm_def periodic_def)
  show st: "calm k (rt_timer_start x k)" for k
    by (simp add: calm_def periodic_def rt_timer_start_def Let_def flag_bits)
  show "calm k (snd (rt_timer_stop x k))"
    using calm_trans[OF d] by (simp add: rt_timer_stop_def)
  show "calm k (fire_begin x k)"
    by (simp add: fire_begin_def Let_def calm_def periodic_def flag_bits)
  show "calm k (fire_end x k)"
    using d(1)[of k] calm_trans[OF d(1) calm_trans[OF d(2) st]] by (simp add: fire_end_def Let_def)
qed

lemma steady_fire_parts: "steady k (fire_begin x k)" "steady k (fire_end x k)"
proof -
  have "threads (fire_begin x k) = threads k" "queues (fire_begin x k) = queues k" "sems (fire_begin x k) = sems k"
    "threads (fire_end x k) = threads k" "queues (fire_end x k) = queues k" "sems (fire_end x k) = sems k"
    by (simp_all add: fire_begin_def fire_end_def Let_def)
  then show "steady k (fire_begin x k)" "steady k (fire_end x k)"
    by (auto intro!: steadyI timer_ops_calm simp: unserved_def runnable_def tstat_def)
qed

subsection \<open>Scheduling and time-outs\<close>

lemma steady_sched:
  assumes "sched_frame k k'"
  shows "steady k k'"
proof (rule steadyI)
  note F = sched_frameD[OF assms]
  show "calm k k'" by (rule calmI) (simp_all add: F)
  show "sems k' = sems k" "queues k' (SemQ s) = queues k (SemQ s)" for s by (simp_all add: F waitq_def)
  show "unserved k t \<Longrightarrow> unserved k' t" for t by (simp add: unserved_def F)
qed

lemma steady_timeout:
  assumes "sysinv b k" "suspended k t" "\<not> activated k (ThreadTimer t)" "cur k \<noteq> None" "thread_timeout t k = Some k'"
  shows "steady k k'"
proof -
  let ?k1 = "resumed t (set_error t (- RT_ETIMEOUT) k)"
  have "sysinv b ?k1" by (rule resumed_sys) (simp_all add: assms(1,2))
  then have "sched_frame ?k1 k'"
    using rt_schedule_sys[of b ?k1] assms(4,5) unfolding thread_timeout_eq[OF assms(2,3)] by (auto simp: ok_iff)
  then have "steady ?k1 k'" by (rule steady_sched)
  moreover have "steady k ?k1"
  proof -
    have q: "queues ?k1 (SemQ s) = removeAll t (queues k (SemQ s))" for s
      by (subst resumed_queues) (simp_all add: waitq_def)
    have nr: "\<not> runnable k t" by (rule suspended_not_runnable[OF assms(2)])
    have t: "unserved ?k1 t" by (simp add: unserved_def runnable_def resumed_state)
    have o: "unserved ?k1 u" if "unserved k u" for u
      using that nr t by (cases "u = t") (simp_all add: unserved_def runnable_def resumed_state)
    have "calm k ?k1"
      using calm_trans[OF _ timer_ops_calm(4)] by (simp add: resumed_def calm_def periodic_def rt_timer_stop_def)
    then show ?thesis using q t o by (auto simp: steady_def quiet_def)
  qed
  ultimately show ?thesis by (rule steady_then[rotated])
qed

text \<open>User functions may do anything but this.\<close>

definition user_steady :: "(nat \<Rightarrow> nat \<Rightarrow> kernel \<Rightarrow> kernel option) \<Rightarrow> bool" where
  "user_steady user \<longleftrightarrow> (\<forall>n p k k'. user n p k = Some k' \<longrightarrow> steady k k')"

lemma steady_fire:
  assumes u: "user_steady user" and inv: "sysinv b k" "cur k \<noteq> None" "x \<in> set (timer_lists k TimerList)"
    and k': "timer_fire (timeout_call user) x k = Some k'"
  shows "steady k k'"
proof -
  let ?k1 = "fire_begin x k"
  note B = fire_begin_sys[OF inv(1,3)]
  have ti: "tinv b k" using inv(1) by (simp add: sysinv_def)
  obtain k2 where k2: "timeout_call user (timeout_func (timers ?k1 x)) (parameter (timers ?k1 x)) ?k1 = Some k2"
    "k' = fire_end x k2"
    using k' by (auto simp: timer_fire_def Let_def split: bind_splits)
  have "steady ?k1 k2"
  proof (cases x)
    case (ThreadTimer t)
    have "\<not> activated ?k1 (ThreadTimer t)" using B(5) tinvD(6)[OF ti, of t] ThreadTimer by simp
    moreover have "suspended k t" using tinvD(3)[OF ti inv(3)] tinvD(7)[OF ti] ThreadTimer by simp
    then have "suspended ?k1 t" using timer_only_kinv(3)[OF B(2)] by simp
    moreover have "thread_timeout t ?k1 = Some k2"
      using k2(1) tinvD(4,5)[OF ti, of t] B(3,4) ThreadTimer by (simp add: timeout_call_def)
    moreover have "cur ?k1 \<noteq> None" using inv(2) timer_onlyD(5)[OF B(2)] by simp
    ultimately show ?thesis using steady_timeout[OF B(1)] by blast
  next
    case (UserTimer n)
    then obtain m where "timeout_func (timers ?k1 x) = UserTimeout m"
      using tinvD(8)[OF ti, of n] B(3) by (cases "timeout_func (timers k x)") auto
    then show ?thesis using u k2(1) by (auto simp: user_steady_def timeout_call_def)
  qed
  then show ?thesis
    unfolding k2(2) using steady_then[OF steady_then[OF steady_fire_parts(1)] steady_fire_parts(2)] by blast
qed

subsection \<open>The calls\<close>

lemma calm_threads:
  "calm k (upd_thread t f k)" "calm k (set_error t e k)" "calm k (k\<lparr>queues := qs\<rparr>)"
  "calm k (rt_schedule_remove_thread t k)"
  by (simp_all add: calmI)

lemma calm_schedule: "rt_schedule k = Some k' \<Longrightarrow> calm k k'"
  using rt_schedule_timers[of k k'] by (simp add: calmI)

lemma calm_suspend_self:
  assumes "rt_thread_suspend_with_flag t flag k = Some (e, k')"
  shows "calm k k'"
  using assms calm_trans[OF calm_trans[OF calm_threads(4) calm_threads(1)] timer_ops_calm(4)]
  by (auto simp: rt_thread_suspend_with_flag_def rt_thread_set_suspend_state_def Let_def rt_assert_def
      split: if_splits bind_splits)

lemma calm_arm: "thread_timer_arm t n k = Some k' \<Longrightarrow> calm k k'"
  using calm_trans[OF timer_ops_calm(5) timer_ops_calm(3)]
  by (auto simp: thread_timer_arm_def rt_timer_control_def rt_assert_def split: if_splits bind_splits)

lemma calm_resume: "calm k (snd (rt_thread_resume t k))"
proof -
  have "calm k (rt_schedule_insert_thread t k)" for k by (rule calmI) simp_all
  then show ?thesis
    unfolding rt_thread_resume_def Let_def by (auto intro: calm_trans[OF calm_trans[OF calm_threads(3) timer_ops_calm(4)]])
qed

lemma calm_sleep:
  assumes "rt_thread_sleep n k = Some (r, k')"
  shows "calm k k'"
proof (cases "r = Waiting")
  case True
  then obtain t k2 k3 where "rt_thread_suspend_with_flag t RT_INTERRUPTIBLE (set_error t RT_EOK k) = Some (RT_EOK, k2)"
    "thread_timer_arm t n k2 = Some k3" "rt_schedule (set_error t (- RT_EINTR) k3) = Some k'"
    using assms by (auto simp: rt_thread_sleep_def rt_assert_def split: if_splits bind_splits)
  then show ?thesis
    using calm_trans[OF calm_trans[OF calm_trans[OF calm_threads(2) calm_suspend_self] calm_arm]
        calm_trans[OF calm_threads(2) calm_schedule]] by blast
next
  case False
  then show ?thesis
    using assms calm_trans[OF calm_threads(2) calm_suspend_self]
    by (auto simp: rt_thread_sleep_def rt_assert_def split: if_splits bind_splits)
qed

section \<open>The invariant of a run\<close>

definition sys_ok :: "kernel \<Rightarrow> bool" where
  "sys_ok k \<longleftrightarrow> sysinv (tick k) k \<and> cur k \<noteq> None \<and> periods_ok k \<and> (\<forall>s. sem_wf s k)"

lemma periods_calm:
  assumes "periods_ok k" "calm k k'" "tinv b k'"
  shows "periods_ok k'"
  unfolding periods_ok_def
proof (intro allI impI)
  fix x assume p: "periodic k' x"
  have "timer_init_tick (timers k' x) = timer_init_tick (timers k x) \<and> periodic k x"
    using assms(2) p tinvD(6)[OF assms(3)] by (cases x) (auto simp: calm_def)
  then show "0 < timer_init_tick (timers k' x) \<and> unat (timer_init_tick (timers k' x)) < 2 ^ 31 - 1"
    using assms(1) by (simp add: periods_ok_def)
qed

lemma still_sys_ok:
  assumes "sys_ok k" "calm (k\<lparr>tick := n\<rparr>) k'" "sems k' = sems k"
    and "\<And>s. set (queues k' (SemQ s)) \<subseteq> set (queues k (SemQ s))" "sysinv n k'" "cur k' \<noteq> None"
  shows "sys_ok k'"
proof -
  have "tick k' = n" using assms(2) by (simp add: calm_def)
  moreover have "periods_ok (k\<lparr>tick := n\<rparr>)" using assms(1) by (simp add: sys_ok_def periods_ok_def periodic_def)
  then have "periods_ok k'" using periods_calm assms(2,5) by (auto simp: sysinv_def)
  moreover have "sem_wf s k'" for s
    using assms(1) assms(3) assms(4)[of s] by (auto simp: sys_ok_def sem_wf_def)
  ultimately show ?thesis using assms(5,6) by (simp add: sys_ok_def)
qed

text \<open>The outcome of a call on one semaphore, the others untouched.\<close>

lemma one_sem_sys_ok:
  assumes "sys_ok k" "calm k k'" "sysinv (tick k) k'" "cur k' \<noteq> None" "sem_wf s k'"
    and "\<And>r. r \<noteq> s \<Longrightarrow> sems k' r = sems k r \<and> queues k' (SemQ r) = queues k (SemQ r)"
  shows "sys_ok k'"
proof -
  have "tick k' = tick k" using assms(2) by (simp add: calm_def)
  moreover have "periods_ok k'"
    using periods_calm[OF _ assms(2)] assms(1,3) by (auto simp: sys_ok_def sysinv_def)
  moreover have "sem_wf r k'" for r
    using assms(1,5) assms(6)[of r] by (cases "r = s") (auto simp: sys_ok_def sem_wf_def)
  ultimately show ?thesis using assms(3,4) by (simp add: sys_ok_def)
qed

lemma calm_suspend: "ipc_list_suspend q t flag sflag k = Some (e, k') \<Longrightarrow> calm k k'"
  using calm_suspend_self calm_trans[OF calm_suspend_self calm_threads(3)]
  unfolding ipc_list_suspend_def
  by (auto simp: calm_threads(3) split: if_splits bind_splits)

lemma calm_wait:
  assumes "wait_pass q t flag timeout sflag k = Some (r, k')"
  shows "calm k k'"
  using assms calm_suspend calm_trans[OF calm_trans[OF calm_suspend calm_arm] calm_schedule]
    calm_trans[OF calm_suspend calm_schedule]
  unfolding wait_pass_def arm_if_def
  by (auto split: if_splits bind_splits)


lemma unat_lt_size16: "unat (v::u16) < 65536"
  using unsigned_less[of v, where 'a = nat] by simp

section \<open>Units\<close>

text \<open>What a semaphore has after a step and what the step gave out are what it had and what was brought in.\<close>

definition count_kept :: "kernel \<Rightarrow> sys_call \<Rightarrow> outcome option \<Rightarrow> kernel \<Rightarrow> bool" where
  "count_kept k c res k' \<longleftrightarrow> (\<forall>s. unat (sem_value (sems k' s)) + granted s k c res k' =
     unat (sem_value (sems k s)) + released s c res)"

lemma served_stay: "set (queues k (SemQ s)) \<subseteq> set (queues k' (SemQ s)) \<Longrightarrow> served s k k' = []"
  unfolding served_def by (auto simp: filter_empty_conv)

lemma served_steady: "steady (k\<lparr>tick := n\<rparr>) k' \<Longrightarrow> served s k k' = []"
  using steadyD(4)[of "k\<lparr>tick := n\<rparr>" k' _ s]
  by (auto simp: served_def filter_empty_conv unserved_def sem_take_resume_def)

lemma served_first:
  assumes "queues k (SemQ s) = w # ws" "distinct (w # ws)" "queues k' (SemQ s) = ws" "error (threads k' w) = RT_EOK"
  shows "served s k k' = [w]"
  using assms by (simp add: served_def sem_take_resume_def filter_empty_conv)

lemma count_same:
  assumes "sems k' = sems k" "\<And>s. served s k k' = []" "\<And>s. took s c res = 0" "\<And>s. released s c res = 0"
  shows "count_kept k c res k'"
  using assms by (simp add: count_kept_def granted_def)

lemma take_step:
  assumes inv: "sys_ok k" and cb: "can_block k" and to: "timeout < 2 ^ 31 - 1"
  shows "ok (rt_sem_take s timeout k) (\<lambda>(r, k'). sys_ok k' \<and> count_kept k (SysTake s timeout) (Some r) k')"
proof -
  obtain t where t: "cur k = Some t" "tstat k t = RT_THREAD_RUNNING" and av: "scheduler_available k"
    using cb by (auto simp: can_block_def)
  have run: "runs (tick k) t k" and wf: "sem_wf s k" and si: "sysinv (tick k) k"
    using inv t by (simp_all add: runs_def sys_ok_def)
  show ?thesis
  proof (cases "sem_value (sems k s) = 0")
    case False
    let ?k' = "upd_sem s (\<lambda>sm. sm\<lparr>sem_value := sem_value sm - 1\<rparr>) k"
    have "rt_sem_take s timeout k = Some (Done RT_EOK, ?k')"
      using False by (simp add: rt_sem_take_def sem_take_def word_gt_0)
    moreover have "sys_ok ?k'"
      by (rule one_sem_sys_ok[OF inv, of _ s]) (use False wf si t in \<open>simp_all add: calmI sem_wf_def\<close>)
    moreover have "served r k ?k' = []" for r by (rule served_stay) simp
    ultimately show ?thesis
      using u16_pred[OF False] by (simp add: count_kept_def granted_def)
  next
    case empty: True
    show ?thesis
    proof (cases "timeout = 0")
      case True
      have "count_kept k (SysTake s timeout) (Some (Done (- RT_ETIMEOUT))) k"
        by (rule count_same) (simp_all add: served_stay)
      then show ?thesis using True empty inv by (simp add: rt_sem_take_def sem_take_def)
    next
      case nz: False
      let ?k1 = "set_error t (- RT_EINTR) k"
      from sem_take_waits[OF run wf empty nz to av, of RT_UNINTERRUPTIBLE]
      obtain r k' where k': "rt_sem_take s timeout k = Some (r, k')" "r = Waiting" "sysinv (tick k) k'"
        "waits_on (SemQ s) (sem_flag (sems k s)) t timeout ?k1 k'"
        unfolding rt_sem_take_def[symmetric] by (auto elim: ok_pairE)
      note W = waits_onD[OF k'(4)] and E = waits_on_error[OF k'(4)]
      have se: "sems k' = sems k" by (rule objectsD(1)[OF E(4)])
      have "wait_pass (SemQ s) t (sem_flag (sems k s)) timeout RT_UNINTERRUPTIBLE ?k1 = Some (r, k')"
        using k'(1) empty nz av t(1) by (simp add: rt_sem_take_def sem_take_def rt_thread_self_def)
      then have "calm k k'" using calm_wait calm_trans[OF calm_threads(2)] by blast
      moreover have "sem_wf s k'" using wf empty se by (simp add: sem_wf_def)
      moreover have q: "queues k' (SemQ r) = queues k (SemQ r)" if "r \<noteq> s" for r
        by (rule E(3)) (use that in \<open>simp_all add: waitq_def\<close>)
      ultimately have "sys_ok k'" using one_sem_sys_ok[OF inv, of k' s] k'(3) W(2) se by simp
      moreover have "set (queues k (SemQ r)) \<subseteq> set (queues k' (SemQ r))" for r
        using q[of r] E(2) by (cases "r = s") (auto simp: set_wait_insert)
      then have "count_kept k (SysTake s timeout) (Some r) k'"
        using k'(2) se by (intro count_same served_stay) simp_all
      ultimately show ?thesis using k'(1) by simp
    qed
  qed
qed

lemma release_step:
  assumes inv: "sys_ok k"
  shows "ok (rt_sem_release s k) (\<lambda>(e, k'). sys_ok k' \<and> count_kept k (SysRelease s) (Some (Done e)) k')"
proof -
  obtain c where c: "cur k = Some c" using inv by (auto simp: sys_ok_def)
  have si: "sysinv (tick k) k" and wf: "sem_wf s k" using inv by (simp_all add: sys_ok_def)
  show ?thesis
  proof (cases "queues k (SemQ s)")
    case Nil
    let ?k' = "upd_sem s (\<lambda>sm. sm\<lparr>sem_value := sem_value sm + 1\<rparr>) k"
    have "sys_ok ?k'"
      by (rule one_sem_sys_ok[OF inv, of _ s]) (use Nil wf si c in \<open>simp_all add: calmI sem_wf_def\<close>)
    moreover have "served r k ?k' = []" "served r k k = []" for r by (simp_all add: served_stay)
    ultimately show ?thesis
      using Nil inv u16_succ[of "sem_value (sems k s)"]
      by (auto simp: rt_sem_release_def count_kept_def granted_def)
  next
    case (Cons w ws)
    obtain k1 k' where k': "ipc_list_resume (SemQ s) k = Some k1" "rt_schedule k1 = Some k'"
      "sysinv (tick k) k'" "cur k' \<noteq> None" "wakes (SemQ s) w k k'"
      by (rule semq.resume_path[OF si c Cons])
    note W = wakesD[OF k'(5)]
    have se: "sems k' = sems k" by (rule objectsD(1)[OF W(7)])
    have "calm k k1"
      using k'(1) Cons calm_trans[OF calm_threads(2) calm_resume]
      by (auto simp: ipc_list_resume_def)
    then have "calm k k'" using calm_trans calm_schedule[OF k'(2)] by blast
    moreover have "sem_wf s k'" using wf Cons se by (simp add: sem_wf_def)
    moreover have q: "queues k' (SemQ r) = queues k (SemQ r)" if "r \<noteq> s" for r
      by (rule W(4)) (use that in \<open>simp_all add: waitq_def\<close>)
    ultimately have "sys_ok k'" using one_sem_sys_ok[OF inv, of k' s] k'(3,4) se by simp
    moreover have d: "distinct (w # ws)"
      using si qinvD(1)[of "{}" k "SemQ s"] Cons by (simp add: sysinv_def kinv_def)
    then have "served s k k' = [w]"
      using W(1,3) Cons by (intro served_first) (simp_all add: removeAll_id)
    moreover have "served r k k' = []" if "r \<noteq> s" for r using q[OF that] by (intro served_stay) simp
    ultimately show ?thesis
      using k'(1,2) Cons se by (simp add: rt_sem_release_def count_kept_def granted_def)
  qed
qed

lemma sleep_step:
  assumes inv: "sys_ok k" and cb: "can_block k" and n: "n < RT_TICK_MAX div 2"
  shows "ok (rt_thread_sleep n k) (\<lambda>(r, k'). sys_ok k' \<and> count_kept k (SysSleep n) (Some r) k')"
proof (cases "n = 0")
  case False
  obtain t where t: "cur k = Some t" "tstat k t = RT_THREAD_RUNNING" and av: "scheduler_available k"
    using cb by (auto simp: can_block_def)
  have si: "sysinv (tick k) k" using inv by (simp add: sys_ok_def)
  obtain r k' where k': "rt_thread_sleep n k = Some (r, k')" "sysinv (tick k) k'" "cur k' \<noteq> None"
    "sems k' = sems k" "\<forall>q. waitq q \<longrightarrow> queues k' q = queues k q"
    using sleep_correct[OF si t av, of n] False n by (auto simp: word_gt_0 elim!: ok_pairE)
  have q: "queues k' (SemQ s) = queues k (SemQ s)" for s using k'(5) by (simp add: waitq_def)
  have "calm (k\<lparr>tick := tick k\<rparr>) k'" using calm_sleep[OF k'(1)] by simp
  then have "sys_ok k'" by (rule still_sys_ok[OF inv]) (simp_all add: k' q)
  moreover have "count_kept k (SysSleep n) (Some r) k'"
    by (rule count_same) (simp_all add: k'(4) served_stay q)
  ultimately show ?thesis using k'(1) by simp
qed (use inv in \<open>simp add: rt_thread_sleep_def count_same served_stay\<close>)

lemma yield_step:
  assumes inv: "sys_ok k"
  shows "ok (rt_thread_yield k) (\<lambda>(e, k'). sys_ok k' \<and> count_kept k SysYield (Some (Done e)) k')"
proof -
  obtain t where t: "cur k = Some t" using inv by (auto simp: sys_ok_def)
  let ?f = "\<lambda>th. th\<lparr>remaining_tick := init_tick th, stat := stat th OR RT_THREAD_STAT_YIELD_MASK\<rparr>"
  let ?k1 = "upd_thread t ?f k"
  have si: "sysinv (tick k) k" using inv by (simp add: sys_ok_def)
  have "sysinv (tick k) ?k1"
    by (rule sysinv_upd_keep(2)[OF _ _ _ si]) (simp_all add: tstat_def stat_code_or_yield)
  from rt_schedule_sys[OF this, of t] t obtain k' where
    k': "rt_schedule ?k1 = Some k'" "sysinv (tick k) k'" "cur k' \<noteq> None" "sched_frame ?k1 k'"
    by (auto simp: ok_iff)
  have y: "rt_thread_yield k = Some (RT_EOK, k')"
    using k'(1) t by (simp add: rt_thread_yield_def rt_thread_self_def)
  have "unserved ?k1 u = unserved k u" for u by (simp add: unserved_def runnable_def tstat_def stat_code_or_yield)
  then have "steady k ?k1" by (intro steadyI) (simp_all add: calm_threads)
  then have st: "steady (k\<lparr>tick := tick k\<rparr>) k'" using steady_then[OF _ steady_sched[OF k'(4)]] by simp
  note S = steadyD[OF st]
  have "sys_ok k'" by (rule still_sys_ok[OF inv S(1)]) (use S(2,3) k' in simp_all)
  moreover have "count_kept k SysYield (Some (Done RT_EOK)) k'"
    by (rule count_same) (use S(2) served_steady[OF st] in simp_all)
  ultimately show ?thesis using y by simp
qed

lemma tick_step:
  assumes inv: "sys_ok k" and u: "\<And>b. user_ok b user" "user_steady user"
  shows "ok (rt_tick_increase user k) (\<lambda>k'. sys_ok k' \<and> count_kept k SysTick None k')"
proof -
  let ?n = "tick k + 1"
  have si: "sysinv (tick k) k" "cur k \<noteq> None" "periods_ok k" using inv by (auto simp: sys_ok_def)
  obtain k3 where k3: "rt_tick_increase user k = rt_timer_check (timeout_call user) k3"
    "sysinv (tick k) k3" "cur k3 \<noteq> None" "tick k3 = ?n" "timers k3 = timers k" "sems k3 = sems k"
    "\<And>q. waitq q \<Longrightarrow> queues k3 q = queues k q" "\<And>u. error (threads k3 u) = error (threads k u)"
    "\<And>u. runnable k3 u = runnable k u"
    by (rule tick_parts[OF si(1,2), of user]) (rule that)
  let ?k4 = "k3\<lparr>timer_lists := (timer_lists k3)(TempList := [])\<rparr>"
  have un: "unserved ?k4 u = unserved (k\<lparr>tick := ?n\<rparr>) u" for u
    using k3(8,9) by (simp add: unserved_def) (simp add: runnable_def tstat_def)
  have s4: "steady (k\<lparr>tick := ?n\<rparr>) ?k4"
  proof (rule steadyI)
    show "calm (k\<lparr>tick := ?n\<rparr>) ?k4" using k3(4,5) by (intro calmI) simp_all
  qed (use k3(6,7) un in \<open>simp_all add: waitq_def\<close>)
  have "periods_ok k3" using si(3) k3(5) by (simp add: periods_ok_def periodic_def)
  note check = timer_check_sys[OF k3(2,3) u(1) this steady_refl steady_trans]
  have "ok (rt_timer_check (timeout_call user) k3)
      (\<lambda>k'. sysinv (tick k') k' \<and> cur k' \<noteq> None \<and> tick k' = tick k3 \<and> steady ?k4 k')"
    by (rule check) (rule steady_fire[OF u(2)])
  then obtain k' where k': "rt_tick_increase user k = Some k'" "sysinv (tick k') k'" "cur k' \<noteq> None"
    "tick k' = ?n" "steady ?k4 k'"
    unfolding k3(1)[symmetric] using k3(4) by (auto simp: ok_iff)
  have st: "steady (k\<lparr>tick := ?n\<rparr>) k'" by (rule steady_then[OF s4 k'(5)])
  note S = steadyD[OF st]
  have "sys_ok k'" by (rule still_sys_ok[OF inv S(1)]) (use S(2,3) k'(2-4) in simp_all)
  moreover have "count_kept k SysTick None k'"
    by (rule count_same) (use S(2) served_steady[OF st] in simp_all)
  ultimately show ?thesis using k'(1) by simp
qed


text \<open>The calls that may be made in a state.\<close>

fun call_ready :: "kernel \<Rightarrow> sys_call \<Rightarrow> bool" where
  "call_ready k (SysTake s timeout) \<longleftrightarrow> can_block k \<and> timeout < 2 ^ 31 - 1"
| "call_ready k (SysSleep n) \<longleftrightarrow> can_block k \<and> n < RT_TICK_MAX div 2"
| "call_ready k _ \<longleftrightarrow> True"

definition never_stuck :: "(nat \<Rightarrow> nat \<Rightarrow> kernel \<Rightarrow> kernel option) \<Rightarrow> kernel \<Rightarrow> bool" where
  "never_stuck user k \<longleftrightarrow> (\<forall>c. call_ready k c \<longrightarrow> (\<exists>res k'. sys_step user k c res k'))"

lemma step_kept:
  assumes "sys_step user k c res k'" "sys_ok k" "\<And>b. user_ok b user" "user_steady user"
  shows "sys_ok k' \<and> count_kept k c res k'"
  using assms(1)
proof cases
  case (take timeout s r)
  then show ?thesis using take_step[OF assms(2) take(3,4), of s] by simp
next
  case (release s e)
  then show ?thesis using release_step[OF assms(2), of s] by simp
next
  case (sleep n r)
  then show ?thesis using sleep_step[OF assms(2) sleep(3,4)] by simp
next
  case (yield e)
  then show ?thesis using yield_step[OF assms(2)] by simp
next
  case tick
  then show ?thesis using tick_step[OF assms(2-4)] by simp
qed

lemma step_exists:
  assumes "call_ready k c" "sys_ok k" "\<And>b. user_ok b user" "user_steady user"
  shows "\<exists>res k'. sys_step user k c res k'"
proof (cases c)
  case (SysTake s timeout)
  then show ?thesis
    using take_step[of k timeout s] assms(1,2) by (fastforce simp: ok_iff intro: sys_step.take)
next
  case (SysRelease s)
  then show ?thesis using release_step[of k s] assms(2) by (fastforce simp: ok_iff intro: sys_step.release)
next
  case (SysSleep n)
  then show ?thesis using sleep_step[of k n] assms(1,2) by (fastforce simp: ok_iff intro: sys_step.sleep)
next
  case SysYield
  then show ?thesis using yield_step[OF assms(2)] by (fastforce simp: ok_iff intro: sys_step.yield)
next
  case SysTick
  then show ?thesis using tick_step[OF assms(2-4)] by (fastforce simp: ok_iff intro: sys_step.tick)
qed

section \<open>Property\<close>

text \<open>C3: The semaphores under any interleaving of threads, time-outs and interrupts. In every run of
  takes, releases, sleeps, yields and ticks from a sound state, with functions of user timers that keep the invariants,
  leave the counts alone and wake no waiter of a semaphore without an error, let
  \<open>rel\<close> be the number of releases that returned \<open>RT_EOK\<close> and \<open>gr\<close> the number of takes that returned \<open>RT_EOK\<close> at
  once plus the number of waiters that left the queue, in whatever step, with \<open>RT_EOK\<close> to return. The state stays sound,
  the units of the semaphore plus \<open>gr\<close> are those it began with plus \<open>rel\<close>, so that no unit is lost or given twice
  and no time-out takes one, nobody waits while units are left, and no call that may be made stops the system.\<close>
theorem runs_conserve_units:
  assumes "sys_run user s k0 rel gr k" "sys_ok k0" "\<forall>b. user_ok b user" "user_steady user"
  shows "sys_ok k \<and>
    unat (sem_value (sems k s)) + gr = unat (sem_value (sems k0 s)) + rel \<and>
    (sem_value (sems k s) = 0 \<or> queues k (SemQ s) = []) \<and>
    never_stuck user k"
proof -
  have "sys_ok k \<and> unat (sem_value (sems k s)) + gr = unat (sem_value (sems k0 s)) + rel"
    using assms
  proof (induction rule: sys_run.induct)
    case (further rel gr k c res k')
    have "sys_ok k' \<and> count_kept k c res k'"
      by (rule step_kept[OF further.hyps(2)]) (use further in simp_all)
    moreover have "unat (sem_value (sems k s)) + gr = unat (sem_value (sems k0 s)) + rel"
      using further by simp
    ultimately show ?case unfolding count_kept_def by (auto dest!: spec[of _ s])
  qed simp
  then show ?thesis
    using step_exists assms(3,4) by (auto simp: sys_ok_def sem_wf_def never_stuck_def)
qed


lemma example_sys_ok: "sys_ok example_kernel"
proof -
  have "tick example_kernel = 100" "periods_ok example_kernel"
    by (simp_all add: periods_ok_def periodic_def example_kernel_def)
  then show ?thesis
    using example_sysinv example_sem_wf example_available by (simp add: sys_ok_def)
qed

text \<open>The running thread takes semaphore 3, which is empty, and waits; the next thread releases it, which serves
  the waiter.\<close>

lemma example_run:
  obtains k1 k2 where "rt_sem_take 3 20 example_kernel = Some (Waiting, k1)" "rt_sem_release 3 k1 = Some (RT_EOK, k2)"
    "served 3 k1 k2 = [0]" "sys_run user 3 example_kernel 1 1 k2"
proof -
  have e: "sem_view 3 example_kernel = (0, [])" by (simp add: sem_view_def) (simp add: example_kernel_def)
  have cb: "can_block example_kernel" using example_available by (simp add: can_block_def example_tstat)
  obtain r k1 where k1: "rt_sem_take 3 20 example_kernel = Some (r, k1)" "sys_ok k1" "sem_took 3 20 0 example_kernel (r, k1)"
    using take_step[OF example_sys_ok cb, of 20 3] sem_take_correct[OF example_runs example_sem_wf, of 20 RT_UNINTERRUPTIBLE 3]
      example_available(1) by (auto simp: rt_sem_take_def ok_iff)
  then have w: "r = Waiting" "sem_view 3 k1 = (0, [0])"
    by (simp_all add: sem_took_def e) (simp add: example_kernel_def wait_insert_def split: if_splits)
  have "sysinv (tick k1) k1" "sem_wf 3 k1" "cur k1 \<noteq> None" using k1(2) by (auto simp: sys_ok_def)
  then obtain err k2 where k2: "rt_sem_release 3 k1 = Some (err, k2)" "sem_released 3 k1 (err, k2)"
    using sem_release_correct[of "tick k1" k1 3] by (auto simp: ok_iff)
  then have r: "err = RT_EOK" "sem_view 3 k2 = (0, [])" "sem_take_resume 0 k2 = RT_EOK"
    by (simp_all add: sem_released_def w)
  have s1: "served 3 example_kernel k1 = []" using e by (simp add: served_def sem_view_def)
  have s2: "served 3 k1 k2 = [0]" using w r by (simp add: served_def sem_view_def)
  have "sys_run user 3 example_kernel 0 0 k1"
    using sys_run.further[OF sys_run.start sys_step.take[OF cb _ k1(1)], where s = 3 and user = user] by (simp add: granted_def s1 w)
  from sys_run.further[OF this sys_step.release[OF k2(1)]] have "sys_run user 3 example_kernel 1 1 k2"
    by (simp add: granted_def s2 r)
  with k1(1) k2(1) w r s2 show ?thesis by (intro that) simp_all
qed

theorem runs_conserve_units_witness:
  "\<exists>k1 k2. rt_sem_take 3 20 example_kernel = Some (Waiting, k1) \<and> rt_sem_release 3 k1 = Some (RT_EOK, k2) \<and>
    served 3 k1 k2 = [0] \<and> sys_ok k2 \<and> unat (sem_value (sems k2 3)) + 1 = unat (sem_value (sems example_kernel 3)) + 1 \<and>
    never_stuck (\<lambda>_ _ k. Some k) k2"
proof -
  let ?user = "\<lambda>_ _ k. Some (k :: kernel)"
  obtain k1 k2 where k: "rt_sem_take 3 20 example_kernel = Some (Waiting, k1)" "rt_sem_release 3 k1 = Some (RT_EOK, k2)"
    "served 3 k1 k2 = [0]" "sys_run ?user 3 example_kernel 1 1 k2"
    by (rule example_run[of ?user])
  have "\<forall>b. user_ok b ?user" "user_steady ?user" by (simp_all add: user_ok_def user_steady_def)
  from runs_conserve_units[OF k(4) example_sys_ok this] k(1-3) show ?thesis
    by (intro exI[of _ k1] exI[of _ k2]) simp
qed

end
