(* ===== verification/SmallMem.thy ===== *)
theory SmallMem
  imports Prelude
begin

text \<open>
  The small memory allocator (\<open>mem.c\<close>), the heap of this configuration: blocks with a header, linked by
  offsets, in one memory of 32-bit words that also holds the contents of the blocks. The management
  structure of a heap is kept beside the memory, found by its address.
\<close>

section \<open>State\<close>

record rt_small_mem =
  heap_ptr :: u32
  heap_end :: u32
  lfree :: u32
  mem_size_aligned :: u32
  total_size :: u32
  used_size :: u32
  max_used :: u32

type_synonym memory = "u32 \<Rightarrow> u32"

record smem =
  words :: memory
  pools :: "u32 \<Rightarrow> rt_small_mem option"

text \<open>The fields of \<open>struct rt_small_mem_item\<close> at an address, and their addresses.\<close>

abbreviation next_at :: "u32 \<Rightarrow> u32" where "next_at a \<equiv> a + 4"
abbreviation prev_at :: "u32 \<Rightarrow> u32" where "prev_at a \<equiv> a + 8"

abbreviation SIZEOF_STRUCT_MEM :: u32 where "SIZEOF_STRUCT_MEM \<equiv> 16"
abbreviation SIZEOF_SMALL_MEM :: u32 where "SIZEOF_SMALL_MEM \<equiv> 56"
abbreviation MIN_SIZE :: u32 where "MIN_SIZE \<equiv> 12"
abbreviation MIN_SIZE_ALIGNED :: u32 where "MIN_SIZE_ALIGNED \<equiv> 16"
abbreviation MEM_MASK :: u32 where "MEM_MASK \<equiv> NOT 0 - 1"

definition MEM_USED :: "u32 \<Rightarrow> u32" where
  "MEM_USED small_mem = (small_mem AND MEM_MASK) OR 1"

definition MEM_FREED :: "u32 \<Rightarrow> u32" where
  "MEM_FREED small_mem = (small_mem AND MEM_MASK) OR 0"

definition MEM_ISUSED :: "memory \<Rightarrow> u32 \<Rightarrow> bool" where
  "MEM_ISUSED w a \<longleftrightarrow> w a AND NOT MEM_MASK \<noteq> 0"

definition MEM_POOL :: "memory \<Rightarrow> u32 \<Rightarrow> u32" where
  "MEM_POOL w a = w a AND MEM_MASK"

section \<open>Operations\<close>

text \<open>Merging a block that was freed with its free neighbours.\<close>

definition plug_forward :: "u32 \<Rightarrow> rt_small_mem \<times> memory \<Rightarrow> rt_small_mem \<times> memory" where
  "plug_forward a = (\<lambda>(m, w).
     let nmem = heap_ptr m + w (next_at a)
     in if a \<noteq> nmem \<and> \<not> MEM_ISUSED w nmem \<and> nmem \<noteq> heap_end m
        then let m1 = (if lfree m = nmem then m\<lparr>lfree := a\<rparr> else m);
                 w1 = w(nmem := 0);
                 w2 = w1(next_at a := w1 (next_at nmem));
                 w3 = w2(prev_at (heap_ptr m + w2 (next_at nmem)) := a - heap_ptr m)
             in (m1, w3)
        else (m, w))"

definition plug_backward :: "u32 \<Rightarrow> rt_small_mem \<times> memory \<Rightarrow> rt_small_mem \<times> memory" where
  "plug_backward a = (\<lambda>(m, w).
     let pmem = heap_ptr m + w (prev_at a)
     in if pmem \<noteq> a \<and> \<not> MEM_ISUSED w pmem
        then let m1 = (if lfree m = a then m\<lparr>lfree := pmem\<rparr> else m);
                 w1 = w(a := 0);
                 w2 = w1(next_at pmem := w1 (next_at a));
                 w3 = w2(prev_at (heap_ptr m + w2 (next_at a)) := pmem - heap_ptr m)
             in (m1, w3)
        else (m, w))"

definition plug_holes :: "u32 \<Rightarrow> rt_small_mem \<times> memory \<Rightarrow> (rt_small_mem \<times> memory) option" where
  "plug_holes a = (\<lambda>(m, w). do {
     rt_assert (heap_ptr m \<le> a);
     rt_assert (a < heap_end m);
     Some (plug_backward a (plug_forward a (m, w)))
   })"

text \<open>\<open>rt_smem_init\<close> returns the address of the management structure, 0 for failure.\<close>

definition rt_smem_init :: "u32 \<Rightarrow> u32 \<Rightarrow> smem \<Rightarrow> u32 \<times> smem" where
  "rt_smem_init begin_addr msize h =
     (let small_mem = rt_align begin_addr 8;
          start_addr = small_mem + SIZEOF_SMALL_MEM;
          begin_align = rt_align start_addr 8;
          end_align = rt_align_down (begin_addr + msize) 8
      in if end_align > 2 * SIZEOF_STRUCT_MEM \<and> end_align - 2 * SIZEOF_STRUCT_MEM \<ge> start_addr
         then let mem_size = end_align - begin_align - 2 * SIZEOF_STRUCT_MEM;
                  last = mem_size + SIZEOF_STRUCT_MEM;
                  hend = begin_align + last;
                  w = (words h)(begin_align := MEM_FREED small_mem, next_at begin_align := last,
                        prev_at begin_align := 0, hend := MEM_USED small_mem, next_at hend := last,
                        prev_at hend := last)
              in (small_mem, h\<lparr>words := w, pools := (pools h)(small_mem \<mapsto>
                    \<lparr>heap_ptr = begin_align, heap_end = hend, lfree = begin_align,
                     mem_size_aligned = mem_size, total_size = mem_size, used_size = 0, max_used = 0\<rparr>)\<rparr>)
         else (0, h))"

definition rt_smem_detach :: "u32 \<Rightarrow> smem \<Rightarrow> (rt_err_t \<times> smem) option" where
  "rt_smem_detach s h =
     (if pools h s = None then None else Some (RT_EOK, h\<lparr>pools := (pools h)(s := None)\<rparr>))"

text \<open>The first free block from \<open>ptr\<close> on with at least \<open>size\<close> bytes, as an offset.\<close>

partial_function (option) smem_search :: "rt_small_mem \<Rightarrow> memory \<Rightarrow> u32 \<Rightarrow> u32 \<Rightarrow> u32 option option" where
  "smem_search m w sz p =
     (if p \<le> mem_size_aligned m - sz
      then let mem = heap_ptr m + p
           in if \<not> MEM_ISUSED w mem \<and> w (next_at mem) - (p + SIZEOF_STRUCT_MEM) \<ge> sz
              then Some (Some p)
              else smem_search m w sz (w (next_at mem))
      else Some None)"

text \<open>The next free block from an address on, the end of the heap if there is none.\<close>

partial_function (option) next_free :: "rt_small_mem \<Rightarrow> memory \<Rightarrow> u32 \<Rightarrow> u32 option" where
  "next_free m w a =
     (if MEM_ISUSED w a \<and> a \<noteq> heap_end m then next_free m w (heap_ptr m + w (next_at a)) else Some a)"

definition raise_used :: "u32 \<Rightarrow> rt_small_mem \<Rightarrow> rt_small_mem" where
  "raise_used n m =
     (let u = used_size m + n in m\<lparr>used_size := u, max_used := (if max_used m < u then u else max_used m)\<rparr>)"

text \<open>Cutting the block at the offset \<open>p\<close> behind its first \<open>size\<close> bytes.\<close>

definition smem_split :: "u32 \<Rightarrow> u32 \<Rightarrow> u32 \<Rightarrow> rt_small_mem \<Rightarrow> memory \<Rightarrow> memory" where
  "smem_split s sz p m w =
     (let mem = heap_ptr m + p;
          ptr2 = p + SIZEOF_STRUCT_MEM + sz;
          mem2 = heap_ptr m + ptr2;
          w1 = w(mem2 := MEM_FREED s);
          w2 = w1(next_at mem2 := w1 (next_at mem));
          w3 = w2(prev_at mem2 := p);
          w4 = w3(next_at mem := ptr2)
      in if w4 (next_at mem2) \<noteq> mem_size_aligned m + SIZEOF_STRUCT_MEM
         then w4(prev_at (heap_ptr m + w4 (next_at mem2)) := ptr2)
         else w4)"

text \<open>Taking the block found at the offset \<open>p\<close>.\<close>

definition smem_take :: "u32 \<Rightarrow> u32 \<Rightarrow> u32 \<Rightarrow> rt_small_mem \<times> memory \<Rightarrow> (u32 \<times> rt_small_mem \<times> memory) option" where
  "smem_take s sz p = (\<lambda>(m, w).
     let mem = heap_ptr m + p;
         room = w (next_at mem) - (p + SIZEOF_STRUCT_MEM);
         (m1, w1) = (if room \<ge> sz + SIZEOF_STRUCT_MEM + MIN_SIZE_ALIGNED
                     then (raise_used (sz + SIZEOF_STRUCT_MEM) m, smem_split s sz p m w)
                     else (raise_used (w (next_at mem) - p) m, w));
         w2 = w1(mem := MEM_USED s)
     in do {
       m2 \<leftarrow> (if mem = lfree m1
              then do {
                f \<leftarrow> next_free m1 w2 (lfree m1);
                rt_assert (f = heap_end m1 \<or> \<not> MEM_ISUSED w2 f);
                Some (m1\<lparr>lfree := f\<rparr>)
              }
              else Some m1);
       rt_assert (mem + SIZEOF_STRUCT_MEM + sz \<le> heap_end m2);
       rt_assert ((mem + SIZEOF_STRUCT_MEM) mod 8 = 0);
       rt_assert (mem AND 7 = 0);
       Some (mem + SIZEOF_STRUCT_MEM, m2, w2)
     })"

definition rt_smem_alloc :: "u32 \<Rightarrow> u32 \<Rightarrow> smem \<Rightarrow> (u32 \<times> smem) option" where
  "rt_smem_alloc s msize h =
     (if msize = 0 then Some (0, h)
      else do {
        m \<leftarrow> pools h s;
        let sz = (if rt_align msize 8 < MIN_SIZE_ALIGNED then MIN_SIZE_ALIGNED else rt_align msize 8);
        if sz > mem_size_aligned m then Some (0, h)
        else do {
          found \<leftarrow> smem_search m (words h) sz (lfree m - heap_ptr m);
          case found of
            None \<Rightarrow> Some (0, h)
          | Some p \<Rightarrow> do {
              (r, m', w') \<leftarrow> smem_take s sz p (m, words h);
              Some (r, h\<lparr>words := w', pools := (pools h)(s \<mapsto> m')\<rparr>)
            }
        }
      })"

definition rt_smem_free :: "u32 \<Rightarrow> smem \<Rightarrow> smem option" where
  "rt_smem_free rmem h =
     (if rmem = 0 then Some h
      else do {
        rt_assert (rmem AND 7 = 0);
        let w = words h;
        let mem = rmem - SIZEOF_STRUCT_MEM;
        let small_mem = MEM_POOL w mem;
        rt_assert (small_mem \<noteq> 0);
        rt_assert (MEM_ISUSED w mem);
        m \<leftarrow> pools h small_mem;
        rt_assert (heap_ptr m \<le> rmem \<and> rmem < heap_end m);
        rt_assert (MEM_POOL w (heap_ptr m + w (next_at mem)) = small_mem);
        let w1 = w(mem := MEM_FREED small_mem);
        let m1 = (if mem < lfree m then m\<lparr>lfree := mem\<rparr> else m);
        let m2 = m1\<lparr>used_size := used_size m1 - (w1 (next_at mem) - (mem - heap_ptr m1))\<rparr>;
        (m3, w3) \<leftarrow> plug_holes mem (m2, w1);
        Some (h\<lparr>words := w3, pools := (pools h)(small_mem \<mapsto> m3)\<rparr>)
      })"

text \<open>\<open>rt_memcpy\<close> of \<open>n\<close> bytes, whole words here, between regions that do not overlap.\<close>

definition copy_words :: "u32 \<Rightarrow> u32 \<Rightarrow> u32 \<Rightarrow> memory \<Rightarrow> memory" where
  "copy_words dst src n w = (\<lambda>a. if a - dst < n then w (src + (a - dst)) else w a)"

definition rt_smem_realloc :: "u32 \<Rightarrow> u32 \<Rightarrow> u32 \<Rightarrow> smem \<Rightarrow> (u32 \<times> smem) option" where
  "rt_smem_realloc s rmem newsize0 h =
     do {
       m \<leftarrow> pools h s;
       let newsize = rt_align newsize0 8;
       if newsize > mem_size_aligned m then Some (0, h)
       else if newsize = 0 then do { h1 \<leftarrow> rt_smem_free rmem h; Some (0, h1) }
       else if rmem = 0 then rt_smem_alloc s newsize h
       else do {
         rt_assert (rmem AND 7 = 0);
         rt_assert (heap_ptr m \<le> rmem);
         rt_assert (rmem < heap_end m);
         let w = words h;
         let mem = rmem - SIZEOF_STRUCT_MEM;
         let p = mem - heap_ptr m;
         let sz = w (next_at mem) - p - SIZEOF_STRUCT_MEM;
         if sz = newsize then Some (rmem, h)
         else if newsize + SIZEOF_STRUCT_MEM + MIN_SIZE < sz then do {
           let m1 = m\<lparr>used_size := used_size m - (sz - newsize)\<rparr>;
           let w1 = smem_split s newsize p m1 w;
           let mem2 = heap_ptr m1 + (p + SIZEOF_STRUCT_MEM + newsize);
           let m2 = (if mem2 < lfree m1 then m1\<lparr>lfree := mem2\<rparr> else m1);
           (m3, w3) \<leftarrow> plug_holes mem2 (m2, w1);
           Some (rmem, h\<lparr>words := w3, pools := (pools h)(s \<mapsto> m3)\<rparr>)
         }
         else do {
           (nmem, h1) \<leftarrow> rt_smem_alloc s newsize h;
           if nmem = 0 then Some (0, h1)
           else do {
             let n = (if sz < newsize then sz else newsize);
             h2 \<leftarrow> rt_smem_free rmem (h1\<lparr>words := copy_words nmem rmem n (words h1)\<rparr>);
             Some (nmem, h2)
           }
         }
       }
     }"


section \<open>Addresses\<close>

text \<open>The address at an offset in a heap that begins at \<open>H\<close>; offsets are natural numbers in the proofs.\<close>

definition adr :: "nat \<Rightarrow> nat \<Rightarrow> u32" where
  "adr H k = of_nat (H + k)"

lemma adr_add [simp]:
  "adr H i + of_nat k = adr H (i + k)" "of_nat k + adr H i = adr H (i + k)"
  "adr H i + numeral v = adr H (i + numeral v)" "adr H i - adr H 0 = of_nat i"
  "adr H i + (of_nat k + x) = adr H (i + k) + x" "adr H i + (numeral v + x) = adr H (i + numeral v) + x"
  "adr H i + numeral v * of_nat k = adr H (i + numeral v * k)"
  by (simp_all add: adr_def)

lemma adr_16: "16 \<le> i \<Longrightarrow> adr H i - 16 = adr H (i - 16)"
proof -
  assume "16 \<le> i"
  then have "adr H i = adr H (i - 16) + 16" by simp
  then show ?thesis by (metis add_diff_cancel_right')
qed

lemma u32_nat:
  assumes "i < 2 ^ 32" "j < 2 ^ 32"
  shows "(of_nat i = (of_nat j :: u32)) = (i = j)" "(of_nat i < (of_nat j :: u32)) = (i < j)"
    "(of_nat i \<le> (of_nat j :: u32)) = (i \<le> j)" "unat (of_nat i :: u32) = i"
  using assms by (simp_all add: word_of_nat_eq_iff word_of_nat_less_iff word_of_nat_less_eq_iff
      take_bit_nat_eq_self unsigned_of_nat)

lemma u32_le_diff:
  assumes "n \<le> M" "M < 2 ^ 32" "i < 2 ^ 32"
  shows "(of_nat i \<le> (of_nat M - of_nat n :: u32)) = (i \<le> M - n)"
  using assms by (simp only: of_nat_diff[symmetric]) (rule u32_nat(3), simp_all)

lemma u32_diff: "j \<le> i \<Longrightarrow> of_nat i - of_nat j = (of_nat (i - j) :: u32)"
  by (simp add: of_nat_diff)

lemma adr_cmp:
  assumes "H + i < 2 ^ 32" "H + j < 2 ^ 32"
  shows "(adr H i = adr H j) = (i = j)" "(adr H i < adr H j) = (i < j)" "(adr H i \<le> adr H j) = (i \<le> j)"
  using u32_nat[OF assms] by (simp_all add: adr_def)

section \<open>Blocks\<close>

text \<open>What the memory represents: a list of blocks, free ones with their size and used ones with their
  contents. Sizes include the header.\<close>

datatype blk = Free nat | Used "u32 list"

fun bsize :: "blk \<Rightarrow> nat" where
  "bsize (Free n) = n"
| "bsize (Used d) = 16 + 4 * length d"

fun is_used :: "blk \<Rightarrow> bool" where
  "is_used (Free n) = False"
| "is_used (Used d) = True"

abbreviation tot :: "blk list \<Rightarrow> nat" where
  "tot bs \<equiv> sum_list (map bsize bs)"

definition blk_at :: "memory \<Rightarrow> nat \<Rightarrow> u32 \<Rightarrow> nat \<Rightarrow> nat \<Rightarrow> blk \<Rightarrow> bool" where
  "blk_at w H s p i b \<longleftrightarrow>
     w (adr H i) = (if is_used b then s OR 1 else s) \<and> w (adr H (i + 4)) = of_nat (i + bsize b) \<and>
     w (adr H (i + 8)) = of_nat p \<and>
     (case b of Free _ \<Rightarrow> True | Used d \<Rightarrow> \<forall>k < length d. w (adr H (i + 16 + 4 * k)) = d ! k)"

primrec seg :: "memory \<Rightarrow> nat \<Rightarrow> u32 \<Rightarrow> nat \<Rightarrow> nat \<Rightarrow> blk list \<Rightarrow> bool" where
  "seg w H s p i [] \<longleftrightarrow> True"
| "seg w H s p i (b # bs) \<longleftrightarrow> blk_at w H s p i b \<and> seg w H s i (i + bsize b) bs"

text \<open>The offset of the last block, \<open>p\<close> if there is none.\<close>

primrec lastp :: "nat \<Rightarrow> nat \<Rightarrow> blk list \<Rightarrow> nat" where
  "lastp p i [] = p"
| "lastp p i (b # bs) = lastp i (i + bsize b) bs"

lemma seg_append: "seg w H s p i (xs @ ys) \<longleftrightarrow> seg w H s p i xs \<and> seg w H s (lastp p i xs) (i + tot xs) ys"
  by (induction xs arbitrary: p i) (simp_all add: add.assoc)

lemma lastp_snoc [simp]: "lastp p i (xs @ [b]) = i + tot xs"
  by (induction xs arbitrary: p i) simp_all

definition sized :: "blk list \<Rightarrow> bool" where
  "sized bs \<longleftrightarrow> (\<forall>b \<in> set bs. 16 \<le> bsize b \<and> bsize b mod 8 = 0 \<and> b \<noteq> Used [])"

lemma sized_simps [simp]:
  "sized []" "sized (b # bs) \<longleftrightarrow> 16 \<le> bsize b \<and> bsize b mod 8 = 0 \<and> b \<noteq> Used [] \<and> sized bs"
  "sized (xs @ ys) \<longleftrightarrow> sized xs \<and> sized ys"
  by (auto simp: sized_def)

lemma tot_mod8: "sized bs \<Longrightarrow> tot bs mod 8 = 0"
  by (induction bs) (auto simp: mod_add_eq[symmetric])

text \<open>Memory outside a segment does not matter to it.\<close>

lemma blk_frame:
  assumes "\<And>k. i \<le> k \<Longrightarrow> k < i + bsize b \<Longrightarrow> w' (adr H k) = w (adr H k)" "16 \<le> bsize b"
  shows "blk_at w' H s p i b = blk_at w H s p i b"
  using assms by (cases b) (simp_all add: blk_at_def)

lemma seg_frame:
  assumes "\<And>k. i \<le> k \<Longrightarrow> k < i + tot bs \<Longrightarrow> w' (adr H k) = w (adr H k)" "sized bs"
  shows "seg w' H s p i bs = seg w H s p i bs"
  using assms
proof (induction bs arbitrary: p i)
  case (Cons b bs)
  have "blk_at w' H s p i b = blk_at w H s p i b" by (rule blk_frame) (use Cons.prems in auto)
  moreover have "seg w' H s i (i + bsize b) bs = seg w H s i (i + bsize b) bs"
    by (rule Cons.IH) (use Cons.prems in auto)
  ultimately show ?case by simp
qed simp

lemma seg_upd:
  assumes "j < i \<or> i + tot bs \<le> j" "H + j < 2 ^ 32" "H + i + tot bs \<le> 2 ^ 32" "sized bs"
  shows "seg (w(adr H j := v)) H s p i bs = seg w H s p i bs"
  by (rule seg_frame) (use assms adr_cmp(1) in auto)

text \<open>The back link of the first block is the only trace of its predecessor.\<close>

definition relink :: "nat \<Rightarrow> nat \<Rightarrow> nat \<Rightarrow> memory \<Rightarrow> memory" where
  "relink H i p w = w(adr H (i + 8) := of_nat p)"

lemma seg_relink:
  assumes "seg w H s p i bs" "sized bs" "H + i + tot bs \<le> 2 ^ 32" "H + i + 8 < 2 ^ 32"
  shows "seg (relink H i p' w) H s p' i bs"
proof (cases bs)
  case (Cons b bs')
  have "blk_at (relink H i p' w) H s p' i b"
    using assms Cons by (cases b) (auto simp: blk_at_def relink_def adr_cmp)
  moreover have "seg (relink H i p' w) H s i (i + bsize b) bs'"
    unfolding relink_def by (subst seg_upd) (use assms Cons in auto)
  ultimately show ?thesis using Cons by simp
qed simp


section \<open>Marks\<close>

lemma even_and: "even (s::u32) \<Longrightarrow> s AND - 2 = s"
proof (rule bit_word_eqI)
  fix n assume "even s"
  have "- 2 = NOT (1::u32)" by simp
  then show "bit (s AND - 2) n \<longleftrightarrow> bit s n" if "n < LENGTH(32)"
    using \<open>even s\<close> that by (cases "n = 0") (simp_all add: bit_simps bit_0 even_and_iff)
qed

lemma mark_used:
  assumes "even s" "w a = (if u then s OR 1 else s)"
  shows "MEM_ISUSED w a \<longleftrightarrow> u" "MEM_POOL w a = s"
proof -
  have z: "s AND 1 = 0" using assms(1) by (simp add: and_one_eq even_iff_mod_2_eq_zero)
  show "MEM_ISUSED w a \<longleftrightarrow> u"
    using assms(2) z by (simp add: MEM_ISUSED_def bit.conj_disj_distrib2)
  show "MEM_POOL w a = s"
    using assms(2) even_and[OF assms(1)]
    by (simp add: MEM_POOL_def bit.conj_disj_distrib2)
qed

lemma marks:
  assumes "even s"
  shows "MEM_USED s = s OR 1" "MEM_FREED s = s"
  using even_and[OF assms] by (simp_all add: MEM_USED_def MEM_FREED_def)

lemma blk_atD:
  assumes "blk_at w H s p i b" "even s"
  shows "MEM_ISUSED w (adr H i) \<longleftrightarrow> is_used b" "MEM_POOL w (adr H i) = s"
    "w (adr H (i + 4)) = of_nat (i + bsize b)" "w (adr H (i + 8)) = of_nat p"
  using assms mark_used[OF assms(2), of w "adr H i" "is_used b"] by (auto simp: blk_at_def)

section \<open>The invariant\<close>

text \<open>The first free block, as an offset; the end of the heap if there is none.\<close>

definition first_free :: "blk list \<Rightarrow> nat" where
  "first_free bs = tot (takeWhile is_used bs)"

lemma first_free_simps [simp]:
  "first_free [] = 0" "first_free (Free n # bs) = 0"
  "first_free (Used d # bs) = 16 + 4 * length d + first_free bs"
  by (simp_all add: first_free_def)

lemma first_free_append:
  "first_free (xs @ ys) = (if \<forall>b \<in> set xs. is_used b then tot xs + first_free ys else first_free xs)"
proof (induction xs)
  case (Cons b xs)
  then show ?case by (cases b) auto
qed simp

lemma first_free_le: "first_free bs \<le> tot bs"
proof (induction bs)
  case (Cons b bs)
  then show ?case by (cases b) auto
qed simp

text \<open>No two free blocks touch.\<close>

fun merged :: "blk list \<Rightarrow> bool" where
  "merged (b # c # bs) \<longleftrightarrow> (is_used b \<or> is_used c) \<and> merged (c # bs)"
| "merged _ \<longleftrightarrow> True"

abbreviation used_tot :: "blk list \<Rightarrow> nat" where
  "used_tot bs \<equiv> tot (filter is_used bs)"

lemma used_tot_le: "used_tot bs \<le> tot bs"
  by (induction bs) auto

definition heap_rep :: "u32 \<Rightarrow> blk list \<Rightarrow> rt_small_mem \<Rightarrow> memory \<Rightarrow> bool" where
  "heap_rep s bs m w \<longleftrightarrow>
     (let H = unat (heap_ptr m); E = tot bs
      in s \<noteq> 0 \<and> even s \<and> H mod 8 = 0 \<and> 0 < H \<and> H + E + 16 \<le> 2 ^ 32 \<and> bs \<noteq> [] \<and> sized bs \<and> merged bs \<and>
         seg w H s 0 0 bs \<and> w (adr H E) = s OR 1 \<and> w (adr H (E + 4)) = of_nat E \<and>
         heap_end m = adr H E \<and> mem_size_aligned m = of_nat (E - 16) \<and> lfree m = adr H (first_free bs) \<and>
         used_size m = of_nat (used_tot bs) \<and> used_size m \<le> max_used m)"

lemma heap_repD:
  assumes "heap_rep s bs m w"
  defines "H \<equiv> unat (heap_ptr m)"
  shows "s \<noteq> 0" "even s" "H mod 8 = 0" "H + tot bs + 16 \<le> 2 ^ 32" "bs \<noteq> []" "sized bs" "merged bs"
    "seg w H s 0 0 bs" "w (adr H (tot bs)) = s OR 1" "w (adr H (tot bs + 4)) = of_nat (tot bs)"
    "heap_end m = adr H (tot bs)" "mem_size_aligned m = of_nat (tot bs - 16)"
    "lfree m = adr H (first_free bs)" "used_size m = of_nat (used_tot bs)" "used_size m \<le> max_used m"
    "heap_ptr m = adr H 0" "16 \<le> tot bs" "0 < H"
proof -
  note A = assms(1)[unfolded heap_rep_def Let_def, folded H_def]
  from A show "0 < H" by blast
  from A show "s \<noteq> 0" "even s" "H mod 8 = 0" "H + tot bs + 16 \<le> 2 ^ 32" "bs \<noteq> []" "sized bs" "merged bs"
    "seg w H s 0 0 bs" "w (adr H (tot bs)) = s OR 1" "w (adr H (tot bs + 4)) = of_nat (tot bs)"
    "heap_end m = adr H (tot bs)" "mem_size_aligned m = of_nat (tot bs - 16)"
    "lfree m = adr H (first_free bs)" "used_size m = of_nat (used_tot bs)" "used_size m \<le> max_used m"
    by blast+
  then show "16 \<le> tot bs" by (cases bs) auto
  show "heap_ptr m = adr H 0" by (simp add: H_def adr_def)
qed

section \<open>Searching\<close>

text \<open>First fit.\<close>

fun fit :: "nat \<Rightarrow> nat \<Rightarrow> blk list \<Rightarrow> nat option" where
  "fit n i [] = None"
| "fit n i (Free k # bs) = (if 16 + n \<le> k then Some i else fit n (i + k) bs)"
| "fit n i (Used d # bs) = fit n (i + 16 + 4 * length d) bs"

lemma fit_small: "tot bs < 16 + n \<Longrightarrow> fit n i bs = None"
  by (induction n i bs rule: fit.induct) auto

lemma fit_spec:
  "case fit n i bs of
     None \<Rightarrow> \<forall>k. Free k \<in> set bs \<longrightarrow> k < 16 + n
   | Some j \<Rightarrow> \<exists>xs k ys. bs = xs @ Free k # ys \<and> j = i + tot xs \<and> 16 + n \<le> k \<and>
       (\<forall>l. Free l \<in> set xs \<longrightarrow> l < 16 + n)"
proof (induction n i bs rule: fit.induct)
  case (2 n i k bs)
  show ?case
  proof (cases "16 + n \<le> k")
    case True
    then have fe: "fit n i (Free k # bs) = Some i" by simp
    show ?thesis
      unfolding fe option.case
      by (intro exI[of _ "[]"] exI[of _ k] exI[of _ bs]) (use True in simp)
  next
    case False
    note IH = 2[OF False]
    show ?thesis
    proof (cases "fit n (i + k) bs")
      case (Some j)
      then obtain xs l ys where x: "bs = xs @ Free l # ys" "j = i + k + tot xs" "16 + n \<le> l"
        "\<forall>l. Free l \<in> set xs \<longrightarrow> l < 16 + n" using IH by auto
      have fe: "fit n i (Free k # bs) = Some j" using False Some by simp
      show ?thesis
        unfolding fe option.case
        by (intro exI[of _ "Free k # xs"] exI[of _ l] exI[of _ ys]) (use x False in auto)
    qed (use IH False in auto)
  qed
next
  case (3 n i d bs)
  show ?case
  proof (cases "fit n (i + 16 + 4 * length d) bs")
    case (Some j)
    then obtain xs l ys where x: "bs = xs @ Free l # ys" "j = i + 16 + 4 * length d + tot xs" "16 + n \<le> l"
      "\<forall>l. Free l \<in> set xs \<longrightarrow> l < 16 + n" using 3 by auto
    have fe: "fit n i (Used d # bs) = Some j" using Some by simp
    show ?thesis
      unfolding fe option.case
      by (intro exI[of _ "Used d # xs"] exI[of _ l] exI[of _ ys]) (use x in auto)
  qed (use 3 in auto)
qed simp

lemma fit_first_free: "fit n i bs = fit n (i + first_free bs) (dropWhile is_used bs)"
  by (induction n i bs rule: fit.induct) (simp_all add: add.assoc)

lemma search_fit:
  assumes "seg w H s p i bs" "even s" "sized bs" "H + i + tot bs + 16 \<le> 2 ^ 32" "16 \<le> i + tot bs"
    and "heap_ptr m = adr H 0" "mem_size_aligned m = of_nat M" "M = i + tot bs - 16"
    and "1 \<le> n" "n \<le> M"
  shows "smem_search m w (of_nat n) (of_nat i) = Some (map_option of_nat (fit n i bs))"
  using assms(1,3-)
proof (induction bs arbitrary: p i)
  case Nil
  have "\<not> (of_nat i :: u32) \<le> of_nat M - of_nat n"
    using Nil by (subst u32_le_diff) auto
  then show ?case using Nil(6) by (subst smem_search.simps) simp
next
  case (Cons b bs)
  note B = blk_atD[OF _ assms(2), of w H p i b]
  have b: "blk_at w H s p i b" "16 \<le> bsize b" and rest: "seg w H s i (i + bsize b) bs"
    using Cons.prems by simp_all
  have guard: "(of_nat i :: u32) \<le> mem_size_aligned m - of_nat n \<longleftrightarrow> i \<le> M - n"
    unfolding Cons.prems(6) by (rule u32_le_diff) (use Cons.prems in auto)
  have room: "w (adr H (i + 4)) - (of_nat i + 16) = of_nat (bsize b - 16)"
  proof -
    have "(of_nat i + 16 :: u32) = of_nat (i + 16)" by simp
    then show ?thesis using B(3)[OF b(1)] b(2) by (simp only: u32_diff) (simp add: u32_diff)
  qed
  have "(of_nat n \<le> w (adr H (i + 4)) - (of_nat i + 16)) \<longleftrightarrow> n \<le> bsize b - 16"
    unfolding room by (rule u32_nat(3)) (use Cons.prems in auto)
  then have fits: "(of_nat n \<le> w (adr H (i + 4)) - (of_nat i + 16)) \<longleftrightarrow> 16 + n \<le> bsize b"
    using b(2) by auto
  have IH: "smem_search m w (of_nat n) (of_nat (i + bsize b)) = Some (map_option of_nat (fit n (i + bsize b) bs))"
    by (rule Cons.IH[OF rest]) (use Cons.prems in \<open>simp_all add: add.assoc\<close>)
  show ?case
  proof (cases "i \<le> M - n")
    case False
    then have "tot (b # bs) < 16 + n" using Cons.prems by simp
    from fit_small[OF this] show ?thesis
      using False guard by (subst smem_search.simps) simp
  next
    case True
    have "smem_search m w (of_nat n) (of_nat i) =
        (if \<not> is_used b \<and> 16 + n \<le> bsize b then Some (Some (of_nat i))
         else smem_search m w (of_nat n) (of_nat (i + bsize b)))"
      using True guard B(1,3)[OF b(1)] fits Cons.prems
      by (subst smem_search.simps) simp
    then show ?thesis using IH by (cases b) (simp_all add: add.assoc)
  qed
qed

lemma next_free_ok:
  assumes "seg w H s p i bs" "even s" "sized bs" "H + i + tot bs < 2 ^ 32"
    and "heap_ptr m = adr H 0" "heap_end m = adr H (i + tot bs)"
  shows "next_free m w (adr H i) = Some (adr H (i + first_free bs))"
  using assms(1,3-)
proof (induction bs arbitrary: p i)
  case (Cons b bs)
  have b: "blk_at w H s p i b" "16 \<le> bsize b" using Cons.prems by simp_all
  note B = blk_atD[OF b(1) assms(2)]
  have ne: "adr H i \<noteq> heap_end m" using Cons.prems b(2) by (simp add: adr_cmp)
  have IH: "next_free m w (adr H (i + bsize b)) = Some (adr H (i + bsize b + first_free bs))"
    by (rule Cons.IH[of i]) (use Cons.prems in \<open>simp_all add: add.assoc\<close>)
  show ?case
  proof (cases b)
    case (Used d)
    have "next_free m w (adr H i) = next_free m w (adr H (i + bsize b))"
      using Used B(1,3) ne Cons.prems(4) by (subst next_free.simps) (simp add: add.assoc)
    then show ?thesis using IH Used by (simp add: add.assoc)
  qed (use B(1) in \<open>simp add: next_free.simps\<close>)
qed (simp add: next_free.simps)


section \<open>Cutting a block\<close>

text \<open>Blocks from offset 0 on and the mark behind the last.\<close>

definition layout :: "memory \<Rightarrow> nat \<Rightarrow> u32 \<Rightarrow> blk list \<Rightarrow> bool" where
  "layout w H s bs \<longleftrightarrow> seg w H s 0 0 bs \<and> w (adr H (tot bs)) = s OR 1 \<and> w (adr H (tot bs + 4)) = of_nat (tot bs)"

definition fits_in :: "nat \<Rightarrow> blk list \<Rightarrow> bool" where
  "fits_in H bs \<longleftrightarrow> H + tot bs + 16 \<le> 2 ^ 32 \<and> sized bs"

lemma split_eq:
  assumes "heap_ptr m = adr H 0" "mem_size_aligned m = of_nat (E - 16)" "16 \<le> E" "H + E + 16 \<le> 2 ^ 32"
    and "w (adr H (i + 4)) = of_nat (i + k)" "i + k \<le> E" "32 + n \<le> k" "even s"
  shows "smem_split s (of_nat n) (of_nat i) m w =
    (let w4 = w(adr H (i + 16 + n) := s, adr H (i + 16 + n + 4) := of_nat (i + k),
           adr H (i + 16 + n + 8) := of_nat i, adr H (i + 4) := of_nat (i + 16 + n))
     in if i + k \<noteq> E then relink H (i + k) (i + 16 + n) w4 else w4)"
proof -
  have e: "of_nat (E - 16) + 16 = (of_nat E :: u32)"
    using assms(3) by (simp add: of_nat_diff)
  have ne: "(of_nat (i + k) = (of_nat E :: u32)) = (i + k = E)"
    by (rule u32_nat(1)) (use assms in auto)
  have eqs: "adr H (i + 16 + n + 4) \<noteq> adr H (i + 4)" "adr H (i + 16 + n + 4) \<noteq> adr H (i + 16 + n + 8)"
    "adr H (i + 16 + n) \<noteq> adr H (i + 4)" "adr H (i + 16 + n + 8) \<noteq> adr H (i + 4)"
    by (subst adr_cmp(1); use assms in simp)+
  have p2: "of_nat i + 16 + of_nat n = (of_nat (i + 16 + n) :: u32)" by simp
  have a2: "adr H 0 + of_nat (i + 16 + n) = adr H (i + 16 + n)" by (simp only: adr_add) simp
  have ai: "adr H 0 + of_nat i = adr H i" "adr H i + 4 = adr H (i + 4)" by simp_all
  have aj: "adr H (i + 16 + n) + 4 = adr H (i + 16 + n + 4)" "adr H (i + 16 + n) + 8 = adr H (i + 16 + n + 8)"
    by simp_all
  have ak: "adr H 0 + of_nat (i + k) + 8 = adr H (i + k + 8)" by (simp only: adr_add) simp
  show ?thesis
    unfolding smem_split_def Let_def assms(1,2) p2 a2 ai aj marks(2)[OF assms(8)] e relink_def
    using assms(5) eqs by (simp only: fun_upd_apply simp_thms if_False if_True eqs[symmetric] ne ak)
qed

lemma split_same:
  assumes "smem_split s (of_nat n) (of_nat i) m w = (let w4 = w(adr H (i + 16 + n) := s,
           adr H (i + 16 + n + 4) := of_nat (i + k), adr H (i + 16 + n + 8) := of_nat i,
           adr H (i + 4) := of_nat (i + 16 + n))
     in if i + k \<noteq> E then relink H (i + k) (i + 16 + n) w4 else w4)"
    and "q \<noteq> i + 4" "q < i + 16 + n \<or> i + k \<le> q" "q \<noteq> i + k + 8 \<or> i + k = E" "32 + n \<le> k"
    and "H + q < 2 ^ 32" "H + E + 16 \<le> 2 ^ 32" "i + k \<le> E"
  shows "smem_split s (of_nat n) (of_nat i) m w (adr H q) = w (adr H q)"
proof -
  have "adr H q \<noteq> adr H (i + 16 + n)" "adr H q \<noteq> adr H (i + 16 + n + 4)"
    "adr H q \<noteq> adr H (i + 16 + n + 8)" "adr H q \<noteq> adr H (i + 4)"
    by (subst adr_cmp(1); use assms(2-) in linarith)+
  moreover have "i + k \<noteq> E \<Longrightarrow> adr H q \<noteq> adr H (i + k + 8)"
    by (subst adr_cmp(1)) (use assms(2-) in linarith)+
  ultimately show ?thesis
    unfolding assms(1) Let_def relink_def by simp
qed


lemma layout_split:
  assumes lay: "layout w H s (xs @ b # ys)" and f: "fits_in H (xs @ b # ys)"
    and m: "heap_ptr m = adr H 0" "mem_size_aligned m = of_nat (tot (xs @ b # ys) - 16)"
    and s: "even s" and n: "32 + n \<le> bsize b" and c: "bsize c = 16 + n" "n mod 8 = 0"
    and w'': "w'' = (smem_split s (of_nat n) (of_nat (tot xs)) m w)(adr H (tot xs) := v)"
    and cb: "blk_at w'' H s (lastp 0 0 xs) (tot xs) c"
  shows "layout w'' H s (xs @ c # Free (bsize b - 16 - n) # ys)"
proof -
  let ?i = "tot xs" and ?k = "bsize b" and ?E = "tot (xs @ b # ys)"
  let ?j = "?i + 16 + n"
  have b: "blk_at w H s (lastp 0 0 xs) ?i b" and sx: "seg w H s 0 0 xs" and sy: "seg w H s ?i (?i + ?k) ys"
    and em: "w (adr H ?E) = s OR 1" "w (adr H (?E + 4)) = of_nat ?E"
    using lay by (simp_all add: layout_def seg_append add.assoc)
  have bd: "H + ?E + 16 \<le> 2 ^ 32" "sized xs" "sized ys" "bsize b mod 8 = 0" "16 \<le> ?k"
    using f by (simp_all add: fits_in_def)
  have le: "?i + ?k + tot ys = ?E" by simp
  note B = blk_atD[OF b s]
  have E: "16 \<le> ?E" "?i + ?k \<le> ?E" using bd(5) by simp_all
  note eq = split_eq[where w = w and H = H and m = m and n = n and s = s and k = ?k and E = ?E and i = ?i, OF m E(1) bd(1) B(3) E(2) n s]
  note same = split_same[where w = w and H = H and m = m and n = n and s = s and k = ?k and E = ?E and i = ?i, OF eq _ _ _ n _ bd(1) E(2)]
  have ne: "adr H q \<noteq> adr H ?i" if "q \<noteq> ?i" "H + q < 2 ^ 32" for q
    using that bd(1) E(2) bd(5) by (subst adr_cmp(1)) auto
  have keep: "w'' (adr H q) = w (adr H q)"
    if "q < ?i \<or> ?i + ?k \<le> q" "q \<noteq> ?i + ?k + 8 \<or> ?i + ?k = ?E" "q \<le> ?E + 8" for q
  proof -
    have "adr H q \<noteq> adr H ?i" by (rule ne) (use that bd(1,5) le in linarith)+
    moreover have "smem_split s (of_nat n) (of_nat ?i) m w (adr H q) = w (adr H q)"
      by (rule same) (use that bd(1,5) n le in linarith)+
    ultimately show ?thesis unfolding w'' by simp
  qed
  have x: "seg w'' H s 0 0 xs"
    by (subst seg_frame[of 0 xs w'' H w]) (use keep sx bd E in auto)
  have w4: "w'' (adr H ?j) = s" "w'' (adr H (?j + 4)) = of_nat (?i + ?k)" "w'' (adr H (?j + 8)) = of_nat ?i"
  proof -
    have d: "adr H ?j \<noteq> adr H ?i" "adr H (?j + 4) \<noteq> adr H ?i" "adr H (?j + 8) \<noteq> adr H ?i"
      "adr H ?j \<noteq> adr H (?i + 4)" "adr H (?j + 4) \<noteq> adr H (?i + 4)" "adr H (?j + 8) \<noteq> adr H (?i + 4)"
      "adr H ?j \<noteq> adr H (?j + 4)" "adr H ?j \<noteq> adr H (?j + 8)" "adr H (?j + 4) \<noteq> adr H (?j + 8)"
      by (subst adr_cmp(1); use bd(1) E(2) n in linarith)+
    have d2: "adr H ?j \<noteq> adr H (?i + ?k + 8)" "adr H (?j + 4) \<noteq> adr H (?i + ?k + 8)"
      "adr H (?j + 8) \<noteq> adr H (?i + ?k + 8)" if "?i + ?k \<noteq> ?E"
      by (subst adr_cmp(1); use bd(1) E(2) n that in linarith)+
    show "w'' (adr H ?j) = s" "w'' (adr H (?j + 4)) = of_nat (?i + ?k)" "w'' (adr H (?j + 8)) = of_nat ?i"
      unfolding w'' eq Let_def relink_def using d d2 by auto
  qed
  have fr: "blk_at w'' H s ?i ?j (Free (?k - 16 - n))"
    using w4 n by (simp add: blk_at_def algebra_simps)
  have y: "seg w'' H s ?j (?i + ?k) ys"
  proof (cases "ys = []")
    case False
    then have ty: "16 \<le> tot ys" using bd(3) by (cases ys) auto
    have r: "seg (relink H (?i + ?k) ?j w) H s ?j (?i + ?k) ys"
      by (rule seg_relink[OF sy bd(3)]) (use bd(1) le ty in linarith)+
    have "w'' (adr H q) = relink H (?i + ?k) ?j w (adr H q)" if "?i + ?k \<le> q" "q < ?E" for q
    proof (cases "q = ?i + ?k + 8")
      case True
      have "adr H (?i + ?k + 8) \<noteq> adr H ?i" by (rule ne) (use bd(1) le ty in linarith)+
      moreover have "?i + ?k \<noteq> ?E" using ty le by linarith
      ultimately show ?thesis
        using True unfolding w'' eq Let_def relink_def by (simp only: fun_upd_apply if_True refl if_False simp_thms)
    next
      case False
      have "adr H q \<noteq> adr H (?i + ?k + 8)"
        by (subst adr_cmp(1)) (use False that bd(1) le ty in linarith)+
      then show ?thesis using keep[of q] that False by (simp add: relink_def)
    qed
    then show ?thesis
      using r by (subst seg_frame[of "?i + ?k" ys w'' H "relink H (?i + ?k) ?j w"]) (use bd(3) le in auto)
  qed simp
  have ty0: "tot ys = 0 \<or> 16 \<le> tot ys" using bd(3) by (cases ys) auto
  have t: "tot (xs @ c # Free (?k - 16 - n) # ys) = ?E" using c(1) n by simp
  have "w'' (adr H ?E) = s OR 1" "w'' (adr H (?E + 4)) = of_nat ?E"
    unfolding em[symmetric] by (rule keep; use ty0 le in arith)+
  moreover have "seg w'' H s 0 0 (xs @ c # Free (?k - 16 - n) # ys)"
    using x cb fr y c(1) n by (simp add: seg_append add.assoc)
  ultimately show ?thesis unfolding layout_def t by simp
qed


section \<open>Allocating\<close>

definition content :: "memory \<Rightarrow> nat \<Rightarrow> nat \<Rightarrow> nat \<Rightarrow> u32 list" where
  "content w H i n = map (\<lambda>k. w (adr H (i + 16 + 4 * k))) [0..<n]"

lemma length_content [simp]: "length (content w H i n) = n"
  by (simp add: content_def)

text \<open>A block changes its mark, or becomes used with the contents the memory happens to hold.\<close>

lemma layout_mark:
  assumes lay: "layout w H s (xs @ b # ys)" and f: "fits_in H (xs @ b # ys)" and c: "bsize c = bsize b"
    and used: "\<And>d. c = Used d \<Longrightarrow> d = content w H (tot xs) (length d)"
  shows "layout (w(adr H (tot xs) := (if is_used c then s OR 1 else s))) H s (xs @ c # ys)"
proof -
  let ?i = "tot xs" and ?E = "tot (xs @ b # ys)" and ?v = "if is_used c then s OR 1 else s"
  let ?w = "w(adr H ?i := ?v)"
  have b: "blk_at w H s (lastp 0 0 xs) ?i b" and sx: "seg w H s 0 0 xs"
    and sy: "seg w H s ?i (?i + bsize b) ys" and em: "w (adr H ?E) = s OR 1" "w (adr H (?E + 4)) = of_nat ?E"
    using lay by (simp_all add: layout_def seg_append add.assoc)
  have bd: "H + ?E + 16 \<le> 2 ^ 32" "sized xs" "sized ys" "16 \<le> bsize b"
    using f by (simp_all add: fits_in_def)
  have E: "?i + bsize b + tot ys = ?E" by simp
  have ne: "adr H q \<noteq> adr H ?i" if "q \<noteq> ?i" "q \<le> ?E + 8" for q
    using that bd(1) by (subst adr_cmp(1)) auto
  have "blk_at ?w H s (lastp 0 0 xs) ?i c"
  proof (cases c)
    case (Free n)
    then show ?thesis using b c ne[of "?i + 4"] ne[of "?i + 8"] by (simp add: blk_at_def)
  next
    case (Used d)
    have "adr H (?i + 16 + 4 * k) \<noteq> adr H ?i" if "k < length d" for k
      by (rule ne) (use that c Used E in auto)
    moreover have "d ! k = w (adr H (?i + 16 + 4 * k))" if "k < length d" for k
      using arg_cong[OF used[OF Used], of "\<lambda>l. l ! k"] that by (simp add: content_def)
    ultimately show ?thesis
      using Used b c ne[of "?i + 4"] ne[of "?i + 8"] by (simp add: blk_at_def)
  qed
  moreover have "seg ?w H s 0 0 xs" using sx bd by (subst seg_upd) auto
  moreover have "seg ?w H s ?i (?i + bsize c) ys" using sy bd c by (subst seg_upd) auto
  moreover have "?w (adr H ?E) = s OR 1" "?w (adr H (?E + 4)) = of_nat ?E"
    using em ne[of ?E] ne[of "?E + 4"] bd(4) by auto
  ultimately show ?thesis using c by (simp add: layout_def seg_append add.assoc)
qed

lemma merged_append:
  "merged (xs @ ys) \<longleftrightarrow> merged xs \<and> merged ys \<and> (xs = [] \<or> ys = [] \<or> is_used (last xs) \<or> is_used (hd ys))"
  by (induction xs rule: merged.induct) (cases ys; auto)+

lemma merged_Cons: "merged (b # bs) \<longleftrightarrow> merged bs \<and> (bs = [] \<or> is_used b \<or> is_used (hd bs))"
  by (cases bs) auto

lemma first_free_cases:
  obtains "first_free bs = tot bs" "\<forall>b \<in> set bs. is_used b"
  | us n ys where "bs = us @ Free n # ys" "first_free bs = tot us" "\<forall>b \<in> set us. is_used b"
proof (cases "\<forall>b \<in> set bs. is_used b")
  case True
  then have "takeWhile is_used bs = bs" by (simp add: takeWhile_eq_all_conv)
  then have "first_free bs = tot bs" by (simp only: first_free_def)
  then show ?thesis using that(1) True by blast
next
  case False
  then obtain us b ys where b: "bs = us @ b # ys" "\<not> is_used b" "\<forall>c \<in> set us. is_used c"
    using split_list_first_prop[of bs "\<lambda>b. \<not> is_used b"] by auto
  then obtain n where n: "b = Free n" by (cases b) auto
  have "first_free (us @ Free n # ys) = tot us" using b(3) by (simp add: first_free_append)
  then show ?thesis using that(2)[OF b(1)[unfolded n] _ b(3)] unfolding b(1) n by blast
qed

lemma first_free_mark:
  assumes "seg w H s p i bs" "even s"
  shows "first_free bs = tot bs \<or> \<not> MEM_ISUSED w (adr H (i + first_free bs))"
proof (cases rule: first_free_cases[of bs])
  case (2 us n ys)
  then show ?thesis
    using assms blk_atD(1)[OF _ assms(2), of w H "lastp p i us" "i + tot us" "Free n"]
    by (simp add: seg_append)
qed simp

lemma adr_aligned:
  assumes "H mod 8 = 0" "i mod 8 = 0"
  shows "adr H i mod 8 = 0" "adr H i AND 7 = 0"
proof -
  have "(H + i) mod 8 = 0" using assms by auto
  then obtain q where q: "H + i = 8 * q" by (metis mod_0_imp_dvd dvdE)
  have m: "adr H i AND 7 = take_bit 3 (adr H i)"
    by (simp add: take_bit_eq_mask mask_eq_exp_minus_1)
  have "take_bit 3 (push_bit 3 (of_nat q) :: u32) = 0" by (rule bit_word_eqI) (auto simp: bit_simps)
  moreover have "adr H i = push_bit 3 (of_nat q)" by (simp add: adr_def q push_bit_eq_mult mult.commute)
  ultimately show "adr H i AND 7 = 0" unfolding m by simp
  then show "adr H i mod 8 = 0" unfolding m by (simp add: take_bit_eq_mod)
qed

lemma heap_rep_iff:
  "heap_rep s bs m w \<longleftrightarrow>
     (let H = unat (heap_ptr m); E = tot bs
      in s \<noteq> 0 \<and> even s \<and> H mod 8 = 0 \<and> 0 < H \<and> fits_in H bs \<and> bs \<noteq> [] \<and> merged bs \<and> layout w H s bs \<and>
         heap_end m = adr H E \<and> mem_size_aligned m = of_nat (E - 16) \<and> lfree m = adr H (first_free bs) \<and>
         used_size m = of_nat (used_tot bs) \<and> used_size m \<le> max_used m)"
  by (auto simp: heap_rep_def Let_def fits_in_def layout_def)


lemma heap_repI:
  assumes "unat (heap_ptr m) = H" "tot bs = E" "s \<noteq> 0" "even s" "H mod 8 = 0" "0 < H" "fits_in H bs" "bs \<noteq> []"
    "merged bs" "layout w H s bs" "heap_end m = adr H E" "mem_size_aligned m = of_nat (E - 16)"
    "lfree m = adr H (first_free bs)" "used_size m = of_nat u" "used_tot bs = u" "used_size m \<le> max_used m"
  shows "heap_rep s bs m w"
  unfolding heap_rep_iff Let_def assms(1,2) using assms(3-14,16) unfolding assms(15) by blast

text \<open>What an allocation of \<open>n\<close> bytes at the free block in front of \<open>ys\<close> leaves: the block is cut when
  the rest can hold a header and the least number of bytes.\<close>

definition carve :: "nat \<Rightarrow> nat \<Rightarrow> u32 list \<Rightarrow> blk list \<Rightarrow> blk list" where
  "carve n k d ys = (if n + 48 \<le> k then Used d # Free (k - 16 - n) # ys else Used d # ys)"

definition carved :: "nat \<Rightarrow> nat \<Rightarrow> nat" where
  "carved n k = (if n + 48 \<le> k then n else k - 16)"

lemma carve_simps:
  assumes "16 + n \<le> k" "length d = carved n k div 4" "n mod 8 = 0" "k mod 8 = 0"
  shows "tot (carve n k d ys) = k + tot ys" "bsize (Used d) = 16 + carved n k"
    "used_tot (carve n k d ys) = 16 + carved n k + used_tot ys"
proof -
  have "carved n k mod 4 = 0" using assms by (auto simp: carved_def)
  then show 1: "bsize (Used d) = 16 + carved n k" using assms(2) by auto
  show "tot (carve n k d ys) = k + tot ys" "used_tot (carve n k d ys) = 16 + carved n k + used_tot ys"
    using 1 assms(1) by (auto simp: carve_def carved_def)
qed

lemma take_layout:
  assumes lay: "layout w H s (xs @ Free k # ys)" and f: "fits_in H (xs @ Free k # ys)"
    and m: "heap_ptr m = adr H 0" "mem_size_aligned m = of_nat (tot (xs @ Free k # ys) - 16)"
    and s: "even s" and n: "16 + n \<le> k" "n mod 8 = 0"
  defines "w1 \<equiv> (if n + 48 \<le> k then smem_split s (of_nat n) (of_nat (tot xs)) m w else w)"
  shows "\<exists>d. length d = carved n k div 4 \<and>
    layout (w1(adr H (tot xs) := s OR 1)) H s (xs @ carve n k d ys)"
proof (cases "n + 48 \<le> k")
  case False
  let ?d = "content w H (tot xs) ((k - 16) div 4)"
  have "k mod 8 = 0" using f by (simp add: fits_in_def)
  then have c: "bsize (Used ?d) = bsize (Free k)" using n by simp presburger
  have "layout (w(adr H (tot xs) := s OR 1)) H s (xs @ Used ?d # ys)"
    using layout_mark[OF lay f c] by simp
  then show ?thesis using False by (auto simp: w1_def carve_def carved_def intro!: exI[of _ ?d])
next
  case True
  let ?i = "tot xs" and ?E = "tot (xs @ Free k # ys)"
  let ?w = "(smem_split s (of_nat n) (of_nat ?i) m w)(adr H ?i := s OR 1)"
  let ?d = "content ?w H ?i (n div 4)"
  have b: "blk_at w H s (lastp 0 0 xs) ?i (Free k)"
    using lay by (simp add: layout_def seg_append)
  have bd: "H + ?E + 16 \<le> 2 ^ 32" using f by (simp add: fits_in_def)
  have E: "16 \<le> ?E" "?i + k \<le> ?E" using n by simp_all
  have n32: "32 + n \<le> k" using True by simp
  have B: "w (adr H (?i + 4)) = of_nat (?i + k)" "w (adr H (?i + 8)) = of_nat (lastp 0 0 xs)"
    using blk_atD(3,4)[OF b s] by simp_all
  note eq = split_eq[where w = w and H = H and m = m and n = n and s = s and k = k and E = ?E and i = ?i,
      OF m E(1) bd B(1) E(2) n32 s]
  have ne: "adr H q \<noteq> adr H ?i" if "q \<noteq> ?i" "q \<le> ?E" for q
    using that bd E(2) by (subst adr_cmp(1)) auto
  have c: "bsize (Used ?d) = 16 + n" using n(2) by simp presburger
  have "smem_split s (of_nat n) (of_nat ?i) m w (adr H (?i + 8)) = w (adr H (?i + 8))"
    by (rule split_same[where w = w and H = H and m = m and n = n and s = s and k = k and E = ?E and i = ?i,
        OF eq _ _ _ n32 _ bd E(2)]) (use bd E n32 in linarith)+
  then have w8: "?w (adr H (?i + 8)) = of_nat (lastp 0 0 xs)"
    using ne[of "?i + 8"] B(2) E n32 by simp
  have "smem_split s (of_nat n) (of_nat ?i) m w (adr H (?i + 4)) = of_nat (?i + 16 + n)"
  proof -
    have "adr H (?i + 4) \<noteq> adr H (?i + k + 8)"
      by (subst adr_cmp(1)) (use bd E n32 in linarith)+
    then show ?thesis unfolding eq Let_def relink_def by simp
  qed
  then have "?w (adr H (?i + 4)) = of_nat (?i + 16 + n)" using ne[of "?i + 4"] E n32 by simp
  with w8 have "blk_at ?w H s (lastp 0 0 xs) ?i (Used ?d)"
    using c by (simp add: blk_at_def content_def)
  from layout_split[OF lay f m s _ c n(2) refl this]
  show ?thesis using True by (auto simp: w1_def carve_def carved_def intro!: exI[of _ ?d])
qed


lemma first_free_less:
  assumes "sized xs" "\<not> (\<forall>b \<in> set xs. is_used b)"
  shows "first_free xs < tot xs"
proof (cases rule: first_free_cases[of xs])
  case (2 us n ys)
  have "16 \<le> n" using assms(1) by (simp add: 2(1))
  moreover have "tot xs = tot us + n + tot ys" by (simp add: 2(1))
  ultimately show ?thesis using 2(2) by simp
qed (use assms in blast)

lemma raise_used_simps [simp]:
  "heap_ptr (raise_used n m) = heap_ptr m" "heap_end (raise_used n m) = heap_end m"
  "lfree (raise_used n m) = lfree m" "mem_size_aligned (raise_used n m) = mem_size_aligned m"
  "total_size (raise_used n m) = total_size m" "used_size (raise_used n m) = used_size m + n"
  "used_size m + n \<le> max_used (raise_used n m)"
  by (auto simp: raise_used_def Let_def)

lemma smem_take_ok:
  assumes rep: "heap_rep s (xs @ Free k # ys) m w" and n: "16 + n \<le> k" "n mod 8 = 0" "16 \<le> n"
  defines "H \<equiv> unat (heap_ptr m)"
  shows "\<exists>d m' w'. smem_take s (of_nat n) (of_nat (tot xs)) (m, w) = Some (adr H (tot xs + 16), m', w') \<and>
    length d = carved n k div 4 \<and> heap_rep s (xs @ carve n k d ys) m' w' \<and>
    heap_ptr m' = heap_ptr m \<and> total_size m' = total_size m"
proof -
  let ?bs = "xs @ Free k # ys" and ?i = "tot xs"
  let ?E = "tot ?bs"
  note R = rep[unfolded heap_rep_iff Let_def, folded H_def]
  have s: "even s" "s \<noteq> 0" and H8: "H mod 8 = 0" "0 < H" and f: "fits_in H ?bs" and lay: "layout w H s ?bs"
    and mg: "merged ?bs" using R by blast+
  have m: "heap_ptr m = adr H 0" "mem_size_aligned m = of_nat (?E - 16)" "heap_end m = adr H ?E"
    "lfree m = adr H (first_free ?bs)" "used_size m = of_nat (used_tot ?bs)"
    using R heap_repD(16)[OF rep] by (simp_all only: H_def)
  have bd: "H + ?E + 16 \<le> 2 ^ 32" "sized xs" "sized ys" "k mod 8 = 0" "16 \<le> k"
    using f by (simp_all add: fits_in_def)
  have E: "?i + k + tot ys = ?E" by simp
  have b: "blk_at w H s (lastp 0 0 xs) ?i (Free k)" using lay by (simp add: layout_def seg_append)
  have nx: "w (adr H (?i + 4)) = of_nat (?i + k)" using blk_atD(3)[OF b s(1)] by simp
  define w1 where "w1 = (if n + 48 \<le> k then smem_split s (of_nat n) (of_nat ?i) m w else w)"
  define w2 where "w2 = w1(adr H ?i := s OR 1)"
  obtain d where d: "length d = carved n k div 4" "layout w2 H s (xs @ carve n k d ys)"
    using take_layout[OF lay f m(1,2) s(1) n(1,2)] unfolding w1_def w2_def by blast
  let ?bs' = "xs @ carve n k d ys"
  note C = carve_simps[OF n(1) d(1) n(2) bd(4)]
  have t: "tot ?bs' = ?E" using C(1) by simp
  have ud: "used_tot ?bs' = used_tot ?bs + (16 + carved n k)" using C(3) by simp
  have szc: "sized (carve n k d ys)"
  proof -
    have "(16 + carved n k) mod 8 = 0" using n(2) bd(4,5) by (auto simp: carved_def)
    moreover have "n + 48 \<le> k \<Longrightarrow> (k - 16 - n) mod 8 = 0" using n bd(4) by presburger
    moreover have "d \<noteq> []" using d(1) n by (auto simp: carved_def split: if_splits)
    ultimately show ?thesis using C(2) bd(3) by (auto simp: carve_def)
  qed
  have mg': "merged ?bs'" using mg by (auto simp: merged_append carve_def merged_Cons)
  define m1 where "m1 = raise_used (of_nat (16 + carved n k)) m"
  have room: "w (adr H (?i + 4)) - (of_nat ?i + 16) = of_nat (k - 16)"
  proof -
    have "(of_nat ?i + 16 :: u32) = of_nat (?i + 16)" by simp
    then show ?thesis unfolding nx using bd(5) by (simp only: u32_diff) (simp add: u32_diff)
  qed
  have cond: "(of_nat (k - 16) \<ge> of_nat n + 16 + (16 :: u32)) \<longleftrightarrow> n + 48 \<le> k"
  proof -
    have e: "of_nat n + 16 + 16 = (of_nat (n + 32) :: u32)" by simp
    have "(of_nat (n + 32) \<le> (of_nat (k - 16) :: u32)) \<longleftrightarrow> n + 32 \<le> k - 16"
      by (rule u32_nat(3)) (use bd E n H8(2) in linarith)+
    then show ?thesis unfolding e using bd(5) by auto
  qed
  have ms: "(if of_nat (k - 16) \<ge> of_nat n + 16 + (16 :: u32)
      then (raise_used (of_nat n + 16) m, smem_split s (of_nat n) (of_nat ?i) m w)
      else (raise_used (w (adr H (?i + 4)) - of_nat ?i) m, w)) = (m1, w1)"
  proof -
    have "of_nat n + 16 = (of_nat (16 + n) :: u32)" by simp
    moreover have "of_nat (?i + k) - of_nat ?i = (of_nat k :: u32)" by simp
    ultimately show ?thesis unfolding cond nx m1_def w1_def using bd(5) by (simp only: carved_def) auto
  qed
  have m1: "heap_ptr m1 = adr H 0" "heap_end m1 = adr H ?E" "lfree m1 = adr H (first_free ?bs)"
    "mem_size_aligned m1 = of_nat (?E - 16)" "total_size m1 = total_size m"
    "used_size m1 = of_nat (used_tot ?bs')"
    using m by (simp_all only: m1_def raise_used_simps ud of_nat_add)
  have mx: "used_size m1 \<le> max_used m1"
    unfolding m1_def raise_used_simps(6) by (rule raise_used_simps(7))
  have ffle: "first_free ?bs \<le> ?E" by (rule first_free_le)
  have isl: "adr H ?i = lfree m1 \<longleftrightarrow> (\<forall>b \<in> set xs. is_used b)"
  proof -
    have "adr H ?i = lfree m1 \<longleftrightarrow> ?i = first_free ?bs"
      unfolding m1(3) by (rule adr_cmp(1)) (use bd E ffle in linarith)+
    also have "\<dots> \<longleftrightarrow> (\<forall>b \<in> set xs. is_used b)"
    proof (cases "\<forall>b \<in> set xs. is_used b")
      case False
      then have "first_free ?bs = first_free xs" by (auto simp: first_free_append)
      then show ?thesis using first_free_less[OF bd(2) False] False by simp
    qed (simp add: first_free_append)
    finally show ?thesis .
  qed
  have sg: "seg w2 H s (lastp 0 0 xs) ?i (carve n k d ys)"
    using d(2) by (simp add: layout_def seg_append)
  let ?g = "adr H (?i + first_free (carve n k d ys))"
  have nf: "next_free m1 w2 (adr H ?i) = Some ?g"
    by (rule next_free_ok[OF sg s(1) szc]) (use m1(1,2) C(1) E bd(1) t in \<open>simp_all add: add.assoc\<close>)
  have gm: "?g = heap_end m1 \<or> \<not> MEM_ISUSED w2 ?g"
    using first_free_mark[OF sg s(1)] C(1) m1(2) by auto
  define m2 where "m2 = m1\<lparr>lfree := adr H (first_free ?bs')\<rparr>"
  have step: "(if adr H ?i = lfree m1 then do {
        f \<leftarrow> next_free m1 w2 (lfree m1);
        rt_assert (f = heap_end m1 \<or> \<not> MEM_ISUSED w2 f);
        Some (m1\<lparr>lfree := f\<rparr>) } else Some m1) = Some m2"
  proof (cases "\<forall>b \<in> set xs. is_used b")
    case True
    then have "first_free ?bs' = ?i + first_free (carve n k d ys)" by (simp add: first_free_append)
    then have m2: "m2 = m1\<lparr>lfree := ?g\<rparr>" by (simp only: m2_def)
    have l: "lfree m1 = adr H ?i" by (rule isl[THEN iffD2, OF True, symmetric])
    have g: "rt_assert (?g = heap_end m1 \<or> \<not> MEM_ISUSED w2 ?g) = Some ()" using gm by (simp only: rt_assert_def if_True)
    show ?thesis unfolding l nf m2 by (simp only: if_True refl bind.bind_lunit g)
  next
    case False
    then have "first_free ?bs' = first_free ?bs" by (auto simp: first_free_append)
    then have "m2 = m1\<lparr>lfree := lfree m1\<rparr>" by (simp only: m2_def m1(3))
    moreover have "adr H ?i \<noteq> lfree m1" using False isl by blast
    ultimately show ?thesis by simp
  qed
  have rep': "heap_rep s ?bs' m2 w2"
  proof -
    have "heap_ptr m2 = heap_ptr m" using m1(1) m(1) by (simp add: m2_def)
    then have H2: "unat (heap_ptr m2) = H" by (simp only: H_def)
    have "sized ?bs'" using bd(2) szc by simp
    have x1: "H + tot ?bs' + 16 \<le> 2 ^ 32"
      unfolding t
      by (rule bd(1))
    have f': "fits_in H ?bs'"
      unfolding fits_in_def
      by (rule conjI[OF x1 \<open>sized ?bs'\<close>])
    show ?thesis
      unfolding heap_rep_iff Let_def H2
      using s H8 f' d(2) m1 mx mg' t by (simp add: m2_def carve_def)
  qed
  have al: "adr H ?i AND 7 = 0" "adr H (?i + 16) mod 8 = 0"
  proof -
    have i8: "?i mod 8 = 0" by (rule tot_mod8[OF bd(2)])
    show "adr H ?i AND 7 = 0" by (rule adr_aligned(2)[OF H8(1) i8])
    show "adr H (?i + 16) mod 8 = 0" by (rule adr_aligned(1)[OF H8(1)]) (use i8 in presburger)
  qed
  have en: "adr H (?i + 16) + of_nat n \<le> heap_end m2"
  proof -
    have "adr H (?i + 16 + n) \<le> adr H ?E" by (subst adr_cmp(3)) (use bd(1) E n(1) in linarith)+
    then show ?thesis using m1(2) by (simp add: m2_def)
  qed
  have "adr H 0 + of_nat ?i = adr H ?i" "adr H ?i + 4 = adr H (?i + 4)" by simp_all
  moreover have "adr H ?i + 16 = adr H (?i + 16)" by simp
  ultimately have "smem_take s (of_nat n) (of_nat ?i) (m, w) = Some (adr H (?i + 16), m2, w2)"
    unfolding smem_take_def Let_def prod.case m(1)
    by (simp only: room ms prod.case marks(1)[OF s(1)] w2_def[symmetric] step bind.bind_lunit al en
        rt_assert_simps simp_thms)
  moreover have "heap_ptr m2 = heap_ptr m" "total_size m2 = total_size m"
    using m1(1,5) m(1) by (simp_all add: m2_def)
  ultimately show ?thesis using rep' d(1) by blast
qed


text \<open>First fit among the free blocks, or nothing.\<close>

definition allocated :: "nat \<Rightarrow> nat \<Rightarrow> blk list \<Rightarrow> u32 \<Rightarrow> blk list \<Rightarrow> bool" where
  "allocated H n bs r bs' \<longleftrightarrow>
     (if \<exists>k. Free k \<in> set bs \<and> 16 + n \<le> k
      then \<exists>xs k ys d. bs = xs @ Free k # ys \<and> 16 + n \<le> k \<and> (\<forall>l. Free l \<in> set xs \<longrightarrow> l < 16 + n) \<and>
        length d = carved n k div 4 \<and> r = adr H (tot xs + 16) \<and> bs' = xs @ carve n k d ys
      else r = 0 \<and> bs' = bs)"

text \<open>A heap of the system: its management structure and the memory represent the blocks.\<close>

definition heap_is :: "u32 \<Rightarrow> nat \<Rightarrow> blk list \<Rightarrow> smem \<Rightarrow> bool" where
  "heap_is s H bs h \<longleftrightarrow> (\<exists>m. pools h s = Some m \<and> heap_rep s bs m (words h) \<and> unat (heap_ptr m) = H)"

definition request :: "u32 \<Rightarrow> nat" where
  "request msize = max 16 ((unat msize + 7) div 8 * 8)"

lemma search_ok:
  assumes rep: "heap_rep s bs m w" and n: "1 \<le> n" "n \<le> tot bs - 16"
  shows "smem_search m w (of_nat n) (lfree m - heap_ptr m) = Some (map_option of_nat (fit n 0 bs))"
proof -
  let ?H = "unat (heap_ptr m)" and ?ds = "dropWhile is_used bs" and ?us = "takeWhile is_used bs"
  note R = heap_repD[OF rep]
  have bs: "?us @ ?ds = bs" by simp
  have ff: "tot ?us = first_free bs" by (simp add: first_free_def)
  have tt: "first_free bs + tot ?ds = tot bs"
  proof -
    have "tot (?us @ ?ds) = tot bs" by (simp only: bs)
    then show ?thesis by (simp only: map_append sum_list_append ff)
  qed
  have sg: "seg w ?H s (lastp 0 0 ?us) (first_free bs) ?ds"
    using R(8) by (subst (asm) bs[symmetric], subst (asm) seg_append) (simp add: ff)
  have szd: "sized ?ds" using R(6) by (subst (asm) bs[symmetric]) (simp only: sized_simps)
  have "lfree m - heap_ptr m = of_nat (first_free bs)"
    unfolding R(13) by (subst (2) R(16)) simp
  moreover have "smem_search m w (of_nat n) (of_nat (first_free bs)) =
      Some (map_option of_nat (fit n (first_free bs) ?ds))"
    by (rule search_fit[OF sg R(2) szd _ _ R(16) R(12) _ n(1)]) (use R(4,17) n(2) tt in auto)
  moreover have "fit n 0 bs = fit n (first_free bs) ?ds" using fit_first_free[of n 0 bs] by simp
  ultimately show ?thesis by simp
qed

lemma request_word:
  assumes "unat msize + 7 < 2 ^ 32"
  shows "(if rt_align msize 8 < MIN_SIZE_ALIGNED then MIN_SIZE_ALIGNED else rt_align msize 8) =
      of_nat (request msize)" "request msize mod 8 = 0" "16 \<le> request msize" "request msize < 2 ^ 32"
proof -
  let ?a = "(unat msize + 7) div 8 * 8"
  have a: "unat (rt_align msize 8) = ?a" by (rule unat_rt_align8[OF assms])
  then have w: "rt_align msize 8 = of_nat ?a" unfolding a[symmetric] by simp
  have lt: "?a < 2 ^ 32" using unsigned_less[of "rt_align msize 8", where 'a = nat] a by simp
  have "rt_align msize 8 < MIN_SIZE_ALIGNED \<longleftrightarrow> ?a < 16" using a by (simp add: word_less_nat_alt)
  then show "(if rt_align msize 8 < MIN_SIZE_ALIGNED then MIN_SIZE_ALIGNED else rt_align msize 8) =
      of_nat (request msize)"
    using w by (simp add: request_def max_def)
  show "request msize mod 8 = 0" "16 \<le> request msize" "request msize < 2 ^ 32"
    using lt by (auto simp: request_def max_def)
qed

lemma smem_alloc_ok:
  assumes heap: "heap_is s H bs h" and sz: "msize \<noteq> 0"
    and n: "(if rt_align msize 8 < MIN_SIZE_ALIGNED then MIN_SIZE_ALIGNED else rt_align msize 8) = of_nat n"
      "n mod 8 = 0" "16 \<le> n" "n < 2 ^ 32"
  shows "ok (rt_smem_alloc s msize h) (\<lambda>(r, h'). \<exists>bs'. heap_is s H bs' h' \<and> allocated H n bs r bs' \<and>
    (\<forall>t. t \<noteq> s \<longrightarrow> pools h' t = pools h t))"
proof -
  obtain m where m: "pools h s = Some m" "heap_rep s bs m (words h)" "unat (heap_ptr m) = H"
    using heap by (auto simp: heap_is_def)
  note R = heap_repD[OF m(2)]
  have lim: "(of_nat n \<le> mem_size_aligned m) \<longleftrightarrow> n \<le> tot bs - 16"
    unfolding R(12) by (rule u32_nat(3)) (use n(4) R(4) in auto)
  have none: "allocated H n bs 0 bs" if "\<forall>k. Free k \<in> set bs \<longrightarrow> k < 16 + n"
    using that by (auto simp: allocated_def)
  show ?thesis
  proof (cases "n \<le> tot bs - 16")
    case False
    have "k \<le> tot bs" if "Free k \<in> set bs" for k
      using that member_le_sum_list[of k "map bsize bs"] by force
    then have "\<forall>k. Free k \<in> set bs \<longrightarrow> k < 16 + n" using False by fastforce
    then show ?thesis
      using False lim none heap m(1) n(1) sz by (auto simp: rt_smem_alloc_def not_le)
  next
    case True
    have sr: "smem_search m (words h) (of_nat n) (lfree m - heap_ptr m) = Some (map_option of_nat (fit n 0 bs))"
      by (rule search_ok[OF m(2) _ True]) (use n in simp)
    have le: "\<not> of_nat n > mem_size_aligned m" using True lim by simp
    note spec = fit_spec[where n = n and i = 0 and bs = bs]
    show ?thesis
    proof (cases "fit n 0 bs")
      case None
      then have "allocated H n bs 0 bs" using spec none by simp
      moreover have "rt_smem_alloc s msize h = Some (0, h)"
        using None sr le m(1) sz by (simp add: rt_smem_alloc_def n(1))
      ultimately show ?thesis using heap by auto
    next
      case (Some j)
      then obtain xs k ys where x: "bs = xs @ Free k # ys" "j = tot xs" "16 + n \<le> k"
        "\<forall>l. Free l \<in> set xs \<longrightarrow> l < 16 + n" using spec by auto
      obtain d m' w' where T: "smem_take s (of_nat n) (of_nat (tot xs)) (m, words h) = Some (adr H (tot xs + 16), m', w')"
        "length d = carved n k div 4" "heap_rep s (xs @ carve n k d ys) m' w'" "heap_ptr m' = heap_ptr m"
        using smem_take_ok[OF m(2)[unfolded x(1)] x(3) n(2,3)] m(3) by blast
      have "rt_smem_alloc s msize h = Some (adr H (tot xs + 16), h\<lparr>words := w', pools := (pools h)(s \<mapsto> m')\<rparr>)"
        using Some x(2) sr le m(1) sz T(1) by (simp add: rt_smem_alloc_def n(1))
      moreover have "heap_is s H (xs @ carve n k d ys) (h\<lparr>words := w', pools := (pools h)(s \<mapsto> m')\<rparr>)"
        using T(3,4) m(3) by (simp add: heap_is_def)
      moreover have "allocated H n bs (adr H (tot xs + 16)) (xs @ carve n k d ys)"
        using x T(2) unfolding allocated_def by (auto simp: x(1))
      ultimately show ?thesis by auto
    qed
  qed
qed

end
