(* ===== verification/SmallMemOps.thy ===== *)
theory SmallMemOps
  imports SmallMem
begin

text \<open>
  The operations of the small memory allocator on the list of blocks: releasing with merging, initialising,
  resizing, and the properties of the allocator.
\<close>

section \<open>Releasing\<close>

text \<open>Two free blocks become one.\<close>

definition merge_words :: "memory \<Rightarrow> nat \<Rightarrow> nat \<Rightarrow> nat \<Rightarrow> nat \<Rightarrow> memory" where
  "merge_words w H i n k =
     w(adr H (i + n) := 0, adr H (i + 4) := of_nat (i + n + k), adr H (i + n + k + 8) := of_nat i)"

lemma merge_layout:
  assumes lay: "layout w H s (xs @ Free n # Free k # ys)" and f: "fits_in H (xs @ Free n # Free k # ys)"
  shows "layout (merge_words w H (tot xs) n k) H s (xs @ Free (n + k) # ys)"
    "fits_in H (xs @ Free (n + k) # ys)"
proof -
  let ?i = "tot xs" and ?E = "tot (xs @ Free n # Free k # ys)"
  let ?w = "merge_words w H ?i n k"
  have sx: "seg w H s 0 0 xs" and b: "blk_at w H s (lastp 0 0 xs) ?i (Free n)"
    and sy: "seg w H s (?i + n) (?i + n + k) ys"
    and em: "w (adr H ?E) = s OR 1" "w (adr H (?E + 4)) = of_nat ?E"
    using lay by (simp_all add: layout_def seg_append add.assoc)
  have bd: "H + ?E + 16 \<le> 2 ^ 32" "sized xs" "sized ys" "16 \<le> n" "16 \<le> k" "n mod 8 = 0" "k mod 8 = 0"
    using f by (simp_all add: fits_in_def)
  have E: "?i + n + k + tot ys = ?E" by simp
  have ne: "adr H q \<noteq> adr H r" if "q \<noteq> r" "q \<le> ?E + 8" "r \<le> ?E + 8" for q r
    using that bd(1) by (subst adr_cmp(1)) auto
  have keep: "?w (adr H q) = w (adr H q)"
    if "q \<noteq> ?i + n" "q \<noteq> ?i + 4" "q \<noteq> ?i + n + k + 8" "q \<le> ?E + 8" for q
  proof -
    have "adr H q \<noteq> adr H (?i + n)" "adr H q \<noteq> adr H (?i + 4)" "adr H q \<noteq> adr H (?i + n + k + 8)"
      by (rule ne; use that E in linarith)+
    then show ?thesis by (simp add: merge_words_def)
  qed
  have b': "blk_at ?w H s (lastp 0 0 xs) ?i (Free (n + k))"
  proof -
    have "adr H (?i + 4) \<noteq> adr H (?i + n + k + 8)" by (rule ne) (use E bd(4) in linarith)+
    then have "?w (adr H (?i + 4)) = of_nat (?i + n + k)" by (simp add: merge_words_def)
    moreover have "?w (adr H ?i) = w (adr H ?i)" "?w (adr H (?i + 8)) = w (adr H (?i + 8))"
      by (rule keep; use E bd(4,5) in linarith)+
    ultimately show ?thesis using b by (simp add: blk_at_def add.assoc)
  qed
  have x': "seg ?w H s 0 0 xs"
    by (subst seg_frame[of 0 xs ?w H w]) (use sx bd E in \<open>auto intro!: keep\<close>)
  have y': "seg ?w H s ?i (?i + n + k) ys"
  proof (cases "ys = []")
    case False
    then have ty: "16 \<le> tot ys" using bd(3) by (cases ys) auto
    have r: "seg (relink H (?i + n + k) ?i w) H s ?i (?i + n + k) ys"
      by (rule seg_relink[OF sy bd(3)]) (use bd(1) E ty in linarith)+
    have "?w (adr H q) = relink H (?i + n + k) ?i w (adr H q)" if "?i + n + k \<le> q" "q < ?E" for q
    proof (cases "q = ?i + n + k + 8")
      case False
      have "adr H q \<noteq> adr H (?i + n + k + 8)" by (rule ne) (use False that E ty in linarith)+
      moreover have "?w (adr H q) = w (adr H q)" by (rule keep) (use that False E bd(4,5) in linarith)+
      ultimately show ?thesis by (simp add: relink_def)
    qed (simp add: merge_words_def relink_def)
    then show ?thesis
      using r by (subst seg_frame[of "?i + n + k" ys ?w H "relink H (?i + n + k) ?i w"]) (use bd(3) E in auto)
  qed simp
  have ty0: "tot ys = 0 \<or> 16 \<le> tot ys" using bd(3) by (cases ys) auto
  have t: "tot (xs @ Free (n + k) # ys) = ?E" by simp
  have "?w (adr H ?E) = s OR 1" "?w (adr H (?E + 4)) = of_nat ?E"
    unfolding em[symmetric] by (rule keep; use ty0 E bd(4,5) in arith)+
  moreover have "seg ?w H s 0 0 (xs @ Free (n + k) # ys)"
    using x' b' y' by (simp add: seg_append add.assoc)
  ultimately show "layout ?w H s (xs @ Free (n + k) # ys)" unfolding layout_def t by blast
  have "sized (xs @ Free (n + k) # ys)" using bd by (simp add: mod_add_eq[symmetric])
  then show "fits_in H (xs @ Free (n + k) # ys)" unfolding fits_in_def t using bd(1) by blast
qed

fun join_right :: "nat \<Rightarrow> blk list \<Rightarrow> nat \<times> blk list" where
  "join_right n (Free k # ys) = (n + k, ys)"
| "join_right n ys = (n, ys)"

definition join_left :: "blk list \<Rightarrow> nat \<Rightarrow> blk list \<Rightarrow> blk list" where
  "join_left xs n ys =
     (if xs \<noteq> [] \<and> \<not> is_used (last xs) then butlast xs @ Free (bsize (last xs) + n) # ys
      else xs @ Free n # ys)"

text \<open>The blocks after the block between \<open>xs\<close> and \<open>ys\<close>, \<open>n\<close> bytes long, became free.\<close>

definition coalesce :: "blk list \<Rightarrow> nat \<Rightarrow> blk list \<Rightarrow> blk list" where
  "coalesce xs n ys = (let (k, zs) = join_right n ys in join_left xs k zs)"

lemma free_step:
  assumes lay: "layout w H s (xs @ Free n # Free k # ys)" and f: "fits_in H (xs @ Free n # Free k # ys)"
    and s: "even s" and m: "heap_ptr m = adr H 0"
  shows "(let w1 = w(adr H (tot xs + n) := 0);
             w2 = w1(next_at (adr H (tot xs)) := w1 (next_at (adr H (tot xs + n))))
         in w2(prev_at (heap_ptr m + w2 (next_at (adr H (tot xs + n)))) := of_nat (tot xs))) =
         merge_words w H (tot xs) n k"
proof -
  let ?i = "tot xs" and ?E = "tot (xs @ Free n # Free k # ys)"
  have b: "blk_at w H s (tot xs) (?i + n) (Free k)"
    using lay by (simp add: layout_def seg_append add.assoc)
  have nk: "w (adr H (?i + n + 4)) = of_nat (?i + n + k)" using blk_atD(3)[OF b s] by simp
  have bd: "H + ?E + 16 \<le> 2 ^ 32" "16 \<le> n" "16 \<le> k"
    using f by (simp_all add: fits_in_def)
  have E: "?i + n + k + tot ys = ?E" by simp
  have ne: "adr H (?i + n + 4) \<noteq> adr H (?i + n)" "adr H (?i + n + 4) \<noteq> adr H (?i + 4)"
    by (subst adr_cmp(1); use bd E in linarith)+
  have a: "next_at (adr H ?i) = adr H (?i + 4)" "next_at (adr H (?i + n)) = adr H (?i + n + 4)"
    "prev_at (adr H 0 + of_nat (?i + n + k)) = adr H (?i + n + k + 8)"
    by (simp_all only: adr_add) simp_all
  show ?thesis
    unfolding Let_def a m merge_words_def
    by (simp only: fun_upd_apply ne if_False refl if_True nk a)
qed

lemma plug_forward_ok:
  assumes lay: "layout w H s (xs @ Free n # ys)" and f: "fits_in H (xs @ Free n # ys)" and s: "even s"
    and m: "heap_ptr m = adr H 0" "heap_end m = adr H (tot (xs @ Free n # ys))"
    "lfree m = adr H (first_free (xs @ Free n # ys))"
  shows "\<exists>w'. plug_forward (adr H (tot xs)) (m, w) = (m, w') \<and>
    (let (k, zs) = join_right n ys in layout w' H s (xs @ Free k # zs) \<and> fits_in H (xs @ Free k # zs))"
proof -
  let ?i = "tot xs" and ?E = "tot (xs @ Free n # ys)"
  have b: "blk_at w H s (lastp 0 0 xs) ?i (Free n)" and sy: "seg w H s ?i (?i + n) ys"
    and em: "w (adr H ?E) = s OR 1"
    using lay by (simp_all add: layout_def seg_append)
  have bd: "H + ?E + 16 \<le> 2 ^ 32" "16 \<le> n" "sized ys" using f by (simp_all add: fits_in_def)
  have E: "?i + n + tot ys = ?E" by simp
  have nx: "next_at (adr H ?i) = adr H (?i + 4)" "w (adr H (?i + 4)) = of_nat (?i + n)"
    using blk_atD(3)[OF b s] by simp_all
  have nm: "adr H 0 + of_nat (?i + n) = adr H (?i + n)" by (simp only: adr_add) simp
  have ne: "adr H ?i \<noteq> adr H (?i + n)" by (subst adr_cmp(1)) (use bd E in linarith)+
  show ?thesis
  proof (cases "ys = [] \<or> is_used (hd ys)")
    case True
    have "MEM_ISUSED w (adr H (?i + n))"
    proof (cases ys)
      case Nil
      then show ?thesis using em mark_used(1)[OF s, of w "adr H ?E" True] by simp
    next
      case (Cons c zs)
      then show ?thesis using True sy blk_atD(1)[OF _ s, of w H ?i "?i + n" c] by simp
    qed
    then have "plug_forward (adr H ?i) (m, w) = (m, w)"
      by (simp only: plug_forward_def Let_def prod.case nx m(1) nm simp_thms if_False)
    moreover have "join_right n ys = (n, ys)" using True by (cases ys rule: list.exhaust; cases "hd ys") auto
    ultimately show ?thesis using lay f by simp
  next
    case False
    then obtain k zs where ys: "ys = Free k # zs" by (cases ys; cases "hd ys") auto
    have "\<not> MEM_ISUSED w (adr H (?i + n))"
      using sy ys blk_atD(1)[OF _ s, of w H ?i "?i + n" "Free k"] by simp
    moreover have "adr H (?i + n) \<noteq> heap_end m"
      unfolding m(2) by (subst adr_cmp(1)) (use bd E ys in auto)
    moreover have "lfree m \<noteq> adr H (?i + n)"
    proof -
      have "first_free (xs @ Free n # ys) \<le> ?i" using first_free_le[of xs] by (simp add: first_free_append)
      then show ?thesis unfolding m(3) by (subst adr_cmp(1)) (use bd E in linarith)+
    qed
    moreover have "adr H ?i - adr H 0 = of_nat ?i" by simp
    ultimately have "plug_forward (adr H ?i) (m, w) = (m, merge_words w H ?i n k)"
      using ne free_step[OF lay[unfolded ys] f[unfolded ys] s m(1)]
      by (simp only: plug_forward_def Let_def prod.case nx m(1) nm simp_thms if_True if_False)
    then show ?thesis
      using merge_layout[OF lay[unfolded ys] f[unfolded ys]] ys by simp
  qed
qed


lemma plug_backward_ok:
  assumes lay: "layout w H s (xs @ Free n # ys)" and f: "fits_in H (xs @ Free n # ys)" and s: "even s"
    and m: "heap_ptr m = adr H 0" "lfree m = adr H (first_free (xs @ Free n # ys))"
  shows "\<exists>w'. plug_backward (adr H (tot xs)) (m, w) = (m, w') \<and>
    layout w' H s (join_left xs n ys) \<and> fits_in H (join_left xs n ys) \<and>
    \<not> MEM_ISUSED w' (adr H (tot xs))"
proof -
  let ?i = "tot xs" and ?E = "tot (xs @ Free n # ys)"
  have b: "blk_at w H s (lastp 0 0 xs) ?i (Free n)" using lay by (simp add: layout_def seg_append)
  have bd: "H + ?E + 16 \<le> 2 ^ 32" "16 \<le> n" "sized xs" using f by (simp_all add: fits_in_def)
  have E: "?i + n + tot ys = ?E" by simp
  have px: "prev_at (adr H ?i) = adr H (?i + 8)" "w (adr H (?i + 8)) = of_nat (lastp 0 0 xs)"
    using blk_atD(4)[OF b s] by simp_all
  have pm: "adr H 0 + of_nat (lastp 0 0 xs) = adr H (lastp 0 0 xs)" by simp
  show ?thesis
  proof (cases "xs = [] \<or> is_used (last xs)")
    case True
    have "adr H (lastp 0 0 xs) = adr H ?i \<or> MEM_ISUSED w (adr H (lastp 0 0 xs))"
    proof (cases xs rule: rev_cases)
      case (snoc us c)
      then have "blk_at w H s (lastp 0 0 us) (tot us) c"
        using lay by (simp add: layout_def seg_append)
      then show ?thesis using snoc True blk_atD(1)[OF _ s] by simp
    qed simp
    then have "plug_backward (adr H ?i) (m, w) = (m, w)"
      by (simp only: plug_backward_def Let_def prod.case px m(1) pm) auto
    moreover have "join_left xs n ys = xs @ Free n # ys" using True by (auto simp: join_left_def)
    ultimately show ?thesis using lay f blk_atD(1)[OF b s] by simp
  next
    case False
    then obtain us k where xs: "xs = us @ [Free k]" by (cases xs rule: rev_cases; cases "last xs") auto
    have lay': "layout w H s (us @ Free k # Free n # ys)" "fits_in H (us @ Free k # Free n # ys)"
      using lay f by (simp_all add: xs)
    have i: "?i = tot us + k" "lastp 0 0 xs = tot us" by (simp_all add: xs)
    have k: "16 \<le> k" using bd(3) by (simp add: xs)
    have "blk_at w H s (lastp 0 0 us) (tot us) (Free k)"
      using lay' by (simp add: layout_def seg_append)
    from blk_atD(1)[OF this s] have "\<not> MEM_ISUSED w (adr H (tot us))" by simp
    moreover have "adr H (tot us) \<noteq> adr H (tot us + k)"
      by (subst adr_cmp(1)) (use bd E i k in linarith)+
    moreover have "lfree m \<noteq> adr H (tot us + k)"
    proof -
      have "first_free (xs @ Free n # ys) \<le> tot us"
        using first_free_le[of us] by (simp add: xs first_free_append)
      then show ?thesis unfolding m(2) by (subst adr_cmp(1)) (use bd E i k in linarith)+
    qed
    moreover have "adr H (tot us) - adr H 0 = of_nat (tot us)" by simp
    ultimately have "plug_backward (adr H ?i) (m, w) = (m, merge_words w H (tot us) k n)"
      using free_step[OF lay' s m(1)]
      by (simp only: plug_backward_def Let_def prod.case px[unfolded i] m(1) pm[unfolded i] i simp_thms
          if_True if_False)
    moreover have "join_left xs n ys = us @ Free (k + n) # ys" by (simp add: join_left_def xs)
    moreover have "merge_words w H (tot us) k n (adr H ?i) = 0"
    proof -
      have "adr H (tot us + k) \<noteq> adr H (tot us + 4)" "adr H (tot us + k) \<noteq> adr H (tot us + k + n + 8)"
        by (subst adr_cmp(1); use bd E i k in linarith)+
      then show ?thesis by (simp add: merge_words_def i)
    qed
    then have "\<not> MEM_ISUSED (merge_words w H (tot us) k n) (adr H ?i)" by (simp add: MEM_ISUSED_def)
    ultimately show ?thesis using merge_layout[OF lay'] by simp
  qed
qed

lemma join_right_simps:
  assumes "join_right n ys = (k, zs)"
  shows "k + tot zs = n + tot ys" "used_tot zs = used_tot ys" "merged ys \<Longrightarrow> merged (Free k # zs)"
    "sized ys \<Longrightarrow> sized zs"
  using assms by (cases "(n, ys)" rule: join_right.cases; auto simp: merged_Cons)+

lemma join_left_simps:
  "tot (join_left xs n ys) = tot xs + n + tot ys" "used_tot (join_left xs n ys) = used_tot xs + used_tot ys"
  "merged xs \<Longrightarrow> merged (Free n # ys) \<Longrightarrow> merged (join_left xs n ys)"
  "first_free (join_left xs n ys) = first_free (xs @ Free n # zs)"
  "join_left xs n ys \<noteq> []"
proof -
  consider (keep) "join_left xs n ys = xs @ Free n # ys" "xs = [] \<or> is_used (last xs)"
    | (join) us k where "xs = us @ [Free k]" "join_left xs n ys = us @ Free (k + n) # ys"
  proof (cases "xs = [] \<or> is_used (last xs)")
    case False
    then obtain us k where "xs = us @ [Free k]" by (cases xs rule: rev_cases; cases "last xs") auto
    then show ?thesis by (intro that(2)[of us k]) (simp_all add: join_left_def)
  qed (auto simp: join_left_def intro: that(1))
  note C = this
  show "tot (join_left xs n ys) = tot xs + n + tot ys" by (cases rule: C) simp_all
  show "used_tot (join_left xs n ys) = used_tot xs + used_tot ys" by (cases rule: C) simp_all
  show "first_free (join_left xs n ys) = first_free (xs @ Free n # zs)"
    by (cases rule: C) (simp_all add: first_free_append)
  show "merged xs \<Longrightarrow> merged (Free n # ys) \<Longrightarrow> merged (join_left xs n ys)"
    by (cases rule: C) (auto simp: merged_append merged_Cons)
  show "join_left xs n ys \<noteq> []" by (cases rule: C) simp_all
qed

lemma plug_holes_ok:
  assumes lay: "layout w H s (xs @ Free n # ys)" and f: "fits_in H (xs @ Free n # ys)" and s: "even s"
    and m: "heap_ptr m = adr H 0" "heap_end m = adr H (tot (xs @ Free n # ys))"
    "lfree m = adr H (first_free (xs @ Free n # ys))"
  shows "\<exists>w'. plug_holes (adr H (tot xs)) (m, w) = Some (m, w') \<and>
    layout w' H s (coalesce xs n ys) \<and> fits_in H (coalesce xs n ys) \<and> \<not> MEM_ISUSED w' (adr H (tot xs))"
proof -
  obtain k zs where j: "join_right n ys = (k, zs)" by fastforce
  obtain w1 where w1: "plug_forward (adr H (tot xs)) (m, w) = (m, w1)" "layout w1 H s (xs @ Free k # zs)"
    "fits_in H (xs @ Free k # zs)"
    using plug_forward_ok[OF lay f s m] by (auto simp: j)
  have "first_free (xs @ Free k # zs) = first_free (xs @ Free n # ys)" by (simp add: first_free_append)
  then have "lfree m = adr H (first_free (xs @ Free k # zs))" using m(3) by simp
  from plug_backward_ok[OF w1(2,3) s m(1) this] obtain w' where
    w': "plug_backward (adr H (tot xs)) (m, w1) = (m, w')" "layout w' H s (join_left xs k zs)"
    "fits_in H (join_left xs k zs)" "\<not> MEM_ISUSED w' (adr H (tot xs))" by blast
  have bd: "H + tot xs + n + tot ys + 16 \<le> 2 ^ 32" "16 \<le> n" using f by (simp_all add: fits_in_def)
  have "heap_ptr m \<le> adr H (tot xs)" unfolding m(1) by (subst adr_cmp(3)) (use bd in linarith)+
  moreover have "adr H (tot xs) < heap_end m"
    unfolding m(2) by (subst adr_cmp(2)) (use bd in auto)
  ultimately show ?thesis using w1(1) w' j by (simp add: plug_holes_def coalesce_def)
qed

lemma coalesce_simps:
  "tot (coalesce xs n ys) = tot xs + n + tot ys" "used_tot (coalesce xs n ys) = used_tot xs + used_tot ys"
  "merged xs \<Longrightarrow> merged ys \<Longrightarrow> merged (coalesce xs n ys)"
  "first_free (coalesce xs n ys) = first_free (xs @ Free n # zs)" "coalesce xs n ys \<noteq> []"
proof -
  obtain k vs where j: "join_right n ys = (k, vs)" by fastforce
  note J = join_right_simps[OF j] and L = join_left_simps[where xs = xs and n = k and ys = vs]
  show "tot (coalesce xs n ys) = tot xs + n + tot ys" using J(1) L(1) by (simp add: coalesce_def j)
  show "used_tot (coalesce xs n ys) = used_tot xs + used_tot ys" using J(2) L(2) by (simp add: coalesce_def j)
  show "merged xs \<Longrightarrow> merged ys \<Longrightarrow> merged (coalesce xs n ys)" using J(3) L(3) by (simp add: coalesce_def j)
  show "first_free (coalesce xs n ys) = first_free (xs @ Free n # zs)"
    using L(4)[of zs] by (simp add: coalesce_def j first_free_append)
  show "coalesce xs n ys \<noteq> []" using L(5) by (simp add: coalesce_def j)
qed


lemma smem_free_ok:
  assumes heap: "heap_is s H (xs @ Used d # ys) h"
  shows "ok (rt_smem_free (adr H (tot xs + 16)) h) (\<lambda>h'. heap_is s H (coalesce xs (16 + 4 * length d) ys) h' \<and>
    (\<forall>t. t \<noteq> s \<longrightarrow> pools h' t = pools h t) \<and> \<not> MEM_ISUSED (words h') (adr H (tot xs)))"
proof -
  let ?bs = "xs @ Used d # ys" and ?i = "tot xs" and ?n = "16 + 4 * length d"
  let ?bs1 = "xs @ Free ?n # ys" and ?w = "words h"
  obtain m where m: "pools h s = Some m" "heap_rep s ?bs m ?w" "unat (heap_ptr m) = H"
    using heap by (auto simp: heap_is_def)
  note R = m(2)[unfolded heap_rep_iff Let_def m(3)]
  have s: "even s" "s \<noteq> 0" and H8: "H mod 8 = 0" "0 < H" and f: "fits_in H ?bs" and lay: "layout ?w H s ?bs"
    and mg: "merged ?bs" using R by blast+
  have f1: "fits_in H ?bs1" using f by (simp add: fits_in_def)
  have M0: "heap_ptr m = adr H 0" using heap_repD(16)[OF m(2)] m(3) by simp
  have M: "heap_ptr m = adr H 0" "heap_end m = adr H (tot ?bs)" "lfree m = adr H (first_free ?bs)"
    "mem_size_aligned m = of_nat (tot ?bs - 16)" "used_size m = of_nat (used_tot ?bs)" "used_size m \<le> max_used m"
    using R M0 by blast+
  have bd: "H + tot ?bs + 16 \<le> 2 ^ 32" "sized xs" "sized ys" "d \<noteq> []"
    using f by (simp_all add: fits_in_def)
  have E: "?i + ?n + tot ys = tot ?bs" by simp
  have b: "blk_at ?w H s (lastp 0 0 xs) ?i (Used d)" using lay by (simp add: layout_def seg_append)
  note B = blk_atD[OF b s(1)]
  have r: "adr H (?i + 16) - 16 = adr H ?i" using adr_16[of "?i + 16" H] by simp
  have nx: "next_at (adr H ?i) = adr H (?i + 4)" "?w (adr H (?i + 4)) = of_nat (?i + ?n)"
    using B(3) by simp_all
  have i8: "(?i + 16) mod 8 = 0" using tot_mod8[OF bd(2)] by presburger
  have al: "adr H (?i + 16) AND 7 = 0" by (rule adr_aligned(2)[OF H8(1) i8])
  have nz: "adr H (?i + 16) \<noteq> 0"
  proof -
    have "unat (adr H (?i + 16)) = H + (?i + 16)"
      unfolding adr_def by (rule u32_nat(4)[of _ 0]) (use bd E in auto)
    then show ?thesis by auto
  qed
  have rng: "heap_ptr m \<le> adr H (?i + 16)" "adr H (?i + 16) < heap_end m"
    unfolding M(1,2) using bd E by (auto simp: adr_cmp)
  have pn: "MEM_POOL ?w (heap_ptr m + of_nat (?i + ?n)) = s"
  proof -
    have "adr H 0 + of_nat (?i + ?n) = adr H (?i + ?n)" by (simp only: adr_add) simp
    moreover have "MEM_POOL ?w (adr H (?i + ?n)) = s"
    proof (cases ys)
      case Nil
      then show ?thesis using lay mark_used(2)[OF s(1), of ?w "adr H (?i + ?n)" True]
        by (simp add: layout_def)
    next
      case (Cons c zs)
      then show ?thesis using lay blk_atD(2)[OF _ s(1), of ?w H ?i "?i + ?n" c]
        by (simp add: layout_def seg_append add.assoc)
    qed
    ultimately show ?thesis using M(1) by simp
  qed
  define w1 where "w1 = ?w(adr H ?i := s)"
  have lay1: "layout w1 H s ?bs1" using layout_mark[OF lay f, of "Free ?n"] by (simp add: w1_def)
  define m1 where "m1 = (if adr H ?i < lfree m then m\<lparr>lfree := adr H ?i\<rparr> else m)"
  define m2 where "m2 = m1\<lparr>used_size := used_size m1 - (w1 (adr H (?i + 4)) - (adr H ?i - heap_ptr m1))\<rparr>"
  have ne: "adr H (?i + 4) \<noteq> adr H ?i" by (subst adr_cmp(1)) (use bd E in linarith)+
  have l1: "lfree m2 = adr H (first_free ?bs1)"
  proof (cases "\<forall>b \<in> set xs. is_used b")
    case True
    then have "adr H ?i < lfree m"
      unfolding M(3) using bd E first_free_le[of ys] by (subst adr_cmp(2)) (auto simp: first_free_append)
    then show ?thesis using True by (simp add: m2_def m1_def first_free_append)
  next
    case False
    then have "first_free ?bs = first_free xs" "first_free ?bs1 = first_free xs"
      by (auto simp: first_free_append)
    moreover have "\<not> adr H ?i < adr H (first_free xs)"
      using bd E first_free_less[OF bd(2) False] by (subst adr_cmp(2)) auto
    ultimately show ?thesis using M(3) by (simp add: m2_def m1_def)
  qed
  have k2: "heap_ptr m2 = adr H 0" "heap_end m2 = adr H (tot ?bs1)" "max_used m2 = max_used m"
    "mem_size_aligned m2 = of_nat (tot ?bs - 16)"
    using M by (simp_all add: m2_def m1_def)
  have u2: "used_size m2 = of_nat (used_tot xs + used_tot ys)"
  proof -
    have a: "adr H ?i - heap_ptr m1 = of_nat ?i" by (simp add: m1_def M0)
    have v: "w1 (adr H (?i + 4)) = of_nat (?i + ?n)" using ne nx(2) by (simp add: w1_def)
    have "w1 (adr H (?i + 4)) - (adr H ?i - heap_ptr m1) = of_nat ?n" unfolding a v by simp
    moreover have "used_size m1 = of_nat (used_tot xs + used_tot ys) + of_nat ?n"
      using M(5) by (simp add: m1_def algebra_simps)
    ultimately show ?thesis by (simp add: m2_def)
  qed
  have um: "used_size m2 \<le> max_used m2"
  proof -
    have "of_nat (used_tot xs + used_tot ys) \<le> (of_nat (used_tot ?bs) :: u32)"
      using used_tot_le[of ?bs] bd(1) by (subst u32_nat(3)) auto
    then show ?thesis using u2 k2(3) M(5,6) by (metis order_trans)
  qed
  obtain w' where w': "plug_holes (adr H ?i) (m2, w1) = Some (m2, w')" "layout w' H s (coalesce xs ?n ys)"
    "fits_in H (coalesce xs ?n ys)" "\<not> MEM_ISUSED w' (adr H ?i)"
    using plug_holes_ok[OF lay1 f1 s(1) k2(1,2) l1] by blast
  note C = coalesce_simps[where xs = xs and n = ?n and ys = ys]
  have H2: "unat (heap_ptr m2) = H"
  proof -
    have "heap_ptr m2 = heap_ptr m" using k2(1) M(1) by simp
    then show ?thesis using m(3) by simp
  qed
  have mg': "merged (coalesce xs ?n ys)" using mg C(3) by (simp add: merged_append merged_Cons)
  have "lfree m2 = adr H (first_free (coalesce xs ?n ys))" using l1 C(4)[of ys] by simp
  moreover have "tot (coalesce xs ?n ys) = tot ?bs" using C(1) by simp
  ultimately have rep: "heap_rep s (coalesce xs ?n ys) m2 w'"
    unfolding heap_rep_iff Let_def H2
    using s H8 w'(2,3) C(5) mg' k2(2,4) u2 C(2) um by simp
  have "rt_smem_free (adr H (?i + 16)) h = Some (h\<lparr>words := w', pools := (pools h)(s \<mapsto> m2)\<rparr>)"
    unfolding rt_smem_free_def Let_def r
    using nz al B(1,2) s(2) m(1) rng pn nx marks(2)[OF s(1)] w'(1)
    by (simp add: w1_def[symmetric] m1_def[symmetric] m2_def[symmetric])
  then show ?thesis using rep H2 w'(4) by (simp add: heap_is_def)
qed


section \<open>Initialising\<close>

lemma u32_add: "unat a + unat b < 2 ^ 32 \<Longrightarrow> unat (a + b :: u32) = unat a + unat b"
  by (simp add: unat_word_ariths)

text \<open>The heap lies inside the given memory, behind its management structure, and is one free block.\<close>

lemma smem_init_ok:
  assumes b: "begin_addr \<noteq> 0" and sz: "unat begin_addr + unat msize < 2 ^ 32"
    and room: "102 \<le> unat msize"
  shows "\<exists>H E h'. rt_smem_init begin_addr msize h = (rt_align begin_addr 8, h') \<and>
    heap_is (rt_align begin_addr 8) H [Free E] h' \<and> H = unat (rt_align begin_addr 8) + 56 \<and>
    unat begin_addr + unat msize - 23 \<le> H + E \<and> H + E + 16 \<le> unat begin_addr + unat msize \<and>
    (\<forall>t. t \<noteq> rt_align begin_addr 8 \<longrightarrow> pools h' t = pools h t)"
proof -
  let ?s = "rt_align begin_addr 8" and ?fin = "rt_align_down (begin_addr + msize) 8"
  define S where "S = (unat begin_addr + 7) div 8 * 8"
  define E0 where "E0 = unat begin_addr + unat msize - (unat begin_addr + unat msize) mod 8"
  have us: "unat ?s = S" unfolding S_def by (rule unat_rt_align8) (use sz room in linarith)
  have ue: "unat ?fin = E0" unfolding E0_def unat_rt_align_down8 u32_add[OF sz] by simp
  have b0: "1 \<le> unat begin_addr" using b by (simp add: Suc_le_eq unat_gt_0)
  have S: "unat begin_addr \<le> S" "S \<le> unat begin_addr + 7" "S mod 8 = 0" "8 \<le> S"
    using b0 unfolding S_def by presburger+
  have E: "E0 \<le> unat begin_addr + unat msize" "unat begin_addr + unat msize \<le> E0 + 7" "E0 mod 8 = 0"
    unfolding E0_def by presburger+
  have SE: "S + 88 \<le> E0" using S E room by presburger
  have E32: "E0 < 2 ^ 32" using E sz by linarith
  have sS: "?s = of_nat S" "?fin = of_nat E0" using us ue by (metis of_nat_unat ucast_id)+
  have e1: "?s + SIZEOF_SMALL_MEM = of_nat (S + 56)" using sS by simp
  have e2: "rt_align (?s + SIZEOF_SMALL_MEM) 8 = of_nat (S + 56)"
  proof -
    have u: "unat (of_nat (S + 56) :: u32) = S + 56" by (rule u32_nat(4)[of _ 0]) (use SE E32 in auto)
    then have "unat (rt_align (of_nat (S + 56)) 8) = (S + 56 + 7) div 8 * 8"
      by (subst unat_rt_align8) (use SE E32 in auto)
    also have "\<dots> = S + 56" using S(3) by presburger
    finally show ?thesis unfolding e1 using u by (simp add: word_unat_eq_iff)
  qed
  have c1: "?fin > 2 * SIZEOF_STRUCT_MEM"
  proof -
    have "(of_nat 32 :: u32) < of_nat E0" by (subst u32_nat(2)) (use SE E32 in auto)
    then show ?thesis using sS by simp
  qed
  have c2: "?fin - 2 * SIZEOF_STRUCT_MEM = of_nat (E0 - 32)" using sS SE by (simp add: of_nat_diff)
  have c3: "?s + SIZEOF_SMALL_MEM \<le> ?fin - 2 * SIZEOF_STRUCT_MEM"
    unfolding c2 e1 by (subst u32_nat(3)) (use SE E32 in auto)
  let ?H = "S + 56" and ?E = "E0 - 16 - (S + 56)"
  have HE: "?H + ?E + 16 = E0" "16 \<le> ?E" "?E mod 8 = 0" "?H mod 8 = 0" using SE S(3) E(3) by presburger+
  have ms: "?fin - of_nat (S + 56) - 2 * SIZEOF_STRUCT_MEM = of_nat (?E - 16)"
  proof -
    have "E0 = (?E - 16) + (S + 56) + 32" using HE by linarith
    then have "?fin = of_nat (?E - 16) + of_nat (S + 56) + 32" using sS(2) by (metis of_nat_add of_nat_numeral)
    then show ?thesis by simp
  qed
  have ls: "of_nat (?E - 16) + SIZEOF_STRUCT_MEM = of_nat ?E" using HE(2) by (simp add: of_nat_diff)
  have ev: "even ?s"
  proof -
    have "even S" using S(3) by presburger
    then obtain q where "S = 2 * q" by (elim evenE)
    then have "?s = 2 * of_nat q" using sS(1) by simp
    then show ?thesis by simp
  qed
  have n0: "?s \<noteq> 0" using us S(4) by auto
  have a0: "of_nat (S + 56) = adr ?H 0" "adr ?H 0 + of_nat ?E = adr ?H ?E" by (simp_all add: adr_def)
  define w where "w = (words h)(adr ?H 0 := ?s, adr ?H 4 := of_nat ?E, adr ?H 8 := 0,
    adr ?H ?E := ?s OR 1, adr ?H (?E + 4) := of_nat ?E, adr ?H (?E + 8) := of_nat ?E)"
  define m where "m = \<lparr>heap_ptr = adr ?H 0, heap_end = adr ?H ?E, lfree = adr ?H 0,
    mem_size_aligned = of_nat (?E - 16), total_size = of_nat (?E - 16), used_size = 0, max_used = 0\<rparr>"
  have run: "rt_smem_init begin_addr msize h = (?s, h\<lparr>words := w, pools := (pools h)(?s \<mapsto> m)\<rparr>)"
  proof -
    have n: "next_at (adr ?H 0) = adr ?H 4" "prev_at (adr ?H 0) = adr ?H 8"
      "next_at (adr ?H ?E) = adr ?H (?E + 4)" "prev_at (adr ?H ?E) = adr ?H (?E + 8)" by simp_all
    show ?thesis
      unfolding rt_smem_init_def Let_def e2 ms using c1 c3
      by (simp only: simp_thms if_True ls a0 marks[OF ev] n w_def m_def)
  qed
  have uH: "unat (adr ?H 0) = ?H"
    unfolding adr_def by (simp only: add_0_right) (rule u32_nat(4)[of _ 0], use SE E32 in auto)
  have ne: "adr ?H p \<noteq> adr ?H q" if "p \<noteq> q" "p \<le> ?E + 8" "q \<le> ?E + 8" for p q
    using that HE E32 by (subst adr_cmp(1)) auto
  have wv: "w (adr ?H 0) = ?s" "w (adr ?H 4) = of_nat ?E" "w (adr ?H 8) = 0" "w (adr ?H ?E) = ?s OR 1"
    "w (adr ?H (?E + 4)) = of_nat ?E"
    using ne[of 0 4] ne[of 0 8] ne[of 0 ?E] ne[of 0 "?E + 4"] ne[of 0 "?E + 8"] ne[of 4 8] ne[of 4 ?E]
      ne[of 4 "?E + 4"] ne[of 4 "?E + 8"] ne[of 8 ?E] ne[of 8 "?E + 4"] ne[of 8 "?E + 8"]
      ne[of ?E "?E + 4"] ne[of ?E "?E + 8"] ne[of "?E + 4" "?E + 8"] HE(2)
    by (simp_all add: w_def)
  have "heap_rep ?s [Free ?E] m w"
  proof -
    have "layout w ?H ?s [Free ?E]" using wv by (simp add: layout_def blk_at_def)
    moreover have "fits_in ?H [Free ?E]" using HE E32 by (simp add: fits_in_def)
    moreover have "unat (heap_ptr m) = ?H" using uH by (simp add: m_def)
    ultimately show ?thesis
      unfolding heap_rep_iff Let_def using n0 ev HE(4) by (simp add: m_def)
  qed
  then have "heap_is ?s ?H [Free ?E] (h\<lparr>words := w, pools := (pools h)(?s \<mapsto> m)\<rparr>)"
    using uH by (simp add: heap_is_def m_def)
  then show ?thesis using run us HE(1) E by (intro exI[of _ ?H] exI[of _ ?E]) auto
qed


section \<open>Resizing\<close>

lemma smem_shrink_ok:
  assumes heap: "heap_is s H (xs @ Used d # ys) h" and n: "n mod 8 = 0" "8 \<le> n" "n + 32 \<le> 4 * length d"
  defines "sz \<equiv> of_nat (4 * length d) :: u32" and "r \<equiv> adr H (tot xs + 16)"
  shows "ok (do {
      m \<leftarrow> pools h s;
      let m1 = m\<lparr>used_size := used_size m - (sz - of_nat n)\<rparr>;
      let w1 = smem_split s (of_nat n) (of_nat (tot xs)) m1 (words h);
      let mem2 = heap_ptr m1 + (of_nat (tot xs) + SIZEOF_STRUCT_MEM + of_nat n);
      let m2 = (if mem2 < lfree m1 then m1\<lparr>lfree := mem2\<rparr> else m1);
      (m3, w3) \<leftarrow> plug_holes mem2 (m2, w1);
      Some (r, h\<lparr>words := w3, pools := (pools h)(s \<mapsto> m3)\<rparr>)
    }) (\<lambda>(r', h'). r' = r \<and>
      heap_is s H (coalesce (xs @ [Used (take (n div 4) d)]) (4 * length d - n) ys) h' \<and>
      (\<forall>t. t \<noteq> s \<longrightarrow> pools h' t = pools h t))"
proof -
  let ?bs = "xs @ Used d # ys" and ?i = "tot xs" and ?k = "16 + 4 * length d" and ?d = "take (n div 4) d"
  let ?xs = "xs @ [Used ?d]" and ?f = "4 * length d - n" and ?w = "words h"
  let ?bs1 = "?xs @ Free ?f # ys"
  obtain m where m: "pools h s = Some m" "heap_rep s ?bs m ?w" "unat (heap_ptr m) = H"
    using heap by (auto simp: heap_is_def)
  note R = m(2)[unfolded heap_rep_iff Let_def m(3)]
  have s: "even s" "s \<noteq> 0" and H8: "H mod 8 = 0" "0 < H" and f: "fits_in H ?bs" and lay: "layout ?w H s ?bs"
    and mg: "merged ?bs" using R by blast+
  have M0: "heap_ptr m = adr H 0" using heap_repD(16)[OF m(2)] m(3) by simp
  have M: "heap_end m = adr H (tot ?bs)" "lfree m = adr H (first_free ?bs)"
    "mem_size_aligned m = of_nat (tot ?bs - 16)" "used_size m = of_nat (used_tot ?bs)" "used_size m \<le> max_used m"
    using R by blast+
  have bd: "H + tot ?bs + 16 \<le> 2 ^ 32" "sized xs" "sized ys" "?k mod 8 = 0"
    using f by (simp_all add: fits_in_def)
  have E: "?i + ?k + tot ys = tot ?bs" by simp
  have ld: "4 * length ?d = n" using n by auto
  have c: "bsize (Used ?d) = 16 + n" using ld by simp
  have tx: "tot ?xs = ?i + 16 + n" using c by simp
  have t1: "tot ?bs1 = tot ?bs" using tx n(3) by simp
  have b: "blk_at ?w H s (lastp 0 0 xs) ?i (Used d)" using lay by (simp add: layout_def seg_append)
  define m1 where "m1 = m\<lparr>used_size := used_size m - (sz - of_nat n)\<rparr>"
  have p1: "heap_ptr m1 = adr H 0" "mem_size_aligned m1 = of_nat (tot ?bs - 16)"
    using trans[OF _ M0, of "heap_ptr m1"] trans[OF _ M(3), of "mem_size_aligned m1"] by (simp_all add: m1_def)
  define w1 where "w1 = smem_split s (of_nat n) (of_nat ?i) m1 ?w"
  have n32: "32 + n \<le> bsize (Used d)" using n(3) by simp
  have eq: "w1 = (let w4 = ?w(adr H (?i + 16 + n) := s, adr H (?i + 16 + n + 4) := of_nat (?i + ?k),
           adr H (?i + 16 + n + 8) := of_nat ?i, adr H (?i + 4) := of_nat (?i + 16 + n))
     in if ?i + ?k \<noteq> tot ?bs then relink H (?i + ?k) (?i + 16 + n) w4 else w4)"
    unfolding w1_def by (rule split_eq[OF p1 _ bd(1) _ _ _ s(1)]) (use blk_atD(3)[OF b s(1)] E n in auto)
  have same: "w1 (adr H q) = ?w (adr H q)" if "q < ?i + 16 + n" "q \<noteq> ?i + 4" for q
    unfolding w1_def by (rule split_same[OF eq[unfolded w1_def] _ _ _ _ _ bd(1)]) (use that E n bd(1) in auto)
  have w1i: "w1(adr H ?i := ?w (adr H ?i)) = w1" using same[of ?i] by (simp add: fun_upd_idem)
  have cb: "blk_at w1 H s (lastp 0 0 xs) ?i (Used ?d)"
  proof -
    have "adr H (?i + 4) \<noteq> adr H (?i + ?k + 8)" by (subst adr_cmp(1)) (use bd(1) E in linarith)+
    then have v: "w1 (adr H (?i + 4)) = of_nat (?i + 16 + n)" unfolding eq Let_def relink_def by simp
    have "w1 (adr H (?i + 4)) = of_nat (?i + bsize (Used ?d))" unfolding c v by (simp add: add.assoc)
    moreover have "w1 (adr H (?i + 16 + 4 * q)) = ?w (adr H (?i + 16 + 4 * q))" if "4 * q < n" for q
      by (rule same) (use that in auto)
    ultimately show ?thesis
      using b same[of ?i] same[of "?i + 8"] ld n(2) by (auto simp: blk_at_def add.assoc)
  qed
  have "layout w1 H s (xs @ Used ?d # Free (bsize (Used d) - 16 - n) # ys)"
    by (rule layout_split[where v = "?w (adr H ?i)", OF lay f p1 s(1) n32 c n(1) _ cb])
      (simp only: w1_def[symmetric] w1i)
  then have lay1: "layout w1 H s ?bs1" by simp
  have f1: "fits_in H ?bs1"
  proof -
    have "?f mod 8 = 0" "16 \<le> ?f" using n bd(4) by presburger+
    moreover have "?d \<noteq> []" using ld n(2) by auto
    moreover have "(16 + n) mod 8 = 0" using n(1) by presburger
    ultimately have "sized ?bs1" using bd(2,3) ld by simp
    then show ?thesis unfolding fits_in_def t1 using bd(1) by blast
  qed
  have a2: "heap_ptr m1 + (of_nat ?i + SIZEOF_STRUCT_MEM + of_nat n) = adr H (tot ?xs)"
  proof -
    have e: "of_nat ?i + SIZEOF_STRUCT_MEM + of_nat n = (of_nat (tot ?xs) :: u32)" unfolding tx by simp
    show ?thesis unfolding p1(1) e using adr_add(1)[of H 0 "tot ?xs"] by (simp only: add_0)
  qed
  define m2 where "m2 = (if adr H (tot ?xs) < lfree m1 then m1\<lparr>lfree := adr H (tot ?xs)\<rparr> else m1)"
  have l2: "lfree m2 = adr H (first_free ?bs1)"
  proof (cases "\<forall>b \<in> set xs. is_used b")
    case True
    then have "adr H (tot ?xs) < lfree m1"
      using bd(1) E first_free_le[of ys] n(3) tx M(2)
      by (simp add: m1_def) (subst adr_cmp(2), auto simp: first_free_append)
    then show ?thesis using True by (simp add: m2_def m1_def first_free_append)
  next
    case False
    then have ff: "first_free ?bs = first_free xs" "first_free ?bs1 = first_free xs"
      by (auto simp: first_free_append)
    moreover have "\<not> adr H (tot ?xs) < adr H (first_free xs)"
      unfolding tx using bd(1) E n(3) first_free_less[OF bd(2) False] by (subst adr_cmp(2)) auto
    ultimately show ?thesis using M(2) by (simp add: m2_def m1_def)
  qed
  have k2: "heap_ptr m2 = adr H 0" "heap_end m2 = adr H (tot ?bs1)" "max_used m2 = max_used m"
    "mem_size_aligned m2 = of_nat (tot ?bs - 16)" "used_size m2 = used_size m1"
  proof -
    have "heap_ptr m2 = heap_ptr m" "heap_end m2 = heap_end m" "mem_size_aligned m2 = mem_size_aligned m"
      by (simp_all add: m2_def m1_def)
    then show "heap_ptr m2 = adr H 0" "heap_end m2 = adr H (tot ?bs1)" "mem_size_aligned m2 = of_nat (tot ?bs - 16)"
      unfolding M0 M(1,3) t1 by blast+
    show "max_used m2 = max_used m" "used_size m2 = used_size m1" by (simp_all add: m2_def m1_def)
  qed
  have u2: "used_size m2 = of_nat (used_tot ?xs + used_tot ys)"
  proof -
    have a: "used_size m1 = used_size m - (sz - of_nat n)" by (simp add: m1_def)
    have v: "sz - of_nat n = of_nat ?f" unfolding sz_def by (rule u32_diff) (use n(3) in linarith)
    have u: "used_tot ?bs = (used_tot ?xs + used_tot ys) + ?f" using ld n(3) by simp
    show ?thesis unfolding k2(5) a v M(4) u by (simp only: of_nat_add add_diff_cancel_right')
  qed
  have um: "used_size m2 \<le> max_used m2"
  proof -
    have "used_tot ?xs + used_tot ys \<le> used_tot ?bs" using ld n(3) by simp
    then have "of_nat (used_tot ?xs + used_tot ys) \<le> (of_nat (used_tot ?bs) :: u32)"
      using used_tot_le[of ?bs] bd(1) by (subst u32_nat(3)) auto
    then show ?thesis using u2 k2(3) M(4,5) by (metis order_trans)
  qed
  obtain w' where w': "plug_holes (adr H (tot ?xs)) (m2, w1) = Some (m2, w')"
    "layout w' H s (coalesce ?xs ?f ys)" "fits_in H (coalesce ?xs ?f ys)"
    using plug_holes_ok[OF lay1 f1 s(1) k2(1,2) l2] by blast
  note C = coalesce_simps[where xs = ?xs and n = ?f and ys = ys]
  have H2: "unat (heap_ptr m2) = H"
  proof -
    have "heap_ptr m2 = heap_ptr m" using k2(1) M0 by simp
    then show ?thesis using m(3) by simp
  qed
  have mg': "merged (coalesce ?xs ?f ys)" using mg by (intro C(3)) (auto simp: merged_append merged_Cons)
  have "lfree m2 = adr H (first_free (coalesce ?xs ?f ys))" using l2 C(4)[of ys] by simp
  moreover have tc: "tot (coalesce ?xs ?f ys) = tot ?bs" unfolding C(1) using t1 by simp
  ultimately have "heap_rep s (coalesce ?xs ?f ys) m2 w'"
    by (intro heap_repI[OF H2 tc s(2,1) H8 w'(3) C(5) mg' w'(2) k2(2)[unfolded t1] k2(4) _ u2 C(2) um])
  then have "heap_is s H (coalesce ?xs ?f ys) (h\<lparr>words := w', pools := (pools h)(s \<mapsto> m2)\<rparr>)"
    using H2 by (simp add: heap_is_def)
  then show ?thesis
    by (simp only: m(1) bind.bind_lunit Let_def m1_def[symmetric] w1_def[symmetric] a2 m2_def[symmetric]
        w'(1) prod.case ok_Some) simp
qed


lemma layout_content:
  assumes lay: "layout w H s (xs @ Used e # ys)" and f: "fits_in H (xs @ Used e # ys)"
    and keep: "\<And>q. q < tot xs + 16 \<or> tot xs + 16 + 4 * length e \<le> q \<Longrightarrow>
      q \<le> tot (xs @ Used e # ys) + 8 \<Longrightarrow> w' (adr H q) = w (adr H q)"
  shows "layout w' H s (xs @ Used (content w' H (tot xs) (length e)) # ys)"
proof -
  let ?i = "tot xs" and ?k = "16 + 4 * length e" and ?E = "tot (xs @ Used e # ys)"
  have parts: "seg w H s 0 0 xs" "blk_at w H s (lastp 0 0 xs) ?i (Used e)" "seg w H s ?i (?i + ?k) ys"
    "w (adr H ?E) = s OR 1" "w (adr H (?E + 4)) = of_nat ?E"
    using lay by (simp_all add: layout_def seg_append add.assoc)
  have bd: "sized xs" "sized ys" using f by (simp_all add: fits_in_def)
  have E: "?i + ?k + tot ys = ?E" by simp
  have x: "seg w' H s 0 0 xs" using parts(1) by (subst seg_frame[of 0 xs w' H w]) (use keep bd in auto)
  have y: "seg w' H s ?i (?i + ?k) ys"
    using parts(3) by (subst seg_frame[of "?i + ?k" ys w' H w]) (use keep bd E in auto)
  have b: "blk_at w' H s (lastp 0 0 xs) ?i (Used (content w' H ?i (length e)))"
    using parts(2) keep[of ?i] keep[of "?i + 4"] keep[of "?i + 8"] by (simp add: blk_at_def content_def)
  have "w' (adr H ?E) = s OR 1" "w' (adr H (?E + 4)) = of_nat ?E"
    using parts(4,5) keep[of ?E] keep[of "?E + 4"] E by auto
  then show ?thesis using x y b by (simp add: layout_def seg_append add.assoc)
qed

lemma adr_diff: "p \<le> q \<Longrightarrow> adr H q - adr H p = of_nat (q - p)"
  unfolding adr_def by (subst u32_diff) simp_all

lemma copy_words_adr:
  assumes "H + q < 2 ^ 32" "H + p + n < 2 ^ 32"
  shows "copy_words (adr H p) src (of_nat n) w (adr H q) =
    (if p \<le> q \<and> q < p + n then w (src + of_nat (q - p)) else w (adr H q))"
proof (cases "p \<le> q")
  case True
  note d = adr_diff[OF True]
  have "(of_nat (q - p) < (of_nat n :: u32)) \<longleftrightarrow> q - p < n"
    by (rule u32_nat(2)) (use assms in auto)
  then show ?thesis unfolding copy_words_def d using True by auto
next
  case False
  have "adr H q - adr H p = - of_nat (p - q)"
    using adr_diff[of q p H] False by (metis minus_diff_eq nat_le_linear)
  also have "\<dots> = of_nat (2 ^ 32 - (p - q))"
  proof -
    have "of_nat (2 ^ 32 - (p - q)) + of_nat (p - q) = (of_nat (2 ^ 32) :: u32)"
      unfolding of_nat_add[symmetric] using assms by (intro arg_cong[of _ _ of_nat]) auto
    moreover have "(of_nat (2 ^ 32) :: u32) = 0" by simp
    ultimately have "of_nat (2 ^ 32 - (p - q)) + of_nat (p - q) = (0 :: u32)" by simp
    then show ?thesis by (metis add.inverse_unique add.commute minus_equation_iff)
  qed
  finally have d: "adr H q - adr H p = of_nat (2 ^ 32 - (p - q))" .
  have "\<not> (of_nat (2 ^ 32 - (p - q)) :: u32) < of_nat n"
    by (subst u32_nat(2)) (use assms False in auto)
  then show ?thesis unfolding copy_words_def d using False by simp
qed

lemma merged_content: "merged (xs @ Used e # ys) = merged (xs @ Used e' # ys)"
  by (auto simp: merged_append merged_Cons)

lemma first_free_content:
  "length e' = length e \<Longrightarrow> first_free (xs @ Used e' # ys) = first_free (xs @ Used e # ys)"
  by (simp add: first_free_append)

lemma heap_copy:
  assumes heap: "heap_is s H (xs @ Used e # ys) h" and old: "xs @ Used e # ys = us @ Used d # vs"
    and n: "n mod 4 = 0" "n \<le> 4 * length e" "n \<le> 4 * length d"
  shows "\<exists>e'. length e' = length e \<and> take (n div 4) e' = take (n div 4) d \<and>
    heap_is s H (xs @ Used e' # ys)
      (h\<lparr>words := copy_words (adr H (tot xs + 16)) (adr H (tot us + 16)) (of_nat n) (words h)\<rparr>)"
proof -
  let ?bs = "xs @ Used e # ys" and ?i = "tot xs"
  let ?w' = "copy_words (adr H (?i + 16)) (adr H (tot us + 16)) (of_nat n) (words h)"
  let ?e = "content ?w' H ?i (length e)"
  obtain m where m: "pools h s = Some m" "heap_rep s ?bs m (words h)" "unat (heap_ptr m) = H"
    using heap by (auto simp: heap_is_def)
  note R = m(2)[unfolded heap_rep_iff Let_def m(3)]
  have f: "fits_in H ?bs" and lay: "layout (words h) H s ?bs" using R by blast+
  have bd: "H + ?i + 16 + 4 * length e + tot ys + 16 \<le> 2 ^ 32" using f by (simp add: fits_in_def)
  have cp: "?w' (adr H q) = (if ?i + 16 \<le> q \<and> q < ?i + 16 + n
      then words h (adr H (tot us + 16) + of_nat (q - (?i + 16))) else words h (adr H q))"
    if "q \<le> tot ?bs + 8" for q
    by (rule copy_words_adr) (use that bd n in auto)
  have lay': "layout ?w' H s (xs @ Used ?e # ys)"
    by (rule layout_content[OF lay f]) (use cp n in auto)
  have f': "fits_in H (xs @ Used ?e # ys)" using f by (simp add: fits_in_def) (metis length_0_conv length_content)
  have "take (n div 4) ?e = take (n div 4) d"
  proof (rule nth_equalityI)
    fix k assume "k < length (take (n div 4) ?e)"
    then have k: "k < n div 4" "k < length e" "k < length d" using n by auto
    have "blk_at (words h) H s (lastp 0 0 us) (tot us) (Used d)"
      using lay[unfolded old] by (simp add: layout_def seg_append)
    then have "words h (adr H (tot us + 16 + 4 * k)) = d ! k" using k by (simp add: blk_at_def)
    moreover have "?w' (adr H (?i + 16 + 4 * k)) = words h (adr H (tot us + 16) + of_nat (4 * k))"
      using cp[of "?i + 16 + 4 * k"] k by auto
    ultimately show "take (n div 4) ?e ! k = take (n div 4) d ! k"
      using k by (simp add: content_def)
  qed (use n in auto)
  moreover have "heap_rep s (xs @ Used ?e # ys) m ?w'"
  proof (rule heap_repI[OF m(3) refl])
    show "merged (xs @ Used ?e # ys)" using R merged_content by blast
    show "heap_end m = adr H (tot (xs @ Used ?e # ys))" "mem_size_aligned m = of_nat (tot (xs @ Used ?e # ys) - 16)"
      "lfree m = adr H (first_free (xs @ Used ?e # ys))"
    proof -
      have t: "tot (xs @ Used ?e # ys) = tot ?bs" by simp
      have ff: "first_free (xs @ Used ?e # ys) = first_free ?bs" by (rule first_free_content) simp
      show "heap_end m = adr H (tot (xs @ Used ?e # ys))" "mem_size_aligned m = of_nat (tot (xs @ Used ?e # ys) - 16)"
        "lfree m = adr H (first_free (xs @ Used ?e # ys))" unfolding t ff using R by blast+
    qed
    show "used_tot (xs @ Used ?e # ys) = used_tot ?bs" by simp
  qed (use R f' lay' in \<open>blast | simp\<close>)+
  ultimately show ?thesis using m(1,3) by (intro exI[of _ ?e]) (simp add: heap_is_def)
qed


text \<open>The block \<open>d\<close> at the offset \<open>i\<close> moved to a first-fit block of at least \<open>n\<close> bytes, its first \<open>l\<close>
  bytes with it, or there was none.\<close>

definition moved :: "nat \<Rightarrow> blk list \<Rightarrow> u32 list \<Rightarrow> nat \<Rightarrow> nat \<Rightarrow> nat \<Rightarrow> u32 \<Rightarrow> blk list \<Rightarrow> bool" where
  "moved H bs d i l n r bs' \<longleftrightarrow>
     (if \<exists>k. Free k \<in> set bs \<and> 16 + n \<le> k
      then \<exists>us k vs e xs' ys'. bs = us @ Free k # vs \<and> 16 + n \<le> k \<and> (\<forall>j. Free j \<in> set us \<longrightarrow> j < 16 + n) \<and>
        length e = carved n k div 4 \<and> take (l div 4) e = take (l div 4) d \<and>
        r = adr H (tot us + 16) \<and> us @ carve n k e vs = xs' @ Used d # ys' \<and> tot xs' = i \<and>
        bs' = coalesce xs' (16 + 4 * length d) ys'
      else r = 0 \<and> bs' = bs)"

text \<open>The outcome of resizing the block \<open>d\<close> between \<open>xs\<close> and \<open>ys\<close> to \<open>n\<close> bytes: too large, released,
  unchanged, cut in place, or moved with its contents if another block is found.\<close>

definition resized :: "nat \<Rightarrow> blk list \<Rightarrow> u32 list \<Rightarrow> blk list \<Rightarrow> nat \<Rightarrow> u32 \<Rightarrow> blk list \<Rightarrow> bool" where
  "resized H xs d ys n r bs' \<longleftrightarrow>
     (let bs = xs @ Used d # ys; l = 4 * length d; n' = max 16 n
      in if tot bs - 16 < n then r = 0 \<and> bs' = bs
         else if n = 0 then r = 0 \<and> bs' = coalesce xs (16 + l) ys
         else if l = n then r = adr H (tot xs + 16) \<and> bs' = bs
         else if n + 28 < l then r = adr H (tot xs + 16) \<and>
           bs' = coalesce (xs @ [Used (take (n div 4) d)]) (l - n) ys
         else moved H bs d (tot xs) (min l n) n' r bs')"

lemma carve_keeps:
  assumes "xs @ Used d # ys = us @ Free k # vs" "16 + n \<le> k" "length e = carved n k div 4" "n mod 8 = 0" "k mod 8 = 0"
  shows "\<exists>xs' ys'. us @ carve n k e vs = xs' @ Used d # ys' \<and> tot xs' = tot xs"
proof -
  consider (before) zs where "xs = us @ Free k # zs" "vs = zs @ Used d # ys"
    | (after) zs where "us = xs @ Used d # zs"
    using assms(1) by (auto simp: append_eq_append_conv2 append_eq_Cons_conv Cons_eq_append_conv)
  then show ?thesis
  proof cases
    case before
    then have "us @ carve n k e vs = (us @ carve n k e zs) @ Used d # ys" by (simp add: carve_def)
    moreover have "tot (us @ carve n k e zs) = tot xs" using carve_simps(1)[OF assms(2-5), of zs] before by simp
    ultimately show ?thesis by blast
  next
    case after
    then have "us @ carve n k e vs = xs @ Used d # (zs @ carve n k e vs)" by simp
    then show ?thesis by blast
  qed
qed

lemma heap_is_sized: "heap_is s H bs h \<Longrightarrow> sized bs \<and> H + tot bs + 16 \<le> 2 ^ 32 \<and> 16 \<le> tot bs"
  using heap_repD(4,6,17) by (auto simp: heap_is_def)

lemma carve_Cons: "\<exists>zs. \<forall>e. carve n k e vs = Used e # zs"
  by (cases "n + 48 \<le> k") (auto simp: carve_def)

lemma smem_move_ok:
  assumes heap: "heap_is s H (xs @ Used d # ys) h" and n: "n mod 8 = 0" "0 < n" "n < 2 ^ 32 - 8"
  defines "bs \<equiv> xs @ Used d # ys" and "rmem \<equiv> adr H (tot xs + 16)" and "n' \<equiv> max 16 n"
    and "l \<equiv> min (4 * length d) n"
  shows "ok (do {
      (nmem, h1) \<leftarrow> rt_smem_alloc s (of_nat n) h;
      if nmem = 0 then Some (0, h1)
      else do {
        h2 \<leftarrow> rt_smem_free rmem (h1\<lparr>words := copy_words nmem rmem (of_nat l) (words h1)\<rparr>);
        Some (nmem, h2)
      }
    }) (\<lambda>(r, h'). \<exists>bs'. heap_is s H bs' h' \<and> (\<forall>t. t \<noteq> s \<longrightarrow> pools h' t = pools h t) \<and>
      moved H bs d (tot xs) l n' r bs')"
proof -
  have un: "unat (of_nat n :: u32) = n" by (rule u32_nat(4)[of _ 0]) (use n in auto)
  have rq: "request (of_nat n) = n'" using n(1) un unfolding request_def n'_def by presburger
  note Q = request_word[of "of_nat n", unfolded rq un]
  have n32: "n + 7 < 2 ^ 32" and nz: "(of_nat n :: u32) \<noteq> 0" using n un by auto
  from smem_alloc_ok[OF heap nz Q(1)[OF n32] Q(2)[OF n32] Q(3)[OF n32] Q(4)[OF n32]]
  obtain nmem h1 bs1 where A: "rt_smem_alloc s (of_nat n) h = Some (nmem, h1)" "heap_is s H bs1 h1"
    "allocated H n' bs nmem bs1" "\<forall>t. t \<noteq> s \<longrightarrow> pools h1 t = pools h t"
    unfolding bs_def[symmetric] by (auto elim!: ok_pairE)
  show ?thesis
  proof (cases "\<exists>k. Free k \<in> set bs \<and> 16 + n' \<le> k")
    case False
    then have "nmem = 0" "bs1 = bs" using A(3) unfolding allocated_def by (simp_all only: if_False)
    moreover from this False have "moved H bs d (tot xs) l n' nmem bs1" unfolding moved_def by (simp only: if_False)
    ultimately show ?thesis using A(1,2,4) by auto
  next
    case True
    with A(3) obtain us k vs e where x: "bs = us @ Free k # vs" "16 + n' \<le> k" "\<forall>j. Free j \<in> set us \<longrightarrow> j < 16 + n'"
      "length e = carved n' k div 4" "nmem = adr H (tot us + 16)" "bs1 = us @ carve n' k e vs"
      unfolding allocated_def by (simp only: if_True) blast
    have sz: "sized bs" "H + tot bs + 16 \<le> 2 ^ 32" using heap_is_sized[OF heap] by (simp_all only: bs_def)
    have k8: "k mod 8 = 0" using sz(1) by (simp add: x(1))
    have nm: "nmem \<noteq> 0"
    proof -
      have "H + (tot us + 16) < 2 ^ 32" using sz(2) x(2) by (simp add: x(1))
      then have "unat nmem = H + (tot us + 16)"
        unfolding x(5) adr_def by (rule u32_nat(4)[of _ 0]) simp
      then show ?thesis by auto
    qed
    obtain zs where zs: "\<And>e. carve n' k e vs = Used e # zs" using carve_Cons by blast
    note keeps = carve_keeps[OF x(1)[unfolded bs_def] x(2) _ Q(2)[OF n32] k8]
    obtain xs1 ys1 where o1: "us @ carve n' k e vs = xs1 @ Used d # ys1" "tot xs1 = tot xs"
      using keeps[OF x(4)] by blast
    have l4: "l mod 4 = 0" "l \<le> 4 * length d" using n(1) unfolding l_def by (auto simp: min_def)
    have "4 * length e = carved n' k"
      using carve_simps(2)[OF x(2,4) Q(2)[OF n32] k8] by simp
    then have le: "l \<le> 4 * length e" using x(2) unfolding l_def n'_def carved_def by (auto simp: max_def min_def)
    have "heap_is s H (us @ Used e # zs) h1" "us @ Used e # zs = xs1 @ Used d # ys1"
      using A(2) x(6) zs o1(1) by simp_all
    from heap_copy[OF this l4(1) le l4(2)] obtain e' where e': "length e' = length e"
      "take (l div 4) e' = take (l div 4) d"
      "heap_is s H (us @ Used e' # zs) (h1\<lparr>words := copy_words nmem rmem (of_nat l) (words h1)\<rparr>)"
      by (auto simp: x(5) rmem_def o1(2))
    obtain xs2 ys2 where o2: "us @ carve n' k e' vs = xs2 @ Used d # ys2" "tot xs2 = tot xs"
      using keeps[of e'] x(4) e'(1) by auto
    have "heap_is s H (xs2 @ Used d # ys2) (h1\<lparr>words := copy_words nmem rmem (of_nat l) (words h1)\<rparr>)"
      using e'(3) zs o2(1) by simp
    from smem_free_ok[OF this] obtain h2 where h2:
      "rt_smem_free rmem (h1\<lparr>words := copy_words nmem rmem (of_nat l) (words h1)\<rparr>) = Some h2"
      "heap_is s H (coalesce xs2 (16 + 4 * length d) ys2) h2" "\<forall>t. t \<noteq> s \<longrightarrow> pools h2 t = pools h1 t"
      by (auto simp: ok_iff rmem_def o2(2))
    have "moved H bs d (tot xs) l n' nmem (coalesce xs2 (16 + 4 * length d) ys2)"
      unfolding moved_def if_P[OF True]
      by (rule exI[of _ us], rule exI[of _ k], rule exI[of _ vs], rule exI[of _ e'], rule exI[of _ xs2],
          rule exI[of _ ys2]) (use x e' o2 in simp)
    then have "heap_is s H (coalesce xs2 (16 + 4 * length d) ys2) h2 \<and> (\<forall>t. t \<noteq> s \<longrightarrow> pools h2 t = pools h t) \<and>
        moved H bs d (tot xs) l n' nmem (coalesce xs2 (16 + 4 * length d) ys2)"
      using A(4) h2 by simp
    then show ?thesis by (simp add: A(1) nm h2(1)) blast
  qed
qed


lemma smem_realloc_ok:
  assumes heap: "heap_is s H (xs @ Used d # ys) h" and n: "unat newsize + 7 < 2 ^ 32"
  shows "ok (rt_smem_realloc s (adr H (tot xs + 16)) newsize h) (\<lambda>(r, h'). \<exists>bs'. heap_is s H bs' h' \<and>
    (\<forall>t. t \<noteq> s \<longrightarrow> pools h' t = pools h t) \<and> resized H xs d ys ((unat newsize + 7) div 8 * 8) r bs')"
proof -
  let ?bs = "xs @ Used d # ys" and ?i = "tot xs" and ?l = "4 * length d" and ?w = "words h"
  let ?r = "adr H (?i + 16)"
  define k where "k = (unat newsize + 7) div 8 * 8"
  have uk: "unat (rt_align newsize 8) = k" unfolding k_def by (rule unat_rt_align8[OF n])
  have wk: "rt_align newsize 8 = of_nat k" unfolding uk[symmetric] by simp
  have k8: "k mod 8 = 0" "k < 2 ^ 32" using n unfolding k_def by auto
  obtain m where m: "pools h s = Some m" "heap_rep s ?bs m ?w" "unat (heap_ptr m) = H"
    using heap by (auto simp: heap_is_def)
  note R = m(2)[unfolded heap_rep_iff Let_def m(3)]
  have s: "even s" and H8: "H mod 8 = 0" "0 < H" and f: "fits_in H ?bs" and lay: "layout ?w H s ?bs"
    using R by blast+
  have M0: "heap_ptr m = adr H 0" using heap_repD(16)[OF m(2)] m(3) by simp
  have M: "heap_end m = adr H (tot ?bs)" "mem_size_aligned m = of_nat (tot ?bs - 16)" using R by blast+
  have bd: "H + tot ?bs + 16 \<le> 2 ^ 32" "sized xs" "(16 + ?l) mod 8 = 0" "d \<noteq> []"
    using f by (simp_all add: fits_in_def)
  have E: "?i + 16 + ?l + tot ys = tot ?bs" by simp
  have b: "blk_at ?w H s (lastp 0 0 xs) ?i (Used d)" using lay by (simp add: layout_def seg_append)
  have lim: "(of_nat k > mem_size_aligned m) \<longleftrightarrow> tot ?bs - 16 < k"
    unfolding M(2) by (rule u32_nat(2)) (use k8 bd in auto)
  have k0: "(of_nat k = (0 :: u32)) \<longleftrightarrow> k = 0" using u32_nat(1)[OF k8(2), of 0] by simp
  have nz: "?r \<noteq> 0"
  proof -
    have "H + (?i + 16) < 2 ^ 32" using bd(1) E by linarith
    then have "unat ?r = H + (?i + 16)" unfolding adr_def by (rule u32_nat(4)[of _ 0]) simp
    then show ?thesis by auto
  qed
  have i8: "(?i + 16) mod 8 = 0" using tot_mod8[OF bd(2)] by presburger
  have al: "?r AND 7 = 0" by (rule adr_aligned(2)[OF H8(1) i8])
  have rng: "heap_ptr m \<le> ?r" "?r < heap_end m"
  proof -
    have "0 < length d" using bd(4) by simp
    then show "heap_ptr m \<le> ?r" "?r < heap_end m"
      unfolding M0 M(1) using bd(1) E by (simp_all only: adr_cmp)
  qed
  have mem: "?r - 16 = adr H ?i" using adr_16[of "?i + 16" H] by simp
  have p: "adr H ?i - heap_ptr m = of_nat ?i" by (simp add: M0)
  have sz: "?w (next_at (adr H ?i)) - of_nat ?i - 16 = of_nat ?l"
    using blk_atD(3)[OF b s] by simp
  have cl: "(of_nat ?l = (of_nat k :: u32)) \<longleftrightarrow> ?l = k" by (rule u32_nat(1)) (use bd(1) E k8 in auto)
  show ?thesis
  proof (cases "tot ?bs - 16 < k \<or> k = 0 \<or> ?l = k")
    case True
    then consider (big) "tot ?bs - 16 < k" | (none) "\<not> tot ?bs - 16 < k" "k = 0"
      | (same) "\<not> tot ?bs - 16 < k" "k \<noteq> 0" "?l = k" by blast
    then show ?thesis
    proof cases
      case big
      have "rt_smem_realloc s ?r newsize h = Some (0, h)"
        using big lim m(1) wk by (simp add: rt_smem_realloc_def Let_def)
      moreover have "resized H xs d ys k 0 ?bs" using big by (simp add: resized_def Let_def)
      ultimately show ?thesis using heap unfolding k_def[symmetric] by auto
    next
      case none
      obtain h1 where h1: "rt_smem_free ?r h = Some h1" "heap_is s H (coalesce xs (16 + ?l) ys) h1"
        "\<forall>t. t \<noteq> s \<longrightarrow> pools h1 t = pools h t"
        using smem_free_ok[OF heap] by (auto simp: ok_iff)
      have "rt_smem_realloc s ?r newsize h = Some (0, h1)"
        using none h1(1) lim m(1) wk by (simp add: rt_smem_realloc_def Let_def)
      moreover have "resized H xs d ys k 0 (coalesce xs (16 + ?l) ys)" using none by (simp add: resized_def Let_def)
      ultimately show ?thesis using h1 unfolding k_def[symmetric] by auto
    next
      case same
      have "rt_smem_realloc s ?r newsize h = Some (?r, h)"
        unfolding rt_smem_realloc_def wk
        by (simp only: m(1) bind.bind_lunit Let_def mem p sz lim same(1,2) k0 nz al rng same(3) refl
            if_False if_True rt_assert_simps simp_thms)
      moreover have "resized H xs d ys k ?r ?bs" using same by (simp add: resized_def Let_def)
      ultimately show ?thesis using heap unfolding k_def[symmetric] by auto
    qed
  next
    case False
    note False' = False[unfolded de_Morgan_disj]
    note F = conjunct1[OF False'] conjunct1[OF conjunct2[OF False']] conjunct2[OF conjunct2[OF False']]
    have kE: "k \<le> tot ?bs - 16" using F(1) by simp
    have c28: "(of_nat k + 16 + 12 < (of_nat ?l :: u32)) \<longleftrightarrow> k + 28 < ?l"
    proof -
      have e: "of_nat k + 16 + 12 = (of_nat (k + 28) :: u32)" by simp
      show ?thesis unfolding e by (rule u32_nat(2)) (use bd(1) E kE H8 in linarith)+
    qed
    let ?shrink = "do {
      m \<leftarrow> pools h s;
      let m1 = m\<lparr>used_size := used_size m - (of_nat ?l - of_nat k)\<rparr>;
      let w1 = smem_split s (of_nat k) (of_nat ?i) m1 ?w;
      let mem2 = heap_ptr m1 + (of_nat ?i + SIZEOF_STRUCT_MEM + of_nat k);
      let m2 = (if mem2 < lfree m1 then m1\<lparr>lfree := mem2\<rparr> else m1);
      (m3, w3) \<leftarrow> plug_holes mem2 (m2, w1);
      Some (?r, h\<lparr>words := w3, pools := (pools h)(s \<mapsto> m3)\<rparr>) }"
    let ?lw = "if of_nat ?l < (of_nat k :: u32) then of_nat ?l else of_nat k"
    let ?move = "do {
      (nmem, h1) \<leftarrow> rt_smem_alloc s (of_nat k) h;
      if nmem = 0 then Some (0, h1)
      else do {
        h2 \<leftarrow> rt_smem_free ?r (h1\<lparr>words := copy_words nmem ?r ?lw (words h1)\<rparr>);
        Some (nmem, h2) } }"
    have run: "rt_smem_realloc s ?r newsize h = (if k + 28 < ?l then ?shrink else ?move)"
      unfolding rt_smem_realloc_def wk
      by (simp only: m(1) bind.bind_lunit Let_def mem p sz lim F(1) k0 F(2) nz al rng cl F(3) c28
          if_False if_True rt_assert_simps simp_thms)
    show ?thesis
    proof (cases "k + 28 < ?l")
      case True
      then have t: "k + 32 \<le> ?l" "8 \<le> k" using k8(1) bd(3) F(2) by presburger+
      have "ok ?shrink (\<lambda>(r', h'). r' = ?r \<and> heap_is s H (coalesce (xs @ [Used (take (k div 4) d)]) (?l - k) ys) h' \<and>
          (\<forall>t. t \<noteq> s \<longrightarrow> pools h' t = pools h t))"
        by (rule smem_shrink_ok[OF heap k8(1) t(2,1)])
      moreover have "resized H xs d ys k ?r (coalesce (xs @ [Used (take (k div 4) d)]) (?l - k) ys)"
        using F True by (simp add: resized_def Let_def)
      ultimately show ?thesis
        unfolding run if_P[OF True] k_def[symmetric] by (elim ok_mono) auto
    next
      case small: False
      have lw: "?lw = of_nat (min ?l k)"
        using u32_nat(2)[of ?l k] bd(1) E k8(2) by (simp add: min_def)
      have "ok ?move (\<lambda>(r, h'). \<exists>bs'. heap_is s H bs' h' \<and> (\<forall>t. t \<noteq> s \<longrightarrow> pools h' t = pools h t) \<and>
          moved H ?bs d ?i (min ?l k) (max 16 k) r bs')"
        unfolding lw by (rule smem_move_ok[OF heap k8(1)]) (use F(2) kE bd(1) H8 in linarith)+
      moreover have "moved H ?bs d ?i (min ?l k) (max 16 k) r bs' \<Longrightarrow> resized H xs d ys k r bs'" for r bs'
        unfolding resized_def Let_def using F small by (simp only: if_False simp_thms)
      ultimately show ?thesis
        unfolding run if_not_P[OF small] k_def[symmetric] by (elim ok_mono) blast
    qed
  qed
qed


section \<open>Properties\<close>

text \<open>C14: Allocation. A request that does not wrap when it is aligned is served from the first free block
  that is large enough, cut when its rest can hold a block; the contents of all used blocks stay, and without
  such a block the heap stays as it is and null is returned. No assertion fails.\<close>
theorem smem_alloc_first_fit:
  assumes "heap_is s H bs h" "msize \<noteq> 0" "unat msize + 7 < 2 ^ 32"
  shows "ok (rt_smem_alloc s msize h) (\<lambda>(r, h'). \<exists>bs'. heap_is s H bs' h' \<and> allocated H (request msize) bs r bs' \<and>
    (\<forall>t. t \<noteq> s \<longrightarrow> pools h' t = pools h t))"
  by (rule smem_alloc_ok[OF assms(1,2) request_word[OF assms(3)]])

text \<open>A heap of 1024 bytes at 0x1000 and the same heap with one block of 16 bytes in use.\<close>

definition example_heap :: smem where
  "example_heap = snd (rt_smem_init 0x1000 0x400 \<lparr>words = (\<lambda>_. 0), pools = (\<lambda>_. None)\<rparr>)"

lemma example_heap_is: "heap_is 0x1000 4152 [Free 952] example_heap"
proof -
  have "adr 4152 0 = 0x1038" "adr 4152 4 = 0x103c" "adr 4152 8 = 0x1040" "adr 4152 952 = 0x13f0"
    "adr 4152 956 = 0x13f4" by (simp_all add: adr_def)
  then show ?thesis
    by (simp add: example_heap_def heap_is_def heap_rep_iff rt_smem_init_def rt_align_def rt_align_down_def Let_def
        fits_in_def layout_def blk_at_def MEM_FREED_def MEM_USED_def)
qed

theorem smem_alloc_first_fit_witness:
  "ok (rt_smem_alloc 0x1000 20 example_heap) (\<lambda>(r, h'). \<exists>bs'. heap_is 0x1000 4152 bs' h' \<and>
    allocated 4152 (request 20) [Free 952] r bs' \<and> (\<forall>t. t \<noteq> 0x1000 \<longrightarrow> pools h' t = pools example_heap t))"
  by (rule smem_alloc_first_fit[OF example_heap_is]) simp_all


lemma double_free_stops:
  assumes "r \<noteq> 0" "\<not> MEM_ISUSED (words h) (r - 16)"
  shows "rt_smem_free r h = None"
  using assms by (simp add: rt_smem_free_def rt_assert_def Let_def)

lemma used_block_nonzero:
  assumes "heap_is s H (xs @ b # ys) h"
  shows "adr H (tot xs + 16) \<noteq> 0"
proof -
  have "H + (tot xs + 16) < 2 ^ 32" using heap_is_sized[OF assms] by simp
  then have "unat (adr H (tot xs + 16)) = H + (tot xs + 16)"
    unfolding adr_def by (rule u32_nat(4)[of _ 0]) simp
  then show ?thesis by auto
qed

text \<open>C15: Release. A used block becomes free and one with its free neighbours, so no two free blocks touch;
  the contents of the other blocks stay. A second release of the same address stops in an assertion.\<close>
theorem smem_free_coalesces:
  assumes "heap_is s H (xs @ Used d # ys) h"
  shows "ok (rt_smem_free (adr H (tot xs + 16)) h) (\<lambda>h'.
    heap_is s H (coalesce xs (16 + 4 * length d) ys) h' \<and> (\<forall>t. t \<noteq> s \<longrightarrow> pools h' t = pools h t) \<and>
    rt_smem_free (adr H (tot xs + 16)) h' = None)"
proof -
  have "adr H (tot xs + 16) - 16 = adr H (tot xs)" using adr_16[of "tot xs + 16" H] by simp
  then show ?thesis
    using double_free_stops[OF used_block_nonzero[OF assms]] by (intro ok_mono[OF smem_free_ok[OF assms]]) simp
qed

text \<open>The example heap after the allocation of 16 bytes.\<close>

definition example_used :: smem where
  "example_used = \<lparr>words = (\<lambda>_. 0)(0x1038 := 0x1001, 0x103c := 32, 0x1058 := 0x1000, 0x105c := 952,
       0x13f0 := 0x1001, 0x13f4 := 952),
     pools = [0x1000 \<mapsto> \<lparr>heap_ptr = 0x1038, heap_end = 0x13f0, lfree = 0x1058, mem_size_aligned = 936,
       total_size = 936, used_size = 32, max_used = 32\<rparr>]\<rparr>"

lemma example_used_is: "heap_is 0x1000 4152 ([] @ Used [0, 0, 0, 0] # [Free 920]) example_used"
proof -
  have "adr 4152 0 = 0x1038" "adr 4152 4 = 0x103c" "adr 4152 8 = 0x1040" "adr 4152 952 = 0x13f0"
    "adr 4152 956 = 0x13f4" "adr 4152 32 = 0x1058" "adr 4152 36 = 0x105c" "adr 4152 40 = 0x1060"
    "adr 4152 16 = 0x1048" "adr 4152 20 = 0x104c" "adr 4152 24 = 0x1050" "adr 4152 28 = 0x1054"
    by (simp_all add: adr_def)
  then show ?thesis
    by (simp add: example_used_def heap_is_def heap_rep_iff Let_def fits_in_def layout_def blk_at_def
        All_less_Suc)
qed

theorem smem_free_coalesces_witness:
  "ok (rt_smem_free (adr 4152 (tot [] + 16)) example_used) (\<lambda>h'.
    heap_is 0x1000 4152 (coalesce [] (16 + 4 * length [0, 0, 0, 0 :: u32]) [Free 920]) h' \<and>
    (\<forall>t. t \<noteq> 0x1000 \<longrightarrow> pools h' t = pools example_used t) \<and>
    rt_smem_free (adr 4152 (tot [] + 16)) h' = None)"
  by (rule smem_free_coalesces[OF example_used_is])

lemma carve_coalesce:
  assumes "merged (xs @ Free k # ys)" "length d = carved n k div 4" "16 + n \<le> k" "n mod 8 = 0" "k mod 8 = 0"
  shows "\<exists>zs. carve n k d ys = Used d # zs \<and> coalesce xs (16 + 4 * length d) zs = xs @ Free k # ys"
proof -
  have l: "16 + 4 * length d = 16 + carved n k" using carve_simps(2)[OF assms(3,2,4,5)] by simp
  have x: "xs = [] \<or> is_used (last xs)" using assms(1) by (simp add: merged_append)
  have y: "join_right k ys = (k, ys)"
    using assms(1) by (cases ys; cases "hd ys") (auto simp: merged_append merged_Cons)
  show ?thesis
  proof (cases "n + 48 \<le> k")
    case True
    then have "16 + 4 * length d = 16 + n" using l by (simp add: carved_def)
    then show ?thesis using True x by (auto simp: carve_def coalesce_def join_left_def)
  next
    case False
    then have "16 + 4 * length d = k" using l assms(3) by (simp add: carved_def)
    then show ?thesis using False x y by (auto simp: carve_def coalesce_def join_left_def)
  qed
qed

text \<open>An allocation and the release of its result restore the list of blocks, sizes and contents.\<close>
theorem smem_alloc_free_roundtrip:
  assumes "heap_is s H bs h" "msize \<noteq> 0" "unat msize + 7 < 2 ^ 32"
  shows "ok (rt_smem_alloc s msize h) (\<lambda>(r, h'). ok (rt_smem_free r h') (heap_is s H bs))"
proof -
  note Q = request_word[OF assms(3)]
  obtain r h' bs' where A: "rt_smem_alloc s msize h = Some (r, h')" "heap_is s H bs' h'"
    "allocated H (request msize) bs r bs'"
    using smem_alloc_ok[OF assms(1,2) Q] by (auto elim!: ok_pairE)
  show ?thesis
  proof (cases "\<exists>k. Free k \<in> set bs \<and> 16 + request msize \<le> k")
    case False
    then have "r = 0" "bs' = bs" using A(3) unfolding allocated_def by (simp_all only: if_False)
    then show ?thesis using A(1,2) by (simp add: rt_smem_free_def)
  next
    case True
    with A(3) obtain xs k ys d where x: "bs = xs @ Free k # ys" "16 + request msize \<le> k"
      "length d = carved (request msize) k div 4" "r = adr H (tot xs + 16)" "bs' = xs @ carve (request msize) k d ys"
      unfolding allocated_def by (simp only: if_True) blast
    have mg: "merged (xs @ Free k # ys)" and k8: "k mod 8 = 0"
      using assms(1) heap_repD(6,7) by (fastforce simp: heap_is_def x(1))+
    obtain zs where z: "carve (request msize) k d ys = Used d # zs"
      "coalesce xs (16 + 4 * length d) zs = xs @ Free k # ys"
      using carve_coalesce[OF mg x(3,2) Q(2) k8] by blast
    have "heap_is s H (xs @ Used d # zs) h'" using A(2) x(5) z(1) by simp
    from smem_free_ok[OF this] show ?thesis
      by (simp add: A(1) x(4) z(2) x(1)[symmetric]) (erule ok_mono, simp)
  qed
qed

theorem smem_alloc_free_roundtrip_witness:
  "ok (rt_smem_alloc 0x1000 20 example_heap) (\<lambda>(r, h'). ok (rt_smem_free r h') (heap_is 0x1000 4152 [Free 952]))"
  by (rule smem_alloc_free_roundtrip[OF example_heap_is]) simp_all

text \<open>C16: Resizing. A size that does not wrap when it is aligned either is too large and changes nothing,
  or is zero and releases the block, or fits the block as it is, or cuts it in place with its first words kept,
  or moves these words to a new block and releases the old one; without room for a new block nothing changes.\<close>
theorem smem_realloc_keeps:
  assumes "heap_is s H (xs @ Used d # ys) h" "unat newsize + 7 < 2 ^ 32"
  shows "ok (rt_smem_realloc s (adr H (tot xs + 16)) newsize h) (\<lambda>(r, h'). \<exists>bs'. heap_is s H bs' h' \<and>
    (\<forall>t. t \<noteq> s \<longrightarrow> pools h' t = pools h t) \<and> resized H xs d ys ((unat newsize + 7) div 8 * 8) r bs')"
  by (rule smem_realloc_ok[OF assms])

theorem smem_realloc_keeps_witness:
  "ok (rt_smem_realloc 0x1000 (adr 4152 (tot [] + 16)) 100 example_used) (\<lambda>(r, h'). \<exists>bs'. heap_is 0x1000 4152 bs' h' \<and>
    (\<forall>t. t \<noteq> 0x1000 \<longrightarrow> pools h' t = pools example_used t) \<and>
    resized 4152 [] [0, 0, 0, 0] [Free 920] ((unat (100 :: u32) + 7) div 8 * 8) r bs')"
  by (rule smem_realloc_keeps[OF example_used_is]) simp

text \<open>Initialising. A region of at least 102 bytes that does not wrap around becomes a heap with one free
  block, inside the region behind the management structure, and all but at most 23 bytes of it used.\<close>
theorem smem_init_inside:
  assumes "begin_addr \<noteq> 0" "unat begin_addr + unat msize < 2 ^ 32" "102 \<le> unat msize"
  shows "\<exists>H E h'. rt_smem_init begin_addr msize h = (rt_align begin_addr 8, h') \<and>
    heap_is (rt_align begin_addr 8) H [Free E] h' \<and> H = unat (rt_align begin_addr 8) + 56 \<and>
    unat begin_addr + unat msize - 23 \<le> H + E \<and> H + E + 16 \<le> unat begin_addr + unat msize \<and>
    (\<forall>t. t \<noteq> rt_align begin_addr 8 \<longrightarrow> pools h' t = pools h t)"
  by (rule smem_init_ok[OF assms])

theorem smem_init_inside_witness:
  "\<exists>H E h'. rt_smem_init 0x1003 0x200 example_heap = (rt_align 0x1003 8, h') \<and>
    heap_is (rt_align 0x1003 8) H [Free E] h' \<and> H = unat (rt_align 0x1003 8) + 56 \<and>
    unat (0x1003 :: u32) + unat (0x200 :: u32) - 23 \<le> H + E \<and> H + E + 16 \<le> unat (0x1003 :: u32) + unat (0x200 :: u32) \<and>
    (\<forall>t. t \<noteq> rt_align 0x1003 8 \<longrightarrow> pools h' t = pools example_heap t)"
  by (rule smem_init_inside) simp_all

text \<open>Sizes near the end of the address range wrap to zero when they are aligned: an allocation of almost
  four gigabytes returns a block of the least size, and resizing to such a size releases the block.\<close>
theorem smem_huge_sizes_wrap:
  assumes "heap_is s H (xs @ Used d # ys) h" "2 ^ 32 - 8 < unat msize"
  shows "ok (rt_smem_alloc s msize h) (\<lambda>(r, h'). \<exists>bs'. heap_is s H bs' h' \<and>
      allocated H 16 (xs @ Used d # ys) r bs' \<and> (\<forall>t. t \<noteq> s \<longrightarrow> pools h' t = pools h t)) \<and>
    ok (rt_smem_realloc s (adr H (tot xs + 16)) msize h) (\<lambda>(r, h'). r = 0 \<and>
      heap_is s H (coalesce xs (16 + 4 * length d) ys) h')"
proof -
  have "unat (msize + 7) = (unat msize + 7) mod 2 ^ 32" by (simp add: unat_word_ariths)
  also have "\<dots> < 8"
  proof -
    have "unat msize < 2 ^ 32" using unsigned_less[of msize, where 'a = nat] by simp
    then show ?thesis using assms(2) by (simp add: mod_if) linarith
  qed
  finally have "unat (rt_align msize 8) = 0" by (simp add: rt_align_eq_down unat_rt_align_down8)
  then have z: "rt_align msize 8 = 0" by (simp add: unat_0_iff)
  have nz: "msize \<noteq> 0" using assms(2) by auto
  obtain h1 where h1: "rt_smem_free (adr H (tot xs + 16)) h = Some h1"
    "heap_is s H (coalesce xs (16 + 4 * length d) ys) h1"
    using smem_free_ok[OF assms(1)] by (auto simp: ok_iff)
  have "ok (rt_smem_realloc s (adr H (tot xs + 16)) msize h) (\<lambda>(r, h'). r = 0 \<and>
      heap_is s H (coalesce xs (16 + 4 * length d) ys) h')"
    using assms(1) h1 by (auto simp: rt_smem_realloc_def z Let_def heap_is_def)
  moreover have "ok (rt_smem_alloc s msize h) (\<lambda>(r, h'). \<exists>bs'. heap_is s H bs' h' \<and>
      allocated H 16 (xs @ Used d # ys) r bs' \<and> (\<forall>t. t \<noteq> s \<longrightarrow> pools h' t = pools h t))"
    by (rule smem_alloc_ok[OF assms(1) nz]) (simp_all add: z)
  ultimately show ?thesis by blast
qed

theorem smem_huge_sizes_wrap_witness:
  "ok (rt_smem_alloc 0x1000 0xfffffffc example_used) (\<lambda>(r, h'). \<exists>bs'. heap_is 0x1000 4152 bs' h' \<and>
      allocated 4152 16 ([] @ Used [0, 0, 0, 0] # [Free 920]) r bs' \<and>
      (\<forall>t. t \<noteq> 0x1000 \<longrightarrow> pools h' t = pools example_used t)) \<and>
    ok (rt_smem_realloc 0x1000 (adr 4152 (tot [] + 16)) 0xfffffffc example_used) (\<lambda>(r, h'). r = 0 \<and>
      heap_is 0x1000 4152 (coalesce [] (16 + 4 * length [0, 0, 0, 0 :: u32]) [Free 920]) h')"
  by (rule smem_huge_sizes_wrap[OF example_used_is]) simp

end
