(* ===== verification/ByteMem.thy ===== *)
theory ByteMem
  imports Prelude
begin

text \<open>
  The memory functions of \<open>src/kservice.c\<close> (\<open>rt_memset\<close>, \<open>rt_memcpy\<close>, \<open>rt_memmove\<close>, \<open>rt_memcmp\<close>) on a
  byte memory: a map from 32-bit addresses to bytes, where an access to an address that is not mapped is a
  fault, the value None. The copy and fill loops that work on words of four bytes, four at a time, are the code's;
  the theorems show that they do what the byte loops do. Words are little-endian, as on the processor.
\<close>

section \<open>Byte memory\<close>

type_synonym bmem = "u32 \<Rightarrow> u8 option"

definition st :: "bmem \<Rightarrow> u32 \<Rightarrow> u8 \<Rightarrow> bmem option" where
  "st m a v = (if m a = None then None else Some (m(a \<mapsto> v)))"

definition byte_of :: "u32 \<Rightarrow> nat \<Rightarrow> u8" where
  "byte_of w i = ucast (drop_bit (8 * i) w)"

definition word_of :: "u8 \<Rightarrow> u8 \<Rightarrow> u8 \<Rightarrow> u8 \<Rightarrow> u32" where
  "word_of b0 b1 b2 b3 =
     ucast b0 OR push_bit 8 (ucast b1) OR push_bit 16 (ucast b2) OR push_bit 24 (ucast b3)"

definition ld4 :: "bmem \<Rightarrow> u32 \<Rightarrow> u32 option" where
  "ld4 m a = do { b0 \<leftarrow> m a; b1 \<leftarrow> m (a + 1); b2 \<leftarrow> m (a + 2); b3 \<leftarrow> m (a + 3); Some (word_of b0 b1 b2 b3) }"

definition st4 :: "bmem \<Rightarrow> u32 \<Rightarrow> u32 \<Rightarrow> bmem option" where
  "st4 m a w = do { m \<leftarrow> st m a (byte_of w 0); m \<leftarrow> st m (a + 1) (byte_of w 1);
     m \<leftarrow> st m (a + 2) (byte_of w 2); st m (a + 3) (byte_of w 3) }"

section \<open>The functions of the kernel\<close>

subsection \<open>rt\_memset\<close>

function set_bytes :: "bmem \<Rightarrow> u32 \<Rightarrow> u8 \<Rightarrow> u32 \<Rightarrow> bmem option" where
  "set_bytes m a d count =
     (if count = 0 then Some m else do { m \<leftarrow> st m a d; set_bytes m (a + 1) d (count - 1) })"
  by pat_completeness auto
termination
  by (relation "measure (\<lambda>(m, a, d, n). unat n)") (auto simp: unat_minus_one unat_gt_0)

function set_words :: "bmem \<Rightarrow> u32 \<Rightarrow> u32 \<Rightarrow> u32 \<Rightarrow> (bmem \<times> u32 \<times> u32) option" where
  "set_words m a buffer count =
     (if 4 \<le> count then do { m \<leftarrow> st4 m a buffer; set_words m (a + 4) buffer (count - 4) }
      else Some (m, a, count))"
  by pat_completeness auto
termination
  by (relation "measure (\<lambda>(m, a, d, n). unat n)") (auto simp: word_le_nat_alt unat_sub)

function set_quads :: "bmem \<Rightarrow> u32 \<Rightarrow> u32 \<Rightarrow> u32 \<Rightarrow> (bmem \<times> u32 \<times> u32) option" where
  "set_quads m a buffer count =
     (if 16 \<le> count then do { m \<leftarrow> st4 m a buffer; m \<leftarrow> st4 m (a + 4) buffer; m \<leftarrow> st4 m (a + 8) buffer;
        m \<leftarrow> st4 m (a + 12) buffer; set_quads m (a + 16) buffer (count - 16) }
      else Some (m, a, count))"
  by pat_completeness auto
termination
  by (relation "measure (\<lambda>(m, a, d, n). unat n)") (auto simp: word_le_nat_alt unat_sub)

definition rt_memset :: "bmem \<Rightarrow> u32 \<Rightarrow> u32 \<Rightarrow> u32 \<Rightarrow> bmem option" where
  "rt_memset m s c count =
     (let d = ucast (c AND 0xff) :: u8
      in if \<not> count < 4 \<and> s AND 3 = 0
         then do { (m, a, count) \<leftarrow> set_quads m s (word_of d d d d) count;
                   (m, a, count) \<leftarrow> set_words m a (word_of d d d d) count;
                   set_bytes m a d count }
         else set_bytes m s d count)"

subsection \<open>rt\_memcpy and rt\_memmove\<close>

function copy_bytes :: "bmem \<Rightarrow> u32 \<Rightarrow> u32 \<Rightarrow> u32 \<Rightarrow> bmem option" where
  "copy_bytes m dst src len =
     (if len = 0 then Some m
      else do { b \<leftarrow> m src; m \<leftarrow> st m dst b; copy_bytes m (dst + 1) (src + 1) (len - 1) })"
  by pat_completeness auto
termination
  by (relation "measure (\<lambda>(m, a, d, n). unat n)") (auto simp: unat_minus_one unat_gt_0)

definition copy_word :: "bmem \<Rightarrow> u32 \<Rightarrow> u32 \<Rightarrow> bmem option" where
  "copy_word m dst src = do { w \<leftarrow> ld4 m src; st4 m dst w }"

function copy_longs :: "bmem \<Rightarrow> u32 \<Rightarrow> u32 \<Rightarrow> u32 \<Rightarrow> (bmem \<times> u32 \<times> u32 \<times> u32) option" where
  "copy_longs m dst src len =
     (if 4 \<le> len then do { m \<leftarrow> copy_word m dst src; copy_longs m (dst + 4) (src + 4) (len - 4) }
      else Some (m, dst, src, len))"
  by pat_completeness auto
termination
  by (relation "measure (\<lambda>(m, a, d, n). unat n)") (auto simp: word_le_nat_alt unat_sub)

function copy_quads :: "bmem \<Rightarrow> u32 \<Rightarrow> u32 \<Rightarrow> u32 \<Rightarrow> (bmem \<times> u32 \<times> u32 \<times> u32) option" where
  "copy_quads m dst src len =
     (if 16 \<le> len then do { m \<leftarrow> copy_word m dst src; m \<leftarrow> copy_word m (dst + 4) (src + 4);
        m \<leftarrow> copy_word m (dst + 8) (src + 8); m \<leftarrow> copy_word m (dst + 12) (src + 12);
        copy_quads m (dst + 16) (src + 16) (len - 16) }
      else Some (m, dst, src, len))"
  by pat_completeness auto
termination
  by (relation "measure (\<lambda>(m, a, d, n). unat n)") (auto simp: word_le_nat_alt unat_sub)

definition rt_memcpy :: "bmem \<Rightarrow> u32 \<Rightarrow> u32 \<Rightarrow> u32 \<Rightarrow> bmem option" where
  "rt_memcpy m dst src count =
     (if \<not> count < 16 \<and> (src AND 3) OR (dst AND 3) = 0
      then do { (m, dst, src, len) \<leftarrow> copy_quads m dst src count;
                (m, dst, src, len) \<leftarrow> copy_longs m dst src len;
                copy_bytes m dst src len }
      else copy_bytes m dst src count)"

function move_down :: "bmem \<Rightarrow> u32 \<Rightarrow> u32 \<Rightarrow> u32 \<Rightarrow> bmem option" where
  "move_down m tmp s n =
     (if n = 0 then Some m
      else do { b \<leftarrow> m (s - 1); m \<leftarrow> st m (tmp - 1) b; move_down m (tmp - 1) (s - 1) (n - 1) })"
  by pat_completeness auto
termination
  by (relation "measure (\<lambda>(m, a, d, n). unat n)") (auto simp: unat_minus_one unat_gt_0)

definition rt_memmove :: "bmem \<Rightarrow> u32 \<Rightarrow> u32 \<Rightarrow> u32 \<Rightarrow> bmem option" where
  "rt_memmove m dest s n =
     (if s < dest \<and> dest < s + n then move_down m (dest + n) (s + n) n else copy_bytes m dest s n)"

subsection \<open>rt\_memcmp\<close>

text \<open>The differences of two unsigned bytes fit into the \<open>int\<close> of the result.\<close>

function rt_memcmp :: "bmem \<Rightarrow> u32 \<Rightarrow> u32 \<Rightarrow> u32 \<Rightarrow> int option" where
  "rt_memcmp m cs ct count =
     (if count = 0 then Some 0
      else do { b \<leftarrow> m cs; c \<leftarrow> m ct;
                if uint b - uint c \<noteq> 0 then Some (uint b - uint c)
                else rt_memcmp m (cs + 1) (ct + 1) (count - 1) })"
  by pat_completeness auto
termination
  by (relation "measure (\<lambda>(m, a, d, n). unat n)") (auto simp: unat_minus_one unat_gt_0)

declare set_bytes.simps [simp del] set_words.simps [simp del] set_quads.simps [simp del]
  copy_bytes.simps [simp del] copy_longs.simps [simp del] copy_quads.simps [simp del]
  move_down.simps [simp del] rt_memcmp.simps [simp del]

section \<open>Runs of bytes\<close>

text \<open>The bytes \<open>xs\<close> stand at \<open>a\<close> and behind it; \<open>n\<close> addresses from \<open>a\<close> are mapped; the memory after
  writing \<open>xs\<close> at \<open>a\<close>.\<close>

definition bytes_at :: "bmem \<Rightarrow> u32 \<Rightarrow> u8 list \<Rightarrow> bool" where
  "bytes_at m a xs \<longleftrightarrow> (\<forall>i < length xs. m (a + of_nat i) = Some (xs ! i))"

definition mapped :: "bmem \<Rightarrow> u32 \<Rightarrow> nat \<Rightarrow> bool" where
  "mapped m a n \<longleftrightarrow> (\<forall>i < n. m (a + of_nat i) \<noteq> None)"

definition write_at :: "bmem \<Rightarrow> u32 \<Rightarrow> u8 list \<Rightarrow> bmem" where
  "write_at m a xs = (\<lambda>b. if unat (b - a) < length xs then Some (xs ! unat (b - a)) else m b)"

text \<open>A forward copy is right unless the target begins inside the source.\<close>

definition forward :: "u32 \<Rightarrow> u32 \<Rightarrow> nat \<Rightarrow> bool" where
  "forward dst src n \<longleftrightarrow> dst = src \<or> n \<le> unat (dst - src)"

lemma bytes_at_Nil [simp]: "bytes_at m a []"
  by (simp add: bytes_at_def)

lemma bytes_at_Cons [simp]: "bytes_at m a (x # xs) \<longleftrightarrow> m a = Some x \<and> bytes_at m (a + 1) xs"
  by (auto simp: bytes_at_def less_Suc_eq_0_disj add.assoc)

lemma map_bytes_at: "bytes_at m a xs \<Longrightarrow> n \<le> length xs \<Longrightarrow> map (\<lambda>i. m (a + of_nat i)) [0..<n] = map Some (take n xs)"
  by (intro nth_equalityI) (auto simp: bytes_at_def)

lemma bytes_at_append: "bytes_at m a (xs @ ys) \<longleftrightarrow> bytes_at m a xs \<and> bytes_at m (a + of_nat (length xs)) ys"
  by (induction xs arbitrary: a) (auto simp: algebra_simps)

lemma mapped_0 [simp]: "mapped m a 0"
  by (simp add: mapped_def)

lemma mapped_Suc: "mapped m a (Suc n) \<longleftrightarrow> m a \<noteq> None \<and> mapped m (a + 1) n"
  by (auto simp: mapped_def less_Suc_eq_0_disj add.assoc)

lemma mapped_add: "mapped m a (k + n) \<longleftrightarrow> mapped m a k \<and> mapped m (a + of_nat k) n"
  by (induction k arbitrary: a) (auto simp: mapped_Suc algebra_simps)

lemma mapped_mono: "mapped m a n \<Longrightarrow> k \<le> n \<Longrightarrow> mapped m a k"
  by (auto simp: mapped_def)

lemma bytes_at_mapped: "bytes_at m a xs \<Longrightarrow> mapped m a (length xs)"
  by (auto simp: bytes_at_def mapped_def)

lemma write_at_Nil [simp]: "write_at m a [] = m"
  by (simp add: write_at_def)

lemma unat_diff_Suc: "b \<noteq> a \<Longrightarrow> unat (b - a :: u32) = Suc (unat (b - (a + 1)))"
proof -
  assume "b \<noteq> a"
  then have "b - a \<noteq> 0" by simp
  then have "unat (b - a - 1) = unat (b - a) - 1" by (rule unat_minus_one)
  moreover from \<open>b - a \<noteq> 0\<close> have "0 < unat (b - a)" by (simp only: unat_gt_0 simp_thms)
  moreover have "b - (a + 1) = b - a - 1" by simp
  ultimately show ?thesis by (simp only: Suc_diff_1)
qed

lemma unat_max: "unat (- 1 :: u32) = 2 ^ 32 - 1"
  by (simp only: unsigned_minus_1_eq_mask mask_eq_exp_minus_1 word_size) simp

lemma write_at_Cons:
  assumes "length xs < 2 ^ 32"
  shows "write_at m a (x # xs) = write_at (m(a \<mapsto> x)) (a + 1) xs"
proof
  fix b
  show "write_at m a (x # xs) b = write_at (m(a \<mapsto> x)) (a + 1) xs b"
  proof (cases "b = a")
    case True
    then have "b - (a + 1) = - 1" by simp
    with True assms show ?thesis by (simp add: write_at_def unat_max)
  qed (simp add: write_at_def unat_diff_Suc)
qed

lemma write_at_append:
  "length xs + length ys \<le> 2 ^ 32 \<Longrightarrow>
   write_at m a (xs @ ys) = write_at (write_at m a xs) (a + of_nat (length xs)) ys"
  by (induction xs arbitrary: m a) (auto simp: write_at_Cons algebra_simps)

lemma mapped_write_at [simp]: "mapped m b n \<Longrightarrow> mapped (write_at m a xs) b n"
  by (auto simp: mapped_def write_at_def)

lemma bytes_at_write_at: "length xs \<le> 2 ^ 32 \<Longrightarrow> bytes_at (write_at m a xs) a xs"
  by (auto simp: bytes_at_def write_at_def unat_of_nat)

lemma write_at_idem: "bytes_at m a xs \<Longrightarrow> write_at m a xs = m"
proof
  fix b assume "bytes_at m a xs"
  then show "write_at m a xs b = m b"
    by (auto simp: write_at_def bytes_at_def dest!: spec[of _ "unat (b - a)"])
qed

section \<open>The word loops do what the byte loops do\<close>

lemma u8_no_bit: "8 \<le> n \<Longrightarrow> \<not> bit (b::u8) n"
  using bit_imp_le_length[of b n] by auto

lemma byte_of_word_of [simp]:
  "byte_of (word_of b0 b1 b2 b3) 0 = b0" "byte_of (word_of b0 b1 b2 b3) (Suc 0) = b1"
  "byte_of (word_of b0 b1 b2 b3) 2 = b2" "byte_of (word_of b0 b1 b2 b3) 3 = b3"
  by (auto intro!: bit_word_eqI simp: byte_of_def word_of_def bit_simps u8_no_bit)

lemma st_mapped: "st m a v = Some m' \<Longrightarrow> m' b = None \<longleftrightarrow> m b = None"
  by (auto simp: st_def split: if_splits)

lemma set_bytes_Suc:
  "n \<noteq> 0 \<Longrightarrow> set_bytes m a d n = st m a d \<bind> (\<lambda>m. set_bytes m (a + 1) d (n - 1))"
  by (subst set_bytes.simps) simp

lemma set_bytes_word:
  assumes "4 \<le> n"
  shows "st4 m a (word_of d d d d) \<bind> (\<lambda>m. set_bytes m (a + 4) d (n - 4)) = set_bytes m a d n"
proof -
  have "n \<noteq> 0" "n - 1 \<noteq> 0" "n - 2 \<noteq> 0" "n - 3 \<noteq> 0" using assms by (auto simp: word_le_nat_alt)
  then show ?thesis
    by (simp add: st4_def set_bytes_Suc[of n] set_bytes_Suc[of "n - 1"] set_bytes_Suc[of "n - 2"]
        set_bytes_Suc[of "n - 3"] add.assoc diff_diff_eq)
qed

lemma set_words_bytes:
  "set_words m a (word_of d d d d) n \<bind> (\<lambda>(m, a, n). set_bytes m a d n) = set_bytes m a d n"
proof (induction m a "word_of d d d d" n rule: set_words.induct)
  case (1 m a n)
  then show ?case
    by (subst set_words.simps) (cases "st4 m a (word_of d d d d)", auto simp: set_bytes_word[symmetric])
qed

lemma set_quads_bytes:
  "set_quads m a (word_of d d d d) n \<bind> (\<lambda>(m, a, n). set_bytes m a d n) = set_bytes m a d n"
proof (induction m a "word_of d d d d" n rule: set_quads.induct)
  case (1 m a n)
  let ?w = "word_of d d d d"
  note IH = 1
  show ?case
  proof (cases "16 \<le> n")
    case True
    then have "4 \<le> n" "4 \<le> n - 4" "4 \<le> n - 8" "4 \<le> n - 12"
      by (simp_all add: word_le_nat_alt unat_sub)
    then have "set_bytes m a d n =
        st4 m a ?w \<bind> (\<lambda>m. st4 m (a + 4) ?w \<bind> (\<lambda>m. st4 m (a + 8) ?w \<bind>
          (\<lambda>m. st4 m (a + 12) ?w \<bind> (\<lambda>m. set_bytes m (a + 16) d (n - 16)))))"
      by (simp add: set_bytes_word[of n, symmetric] set_bytes_word[of "n - 4", symmetric]
          set_bytes_word[of "n - 8", symmetric] set_bytes_word[of "n - 12", symmetric] diff_diff_eq add.assoc)
    with True IH show ?thesis
      by (subst set_quads.simps) (auto simp: bind_eq_Some_conv intro!: bind_option_cong)
  qed (subst set_quads.simps, simp)
qed

text \<open>\<open>rt_memset\<close> is the byte loop, also where the memory is not mapped.\<close>

lemma rt_memset_bytes: "rt_memset m s c n = set_bytes m s (ucast (c AND 0xff)) n"
proof -
  have "set_quads m s (word_of d d d d) n \<bind> (\<lambda>(m, a, n). set_words m a (word_of d d d d) n \<bind>
      (\<lambda>(m, a, n). set_bytes m a d n)) = set_bytes m s d n" for d
    by (simp only: set_words_bytes set_quads_bytes)
  then show ?thesis unfolding rt_memset_def Let_def by simp
qed

lemma copy_bytes_Suc:
  "n \<noteq> 0 \<Longrightarrow> copy_bytes m d s n =
   m s \<bind> (\<lambda>b. st m d b \<bind> (\<lambda>m. copy_bytes m (d + 1) (s + 1) (n - 1)))"
  by (subst copy_bytes.simps) simp

lemma st_other: "st m a v = Some m' \<Longrightarrow> a \<noteq> b \<Longrightarrow> m' b = m b"
  by (auto simp: st_def split: if_splits)

lemma st_same: "st m a v = Some m' \<Longrightarrow> m' a = Some v"
  by (auto simp: st_def split: if_splits)

text \<open>Four bytes copied one after the other are a word, unless one lands on a byte still to be read.\<close>

lemma copy_word_bytes:
  assumes "4 \<le> n" "d = s \<or> 4 \<le> unat (d - s)"
  shows "copy_word m d s \<bind> (\<lambda>m. copy_bytes m (d + 4) (s + 4) (n - 4)) = copy_bytes m d s n"
proof -
  have n: "n \<noteq> 0" "n - 1 \<noteq> 0" "n - 2 \<noteq> 0" "n - 3 \<noteq> 0" using assms(1) by (auto simp: word_le_nat_alt)
  note unfold = copy_bytes_Suc[OF n(1)] copy_bytes_Suc[OF n(2)] copy_bytes_Suc[OF n(3)] copy_bytes_Suc[OF n(4)]
    copy_word_def ld4_def st4_def st_def
  have apart: "d \<noteq> s \<Longrightarrow> k < 4 \<Longrightarrow> d \<noteq> s + of_nat k" for k
    using assms(2) by (auto simp: unat_of_nat)
  consider "d = s" | "d \<noteq> s" "d \<noteq> s + 1" "d \<noteq> s + 2" "d \<noteq> s + 3"
    using apart[of 1] apart[of 2] apart[of 3] by auto
  then show ?thesis
  proof cases
    case 1
    then show ?thesis
      by (cases "m s"; cases "m (s + 1)"; cases "m (s + 2)"; cases "m (s + 3)")
        (simp_all add: unfold diff_diff_eq add.assoc fun_upd_idem)
  next
    case 2
    then have "s + 1 \<noteq> d" "s + 2 \<noteq> d" "s + 2 \<noteq> d + 1" "s + 3 \<noteq> d" "s + 3 \<noteq> d + 1" "s + 3 \<noteq> d + 2"
      by (auto simp: algebra_simps)
    then show ?thesis
      by (cases "m s"; cases "m (s + 1)"; cases "m (s + 2)"; cases "m (s + 3)")
        (auto simp: unfold diff_diff_eq add.assoc)
  qed
qed

lemma aligned_apart:
  assumes "(s AND 3) OR (d AND 3) = (0::u32)"
  shows "d = s \<or> 4 \<le> unat (d - s)"
proof -
  have three: "(3::u32) = mask 2" by (simp add: mask_eq_exp_minus_1)
  from assms have "take_bit 2 s = 0" "take_bit 2 d = 0"
    unfolding three take_bit_eq_mask by (auto simp: bit_eq_iff bit_or_iff)
  then have "uint (take_bit 2 s) = 0" "uint (take_bit 2 d) = 0" by (simp_all only: unsigned_0)
  then have z: "uint s mod 4 = 0" "uint d mod 4 = 0"
    unfolding unsigned_take_bit_eq by (simp_all add: take_bit_eq_mod)
  have "(4::int) dvd 2 ^ LENGTH(32)" by simp
  then have "uint (d - s) mod 4 = (uint d - uint s) mod 4"
    by (simp only: uint_word_ariths mod_mod_cancel)
  also have "\<dots> = (uint d mod 4 - uint s mod 4) mod 4" by (simp only: mod_diff_eq)
  also have "\<dots> = 0" by (simp only: z) simp
  finally have "int (unat (d - s)) mod int 4 = int 0" by (simp only: uint_nat[symmetric]) simp
  then have "unat (d - s) mod 4 = 0" by (simp only: zmod_int[symmetric] of_nat_eq_iff)
  moreover have "u mod 4 = 0 \<Longrightarrow> u \<noteq> 0 \<Longrightarrow> 4 \<le> u" for u :: nat by presburger
  ultimately show ?thesis by (metis right_minus_eq unat_eq_0)
qed

lemma aligned_step: "(d + k) - (s + k) = d - (s :: u32)"
  by simp

lemma copy_longs_bytes:
  assumes "d = s \<or> 4 \<le> unat (d - s)"
  shows "copy_longs m d s n \<bind> (\<lambda>(m, d, s, n). copy_bytes m d s n) = copy_bytes m d s n"
  using assms
proof (induction m d s n rule: copy_longs.induct)
  case (1 m d s n)
  then show ?case
    by (subst copy_longs.simps)
      (cases "copy_word m d s", auto simp: copy_word_bytes[symmetric])
qed

lemma copy_quads_bytes:
  assumes "d = s \<or> 4 \<le> unat (d - s)"
  shows "copy_quads m d s n \<bind> (\<lambda>(m, d, s, n). copy_bytes m d s n) = copy_bytes m d s n"
  using assms
proof (induction m d s n rule: copy_quads.induct)
  case (1 m d s n)
  note IH = 1
  show ?case
  proof (cases "16 \<le> n")
    case True
    have *: "d + k = s + k \<or> 4 \<le> unat ((d + k) - (s + k))" for k
      using IH(2) by (simp only: aligned_step add_right_cancel)
    from True have "4 \<le> n" "4 \<le> n - 4" "4 \<le> n - 8" "4 \<le> n - 12"
      by (simp_all add: word_le_nat_alt unat_sub)
    then have "copy_bytes m d s n =
        copy_word m d s \<bind> (\<lambda>m. copy_word m (d + 4) (s + 4) \<bind> (\<lambda>m. copy_word m (d + 8) (s + 8) \<bind>
          (\<lambda>m. copy_word m (d + 12) (s + 12) \<bind> (\<lambda>m. copy_bytes m (d + 16) (s + 16) (n - 16)))))"
      using copy_word_bytes[of n d s, symmetric] copy_word_bytes[of "n - 4" "d + 4" "s + 4", symmetric]
        copy_word_bytes[of "n - 8" "d + 8" "s + 8", symmetric]
        copy_word_bytes[of "n - 12" "d + 12" "s + 12", symmetric] IH(2) *
      by (simp add: diff_diff_eq add.assoc)
    with True IH * show ?thesis
      by (subst copy_quads.simps) (auto simp: bind_eq_Some_conv intro!: bind_option_cong)
  qed (subst copy_quads.simps, simp)
qed

lemma copy_quads_offset:
  "copy_quads m d s n = Some (m', d', s', n') \<Longrightarrow> d' - s' = d - s"
proof (induction m d s n rule: copy_quads.induct)
  case (1 m d s n)
  then show ?case
    by (subst (asm) copy_quads.simps) (auto simp: bind_eq_Some_conv split: if_splits)
qed

text \<open>\<open>rt_memcpy\<close> is the byte loop as well, for overlapping areas too.\<close>

lemma rt_memcpy_copy_bytes: "rt_memcpy m d s n = copy_bytes m d s n"
proof (cases "(s AND 3) OR (d AND 3) = 0")
  case True
  note * = aligned_apart[OF True]
  have "copy_quads m d s n \<bind> (\<lambda>(m, d, s, n). copy_longs m d s n \<bind> (\<lambda>(m, d, s, n). copy_bytes m d s n))
    = copy_quads m d s n \<bind> (\<lambda>(m, d, s, n). copy_bytes m d s n)"
  proof (rule Option.bind_cong[OF refl])
    fix r assume "copy_quads m d s n = Some r"
    then obtain m' d' s' n' where r: "r = (m', d', s', n')" "d' - s' = d - s"
      using copy_quads_offset by (cases r) blast
    from r(2) * have "d' = s' \<or> 4 \<le> unat (d' - s')" by auto
    from copy_longs_bytes[OF this] show "(case r of (m, d, s, n) \<Rightarrow> copy_longs m d s n \<bind>
        (\<lambda>(m, d, s, n). copy_bytes m d s n)) = (case r of (m, d, s, n) \<Rightarrow> copy_bytes m d s n)"
      by (simp add: r(1))
  qed
  with copy_quads_bytes[OF *] show ?thesis by (simp add: rt_memcpy_def)
qed (simp add: rt_memcpy_def)

section \<open>What the functions do\<close>

lemma st_Some [simp]: "m a \<noteq> None \<Longrightarrow> st m a v = Some (m(a \<mapsto> v))"
  by (simp add: st_def)

lemma unat_SucD:
  assumes "unat n = Suc k" shows "n \<noteq> 0" "unat (n - 1 :: u32) = k"
proof -
  show "n \<noteq> 0" using assms by auto
  then have "unat (n - 1) = unat n - 1" by (rule unat_minus_one)
  with assms show "unat (n - 1) = k" by (simp only: diff_Suc_1)
qed

lemma unat_less_2p32 [simp]: "unat (n :: u32) < 2 ^ 32"
  using unsigned_less[of n, where 'a = nat] by simp

lemma unat_plus_of_nat:
  assumes "unat a + k < 2 ^ 32" shows "unat (a + of_nat k :: u32) = unat a + k"
proof -
  have "k < 2 ^ LENGTH(32)" using assms by simp
  then have k: "unat (of_nat k :: u32) = k" by (simp only: unat_of_nat mod_less)
  with assms have "unat a + unat (of_nat k :: u32) < 2 ^ LENGTH(32)" by simp
  then have "unat (a + of_nat k) = unat a + unat (of_nat k :: u32)" by (simp only: unat_add_lem)
  with k show ?thesis by (simp only:)
qed

lemma mapped_upd [simp]: "mapped m a n \<Longrightarrow> mapped (m(b \<mapsto> x)) a n"
  by (auto simp: mapped_def)

lemma set_bytes_write:
  "mapped m a k \<Longrightarrow> unat n = k \<Longrightarrow> set_bytes m a d n = Some (write_at m a (replicate k d))"
proof (induction k arbitrary: m a n)
  case 0
  then show ?case by (subst set_bytes.simps) (simp add: unat_eq_0)
next
  case (Suc k)
  note n = unat_SucD[OF Suc.prems(2)]
  have "k < 2 ^ 32" using Suc.prems(2) unat_less_2p32[of n] by simp
  moreover have "m a \<noteq> None" "mapped (m(a \<mapsto> d)) (a + 1) k" using Suc.prems(1) by (auto simp: mapped_Suc)
  ultimately show ?case
    using Suc.IH[of "m(a \<mapsto> d)" "a + 1" "n - 1"] n
    by (simp add: set_bytes_Suc write_at_Cons del: fun_upd_apply)
qed

lemma not_in_run:
  "i < k \<Longrightarrow> k \<le> unat (d - s :: u32) \<Longrightarrow> s + of_nat i \<noteq> d"
proof
  assume a: "i < k" "k \<le> unat (d - s)" "s + of_nat i = d"
  then have "d - s = of_nat i" by auto
  then have "unat (d - s) \<le> i" by (metis unat_of_nat mod_less_eq_dividend)
  with a show False by simp
qed

lemma no_wrap_run: "Suc i < 2 ^ 32 \<Longrightarrow> s + 1 + of_nat i \<noteq> (s :: u32)"
proof
  assume i: "Suc i < 2 ^ 32" "s + 1 + of_nat i = s"
  then have "(of_nat (Suc i) :: u32) = 0" by (simp add: add.assoc)
  then have "unat (of_nat (Suc i) :: u32) = 0" by (simp only: unsigned_0)
  with i(1) show False by (simp only: unat_of_nat) simp
qed

lemma copy_bytes_write:
  "bytes_at m s xs \<Longrightarrow> mapped m d (length xs) \<Longrightarrow> unat n = length xs \<Longrightarrow> forward d s (length xs) \<Longrightarrow>
   copy_bytes m d s n = Some (write_at m d xs)"
proof (induction xs arbitrary: m d s n)
  case Nil
  then show ?case by (subst copy_bytes.simps) (simp add: unat_eq_0)
next
  case (Cons x xs)
  from Cons.prems(3) have "unat n = Suc (length xs)" by simp
  note n = unat_SucD[OF this]
  have len: "length xs < 2 ^ 32" "Suc (length xs) < 2 ^ 32" using Cons.prems(3) unat_less_2p32[of n] by simp_all
  have "s + 1 + of_nat i \<noteq> d" if "i < length xs" for i
  proof (cases "d = s")
    case True
    with no_wrap_run[of i s] that len show ?thesis by auto
  next
    case False
    with Cons.prems(4) have "Suc (length xs) \<le> unat (d - s)" by (simp add: forward_def)
    from not_in_run[OF _ this, of "Suc i"] that show ?thesis by (simp add: add.assoc)
  qed
  moreover have "bytes_at m (s + 1) xs" using Cons.prems(1) by simp
  ultimately have "bytes_at (m(d \<mapsto> x)) (s + 1) xs" by (auto simp: bytes_at_def)
  moreover have "forward (d + 1) (s + 1) (length xs)" using Cons.prems(4) by (auto simp: forward_def)
  moreover have "mapped (m(d \<mapsto> x)) (d + 1) (length xs)" "m d \<noteq> None"
    using Cons.prems(2) by (auto simp: mapped_Suc)
  ultimately show ?case
    using n len Cons.prems(1) Cons.IH[of "m(d \<mapsto> x)" "s + 1" "d + 1" "n - 1"]
    by (simp add: copy_bytes_Suc write_at_Cons del: fun_upd_apply)
qed

lemma write_at_snoc:
  assumes "length xs < 2 ^ 32"
  shows "write_at m a (xs @ [x]) = write_at (m(a + of_nat (length xs) \<mapsto> x)) a xs"
  using assms
proof (induction xs arbitrary: m a)
  case Nil
  then show ?case by (simp add: write_at_Cons)
next
  case (Cons y xs)
  have "a + 1 + of_nat (length xs) \<noteq> a" using Cons.prems by (intro no_wrap_run) simp
  then have swap: "m(a + 1 + of_nat (length xs) \<mapsto> x, a \<mapsto> y) = m(a \<mapsto> y, a + 1 + of_nat (length xs) \<mapsto> x)"
    by (rule fun_upd_twist)
  have len: "length xs < 2 ^ 32" "length (xs @ [x]) < 2 ^ 32" using Cons.prems by simp_all
  have "write_at m a ((y # xs) @ [x]) = write_at (m(a \<mapsto> y)) (a + 1) (xs @ [x])"
    by (simp only: append_Cons write_at_Cons[OF len(2)])
  also have "\<dots> = write_at (m(a \<mapsto> y, a + 1 + of_nat (length xs) \<mapsto> x)) (a + 1) xs"
    by (rule Cons.IH[OF len(1)])
  also have "\<dots> = write_at (m(a + 1 + of_nat (length xs) \<mapsto> x)) a (y # xs)"
    by (simp only: write_at_Cons[OF len(1)] swap)
  finally show ?case by (simp add: add.assoc del: fun_upd_apply)
qed

lemma move_down_write:
  "bytes_at m s xs \<Longrightarrow> mapped m d (length xs) \<Longrightarrow> unat n = length xs \<Longrightarrow> forward s d (length xs) \<Longrightarrow>
   move_down m (d + n) (s + n) n = Some (write_at m d xs)"
proof (induction xs arbitrary: m n rule: rev_induct)
  case Nil
  then show ?case by (subst move_down.simps) (simp add: unat_eq_0)
next
  case (snoc x xs)
  define k :: u32 where "k = of_nat (length xs)"
  from snoc.prems(3) have "unat n = Suc (length xs)" by simp
  note n = unat_SucD[OF this]
  have k: "n - 1 = k" "unat k = length xs" using n(2) by (simp_all add: k_def flip: n(2))
  then have k1: "n = k + 1" by (simp add: algebra_simps)
  have len: "Suc (length xs) < 2 ^ 32" using snoc.prems(3) unat_less_2p32[of n] by simp
  have "s + of_nat i \<noteq> d + k" if "i < length xs" for i
  proof
    assume "s + of_nat i = d + k"
    then have e: "s - d = k - of_nat i" by (simp add: algebra_simps)
    have "(of_nat i :: u32) \<le> k" "unat (of_nat i :: u32) = i"
      using that len by (simp_all add: k_def word_le_nat_alt unat_of_nat)
    with e k have u: "unat (s - d) = length xs - i" by (simp add: unat_sub)
    with snoc.prems(4) that show False by (auto simp: forward_def)
  qed
  moreover have "bytes_at m s xs" using snoc.prems(1) by (simp add: bytes_at_append)
  ultimately have "bytes_at (m(d + k \<mapsto> x)) s xs" by (auto simp: bytes_at_def)
  moreover have "forward s d (length xs)" using snoc.prems(4) by (auto simp: forward_def)
  moreover have "mapped (m(d + k \<mapsto> x)) d (length xs)" "m (d + k) \<noteq> None"
    using snoc.prems(2) mapped_add[of m d "length xs" 1] by (auto simp: mapped_Suc k_def)
  moreover have "m (s + k) = Some x" using snoc.prems(1) by (simp add: bytes_at_append k_def)
  ultimately show ?case
    using snoc.IH[of "m(d + k \<mapsto> x)" k] n len
    by (subst move_down.simps) (simp add: k1 write_at_snoc k_def del: fun_upd_apply)
qed

lemma rt_memset_write:
  "mapped m s (unat n) \<Longrightarrow> rt_memset m s c n = Some (write_at m s (replicate (unat n) (ucast (c AND 0xff))))"
  by (simp add: rt_memset_bytes set_bytes_write)

lemma rt_memcpy_write:
  "bytes_at m s xs \<Longrightarrow> mapped m d (length xs) \<Longrightarrow> unat n = length xs \<Longrightarrow> forward d s (length xs) \<Longrightarrow>
   rt_memcpy m d s n = Some (write_at m d xs)"
  by (simp add: rt_memcpy_copy_bytes copy_bytes_write)

text \<open>Inside the address space the direction of \<open>rt_memmove\<close> is always the right one.\<close>

lemma direction:
  assumes "unat s + unat n < 2 ^ 32" "unat d + unat n < 2 ^ 32"
  shows "s < d \<and> d < s + n \<Longrightarrow> forward s d (unat n)"
    and "\<not> (s < d \<and> d < s + n) \<Longrightarrow> forward d s (unat n)"
proof -
  have sn: "unat (s + n) = unat s + unat n" using assms(1) by (subst unat_add_lem[THEN iffD1]) simp_all
  have up: "unat (x - y) = unat x - unat y" if "y \<le> x" for x y :: u32 using that by (simp add: unat_sub)
  have down: "unat (x - y) = 2 ^ 32 - (unat y - unat x)" if "x < y" for x y :: u32
    using that by (simp add: unat_sub_if_size word_less_nat_alt word_size)
  show "forward s d (unat n)" if "s < d \<and> d < s + n"
  proof -
    from that have "unat (s - d) = 2 ^ 32 - (unat d - unat s)" by (simp only: down)
    moreover have "unat d + unat n - unat s \<le> 2 ^ 32" using assms(2) by simp
    ultimately have "unat n \<le> unat (s - d)" using that by (simp add: word_less_nat_alt)
    then show ?thesis by (simp only: forward_def simp_thms)
  qed
  show "forward d s (unat n)" if "\<not> (s < d \<and> d < s + n)"
  proof (cases d s rule: linorder_cases)
    case less
    then have "unat (d - s) = 2 ^ 32 - (unat s - unat d)" by (simp only: down)
    moreover have "unat s + unat n - unat d \<le> 2 ^ 32" using assms(1) by simp
    ultimately have "unat n \<le> unat (d - s)" using less by (simp add: word_less_nat_alt)
    then show ?thesis by (simp only: forward_def simp_thms)
  next
    case greater
    with that have "s + n \<le> d" by auto
    moreover have "unat (d - s) = unat d - unat s" using greater by (simp only: up less_imp_le)
    ultimately have "unat n \<le> unat (d - s)" using sn by (simp add: word_le_nat_alt)
    then show ?thesis by (simp only: forward_def simp_thms)
  qed (simp add: forward_def)
qed

lemma rt_memmove_write:
  assumes "bytes_at m s xs" "mapped m d (length xs)" "unat n = length xs"
    "unat s + unat n < 2 ^ 32" "unat d + unat n < 2 ^ 32"
  shows "rt_memmove m d s n = Some (write_at m d xs)"
  using assms direction[OF assms(4,5)] by (auto simp: rt_memmove_def move_down_write copy_bytes_write)

text \<open>The difference of the first two bytes that differ.\<close>

fun cmp_bytes :: "u8 list \<Rightarrow> u8 list \<Rightarrow> int" where
  "cmp_bytes (x # xs) (y # ys) = (if x = y then cmp_bytes xs ys else uint x - uint y)"
| "cmp_bytes _ _ = 0"

lemma uint_inject [simp]: "uint x = uint y \<longleftrightarrow> (x::u8) = y"
  by (rule word_uint_eq_iff[symmetric])

lemma cmp_bytes_0: "length xs = length ys \<Longrightarrow> cmp_bytes xs ys = 0 \<longleftrightarrow> xs = ys"
  by (induction xs ys rule: cmp_bytes.induct) auto

lemma cmp_bytes_less: "length xs = length ys \<Longrightarrow> cmp_bytes xs ys < 0 \<longleftrightarrow> ord_class.lexordp xs ys"
  by (induction xs ys rule: cmp_bytes.induct) (auto simp: word_less_def not_less le_less)

lemma cmp_bytes_swap: "length xs = length ys \<Longrightarrow> cmp_bytes ys xs = - cmp_bytes xs ys"
  by (induction xs ys rule: cmp_bytes.induct) auto

lemma rt_memcmp_bytes:
  "bytes_at m a xs \<Longrightarrow> bytes_at m b ys \<Longrightarrow> length ys = length xs \<Longrightarrow> unat n = length xs \<Longrightarrow>
   rt_memcmp m a b n = Some (cmp_bytes xs ys)"
proof (induction xs ys arbitrary: a b n rule: cmp_bytes.induct)
  case (1 x xs y ys)
  then have "unat n = Suc (length xs)" by simp
  note n = unat_SucD[OF this]
  show ?case using 1 n by (subst rt_memcmp.simps) auto
qed (subst rt_memcmp.simps, simp add: unat_eq_0)+

section \<open>Properties\<close>

text \<open>C20: the loops of \<open>rt_memset\<close> and \<open>rt_memcpy\<close> that work on words, four at a time, are equivalent to the
  byte by byte loops: for every memory, all addresses, aligned or not, all lengths, and also where the areas
  overlap or are not mapped, they give the same memory or both fault.\<close>
theorem word_loops_are_byte_loops:
  "rt_memset m s c n = set_bytes m s (ucast (c AND 0xff)) n \<and> rt_memcpy m d s n = copy_bytes m d s n"
  by (simp add: rt_memset_bytes rt_memcpy_copy_bytes)

text \<open>C19: \<open>rt_memmove\<close> moves the bytes \<open>xs\<close> from \<open>s\<close> to \<open>d\<close> for every overlap of the two areas, and changes
  and touches nothing else: it needs only the two areas to be mapped and to lie inside the address space.
  \<open>rt_memcpy\<close> does the same unless the target begins inside the source, \<open>rt_memset\<close> fills an area, and
  \<open>rt_memcmp\<close> compares two areas as sequences of unsigned bytes.\<close>
theorem memory_functions_correct:
  assumes "bytes_at m s xs" "mapped m d (length xs)" "unat n = length xs"
    and "unat s + length xs < 2 ^ 32" "unat d + length xs < 2 ^ 32"
  shows "rt_memmove m d s n = Some (write_at m d xs) \<and>
    (\<not> (s < d \<and> d < s + n) \<longrightarrow> rt_memcpy m d s n = Some (write_at m d xs)) \<and>
    rt_memset m d c n = Some (write_at m d (replicate (length xs) (ucast (c AND 0xff)))) \<and>
    bytes_at (write_at m d xs) d xs \<and>
    (\<forall>ys. bytes_at m d ys \<and> length ys = length xs \<longrightarrow>
      (\<exists>r. rt_memcmp m d s n = Some r \<and> (r = 0 \<longleftrightarrow> ys = xs) \<and> (r < 0 \<longleftrightarrow> ord_class.lexordp ys xs)))"
proof -
  have "rt_memmove m d s n = Some (write_at m d xs)" using assms by (intro rt_memmove_write) simp_all
  moreover have "\<not> (s < d \<and> d < s + n) \<longrightarrow> rt_memcpy m d s n = Some (write_at m d xs)"
    using assms direction(2)[of s n d] by (auto intro: rt_memcpy_write)
  moreover have "rt_memset m d c n = Some (write_at m d (replicate (length xs) (ucast (c AND 0xff))))"
    using assms rt_memset_write[of m d n c] by simp
  moreover have "bytes_at (write_at m d xs) d xs" using assms by (intro bytes_at_write_at) simp
  ultimately show ?thesis
    using assms rt_memcmp_bytes[of m d _ s xs n] cmp_bytes_0 cmp_bytes_less by auto
qed

theorem memory_functions_correct_witness:
  "rt_memmove [5 \<mapsto> 7, 6 \<mapsto> 8, 7 \<mapsto> 9] 6 5 2 = Some (write_at [5 \<mapsto> 7, 6 \<mapsto> 8, 7 \<mapsto> 9] 6 [7, 8])"
  using memory_functions_correct[of "[5 \<mapsto> 7, 6 \<mapsto> 8, 7 \<mapsto> 9]" 5 "[7, 8]" 6 2]
  by (simp add: mapped_Suc)
end
