(* ===== verification/KString.thy ===== *)
theory KString
  imports ByteMem
begin

text \<open>
  The string functions of \<open>src/kservice.c\<close> on the byte memory of ByteMem. A C string is a run of nonzero
  bytes that a zero byte ends. The type \<open>char\<close> is unsigned on this processor. Loops that only a zero byte ends
  are partial functions: without one they run for ever or fault, both the value None.
\<close>

section \<open>The functions of the kernel\<close>

partial_function (option) strlen_loop :: "bmem \<Rightarrow> u32 \<Rightarrow> u32 option" where
  "strlen_loop m sc = do { c \<leftarrow> m sc; if c \<noteq> 0 then strlen_loop m (sc + 1) else Some sc }"

definition rt_strlen :: "bmem \<Rightarrow> u32 \<Rightarrow> u32 option" where
  "rt_strlen m s = do { sc \<leftarrow> strlen_loop m s; Some (sc - s) }"

function strnlen_loop :: "bmem \<Rightarrow> u32 \<Rightarrow> u32 \<Rightarrow> u32 \<Rightarrow> u32 option" where
  "strnlen_loop m s sc maxlen =
     do { c \<leftarrow> m sc; if c \<noteq> 0 \<and> sc - s < maxlen then strnlen_loop m s (sc + 1) maxlen else Some sc }"
  by pat_completeness auto

definition rt_strnlen :: "bmem \<Rightarrow> u32 \<Rightarrow> u32 \<Rightarrow> u32 option" where
  "rt_strnlen m s maxlen = do { sc \<leftarrow> strnlen_loop m s s maxlen; Some (sc - s) }"

text \<open>The padding loop \<open>while (--n != 0) *d++ = 0\<close> and the copying loop of \<open>rt_strncpy\<close>.\<close>

function strncpy_pad :: "bmem \<Rightarrow> u32 \<Rightarrow> u32 \<Rightarrow> bmem option" where
  "strncpy_pad m d n =
     (let n = n - 1 in if n \<noteq> 0 then do { m \<leftarrow> st m d 0; strncpy_pad m (d + 1) n } else Some m)"
  by pat_completeness auto

function strncpy_loop :: "bmem \<Rightarrow> u32 \<Rightarrow> u32 \<Rightarrow> u32 \<Rightarrow> bmem option" where
  "strncpy_loop m d s n =
     do { c \<leftarrow> m s; m \<leftarrow> st m d c;
          if c = 0 then strncpy_pad m (d + 1) n
          else (let n = n - 1 in if n \<noteq> 0 then strncpy_loop m (d + 1) (s + 1) n else Some m) }"
  by pat_completeness auto

definition rt_strncpy :: "bmem \<Rightarrow> u32 \<Rightarrow> u32 \<Rightarrow> u32 \<Rightarrow> bmem option" where
  "rt_strncpy m dst src n = (if n \<noteq> 0 then strncpy_loop m dst src n else Some m)"

partial_function (option) rt_strcpy :: "bmem \<Rightarrow> u32 \<Rightarrow> u32 \<Rightarrow> bmem option" where
  "rt_strcpy m dst src =
     do { c \<leftarrow> m src;
          if c \<noteq> 0 then do { m \<leftarrow> st m dst c; rt_strcpy m (dst + 1) (src + 1) } else st m dst 0 }"

partial_function (option) rt_strcmp :: "bmem \<Rightarrow> u32 \<Rightarrow> u32 \<Rightarrow> int option" where
  "rt_strcmp m cs ct =
     do { b \<leftarrow> m cs; c \<leftarrow> m ct;
          if b \<noteq> 0 \<and> b = c then rt_strcmp m (cs + 1) (ct + 1) else Some (uint b - uint c) }"

text \<open>\<open>rt_strncmp\<close> keeps the difference of the bytes in a \<open>signed char\<close>.\<close>

function rt_strncmp :: "bmem \<Rightarrow> u32 \<Rightarrow> u32 \<Rightarrow> u32 \<Rightarrow> int option" where
  "rt_strncmp m cs ct count =
     (if count = 0 then Some 0
      else do { b \<leftarrow> m cs; c \<leftarrow> m ct;
                let res = sint (b - c) in
                if res \<noteq> 0 \<or> b = 0 then Some res else rt_strncmp m (cs + 1) (ct + 1) (count - 1) })"
  by pat_completeness auto
termination
  by (relation "measure (\<lambda>(m, a, d, n). unat n)") (auto simp: unat_minus_one unat_gt_0)

definition lower :: "u8 \<Rightarrow> u8" where
  "lower c = (if 65 \<le> c \<and> c \<le> 90 then c + (97 - 65) else c)"

partial_function (option) rt_strcasecmp :: "bmem \<Rightarrow> u32 \<Rightarrow> u32 \<Rightarrow> int option" where
  "rt_strcasecmp m a b =
     do { ca \<leftarrow> m a; cb \<leftarrow> m b;
          if lower ca = lower cb \<and> lower ca \<noteq> 0 then rt_strcasecmp m (a + 1) (b + 1)
          else Some (uint (lower ca) - uint (lower cb)) }"

text \<open>The lengths are \<open>int\<close>s; the null pointer is 0.\<close>

function strstr_loop :: "bmem \<Rightarrow> u32 \<Rightarrow> u32 \<Rightarrow> int \<Rightarrow> int \<Rightarrow> u32 option" where
  "strstr_loop m s1 s2 l1 l2 =
     (if l2 \<le> l1
      then do { r \<leftarrow> rt_memcmp m s1 s2 (word_of_int l2);
                if r = 0 then Some s1 else strstr_loop m (s1 + 1) s2 (l1 - 1) l2 }
      else Some 0)"
  by pat_completeness auto
termination
  by (relation "measure (\<lambda>(m, s1, s2, l1, l2). nat (l1 - l2 + 1))") auto

definition rt_strstr :: "bmem \<Rightarrow> u32 \<Rightarrow> u32 \<Rightarrow> u32 option" where
  "rt_strstr m s1 s2 =
     do { l2 \<leftarrow> rt_strlen m s2;
          if sint l2 = 0 then Some s1
          else do { l1 \<leftarrow> rt_strlen m s1; strstr_loop m s1 s2 (sint l1) (sint l2) } }"

section \<open>Termination\<close>

text \<open>The bounded loops end for every length, 0 included: their counters run down to 1.\<close>

lemma unat_pred_less: "n \<noteq> 0 \<Longrightarrow> unat (n - 1) < unat (n :: u32)"
proof -
  assume n: "n \<noteq> 0"
  then have "unat (n - 1) = unat n - 1" by (rule unat_minus_one)
  with n show ?thesis by (simp add: unat_gt_0)
qed

termination strncpy_pad
  by (relation "measure (\<lambda>(m, d, n). unat (n - 1))")
    (simp only: wf_measure, simp only: in_measure split_conv, rule unat_pred_less)

termination strncpy_loop
  by (relation "measure (\<lambda>(m, d, s, n). unat (n - 1))")
    (simp only: wf_measure, simp only: in_measure split_conv, rule unat_pred_less)

lemma unat_rest_less:
  assumes "sc - s < (maxlen :: u32)"
  shows "unat maxlen - unat (sc + 1 - s) < unat maxlen - unat (sc - s)"
proof -
  have "unat (sc - s) < unat maxlen" using assms by (simp only: word_less_nat_alt)
  moreover have "unat (sc - s + 1) = unat (sc - s) + 1"
    using calculation unat_less_2p32[of maxlen] by (intro unat_add_lem[THEN iffD1, THEN trans]) simp_all
  moreover have "sc + 1 - s = sc - s + 1" by simp
  ultimately show ?thesis by (simp only:)
qed

termination strnlen_loop
  by (relation "measure (\<lambda>(m, s, sc, maxlen). unat maxlen - unat (sc - s))") 
    (simp only: wf_measure, simp only: in_measure split_conv, rule unat_rest_less, simp)

declare strncpy_pad.simps [simp del] strncpy_loop.simps [simp del] strnlen_loop.simps [simp del]
  rt_strncmp.simps [simp del] strstr_loop.simps [simp del]

section \<open>Strings\<close>

definition cstring :: "bmem \<Rightarrow> u32 \<Rightarrow> u8 list \<Rightarrow> bool" where
  "cstring m s xs \<longleftrightarrow> 0 \<notin> set xs \<and> bytes_at m s (xs @ [0])"

lemma cstring_Nil [simp]: "cstring m s [] \<longleftrightarrow> m s = Some 0"
  by (simp add: cstring_def)

lemma cstring_Cons [simp]: "cstring m s (x # xs) \<longleftrightarrow> x \<noteq> 0 \<and> m s = Some x \<and> cstring m (s + 1) xs"
  by (auto simp: cstring_def)

lemma cstring_short: "cstring m s xs \<Longrightarrow> length xs < 2 ^ 32"
proof (rule ccontr)
  assume c: "cstring m s xs" and "\<not> length xs < 2 ^ 32"
  then have le: "2 ^ 32 \<le> length xs" by simp
  define i where "i = length xs - 2 ^ 32"
  have "(of_nat (i + 2 ^ 32) :: u32) = of_nat i" by simp
  then have "s + of_nat (length xs) = s + of_nat i" using le by (simp only: i_def le_add_diff_inverse2)
  moreover have "m (s + of_nat (length xs)) = Some 0" using c by (simp add: cstring_def bytes_at_append)
  moreover have i: "i < length xs" using le by (simp only: i_def) simp
  moreover have "bytes_at m s xs" using c by (simp add: cstring_def bytes_at_append)
  then have "m (s + of_nat i) = Some (xs ! i)" using i by (simp add: bytes_at_def)
  ultimately have "xs ! i = 0" by simp
  with i c show False by (metis cstring_def nth_mem)
qed

lemma strlen_loop_end: "cstring m s xs \<Longrightarrow> strlen_loop m s = Some (s + of_nat (length xs))"
  by (induction xs arbitrary: s) (auto simp: strlen_loop.simps[of m] add.assoc)

lemma rt_strlen_length: "cstring m s xs \<Longrightarrow> rt_strlen m s = Some (of_nat (length xs))"
  by (simp add: rt_strlen_def strlen_loop_end)

text \<open>A second string at the same place is the same string.\<close>

lemma cstring_unique: "cstring m s xs \<Longrightarrow> cstring m s ys \<Longrightarrow> xs = ys"
proof (induction xs arbitrary: s ys)
  case Nil
  then show ?case by (cases ys) auto
next
  case (Cons x xs)
  then show ?case by (cases ys) auto
qed

lemma strnlen_loop_end:
  "bytes_at m sc (take (Suc k) (xs @ [0])) \<Longrightarrow> 0 \<notin> set xs \<Longrightarrow> unat maxlen = unat (sc - s) + k \<Longrightarrow>
   strnlen_loop m s sc maxlen = Some (sc + of_nat (min k (length xs)))"
proof (induction k arbitrary: sc xs)
  case 0
  then have "\<not> sc - s < maxlen" by (simp add: word_less_nat_alt)
  with 0 show ?case by (cases xs) (auto simp: strnlen_loop.simps[of m])
next
  case (Suc k)
  have lt: "sc - s < maxlen" using Suc.prems(3) by (simp add: word_less_nat_alt)
  have "unat (sc - s + 1) = unat (sc - s) + 1"
    using Suc.prems(3) unat_less_2p32[of maxlen] by (intro unat_add_lem[THEN iffD1, THEN trans]) simp_all
  moreover have "sc + 1 - s = sc - s + 1" by simp
  ultimately have "unat maxlen = unat (sc + 1 - s) + k" using Suc.prems(3) by (simp only:)
  with Suc lt show ?case by (cases xs) (auto simp: strnlen_loop.simps[of m s sc] add.assoc)
qed

lemma rt_strnlen_min:
  "bytes_at m s (take (Suc (unat n)) (xs @ [0])) \<Longrightarrow> 0 \<notin> set xs \<Longrightarrow>
   rt_strnlen m s n = Some (of_nat (min (unat n) (length xs)))"
  by (simp add: rt_strnlen_def strnlen_loop_end)

text \<open>It reads one byte more than it counts.\<close>

lemma strnlen_loop_faults:
  "bytes_at m sc xs \<Longrightarrow> 0 \<notin> set xs \<Longrightarrow> unat maxlen = unat (sc - s) + length xs \<Longrightarrow>
   m (sc + of_nat (length xs)) = None \<Longrightarrow> strnlen_loop m s sc maxlen = None"
proof (induction xs arbitrary: sc)
  case Nil
  then show ?case by (simp add: strnlen_loop.simps[of m])
next
  case (Cons x xs)
  have lt: "sc - s < maxlen" using Cons.prems(3) by (simp add: word_less_nat_alt)
  have "unat (sc - s + 1) = unat (sc - s) + 1"
    using Cons.prems(3) unat_less_2p32[of maxlen] by (intro unat_add_lem[THEN iffD1, THEN trans]) simp_all
  moreover have "sc + 1 - s = sc - s + 1" by simp
  ultimately have "unat maxlen = unat (sc + 1 - s) + length xs" using Cons.prems(3) by (simp only: list.size)
  with Cons lt show ?case by (auto simp: strnlen_loop.simps[of m s sc] add.assoc)
qed

lemma rt_strnlen_faults:
  assumes "bytes_at m s xs" "0 \<notin> set xs" "unat n = length xs" "m (s + n) = None"
  shows "rt_strnlen m s n = None"
proof -
  have "n = of_nat (length xs)" by (simp flip: assms(3))
  with assms strnlen_loop_faults[of m s xs n s] show ?thesis by (simp add: rt_strnlen_def)
qed

lemma strncpy_pad_write:
  "mapped m d k \<Longrightarrow> unat n = Suc k \<Longrightarrow> strncpy_pad m d n = Some (write_at m d (replicate k 0))"
proof (induction k arbitrary: m d n)
  case 0
  note n = unat_SucD[OF 0(2)]
  then show ?case by (subst strncpy_pad.simps) (simp add: unat_eq_0)
next
  case (Suc k)
  note n = unat_SucD[OF Suc.prems(2)]
  then have "n - 1 \<noteq> 0" by auto
  moreover have "k < 2 ^ 32" using Suc.prems(2) unat_less_2p32[of n] by simp
  moreover have "m d \<noteq> None" "mapped (m(d \<mapsto> 0)) (d + 1) k" using Suc.prems(1) by (auto simp: mapped_Suc)
  ultimately show ?case
    using Suc.IH[of "m(d \<mapsto> 0)" "d + 1" "n - 1"] n
    by (subst strncpy_pad.simps) (simp add: write_at_Cons del: fun_upd_apply)
qed

lemma forward_Suc:
  assumes "forward d s (Suc k)" "i < k" "Suc k < 2 ^ 32"
  shows "s + 1 + of_nat i \<noteq> d"
proof (cases "d = s")
  case True
  with no_wrap_run[of i s] assms show ?thesis by auto
next
  case False
  with assms(1) have "Suc k \<le> unat (d - s)" by (simp add: forward_def)
  from not_in_run[OF _ this, of "Suc i"] assms(2) show ?thesis by (simp add: add.assoc)
qed

lemma bytes_at_upd: "bytes_at m a xs \<Longrightarrow> (\<And>i. i < length xs \<Longrightarrow> a + of_nat i \<noteq> d) \<Longrightarrow> bytes_at (m(d \<mapsto> x)) a xs"
  by (auto simp: bytes_at_def)

lemma strncpy_loop_write:
  "bytes_at m s (take k (xs @ [0])) \<Longrightarrow> 0 \<notin> set xs \<Longrightarrow> mapped m d k \<Longrightarrow> unat n = k \<Longrightarrow> 0 < k \<Longrightarrow>
   forward d s k \<Longrightarrow> strncpy_loop m d s n = Some (write_at m d (take k (xs @ replicate k 0)))"
proof (induction k arbitrary: m d s n xs)
  case (Suc k)
  note n = unat_SucD[OF Suc.prems(4)]
  have len: "Suc k < 2 ^ 32" using Suc.prems(4) unat_less_2p32[of n] by simp
  have md: "m d \<noteq> None" "mapped m (d + 1) k" using Suc.prems(3) by (auto simp: mapped_Suc)
  show ?case
  proof (cases xs)
    case Nil
    have "strncpy_pad (m(d \<mapsto> 0)) (d + 1) n = Some (write_at (m(d \<mapsto> 0)) (d + 1) (replicate k 0))"
      using md n Suc.prems(4) by (intro strncpy_pad_write) simp_all
    with Nil Suc.prems md len show ?thesis
      by (subst strncpy_loop.simps) (simp add: write_at_Cons del: fun_upd_apply)
  next
    case (Cons x ys)
    have x: "m s = Some x" "x \<noteq> 0" and ys: "bytes_at m (s + 1) (take k (ys @ [0]))" using Suc.prems(1,2) Cons by auto
    have at: "bytes_at (m(d \<mapsto> x)) (s + 1) (take k (ys @ [0]))"
      using ys forward_Suc[OF Suc.prems(6) _ len] by (intro bytes_at_upd) auto
    have ext: "take k (ys @ replicate (Suc k) 0) = take k (ys @ replicate k 0)"
      by (simp add: replicate_append_same[symmetric])
    have rest: "strncpy_loop (m(d \<mapsto> x)) (d + 1) (s + 1) (n - 1) =
        Some (write_at (m(d \<mapsto> x)) (d + 1) (take k (ys @ replicate k 0)))" if "0 < k"
      using Suc.IH[OF at _ mapped_upd[OF md(2)] n(2) that] Suc.prems(2,6) Cons
      by (auto simp: forward_def simp del: fun_upd_apply)
    have "length (take k (ys @ replicate k 0)) < 2 ^ 32" using len by simp
    note w = write_at_Cons[OF this]
    show ?thesis
    proof (cases "k = 0")
      case True
      with n Cons x md show ?thesis by (subst strncpy_loop.simps) (simp add: unat_eq_0 write_at_Cons Let_def)
    next
      case False
      then have "n - 1 \<noteq> 0" using n by auto
      with False rest x md n show ?thesis
        by (subst strncpy_loop.simps) (simp only: Cons append_Cons take_Suc_Cons ext w, simp add: Let_def)
    qed
  qed
qed simp

lemma rt_strncpy_write:
  assumes "bytes_at m s (take (unat n) (xs @ [0]))" "0 \<notin> set xs" "mapped m d (unat n)" "forward d s (unat n)"
  shows "rt_strncpy m d s n = Some (write_at m d (take (unat n) (xs @ replicate (unat n) 0)))"
  using assms strncpy_loop_write[of m s "unat n" xs d n]
  by (cases "n = 0") (simp_all add: rt_strncpy_def unat_gt_0)

lemma rt_strcpy_write:
  "cstring m s xs \<Longrightarrow> mapped m d (Suc (length xs)) \<Longrightarrow> forward d s (Suc (length xs)) \<Longrightarrow>
   rt_strcpy m d s = Some (write_at m d (xs @ [0]))"
proof (induction xs arbitrary: m d s)
  case Nil
  then show ?case by (simp add: rt_strcpy.simps[of m] mapped_Suc write_at_Cons del: fun_upd_apply)
next
  case (Cons x xs)
  have len: "Suc (Suc (length xs)) \<le> 2 ^ 32" using cstring_short[OF Cons.prems(1)] by simp
  have md: "m d \<noteq> None" "mapped m (d + 1) (Suc (length xs))" using Cons.prems(2) by (auto simp: mapped_Suc)
  have "s + 1 + of_nat i \<noteq> d" if "i < Suc (length xs)" for i
  proof (cases "d = s")
    case True
    with no_wrap_run[of i s] that len show ?thesis by auto
  next
    case False
    with Cons.prems(3) have "Suc (Suc (length xs)) \<le> unat (d - s)" by (simp add: forward_def)
    from not_in_run[OF _ this, of "Suc i"] that show ?thesis by (simp add: add.assoc)
  qed
  then have "cstring (m(d \<mapsto> x)) (s + 1) xs"
    using Cons.prems(1) bytes_at_upd[of m "s + 1" "xs @ [0]" d x] by (simp add: cstring_def)
  moreover have "forward (d + 1) (s + 1) (Suc (length xs))" using Cons.prems(3) by (auto simp: forward_def)
  ultimately have "rt_strcpy (m(d \<mapsto> x)) (d + 1) (s + 1) = Some (write_at (m(d \<mapsto> x)) (d + 1) (xs @ [0]))"
    using Cons.IH mapped_upd[OF md(2)] by blast
  moreover have "length (xs @ [0]) < 2 ^ 32" using len by simp
  ultimately show ?case
    using Cons.prems(1) md(1) by (simp add: rt_strcpy.simps[of m d s] write_at_Cons del: fun_upd_apply)
qed

section \<open>Comparisons and search\<close>

lemma rt_strcmp_bytes:
  "cstring m a xs \<Longrightarrow> cstring m b ys \<Longrightarrow> rt_strcmp m a b = Some (cmp_bytes (xs @ [0]) (ys @ [0]))"
proof (induction xs arbitrary: ys a b)
  case Nil
  then show ?case by (cases ys) (auto simp: rt_strcmp.simps[of m])
next
  case (Cons x xs)
  then show ?case by (cases ys) (auto simp: rt_strcmp.simps[of m a])
qed

lemma cmp_strings:
  assumes "0 \<notin> set xs" "0 \<notin> set ys"
  shows "cmp_bytes (xs @ [0]) (ys @ [0]) = 0 \<longleftrightarrow> xs = ys"
    and "cmp_bytes (xs @ [0]) (ys @ [0]) < 0 \<longleftrightarrow> ord_class.lexordp xs ys"
proof -
  have z: "uint y = 0 \<longleftrightarrow> y = 0" for y :: u8 by (metis uint_inject unsigned_0)
  have p: "0 < uint y" if "y \<noteq> 0" for y :: u8 using that z[of y] by (simp add: order_less_le del: uint_inject)
  show "cmp_bytes (xs @ [0]) (ys @ [0]) = 0 \<longleftrightarrow> xs = ys"
    using assms
  proof (induction xs arbitrary: ys)
    case Nil then show ?case by (cases ys) (auto simp: z)
  next
    case (Cons x xs) then show ?case by (cases ys) (auto simp: z)
  qed
  show "cmp_bytes (xs @ [0]) (ys @ [0]) < 0 \<longleftrightarrow> ord_class.lexordp xs ys"
    using assms
  proof (induction xs arbitrary: ys)
    case Nil then show ?case by (cases ys) (auto simp: p)
  next
    case (Cons x xs) then show ?case by (cases ys) (auto simp: word_less_def not_less le_less)
  qed
qed

lemma sint_diff:
  assumes "b < 128" "c < 128" shows "sint (b - c :: u8) = uint b - uint c"
proof -
  have "uint b < 128" "uint c < 128" using assms by (simp_all add: word_less_def)
  moreover have "0 \<le> uint b" "0 \<le> uint c" by (rule uint_ge_0)+
  ultimately have "- 128 \<le> uint b - uint c" "uint b - uint c < 128" by linarith+
  then have "signed_take_bit 7 (uint b - uint c) = uint b - uint c" by (intro signed_take_bit_int_eq_self) simp_all
  moreover have "sint (word_of_int k :: u8) = signed_take_bit 7 k" for k
    by (simp add: sint_uint unsigned_of_int signed_take_bit_take_bit)
  moreover have "b - c = word_of_int (uint b - uint c)" by simp
  ultimately show ?thesis by (simp only:)
qed

lemma sint_diff_0: "sint (b - c :: u8) = 0 \<longleftrightarrow> b = c"
  using signed_eq_0_iff[of "b - c", where 'a = int] by simp

text \<open>The result of \<open>rt_strncmp\<close> is the difference read as a signed byte.\<close>

lemma rt_strncmp_bytes:
  "bytes_at m a (take k (xs @ [0])) \<Longrightarrow> bytes_at m b (take k (ys @ [0])) \<Longrightarrow> unat n = k \<Longrightarrow>
   rt_strncmp m a b n = Some (sint (word_of_int (cmp_bytes (take k (xs @ [0])) (take k (ys @ [0]))) :: u8))"
  if "0 \<notin> set xs" "0 \<notin> set ys"
  using that
proof (induction k arbitrary: a b n xs ys)
  case 0
  then show ?case by (subst rt_strncmp.simps) (simp add: unat_eq_0)
next
  case (Suc k)
  note n = unat_SucD[OF Suc.prems(3)]
  let ?h = "\<lambda>zs. case zs of [] \<Rightarrow> 0 | z # _ \<Rightarrow> z" and ?t = "\<lambda>zs. take k (tl zs @ [0])"
  have c: "take (Suc k) (zs @ [0]) = ?h zs # (if zs = [] then [] else ?t zs)" for zs :: "u8 list" by (cases zs) auto
  have ma: "m a = Some (?h xs)" "m b = Some (?h ys)" using Suc.prems(1,2) by (simp_all only: c bytes_at_Cons)
  show ?case
  proof (cases "?h xs = ?h ys \<and> xs \<noteq> []")
    case True
    then obtain z xs' ys' where z: "xs = z # xs'" "ys = z # ys'" using Suc.prems(4,5) by (cases xs; cases ys) auto
    with Suc.prems have "bytes_at m (a + 1) (take k (xs' @ [0]))" "bytes_at m (b + 1) (take k (ys' @ [0]))"
      "0 \<notin> set xs'" "0 \<notin> set ys'" by auto
    from Suc.IH[OF this(1,2) n(2) this(3,4)] Suc.prems(4) z ma n(1) show ?thesis
      by (subst rt_strncmp.simps) auto
  next
    case False
    then have "?h xs \<noteq> ?h ys \<or> ?h xs = 0" by auto
    then have "rt_strncmp m a b n = Some (sint (?h xs - ?h ys))"
      using ma n(1) by (subst rt_strncmp.simps) (auto simp: sint_diff_0 Let_def)
    moreover have "cmp_bytes (take (Suc k) (xs @ [0])) (take (Suc k) (ys @ [0])) = uint (?h xs) - uint (?h ys)"
      using False Suc.prems(4,5) by (cases xs; cases ys) auto
    ultimately show ?thesis by simp
  qed
qed

lemma cmp_strings_take:
  assumes "0 \<notin> set xs" "0 \<notin> set ys"
  shows "cmp_bytes (take k (xs @ [0])) (take k (ys @ [0])) = 0 \<longleftrightarrow> take k xs = take k ys"
  using assms
proof (induction k arbitrary: xs ys)
  case (Suc k)
  have z: "uint y = 0 \<longleftrightarrow> y = 0" for y :: u8 by (metis uint_inject unsigned_0)
  show ?case using Suc by (cases xs; cases ys) (auto simp: z simp del: take_append)
qed simp

lemma cmp_bytes_ascii:
  "\<forall>x \<in> set xs \<union> set ys. x < 128 \<Longrightarrow> sint (word_of_int (cmp_bytes xs ys) :: u8) = cmp_bytes xs ys"
  by (induction xs ys rule: cmp_bytes.induct) (auto simp: sint_diff)

lemma cmp_bytes_range: "- 255 \<le> cmp_bytes xs ys \<and> cmp_bytes xs ys \<le> 255"
proof (induction xs ys rule: cmp_bytes.induct)
  case (1 x xs y ys)
  have "uint x < 256" "uint y < 256" using uint_lt2p[of x] uint_lt2p[of y] by simp_all
  moreover have "0 \<le> uint x" "0 \<le> uint y" by (rule uint_ge_0)+
  ultimately have "- 255 \<le> uint x - uint y" "uint x - uint y \<le> 255" by linarith+
  with 1 show ?case by simp
qed simp_all

lemma sint_byte:
  assumes "- 256 < k" "k < 256"
  shows "sint (word_of_int k :: u8) = (if k < - 128 then k + 256 else if k < 128 then k else k - 256)"
proof -
  have s: "sint (word_of_int j :: u8) = j" if "- 128 \<le> j" "j < 128" for j
    using that by (simp add: signed_of_int signed_take_bit_int_eq_self)
  have "word_of_int (k + 256) = (word_of_int k :: u8)" "word_of_int (k - 256) = (word_of_int k :: u8)"
    by (simp_all add: word_of_int_eq_iff take_bit_eq_mod)
  note e = this
  from s[of k] s[of "k + 256"] s[of "k - 256"] assms show ?thesis unfolding e by auto
qed

lemma rt_strncmp_zero:
  assumes "0 \<notin> set xs" "0 \<notin> set ys" "bytes_at m a (take (unat n) (xs @ [0]))" "bytes_at m b (take (unat n) (ys @ [0]))"
  shows "\<exists>r. rt_strncmp m a b n = Some r \<and> (r = 0 \<longleftrightarrow> take (unat n) xs = take (unat n) ys)"
proof -
  let ?c = "cmp_bytes (take (unat n) (xs @ [0])) (take (unat n) (ys @ [0]))"
  have "- 255 \<le> ?c" "?c \<le> 255" using cmp_bytes_range by blast+
  then have "sint (word_of_int ?c :: u8) = 0 \<longleftrightarrow> ?c = 0" by (simp add: sint_byte)
  with rt_strncmp_bytes[OF assms(1-4) refl] cmp_strings_take[OF assms(1,2)] show ?thesis by simp
qed

lemma lower_0 [simp]: "lower 0 = 0"
  by (simp add: lower_def)

lemma lower_eq_0 [simp]: "lower c = 0 \<longleftrightarrow> c = 0"
proof
  assume l: "lower c = 0"
  have "c + 32 \<noteq> 0" if "c \<le> 90"
  proof -
    have "unat c + unat (32::u8) < 2 ^ LENGTH(8)" using that by (simp add: word_le_nat_alt)
    then have "unat (c + 32) = unat c + 32" by (subst unat_add_lem[THEN iffD1]) simp_all
    then show ?thesis by (metis add_is_0 unsigned_0 zero_neq_numeral)
  qed
  with l show "c = 0" by (auto simp: lower_def split: if_splits)
qed simp

lemma rt_strcasecmp_bytes:
  "cstring m a xs \<Longrightarrow> cstring m b ys \<Longrightarrow>
   rt_strcasecmp m a b = Some (cmp_bytes (map lower xs @ [0]) (map lower ys @ [0]))"
proof (induction xs arbitrary: ys a b)
  case Nil
  then show ?case by (cases ys) (auto simp: rt_strcasecmp.simps[of m])
next
  case (Cons x xs)
  then show ?case by (cases ys) (auto simp: rt_strcasecmp.simps[of m a])
qed

text \<open>The first place of \<open>ys\<close> in \<open>xs\<close>.\<close>

fun find_sub :: "'a list \<Rightarrow> 'a list \<Rightarrow> nat option" where
  "find_sub ys xs = (if take (length ys) xs = ys then Some 0
     else case xs of [] \<Rightarrow> None | x # zs \<Rightarrow> map_option Suc (find_sub ys zs))"

declare find_sub.simps [simp del]

lemma find_sub_Some:
  "find_sub ys xs = Some i \<Longrightarrow> take (length ys) (drop i xs) = ys \<and> (\<forall>j < i. take (length ys) (drop j xs) \<noteq> ys)"
proof (induction ys xs arbitrary: i rule: find_sub.induct)
  case (1 ys xs)
  show ?case
  proof (cases "take (length ys) xs = ys")
    case False
    with 1 show ?thesis
      by (subst (asm) (2) find_sub.simps) (auto split: list.splits simp: less_Suc_eq_0_disj)
  qed (use 1 in \<open>subst (asm) (2) find_sub.simps, simp\<close>)
qed

lemma find_sub_None: "find_sub ys xs = None \<Longrightarrow> take (length ys) (drop j xs) \<noteq> ys"
proof (induction ys xs arbitrary: j rule: find_sub.induct)
  case (1 ys xs)
  have n: "take (length ys) xs \<noteq> ys" using 1(2) by (subst (asm) find_sub.simps) auto
  show ?case
  proof (cases xs)
    case (Cons x zs)
    with 1 n show ?thesis by (subst (asm) (2) find_sub.simps) (cases j, auto)
  qed (use n in simp)
qed

lemma find_sub_short: "length xs < length ys \<Longrightarrow> find_sub ys xs = None"
proof (induction ys xs rule: find_sub.induct)
  case (1 ys xs)
  then show ?case by (subst find_sub.simps) (auto split: list.split)
qed

lemma strstr_loop_find:
  "cstring m s1 xs \<Longrightarrow> cstring m s2 ys \<Longrightarrow>
   strstr_loop m s1 s2 (int (length xs)) (int (length ys)) =
   Some (case find_sub ys xs of None \<Rightarrow> 0 | Some i \<Rightarrow> s1 + of_nat i)"
proof (induction xs arbitrary: s1)
  case Nil
  then show ?case
    by (subst strstr_loop.simps, subst find_sub.simps, subst rt_memcmp.simps) auto
next
  case (Cons x xs)
  let ?xs = "take (length ys) (x # xs)"
  show ?case
  proof (cases "length ys \<le> length (x # xs)")
    case True
    have "length ys < 2 ^ 32" using cstring_short Cons.prems(2) by blast
    then have "unat (word_of_int (int (length ys)) :: u32) = length ys" by (simp add: unat_of_nat)
    moreover have "bytes_at m s1 (x # xs)" "bytes_at m s2 ys"
      using Cons.prems by (simp_all only: cstring_def bytes_at_append)
    then have "bytes_at m s1 ?xs" by (metis append_take_drop_id bytes_at_append)
    ultimately have "rt_memcmp m s1 s2 (word_of_int (int (length ys))) = Some (cmp_bytes ?xs ys)"
      using True \<open>bytes_at m s2 ys\<close> by (intro rt_memcmp_bytes) auto
    moreover have "cmp_bytes ?xs ys = 0 \<longleftrightarrow> ?xs = ys" using True by (intro cmp_bytes_0) simp
    ultimately show ?thesis
      using True Cons by (subst strstr_loop.simps, subst find_sub.simps) (auto split: option.split simp: add.assoc)
  next
    case False
    then show ?thesis by (subst strstr_loop.simps) (simp add: find_sub_short)
  qed
qed


lemma sint_of_nat_small: "k < 2 ^ 31 \<Longrightarrow> sint (of_nat k :: u32) = int k"
proof -
  assume k: "k < 2 ^ 31"
  have "sint (word_of_int j :: u32) = signed_take_bit 31 j" for j by (simp add: signed_of_int)
  from this[of "int k"] have "sint (of_nat k :: u32) = signed_take_bit 31 (int k)" by simp
  moreover have "signed_take_bit 31 (int k) = int k" using k by (intro signed_take_bit_int_eq_self) simp_all
  ultimately show ?thesis by simp
qed

lemma rt_strstr_find:
  assumes "cstring m s1 xs" "cstring m s2 ys" "length xs < 2 ^ 31" "length ys < 2 ^ 31"
  shows "rt_strstr m s1 s2 = Some (case find_sub ys xs of None \<Rightarrow> 0 | Some i \<Rightarrow> s1 + of_nat i)"
proof (cases "ys = []")
  case True
  then have "find_sub ys xs = Some 0" by (subst find_sub.simps) simp
  with True rt_strlen_length[OF assms(2)] show ?thesis by (simp add: rt_strstr_def)
next
  case False
  with assms show ?thesis
    by (simp add: rt_strstr_def rt_strlen_length sint_of_nat_small strstr_loop_find del: cstring_Nil)
qed

section \<open>Properties\<close>

text \<open>\<open>rt_strcmp\<close> orders strings lexicographically by their unsigned bytes and returns 0 exactly for equal
  strings; \<open>rt_strcasecmp\<close> does so after turning capital letters into small ones; \<open>rt_strncmp\<close> compares the
  first \<open>n\<close> bytes up to the end of the string, reads no further, and returns 0 exactly when these agree. Its
  result is the difference cut to a signed byte: the order of strings of ASCII characters, but the wrong sign
  where two bytes differ by 128 or more.\<close>
theorem strings_compare:
  assumes "cstring m a xs" "cstring m b ys"
    and "bytes_at m c (take (unat n) (us @ [0]))" "bytes_at m d (take (unat n) (vs @ [0]))"
    and "0 \<notin> set us" "0 \<notin> set vs"
  shows "\<exists>r r' r'' k. rt_strcmp m a b = Some r \<and> (r = 0 \<longleftrightarrow> xs = ys) \<and> (r < 0 \<longleftrightarrow> ord_class.lexordp xs ys) \<and>
    rt_strcasecmp m a b = Some r' \<and> (r' = 0 \<longleftrightarrow> map lower xs = map lower ys) \<and>
    (r' < 0 \<longleftrightarrow> ord_class.lexordp (map lower xs) (map lower ys)) \<and>
    k = cmp_bytes (take (unat n) (us @ [0])) (take (unat n) (vs @ [0])) \<and>
    rt_strncmp m c d n = Some r'' \<and> (r'' = 0 \<longleftrightarrow> k = 0) \<and>
    ((\<forall>x \<in> set us \<union> set vs. x < 128) \<longrightarrow> r'' = k) \<and> (128 \<le> k \<longrightarrow> r'' < 0) \<and> (k < - 128 \<longrightarrow> 0 < r'')"
proof -
  let ?k = "cmp_bytes (take (unat n) (us @ [0])) (take (unat n) (vs @ [0]))"
  have l: "0 \<notin> set (map lower zs)" if "0 \<notin> set zs" for zs using that by auto
  have z: "0 \<notin> set xs" "0 \<notin> set ys" using assms(1,2) by (simp_all add: cstring_def)
  have "rt_strncmp m c d n = Some (sint (word_of_int ?k :: u8))"
    by (rule rt_strncmp_bytes[OF assms(5,6,3,4) refl])
  moreover have "- 255 \<le> ?k" "?k \<le> 255" using cmp_bytes_range by blast+
  moreover have "(\<forall>x \<in> set us \<union> set vs. x < 128) \<longrightarrow> sint (word_of_int ?k :: u8) = ?k"
    by (auto intro!: cmp_bytes_ascii dest!: in_set_takeD simp del: take_append)
  ultimately show ?thesis
    using rt_strcmp_bytes[OF assms(1,2)] rt_strcasecmp_bytes[OF assms(1,2)] cmp_strings[OF z]
      cmp_strings[OF l[OF z(1)] l[OF z(2)]]
    by (auto simp: sint_byte)
qed

theorem strings_compare_witness:
  "\<exists>r. rt_strncmp [1 \<mapsto> 200, 2 \<mapsto> 1, 3 \<mapsto> 0] 1 2 1 = Some r \<and> r < 0"
  using strings_compare[of "[1 \<mapsto> 200, 2 \<mapsto> 1, 3 \<mapsto> 0]" 2 "[1]" 2 "[1]" 1 1 "[200]" 2 "[1]"]
  by auto

text \<open>C21: \<open>rt_strlen\<close> returns the length of a string, \<open>rt_strnlen\<close> the length up to a limit, after reading one
  byte behind the limit: where that byte is not mapped it faults. \<open>rt_strcpy\<close> copies a string with its end,
  \<open>rt_strncpy\<close> fills exactly \<open>n\<close> bytes, with the string cut at \<open>n\<close> or padded with zeros. \<open>rt_strstr\<close> returns the
  address of the first place where the second string occurs in the first one, and the null pointer if there is none.\<close>
theorem string_functions_correct:
  assumes "cstring m a xs" "cstring m b ys" "length xs < 2 ^ 31" "length ys < 2 ^ 31"
    and "mapped m d (max (Suc (length xs)) (unat n))" "forward d a (max (Suc (length xs)) (unat n))"
    and "bytes_at m e zs" "0 \<notin> set zs" "unat k = length zs"
  shows "rt_strlen m a = Some (of_nat (length xs)) \<and>
    rt_strnlen m a n = Some (of_nat (min (unat n) (length xs))) \<and>
    (m (e + k) = None \<longrightarrow> rt_strnlen m e k = None) \<and>
    rt_strcpy m d a = Some (write_at m d (xs @ [0])) \<and>
    rt_strncpy m d a n = Some (write_at m d (take (unat n) (xs @ replicate (unat n) 0))) \<and>
    (\<exists>p. rt_strstr m a b = Some p \<and>
      ((\<forall>i. take (length ys) (drop i xs) \<noteq> ys) \<and> p = 0 \<or>
       (\<exists>i. p = a + of_nat i \<and> take (length ys) (drop i xs) = ys \<and>
         (\<forall>j < i. take (length ys) (drop j xs) \<noteq> ys))))"
proof -
  let ?n = "unat n" and ?l = "Suc (length xs)"
  have m: "mapped m d ?l" "mapped m d ?n" using assms(5) by (auto intro: mapped_mono)
  have f: "forward d a ?l" "forward d a ?n" using assms(6) by (auto simp: forward_def)
  have z: "0 \<notin> set xs" "bytes_at m a (xs @ [0])" using assms(1) by (simp_all add: cstring_def)
  have t: "bytes_at m a (take j (xs @ [0]))" for j using z(2) by (metis append_take_drop_id bytes_at_append)
  show ?thesis
    using rt_strlen_length[OF assms(1)] rt_strnlen_min[OF t z(1)] rt_strnlen_faults[OF assms(7-9)]
      rt_strcpy_write[OF assms(1) m(1) f(1)] rt_strncpy_write[OF t z(1) m(2) f(2)]
      rt_strstr_find[OF assms(1-4)] find_sub_Some[of ys xs] find_sub_None[of ys xs]
    by (cases "find_sub ys xs") auto
qed

theorem string_functions_correct_witness:
  "rt_strstr [1 \<mapsto> 65, 2 \<mapsto> 66, 3 \<mapsto> 0] 1 2 = Some 2"
proof -
  let ?m = "[1 \<mapsto> 65, 2 \<mapsto> 66, 3 \<mapsto> 0] :: bmem"
  have "\<exists>p. rt_strstr ?m 1 2 = Some p \<and>
      ((\<forall>i. take 1 (drop i [65 :: u8, 66]) \<noteq> [66 :: u8]) \<and> p = 0 \<or>
       (\<exists>i. p = 1 + of_nat i \<and> take 1 (drop i [65 :: u8, 66]) = [66 :: u8] \<and>
         (\<forall>j < i. take 1 (drop j [65 :: u8, 66]) \<noteq> [66 :: u8])))"
    using string_functions_correct[of ?m 1 "[65, 66]" 2 "[66]" 1 0 3 "[]" 0] by (simp add: mapped_Suc forward_def)
  moreover have "take 1 (drop i [65 :: u8, 66]) = [66 :: u8] \<longleftrightarrow> i = 1" for i
    by (cases i; cases "i - 1") (auto split: nat.splits)
  ultimately show ?thesis by auto
qed
end
