(* ===== verification/KPrintf.thy ===== *)
theory KPrintf
  imports ByteMem
begin

text \<open>
  Formatted output of \<open>src/kservice.c\<close>: \<open>rt_vsnprintf\<close> and its helpers, configured with precision and prefixes
  and without \<open>long long\<close>. The format and string arguments are character lists up to their zero byte, so they
  are taken not to lie in the buffer; an argument is a machine word or a pointer with the string it points to.
  The value None stands for what C leaves undefined: the overflow of an \<open>int\<close>, a missing argument, a string that
  is no string, a write to memory that is not mapped or outside the array \<open>tmp\<close>.
\<close>

section \<open>Data\<close>

datatype arg = Word u32 | Str u32 string

type_synonym out = "bmem \<times> u32"

abbreviation ZEROPAD :: u8 where "ZEROPAD \<equiv> 1"
abbreviation SIGN :: u8 where "SIGN \<equiv> 2"
abbreviation PLUS :: u8 where "PLUS \<equiv> 4"
abbreviation SPACE :: u8 where "SPACE \<equiv> 8"
abbreviation LEFT :: u8 where "LEFT \<equiv> 16"
abbreviation SPECIAL :: u8 where "SPECIAL \<equiv> 32"
abbreviation LARGE :: u8 where "LARGE \<equiv> 64"

definition has :: "u8 \<Rightarrow> u8 \<Rightarrow> bool" where
  "has flags f \<longleftrightarrow> flags AND f \<noteq> 0"

text \<open>The result of an operation on \<open>int\<close>.\<close>

definition cint :: "int \<Rightarrow> int option" where
  "cint i = (if - (2 ^ 31) \<le> i \<and> i < 2 ^ 31 then Some i else None)"

definition small_digits :: string where
  "small_digits = ''0123456789abcdef''"

definition large_digits :: string where
  "large_digits = ''0123456789ABCDEF''"

section \<open>Output\<close>

text \<open>\<open>if (buf < end) *buf = c; ++ buf\<close>, and the loops around it.\<close>

fun put :: "u32 \<Rightarrow> char \<Rightarrow> out \<Rightarrow> out option" where
  "put e c (m, s) = do { m \<leftarrow> (if s < e then st m s (of_char c) else Some m); Some (m, s + 1) }"

function pad_loop :: "u32 \<Rightarrow> char \<Rightarrow> int \<Rightarrow> out \<Rightarrow> (out \<times> int) option" where
  "pad_loop e c sz b =
     do { sz' \<leftarrow> cint (sz - 1);
          if 0 < sz then do { b \<leftarrow> put e c b; pad_loop e c sz' b } else Some (b, sz') }"
  by pat_completeness auto
termination
  by (relation "measure (\<lambda>(e, c, sz, b). nat sz)") (auto simp: cint_def split: if_splits)

function zero_loop :: "u32 \<Rightarrow> int \<Rightarrow> int \<Rightarrow> out \<Rightarrow> out option" where
  "zero_loop e i precision b =
     (if i < precision then do { b \<leftarrow> put e CHR ''0'' b; zero_loop e i (precision - 1) b } else Some b)"
  by pat_completeness auto
termination
  by (relation "measure (\<lambda>(e, i, p, b). nat (p - i))") auto

fun digit_loop :: "u32 \<Rightarrow> string \<Rightarrow> nat \<Rightarrow> out \<Rightarrow> out option" where
  "digit_loop e tmp 0 b = Some b"
| "digit_loop e tmp (Suc i) b = do { b \<leftarrow> put e (tmp ! i) b; digit_loop e tmp i b }"

text \<open>\<open>while (--field_width > 0)\<close> and \<open>while (len < field_width--)\<close>\<close>

function width_loop :: "u32 \<Rightarrow> int \<Rightarrow> out \<Rightarrow> (out \<times> int) option" where
  "width_loop e w b =
     do { w' \<leftarrow> cint (w - 1);
          if 0 < w' then do { b \<leftarrow> put e CHR '' '' b; width_loop e w' b } else Some (b, w') }"
  by pat_completeness auto
termination
  by (relation "measure (\<lambda>(e, w, b). nat w)") (auto simp: cint_def split: if_splits)

function len_loop :: "u32 \<Rightarrow> int \<Rightarrow> int \<Rightarrow> out \<Rightarrow> (out \<times> int) option" where
  "len_loop e len w b =
     do { w' \<leftarrow> cint (w - 1);
          if len < w then do { b \<leftarrow> put e CHR '' '' b; len_loop e len w' b } else Some (b, w') }"
  by pat_completeness auto
termination
  by (relation "measure (\<lambda>(e, len, w, b). nat (w - len))") (auto simp: cint_def split: if_splits)

fun put_string :: "u32 \<Rightarrow> string \<Rightarrow> out \<Rightarrow> out option" where
  "put_string e [] b = Some b"
| "put_string e (c # cs) b = do { b \<leftarrow> put e c b; put_string e cs b }"

section \<open>Numbers (print\_number)\<close>

text \<open>\<open>divide\<close> returns the remainder and leaves the quotient.\<close>

definition divide :: "u32 \<Rightarrow> u32 \<Rightarrow> u32 \<times> u32" where
  "divide n base = (n mod base, n div base)"

function collect_digits :: "string \<Rightarrow> u32 \<Rightarrow> u32 \<Rightarrow> string \<Rightarrow> string option" where
  "collect_digits digits base num tmp =
     (if num \<noteq> 0
      then (let (r, q) = divide num base in
            if unat r < length digits \<and> length tmp < 32
            then collect_digits digits base q (tmp @ [digits ! unat r]) else None)
      else Some tmp)"
  by pat_completeness auto
termination
  by (relation "measure (\<lambda>(digits, base, num, tmp). 32 - length tmp)") auto

text \<open>The sign character (0 for none) and the number without its sign.\<close>

definition get_sign :: "u8 \<Rightarrow> char option \<Rightarrow> u32 \<Rightarrow> char option \<times> u32" where
  "get_sign type qualifier num =
     (if has type SIGN
      then (let (neg, num) =
              (if qualifier = Some CHR ''h''
               then (if sint (ucast num :: u16) < 0 then (True, ucast (ucast (- num) :: u16)) else (False, num))
               else (if sint num < 0 then (True, - num) else (False, num)))
            in (if neg then Some CHR ''-'' else if has type PLUS then Some CHR ''+''
                else if has type SPACE then Some CHR '' '' else None, num))
      else (None, num))"

definition special_size :: "u8 \<Rightarrow> u32 \<Rightarrow> int \<Rightarrow> int option" where
  "special_size type base sz =
     (if has type SPECIAL
      then (if base = 2 \<or> base = 16 then cint (sz - 2) else if base = 8 then cint (sz - 1) else Some sz)
      else Some sz)"

definition put_prefix :: "u32 \<Rightarrow> u8 \<Rightarrow> u32 \<Rightarrow> out \<Rightarrow> out option" where
  "put_prefix e type base b =
     (if has type SPECIAL
      then (if base = 2 then do { b \<leftarrow> put e CHR ''0'' b; put e CHR ''b'' b }
            else if base = 8 then put e CHR ''0'' b
            else if base = 16
              then do { b \<leftarrow> put e CHR ''0'' b; put e (if has type LARGE then CHR ''X'' else CHR ''x'') b }
            else Some b)
      else Some b)"

definition print_number :: "u32 \<Rightarrow> u32 \<Rightarrow> u32 \<Rightarrow> char option \<Rightarrow> int \<Rightarrow> int \<Rightarrow> u8 \<Rightarrow> out \<Rightarrow> out option" where
  "print_number e num base qualifier s precision type b =
     (let digits = (if has type LARGE then large_digits else small_digits);
          type = (if has type LEFT then type AND NOT ZEROPAD else type);
          c = (if has type ZEROPAD then CHR ''0'' else CHR '' '');
          (sign, num) = get_sign type qualifier num
      in do {
        sz \<leftarrow> special_size type base s;
        tmp \<leftarrow> (if num = 0 then Some ''0'' else collect_digits digits base num []);
        let i = int (length tmp);
        let prec = (if precision < i then i else precision);
        sz \<leftarrow> cint (sz - prec);
        (b, sz) \<leftarrow> (if \<not> has type (ZEROPAD OR LEFT)
          then pad_loop e CHR '' '' (if sign \<noteq> None \<and> 0 < sz then sz - 1 else sz) b else Some (b, sz));
        (b, sz) \<leftarrow> (case sign of Some g \<Rightarrow> do { b \<leftarrow> put e g b; sz \<leftarrow> cint (sz - 1); Some (b, sz) }
          | None \<Rightarrow> Some (b, sz));
        b \<leftarrow> put_prefix e type base b;
        (b, sz) \<leftarrow> (if \<not> has type LEFT then pad_loop e c sz b else Some (b, sz));
        b \<leftarrow> zero_loop e i prec b;
        b \<leftarrow> (if precision \<noteq> 0 then digit_loop e tmp (length tmp) b else Some b);
        (b, sz) \<leftarrow> pad_loop e CHR '' '' sz b;
        Some b })"

section \<open>The format (rt\_vsnprintf)\<close>

definition is_digit :: "char \<Rightarrow> bool" where
  "is_digit c \<longleftrightarrow> (of_char c :: u32) - 48 < 10"

fun skip_atoi :: "int \<Rightarrow> string \<Rightarrow> (int \<times> string) option" where
  "skip_atoi i (c # s) =
     (if is_digit c
      then do { j \<leftarrow> cint (i * 10); j \<leftarrow> cint (j + of_char c); skip_atoi (j - 48) s }
      else Some (i, c # s))"
| "skip_atoi i [] = Some (i, [])"

text \<open>\<open>va_arg\<close> of a machine word and of a string, where the null pointer stands for \<open>(NULL)\<close>.\<close>

fun arg_word :: "arg list \<Rightarrow> (u32 \<times> arg list) option" where
  "arg_word (Word w # args) = Some (w, args)"
| "arg_word (Str a s # args) = Some (a, args)"
| "arg_word [] = None"

fun arg_string :: "arg list \<Rightarrow> (string \<times> arg list) option" where
  "arg_string (Word w # args) = (if w = 0 then Some (''(NULL)'', args) else None)"
| "arg_string (Str a s # args) = Some (if a = 0 then ''(NULL)'' else s, args)"
| "arg_string [] = None"

fun parse_flags :: "u8 \<Rightarrow> string \<Rightarrow> u8 \<times> string" where
  "parse_flags fl (c # fmt) =
     (if c = CHR ''-'' then parse_flags (fl OR LEFT) fmt
      else if c = CHR ''+'' then parse_flags (fl OR PLUS) fmt
      else if c = CHR '' '' then parse_flags (fl OR SPACE) fmt
      else if c = CHR ''#'' then parse_flags (fl OR SPECIAL) fmt
      else if c = CHR ''0'' then parse_flags (fl OR ZEROPAD) fmt
      else (fl, c # fmt))"
| "parse_flags fl [] = (fl, [])"

definition starts_digit :: "string \<Rightarrow> bool" where
  "starts_digit fmt \<longleftrightarrow> (case fmt of [] \<Rightarrow> False | c # _ \<Rightarrow> is_digit c)"

definition starts_with :: "char \<Rightarrow> string \<Rightarrow> bool" where
  "starts_with c fmt \<longleftrightarrow> (case fmt of [] \<Rightarrow> False | d # _ \<Rightarrow> d = c)"

definition parse_width :: "u8 \<Rightarrow> string \<Rightarrow> arg list \<Rightarrow> (int \<times> u8 \<times> string \<times> arg list) option" where
  "parse_width fl fmt args =
     (if starts_digit fmt then do { (w, fmt) \<leftarrow> skip_atoi 0 fmt; Some (w, fl, fmt, args) }
      else if starts_with CHR ''*'' fmt
      then do { (a, args) \<leftarrow> arg_word args;
                let w = sint a in
                if w < 0 then do { w \<leftarrow> cint (- w); Some (w, fl OR LEFT, tl fmt, args) }
                else Some (w, fl, tl fmt, args) }
      else Some (- 1, fl, fmt, args))"

definition parse_precision :: "string \<Rightarrow> arg list \<Rightarrow> (int \<times> string \<times> arg list) option" where
  "parse_precision fmt args =
     (if starts_with CHR ''.'' fmt
      then do { let fmt = tl fmt;
                (p, fmt, args) \<leftarrow>
                  (if starts_digit fmt then do { (p, fmt) \<leftarrow> skip_atoi 0 fmt; Some (p, fmt, args) }
                   else if starts_with CHR ''*'' fmt
                   then do { (a, args) \<leftarrow> arg_word args; Some (sint a, tl fmt, args) }
                   else Some (- 1, fmt, args));
                Some (if p < 0 then 0 else p, fmt, args) }
      else Some (- 1, fmt, args))"

definition parse_qualifier :: "string \<Rightarrow> char option \<times> string" where
  "parse_qualifier fmt =
     (if starts_with CHR ''h'' fmt \<or> starts_with CHR ''l'' fmt then (Some (hd fmt), tl fmt) else (None, fmt))"

text \<open>\<open>for (len = 0; (len != field_width) && (s[len] != '\0'); len++);\<close>\<close>

fun string_len :: "int \<Rightarrow> int \<Rightarrow> string \<Rightarrow> int" where
  "string_len w len (c # s) = (if len \<noteq> w then string_len w (len + 1) s else len)"
| "string_len w len [] = len"

definition convert_char :: "u32 \<Rightarrow> u8 \<Rightarrow> int \<Rightarrow> arg list \<Rightarrow> out \<Rightarrow> (out \<times> arg list) option" where
  "convert_char e fl w args b =
     do { (b, w) \<leftarrow> (if \<not> has fl LEFT then width_loop e w b else Some (b, w));
          (a, args) \<leftarrow> arg_word args;
          b \<leftarrow> put e (char_of (unat (ucast a :: u8))) b;
          (b, w) \<leftarrow> width_loop e w b;
          Some (b, args) }"

definition convert_string :: "u32 \<Rightarrow> u8 \<Rightarrow> int \<Rightarrow> int \<Rightarrow> arg list \<Rightarrow> out \<Rightarrow> (out \<times> arg list) option" where
  "convert_string e fl w precision args b =
     do { (s, args) \<leftarrow> arg_string args;
          let len = string_len w 0 s;
          let len = (if 0 < precision \<and> precision < len then precision else len);
          (b, w) \<leftarrow> (if \<not> has fl LEFT then len_loop e len w b else Some (b, w));
          b \<leftarrow> put_string e (take (nat len) s) b;
          (b, w) \<leftarrow> len_loop e len w b;
          Some (b, args) }"

definition convert_pointer :: "u32 \<Rightarrow> u8 \<Rightarrow> char option \<Rightarrow> int \<Rightarrow> int \<Rightarrow> arg list \<Rightarrow> out \<Rightarrow> (out \<times> arg list) option" where
  "convert_pointer e fl qualifier w precision args b =
     (let (w, fl) = (if w = - 1 then (4 * 2 + 2, fl OR SPECIAL OR ZEROPAD) else (w, fl))
      in do { (a, args) \<leftarrow> arg_word args;
              b \<leftarrow> print_number e a 16 qualifier w precision fl b;
              Some (b, args) })"

definition fetch_number :: "u8 \<Rightarrow> char option \<Rightarrow> arg list \<Rightarrow> (u32 \<times> arg list) option" where
  "fetch_number fl qualifier args =
     do { (a, args) \<leftarrow> arg_word args;
          Some (if qualifier = Some CHR ''h''
                then (let num = ucast a :: u16 in if has fl SIGN then scast num else ucast num)
                else a, args) }"

definition convert_number :: "u32 \<Rightarrow> u8 \<Rightarrow> u32 \<Rightarrow> char option \<Rightarrow> int \<Rightarrow> int \<Rightarrow> arg list \<Rightarrow> out \<Rightarrow> (out \<times> arg list) option" where
  "convert_number e fl base qualifier w precision args b =
     do { (num, args) \<leftarrow> fetch_number fl qualifier args;
          b \<leftarrow> print_number e num base qualifier w precision fl b;
          Some (b, args) }"

text \<open>The switch over the conversion character; the character of an unknown conversion is printed with its
  percent sign, and the end of the format is left for the loop to see.\<close>

definition convert :: "u32 \<Rightarrow> u8 \<Rightarrow> char option \<Rightarrow> int \<Rightarrow> int \<Rightarrow> string \<Rightarrow> arg list \<Rightarrow> out
    \<Rightarrow> (out \<times> string \<times> arg list) option" where
  "convert e fl q w p fmt args b =
     (case fmt of
        [] \<Rightarrow> do { b \<leftarrow> put e CHR ''%'' b; Some (b, [], args) }
      | c # fmt \<Rightarrow>
          do { (b, args) \<leftarrow>
            (if c = CHR ''c'' then convert_char e fl w args b
             else if c = CHR ''s'' then convert_string e fl w p args b
             else if c = CHR ''p'' then convert_pointer e fl q w p args b
             else if c = CHR ''%'' then do { b \<leftarrow> put e CHR ''%'' b; Some (b, args) }
             else if c = CHR ''b'' then convert_number e fl 2 q w p args b
             else if c = CHR ''o'' then convert_number e fl 8 q w p args b
             else if c = CHR ''X'' then convert_number e (fl OR LARGE) 16 q w p args b
             else if c = CHR ''x'' then convert_number e fl 16 q w p args b
             else if c = CHR ''d'' \<or> c = CHR ''i'' then convert_number e (fl OR SIGN) 10 q w p args b
             else if c = CHR ''u'' then convert_number e fl 10 q w p args b
             else do { b \<leftarrow> put e CHR ''%'' b; b \<leftarrow> put e c b; Some (b, args) });
            Some (b, fmt, args) })"

lemma skip_atoi_length: "skip_atoi i fmt = Some (j, rest) \<Longrightarrow> length rest \<le> length fmt"
  by (induction i fmt arbitrary: j rest rule: skip_atoi.induct)
    (fastforce simp: bind_eq_Some_conv split: if_splits)+

lemma parse_flags_length: "length (snd (parse_flags fl fmt)) \<le> length fmt"
  by (induction fl fmt rule: parse_flags.induct) auto

lemma parse_width_length: "parse_width fl fmt args = Some (w, fl', rest, args') \<Longrightarrow> length rest \<le> length fmt"
  by (auto simp: parse_width_def bind_eq_Some_conv Let_def dest: skip_atoi_length split: if_splits)

lemma parse_precision_length: "parse_precision fmt args = Some (p, rest, args') \<Longrightarrow> length rest \<le> length fmt"
  by (fastforce simp: parse_precision_def bind_eq_Some_conv Let_def dest: skip_atoi_length split: if_splits)

lemma parse_qualifier_length: "length (snd (parse_qualifier fmt)) \<le> length fmt"
  by (simp add: parse_qualifier_def)

lemma convert_length: "convert e fl q w p fmt args b = Some (b', rest, args') \<Longrightarrow> length rest \<le> length fmt"
  by (auto simp: convert_def bind_eq_Some_conv split: list.splits)

lemma directive_length:
  assumes "(fl, f1) = parse_flags 0 fmt" "parse_width fl f1 args = Some (w, fl', f2, args1)"
    and "parse_precision f2 args1 = Some (p, f3, args2)" "(q, f4) = parse_qualifier f3"
    and "convert e fl' q w p f4 args2 b = Some (b', f5, args3)"
  shows "length f5 < Suc (length fmt)"
proof -
  have "length f1 \<le> length fmt" using parse_flags_length[of 0 fmt] by (simp flip: assms(1))
  moreover have "length f4 \<le> length f3" using parse_qualifier_length[of f3] by (simp flip: assms(4))
  ultimately show ?thesis
    using parse_width_length[OF assms(2)] parse_precision_length[OF assms(3)] convert_length[OF assms(5)] by linarith
qed

function format_loop :: "u32 \<Rightarrow> string \<Rightarrow> arg list \<Rightarrow> out \<Rightarrow> out option" where
  "format_loop e [] args b = Some b"
| "format_loop e (c # fmt) args b =
     (if c \<noteq> CHR ''%'' then do { b \<leftarrow> put e c b; format_loop e fmt args b }
      else (let (fl, fmt) = parse_flags 0 fmt in
        do { (w, fl, fmt, args) \<leftarrow> parse_width fl fmt args;
             (p, fmt, args) \<leftarrow> parse_precision fmt args;
             let (q, fmt) = parse_qualifier fmt;
             (b, fmt, args) \<leftarrow> convert e fl q w p fmt args b;
             format_loop e fmt args b }))"
  by pat_completeness auto
termination
  by (relation "measure (\<lambda>(e, fmt, args, b). length fmt)") (auto dest: directive_length)

definition rt_vsnprintf :: "bmem \<Rightarrow> u32 \<Rightarrow> u32 \<Rightarrow> string \<Rightarrow> arg list \<Rightarrow> (bmem \<times> int) option" where
  "rt_vsnprintf m buf sz fmt args =
     (let e = buf + sz; (e, sz) = (if e < buf then (- 1, - 1 - buf) else (e, sz))
      in do { (m, str) \<leftarrow> format_loop e fmt args (m, buf);
              m \<leftarrow> (if 0 < sz then (if str < e then st m str 0 else st m (e - 1) 0) else Some m);
              Some (m, sint (str - buf)) })"

definition rt_snprintf :: "bmem \<Rightarrow> u32 \<Rightarrow> u32 \<Rightarrow> string \<Rightarrow> arg list \<Rightarrow> (bmem \<times> int) option" where
  "rt_snprintf m buf sz fmt args = do { (m, n) \<leftarrow> rt_vsnprintf m buf sz fmt args; Some (m, n) }"

definition rt_vsprintf :: "bmem \<Rightarrow> u32 \<Rightarrow> string \<Rightarrow> arg list \<Rightarrow> (bmem \<times> int) option" where
  "rt_vsprintf m buf fmt args = rt_vsnprintf m buf (- 1) fmt args"

definition rt_sprintf :: "bmem \<Rightarrow> u32 \<Rightarrow> string \<Rightarrow> arg list \<Rightarrow> (bmem \<times> int) option" where
  "rt_sprintf m buf fmt args = do { (m, n) \<leftarrow> rt_vsprintf m buf fmt args; Some (m, n) }"

text \<open>\<open>rt_kprintf\<close> formats into the static buffer of \<open>RT_CONSOLEBUF_SIZE\<close> bytes at \<open>log_buf\<close>. The result is
  the memory, the length it returns, and the bytes it hands to the console device.\<close>

abbreviation RT_CONSOLEBUF_SIZE :: u32 where "RT_CONSOLEBUF_SIZE \<equiv> 128"

definition rt_kprintf :: "bmem \<Rightarrow> u32 \<Rightarrow> string \<Rightarrow> arg list \<Rightarrow> (bmem \<times> u32 \<times> u8 option list) option" where
  "rt_kprintf m log_buf fmt args =
     do { (m, n) \<leftarrow> rt_vsnprintf m log_buf (RT_CONSOLEBUF_SIZE - 1) fmt args;
          let length = word_of_int n;
          let length = (if RT_CONSOLEBUF_SIZE - 1 < length then RT_CONSOLEBUF_SIZE - 1 else length);
          Some (m, length, map (\<lambda>i. m (log_buf + of_nat i)) [0..<unat length]) }"

declare pad_loop.simps [simp del] zero_loop.simps [simp del] width_loop.simps [simp del]
  len_loop.simps [simp del] collect_digits.simps [simp del] put.simps [simp del]

section \<open>Texts\<close>

text \<open>All output goes through \<open>put\<close>: a part of the program that prints is the printing of a text that does
  not depend on the buffer.\<close>

fun emit :: "u32 \<Rightarrow> string \<Rightarrow> out \<Rightarrow> out option" where
  "emit e [] b = Some b"
| "emit e (c # cs) b = put e c b \<bind> emit e cs"

lemma emit_append: "emit e (xs @ ys) b = emit e xs b \<bind> emit e ys"
  by (induction xs arbitrary: b) (auto split: Option.bind_splits)

lemma emit_append_fun: "emit e (xs @ ys) = (\<lambda>b. emit e xs b \<bind> emit e ys)"
  by (rule ext) (rule emit_append)

lemma emit_Cons_fun: "emit e (c # cs) = (\<lambda>b. put e c b \<bind> emit e cs)"
  by (rule ext) simp

lemma emit_Nil_fun [simp]: "emit e [] = Some"
  by (rule ext) simp

lemma put_string_emit: "put_string e cs b = emit e cs b"
  by (induction cs arbitrary: b) (auto intro: Option.bind_cong)

lemma digit_loop_emit: "i \<le> length tmp \<Longrightarrow> digit_loop e tmp i b = emit e (rev (take i tmp)) b"
  by (induction i arbitrary: b) (auto simp: take_Suc_conv_app_nth intro: Option.bind_cong)

lemma zero_loop_emit: "zero_loop e i p b = emit e (replicate (nat (p - i)) CHR ''0'') b"
proof (induction e i p b rule: zero_loop.induct)
  case (1 e i p b)
  show ?case
  proof (cases "i < p")
    case True
    then have "nat (p - i) = Suc (nat (p - 1 - i))" by simp
    with 1 True show ?thesis by (subst zero_loop.simps) (auto intro: Option.bind_cong)
  qed (subst zero_loop.simps, simp)
qed

text \<open>A padding loop that starts in range leaves \<open>- 1\<close>, or one less than a count that was not positive.\<close>

lemma pad_loop_emit:
  "- (2 ^ 31) < n \<Longrightarrow> n < 2 ^ 31 \<Longrightarrow> pad_loop e c n b =
   emit e (replicate (nat n) c) b \<bind> (\<lambda>b. Some (b, (if 0 < n then - 1 else n - 1)))"
proof (induction e c n b rule: pad_loop.induct)
  case (1 e c n b)
  have s: "cint (n - 1) = Some (n - 1)" using 1(2,3) by (simp add: cint_def)
  show ?case
  proof (cases "0 < n")
    case True
    then have n: "nat n = Suc (nat (n - 1))" by simp
    show ?thesis
      using True 1 s by (subst pad_loop.simps) (auto simp: n intro!: Option.bind_cong)
  qed (subst pad_loop.simps, simp add: s)
qed


lemma width_loop_emit:
  "- (2 ^ 31) + 1 < w \<Longrightarrow> w < 2 ^ 31 \<Longrightarrow> width_loop e w b =
   emit e (replicate (nat (w - 1)) CHR '' '') b \<bind> (\<lambda>b. Some (b, (if 0 < w then 0 else w - 1)))"
proof (induction e w b rule: width_loop.induct)
  case (1 e w b)
  have s: "cint (w - 1) = Some (w - 1)" using 1(2,3) by (simp add: cint_def)
  show ?case
  proof (cases "0 < w - 1")
    case True
    then have n: "nat (w - 1) = Suc (nat (w - 1 - 1))" by simp
    show ?thesis
      using True 1 s by (subst width_loop.simps) (auto simp: n intro!: Option.bind_cong)
  next
    case False
    then show ?thesis by (subst width_loop.simps) (auto simp: s)
  qed
qed

lemma len_loop_emit:
  "0 \<le> len \<Longrightarrow> - (2 ^ 31) < w \<Longrightarrow> w < 2 ^ 31 \<Longrightarrow> len_loop e len w b =
   emit e (replicate (nat (w - len)) CHR '' '') b \<bind> (\<lambda>b. Some (b, (if len < w then len - 1 else w - 1)))"
proof (induction e len w b rule: len_loop.induct)
  case (1 e len w b)
  have s: "cint (w - 1) = Some (w - 1)" using 1(3,4) by (simp add: cint_def)
  show ?case
  proof (cases "len < w")
    case True
    then have n: "nat (w - len) = Suc (nat (w - 1 - len))" by simp
    show ?thesis
      using True 1 s by (subst len_loop.simps) (auto simp: n intro!: Option.bind_cong)
  qed (subst len_loop.simps, simp add: s)
qed

subsection \<open>The text of a number\<close>

lemma has_bits:
  "has t ZEROPAD \<longleftrightarrow> bit t 0" "has t SIGN \<longleftrightarrow> bit t 1" "has t PLUS \<longleftrightarrow> bit t 2" "has t SPACE \<longleftrightarrow> bit t 3"
  "has t LEFT \<longleftrightarrow> bit t 4" "has t SPECIAL \<longleftrightarrow> bit t 5" "has t LARGE \<longleftrightarrow> bit t 6"
  using and_exp_eq_0_iff_not_bit[of t 0] and_exp_eq_0_iff_not_bit[of t 1] and_exp_eq_0_iff_not_bit[of t 2]
    and_exp_eq_0_iff_not_bit[of t 3] and_exp_eq_0_iff_not_bit[of t 4] and_exp_eq_0_iff_not_bit[of t 5]
    and_exp_eq_0_iff_not_bit[of t 6]
  by (simp_all add: has_def)

lemma has_or: "has t (f OR g) \<longleftrightarrow> has t f \<or> has t g"
  by (auto simp: has_def bit_eq_iff bit_simps)

lemma has_or_left: "has (t OR f) g \<longleftrightarrow> has t g \<or> has f g"
  by (auto simp: has_def bit_eq_iff bit_simps)

lemma has_clear [simp]:
  "\<not> has (t AND NOT ZEROPAD) ZEROPAD" "has (t AND NOT ZEROPAD) SIGN = has t SIGN"
  "has (t AND NOT ZEROPAD) PLUS = has t PLUS" "has (t AND NOT ZEROPAD) SPACE = has t SPACE"
  "has (t AND NOT ZEROPAD) LEFT = has t LEFT" "has (t AND NOT ZEROPAD) SPECIAL = has t SPECIAL"
  "has (t AND NOT ZEROPAD) LARGE = has t LARGE"
  unfolding has_bits by (simp_all add: bit_and_iff bit_not_iff bit_1_iff)

lemma not_zeropad: "NOT ZEROPAD = - 2"
  by simp

lemmas has_clear_minus [simp] = has_clear [unfolded not_zeropad]

text \<open>The digits of a number, the most significant one first.\<close>

fun digits_text :: "string \<Rightarrow> nat \<Rightarrow> nat \<Rightarrow> string" where
  "digits_text tab base n =
     (if base < 2 \<or> n < base then [tab ! n] else digits_text tab base (n div base) @ [tab ! (n mod base)])"

declare digits_text.simps [simp del]

lemma collect_digits_text:
  "num \<noteq> 0 \<Longrightarrow> 2 \<le> unat base \<Longrightarrow> unat base \<le> length tab \<Longrightarrow> unat num < 2 ^ k \<Longrightarrow> length tmp + k \<le> 32 \<Longrightarrow>
   collect_digits tab base num tmp = Some (tmp @ rev (digits_text tab (unat base) (unat num)))"
proof (induction tab base num tmp arbitrary: k rule: collect_digits.induct)
  case (1 tab base num tmp)
  let ?n = "unat num" and ?b = "unat base"
  have d: "unat (num mod base) = ?n mod ?b" "unat (num div base) = ?n div ?b" by (simp_all add: unat_mod unat_div)
  have "0 < ?n" using 1(2) by (simp add: unat_gt_0)
  then have "k \<noteq> 0" using 1(5) by (cases k) auto
  then obtain j where j: "k = Suc j" by (cases k) auto
  have "?n mod ?b < ?b" using 1(3) by (intro mod_less_divisor) linarith
  then have r: "?n mod ?b < length tab" using 1(4) by linarith
  have "?n div ?b \<le> ?n div 2" using 1(3) by (simp add: div_le_mono2)
  then have lt: "?n div ?b < 2 ^ j" using 1(5) j by auto
  show ?case
  proof (cases "num div base = 0")
    case True
    then have "?n div ?b = 0" using d by (metis unsigned_0)
    then have "?n < ?b" using 1(3) by (auto simp: div_eq_0_iff)
    with True r j 1(2,3,6) d show ?thesis
      by (subst collect_digits.simps, subst digits_text.simps) (simp add: divide_def collect_digits.simps)
  next
    case False
    then have ge: "\<not> ?n < ?b" using d by (metis div_less unsigned_eq_0_iff)
    have "collect_digits tab base (num div base) (tmp @ [tab ! (?n mod ?b)]) =
        Some ((tmp @ [tab ! (?n mod ?b)]) @ rev (digits_text tab ?b (?n div ?b)))"
      using 1(1)[of "(num mod base, num div base)" "num mod base" "num div base" j] False 1 d r lt j
      by (simp add: divide_def)
    with ge r j 1(2,3,6) d show ?thesis
      by (subst collect_digits.simps, subst digits_text.simps) (simp add: divide_def)
  qed
qed

definition digits_of :: "u8 \<Rightarrow> u32 \<Rightarrow> u32 \<Rightarrow> string" where
  "digits_of type base n = digits_text (if has type LARGE then large_digits else small_digits) (unat base) (unat n)"

definition prefix_text :: "u8 \<Rightarrow> u32 \<Rightarrow> string" where
  "prefix_text type base =
     (if has type SPECIAL
      then (if base = 2 then ''0b'' else if base = 8 then ''0''
            else if base = 16 then (if has type LARGE then ''0X'' else ''0x'') else '''')
      else '''')"

text \<open>Sign and prefix, then zeros up to the precision, then the digits. What is missing to the width are spaces
  behind on the left side, zeros between, or spaces in front.\<close>

definition number_text :: "u32 \<Rightarrow> u32 \<Rightarrow> char option \<Rightarrow> int \<Rightarrow> int \<Rightarrow> u8 \<Rightarrow> string" where
  "number_text num base q width prec type =
     (let (sign, n) = get_sign type q num;
          digits = digits_of type base n;
          front = (case sign of None \<Rightarrow> [] | Some g \<Rightarrow> [g]) @ prefix_text type base;
          body = replicate (nat prec - length digits) CHR ''0'' @ (if prec = 0 then [] else digits);
          fill = nat (width - int (length front + max (length digits) (nat prec)))
      in if has type LEFT then front @ body @ replicate fill CHR '' ''
         else if has type ZEROPAD then front @ replicate fill CHR ''0'' @ body
         else replicate fill CHR '' '' @ front @ body)"

lemma put_prefix_emit: "put_prefix e type base b = emit e (prefix_text type base) b"
  by (auto simp: put_prefix_def prefix_text_def intro!: Option.bind_cong)

lemma put_prefix_clear: "put_prefix e (type AND NOT ZEROPAD) base = put_prefix e type base"
  unfolding put_prefix_def has_clear ..

lemma get_sign_clear: "get_sign (type AND NOT ZEROPAD) q n = get_sign type q n"
  unfolding get_sign_def has_clear ..

lemma special_size_prefix:
  "- (2 ^ 31) + 2 < s \<Longrightarrow> s < 2 ^ 31 \<Longrightarrow> special_size type base s = Some (s - int (length (prefix_text type base)))"
  by (auto simp: special_size_def prefix_text_def cint_def)

lemma digits_text_length:
  "2 \<le> base \<Longrightarrow> n < 2 ^ k \<Longrightarrow> 0 < k \<Longrightarrow> length (digits_text tab base n) \<le> k"
proof (induction tab base n arbitrary: k rule: digits_text.induct)
  case (1 tab base n)
  show ?case
  proof (cases "n < base")
    case True
    with 1 show ?thesis by (subst digits_text.simps) simp
  next
    case False
    then have "2 \<le> n" using 1(2) by simp
    then obtain j where j: "k = Suc j" "0 < j" using 1(3,4) by (cases k; cases "k - 1") auto
    have "n div base \<le> n div 2" using 1(2) by (simp add: div_le_mono2)
    then have "n div base < 2 ^ j" using 1(3) j by auto
    with False 1 j show ?thesis by (subst digits_text.simps) (simp add: not_less)
  qed
qed

lemma digits_text_0: "2 \<le> base \<Longrightarrow> digits_text tab base 0 = [tab ! 0]"
  by (subst digits_text.simps) simp

definition good_base :: "u32 \<Rightarrow> bool" where
  "good_base base \<longleftrightarrow> base = 2 \<or> base = 8 \<or> base = 10 \<or> base = 16"

lemma good_base_bounds:
  assumes "good_base base" shows "2 \<le> unat base" "unat base \<le> 16"
  using assms by (auto simp: good_base_def)

lemma collect_number:
  assumes "good_base base"
  shows "(if n = 0 then Some ''0'' else collect_digits (if has type LARGE then large_digits else small_digits) base n [])
    = Some (rev (digits_of type base n))"
proof (cases "n = 0")
  case True
  then show ?thesis by (simp add: digits_of_def digits_text_0 good_base_bounds[OF assms] large_digits_def small_digits_def)
next
  case False
  note b = good_base_bounds[OF assms]
  have "unat n < 2 ^ 32" by (rule unat_less_2p32)
  with collect_digits_text[OF False b(1), where k = 32 and tmp = "[]"] False b(2) show ?thesis
    by (simp add: digits_of_def large_digits_def small_digits_def)
qed

lemma digits_of_length:
  assumes "good_base base"
  shows "0 < length (digits_of type base n)" "length (digits_of type base n) \<le> 32"
proof -
  show "0 < length (digits_of type base n)"
    by (simp only: digits_of_def, subst digits_text.simps) simp
  show "length (digits_of type base n) \<le> 32"
    unfolding digits_of_def
    by (rule digits_text_length[OF good_base_bounds(1)[OF assms] unat_less_2p32]) simp
qed

lemma digits_of_clear: "digits_of (type AND NOT ZEROPAD) base n = digits_of type base n"
  unfolding digits_of_def has_clear ..

lemma number_tail:
  fixes sz :: int and sign :: "char option"
  assumes "- (2 ^ 30) < sz" "sz < 2 ^ 30"
  defines "sg \<equiv> (case sign of None \<Rightarrow> [] | Some g \<Rightarrow> [g])"
  shows "do { (b, sz) \<leftarrow> (if \<not> (zero \<or> left)
          then pad_loop e CHR '' '' (if sign \<noteq> None \<and> 0 < sz then sz - 1 else sz) b else Some (b, sz));
        (b, sz) \<leftarrow> (case sign of Some g \<Rightarrow> do { b \<leftarrow> put e g b; sz \<leftarrow> cint (sz - 1); Some (b, sz) }
          | None \<Rightarrow> Some (b, sz));
        b \<leftarrow> emit e pre b;
        (b, sz) \<leftarrow> (if \<not> left then pad_loop e c sz b else Some (b, sz));
        b \<leftarrow> emit e zs b;
        b \<leftarrow> emit e ds b;
        (b, sz) \<leftarrow> pad_loop e CHR '' '' sz b;
        Some b } =
    emit e (if left then sg @ pre @ zs @ ds @ replicate (nat (sz - int (length sg))) CHR '' ''
            else if zero then sg @ pre @ replicate (nat (sz - int (length sg))) c @ zs @ ds
            else replicate (nat (sz - int (length sg))) CHR '' '' @ sg @ pre @ zs @ ds) b"
proof (cases sign)
  case None
  with assms(1,2) show ?thesis
    by (auto simp: sg_def pad_loop_emit emit_append_fun emit_Cons_fun Option.bind_assoc cint_def)
next
  case (Some g)
  with assms(1,2) show ?thesis
    by (auto simp: sg_def pad_loop_emit emit_append_fun emit_Cons_fun Option.bind_assoc cint_def)
qed

lemma left_clear:
  fixes type :: u8 and l :: bool
  defines "t \<equiv> (if l then type AND NOT ZEROPAD else type)"
  shows "get_sign t q n = get_sign type q n" "put_prefix e t base = put_prefix e type base"
    "special_size t base s = special_size type base s" "has t LEFT = has type LEFT"
  by (cases l; simp only: t_def if_True if_False get_sign_clear put_prefix_clear has_clear special_size_def)+

lemma zeropad_or_left:
  "has (if has type LEFT then type AND NOT ZEROPAD else type) (ZEROPAD OR LEFT) \<longleftrightarrow> has type ZEROPAD \<or> has type LEFT"
  unfolding has_or by (simp only: has_clear split: if_split) auto


lemma print_number_emit:
  assumes "good_base base" "- 1 \<le> s" "s < 2 ^ 29" "- 1 \<le> prec" "prec < 2 ^ 29"
  shows "print_number e num base q s prec type b = emit e (number_text num base q s prec type) b"
proof -
  obtain sign n where g: "get_sign type q num = (sign, n)" by fastforce
  define ds where "ds = digits_of type base n"
  define pre where "pre = prefix_text type base"
  define sz where "sz = s - int (length pre) - (if prec < int (length ds) then int (length ds) else prec)"
  have ds: "0 < length ds" "length ds \<le> 32" unfolding ds_def by (rule digits_of_length[OF assms(1)])+
  have pre: "length pre \<le> 2" by (simp add: pre_def prefix_text_def)
  have szb: "- (2 ^ 30) < sz" "sz < 2 ^ 30" using assms ds pre by (auto simp: sz_def)
  let ?t = "if has type LEFT then type AND NOT ZEROPAD else type"
  have tmp: "(if n = 0 then Some ''0'' else collect_digits (if has type LARGE then large_digits else small_digits) base n [])
      = Some (rev ds)"
    unfolding ds_def by (rule collect_number[OF assms(1)])
  have sp: "special_size type base s = Some (s - int (length pre))"
    unfolding pre_def by (subst special_size_prefix) (use assms in \<open>simp_all add: prefix_text_def\<close>)
  have pn: "print_number e num base q s prec type b =
     do { sz \<leftarrow> special_size type base s;
        tmp \<leftarrow> Some (rev ds);
        let i = int (length tmp);
        let pr = (if prec < i then i else prec);
        sz \<leftarrow> cint (sz - pr);
        (b, sz) \<leftarrow> (if \<not> (has type ZEROPAD \<or> has type LEFT)
          then pad_loop e CHR '' '' (if sign \<noteq> None \<and> 0 < sz then sz - 1 else sz) b else Some (b, sz));
        (b, sz) \<leftarrow> (case sign of Some g \<Rightarrow> do { b \<leftarrow> put e g b; sz \<leftarrow> cint (sz - 1); Some (b, sz) }
          | None \<Rightarrow> Some (b, sz));
        b \<leftarrow> put_prefix e type base b;
        (b, sz) \<leftarrow> (if \<not> has type LEFT
          then pad_loop e (if has ?t ZEROPAD then CHR ''0'' else CHR '' '') sz b else Some (b, sz));
        b \<leftarrow> zero_loop e i pr b;
        b \<leftarrow> (if prec \<noteq> 0 then digit_loop e tmp (length tmp) b else Some b);
        (b, sz) \<leftarrow> pad_loop e CHR '' '' sz b;
        Some b }"
    unfolding print_number_def Let_def
    by (simp only: left_clear zeropad_or_left g tmp split_conv)
  let ?pr = "if prec < int (length ds) then int (length ds) else prec"
  have zs: "zero_loop e (int (length ds)) ?pr b = emit e (replicate (nat prec - length ds) CHR ''0'') b" for b
    using assms(4) by (auto simp: zero_loop_emit nat_diff_distrib')
  have dl: "(if prec \<noteq> 0 then digit_loop e (rev ds) (length ds) b else Some b) =
      emit e (if prec = 0 then [] else ds) b" for b
    by (simp add: digit_loop_emit)
  have "cint (s - int (length pre) - ?pr) = Some sz" using szb by (simp add: sz_def cint_def)
  then have "print_number e num base q s prec type b = emit e
     (let sg = (case sign of None \<Rightarrow> [] | Some g \<Rightarrow> [g]); n = nat (sz - int (length sg));
          zs = replicate (nat prec - length ds) CHR ''0''; ds = (if prec = 0 then [] else ds) in
      if has type LEFT then sg @ pre @ zs @ ds @ replicate n CHR '' ''
      else if has type ZEROPAD then sg @ pre @ replicate n (if has ?t ZEROPAD then CHR ''0'' else CHR '' '') @ zs @ ds
      else replicate n CHR '' '' @ sg @ pre @ zs @ ds) b"
    unfolding pn Let_def
    by (simp only: sp bind.bind_lunit put_prefix_emit length_rev zs dl pre_def[symmetric] number_tail[OF szb])
  moreover have "int (length front + max (length ds) (nat prec)) = int (length front) + ?pr" for front :: string
    using assms(4) by auto
  ultimately show ?thesis
    unfolding number_text_def Let_def g split_conv ds_def[symmetric] pre_def[symmetric]
    by (simp add: sz_def Let_def diff_diff_eq add.commute add.left_commute)
qed

subsection \<open>The value of a number text\<close>

text \<open>The value of a digit, of either case, and of a text of digits.\<close>

definition digit_value :: "char \<Rightarrow> nat" where
  "digit_value c = (let n = of_char c in if n < 58 then n - 48 else if n < 71 then n - 55 else n - 87)"

definition text_value :: "nat \<Rightarrow> string \<Rightarrow> nat" where
  "text_value base cs = foldl (\<lambda>v c. v * base + digit_value c) 0 cs"

lemma digit_value_tables:
  assumes "r < 16"
  shows "digit_value (small_digits ! r) = r" "digit_value (large_digits ! r) = r"
proof -
  have "list_all (\<lambda>r. digit_value (small_digits ! r) = r \<and> digit_value (large_digits ! r) = r) [0..<16]"
    by code_simp
  with assms show "digit_value (small_digits ! r) = r" "digit_value (large_digits ! r) = r"
    by (simp_all add: list_all_iff)
qed

lemma text_value_digits:
  "2 \<le> base \<Longrightarrow> base \<le> 16 \<Longrightarrow> tab = small_digits \<or> tab = large_digits \<Longrightarrow>
   text_value base (digits_text tab base n) = n"
proof (induction tab base n rule: digits_text.induct)
  case (1 tab base n)
  have v: "digit_value (tab ! r) = r" if "r < base" for r
    using digit_value_tables[of r] that 1(3,4) by auto
  show ?case
  proof (cases "n < base")
    case True
    with v show ?thesis by (subst digits_text.simps) (simp add: text_value_def)
  next
    case False
    have "n mod base < base" using 1(2) by (intro mod_less_divisor) linarith
    with False 1 v show ?thesis by (subst digits_text.simps) (simp add: text_value_def)
  qed
qed

text \<open>There is no leading zero.\<close>

lemma digits_text_canonical:
  "2 \<le> base \<Longrightarrow> base \<le> 16 \<Longrightarrow> tab = small_digits \<or> tab = large_digits \<Longrightarrow> 0 < n \<Longrightarrow>
   hd (digits_text tab base n) \<noteq> CHR ''0''"
proof (induction tab base n rule: digits_text.induct)
  case (1 tab base n)
  show ?case
  proof (cases "n < base")
    case True
    then have "digit_value (tab ! n) = n" using digit_value_tables[of n] 1(3,4) by auto
    moreover have "digit_value CHR ''0'' = 0" by code_simp
    ultimately have "tab ! n \<noteq> CHR ''0''" using 1(5) by auto
    with True show ?thesis by (subst digits_text.simps) simp
  next
    case False
    then have "0 < n div base" using 1(2) by (simp add: div_greater_zero_iff)
    moreover have "digits_text tab base (n div base) \<noteq> []" by (subst digits_text.simps) simp
    ultimately show ?thesis using False 1 by (subst digits_text.simps) simp
  qed
qed

section \<open>The text of a format\<close>

text \<open>Widths and precisions of this size keep all sums in range.\<close>

definition fits :: "int \<Rightarrow> bool" where
  "fits w \<longleftrightarrow> - 1 \<le> w \<and> w < 2 ^ 29"

definition justify :: "u8 \<Rightarrow> int \<Rightarrow> string \<Rightarrow> string" where
  "justify fl w t =
     (let fill = replicate (nat (w - int (length t))) CHR '' '' in if has fl LEFT then t @ fill else fill @ t)"

text \<open>A string argument is cut to the field width, if one is given, and to a positive precision.\<close>

definition string_text :: "int \<Rightarrow> int \<Rightarrow> string \<Rightarrow> string" where
  "string_text w p s = (if 0 < p then take (nat p) else id) (if 0 \<le> w then take (nat w) s else s)"

fun number_conversion :: "char \<Rightarrow> (u8 \<times> u32) option" where
  "number_conversion c =
     (if c = CHR ''b'' then Some (0, 2) else if c = CHR ''o'' then Some (0, 8)
      else if c = CHR ''X'' then Some (LARGE, 16) else if c = CHR ''x'' then Some (0, 16)
      else if c = CHR ''d'' \<or> c = CHR ''i'' then Some (SIGN, 10) else if c = CHR ''u'' then Some (0, 10) else None)"

definition conversion_text :: "u8 \<Rightarrow> char option \<Rightarrow> int \<Rightarrow> int \<Rightarrow> char \<Rightarrow> arg list \<Rightarrow> (string \<times> arg list) option" where
  "conversion_text fl q w p c args =
     (if c = CHR ''c'' then do { (a, args) \<leftarrow> arg_word args; Some (justify fl w [char_of (unat (ucast a :: u8))], args) }
      else if c = CHR ''s'' then do { (s, args) \<leftarrow> arg_string args; Some (justify fl w (string_text w p s), args) }
      else if c = CHR ''p''
      then do { (a, args) \<leftarrow> arg_word args;
                Some (if w = - 1 then number_text a 16 q 10 p (fl OR SPECIAL OR ZEROPAD)
                      else number_text a 16 q w p fl, args) }
      else if c = CHR ''%'' then Some (''%'', args)
      else case number_conversion c of
        Some (f, base) \<Rightarrow> do { (n, args) \<leftarrow> fetch_number (fl OR f) q args;
                             Some (number_text n base q w p (fl OR f), args) }
      | None \<Rightarrow> Some ([CHR ''%'', c], args))"

lemma parsed_length:
  assumes "(fl, f1) = parse_flags 0 fmt" "parse_width fl f1 args = Some (w, fl', f2, args1)"
    and "parse_precision f2 args1 = Some (p, f3, args2)" "(q, d # f4) = parse_qualifier f3"
  shows "length f4 < Suc (length fmt)"
proof -
  have "length f1 \<le> length fmt" using parse_flags_length[of 0 fmt] by (simp flip: assms(1))
  moreover have "Suc (length f4) \<le> length f3" using parse_qualifier_length[of f3] by (simp flip: assms(4))
  ultimately show ?thesis
    using parse_width_length[OF assms(2)] parse_precision_length[OF assms(3)] by linarith
qed

function format_text :: "string \<Rightarrow> arg list \<Rightarrow> string option" where
  "format_text [] args = Some []"
| "format_text (c # fmt) args =
     (if c \<noteq> CHR ''%'' then map_option ((#) c) (format_text fmt args)
      else (let (fl, fmt) = parse_flags 0 fmt in
        do { (w, fl, fmt, args) \<leftarrow> parse_width fl fmt args;
             (p, fmt, args) \<leftarrow> parse_precision fmt args;
             let (q, fmt) = parse_qualifier fmt;
             if \<not> (fits w \<and> fits p) then None
             else case fmt of
               [] \<Rightarrow> Some ''%''
             | d # fmt \<Rightarrow> do { (t, args) \<leftarrow> conversion_text fl q w p d args;
                             map_option ((@) t) (format_text fmt args) } }))"
  by pat_completeness auto
termination
  by (relation "measure (\<lambda>(fmt, args). length fmt)") (auto dest: parsed_length)

lemma string_len_min:
  "string_len w k s = (if k \<le> w then min w (k + int (length s)) else k + int (length s))"
  by (induction w k s rule: string_len.induct) auto

lemma convert_char_emit:
  assumes "fits w"
  shows "convert_char e fl w args b =
    arg_word args \<bind> (\<lambda>(a, args'). emit e (justify fl w [char_of (unat (ucast a :: u8))]) b \<bind> (\<lambda>b. Some (b, args')))"
  using assms
  by (cases "arg_word args")
    (auto simp: convert_char_def width_loop_emit fits_def justify_def emit_append_fun emit_Cons_fun Option.bind_assoc)

lemma convert_string_emit:
  assumes "fits w" "fits p"
  shows "convert_string e fl w p args b =
    arg_string args \<bind> (\<lambda>(s, args'). emit e (justify fl w (string_text w p s)) b \<bind> (\<lambda>b. Some (b, args')))"
proof (cases "arg_string args")
  case (Some r)
  obtain s args' where r: "r = (s, args')" by (cases r)
  let ?len = "string_len w 0 s"
  define len where "len = (if 0 < p \<and> p < ?len then p else ?len)"
  have t: "take (nat len) s = string_text w p s" "len = int (length (string_text w p s))"
    using assms by (auto simp: len_def string_len_min string_text_def fits_def min_def nat_le_eq_zle not_less)
  have "0 \<le> len" using t(2) by simp
  then show ?thesis
    using assms Some r
    by (auto simp: convert_string_def Let_def len_def[symmetric] t(1) len_loop_emit fits_def justify_def
        put_string_emit emit_append_fun Option.bind_assoc simp flip: t(2))
qed (simp add: convert_string_def)

lemma convert_number_branch:
  assumes "number_conversion c = Some (f, base)"
  shows "convert e fl q w p (c # fmt) args b =
      convert_number e (fl OR f) base q w p args b \<bind> (\<lambda>(b, args). Some (b, fmt, args))"
    and "good_base base" "c \<noteq> CHR ''c''" "c \<noteq> CHR ''s''" "c \<noteq> CHR ''p''" "c \<noteq> CHR ''%''"
  using assms by (auto simp: convert_def good_base_def split: if_splits)

lemma convert_other_branch:
  assumes "number_conversion c = None" "c \<noteq> CHR ''c''" "c \<noteq> CHR ''s''" "c \<noteq> CHR ''p''" "c \<noteq> CHR ''%''"
  shows "convert e fl q w p (c # fmt) args b = emit e [CHR ''%'', c] b \<bind> (\<lambda>b. Some (b, fmt, args))"
  using assms by (auto simp: convert_def Option.bind_assoc split: if_splits)

lemma convert_emit:
  assumes "fits w" "fits p" "conversion_text fl q w p c args = Some (t, args')"
  shows "convert e fl q w p (c # fmt) args b = emit e t b \<bind> (\<lambda>b. Some (b, fmt, args'))"
proof -
  have pn: "print_number e n base q w' p fl' b = emit e (number_text n base q w' p fl') b"
    if "good_base base" "w' = w \<or> w' = 10" for n base w' fl' b
    using assms that by (intro print_number_emit) (auto simp: fits_def)
  have cn: "convert_number e fl' base q w p args b =
      fetch_number fl' q args \<bind> (\<lambda>(n, args'). emit e (number_text n base q w p fl') b \<bind> (\<lambda>b. Some (b, args')))"
    if "good_base base" for base fl' b
    using that by (cases "fetch_number fl' q args") (auto simp: convert_number_def pn)
  have zero: "fl OR 0 = fl" by simp
  have num: "fetch_number (fl OR f) q args \<bind> (\<lambda>(n, args). Some (number_text n base q w p (fl OR f), args)) = Some (t, args')
      \<Longrightarrow> good_base base \<Longrightarrow> convert_number e (fl OR f) base q w p args b = emit e t b \<bind> (\<lambda>b. Some (b, args'))"
    for f base b
    by (cases "fetch_number (fl OR f) q args") (auto simp: cn)
  consider "c = CHR ''c''" | "c = CHR ''s''" | "c = CHR ''p''" | "c = CHR ''%''"
    | f base where "number_conversion c = Some (f, base)"
    | "number_conversion c = None" "c \<noteq> CHR ''c''" "c \<noteq> CHR ''s''" "c \<noteq> CHR ''p''" "c \<noteq> CHR ''%''"
    by (cases "number_conversion c") auto
  then show ?thesis
  proof cases
    case 1
    with assms(1,3) show ?thesis
      by (cases "arg_word args") (auto simp: convert_def conversion_text_def convert_char_emit Option.bind_assoc)
  next
    case 2
    with assms show ?thesis
      by (cases "arg_string args") (auto simp: convert_def conversion_text_def convert_string_emit Option.bind_assoc)
  next
    case 3
    have "good_base 16" by (simp add: good_base_def)
    with 3 assms(3) show ?thesis
      by (cases "arg_word args")
        (auto simp: convert_def conversion_text_def convert_pointer_def pn Option.bind_assoc split: if_splits)
  next
    case 4
    with assms(3) show ?thesis by (auto simp: convert_def conversion_text_def emit_Cons_fun Option.bind_assoc)
  next
    case (5 f base)
    note c = convert_number_branch[OF 5]
    have "fetch_number (fl OR f) q args \<bind> (\<lambda>(n, args). Some (number_text n base q w p (fl OR f), args)) = Some (t, args')"
      using assms(3) c(3-6) 5 by (simp add: conversion_text_def)
    from num[OF this c(2)] show ?thesis by (simp add: c(1) Option.bind_assoc)
  next
    case 6
    with assms(3) show ?thesis by (simp add: convert_other_branch[OF 6] conversion_text_def)
  qed
qed

lemma format_loop_emit:
  "format_text fmt args = Some t \<Longrightarrow> format_loop e fmt args b = emit e t b"
proof (induction "length fmt" arbitrary: fmt args t b rule: less_induct)
  case less
  show ?case
  proof (cases fmt)
    case Nil
    with less(2) show ?thesis by simp
  next
    case (Cons c f0)
    note less = less [unfolded Cons]
    show ?thesis
    proof (cases "c = CHR ''%''")
      case False
      with less(2) obtain t' where t': "format_text f0 args = Some t'" "t = c # t'" by auto
      then have "format_loop e f0 args = emit e t'" using less(1)[of f0 args t'] by (intro ext) simp
      with False t' Cons show ?thesis by simp
    next
      case True
      obtain fl f1 where f1: "parse_flags 0 f0 = (fl, f1)" by fastforce
      from less(2) True f1 obtain w fl' f2 args1 p f3 args2 where
        w: "parse_width fl f1 args = Some (w, fl', f2, args1)" "parse_precision f2 args1 = Some (p, f3, args2)"
        by (auto simp: bind_eq_Some_conv)
      obtain q f4 where q: "parse_qualifier f3 = (q, f4)" by fastforce
      have f: "fits w" "fits p" using less(2) True f1 w q by (auto split: if_splits)
      show ?thesis
      proof (cases f4)
        case Nil
        with less(2) True f1 w q f Cons show ?thesis
          by (auto simp: convert_def emit_Cons_fun Option.bind_assoc)
      next
        case f4: (Cons d f5)
        with less(2) True f1 w q f obtain u args3 t' where
          u: "conversion_text fl' q w p d args2 = Some (u, args3)" "format_text f5 args3 = Some t'" "t = u @ t'"
          by (auto simp: bind_eq_Some_conv)
        have "length f5 < Suc (length f0)" using parsed_length[OF f1[symmetric] w] q f4 by simp
        then have "format_loop e f5 args3 = emit e t'" using less(1)[of f5 args3 t'] u(2) by (intro ext) simp
        with True f1 w q u(3) f4 Cons convert_emit[OF f u(1)] show ?thesis
          by (simp add: Option.bind_assoc emit_append_fun)
      qed
    qed
  qed
qed

lemma write_at_one: "write_at m a [x] = m(a \<mapsto> x)"
  by (simp add: write_at_Cons del: fun_upd_apply)

lemma write_at_overwrite:
  "Suc (length xs) < 2 ^ 32 \<Longrightarrow> (write_at m a (xs @ [x]))(a + of_nat (length xs) \<mapsto> z) = write_at m a (xs @ [z])"
  using write_at_append[of xs "[x]" m a] write_at_append[of xs "[z]" m a]
  by (simp add: write_at_one del: fun_upd_apply)

text \<open>A text that starts at \<open>s\<close> is cut at \<open>e\<close>.\<close>

lemma emit_write:
  "unat s + length xs < 2 ^ 32 \<Longrightarrow> mapped m s (min (unat e - unat s) (length xs)) \<Longrightarrow>
   emit e xs (m, s) = Some (write_at m s (map of_char (take (unat e - unat s) xs)), s + of_nat (length xs))"
proof (induction xs arbitrary: m s)
  case (Cons x xs)
  have s1: "unat (s + 1) = unat s + 1" using Cons.prems(1) by (subst unat_add_lem[THEN iffD1]) simp_all
  show ?case
  proof (cases "s < e")
    case True
    then obtain k where k: "unat e - unat s = Suc k" "unat e - unat (s + 1) = k"
      using s1 by (cases "unat e - unat s") (auto simp: word_less_nat_alt)
    have md: "m s \<noteq> None" "mapped m (s + 1) (min k (length xs))"
      using Cons.prems(2) k(1) by (auto simp: mapped_Suc)
    have "length (map of_char (take k xs) :: u8 list) < 2 ^ 32" using Cons.prems(1) by simp
    note w = write_at_Cons[OF this]
    have "emit e xs (m(s \<mapsto> of_char x), s + 1) =
        Some (write_at (m(s \<mapsto> of_char x)) (s + 1) (map of_char (take k xs)), s + 1 + of_nat (length xs))"
      using Cons.IH[of "s + 1" "m(s \<mapsto> of_char x)"] Cons.prems(1) s1 mapped_upd[OF md(2)] k(2)
      by (simp del: fun_upd_apply)
    with True md(1) k(1) show ?thesis by (simp add: put.simps w add.assoc del: fun_upd_apply)
  next
    case False
    then have "unat e - unat s = 0" "unat e - unat (s + 1) = 0" using s1 by (auto simp: word_less_nat_alt)
    with False Cons s1 show ?thesis by (simp add: put.simps add.assoc)
  qed
qed simp

definition room :: "u32 \<Rightarrow> u32 \<Rightarrow> nat" where
  "room buf sz = min (unat sz) (2 ^ 32 - 1 - unat buf)"

lemma vsnprintf_end:
  fixes buf sz :: u32
  obtains e n where "(if buf + sz < buf then (- 1, - 1 - buf) else (buf + sz, sz)) = (e, n)"
    "unat n = room buf sz" "unat e - unat buf = room buf sz" "unat e = unat buf + room buf sz" "e = buf + n"
proof (cases "unat buf + unat sz < 2 ^ 32")
  case True
  then have s: "unat (buf + sz) = unat buf + unat sz" by (subst unat_add_lem[THEN iffD1]) simp_all
  then have "\<not> buf + sz < buf" by (simp add: word_less_nat_alt)
  moreover have "room buf sz = unat sz" using True by (simp add: room_def)
  ultimately show ?thesis using that[of "buf + sz" sz] s by simp
next
  case False
  then have s: "unat (buf + sz) = unat buf + unat sz - 2 ^ 32"
    by (simp add: unat_plus_if_size word_size)
  moreover have lt: "unat sz < 2 ^ 32" "unat buf < 2 ^ 32" by (rule unat_less_2p32)+
  ultimately have "buf + sz < buf" using False by (simp add: word_less_nat_alt)
  moreover have u: "unat (- 1 - buf) = 2 ^ 32 - 1 - unat buf"
    using unat_sub[of buf "- 1"] by (simp add: unat_max)
  moreover have "room buf sz = 2 ^ 32 - 1 - unat buf" using False lt by (simp add: room_def)
  ultimately show ?thesis using that[of "- 1" "- 1 - buf"] lt by (simp add: unat_max)
qed

lemma rt_vsnprintf_output:
  assumes "format_text fmt args = Some t" "length t < 2 ^ 31" "unat buf + length t < 2 ^ 32"
    and "mapped m buf (min (room buf sz) (Suc (length t)))"
  shows "rt_vsnprintf m buf sz fmt args =
    Some (if room buf sz = 0 then m else write_at m buf (map of_char (take (room buf sz - 1) t) @ [0]), int (length t))"
proof -
  obtain e n where e: "(if buf + sz < buf then (- 1, - 1 - buf) else (buf + sz, sz)) = (e, n)"
    "unat n = room buf sz" "unat e - unat buf = room buf sz" "unat e = unat buf + room buf sz" "e = buf + n"
    by (rule vsnprintf_end)
  let ?r = "room buf sz" and ?s = "buf + of_nat (length t)"
  let ?m = "write_at m buf (map of_char (take ?r t))"
  have mm: "mapped m buf (min ?r (length t))" using assms(4) by (rule mapped_mono) simp
  have fl: "format_loop e fmt args (m, buf) = Some (?m, ?s)"
    using format_loop_emit[OF assms(1), of e "(m, buf)"] emit_write[OF assms(3), of m e] mm e(3) by simp
  have ret: "sint (?s - buf) = int (length t)"
  proof -
    have "- (2 ^ 31) \<le> int (length t)" "int (length t) < 2 ^ 31" using assms(2) by simp_all
    then have "signed_take_bit 31 (int (length t)) = int (length t)" by (intro signed_take_bit_int_eq_self) simp_all
    moreover have "sint (word_of_int j :: u32) = signed_take_bit 31 j" for j by (simp add: signed_of_int)
    from this[of "int (length t)"] have "sint (of_nat (length t) :: u32) = signed_take_bit 31 (int (length t))" by simp
    ultimately show ?thesis by simp
  qed
  have step: "rt_vsnprintf m buf sz fmt args =
      (if 0 < n then (if ?s < e then st ?m ?s 0 else st ?m (e - 1) 0) else Some ?m) \<bind> (\<lambda>m. Some (m, int (length t)))"
    unfolding rt_vsnprintf_def Let_def e(1) split_conv fl bind.bind_lunit ret ..
  have n0: "0 < n \<longleftrightarrow> ?r \<noteq> 0" unfolding e(2)[symmetric] word_gt_0 unat_eq_0 by blast
  consider "?r = 0" | "length t < ?r" | "0 < ?r" "?r \<le> length t" by linarith
  then show ?thesis
  proof cases
    case 1
    then show ?thesis using step n0 by simp
  next
    case 2
    have "unat ?s = unat buf + length t" by (rule unat_plus_of_nat[OF assms(3)])
    then have "?s < e" using 2 e(4) by (simp add: word_less_nat_alt)
    moreover have "?m ?s \<noteq> None"
      using mapped_write_at[OF assms(4), of buf "map of_char (take ?r t)"] 2 by (simp add: mapped_def min_def)
    moreover have "?m(?s \<mapsto> 0) = write_at m buf (map of_char t @ [0])"
      using 2 assms(2) write_at_append[of "map of_char t" "[0 :: u8]" m buf] by (simp add: write_at_one del: fun_upd_apply)
    ultimately show ?thesis using step n0 2 by (simp del: fun_upd_apply)
  next
    case 3
    then obtain j where j: "?r = Suc j" "j < length t" by (cases ?r) auto
    have "unat ?s = unat buf + length t" by (rule unat_plus_of_nat[OF assms(3)])
    then have "\<not> ?s < e" using 3 e(4) by (simp add: word_less_nat_alt)
    moreover have "e - 1 = buf + of_nat j"
    proof -
      have "n = of_nat (unat n)" by simp
      then have "n = of_nat (Suc j)" by (simp only: e(2) j(1))
      then show ?thesis using e(5) by simp
    qed
    moreover have "?m (buf + of_nat j) \<noteq> None"
      using mapped_write_at[OF assms(4), of buf "map of_char (take ?r t)"] 3 j by (simp add: mapped_def min_def)
    moreover have "?m(buf + of_nat j \<mapsto> 0) = write_at m buf (map of_char (take j t) @ [0])"
    proof -
      have "map of_char (take ?r t) = map of_char (take j t) @ [of_char (t ! j) :: u8]"
        using j by (simp add: take_Suc_conv_app_nth)
      moreover have "length (map of_char (take j t) :: u8 list) = j" using j(2) by simp
      moreover have "Suc j < 2 ^ 32" using j(2) assms(2) by simp
      ultimately show ?thesis
        using write_at_overwrite[of "map of_char (take j t)" m buf "of_char (t ! j)" 0] by (simp only:)
    qed
    ultimately show ?thesis using step n0 3 j(1) by (simp del: fun_upd_apply)
  qed
qed


subsection \<open>Numbers read back\<close>

fun read_number :: "nat \<Rightarrow> string \<Rightarrow> int" where
  "read_number base [] = 0"
| "read_number base (c # cs) =
     (if c = CHR ''-'' then - int (text_value base cs) else int (text_value base (c # cs)))"

lemma digits_text_set:
  "2 \<le> base \<Longrightarrow> base \<le> length tab \<Longrightarrow> set (digits_text tab base n) \<subseteq> set tab"
proof (induction tab base n rule: digits_text.induct)
  case (1 tab base n)
  have "n mod base < base" using 1(2) by (intro mod_less_divisor) linarith
  with 1(3) have "n mod base < length tab" "n < base \<Longrightarrow> n < length tab" by linarith+
  with 1 show ?case by (subst digits_text.simps) (auto intro!: nth_mem)
qed

lemma digits_text_ne: "digits_text tab base n \<noteq> []"
  by (subst digits_text.simps) simp

lemma digits_of_facts:
  assumes "good_base base"
  shows "text_value (unat base) (digits_of type base n) = unat n"
    and "read_number (unat base) (digits_of type base n) = uint n"
    and "n \<noteq> 0 \<Longrightarrow> hd (digits_of type base n) \<noteq> CHR ''0''"
proof -
  let ?tab = "if has type LARGE then large_digits else small_digits"
  note b = good_base_bounds[OF assms]
  have len: "unat base \<le> length ?tab" using b(2) by (simp add: small_digits_def large_digits_def)
  show v: "text_value (unat base) (digits_of type base n) = unat n"
    unfolding digits_of_def by (rule text_value_digits[OF b]) auto
  have "set (digits_of type base n) \<subseteq> set ?tab"
    unfolding digits_of_def by (rule digits_text_set[OF b(1) len])
  moreover have "CHR ''-'' \<notin> set ?tab" by (simp add: small_digits_def large_digits_def)
  ultimately obtain c cs where c: "digits_of type base n = c # cs" "c \<noteq> CHR ''-''"
    using digits_text_ne[of ?tab "unat base" "unat n"] by (cases "digits_of type base n") (auto simp: digits_of_def)
  with v show "read_number (unat base) (digits_of type base n) = uint n" by simp
  show "hd (digits_of type base n) \<noteq> CHR ''0''" if "n \<noteq> 0"
    unfolding digits_of_def by (rule digits_text_canonical[OF b]) (use that in \<open>auto simp: unat_gt_0\<close>)
qed

lemma uint_of_range: "0 \<le> k \<Longrightarrow> k < 2 ^ 32 \<Longrightarrow> uint (word_of_int k :: u32) = k"
  "0 \<le> k \<Longrightarrow> k < 2 ^ 16 \<Longrightarrow> uint (word_of_int k :: u16) = k"
  by (simp_all add: unsigned_of_int take_bit_int_eq_self)

lemma uint_of_sint:
  "0 \<le> sint v \<Longrightarrow> uint v = sint v" "sint v < 0 \<Longrightarrow> uint (- v) = - sint v" for v :: u32
proof -
  have r: "- (2 ^ 31) \<le> sint v" "sint v < 2 ^ 31" using sint_ge[of v] sint_lt[of v] by simp_all
  have w: "word_of_int (sint v) = v" "word_of_int (- sint v) = - v" by simp_all
  show "0 \<le> sint v \<Longrightarrow> uint v = sint v" using uint_of_range(1)[of "sint v"] r w by simp
  show "sint v < 0 \<Longrightarrow> uint (- v) = - sint v" using uint_of_range(1)[of "- sint v"] r w by simp
qed

lemma uint_of_sint16:
  "0 \<le> sint v \<Longrightarrow> uint v = sint v" "sint v < 0 \<Longrightarrow> uint (- v) = - sint v" for v :: u16
proof -
  have r: "- (2 ^ 15) \<le> sint v" "sint v < 2 ^ 15" using sint_ge[of v] sint_lt[of v] by simp_all
  have w: "word_of_int (sint v) = v" "word_of_int (- sint v) = - v" by simp_all
  show "0 \<le> sint v \<Longrightarrow> uint v = sint v" using uint_of_range(2)[of "sint v"] r w by simp
  show "sint v < 0 \<Longrightarrow> uint (- v) = - sint v" using uint_of_range(2)[of "- sint v"] r w by simp
qed

lemma number_text_plain:
  assumes "good_base base" "\<not> has type SPECIAL" "\<not> has type LEFT" "\<not> has type ZEROPAD" "get_sign type q num = (sign, n)"
  shows "number_text num base q (- 1) (- 1) type = (case sign of None \<Rightarrow> [] | Some g \<Rightarrow> [g]) @ digits_of type base n"
  using assms by (simp add: number_text_def prefix_text_def)

text \<open>A text is the plain form of a number.\<close>

definition canonical :: "nat \<Rightarrow> int \<Rightarrow> string \<Rightarrow> bool" where
  "canonical base k t \<longleftrightarrow> read_number base t = k \<and> length t \<le> 33 \<and>
     (if 0 < k then hd t \<noteq> CHR ''0'' else if k = 0 then t = ''0'' else hd t = CHR ''-'' \<and> hd (tl t) \<noteq> CHR ''0'')"

lemma canonical_digits:
  assumes "good_base base" shows "canonical (unat base) (uint n) (digits_of type base n)"
proof (cases "n = 0")
  case True
  have "digits_text small_digits (unat base) 0 = ''0''" "digits_text large_digits (unat base) 0 = ''0''"
    by (simp_all add: digits_text_0 good_base_bounds[OF assms] small_digits_def large_digits_def)
  with True digits_of_facts[OF assms, where type = type and n = n] show ?thesis by (simp add: canonical_def digits_of_def)
next
  case False
  then have "0 < uint n" using uint_ge_0[of n] by (simp add: order_less_le uint_0_iff)
  with False digits_of_facts[OF assms, where type = type and n = n] digits_of_length[OF assms, where type = type and n = n]
  show ?thesis by (auto simp: canonical_def)
qed

lemma canonical_neg:
  assumes "good_base base" "n \<noteq> 0"
  shows "canonical (unat base) (- uint n) (CHR ''-'' # digits_of type base n)"
proof -
  have "0 < uint n" using assms(2) uint_ge_0[of n] by (simp add: order_less_le uint_0_iff)
  with assms(2) digits_of_facts[OF assms(1), where type = type and n = n] digits_of_length[OF assms(1), where type = type and n = n]
  show ?thesis by (auto simp: canonical_def)
qed

lemma unsigned_canonical:
  assumes "good_base base" "type = 0 \<or> type = LARGE"
  shows "canonical (unat base) (uint v) (number_text v base q (- 1) (- 1) type)"
proof -
  have "get_sign type q v = (None, v)" "\<not> has type SPECIAL" "\<not> has type LEFT" "\<not> has type ZEROPAD"
    using assms(2) by (auto simp: get_sign_def has_def)
  then show ?thesis using number_text_plain[OF assms(1)] canonical_digits[OF assms(1)] by simp
qed

lemma sign_flags: "\<not> has SIGN SPECIAL" "\<not> has SIGN LEFT" "\<not> has SIGN ZEROPAD" "\<not> has SIGN PLUS" "\<not> has SIGN SPACE"
  "has SIGN SIGN"
  by (simp_all add: has_def)

lemma good_10: "good_base 10" "unat (10 :: u32) = 10"
  by (simp_all add: good_base_def)

lemma signed_canonical:
  assumes "q \<noteq> Some CHR ''h''"
  shows "canonical 10 (sint v) (number_text v 10 q (- 1) (- 1) SIGN)"
proof (cases "sint v < 0")
  case True
  then have "get_sign SIGN q v = (Some CHR ''-'', - v)" using assms by (simp add: get_sign_def sign_flags)
  moreover have "- v \<noteq> 0" using True by auto
  ultimately show ?thesis
    using number_text_plain[OF good_10(1) sign_flags(1-3)] canonical_neg[OF good_10(1), of "- v" SIGN]
      uint_of_sint(2)[OF True] good_10(2) by simp
next
  case False
  then have "get_sign SIGN q v = (None, v)" using assms by (simp add: get_sign_def sign_flags)
  then show ?thesis
    using number_text_plain[OF good_10(1) sign_flags(1-3)] canonical_digits[OF good_10(1), of v SIGN]
      uint_of_sint(1)[of v] False good_10(2) by simp
qed

lemma ucast_of_int: "(ucast (word_of_int k :: u32) :: u16) = word_of_int k"
  by (rule bit_word_eqI) (simp add: bit_simps)

lemma half_casts:
  fixes x :: u16
  shows "(ucast (scast x :: u32) :: u16) = x" "(ucast (- scast x :: u32) :: u16) = - x"
proof -
  have s: "(scast x :: u32) = word_of_int (sint x)" by simp
  show "(ucast (scast x :: u32) :: u16) = x" by (simp only: s ucast_of_int) simp
  have "- (scast x :: u32) = word_of_int (- sint x)" by (simp only: s) simp
  then have "(ucast (- scast x :: u32) :: u16) = word_of_int (- sint x)" by (simp only: ucast_of_int)
  then show "(ucast (- scast x :: u32) :: u16) = - x" by simp
qed

lemma signed_half_canonical:
  fixes x :: u16
  shows "canonical 10 (sint x) (number_text (scast x) 10 (Some CHR ''h'') (- 1) (- 1) SIGN)"
proof (cases "sint x < 0")
  case True
  then have g: "get_sign SIGN (Some CHR ''h'') (scast x) = (Some CHR ''-'', ucast (- x))"
    by (simp add: get_sign_def sign_flags half_casts)
  have u: "uint (ucast (- x) :: u32) = - sint x"
    using uint_of_sint16(2)[OF True] by (simp add: uint_up_ucast is_up)
  then have "(ucast (- x) :: u32) \<noteq> 0" using True by (metis neg_0_less_iff_less less_irrefl unsigned_0)
  with g u show ?thesis
    using number_text_plain[OF good_10(1) sign_flags(1-3)] canonical_neg[OF good_10(1), of "ucast (- x)" SIGN]
      good_10(2) by simp
next
  case False
  then have g: "get_sign SIGN (Some CHR ''h'') (scast x) = (None, scast x)"
    by (simp add: get_sign_def sign_flags half_casts)
  have "uint (scast x :: u32) = sint x"
  proof -
    have "sint x < 2 ^ 15" using sint_lt[of x] by simp
    then have "uint (word_of_int (sint x) :: u32) = sint x" using False by (intro uint_of_range(1)) simp_all
    then show ?thesis by simp
  qed
  with g show ?thesis
    using number_text_plain[OF good_10(1) sign_flags(1-3)] canonical_digits[OF good_10(1), of "scast x" SIGN]
      good_10(2) by simp
qed

text \<open>The formats of plain numbers, and the values they stand for.\<close>

definition number_formats :: "u32 \<Rightarrow> (string \<times> nat \<times> int) set" where
  "number_formats v =
     {(''%d'', 10, sint v), (''%i'', 10, sint v), (''%ld'', 10, sint v), (''%hd'', 10, sint (ucast v :: u16)),
      (''%u'', 10, uint v), (''%hu'', 10, uint (ucast v :: u16)), (''%x'', 16, uint v), (''%X'', 16, uint v),
      (''%o'', 8, uint v), (''%b'', 2, uint v)}"

lemma number_formats_text:
  assumes "(fmt, base, k) \<in> number_formats v"
  shows "\<exists>t. format_text fmt [Word v] = Some t \<and> canonical base k t"
proof -
  have g: "good_base 2" "good_base 8" "good_base 10" "good_base 16" by (simp_all add: good_base_def)
  note p = parse_width_def parse_precision_def parse_qualifier_def starts_digit_def starts_with_def fits_def
    conversion_text_def fetch_number_def is_digit_def has_def Let_def
  have s: "\<exists>t. format_text ''%d'' [Word v] = Some t \<and> canonical 10 (sint v) t"
      "\<exists>t. format_text ''%i'' [Word v] = Some t \<and> canonical 10 (sint v) t"
      "\<exists>t. format_text ''%ld'' [Word v] = Some t \<and> canonical 10 (sint v) t"
    using signed_canonical[of None v] signed_canonical[of "Some CHR ''l''" v] by (simp_all add: p)
  have h: "\<exists>t. format_text ''%hd'' [Word v] = Some t \<and> canonical 10 (sint (ucast v :: u16)) t"
    using signed_half_canonical[of "ucast v"] by (simp add: p)
  have "uint (ucast (ucast v :: u16) :: u32) = uint (ucast v :: u16)" by (simp add: uint_up_ucast is_up)
  then have u: "\<exists>t. format_text ''%u'' [Word v] = Some t \<and> canonical 10 (uint v) t"
      "\<exists>t. format_text ''%hu'' [Word v] = Some t \<and> canonical 10 (uint (ucast v :: u16)) t"
    using unsigned_canonical[OF g(3), of 0 v None]
      unsigned_canonical[OF g(3), of 0 "ucast (ucast v :: u16)" "Some CHR ''h''"] by (simp_all add: p)
  have x: "\<exists>t. format_text ''%x'' [Word v] = Some t \<and> canonical 16 (uint v) t"
      "\<exists>t. format_text ''%X'' [Word v] = Some t \<and> canonical 16 (uint v) t"
      "\<exists>t. format_text ''%o'' [Word v] = Some t \<and> canonical 8 (uint v) t"
      "\<exists>t. format_text ''%b'' [Word v] = Some t \<and> canonical 2 (uint v) t"
    using unsigned_canonical[OF g(4), of 0 v None] unsigned_canonical[OF g(4), of LARGE v None]
      unsigned_canonical[OF g(2), of 0 v None] unsigned_canonical[OF g(1), of 0 v None] by (simp_all add: p)
  from assms show ?thesis
    unfolding number_formats_def insert_iff empty_iff prod.inject
    by (elim disjE conjE; simp only: s h u x)
qed

section \<open>Properties\<close>

text \<open>C17: \<open>rt_vsnprintf\<close> prints the text of the format into the buffer, cut to the size of the buffer less one, with
  a zero byte behind it, and returns the length of the whole text. It changes nothing else, and needs no more
  memory than the part of the buffer it fills, so no text and no size, up to the end of the address space as
  \<open>rt_vsprintf\<close> passes it, makes it write outside the buffer. The text depends on the format and the
  arguments only.\<close>
theorem vsnprintf_stays_in_buffer:
  assumes "format_text fmt args = Some t" "length t < 2 ^ 31" "unat buf + length t < 2 ^ 32"
    and "mapped m buf (min (room buf sz) (Suc (length t)))"
  shows "rt_vsnprintf m buf sz fmt args =
      Some (if room buf sz = 0 then m else write_at m buf (map of_char (take (room buf sz - 1) t) @ [0]), int (length t)) \<and>
    room buf sz \<le> unat sz \<and> (unat buf + unat sz < 2 ^ 32 \<longrightarrow> room buf sz = unat sz)"
  using rt_vsnprintf_output[OF assms] by (simp add: room_def)

theorem vsnprintf_stays_in_buffer_witness:
  "rt_vsnprintf (\<lambda>a. if a = 100 \<or> a = 101 then Some 7 else None) 100 2 ''a%%b'' [] =
    Some (write_at (\<lambda>a. if a = 100 \<or> a = 101 then Some 7 else None) 100 [97, 0], 3)"
proof -
  have t: "format_text ''a%%b'' [] = Some ''a%b''"
    by (simp add: parse_width_def parse_precision_def parse_qualifier_def starts_digit_def starts_with_def
        fits_def conversion_text_def is_digit_def Let_def)
  let ?m = "\<lambda>a :: u32. if a = 100 \<or> a = 101 then Some (7 :: u8) else None"
  have r: "room 100 2 = 2" by (simp add: room_def)
  have "mapped ?m 100 (Suc (Suc 0))" by (simp add: mapped_Suc)
  then have "mapped ?m 100 (min (room 100 2) (Suc (length ''a%b'')))" by (simp add: r numeral_2_eq_2[symmetric])
  from vsnprintf_stays_in_buffer[OF t _ _ this] show ?thesis by (simp add: r)
qed

text \<open>C18: a printed number reads back as the argument: signed and unsigned decimal, of machine words and of
  half words, hexadecimal in both cases, octal and binary. The text has no leading zero, a minus sign only in
  front of a negative number, and 0 prints as one digit; the most negative number is right as well.\<close>
theorem printed_numbers_read_back:
  assumes "mapped m buf 64" "unat buf + 64 < 2 ^ 32" "(fmt, base, k) \<in> number_formats v"
  shows "\<exists>t. rt_vsnprintf m buf 64 fmt [Word v] = Some (write_at m buf (map of_char t @ [0]), int (length t)) \<and>
    read_number base t = k \<and> canonical base k t"
proof -
  obtain t where t: "format_text fmt [Word v] = Some t" "canonical base k t"
    using number_formats_text[OF assms(3)] by blast
  then have len: "length t \<le> 33" by (simp add: canonical_def)
  have r: "room buf 64 = 64" using assms(2) by (simp add: room_def)
  have "mapped m buf (min (room buf 64) (Suc (length t)))" using assms(1) by (rule mapped_mono) (simp add: r)
  from rt_vsnprintf_output[OF t(1) _ _ this] len assms(2)
  have "rt_vsnprintf m buf 64 fmt [Word v] = Some (write_at m buf (map of_char t @ [0]), int (length t))"
    by (simp add: r)
  moreover have "read_number base t = k" using t(2) by (simp add: canonical_def)
  ultimately show ?thesis using t(2) by blast
qed

theorem printed_numbers_read_back_witness:
  "\<exists>t. rt_vsnprintf (\<lambda>_. Some 0) 100 64 ''%d'' [Word 0x80000000] =
    Some (write_at (\<lambda>_. Some 0) 100 (map of_char t @ [0]), int (length t)) \<and> read_number 10 t = - (2 ^ 31)"
  using printed_numbers_read_back[where m = "\<lambda>_. Some 0" and buf = 100 and fmt = "''%d''" and base = 10
      and k = "- (2 ^ 31)" and v = "0x80000000"]
  by (auto simp: mapped_def number_formats_def)


text \<open>The parts of a printed field. A number is its text: sign, prefix, zeros up to the precision and digits,
  filled up to the width with spaces behind, zeros between or spaces in front, whatever the buffer is; it is
  never cut. A string argument takes exactly the width: it is filled up to it, but also cut to it, although a
  width is a minimum in the C standard. With the precision 0 a number loses all its digits, not only a zero.\<close>
theorem printed_fields:
  assumes "good_base base" "fits s" "fits p"
  shows "print_number e num base q s p type b = emit e (number_text num base q s p type) b \<and>
    (p \<noteq> 0 \<longrightarrow> s \<le> int (length (number_text num base q s p type))) \<and>
    (a \<noteq> 0 \<longrightarrow> convert_string e fl s p (Str a cs # args) b =
      emit e (justify fl s (string_text s p cs)) b \<bind> (\<lambda>b. Some (b, args))) \<and>
    (0 \<le> s \<longrightarrow> int (length (justify fl s (string_text s p cs))) = s) \<and>
    number_text num base q (- 1) 0 0 = ''''"
proof -
  have "print_number e num base q s p type b = emit e (number_text num base q s p type) b"
    using assms by (intro print_number_emit) (auto simp: fits_def)
  moreover have "p \<noteq> 0 \<longrightarrow> s \<le> int (length (number_text num base q s p type))"
    using assms(3) by (auto simp: number_text_def Let_def fits_def split: prod.splits)
  moreover have "0 \<le> s \<longrightarrow> int (length (justify fl s (string_text s p cs))) = s"
    by (auto simp: justify_def string_text_def Let_def)
  moreover have "number_text num base q (- 1) 0 0 = ''''"
    by (simp add: number_text_def get_sign_def prefix_text_def has_def)
  ultimately show ?thesis using convert_string_emit[OF assms(2,3)] by simp
qed

theorem printed_fields_witness:
  "print_number 10 5 10 None 3 (- 1) 0 (\<lambda>_. None, 10) = emit 10 (number_text 5 10 None 3 (- 1) 0) (\<lambda>_. None, 10) \<and>
   length (justify 0 3 (string_text 3 (- 1) ''hello'')) = 3"
  using printed_fields[of 10 3 "- 1" 10 5 None 0 "(\<lambda>_. None, 10)" 1 0 "''hello''"] by (simp add: good_base_def fits_def)

text \<open>\<open>rt_kprintf\<close> prints at most 126 characters of a text, whatever the format and the arguments are, inside
  its buffer of 128 bytes, and returns the length it hands to the console. A text that is longer is cut, and its
  terminating zero byte is handed to the console as well.\<close>
theorem kprintf_output:
  assumes "format_text fmt args = Some t" "length t < 2 ^ 31" "unat log_buf + length t < 2 ^ 32"
    and "mapped m log_buf 128" "unat log_buf + 128 < 2 ^ 32"
  shows "rt_kprintf m log_buf fmt args =
    Some (write_at m log_buf (map of_char (take 126 t) @ [0]), of_nat (min (length t) 127),
      map Some (map of_char (take 126 t) @ (if length t \<le> 126 then [] else [0])))"
proof -
  have r: "room log_buf 127 = 127" using assms(5) by (simp add: room_def)
  let ?bs = "map of_char (take 126 t) @ [0 :: u8]" and ?n = "min (length t) 127"
  let ?m = "write_at m log_buf ?bs"
  have "mapped m log_buf (min (room log_buf 127) (Suc (length t)))" using assms(4) by (rule mapped_mono) (simp add: r)
  from rt_vsnprintf_output[OF assms(1-3) this]
  have v: "rt_vsnprintf m log_buf (RT_CONSOLEBUF_SIZE - 1) fmt args = Some (?m, int (length t))" by (simp add: r)
  have u: "unat (of_nat (length t) :: u32) = length t" using unat_plus_of_nat[of 0 "length t"] assms(2) by simp
  have len: "(let l = word_of_int (int (length t)) in if RT_CONSOLEBUF_SIZE - 1 < l then RT_CONSOLEBUF_SIZE - 1 else l)
      = (of_nat ?n :: u32)"
    using u by (auto simp: Let_def min_def word_less_nat_alt)
  have un: "unat (of_nat ?n :: u32) = ?n" using unat_plus_of_nat[of 0 ?n] by simp
  have "map (\<lambda>i. ?m (log_buf + of_nat i)) [0..<?n] = map Some (take ?n ?bs)"
    by (rule map_bytes_at, rule bytes_at_write_at) simp_all
  moreover have "take ?n ?bs = map of_char (take 126 t) @ (if length t \<le> 126 then [] else [0])"
    by (auto simp: min_def)
  ultimately show ?thesis using len by (simp only: rt_kprintf_def v bind.bind_lunit split_conv Let_def un)
qed

theorem kprintf_output_witness:
  "rt_kprintf (\<lambda>_. Some 0) 100 (replicate 127 CHR ''a'') [] =
    Some (write_at (\<lambda>_. Some 0) 100 (replicate 126 97 @ [0]), 127, replicate 126 (Some 97) @ [Some 0])"
proof -
  have "c \<noteq> CHR ''%'' \<Longrightarrow> format_text (replicate n c) [] = Some (replicate n c)" for n c
    by (induction n) simp_all
  then have "format_text (replicate 127 CHR ''a'') [] = Some (replicate 127 CHR ''a'')" by simp
  from kprintf_output[OF this, of 100 "\<lambda>_. Some 0"] show ?thesis by (simp add: mapped_def)
qed

end
