(* ===== verification/Object.thy ===== *)
theory Object
  imports Thread KString
begin

text \<open>
  The object manager, \<open>src/object.c\<close>: every kernel object starts with a structure of 20 bytes (its name of
  \<open>RT_NAME_MAX\<close> = 8 bytes, its type, a flag, and the links of the list of objects of its class), and is
  registered in the list of its class. Names and types are bytes of the memory of ByteMem at the address of the
  object; the lists are lists of addresses (RtList has the pointer code). Hooks are not modelled.
\<close>

section \<open>Data\<close>

record rt_object_information =
  info_type :: u8
  object_list :: "u32 list option"
  object_size :: u32

record objsys =
  omem :: bmem
  container :: "rt_object_information list"
  customs :: "u32 \<Rightarrow> (u32 \<Rightarrow> rt_err_t) option \<times> u32"

abbreviation RT_Object_Class_Null :: u8 where "RT_Object_Class_Null \<equiv> 0"
abbreviation RT_Object_Class_Custom :: u8 where "RT_Object_Class_Custom \<equiv> 0x0e"
abbreviation RT_Object_Class_Static :: u8 where "RT_Object_Class_Static \<equiv> 0x80"

text \<open>\<open>_object_container\<close> as this configuration compiles it: thread, semaphore, mutex, event, mailbox, message
  queue, memory pool, device, timer, memory, and one more entry, the one of custom objects, which has no
  initialiser and is filled with zeros. An entry of zeros has null links, the value None.\<close>

definition object_classes :: "u8 list" where
  "object_classes = [1, 2, 3, 4, 5, 6, 8, 9, 10, 12]"

definition object_container :: "(u8 \<Rightarrow> u32) \<Rightarrow> rt_object_information list" where
  "object_container sizeof =
     map (\<lambda>c. \<lparr>info_type = c, object_list = Some [], object_size = sizeof c\<rparr>) object_classes @
     [\<lparr>info_type = 0, object_list = None, object_size = 0\<rparr>]"

section \<open>Operations\<close>

text \<open>The index of the entry, or None for the null pointer.\<close>

fun info_loop :: "u8 \<Rightarrow> nat \<Rightarrow> rt_object_information list \<Rightarrow> nat option" where
  "info_loop type i [] = None"
| "info_loop type i (e # es) = (if info_type e = type then Some i else info_loop type (Suc i) es)"

definition rt_object_get_information :: "u8 \<Rightarrow> objsys \<Rightarrow> nat option" where
  "rt_object_get_information type s = info_loop type 0 (container s)"

definition objects_at :: "nat \<Rightarrow> objsys \<Rightarrow> u32 list option" where
  "objects_at i s = object_list (container s ! i)"

definition set_objects :: "nat \<Rightarrow> u32 list \<Rightarrow> objsys \<Rightarrow> objsys" where
  "set_objects i xs s = s\<lparr>container := (container s)[i := (container s ! i)\<lparr>object_list := Some xs\<rparr>]\<rparr>"

fun count_loop :: "int \<Rightarrow> u32 list \<Rightarrow> int" where
  "count_loop count [] = count"
| "count_loop count (x # xs) = count_loop (count + 1) xs"

definition rt_object_get_length :: "u8 \<Rightarrow> objsys \<Rightarrow> int option" where
  "rt_object_get_length type s =
     (case rt_object_get_information type s of
        None \<Rightarrow> Some 0
      | Some i \<Rightarrow> do { xs \<leftarrow> objects_at i s; Some (count_loop 0 xs) })"

fun pointers_loop :: "int \<Rightarrow> int \<Rightarrow> u32 list \<Rightarrow> u32 list" where
  "pointers_loop maxlen index [] = []"
| "pointers_loop maxlen index (x # xs) = x # (if maxlen \<le> index + 1 then [] else pointers_loop maxlen (index + 1) xs)"

definition rt_object_get_pointers :: "u8 \<Rightarrow> int \<Rightarrow> objsys \<Rightarrow> u32 list option" where
  "rt_object_get_pointers type maxlen s =
     (if maxlen \<le> 0 then Some []
      else case rt_object_get_information type s of
        None \<Rightarrow> Some []
      | Some i \<Rightarrow> do { xs \<leftarrow> objects_at i s; Some (pointers_loop maxlen 0 xs) })"

definition rt_object_init :: "u32 \<Rightarrow> u8 \<Rightarrow> u32 \<Rightarrow> objsys \<Rightarrow> kernel \<Rightarrow> (objsys \<times> kernel) option" where
  "rt_object_init object type name s k =
     do { let information = rt_object_get_information type s;
          rt_assert (information \<noteq> None);
          let k = rt_enter_critical k;
          xs \<leftarrow> objects_at (the information) s;
          rt_assert (list_all (\<lambda>obj. obj \<noteq> object) xs);
          k \<leftarrow> rt_exit_critical k;
          m \<leftarrow> st (omem s) (object + 8) (type OR RT_Object_Class_Static);
          m \<leftarrow> rt_strncpy m object name 8;
          Some (set_objects (the information) (object # xs) (s\<lparr>omem := m\<rparr>), k) }"

text \<open>\<open>rt_list_remove\<close> unlinks the object from the list it is in.\<close>

definition unlink_object :: "u32 \<Rightarrow> objsys \<Rightarrow> objsys" where
  "unlink_object object s =
     s\<lparr>container := map (\<lambda>e. e\<lparr>object_list := map_option (remove1 object) (object_list e)\<rparr>) (container s)\<rparr>"

definition rt_object_detach :: "u32 \<Rightarrow> objsys \<Rightarrow> objsys option" where
  "rt_object_detach object s =
     do { rt_assert (object \<noteq> 0);
          m \<leftarrow> st (omem s) (object + 8) 0;
          Some (unlink_object object (s\<lparr>omem := m\<rparr>)) }"

text \<open>The memory that the allocation returns is an argument, 0 if it fails.\<close>

definition rt_object_allocate :: "u32 \<Rightarrow> u8 \<Rightarrow> u32 \<Rightarrow> objsys \<Rightarrow> kernel \<Rightarrow> (u32 \<times> objsys) option" where
  "rt_object_allocate object type name s k =
     do { rt_assert (not_in_interrupt k);
          let information = rt_object_get_information type s;
          rt_assert (information \<noteq> None);
          if object = 0 then Some (0, s)
          else do {
            m \<leftarrow> rt_memset (omem s) object 0 (object_size (container s ! the information));
            m \<leftarrow> st m (object + 8) type;
            m \<leftarrow> st m (object + 9) 0;
            m \<leftarrow> rt_strncpy m object name 8;
            xs \<leftarrow> objects_at (the information) s;
            Some (object, set_objects (the information) (object # xs) (s\<lparr>omem := m\<rparr>)) } }"

definition rt_object_delete :: "u32 \<Rightarrow> objsys \<Rightarrow> objsys option" where
  "rt_object_delete object s =
     do { rt_assert (object \<noteq> 0);
          type \<leftarrow> omem s (object + 8);
          rt_assert (type AND RT_Object_Class_Static = 0);
          m \<leftarrow> st (omem s) (object + 8) RT_Object_Class_Null;
          Some (unlink_object object (s\<lparr>omem := m\<rparr>)) }"

definition rt_object_is_systemobject :: "u32 \<Rightarrow> objsys \<Rightarrow> bool option" where
  "rt_object_is_systemobject object s =
     do { rt_assert (object \<noteq> 0); type \<leftarrow> omem s (object + 8); Some (type AND RT_Object_Class_Static \<noteq> 0) }"

definition rt_object_get_type :: "u32 \<Rightarrow> objsys \<Rightarrow> u8 option" where
  "rt_object_get_type object s =
     do { rt_assert (object \<noteq> 0); type \<leftarrow> omem s (object + 8); Some (type AND NOT RT_Object_Class_Static) }"

fun find_loop :: "bmem \<Rightarrow> u32 \<Rightarrow> u32 list \<Rightarrow> u32 option" where
  "find_loop m name [] = Some 0"
| "find_loop m name (object # xs) =
     do { r \<leftarrow> rt_strncmp m object name 8; if r = 0 then Some object else find_loop m name xs }"

definition rt_object_find :: "u32 \<Rightarrow> u8 \<Rightarrow> objsys \<Rightarrow> kernel \<Rightarrow> (u32 \<times> kernel) option" where
  "rt_object_find name type s k =
     (case rt_object_get_information type s of
        None \<Rightarrow> Some (0, k)
      | Some i \<Rightarrow>
          if name = 0 then Some (0, k)
          else do { rt_assert (not_in_interrupt k);
                    let k = rt_enter_critical k;
                    xs \<leftarrow> objects_at i s;
                    object \<leftarrow> find_loop (omem s) name xs;
                    k \<leftarrow> rt_exit_critical k;
                    Some (object, k) })"

definition rt_object_get_name :: "u32 \<Rightarrow> u32 \<Rightarrow> u8 \<Rightarrow> objsys \<Rightarrow> (rt_err_t \<times> objsys) option" where
  "rt_object_get_name object name name_size s =
     (if object \<noteq> 0 \<and> name \<noteq> 0 \<and> name_size \<noteq> 0
      then do { m \<leftarrow> rt_strncpy (omem s) name object (ucast name_size); Some (RT_EOK, s\<lparr>omem := m\<rparr>) }
      else Some (- RT_EINVAL, s))"

text \<open>A custom object has a destructor and its data behind the structure of the object; the destructor is a
  parameter. They are kept by the address of the object.\<close>

definition rt_custom_object_create :: "u32 \<Rightarrow> u32 \<Rightarrow> u32 \<Rightarrow> (u32 \<Rightarrow> rt_err_t) option \<Rightarrow> objsys \<Rightarrow> kernel
    \<Rightarrow> (u32 \<times> objsys) option" where
  "rt_custom_object_create object name data data_destroy s k =
     do { (cobj, s) \<leftarrow> rt_object_allocate object RT_Object_Class_Custom name s k;
          if cobj = 0 then Some (0, s)
          else Some (cobj, s\<lparr>customs := (customs s)(cobj := (data_destroy, data))\<rparr>) }"

definition rt_custom_object_destroy :: "u32 \<Rightarrow> objsys \<Rightarrow> (rt_err_t \<times> objsys) option" where
  "rt_custom_object_destroy obj s =
     (if obj = 0 then Some (- 1, s)
      else do { type \<leftarrow> omem s (obj + 8);
                if type = RT_Object_Class_Custom
                then do { let ret = (case customs s obj of (Some f, data) \<Rightarrow> f data | (None, data) \<Rightarrow> - 1);
                          s \<leftarrow> rt_object_delete obj s; Some (ret, s) }
                else Some (- 1, s) })"

section \<open>Critical sections\<close>

text \<open>The scheduler lock around a search: it lets threads that became ready meanwhile run, if it was not held
  before.\<close>

definition lock_ok :: "kernel \<Rightarrow> bool" where
  "lock_ok k \<longleftrightarrow> 0 \<le> sint (lock_nest k) \<and> cur k \<noteq> None"

lemma critical_pair:
  assumes "sysinv b k" "lock_ok k"
  obtains k' where "rt_exit_critical (rt_enter_critical k) = Some k'" "sysinv b k'" "sched_frame k k'"
    "lock_ok k'"
proof -
  have same: "k\<lparr>lock_nest := lock_nest k\<rparr> = k" by simp
  show ?thesis
  proof (cases "sint (lock_nest k) = 0")
    case True
    then have z: "lock_nest k = 0" using signed_eq_0_iff[of "lock_nest k", where 'a = int] by simp
    obtain c where c: "cur k = Some c" using assms(2) by (auto simp: lock_ok_def)
    have "k\<lparr>lock_nest := 0\<rparr> = k" using z by (metis same)
    then have e: "rt_exit_critical (rt_enter_critical k) = rt_schedule k"
      using z c by (subst (2) \<open>k\<lparr>lock_nest := 0\<rparr> = k\<close>[symmetric]) (simp add: rt_exit_critical_def rt_enter_critical_def Let_def)
    obtain k' where k': "rt_schedule k = Some k'" "sysinv b k'" "sched_frame k k'" "cur k' \<noteq> None"
      using rt_schedule_sys[OF assms(1) c] by (auto simp: ok_iff)
    then have "lock_nest k' = lock_nest k" by (simp add: sched_frame_def rest_def)
    with z k' show ?thesis by (intro that[of k']) (auto simp: e lock_ok_def)
  next
    case False
    with assms(2) have "\<not> sint (lock_nest k) \<le> 0" by (simp add: lock_ok_def)
    then have "rt_exit_critical (rt_enter_critical k) = Some k"
      by (simp add: rt_exit_critical_def rt_enter_critical_def Let_def)
    with assms show ?thesis by (intro that) simp_all
  qed
qed

section \<open>Areas of memory\<close>

text \<open>The bytes \<open>a .. a + n\<close> and \<open>b .. b + k\<close> do not meet.\<close>

definition disjoint :: "u32 \<Rightarrow> nat \<Rightarrow> u32 \<Rightarrow> nat \<Rightarrow> bool" where
  "disjoint a n b k \<longleftrightarrow> n \<le> unat (b - a) \<and> k \<le> unat (a - b)"

lemma disjoint_sym: "disjoint a n b k \<longleftrightarrow> disjoint b k a n"
  by (auto simp: disjoint_def)

lemma disjoint_mono: "disjoint a n b k \<Longrightarrow> n' \<le> n \<Longrightarrow> k' \<le> k \<Longrightarrow> disjoint a n' b k'"
  by (simp add: disjoint_def)

lemma unat_opposite:
  assumes "a \<noteq> b"
  shows "unat (a - b) + unat (b - a :: u32) = 2 ^ LENGTH(32)"
proof -
  let ?u = "unat (a - b)" let ?v = "unat (b - a)"
  have "unat ((a - b) + (b - a)) = (?u + ?v) mod 2 ^ LENGTH(32)" by (rule unat_word_ariths)
  then have "(?u + ?v) mod 2 ^ LENGTH(32) = 0" by simp
  then obtain q where q: "?u + ?v = 2 ^ LENGTH(32) * q" by (auto simp only: mod_eq_0_iff_dvd dvd_def)
  have "0 < ?u" using assms by (simp add: unat_gt_0)
  moreover have "?u < 2 ^ LENGTH(32)" "?v < 2 ^ LENGTH(32)" by (rule unsigned_less)+
  ultimately have "0 < q" "q < 2" using q by (auto intro: ccontr)
  then have "q = 1" by simp
  with q show ?thesis by simp
qed

lemma disjoint_far:
  assumes "disjoint a n b k" "i < k"
  shows "n \<le> unat (b + of_nat i - a)"
proof (cases "a = b")
  case False
  have "unat (b - a) + i < 2 ^ 32"
    using assms unat_opposite[OF False] by (simp add: disjoint_def)
  from unat_plus_of_nat[OF this] have "unat (b + of_nat i - a) = unat (b - a) + i" by (simp add: algebra_simps)
  with assms(1) show ?thesis by (simp add: disjoint_def)
qed (use assms in \<open>simp add: disjoint_def\<close>)

lemma disjoint_neq: "disjoint a n b k \<Longrightarrow> i < n \<Longrightarrow> j < k \<Longrightarrow> n < 2 ^ 32 \<Longrightarrow> b + of_nat j \<noteq> a + of_nat i"
proof
  assume a: "disjoint a n b k" "i < n" "j < k" "n < 2 ^ 32" "b + of_nat j = a + of_nat i"
  from disjoint_far[OF a(1,3)] have "n \<le> unat (of_nat i :: u32)" by (simp add: a(5))
  moreover have "i < 2 ^ LENGTH(32)" using a(2,4) by simp
  then have "unat (of_nat i :: u32) = i" by (simp only: unat_of_nat mod_less)
  ultimately show False using a(2) by simp
qed

lemma mapped_nth: "mapped m a n \<Longrightarrow> i < n \<Longrightarrow> m (a + of_nat i) \<noteq> None"
  unfolding mapped_def by blast

text \<open>A change of the bytes \<open>o .. o + n\<close> only, which keeps memory readable.\<close>

definition changes_only :: "u32 \<Rightarrow> nat \<Rightarrow> bmem \<Rightarrow> bmem \<Rightarrow> bool" where
  "changes_only a n m m' \<longleftrightarrow> (\<forall>b. n \<le> unat (b - a) \<longrightarrow> m' b = m b) \<and> (\<forall>b. m' b = None \<longleftrightarrow> m b = None)"

lemma changes_only_trans: "changes_only a n m m1 \<Longrightarrow> changes_only a n m1 m2 \<Longrightarrow> changes_only a n m m2"
  by (simp add: changes_only_def)

lemma changes_only_write_at:
  assumes "mapped m a (length xs)" "length xs \<le> n" "n \<le> 2 ^ 32"
  shows "changes_only a n m (write_at m a xs)"
proof -
  have "m b \<noteq> None" if "unat (b - a) < length xs" for b
    using assms(1)[unfolded mapped_def, rule_format, OF that] by simp
  with assms(2) show ?thesis by (auto simp: changes_only_def write_at_def)
qed

lemma changes_only_upd:
  assumes "i < n" "n \<le> 2 ^ 32" "m (a + of_nat i) \<noteq> None"
  shows "changes_only a n m (m(a + of_nat i \<mapsto> x))"
proof -
  have "i < 2 ^ LENGTH(32)" using assms by simp
  then have "unat (of_nat i :: u32) = i" by (simp only: unat_of_nat mod_less)
  then have "b \<noteq> a + of_nat i" if "n \<le> unat (b - a)" for b using that assms(1) by auto
  with assms(3) show ?thesis by (auto simp: changes_only_def)
qed

lemma changes_only_far:
  "changes_only a n m m' \<Longrightarrow> disjoint a n b k \<Longrightarrow> i < k \<Longrightarrow> m' (b + of_nat i) = m (b + of_nat i)"
  using disjoint_far by (simp add: changes_only_def)

lemma changes_only_mapped: "changes_only a n m m' \<Longrightarrow> mapped m' b k \<longleftrightarrow> mapped m b k"
  by (simp add: changes_only_def mapped_def)

section \<open>The registry\<close>

text \<open>The name of an object: its bytes up to the first 0, at most 8.\<close>

definition object_name :: "bmem \<Rightarrow> u32 \<Rightarrow> u8 list" where
  "object_name m object =
     takeWhile (\<lambda>b. b \<noteq> 0) (map (\<lambda>i. case m (object + of_nat i) of Some b \<Rightarrow> b | None \<Rightarrow> 0) [0..<8])"

text \<open>What the lists of the container stand for: the objects of a class, the newest first, each with its name.\<close>

definition registry :: "u8 \<Rightarrow> objsys \<Rightarrow> (u32 \<times> u8 list) list" where
  "registry type s =
     (case rt_object_get_information type s of
        None \<Rightarrow> []
      | Some i \<Rightarrow> (case objects_at i s of
                    None \<Rightarrow> []
                  | Some xs \<Rightarrow> map (\<lambda>object. (object, object_name (omem s) object)) xs))"

definition registered :: "objsys \<Rightarrow> u32 list" where
  "registered s = concat (map (\<lambda>e. case object_list e of None \<Rightarrow> [] | Some xs \<Rightarrow> xs) (container s))"

definition objsys_ok :: "objsys \<Rightarrow> bool" where
  "objsys_ok s \<longleftrightarrow>
     map info_type (container s) = object_classes @ [0] \<and>
     list_all (\<lambda>e. (object_list e = None \<longleftrightarrow> info_type e = 0) \<and> (info_type e \<noteq> 0 \<longrightarrow> 20 \<le> unat (object_size e)))
       (container s) \<and>
     distinct (registered s) \<and>
     (\<forall>x \<in> set (registered s). x \<noteq> 0 \<and> mapped (omem s) x 20 \<and>
        (\<forall>y \<in> set (registered s). y \<noteq> x \<longrightarrow> disjoint x 20 y 20))"

lemma object_name_bytes:
  assumes "bytes_at m x (take 8 (xs @ replicate 8 0))" "0 \<notin> set xs"
  shows "object_name m x = take 8 xs"
proof -
  have "map (\<lambda>i. case m (x + of_nat i) of Some b \<Rightarrow> b | None \<Rightarrow> 0) [0..<8] = take 8 (xs @ replicate 8 0)"
    using assms(1) by (intro nth_equalityI) (auto simp: bytes_at_def)
  moreover have "takeWhile (\<lambda>b. b \<noteq> 0) (take 8 (xs @ replicate 8 0)) = take 8 xs"
  proof (cases "8 \<le> length xs")
    case True
    moreover have "\<forall>b \<in> set (take 8 xs). b \<noteq> 0" using assms(2) by (auto dest: in_set_takeD)
    ultimately show ?thesis by (simp add: takeWhile_eq_all_conv)
  next
    case False
    then obtain k where "8 - length xs = Suc k" by (cases "8 - length xs") auto
    moreover have "\<forall>b \<in> set xs. b \<noteq> 0" using assms(2) by auto
    ultimately show ?thesis using False by (simp add: takeWhile_append2 min_def)
  qed
  ultimately show ?thesis by (simp add: object_name_def)
qed

lemma take_until_0:
  "\<exists>j. take (length ys) (takeWhile (\<lambda>b. b \<noteq> 0) ys @ [0]) = take j (ys :: u8 list)"
proof (induction ys)
  case (Cons y ys)
  then obtain j where j: "take (length ys) (takeWhile (\<lambda>b. b \<noteq> 0) ys @ [0]) = take j ys" by blast
  show ?case
  proof (cases "y = 0")
    case True
    then show ?thesis by (intro exI[of _ 1]) simp
  next
    case False
    with j show ?thesis by (intro exI[of _ "Suc j"]) simp
  qed
qed simp

lemma object_name_read:
  assumes "mapped m x 8"
  shows "bytes_at m x (take 8 (object_name m x @ [0]))" "0 \<notin> set (object_name m x)" "length (object_name m x) \<le> 8"
proof -
  let ?ys = "map (\<lambda>i. case m (x + of_nat i) of Some b \<Rightarrow> b | None \<Rightarrow> 0) [0..<8]"
  have y: "bytes_at m x ?ys" using assms by (auto simp: bytes_at_def mapped_def split: option.splits)
  have "length ?ys = 8" by simp
  then obtain j where j: "take 8 (object_name m x @ [0]) = take j ?ys"
    using take_until_0[of ?ys] unfolding object_name_def by metis
  show "bytes_at m x (take 8 (object_name m x @ [0]))"
    using y unfolding j by (subst (asm) append_take_drop_id[of j, symmetric]) (simp only: bytes_at_append)
  show "0 \<notin> set (object_name m x)" by (auto simp: object_name_def dest: set_takeWhileD)
  show "length (object_name m x) \<le> 8" unfolding object_name_def by (rule order_trans[OF length_takeWhile_le]) simp
qed

lemma info_loop_Some:
  "info_loop t i es = Some j \<Longrightarrow> i \<le> j \<and> j - i < length es \<and> info_type (es ! (j - i)) = t"
proof (induction t i es rule: info_loop.induct)
  case (2 t i e es)
  show ?case
  proof (cases "info_type e = t")
    case False
    with 2 have "Suc i \<le> j \<and> j - Suc i < length es \<and> info_type (es ! (j - Suc i)) = t" by simp
    moreover have "j - i = Suc (j - Suc i)" if "Suc i \<le> j" using that by simp
    ultimately show ?thesis by auto
  qed (use 2 in simp)
qed simp

lemma info_loop_total: "t \<in> set (map info_type es) \<Longrightarrow> \<exists>j. info_loop t i es = Some j"
  by (induction t i es rule: info_loop.induct) auto

lemma info_loop_cong: "map info_type es = map info_type es' \<Longrightarrow> info_loop t i es = info_loop t i es'"
proof (induction es arbitrary: i es')
  case (Cons e es)
  then show ?case by (cases es') (simp_all)
qed simp

lemma types_set_objects: "map info_type (container (set_objects i xs s)) = map info_type (container s)"
  by (cases "i < length (container s)") (simp_all add: set_objects_def map_update list_update_same_conv list_update_beyond)

lemma remove1_filter: "distinct xs \<Longrightarrow> remove1 x xs = filter (\<lambda>y. y \<noteq> x) xs"
proof (induction xs)
  case (Cons a xs)
  then show ?case by (cases "a = x") (auto intro: filter_True[symmetric])
qed simp

lemma omem_set_objects [simp]: "omem (set_objects i xs s) = omem s"
  by (simp add: set_objects_def)

lemma information_cong:
  "map info_type (container s) = map info_type (container s') \<Longrightarrow>
   rt_object_get_information t s = rt_object_get_information t s'"
  unfolding rt_object_get_information_def by (rule info_loop_cong)

lemma information_Some:
  "rt_object_get_information t s = Some i \<Longrightarrow> i < length (container s) \<and> info_type (container s ! i) = t"
  using info_loop_Some[of t 0 "container s" i] by (simp add: rt_object_get_information_def)

lemma class_not_0: "t \<in> set object_classes \<Longrightarrow> t \<noteq> 0"
  by (auto simp: object_classes_def)

lemma class_objects:
  assumes "objsys_ok s" "t \<in> set object_classes"
  obtains i xs where "rt_object_get_information t s = Some i" "i < length (container s)"
    "info_type (container s ! i) = t" "objects_at i s = Some xs" "set xs \<subseteq> set (registered s)" "distinct xs"
    "registry t s = map (\<lambda>object. (object, object_name (omem s) object)) xs"
proof -
  have "t \<in> set (map info_type (container s))" using assms by (simp add: objsys_ok_def)
  then obtain i where i: "rt_object_get_information t s = Some i"
    unfolding rt_object_get_information_def using info_loop_total by blast
  note b = information_Some[OF i]
  then have e: "container s ! i \<in> set (container s)" by simp
  with assms b class_not_0[OF assms(2)] obtain xs where x: "object_list (container s ! i) = Some xs"
    by (auto simp: objsys_ok_def list_all_iff)
  have "set xs \<subseteq> set (registered s)" using e x by (force simp: registered_def)
  moreover have "distinct xs"
  proof -
    let ?f = "\<lambda>e. case object_list e of None \<Rightarrow> [] | Some xs \<Rightarrow> xs"
    have "distinct (concat (map ?f (container s)))" using assms(1) by (simp add: objsys_ok_def registered_def)
    moreover have "?f (container s ! i) \<in> set (map ?f (container s))" using e by simp
    ultimately have "distinct (?f (container s ! i))" by (simp only: distinct_concat_iff)
    then show ?thesis by (simp add: x)
  qed
  ultimately show ?thesis using i b x by (intro that) (simp_all add: objects_at_def registry_def)
qed

lemma registered_at:
  "i < length (container s) \<Longrightarrow>
   registered s = concat (map (\<lambda>e. case object_list e of None \<Rightarrow> [] | Some xs \<Rightarrow> xs) (take i (container s))) @
     (case objects_at i s of None \<Rightarrow> [] | Some xs \<Rightarrow> xs) @
     concat (map (\<lambda>e. case object_list e of None \<Rightarrow> [] | Some xs \<Rightarrow> xs) (drop (Suc i) (container s)))"
  by (subst registered_def, subst id_take_nth_drop[of i "container s"]) (simp_all add: objects_at_def)

lemma registered_insert:
  assumes "i < length (container s)" "objects_at i s = Some xs"
  shows "set (registered (set_objects i (x # xs) s)) = insert x (set (registered s))"
    and "x \<notin> set (registered s) \<Longrightarrow> distinct (registered s) \<Longrightarrow> distinct (registered (set_objects i (x # xs) s))"
  using registered_at[OF assms(1)] registered_at[of i "set_objects i (x # xs) s"] assms
  by (auto simp: set_objects_def objects_at_def)

lemma registry_other_mem:
  assumes "\<And>x. x \<in> set (registered s) \<Longrightarrow> object_name m x = object_name (omem s) x"
  shows "registry t (s\<lparr>omem := m\<rparr>) = registry t s"
proof (cases "rt_object_get_information t s")
  case (Some i)
  then have i: "i < length (container s)" by (simp add: information_Some)
  have "set xs \<subseteq> set (registered s)" if "objects_at i s = Some xs" for xs
    using registered_at[OF i] that by auto
  with Some assms show ?thesis
    by (auto simp: registry_def rt_object_get_information_def objects_at_def split: option.splits)
qed (simp add: registry_def rt_object_get_information_def)

lemma registry_set_objects:
  assumes "rt_object_get_information t s = Some i"
  shows "registry t (set_objects i xs s) = map (\<lambda>object. (object, object_name (omem s) object)) xs"
    and "t' \<noteq> t \<Longrightarrow> registry t' (set_objects i xs s) = registry t' s"
proof -
  have same: "rt_object_get_information u (set_objects i xs s) = rt_object_get_information u s" for u
    by (rule information_cong) (rule types_set_objects)
  note i = information_Some[OF assms]
  then have "objects_at i (set_objects i xs s) = Some xs" by (simp add: objects_at_def set_objects_def)
  then show "registry t (set_objects i xs s) = map (\<lambda>object. (object, object_name (omem s) object)) xs"
    by (simp add: registry_def same assms)
  assume t: "t' \<noteq> t"
  show "registry t' (set_objects i xs s) = registry t' s"
  proof (cases "rt_object_get_information t' s")
    case (Some j)
    with information_Some[OF Some] i t have "j \<noteq> i" by auto
    then have "objects_at j (set_objects i xs s) = objects_at j s" by (simp add: objects_at_def set_objects_def)
    then show ?thesis by (simp add: registry_def same Some split: option.split)
  qed (simp add: registry_def same)
qed

lemma object_name_frame:
  "changes_only a n m m' \<Longrightarrow> disjoint a n x 20 \<Longrightarrow> object_name m' x = object_name m x"
proof -
  assume c: "changes_only a n m m'" "disjoint a n x 20"
  have "map (\<lambda>i. case m' (x + of_nat i) of Some b \<Rightarrow> b | None \<Rightarrow> 0) [0..<8] =
        map (\<lambda>i. case m (x + of_nat i) of Some b \<Rightarrow> b | None \<Rightarrow> 0) [0..<8]"
    by (rule map_cong) (simp_all add: changes_only_far[OF c])
  then show ?thesis by (simp only: object_name_def)
qed

text \<open>What both ways of making an object do to the registry, once its bytes are written.\<close>

lemma register_object:
  assumes ok: "objsys_ok s" and t: "t \<in> set object_classes" "rt_object_get_information t s = Some i"
    "objects_at i s = Some xs" and x: "x \<noteq> 0" "x \<notin> set (registered s)" "mapped (omem s) x 20"
    and far: "\<forall>y \<in> set (registered s). disjoint x n y 20" "20 \<le> n" and m: "changes_only x n (omem s) m"
  defines "s' \<equiv> set_objects i (x # xs) (s\<lparr>omem := m\<rparr>)"
  shows "objsys_ok s'" "registry t s' = (x, object_name m x) # registry t s"
    "t' \<noteq> t \<Longrightarrow> registry t' s' = registry t' s" "omem s' = m" "set (registered s') = insert x (set (registered s))"
proof -
  let ?s = "s\<lparr>omem := m\<rparr>"
  have i: "rt_object_get_information t ?s = Some i" "i < length (container ?s)" "objects_at i ?s = Some xs"
    "info_type (container s ! i) = t"
    using t information_Some[OF t(2)] by (simp_all add: rt_object_get_information_def objects_at_def)
  have names: "object_name m y = object_name (omem s) y" if "y \<in> set (registered s)" for y
    using object_name_frame[OF m] far(1) that by blast
  have rs: "registered ?s = registered s" by (simp add: registered_def)
  have map: "mapped m y k \<longleftrightarrow> mapped (omem s) y k" for y k by (rule changes_only_mapped[OF m])
  note reg = registered_insert[OF i(2,3), of x, folded s'_def, unfolded rs]
  have near: "disjoint x 20 y 20" "disjoint y 20 x 20" if "y \<in> set (registered s)" for y
    using disjoint_mono[of x n y 20 20 20] far that disjoint_sym by blast+
  show om: "omem s' = m" by (simp add: s'_def)
  show "set (registered s') = insert x (set (registered s))" by (simp add: reg)
  show "objsys_ok s'"
    unfolding objsys_ok_def
  proof (intro conjI)
    show "map info_type (container s') = object_classes @ [0]"
      using ok by (simp only: objsys_ok_def s'_def types_set_objects) simp
    show "list_all (\<lambda>e. (object_list e = None \<longleftrightarrow> info_type e = 0) \<and> (info_type e \<noteq> 0 \<longrightarrow> 20 \<le> unat (object_size e)))
        (container s')"
      using ok i(2,4) class_not_0[OF t(1)] set_update_subset_insert[of "container s" i]
      by (fastforce simp: objsys_ok_def s'_def set_objects_def list_all_iff)
    show "distinct (registered s')" using reg(2) x(2) ok by (simp add: objsys_ok_def)
    show "\<forall>y \<in> set (registered s'). y \<noteq> 0 \<and> mapped (omem s') y 20 \<and>
        (\<forall>z \<in> set (registered s'). z \<noteq> y \<longrightarrow> disjoint y 20 z 20)"
      using ok x far by (auto simp: objsys_ok_def reg(1) om map near)
  qed
  have "registry u ?s = registry u s" for u by (rule registry_other_mem) (simp add: names)
  note same = this
  have "registry t s = map (\<lambda>object. (object, object_name m object)) xs"
    unfolding same[symmetric] using i by (simp add: registry_def)
  then show "registry t s' = (x, object_name m x) # registry t s"
    unfolding s'_def registry_set_objects(1)[OF i(1)] by simp
  show "t' \<noteq> t \<Longrightarrow> registry t' s' = registry t' s"
    unfolding s'_def using registry_set_objects(2)[OF i(1)] same by simp
qed

text \<open>What both ways of ending an object do to it.\<close>

lemma unregister_object:
  fixes b :: u8
  assumes ok: "objsys_ok s" and x: "x \<in> set (registered s)"
  defines "s' \<equiv> unlink_object x (s\<lparr>omem := (omem s)(x + 8 \<mapsto> b)\<rparr>)"
  shows "st (omem s) (x + 8) b = Some ((omem s)(x + 8 \<mapsto> b))" "objsys_ok s'"
    "registry t s' = filter (\<lambda>(y, _). y \<noteq> x) (registry t s)" "set (registered s') = set (registered s) - {x}"
    "changes_only x 20 (omem s) (omem s')"
proof -
  have mx: "mapped (omem s) x 20" using ok x by (simp add: objsys_ok_def)
  have m8: "omem s (x + 8) \<noteq> None" using mapped_nth[OF mx, of 8] by simp
  then show "st (omem s) (x + 8) b = Some ((omem s)(x + 8 \<mapsto> b))" by simp
  show c: "changes_only x 20 (omem s) (omem s')"
    using changes_only_upd[of 8 20 "omem s" x b] m8 by (simp add: s'_def unlink_object_def del: fun_upd_apply)
  have names: "object_name (omem s') y = object_name (omem s) y" if "y \<in> set (registered s)" "y \<noteq> x" for y
    using object_name_frame[OF c] ok x that by (simp add: objsys_ok_def)
  have reg: "registered s' = filter (\<lambda>y. y \<noteq> x) (registered s)"
  proof -
    have "distinct (concat (map (\<lambda>e. case object_list e of None \<Rightarrow> [] | Some xs \<Rightarrow> xs) es)) \<Longrightarrow>
      concat (map (\<lambda>e. case object_list e of None \<Rightarrow> [] | Some xs \<Rightarrow> xs)
        (map (\<lambda>e. e\<lparr>object_list := map_option (remove1 x) (object_list e)\<rparr>) es)) =
      filter (\<lambda>y. y \<noteq> x) (concat (map (\<lambda>e. case object_list e of None \<Rightarrow> [] | Some xs \<Rightarrow> xs) es))" for es
      by (induction es) (auto split: option.splits simp: remove1_filter)
    from this[of "container s"] ok show ?thesis by (simp add: registered_def s'_def unlink_object_def objsys_ok_def)
  qed
  then show "set (registered s') = set (registered s) - {x}" by auto
  show "objsys_ok s'"
    unfolding objsys_ok_def
  proof (intro conjI)
    show "map info_type (container s') = object_classes @ [0]"
      using ok by (simp add: objsys_ok_def s'_def unlink_object_def comp_def)
    show "list_all (\<lambda>e. (object_list e = None \<longleftrightarrow> info_type e = 0) \<and> (info_type e \<noteq> 0 \<longrightarrow> 20 \<le> unat (object_size e)))
        (container s')"
      using ok by (simp add: objsys_ok_def s'_def unlink_object_def list_all_iff)
    show "distinct (registered s')" using ok by (simp add: reg objsys_ok_def)
    show "\<forall>y \<in> set (registered s'). y \<noteq> 0 \<and> mapped (omem s') y 20 \<and>
        (\<forall>z \<in> set (registered s'). z \<noteq> y \<longrightarrow> disjoint y 20 z 20)"
      using ok by (auto simp: objsys_ok_def reg changes_only_mapped[OF c])
  qed
  have info: "rt_object_get_information t s' = rt_object_get_information t s"
    by (rule information_cong) (simp add: s'_def unlink_object_def comp_def)
  show "registry t s' = filter (\<lambda>(y, _). y \<noteq> x) (registry t s)"
  proof (cases "rt_object_get_information t s")
    case (Some i)
    note i = information_Some[OF Some]
    have o: "objects_at i s' = map_option (remove1 x) (objects_at i s)"
      using i by (simp add: s'_def unlink_object_def objects_at_def)
    show ?thesis
    proof (cases "objects_at i s")
      case (Some ys)
      have "set ys \<subseteq> set (registered s) \<and> distinct ys"
        using registered_at[of i s] i ok Some by (auto simp: objsys_ok_def)
      then show ?thesis
        using Some names \<open>rt_object_get_information t s = Some i\<close>
        by (auto simp: registry_def info o remove1_filter filter_map comp_def intro!: map_cong)
    qed (simp add: registry_def info o \<open>rt_object_get_information t s = Some i\<close>)
  qed (simp add: registry_def info)
qed

section \<open>The operations on the registry\<close>

definition fresh_object :: "objsys \<Rightarrow> u32 \<Rightarrow> nat \<Rightarrow> bool" where
  "fresh_object s x n \<longleftrightarrow>
     x \<noteq> 0 \<and> x \<notin> set (registered s) \<and> mapped (omem s) x n \<and> (\<forall>y \<in> set (registered s). disjoint x n y 20)"

definition name_at :: "bmem \<Rightarrow> u32 \<Rightarrow> u8 list \<Rightarrow> bool" where
  "name_at m name xs \<longleftrightarrow> bytes_at m name (take 8 (xs @ [0])) \<and> 0 \<notin> set xs"

lemma name_at_frame:
  assumes "name_at m name xs" "changes_only x n m m'" "disjoint x n name 8"
  shows "name_at m' name xs"
  using assms(1) changes_only_far[OF assms(2,3)] by (simp add: name_at_def bytes_at_def)

lemma write_name:
  assumes "name_at m name xs" "mapped m x 8" "disjoint x 8 name 8"
  shows "rt_strncpy m x name 8 = Some (write_at m x (take 8 (xs @ replicate 8 0)))"
    and "object_name (write_at m x (take 8 (xs @ replicate 8 0))) x = take 8 xs"
proof -
  have "forward x name 8" using assms(3) by (simp add: disjoint_def forward_def)
  with assms show "rt_strncpy m x name 8 = Some (write_at m x (take 8 (xs @ replicate 8 0)))"
    using rt_strncpy_write[of m name 8 xs x] by (simp add: name_at_def)
  have "bytes_at (write_at m x (take 8 (xs @ replicate 8 0))) x (take 8 (xs @ replicate 8 0))"
    by (rule bytes_at_write_at) simp
  then show "object_name (write_at m x (take 8 (xs @ replicate 8 0))) x = take 8 xs"
    using assms(1) by (intro object_name_bytes) (simp_all add: name_at_def)
qed

text \<open>The type, then the name: the bytes that both ways of making an object write.\<close>

lemma write_header:
  assumes "name_at m name xs" "mapped m x n" "20 \<le> n" "n < 2 ^ 32" "disjoint x n name 8"
  obtains m' where "st m (x + 8) b = Some (m(x + 8 \<mapsto> b))"
    "rt_strncpy (m(x + 8 \<mapsto> b)) x name 8 = Some m'" "changes_only x n m m'" "object_name m' x = take 8 xs"
    "m' (x + 8) = Some b"
proof -
  have n8: "mapped m x 8" by (rule mapped_mono[OF assms(2)]) (use assms(3) in simp)
  have m8: "m (x + 8) \<noteq> None" using mapped_nth[OF assms(2), of 8] assms(3) by simp
  let ?m = "m(x + 8 \<mapsto> b)"
  let ?xs = "take 8 (xs @ replicate 8 0)"
  have c: "changes_only x n m ?m"
    using changes_only_upd[of 8 n m x b] m8 assms(3,4) by (simp del: fun_upd_apply)
  have nm: "name_at ?m name xs" by (rule name_at_frame[OF assms(1) c assms(5)])
  have d: "disjoint x 8 name 8" by (rule disjoint_mono[OF assms(5)]) (use assms(3) in simp_all)
  note w = write_name[OF nm mapped_upd[OF n8] d]
  have "length ?xs = 8" by simp
  then have "mapped ?m x (length ?xs)" using mapped_upd[OF n8] by (simp only:)
  then have "changes_only x n ?m (write_at ?m x ?xs)"
    using assms(3,4) by (intro changes_only_write_at) simp_all
  with c have "changes_only x n m (write_at ?m x ?xs)" by (rule changes_only_trans)
  moreover have "write_at ?m x ?xs (x + 8) = Some b" using \<open>length ?xs = 8\<close> by (simp only: write_at_def) simp
  ultimately show ?thesis using m8 w by (intro that[of "write_at ?m x ?xs"]) (simp_all del: fun_upd_apply)
qed

lemma rt_object_init_register:
  assumes "objsys_ok s" "t \<in> set object_classes" "fresh_object s x 20" "name_at (omem s) name xs"
    "disjoint x 20 name 8" "sysinv b k" "lock_ok k"
  obtains s' k' where "rt_object_init x t name s k = Some (s', k')" "objsys_ok s'"
    "registry t s' = (x, take 8 xs) # registry t s" "\<And>u. u \<noteq> t \<Longrightarrow> registry u s' = registry u s"
    "set (registered s') = insert x (set (registered s))" "changes_only x 20 (omem s) (omem s')"
    "omem s' (x + 8) = Some (t OR RT_Object_Class_Static)" "sysinv b k'" "lock_ok k'" "sched_frame k k'"
proof -
  obtain i ys where i: "rt_object_get_information t s = Some i" "objects_at i s = Some ys"
    "set ys \<subseteq> set (registered s)"
    by (rule class_objects[OF assms(1,2)]) (rule that)
  have x: "x \<noteq> 0" "x \<notin> set (registered s)" "mapped (omem s) x 20" "\<forall>y \<in> set (registered s). disjoint x 20 y 20"
    using assms(3) by (simp_all add: fresh_object_def)
  obtain m where m: "st (omem s) (x + 8) (t OR RT_Object_Class_Static) = Some ((omem s)(x + 8 \<mapsto> t OR RT_Object_Class_Static))"
    "rt_strncpy ((omem s)(x + 8 \<mapsto> t OR RT_Object_Class_Static)) x name 8 = Some m" "changes_only x 20 (omem s) m"
    "object_name m x = take 8 xs" "m (x + 8) = Some (t OR RT_Object_Class_Static)"
    using write_header[OF assms(4) x(3) _ _ assms(5)] by auto
  obtain k' where k: "rt_exit_critical (rt_enter_critical k) = Some k'" "sysinv b k'" "sched_frame k k'" "lock_ok k'"
    by (rule critical_pair[OF assms(6,7)]) (rule that)
  note r = register_object[OF assms(1,2) i(1,2) x _ m(3)]
  have "list_all (\<lambda>obj. obj \<noteq> x) ys" using i(3) x(2) by (auto simp: list_all_iff)
  then have "rt_object_init x t name s k = Some (set_objects i (x # ys) (s\<lparr>omem := m\<rparr>), k')"
    using i m k by (simp add: rt_object_init_def Let_def del: fun_upd_apply)
  then show ?thesis
    using r m k by (intro that[of "set_objects i (x # ys) (s\<lparr>omem := m\<rparr>)" k']) (simp_all del: fun_upd_apply)
qed

lemma rt_object_allocate_register:
  assumes "objsys_ok s" "t \<in> set object_classes" "rt_object_get_information t s = Some i"
    "fresh_object s x (unat (object_size (container s ! i)))" "name_at (omem s) name xs"
    "disjoint x (unat (object_size (container s ! i))) name 8" "not_in_interrupt k"
  obtains s' where "rt_object_allocate x t name s k = Some (x, s')" "objsys_ok s'"
    "registry t s' = (x, take 8 xs) # registry t s" "\<And>u. u \<noteq> t \<Longrightarrow> registry u s' = registry u s"
    "set (registered s') = insert x (set (registered s))" "omem s' (x + 8) = Some t"
proof -
  let ?n = "unat (object_size (container s ! i))"
  obtain ys where i: "objects_at i s = Some ys" "set ys \<subseteq> set (registered s)"
    using class_objects[OF assms(1,2)] assms(3) by (metis option.inject)
  have "container s ! i \<in> set (container s)" "info_type (container s ! i) \<noteq> 0"
    using information_Some[OF assms(3)] class_not_0[OF assms(2)] by simp_all
  then have "20 \<le> ?n" using assms(1) by (auto simp: objsys_ok_def list_all_iff)
  note n = this unat_less_2p32[of "object_size (container s ! i)"]
  have x: "x \<noteq> 0" "x \<notin> set (registered s)" "mapped (omem s) x ?n" "\<forall>y \<in> set (registered s). disjoint x ?n y 20"
    using assms(4) by (simp_all add: fresh_object_def)
  define m0 where "m0 = write_at (omem s) x (replicate ?n 0)"
  have m0: "rt_memset (omem s) x 0 (object_size (container s ! i)) = Some m0"
    using rt_memset_write[OF x(3), of 0] by (simp add: m0_def)
  have c0: "changes_only x ?n (omem s) m0"
    unfolding m0_def by (rule changes_only_write_at) (use x(3) n in simp_all)
  have mp: "mapped m0 x ?n" using x(3) by (simp add: m0_def)
  obtain m where m: "st m0 (x + 8) t = Some (m0(x + 8 \<mapsto> t))"
    and w: "st (m0(x + 8 \<mapsto> t)) (x + 9) 0 = Some (m0(x + 8 \<mapsto> t, x + 9 \<mapsto> 0))"
      "rt_strncpy (m0(x + 8 \<mapsto> t, x + 9 \<mapsto> 0)) x name 8 = Some m" "changes_only x ?n m0 m"
      "object_name m x = take 8 xs" "m (x + 8) = Some t"
  proof -
    have m9: "m0 (x + 8) \<noteq> None" "m0 (x + 9) \<noteq> None"
      using mapped_nth[OF mp, of 8] mapped_nth[OF mp, of 9] n by simp_all
    let ?m = "m0(x + 9 \<mapsto> 0)"
    have c: "changes_only x ?n m0 ?m"
      using changes_only_upd[of 9 ?n m0 x 0] m9 n by (simp del: fun_upd_apply)
    note nm = name_at_frame[OF assms(5) changes_only_trans[OF c0 c] assms(6)]
    obtain m' where m': "rt_strncpy (?m(x + 8 \<mapsto> t)) x name 8 = Some m'" "changes_only x ?n ?m m'"
      "object_name m' x = take 8 xs" "m' (x + 8) = Some t"
      using write_header[OF nm mapped_upd[OF mp] n assms(6), of t] by metis
    have "?m(x + 8 \<mapsto> t) = m0(x + 8 \<mapsto> t, x + 9 \<mapsto> 0)" by (rule fun_upd_twist) simp
    then show ?thesis using m' m9 changes_only_trans[OF c m'(2)] by (intro that[of m']) simp_all
  qed
  note r = register_object[OF assms(1-3) i(1) x(1,2) mapped_mono[OF x(3) n(1)] x(4) n(1) changes_only_trans[OF c0 w(3)]]
  have "rt_object_allocate x t name s k = Some (x, set_objects i (x # ys) (s\<lparr>omem := m\<rparr>))"
    using assms(3,7) x(1) i m0 m w by (simp add: rt_object_allocate_def Let_def objects_at_def del: fun_upd_apply)
  then show ?thesis
    using r w by (intro that[of "set_objects i (x # ys) (s\<lparr>omem := m\<rparr>)"]) (simp_all del: fun_upd_apply)
qed

lemma find_loop_first:
  assumes "name_at m name xs" "\<forall>x \<in> set ys. mapped m x 8"
  shows "find_loop m name ys = Some (case find (\<lambda>x. object_name m x = take 8 xs) ys of None \<Rightarrow> 0 | Some x \<Rightarrow> x)"
  using assms(2)
proof (induction ys)
  case (Cons y ys)
  then have y: "mapped m y 8" by simp
  note n = object_name_read[OF y]
  obtain r where r: "rt_strncmp m y name 8 = Some r" "r = 0 \<longleftrightarrow> take 8 (object_name m y) = take 8 xs"
    using rt_strncmp_zero[of "object_name m y" xs m y 8 name] n assms(1) by (auto simp: name_at_def)
  have "take 8 (object_name m y) = object_name m y" using n(3) by simp
  with r Cons show ?case by simp
qed simp

lemma find_registry:
  "find (\<lambda>x. object_name m x = n) ys = map_option fst (find (\<lambda>(_, n'). n' = n) (map (\<lambda>x. (x, object_name m x)) ys))"
  by (induction ys) auto

lemma rt_object_find_first:
  assumes "objsys_ok s" "t \<in> set object_classes" "name \<noteq> 0" "name_at (omem s) name xs" "sysinv b k" "lock_ok k"
    "not_in_interrupt k"
  obtains k' where "rt_object_find name t s k =
      Some (case find (\<lambda>(_, n). n = take 8 xs) (registry t s) of None \<Rightarrow> 0 | Some (x, _) \<Rightarrow> x, k')"
    "sysinv b k'" "lock_ok k'" "sched_frame k k'"
proof -
  obtain i ys where i: "rt_object_get_information t s = Some i" "objects_at i s = Some ys"
    "set ys \<subseteq> set (registered s)" "registry t s = map (\<lambda>object. (object, object_name (omem s) object)) ys"
    by (rule class_objects[OF assms(1,2)]) (rule that)
  have "mapped (omem s) x 8" if "x \<in> set ys" for x
  proof -
    have "x \<in> set (registered s)" using i(3) that by blast
    then have "mapped (omem s) x 20" using assms(1) unfolding objsys_ok_def by blast
    then show ?thesis by (rule mapped_mono) simp
  qed
  then have "\<forall>x \<in> set ys. mapped (omem s) x 8" by blast
  note f = find_loop_first[OF assms(4) this, unfolded find_registry i(4)[symmetric]]
  obtain k' where k: "rt_exit_critical (rt_enter_critical k) = Some k'" "sysinv b k'" "sched_frame k k'" "lock_ok k'"
    by (rule critical_pair[OF assms(5,6)]) (rule that)
  have "rt_object_find name t s k =
      Some (case find (\<lambda>(_, n). n = take 8 xs) (registry t s) of None \<Rightarrow> 0 | Some (x, _) \<Rightarrow> x, k')"
    using i(1,2) f k(1) assms(3,7)
    by (cases "find (\<lambda>(_, n). n = take 8 xs) (registry t s)") (simp_all add: rt_object_find_def Let_def case_prod_beta)
  from that[OF this k(2,4,3)] show ?thesis .
qed

lemma count_loop_length: "count_loop c xs = c + int (length xs)"
  by (induction c xs rule: count_loop.induct) auto

lemma pointers_loop_take: "i < n \<Longrightarrow> pointers_loop n i xs = take (nat (n - i)) xs"
proof (induction n i xs rule: pointers_loop.induct)
  case (2 n i x xs)
  then have "nat (n - i) = Suc (nat (n - (i + 1)))" by simp
  with 2 show ?case by (cases "n \<le> i + 1") (simp_all)
qed simp

lemma class_byte:
  "t \<in> set object_classes \<Longrightarrow> (t OR RT_Object_Class_Static) AND NOT RT_Object_Class_Static = t \<and>
    (t OR RT_Object_Class_Static) AND RT_Object_Class_Static \<noteq> 0 \<and> t AND RT_Object_Class_Static = 0"
  by (auto simp: object_classes_def)

lemma not_registered:
  assumes "x \<notin> set (registered s)"
  shows "filter (\<lambda>(y, _). y \<noteq> x) (registry t s) = registry t s"
proof -
  have "\<forall>p \<in> set (registry t s). fst p \<in> set (registered s)"
  proof (cases "rt_object_get_information t s")
    case (Some i)
    with registered_at[of i s] information_Some[OF Some] show ?thesis
      by (auto simp: registry_def split: option.splits)
  qed (simp add: registry_def)
  with assms show ?thesis by (intro filter_True) auto
qed

section \<open>The theorems\<close>

text \<open>C33: initialising and detaching an object. In a well-formed object system, for an object structure that is
  not registered and meets no registered one, \<open>rt_object_init\<close> returns and keeps the system well-formed. The object
  stands first in the list of its class, under the first 8 characters of the given name; the other classes are
  unchanged; it has the given type and counts as a static object; \<open>rt_object_find\<close> with the same name returns it;
  and \<open>rt_object_detach\<close> takes it out again, which leaves every list as it was.\<close>
theorem object_init_registers:
  assumes "objsys_ok s" "t \<in> set object_classes" "fresh_object s x 20"
    and "name \<noteq> 0" "name_at (omem s) name xs" "disjoint x 20 name 8"
    and "sysinv b k" "lock_ok k" "not_in_interrupt k"
  shows "\<exists>s' k'. rt_object_init x t name s k = Some (s', k') \<and> objsys_ok s' \<and> sysinv b k' \<and>
    registry t s' = (x, take 8 xs) # registry t s \<and> (\<forall>u. u \<noteq> t \<longrightarrow> registry u s' = registry u s) \<and>
    rt_object_get_type x s' = Some t \<and> rt_object_is_systemobject x s' = Some True \<and>
    map_option fst (rt_object_find name t s' k') = Some x \<and>
    (\<exists>s''. rt_object_detach x s' = Some s'' \<and> objsys_ok s'' \<and> (\<forall>u. registry u s'' = registry u s))"
proof -
  obtain s' k' where i: "rt_object_init x t name s k = Some (s', k')" "objsys_ok s'"
    "registry t s' = (x, take 8 xs) # registry t s" "\<And>u. u \<noteq> t \<Longrightarrow> registry u s' = registry u s"
    "set (registered s') = insert x (set (registered s))" "changes_only x 20 (omem s) (omem s')"
    "omem s' (x + 8) = Some (t OR RT_Object_Class_Static)" "sysinv b k'" "lock_ok k'" "sched_frame k k'"
    by (rule rt_object_init_register[OF assms(1-3,5-8)]) (rule that)
  have x: "x \<noteq> 0" "x \<notin> set (registered s)" using assms(3) by (simp_all add: fresh_object_def)
  have "not_in_interrupt k'"
    using assms(9) i(10) by (simp add: sched_frame_def rest_def not_in_interrupt_def rt_interrupt_get_nest_def)
  note f = rt_object_find_first[OF i(2) assms(2,4) name_at_frame[OF assms(5) i(6) assms(6)] i(8,9) this]
  have find: "map_option fst (rt_object_find name t s' k') = Some x" by (rule f) (simp add: i(3))
  note u = unregister_object[OF i(2), where x = x and b = 0]
  have "registry v (unlink_object x (s'\<lparr>omem := (omem s')(x + 8 \<mapsto> 0)\<rparr>)) = registry v s" for v
    using u(3)[where t = v] not_registered[OF x(2), of v] i(3,4,5) by (cases "v = t") simp_all
  then have "\<exists>s''. rt_object_detach x s' = Some s'' \<and> objsys_ok s'' \<and> (\<forall>u. registry u s'' = registry u s)"
    using u(1,2) i(5) x(1) by (simp add: rt_object_detach_def)
  with i find class_byte[OF assms(2)] x(1) show ?thesis
    by (simp add: rt_object_get_type_def rt_object_is_systemobject_def)
qed

text \<open>Allocating and deleting an object. With no memory \<open>rt_object_allocate\<close> returns 0 and changes nothing. With
  memory for the size of the class it clears it, writes the type and the first 8 characters of the name, and puts
  the object first in the list of its class; the object is not a static one, so that \<open>rt_object_delete\<close> accepts
  it, and leaves every list as it was.\<close>
theorem object_allocate_registers:
  assumes "objsys_ok s" "t \<in> set object_classes" "rt_object_get_information t s = Some i"
    and "fresh_object s x (unat (object_size (container s ! i)))" "name_at (omem s) name xs"
    and "disjoint x (unat (object_size (container s ! i))) name 8" "not_in_interrupt k"
  shows "rt_object_allocate 0 t name s k = Some (0, s) \<and>
    (\<exists>s'. rt_object_allocate x t name s k = Some (x, s') \<and> objsys_ok s' \<and>
      registry t s' = (x, take 8 xs) # registry t s \<and> (\<forall>u. u \<noteq> t \<longrightarrow> registry u s' = registry u s) \<and>
      rt_object_get_type x s' = Some t \<and> rt_object_is_systemobject x s' = Some False \<and>
      (\<exists>s''. rt_object_delete x s' = Some s'' \<and> objsys_ok s'' \<and> (\<forall>u. registry u s'' = registry u s)))"
proof -
  obtain s' where a: "rt_object_allocate x t name s k = Some (x, s')" "objsys_ok s'"
    "registry t s' = (x, take 8 xs) # registry t s" "\<And>u. u \<noteq> t \<Longrightarrow> registry u s' = registry u s"
    "set (registered s') = insert x (set (registered s))" "omem s' (x + 8) = Some t"
    by (rule rt_object_allocate_register[OF assms]) (rule that)
  have x: "x \<noteq> 0" "x \<notin> set (registered s)" using assms(4) by (simp_all add: fresh_object_def)
  note u = unregister_object[OF a(2), where x = x and b = RT_Object_Class_Null]
  have "registry v (unlink_object x (s'\<lparr>omem := (omem s')(x + 8 \<mapsto> 0)\<rparr>)) = registry v s" for v
    using u(3)[where t = v] not_registered[OF x(2), of v] a(3,4,5) by (cases "v = t") simp_all
  then have "\<exists>s''. rt_object_delete x s' = Some s'' \<and> objsys_ok s'' \<and> (\<forall>u. registry u s'' = registry u s)"
    using u(1,2) a(5,6) x(1) class_byte[OF assms(2)] by (simp add: rt_object_delete_def)
  moreover have "t AND NOT RT_Object_Class_Static = t" using assms(2) by (auto simp: object_classes_def)
  moreover have "rt_object_allocate 0 t name s k = Some (0, s)" using assms(3,7) by (simp add: rt_object_allocate_def)
  ultimately show ?thesis
    using a class_byte[OF assms(2)] x(1) by (simp add: rt_object_get_type_def rt_object_is_systemobject_def)
qed

text \<open>Reading the registry. \<open>rt_object_get_length\<close> is the number of objects of a class and
  \<open>rt_object_get_pointers\<close> gives the first \<open>maxlen\<close> of them (none for a negative number), and \<open>rt_object_find\<close> the newest object whose name
  is the first 8 characters of the given one, or the null pointer; the scheduler lock it takes is released on
  both ways out.\<close>
theorem object_queries:
  assumes "objsys_ok s" "t \<in> set object_classes"
    and "name \<noteq> 0" "name_at (omem s) name xs" "sysinv b k" "lock_ok k" "not_in_interrupt k"
  shows "rt_object_get_length t s = Some (int (length (registry t s))) \<and>
    rt_object_get_pointers t maxlen s = Some (take (nat maxlen) (List.map fst (registry t s))) \<and>
    (\<exists>k'. rt_object_find name t s k =
        Some (case find (\<lambda>(_, n). n = take 8 xs) (registry t s) of None \<Rightarrow> 0 | Some (x, _) \<Rightarrow> x, k') \<and> sysinv b k') \<and>
    rt_object_find 0 t s k = Some (0, k)"
proof -
  obtain i ys where i: "rt_object_get_information t s = Some i" "objects_at i s = Some ys"
    "registry t s = List.map (\<lambda>object. (object, object_name (omem s) object)) ys"
    by (rule class_objects[OF assms(1,2)]) (rule that)
  have m: "List.map fst (registry t s) = ys" by (simp add: i(3) comp_def)
  have "rt_object_get_length t s = Some (int (length (registry t s)))"
    by (simp add: rt_object_get_length_def i count_loop_length)
  moreover have "rt_object_get_pointers t maxlen s = Some (take (nat maxlen) ys)"
    by (simp add: rt_object_get_pointers_def i pointers_loop_take)
  moreover have "rt_object_find 0 t s k = Some (0, k)" by (simp add: rt_object_find_def i)
  moreover obtain k' where "rt_object_find name t s k =
      Some (case find (\<lambda>(_, n). n = take 8 xs) (registry t s) of None \<Rightarrow> 0 | Some (x, _) \<Rightarrow> x, k')" "sysinv b k'"
    by (rule rt_object_find_first[OF assms]) (rule that)
  ultimately show ?thesis unfolding m by blast
qed

text \<open>Custom objects. The container has an entry for them in this configuration, but no initialiser for it: its
  type is 0. So the class is unknown, \<open>rt_custom_object_create\<close> fails an assertion for all arguments, and asking
  for the number of objects of type 0 follows the null links of that entry.\<close>
theorem custom_objects_fail:
  assumes "objsys_ok s"
  shows "rt_object_get_information RT_Object_Class_Custom s = None \<and>
    rt_custom_object_create x name data d s k = None \<and>
    rt_object_get_length 0 s = None"
proof -
  have t: "List.map info_type (container s) = object_classes @ [0]" using assms by (simp add: objsys_ok_def)
  then have c: "container s \<noteq> []" by auto
  have none: "info_loop u j es = None" if "u \<notin> set (List.map info_type es)" for u j es
    using that by (induction u j es rule: info_loop.induct) auto
  have custom: "rt_object_get_information RT_Object_Class_Custom s = None"
    unfolding rt_object_get_information_def by (rule none) (simp only: t, simp add: object_classes_def)
  then have "rt_custom_object_create x name data d s k = None"
    by (simp add: rt_custom_object_create_def rt_object_allocate_def)
  moreover have "rt_object_get_length 0 s = None"
  proof -
    have "0 \<in> set (List.map info_type (container s))" by (simp only: t) simp
    then obtain i where i: "rt_object_get_information 0 s = Some i"
      unfolding rt_object_get_information_def using info_loop_total by blast
    then have "object_list (container s ! i) = None"
      using assms information_Some[OF i] by (simp add: objsys_ok_def list_all_length)
    with i show ?thesis by (simp add: rt_object_get_length_def objects_at_def)
  qed
  ultimately show ?thesis using custom by simp
qed

text \<open>The name of an object has no terminating 0 when it has 8 characters; a copy into a buffer of more than 8
  bytes then goes on with the type of the object.\<close>

theorem get_name_overrun:
  assumes "mapped (omem s) x 20" "length (object_name (omem s) x) = 8" "omem s (x + 8) = Some b" "b \<noteq> 0"
    and "x \<noteq> 0" "buf \<noteq> 0" "mapped (omem s) buf 9" "disjoint buf 9 x 9"
  shows "rt_object_get_name x buf 9 s =
    Some (RT_EOK, s\<lparr>omem := write_at (omem s) buf (object_name (omem s) x @ [b])\<rparr>)"
proof -
  let ?n = "object_name (omem s) x"
  have n: "bytes_at (omem s) x ?n" "0 \<notin> set ?n"
    using object_name_read[OF mapped_mono[OF assms(1)]] assms(2) by simp_all
  have "bytes_at (omem s) x (?n @ [b])" using n(1) assms(2,3) by (simp add: bytes_at_append)
  then have "bytes_at (omem s) x (take (unat (9 :: u32)) ((?n @ [b]) @ [0]))" using assms(2) by simp
  moreover have "forward buf x (unat (9 :: u32))" using assms(8) by (simp add: disjoint_def forward_def)
  ultimately have "rt_strncpy (omem s) buf x 9 = Some (write_at (omem s) buf (take 9 ((?n @ [b]) @ replicate 9 0)))"
    using rt_strncpy_write[of "omem s" x 9 "?n @ [b]" buf] n(2) assms(4,7) by simp
  with assms(2,5,6) show ?thesis by (simp add: rt_object_get_name_def)
qed

section \<open>Examples\<close>

definition example_objects :: objsys where
  "example_objects = \<lparr>omem = (\<lambda>_. Some 0)(200 := Some 115, 201 := Some 101, 202 := Some 109),
     container = object_container (\<lambda>_. 24), customs = (\<lambda>_. (None, 0))\<rparr>"

lemma example_objects_ok:
  "objsys_ok example_objects" "registered example_objects = []"
  by (simp_all add: objsys_ok_def registered_def example_objects_def object_container_def object_classes_def)

lemma example_fresh: "n \<le> 24 \<Longrightarrow> fresh_object example_objects 100 n"
  by (simp add: fresh_object_def example_objects_ok) (simp add: mapped_def example_objects_def)

lemma example_name: "name_at (omem example_objects) 200 [115, 101, 109]" "disjoint 100 24 200 8" "disjoint 100 20 200 8"
  by (simp_all add: name_at_def example_objects_def disjoint_def)

lemma example_critical: "lock_ok example_kernel" "not_in_interrupt example_kernel"
  by (simp_all add: lock_ok_def not_in_interrupt_def rt_interrupt_get_nest_def example_kernel_def)

theorem object_init_registers_witness:
  "\<exists>s' k'. rt_object_init 100 2 200 example_objects example_kernel = Some (s', k') \<and>
    registry 2 s' = [(100, [115, 101, 109])]"
proof -
  have "(2 :: u8) \<in> set object_classes" by (simp add: object_classes_def)
  from object_init_registers[OF example_objects_ok(1) this example_fresh _ example_name(1,3) example_sysinv example_critical]
  show ?thesis by (auto simp: registry_def example_objects_def object_container_def object_classes_def
      rt_object_get_information_def objects_at_def)
qed

theorem object_allocate_registers_witness:
  "\<exists>s'. rt_object_allocate 100 2 200 example_objects example_kernel = Some (100, s') \<and>
    registry 2 s' = [(100, [115, 101, 109])]"
proof -
  have c: "(2 :: u8) \<in> set object_classes" by (simp add: object_classes_def)
  have i: "rt_object_get_information 2 example_objects = Some 1"
    by (simp add: rt_object_get_information_def example_objects_def object_container_def object_classes_def)
  have z: "object_size (container example_objects ! 1) = 24"
    by (simp add: example_objects_def object_container_def object_classes_def)
  have "registry 2 example_objects = []"
    by (simp add: registry_def i objects_at_def) (simp add: example_objects_def object_container_def object_classes_def)
  moreover note object_allocate_registers[OF example_objects_ok(1) c i _ example_name(1) _ example_critical(2), of 100]
  ultimately show ?thesis using example_fresh[of 24] example_name(2) by (auto simp: z z[simplified])
qed

theorem object_queries_witness:
  "rt_object_get_pointers 2 5 example_objects = Some []"
proof -
  have "(2 :: u8) \<in> set object_classes" by (simp add: object_classes_def)
  from object_queries[OF example_objects_ok(1) this _ example_name(1) example_sysinv example_critical, of 5]
  show ?thesis by (simp add: registry_def example_objects_def object_container_def object_classes_def
      rt_object_get_information_def objects_at_def)
qed

theorem custom_objects_fail_witness:
  "rt_custom_object_create 100 200 0 None example_objects example_kernel = None"
  using custom_objects_fail[OF example_objects_ok(1)] by blast

end
