(* ===== verification/Device.thy ===== *)
theory Device
  imports Object Mutex
begin

text \<open>
  The device framework, \<open>components/drivers/core/device.c\<close>: devices are kernel objects with a reference count,
  flags, and the functions of their driver, which are parameters of the model. The object part of a device is in
  the object system of Object at the address of the device, the other fields are a record found by it. A driver
  function reads and writes the record of its device and a state of the hardware; a null function is None.
\<close>

section \<open>Data\<close>

abbreviation RT_Object_Class_Device :: u8 where "RT_Object_Class_Device \<equiv> 9"

abbreviation RT_DEVICE_FLAG_STANDALONE :: u16 where "RT_DEVICE_FLAG_STANDALONE \<equiv> 0x008"
abbreviation RT_DEVICE_FLAG_ACTIVATED :: u16 where "RT_DEVICE_FLAG_ACTIVATED \<equiv> 0x010"
abbreviation RT_DEVICE_OFLAG_CLOSE :: u16 where "RT_DEVICE_OFLAG_CLOSE \<equiv> 0x000"
abbreviation RT_DEVICE_OFLAG_OPEN :: u16 where "RT_DEVICE_OFLAG_OPEN \<equiv> 0x008"
abbreviation RT_DEVICE_OFLAG_MASK :: u16 where "RT_DEVICE_OFLAG_MASK \<equiv> 0xf0f"

record rt_device =
  device_class :: int
  dev_flag :: u16
  open_flag :: u16
  ref_count :: u8
  rx_indicate :: u32
  tx_complete :: u32

record 'h driver =
  device_init :: "(rt_device \<Rightarrow> 'h \<Rightarrow> rt_err_t \<times> rt_device \<times> 'h) option"
  device_open :: "(u16 \<Rightarrow> rt_device \<Rightarrow> 'h \<Rightarrow> rt_err_t \<times> rt_device \<times> 'h) option"
  device_close :: "(rt_device \<Rightarrow> 'h \<Rightarrow> rt_err_t \<times> rt_device \<times> 'h) option"
  device_read :: "(int \<Rightarrow> u32 \<Rightarrow> u32 \<Rightarrow> rt_device \<Rightarrow> 'h \<Rightarrow> int \<times> rt_device \<times> 'h) option"
  device_write :: "(int \<Rightarrow> u32 \<Rightarrow> u32 \<Rightarrow> rt_device \<Rightarrow> 'h \<Rightarrow> int \<times> rt_device \<times> 'h) option"
  device_control :: "(int \<Rightarrow> u32 \<Rightarrow> rt_device \<Rightarrow> 'h \<Rightarrow> rt_err_t \<times> rt_device \<times> 'h) option"

record 'h devsys =
  objs :: objsys
  devices :: "u32 \<Rightarrow> rt_device"
  drivers :: "u32 \<Rightarrow> 'h driver"
  hardware :: 'h

definition upd_dev :: "u32 \<Rightarrow> (rt_device \<Rightarrow> rt_device) \<Rightarrow> 'h devsys \<Rightarrow> 'h devsys" where
  "upd_dev dev f s = s\<lparr>devices := (devices s)(dev := f (devices s dev))\<rparr>"

text \<open>Calling a function of the driver of \<open>dev\<close>.\<close>

definition call_driver :: "u32 \<Rightarrow> (rt_device \<Rightarrow> 'h \<Rightarrow> 'r \<times> rt_device \<times> 'h) \<Rightarrow> 'h devsys \<Rightarrow> 'r \<times> 'h devsys" where
  "call_driver dev f s =
     (let (r, d, h) = f (devices s dev) (hardware s)
      in (r, s\<lparr>devices := (devices s)(dev := d), hardware := h\<rparr>))"

section \<open>Operations\<close>

definition rt_device_find :: "u32 \<Rightarrow> 'h devsys \<Rightarrow> kernel \<Rightarrow> (u32 \<times> kernel) option" where
  "rt_device_find name s k = rt_object_find name RT_Object_Class_Device (objs s) k"

definition rt_device_register :: "u32 \<Rightarrow> u32 \<Rightarrow> u16 \<Rightarrow> 'h devsys \<Rightarrow> kernel \<Rightarrow> (rt_err_t \<times> 'h devsys \<times> kernel) option" where
  "rt_device_register dev name flags s k =
     (if dev = 0 then Some (- RT_ERROR, s, k)
      else do {
        (found, k) \<leftarrow> rt_device_find name s k;
        if found \<noteq> 0 then Some (- RT_ERROR, s, k)
        else do {
          (os, k) \<leftarrow> rt_object_init dev RT_Object_Class_Device name (objs s) k;
          let s = upd_dev dev (\<lambda>d. d\<lparr>dev_flag := flags, ref_count := 0, open_flag := 0\<rparr>) (s\<lparr>objs := os\<rparr>);
          Some (RT_EOK, s, k) } })"

text \<open>The check that an address is that of a registered device.\<close>

definition assert_device :: "u32 \<Rightarrow> 'h devsys \<Rightarrow> unit option" where
  "assert_device dev s =
     do { rt_assert (dev \<noteq> 0);
          type \<leftarrow> rt_object_get_type dev (objs s);
          rt_assert (type = RT_Object_Class_Device) }"

definition rt_device_unregister :: "u32 \<Rightarrow> 'h devsys \<Rightarrow> (rt_err_t \<times> 'h devsys) option" where
  "rt_device_unregister dev s =
     do { assert_device dev s;
          static \<leftarrow> rt_object_is_systemobject dev (objs s);
          rt_assert static;
          os \<leftarrow> rt_object_detach dev (objs s);
          Some (RT_EOK, s\<lparr>objs := os\<rparr>) }"

text \<open>\<open>dev\<close> is the result of the allocation, \<open>sizeof\<close> the size of the structure.\<close>

definition rt_device_create :: "u32 \<Rightarrow> u32 \<Rightarrow> int \<Rightarrow> 'h devsys \<Rightarrow> (u32 \<times> 'h devsys) option" where
  "rt_device_create dev sizeof type s =
     (if dev = 0 then Some (0, s)
      else do {
        m \<leftarrow> rt_memset (omem (objs s)) dev 0 sizeof;
        Some (dev, s\<lparr>objs := (objs s)\<lparr>omem := m\<rparr>,
          devices := (devices s)(dev := \<lparr>device_class = type, dev_flag = 0, open_flag = 0, ref_count = 0,
            rx_indicate = 0, tx_complete = 0\<rparr>),
          drivers := (drivers s)(dev := \<lparr>device_init = None, device_open = None, device_close = None,
            device_read = None, device_write = None, device_control = None\<rparr>)\<rparr>) })"

definition rt_device_destroy :: "u32 \<Rightarrow> 'h devsys \<Rightarrow> 'h devsys option" where
  "rt_device_destroy dev s =
     do { assert_device dev s;
          static \<leftarrow> rt_object_is_systemobject dev (objs s);
          rt_assert (\<not> static);
          os \<leftarrow> rt_object_detach dev (objs s);
          Some (s\<lparr>objs := os\<rparr>) }"

definition rt_device_init :: "u32 \<Rightarrow> 'h devsys \<Rightarrow> (rt_err_t \<times> 'h devsys) option" where
  "rt_device_init dev s =
     do { rt_assert (dev \<noteq> 0);
          case device_init (drivers s dev) of
            None \<Rightarrow> Some (RT_EOK, s)
          | Some f \<Rightarrow>
              if dev_flag (devices s dev) AND RT_DEVICE_FLAG_ACTIVATED = 0
              then (let (result, s) = call_driver dev f s
                    in if result \<noteq> RT_EOK then Some (result, s)
                       else Some (result, upd_dev dev (\<lambda>d. d\<lparr>dev_flag := dev_flag d OR RT_DEVICE_FLAG_ACTIVATED\<rparr>) s))
              else Some (RT_EOK, s) }"

text \<open>The three parts of \<open>rt_device_open\<close>: the initialisation of a device that is not activated, the call of the
  driver, and the count.\<close>

definition open_init :: "u32 \<Rightarrow> 'h devsys \<Rightarrow> rt_err_t \<times> 'h devsys" where
  "open_init dev s =
     (if dev_flag (devices s dev) AND RT_DEVICE_FLAG_ACTIVATED = 0
      then let (result, s) = (case device_init (drivers s dev) of
                 None \<Rightarrow> (RT_EOK, s)
               | Some f \<Rightarrow> call_driver dev f s)
           in if result \<noteq> RT_EOK then (result, s)
              else (result, upd_dev dev (\<lambda>d. d\<lparr>dev_flag := dev_flag d OR RT_DEVICE_FLAG_ACTIVATED\<rparr>) s)
      else (RT_EOK, s))"

definition open_driver :: "u32 \<Rightarrow> u16 \<Rightarrow> 'h devsys \<Rightarrow> rt_err_t \<times> 'h devsys" where
  "open_driver dev oflag s =
     (let d = devices s dev in
      if open_flag d AND RT_DEVICE_OFLAG_OPEN = 0 \<or>
         open_flag d AND RT_DEVICE_OFLAG_MASK \<noteq> oflag AND RT_DEVICE_OFLAG_MASK
      then case device_open (drivers s dev) of
             Some f \<Rightarrow> call_driver dev (f oflag) s
           | None \<Rightarrow> (RT_EOK, upd_dev dev (\<lambda>d. d\<lparr>open_flag := oflag AND RT_DEVICE_OFLAG_MASK\<rparr>) s)
      else (RT_EOK, s))"

definition open_count :: "u32 \<Rightarrow> rt_err_t \<Rightarrow> 'h devsys \<Rightarrow> (rt_err_t \<times> 'h devsys) option" where
  "open_count dev result s =
     (if result = RT_EOK \<or> result = - RT_ENOSYS
      then do { let s = upd_dev dev (\<lambda>d. d\<lparr>open_flag := open_flag d OR RT_DEVICE_OFLAG_OPEN, ref_count := ref_count d + 1\<rparr>) s;
                rt_assert (ref_count (devices s dev) \<noteq> 0);
                Some (result, s) }
      else Some (result, s))"

definition rt_device_open :: "u32 \<Rightarrow> u16 \<Rightarrow> 'h devsys \<Rightarrow> (rt_err_t \<times> 'h devsys) option" where
  "rt_device_open dev oflag s =
     do { assert_device dev s;
          let (result, s) = open_init dev s;
          if result \<noteq> RT_EOK then Some (result, s)
          else if dev_flag (devices s dev) AND RT_DEVICE_FLAG_STANDALONE \<noteq> 0 \<and>
                  open_flag (devices s dev) AND RT_DEVICE_OFLAG_OPEN \<noteq> 0 then Some (- RT_EBUSY, s)
          else (let (result, s) = open_driver dev oflag s in open_count dev result s) }"

definition rt_device_close :: "u32 \<Rightarrow> 'h devsys \<Rightarrow> (rt_err_t \<times> 'h devsys) option" where
  "rt_device_close dev s =
     do { assert_device dev s;
          if ref_count (devices s dev) = 0 then Some (- RT_ERROR, s)
          else do {
            let s = upd_dev dev (\<lambda>d. d\<lparr>ref_count := ref_count d - 1\<rparr>) s;
            if ref_count (devices s dev) \<noteq> 0 then Some (RT_EOK, s)
            else do {
              let (result, s) = (case device_close (drivers s dev) of
                                   None \<Rightarrow> (RT_EOK, s)
                                 | Some f \<Rightarrow> call_driver dev f s);
              if result = RT_EOK \<or> result = - RT_ENOSYS
              then Some (result, upd_dev dev (\<lambda>d. d\<lparr>open_flag := RT_DEVICE_OFLAG_CLOSE\<rparr>) s)
              else Some (result, s) } } }"

definition rt_device_read :: "u32 \<Rightarrow> int \<Rightarrow> u32 \<Rightarrow> u32 \<Rightarrow> 'h devsys \<Rightarrow> kernel \<Rightarrow> (int \<times> 'h devsys \<times> kernel) option" where
  "rt_device_read dev pos buffer sz s k =
     do { assert_device dev s;
          if ref_count (devices s dev) = 0 then Some (0, s, rt_set_errno (- RT_ERROR) k)
          else case device_read (drivers s dev) of
                 Some f \<Rightarrow> (let (n, s) = call_driver dev (f pos buffer sz) s in Some (n, s, k))
               | None \<Rightarrow> Some (0, s, rt_set_errno (- RT_ENOSYS) k) }"

definition rt_device_write :: "u32 \<Rightarrow> int \<Rightarrow> u32 \<Rightarrow> u32 \<Rightarrow> 'h devsys \<Rightarrow> kernel \<Rightarrow> (int \<times> 'h devsys \<times> kernel) option" where
  "rt_device_write dev pos buffer sz s k =
     do { assert_device dev s;
          if ref_count (devices s dev) = 0 then Some (0, s, rt_set_errno (- RT_ERROR) k)
          else case device_write (drivers s dev) of
                 Some f \<Rightarrow> (let (n, s) = call_driver dev (f pos buffer sz) s in Some (n, s, k))
               | None \<Rightarrow> Some (0, s, rt_set_errno (- RT_ENOSYS) k) }"

definition rt_device_control :: "u32 \<Rightarrow> int \<Rightarrow> u32 \<Rightarrow> 'h devsys \<Rightarrow> (rt_err_t \<times> 'h devsys) option" where
  "rt_device_control dev cmd arg s =
     do { assert_device dev s;
          case device_control (drivers s dev) of
            Some f \<Rightarrow> Some (call_driver dev (f cmd arg) s)
          | None \<Rightarrow> Some (- RT_ENOSYS, s) }"

definition rt_device_set_rx_indicate :: "u32 \<Rightarrow> u32 \<Rightarrow> 'h devsys \<Rightarrow> (rt_err_t \<times> 'h devsys) option" where
  "rt_device_set_rx_indicate dev f s =
     do { assert_device dev s; Some (RT_EOK, upd_dev dev (\<lambda>d. d\<lparr>rx_indicate := f\<rparr>) s) }"

definition rt_device_set_tx_complete :: "u32 \<Rightarrow> u32 \<Rightarrow> 'h devsys \<Rightarrow> (rt_err_t \<times> 'h devsys) option" where
  "rt_device_set_tx_complete dev f s =
     do { assert_device dev s; Some (RT_EOK, upd_dev dev (\<lambda>d. d\<lparr>tx_complete := f\<rparr>) s) }"

section \<open>The reference count\<close>

text \<open>What is relied on of a driver: it leaves the reference count to the framework, only a successful open or a
  successful close changes the bit that says the device is open, and initialising never fails with \<open>-RT_ENOSYS\<close>, which
  \<open>rt_device_open\<close> returns for a device that has been opened.\<close>

definition opened :: "rt_device \<Rightarrow> bool" where
  "opened d \<longleftrightarrow> open_flag d AND RT_DEVICE_OFLAG_OPEN \<noteq> 0"

definition succeeded :: "rt_err_t \<Rightarrow> bool" where
  "succeeded r \<longleftrightarrow> r = RT_EOK \<or> r = - RT_ENOSYS"

definition driver_ok :: "'h driver \<Rightarrow> bool" where
  "driver_ok v \<longleftrightarrow>
     (\<forall>f d h r d' h'. device_init v = Some f \<longrightarrow> f d h = (r, d', h') \<longrightarrow>
        ref_count d' = ref_count d \<and> opened d' = opened d \<and> r \<noteq> - RT_ENOSYS) \<and>
     (\<forall>f fl d h r d' h'. device_open v = Some f \<longrightarrow> f fl d h = (r, d', h') \<longrightarrow>
        ref_count d' = ref_count d \<and> (\<not> succeeded r \<longrightarrow> opened d' = opened d)) \<and>
     (\<forall>f d h r d' h'. device_close v = Some f \<longrightarrow> f d h = (r, d', h') \<longrightarrow>
        ref_count d' = ref_count d \<and> (\<not> succeeded r \<longrightarrow> opened d' = opened d))"

lemma upd_dev_simps [simp]:
  "objs (upd_dev dev f s) = objs s" "drivers (upd_dev dev f s) = drivers s" "hardware (upd_dev dev f s) = hardware s"
  "devices (upd_dev dev f s) x = (if x = dev then f (devices s dev) else devices s x)"
  by (simp_all add: upd_dev_def)

lemma assert_device_cong: "objs s' = objs s \<Longrightarrow> assert_device dev s' = assert_device dev s"
  by (simp add: assert_device_def)

lemma call_driver_frame:
  "call_driver dev f s = (r, s') \<Longrightarrow> objs s' = objs s \<and> drivers s' = drivers s \<and>
    f (devices s dev) (hardware s) = (r, devices s' dev, hardware s')"
  by (auto simp: call_driver_def split: prod.splits)

lemma or_open [simp]: "opened (d\<lparr>open_flag := x OR RT_DEVICE_OFLAG_OPEN, ref_count := n\<rparr>)"
proof -
  have "(x OR RT_DEVICE_OFLAG_OPEN) AND RT_DEVICE_OFLAG_OPEN = RT_DEVICE_OFLAG_OPEN"
    by (rule bit_word_eqI) (auto simp: bit_simps)
  then show ?thesis by (simp add: opened_def)
qed

lemma or_open' [simp]: "opened (d\<lparr>open_flag := x OR RT_DEVICE_OFLAG_OPEN\<rparr>)"
  using or_open[of _ x] by (simp add: opened_def)

lemma opened_simps [simp]:
  "opened (d\<lparr>ref_count := n\<rparr>) = opened d" "\<not> opened (d\<lparr>open_flag := RT_DEVICE_OFLAG_CLOSE\<rparr>)"
  by (simp_all add: opened_def)

lemma open_init_frame:
  assumes "driver_ok (drivers s dev)" "open_init dev s = (r, s')"
  shows "objs s' = objs s" "drivers s' = drivers s" "ref_count (devices s' dev) = ref_count (devices s dev)"
    "opened (devices s' dev) = opened (devices s dev)"
    "r \<noteq> RT_EOK \<Longrightarrow> \<not> succeeded r"
proof -
  have "objs s' = objs s \<and> drivers s' = drivers s \<and> ref_count (devices s' dev) = ref_count (devices s dev) \<and>
    opened (devices s' dev) = opened (devices s dev) \<and>
    (r \<noteq> RT_EOK \<longrightarrow> \<not> succeeded r)"
  proof (cases "device_init (drivers s dev)")
    case None
    with assms(2) show ?thesis by (auto simp: open_init_def opened_def succeeded_def split: if_splits)
  next
    case (Some f)
    obtain r1 s1 where c: "call_driver dev f s = (r1, s1)" by force
    note F = call_driver_frame[OF c]
    with assms(1) Some have "ref_count (devices s1 dev) = ref_count (devices s dev)"
      "opened (devices s1 dev) = opened (devices s dev)" "r1 \<noteq> - RT_ENOSYS"
      unfolding driver_ok_def by blast+
    with F c Some assms(2) show ?thesis
      by (auto simp: open_init_def opened_def succeeded_def Let_def split: if_splits)
  qed
  then show "objs s' = objs s" "drivers s' = drivers s" "ref_count (devices s' dev) = ref_count (devices s dev)"
    "opened (devices s' dev) = opened (devices s dev)"
    "r \<noteq> RT_EOK \<Longrightarrow> \<not> succeeded r" by blast+
qed

lemma open_driver_frame:
  assumes "driver_ok (drivers s dev)" "open_driver dev oflag s = (r, s')"
  shows "objs s' = objs s" "drivers s' = drivers s" "ref_count (devices s' dev) = ref_count (devices s dev)"
    "\<not> succeeded r \<Longrightarrow> opened (devices s' dev) = opened (devices s dev)"
proof -
  have "objs s' = objs s \<and> drivers s' = drivers s \<and> ref_count (devices s' dev) = ref_count (devices s dev) \<and>
    (\<not> succeeded r \<longrightarrow> opened (devices s' dev) = opened (devices s dev))"
  proof (cases "device_open (drivers s dev)")
    case None
    with assms(2) show ?thesis by (auto simp: open_driver_def succeeded_def Let_def split: if_splits)
  next
    case (Some f)
    obtain r1 s1 where c: "call_driver dev (f oflag) s = (r1, s1)" by force
    note F = call_driver_frame[OF c]
    with assms(1) Some have "ref_count (devices s1 dev) = ref_count (devices s dev)"
      "\<not> succeeded r1 \<longrightarrow> opened (devices s1 dev) = opened (devices s dev)" unfolding driver_ok_def by blast+
    with F c Some assms(2) show ?thesis by (auto simp: open_driver_def Let_def split: if_splits)
  qed
  then show "objs s' = objs s" "drivers s' = drivers s" "ref_count (devices s' dev) = ref_count (devices s dev)"
    "\<not> succeeded r \<Longrightarrow> opened (devices s' dev) = opened (devices s dev)" by blast+
qed

lemma ref_succ:
  fixes n :: u8
  shows "n + 1 = 0 \<longleftrightarrow> unat n = 255" "n + 1 \<noteq> 0 \<Longrightarrow> unat (n + 1) = unat n + 1"
proof -
  have "unat n < 256" using unsigned_less[of n, where 'a = nat] by simp
  moreover have "unat (n + 1) = (unat n + 1) mod 256" by (simp add: unat_word_ariths)
  ultimately have m: "unat (n + 1) = (if unat n = 255 then 0 else unat n + 1)" by simp
  show z: "n + 1 = 0 \<longleftrightarrow> unat n = 255"
    unfolding unat_eq_0[symmetric] m by simp
  show "n + 1 \<noteq> 0 \<Longrightarrow> unat (n + 1) = unat n + 1" unfolding z m by simp
qed

lemma ref_pred: "n \<noteq> 0 \<Longrightarrow> unat (n - 1 :: u8) = unat n - 1"
  by (simp add: unat_minus_one)

lemma device_open_effect:
  assumes a: "assert_device dev s = Some ()" "driver_ok (drivers s dev)"
  shows "case rt_device_open dev oflag s of
      None \<Rightarrow> unat (ref_count (devices s dev)) = 255
    | Some (r, s') \<Rightarrow> objs s' = objs s \<and> drivers s' = drivers s \<and>
        unat (ref_count (devices s' dev)) = unat (ref_count (devices s dev)) + (if succeeded r then 1 else 0) \<and>
        opened (devices s' dev) = (succeeded r \<or> opened (devices s dev))"
proof -
  obtain r1 s1 where i: "open_init dev s = (r1, s1)" by force
  note I = open_init_frame[OF a(2) i]
  obtain r2 s2 where d: "open_driver dev oflag s1 = (r2, s2)" by force
  have "driver_ok (drivers s1 dev)" using a(2) I(2) by simp
  note D = open_driver_frame[OF this d]
  let ?busy = "dev_flag (devices s1 dev) AND RT_DEVICE_FLAG_STANDALONE \<noteq> 0 \<and>
        open_flag (devices s1 dev) AND RT_DEVICE_OFLAG_OPEN \<noteq> 0"
  let ?s = "upd_dev dev (\<lambda>d. d\<lparr>open_flag := open_flag d OR RT_DEVICE_OFLAG_OPEN, ref_count := ref_count d + 1\<rparr>) s2"
  consider (init) "r1 \<noteq> RT_EOK" | (busy) "r1 = RT_EOK" "?busy"
    | (failed) "r1 = RT_EOK" "\<not> ?busy" "\<not> succeeded r2"
    | (good) "r1 = RT_EOK" "\<not> ?busy" "succeeded r2" by blast
  then show ?thesis
  proof cases
    case init
    then have "rt_device_open dev oflag s = Some (r1, s1)" using a(1) i by (simp add: rt_device_open_def)
    then show ?thesis using I(1-4) I(5)[OF init] by simp
  next
    case busy
    then have "rt_device_open dev oflag s = Some (- RT_EBUSY, s1)" using a(1) i by (simp add: rt_device_open_def)
    then show ?thesis using I by (simp add: succeeded_def)
  next
    case failed
    then have "rt_device_open dev oflag s = Some (r2, s2)"
      using a(1) i d by (auto simp: rt_device_open_def open_count_def succeeded_def)
    then show ?thesis using failed(3) I(1-4) D by simp
  next
    case good
    have n: "ref_count (devices s2 dev) = ref_count (devices s dev)" using I(3) D(3) by simp
    have "rt_device_open dev oflag s =
        (if unat (ref_count (devices s dev)) = 255 then None else Some (r2, ?s))"
      using good a(1) i d ref_succ(1)[of "ref_count (devices s dev)"] n
      by (auto simp: rt_device_open_def open_count_def succeeded_def Let_def rt_assert_def)
    then show ?thesis using good(3) I(1,2) D(1,2) ref_succ[of "ref_count (devices s dev)"] n by simp
  qed
qed

text \<open>A close without references fails; one that leaves references only counts; the last one also clears the mark,
  unless the driver fails to close.\<close>

lemma device_close_effect:
  assumes a: "assert_device dev s = Some ()" "driver_ok (drivers s dev)"
  obtains r s' where "rt_device_close dev s = Some (r, s')" "objs s' = objs s" "drivers s' = drivers s"
    "unat (ref_count (devices s' dev)) = unat (ref_count (devices s dev)) - 1"
    "ref_count (devices s dev) = 0 \<Longrightarrow> r = - RT_ERROR"
    "unat (ref_count (devices s dev)) > 1 \<Longrightarrow> r = RT_EOK"
    "opened (devices s' dev) = (opened (devices s dev) \<and> \<not> (unat (ref_count (devices s dev)) = 1 \<and> succeeded r))"
proof (cases "ref_count (devices s dev) = 0")
  case True
  then show ?thesis using a by (intro that[of "- RT_ERROR" s]) (simp_all add: rt_device_close_def)
next
  case False
  let ?s = "upd_dev dev (\<lambda>d. d\<lparr>ref_count := ref_count d - 1\<rparr>) s"
  note n = ref_pred[OF False]
  have pos: "0 < unat (ref_count (devices s dev))" using False by (simp add: unat_gt_0)
  show ?thesis
  proof (cases "ref_count (devices ?s dev) = 0")
    case more: False
    then have "unat (ref_count (devices s dev)) \<noteq> 1" using n by (auto simp: unat_eq_0[symmetric])
    then show ?thesis using a False n more
      by (intro that[of RT_EOK ?s]) (simp_all add: rt_device_close_def)
  next
    case True
    then have one: "unat (ref_count (devices s dev)) = 1" using n pos by simp
    obtain r s1 where c: "(case device_close (drivers ?s dev) of None \<Rightarrow> (RT_EOK, ?s) | Some f \<Rightarrow> call_driver dev f ?s) = (r, s1)"
      by force
    have F: "objs s1 = objs s \<and> drivers s1 = drivers s \<and> ref_count (devices s1 dev) = 0 \<and>
        (\<not> succeeded r \<longrightarrow> opened (devices s1 dev) = opened (devices s dev))"
    proof (cases "device_close (drivers s dev)")
      case None
      then show ?thesis using c True by (auto simp: succeeded_def)
    next
      case (Some f)
      with c have "call_driver dev f ?s = (r, s1)" by simp
      note F = call_driver_frame[OF this]
      then have "ref_count (devices s1 dev) = ref_count (devices ?s dev) \<and>
          (\<not> succeeded r \<longrightarrow> opened (devices s1 dev) = opened (devices ?s dev))"
        using a(2) Some unfolding driver_ok_def by blast
      then show ?thesis using F True by simp
    qed
    let ?s2 = "if succeeded r then upd_dev dev (\<lambda>d. d\<lparr>open_flag := RT_DEVICE_OFLAG_CLOSE\<rparr>) s1 else s1"
    have "rt_device_close dev s = Some (r, ?s2)"
      using a(1) False True c by (simp add: rt_device_close_def succeeded_def Let_def)
    then show ?thesis using F one False by (intro that[of r ?s2]) simp_all
  qed
qed

text \<open>A sequence of opens and closes of one device, with the results of the calls.\<close>

datatype dev_call = Open u16 | Close

fun dev_run :: "u32 \<Rightarrow> dev_call list \<Rightarrow> 'h devsys \<Rightarrow> (rt_err_t list \<times> 'h devsys) option" where
  "dev_run dev [] s = Some ([], s)"
| "dev_run dev (c # cs) s =
     do { (r, s) \<leftarrow> (case c of Open oflag \<Rightarrow> rt_device_open dev oflag s | Close \<Rightarrow> rt_device_close dev s);
          (rs, s) \<leftarrow> dev_run dev cs s;
          Some (r # rs, s) }"

text \<open>The calls as their callers see them, from a number of references and a mark to another: an open that succeeds
  adds a reference and marks the device, one that fails changes nothing; a close fails when there is no
  reference, takes one away otherwise, and the close of the last one also takes the mark away if it succeeds.\<close>

fun dev_log :: "nat \<times> bool \<Rightarrow> dev_call list \<Rightarrow> rt_err_t list \<Rightarrow> nat \<times> bool \<Rightarrow> bool" where
  "dev_log v [] [] v' \<longleftrightarrow> v' = v"
| "dev_log (n, m) (Open oflag # cs) (r # rs) v' \<longleftrightarrow>
     dev_log (if succeeded r then (n + 1, True) else (n, m)) cs rs v'"
| "dev_log (n, m) (Close # cs) (r # rs) v' \<longleftrightarrow>
     (n = 0 \<longrightarrow> r = - RT_ERROR) \<and> (1 < n \<longrightarrow> r = RT_EOK) \<and>
     dev_log (n - 1, m \<and> \<not> (n = 1 \<and> succeeded r)) cs rs v'"
| "dev_log _ _ _ _ \<longleftrightarrow> False"

text \<open>What the framework keeps of a device: its references and its mark.\<close>

definition dev_view :: "u32 \<Rightarrow> 'h devsys \<Rightarrow> nat \<times> bool" where
  "dev_view dev s = (unat (ref_count (devices s dev)), opened (devices s dev))"

lemma dev_run_log:
  assumes "assert_device dev s = Some ()" "driver_ok (drivers s dev)"
  shows "case dev_run dev cs s of
      Some (rs, s') \<Rightarrow> dev_log (dev_view dev s) cs rs (dev_view dev s')
    | None \<Rightarrow> \<exists>cs1 oflag cs2 rs s1. cs = cs1 @ Open oflag # cs2 \<and> dev_run dev cs1 s = Some (rs, s1) \<and>
        dev_log (dev_view dev s) cs1 rs (dev_view dev s1) \<and> fst (dev_view dev s1) = 255"
  using assms
proof (induction cs arbitrary: s)
  case (Cons c cs)
  let ?one = "\<lambda>s. case c of Open oflag \<Rightarrow> rt_device_open dev oflag s | Close \<Rightarrow> rt_device_close dev s"
  show ?case
  proof (cases "?one s")
    case None
    obtain oflag where o1: "c = Open oflag" "rt_device_open dev oflag s = None"
    proof (cases c)
      case Close
      obtain r s' where "rt_device_close dev s = Some (r, s')" by (rule device_close_effect[OF Cons.prems])
      then show ?thesis using None Close by simp
    qed (use None that in simp)
    have "fst (dev_view dev s) = 255"
      using device_open_effect[OF Cons.prems, of oflag] o1(2) by (simp add: dev_view_def)
    moreover have "c # cs = [] @ Open oflag # cs" "dev_run dev [] s = Some ([], s)"
      "dev_log (dev_view dev s) [] [] (dev_view dev s)" using o1(1) by simp_all
    moreover have "(dev_run dev (c # cs) s = None) = True" using None by simp
    ultimately show ?thesis by (simp only: option.case_eq_if if_True) blast
  next
    case (Some p)
    obtain r s1 where p: "?one s = Some (r, s1)" using Some by (cases p) simp
    have S: "objs s1 = objs s \<and> drivers s1 = drivers s \<and>
        (\<forall>cs rs v'. dev_log (dev_view dev s1) cs rs v' \<longrightarrow> dev_log (dev_view dev s) (c # cs) (r # rs) v')"
    proof (cases c)
      case (Open oflag)
      then show ?thesis
        using device_open_effect[OF Cons.prems, of oflag] p by (auto simp: dev_view_def)
    next
      case Close
      obtain r' s' where E: "rt_device_close dev s = Some (r', s')" "objs s' = objs s" "drivers s' = drivers s"
        "unat (ref_count (devices s' dev)) = unat (ref_count (devices s dev)) - 1"
        "ref_count (devices s dev) = 0 \<Longrightarrow> r' = - RT_ERROR"
        "unat (ref_count (devices s dev)) > 1 \<Longrightarrow> r' = RT_EOK"
        "opened (devices s' dev) = (opened (devices s dev) \<and> \<not> (unat (ref_count (devices s dev)) = 1 \<and> succeeded r'))"
        by (rule device_close_effect[OF Cons.prems]) (rule that)
      have "r' = r" "s' = s1" using E(1) p Close by simp_all
      then show ?thesis using E(2-) Close by (simp add: dev_view_def unat_eq_0)
    qed
    have IH: "case dev_run dev cs s1 of
        Some (rs, s') \<Rightarrow> dev_log (dev_view dev s1) cs rs (dev_view dev s')
      | None \<Rightarrow> \<exists>cs1 oflag cs2 rs s2. cs = cs1 @ Open oflag # cs2 \<and> dev_run dev cs1 s1 = Some (rs, s2) \<and>
          dev_log (dev_view dev s1) cs1 rs (dev_view dev s2) \<and> fst (dev_view dev s2) = 255"
      by (rule Cons.IH) (use S Cons.prems assert_device_cong[of s1 s dev] in \<open>simp_all\<close>)
    show ?thesis
    proof (cases "dev_run dev cs s1")
      case None
      with IH obtain cs1 oflag cs2 rs s2 where I: "cs = cs1 @ Open oflag # cs2" "dev_run dev cs1 s1 = Some (rs, s2)"
        "dev_log (dev_view dev s1) cs1 rs (dev_view dev s2)" "fst (dev_view dev s2) = 255" by auto
      have "dev_run dev (c # cs1) s = Some (r # rs, s2)" using p I(2) by simp
      moreover have "dev_log (dev_view dev s) (c # cs1) (r # rs) (dev_view dev s2)" using S I(3) by blast
      moreover have "(dev_run dev (c # cs) s = None) = True" using p None by simp
      ultimately show ?thesis
        using I(1,4) by (simp only: option.case_eq_if if_True append_Cons list.inject simp_thms) (metis append_Cons)
    next
      case (Some q)
      obtain rs s2 where q: "q = (rs, s2)" by force
      have "dev_log (dev_view dev s1) cs rs (dev_view dev s2)" using IH Some q by simp
      then have "dev_log (dev_view dev s) (c # cs) (r # rs) (dev_view dev s2)" using S by blast
      then show ?thesis using Some q p by simp
    qed
  qed
qed (simp add: dev_view_def)

lemma dev_log_marked:
  assumes "dev_log (n, m) cs rs (n', m')" "m = (0 < n)" "\<forall>(c, r) \<in> set (zip cs rs). c = Close \<longrightarrow> r = RT_EOK"
  shows "m' = (0 < n')"
  using assms
proof (induction "(n, m)" cs rs "(n', m')" arbitrary: n m rule: dev_log.induct)
  case (2 n m oflag cs r rs)
  then show ?case by (cases "succeeded r") auto
next
  case (3 n m cs r rs)
  have "n \<noteq> 0" "succeeded r" using 3(2,4) by (auto simp: succeeded_def)
  then show ?case using 3 by (cases "n = 1") auto
qed auto

section \<open>The open flag\<close>

text \<open>The mask of the open flags contains the bit that says the device is open.\<close>

lemma open_flags_differ:
  assumes "oflag AND RT_DEVICE_OFLAG_OPEN = 0" "x AND RT_DEVICE_OFLAG_OPEN \<noteq> 0"
  shows "x AND RT_DEVICE_OFLAG_MASK \<noteq> oflag AND RT_DEVICE_OFLAG_MASK"
proof
  assume e: "x AND RT_DEVICE_OFLAG_MASK = oflag AND RT_DEVICE_OFLAG_MASK"
  have m: "(y AND RT_DEVICE_OFLAG_MASK) AND RT_DEVICE_OFLAG_OPEN = y AND RT_DEVICE_OFLAG_OPEN" for y :: u16
    by (simp add: and.assoc)
  from arg_cong[OF e, of "\<lambda>y. y AND RT_DEVICE_OFLAG_OPEN"] assms show False by (simp only: m)
qed

lemma open_driver_again:
  assumes "oflag AND RT_DEVICE_OFLAG_OPEN = 0" "device_open (drivers s dev) = Some f"
  shows "open_driver dev oflag s = call_driver dev (f oflag) s"
  using assms open_flags_differ[OF assms(1), of "open_flag (devices s dev)"] by (auto simp: open_driver_def Let_def)

section \<open>Registering\<close>

lemma registry_registered: "(x, n) \<in> set (registry t s) \<Longrightarrow> x \<in> set (registered s)"
proof (cases "rt_object_get_information t s")
  case (Some i)
  with registered_at[of i s] information_Some[OF Some]
  show "(x, n) \<in> set (registry t s) \<Longrightarrow> x \<in> set (registered s)"
    by (auto simp: registry_def split: option.splits)
qed (simp add: registry_def)

lemma find_name_None: "find (\<lambda>(_, n'). n' = n) xs = None \<longleftrightarrow> n \<notin> snd ` set xs"
  by (force simp: find_None_iff)

lemma rt_device_register_effect:
  assumes "objsys_ok (objs s)" "fresh_object (objs s) dev 20" "name \<noteq> 0" "name_at (omem (objs s)) name xs"
    "disjoint dev 20 name 8" "sysinv b k" "lock_ok k" "not_in_interrupt k"
  shows "\<exists>r s' k'. rt_device_register dev name flags s k = Some (r, s', k') \<and> sysinv b k' \<and> objsys_ok (objs s') \<and>
    (if take 8 xs \<in> snd ` set (registry RT_Object_Class_Device (objs s)) then r = - RT_ERROR \<and> s' = s
     else r = RT_EOK \<and>
       registry RT_Object_Class_Device (objs s') = (dev, take 8 xs) # registry RT_Object_Class_Device (objs s) \<and>
       assert_device dev s' = Some () \<and> ref_count (devices s' dev) = 0 \<and> dev_flag (devices s' dev) = flags \<and>
       drivers s' = drivers s)"
proof -
  have c: "RT_Object_Class_Device \<in> set object_classes" by (simp add: object_classes_def)
  have d: "dev \<noteq> 0" using assms(2) by (simp add: fresh_object_def)
  obtain k1 where f: "rt_object_find name RT_Object_Class_Device (objs s) k =
      Some (case find (\<lambda>(_, n). n = take 8 xs) (registry RT_Object_Class_Device (objs s)) of None \<Rightarrow> 0 | Some (x, _) \<Rightarrow> x, k1)"
    "sysinv b k1" "lock_ok k1"
    by (rule rt_object_find_first[OF assms(1) c assms(3,4,6-8)]) (rule that)
  show ?thesis
  proof (cases "take 8 xs \<in> snd ` set (registry RT_Object_Class_Device (objs s))")
    case True
    then obtain x n where x: "find (\<lambda>(_, n). n = take 8 xs) (registry RT_Object_Class_Device (objs s)) = Some (x, n)"
      using find_name_None[of "take 8 xs" "registry RT_Object_Class_Device (objs s)"] by fastforce
    then have "(x, n) \<in> set (registry RT_Object_Class_Device (objs s))"
      by (auto simp: find_Some_iff) (metis nth_mem)
    then have "x \<noteq> 0" using registry_registered assms(1) by (fastforce simp: objsys_ok_def)
    moreover have "rt_object_find name RT_Object_Class_Device (objs s) k = Some (x, k1)" using f(1) x by simp
    ultimately have "rt_device_register dev name flags s k = Some (- RT_ERROR, s, k1)"
      using d by (simp add: rt_device_register_def rt_device_find_def)
    with True f(2) assms(1) show ?thesis by auto
  next
    case False
    obtain os k2 where o1: "rt_object_init dev RT_Object_Class_Device name (objs s) k1 = Some (os, k2)" "objsys_ok os"
      "registry RT_Object_Class_Device os = (dev, take 8 xs) # registry RT_Object_Class_Device (objs s)"
      "omem os (dev + 8) = Some (RT_Object_Class_Device OR RT_Object_Class_Static)" "sysinv b k2"
      by (rule rt_object_init_register[OF assms(1) c assms(2,4,5) f(2,3)]) (rule that)
    have "find (\<lambda>(_, n). n = take 8 xs) (registry RT_Object_Class_Device (objs s)) = None"
      using False by (simp only: find_name_None not_False_eq_True)
    with f(1) have none: "rt_object_find name RT_Object_Class_Device (objs s) k = Some (0, k1)" by simp
    let ?s = "upd_dev dev (\<lambda>d. d\<lparr>dev_flag := flags, ref_count := 0, open_flag := 0\<rparr>) (s\<lparr>objs := os\<rparr>)"
    have "rt_device_register dev name flags s k = Some (RT_EOK, ?s, k2)"
      using d none o1(1) by (simp add: rt_device_register_def rt_device_find_def Let_def)
    moreover have "assert_device dev ?s = Some ()"
      using d o1(4) by (simp add: assert_device_def rt_object_get_type_def)
    ultimately show ?thesis
      using False o1(2,3,5) by (intro exI[of _ RT_EOK] exI[of _ ?s] exI[of _ k2] conjI) simp_all
  qed
qed

section \<open>Destroying\<close>

lemma set_bytes_mapped: "set_bytes m a d n = Some m' \<Longrightarrow> mapped m a (unat n)"
proof (induction "unat n" arbitrary: m a n)
  case (Suc j)
  note n = unat_SucD[OF Suc.hyps(2)[symmetric]]
  then obtain m1 where m1: "st m a d = Some m1" "set_bytes m1 (a + 1) d (n - 1) = Some m'"
    using Suc.prems set_bytes_Suc[of n m a d] by (auto simp: Option.bind_eq_Some_conv)
  from Suc.hyps(1)[OF _ m1(2)] n have "mapped m1 (a + 1) j" by simp
  then have "mapped m (a + 1) j" using st_mapped[OF m1(1)] by (simp add: mapped_def)
  moreover have "m a \<noteq> None" using m1(1) by (auto simp: st_def split: if_splits)
  ultimately show ?case unfolding Suc.hyps(2)[symmetric] by (simp add: mapped_Suc)
qed simp

lemma strncpy_pad_frame: "strncpy_pad m d n = Some m' \<Longrightarrow> unat n \<le> unat (b - d) + 1 \<Longrightarrow> n \<noteq> 0 \<Longrightarrow> m' b = m b"
proof (induction m d n rule: strncpy_pad.induct)
  case (1 m d n)
  show ?case
  proof (cases "n - 1 = 0")
    case True
    with 1(2) show ?thesis by (subst (asm) strncpy_pad.simps) simp
  next
    case False
    with 1(2) obtain m1 where m1: "st m d 0 = Some m1" "strncpy_pad m1 (d + 1) (n - 1) = Some m'"
      by (subst (asm) strncpy_pad.simps) (auto simp: Option.bind_eq_Some_conv)
    have n: "unat n = Suc (unat (n - 1))" using 1(4) by (simp add: unat_minus_one unat_gt_0)
    have "0 < unat (n - 1)" using False by (simp only: unat_gt_0 not_False_eq_True)
    with n 1(3) have bd: "b \<noteq> d" by auto
    have "unat (n - 1) \<le> unat (b - (d + 1)) + 1" using n 1(3) unat_diff_Suc[OF bd] by simp
    from 1(1)[OF refl False m1(1) m1(2) this False] st_other[OF m1(1)] bd show ?thesis by metis
  qed
qed

lemma strncpy_loop_frame: "strncpy_loop m d s n = Some m' \<Longrightarrow> unat n \<le> unat (b - d) \<Longrightarrow> n \<noteq> 0 \<Longrightarrow> m' b = m b"
proof (induction m d s n rule: strncpy_loop.induct)
  case (1 m d s n)
  have n: "unat n = Suc (unat (n - 1))" using 1(4) by (simp add: unat_minus_one unat_gt_0)
  with 1(3) have bd: "b \<noteq> d" by auto
  have le: "unat (n - 1) \<le> unat (b - (d + 1))" using n 1(3) unat_diff_Suc[OF bd] by simp
  from 1(2) obtain c m1 where m1: "m s = Some c" "st m d c = Some m1"
    and rest: "(if c = 0 then strncpy_pad m1 (d + 1) n
      else if n - 1 \<noteq> 0 then strncpy_loop m1 (d + 1) (s + 1) (n - 1) else Some m1) = Some m'"
    unfolding strncpy_loop.simps[of m d s n] Option.bind_eq_Some_conv Let_def by blast
  have "m' b = m1 b"
  proof (cases "c = 0")
    case True
    have "unat n \<le> unat (b - (d + 1)) + 1" using le n by simp
    with True rest 1(4) show ?thesis using strncpy_pad_frame[of m1 "d + 1" n m' b] by simp
  next
    case False
    show ?thesis
    proof (cases "n - 1 = 0")
      case True
      with False rest show ?thesis by simp
    next
      case n1: False
      with False rest have "strncpy_loop m1 (d + 1) (s + 1) (n - 1) = Some m'" by simp
      from 1(1)[OF m1 False refl n1 this le n1] show ?thesis .
    qed
  qed
  also have "m1 b = m b" by (rule st_other[OF m1(2) bd[symmetric]])
  finally show ?case .
qed

lemma rt_strncpy_frame: "rt_strncpy m d s n = Some m' \<Longrightarrow> unat n \<le> unat (b - d) \<Longrightarrow> m' b = m b"
  using strncpy_loop_frame[of m d s n m' b] by (simp add: rt_strncpy_def split: if_splits)

lemma rt_object_init_type:
  assumes "rt_object_init x t name s k = Some (s', k')"
  shows "omem s' (x + 8) = Some (t OR RT_Object_Class_Static)"
proof -
  obtain m1 m2 where m: "st (omem s) (x + 8) (t OR RT_Object_Class_Static) = Some m1" "rt_strncpy m1 x name 8 = Some m2"
    "omem s' = m2"
    using assms by (auto simp: rt_object_init_def Let_def Option.bind_eq_Some_conv rt_assert_def split: if_splits)
  have "m2 (x + 8) = m1 (x + 8)" by (rule rt_strncpy_frame[OF m(2)]) simp
  then show ?thesis using m(3) st_same[OF m(1)] by simp
qed

text \<open>The states of a device that was allocated by \<open>rt_device_create\<close>, under the operations of the framework.\<close>

inductive dev_life :: "u32 \<Rightarrow> 'h devsys \<Rightarrow> bool" for dev :: u32 where
  created: "rt_device_create dev sizeof type s = Some (dev, s') \<Longrightarrow> dev \<noteq> 0 \<Longrightarrow> 20 \<le> unat sizeof \<Longrightarrow> dev_life dev s'"
| registered: "dev_life dev s \<Longrightarrow> rt_device_register dev name flags s k = Some (r, s', k') \<Longrightarrow> dev_life dev s'"
| unregistered: "dev_life dev s \<Longrightarrow> rt_device_unregister dev s = Some (r, s') \<Longrightarrow> dev_life dev s'"
| initialised: "dev_life dev s \<Longrightarrow> rt_device_init dev s = Some (r, s') \<Longrightarrow> dev_life dev s'"
| used: "dev_life dev s \<Longrightarrow> dev_run dev cs s = Some (rs, s') \<Longrightarrow> dev_life dev s'"
| controlled: "dev_life dev s \<Longrightarrow> rt_device_control dev cmd arg s = Some (r, s') \<Longrightarrow> dev_life dev s'"
| driver_set: "dev_life dev s \<Longrightarrow> dev_life dev (s\<lparr>drivers := v\<rparr>)"

lemma call_driver_objs: "call_driver dev f s = (r, s') \<Longrightarrow> objs s' = objs s"
  by (auto simp: call_driver_def split: prod.splits)

lemma open_init_objs: "open_init dev s = (r, s') \<Longrightarrow> objs s' = objs s"
  by (auto simp: open_init_def Let_def dest: call_driver_objs split: if_splits option.splits prod.splits)

lemma open_driver_objs: "open_driver dev oflag s = (r, s') \<Longrightarrow> objs s' = objs s"
  by (auto simp: open_driver_def Let_def dest: call_driver_objs split: if_splits option.splits)

lemma rt_device_open_objs:
  assumes "rt_device_open dev oflag s = Some (r, s')"
  shows "objs s' = objs s"
proof -
  obtain r1 s1 r2 s2 where o1: "open_init dev s = (r1, s1)" "open_driver dev oflag s1 = (r2, s2)" by force
  have "s' = s1 \<or> open_count dev r2 s2 = Some (r, s')"
    using assms o1 by (auto simp: rt_device_open_def Option.bind_eq_Some_conv split: if_splits)
  then show ?thesis
    using open_init_objs[OF o1(1)] open_driver_objs[OF o1(2)]
    by (auto simp: open_count_def Let_def Option.bind_eq_Some_conv split: if_splits)
qed

lemma rt_device_close_objs:
  assumes "rt_device_close dev s = Some (r, s')"
  shows "objs s' = objs s"
proof -
  let ?s = "upd_dev dev (\<lambda>d. d\<lparr>ref_count := ref_count d - 1\<rparr>) s"
  obtain r1 s1 where c: "(case device_close (drivers ?s dev) of None \<Rightarrow> (RT_EOK, ?s) | Some f \<Rightarrow> call_driver dev f ?s) = (r1, s1)"
    by force
  then have "objs s1 = objs s" by (auto dest: call_driver_objs split: option.splits)
  with assms c show ?thesis
    by (auto simp: rt_device_close_def Let_def Option.bind_eq_Some_conv split: if_splits)
qed

lemma dev_run_objs: "dev_run dev cs s = Some (rs, s') \<Longrightarrow> objs s' = objs s"
proof (induction dev cs s arbitrary: rs rule: dev_run.induct)
  case (2 dev c cs s)
  then obtain r s1 rs1 where c: "(case c of Open oflag \<Rightarrow> rt_device_open dev oflag s | Close \<Rightarrow> rt_device_close dev s) = Some (r, s1)"
    "dev_run dev cs s1 = Some (rs1, s')" by (auto simp: Option.bind_eq_Some_conv)
  then have "objs s1 = objs s" by (auto dest: rt_device_open_objs rt_device_close_objs split: dev_call.splits)
  with 2(1)[OF c(1) refl c(2)] show ?case by simp
qed simp

lemma dev_life_type:
  "dev_life dev s \<Longrightarrow> omem (objs s) (dev + 8) \<in> {Some 0, Some (RT_Object_Class_Device OR RT_Object_Class_Static)}"
proof (induction rule: dev_life.induct)
  case (created sizeof type s s')
  then obtain m where m: "rt_memset (omem (objs s)) dev 0 sizeof = Some m" "omem (objs s') = m"
    by (auto simp: rt_device_create_def Option.bind_eq_Some_conv)
  then have "mapped (omem (objs s)) dev (unat sizeof)" by (simp add: rt_memset_bytes set_bytes_mapped)
  from rt_memset_write[OF this, of 0] m
  have w: "omem (objs s') = write_at (omem (objs s)) dev (replicate (unat sizeof) (ucast (0 AND 0xff :: u32)))"
    by (simp only: option.inject)
  have "8 < unat sizeof" using created.hyps(3) by simp
  then have "omem (objs s') (dev + 8) = Some (ucast (0 AND 0xff :: u32))" unfolding w write_at_def by simp
  moreover have "(ucast (0 AND 0xff :: u32) :: u8) = 0" by simp
  ultimately show ?case by (simp only: insert_iff simp_thms)
next
  case (registered s name flags k r s' k')
  then have "s' = s \<or> (\<exists>os k1 k2. rt_object_init dev RT_Object_Class_Device name (objs s) k1 = Some (os, k2) \<and> objs s' = os)"
    by (auto simp: rt_device_register_def Option.bind_eq_Some_conv split: if_splits)
  then show ?case using rt_object_init_type registered.IH by blast
next
  case (unregistered s r s')
  then obtain m where m: "st (omem (objs s)) (dev + 8) 0 = Some m" "omem (objs s') = m"
    by (auto simp: rt_device_unregister_def rt_object_detach_def unlink_object_def Option.bind_eq_Some_conv)
  then show ?case using st_same[OF m(1)] by simp
next
  case (initialised s r s')
  then have "objs s' = objs s"
    by (auto simp: rt_device_init_def Option.bind_eq_Some_conv Let_def dest: call_driver_objs
        split: if_splits option.splits prod.splits)
  with initialised show ?case by simp
next
  case (used s cs rs s')
  then show ?case using dev_run_objs by fastforce
next
  case (controlled s cmd arg r s')
  then have "objs s' = objs s"
    by (auto simp: rt_device_control_def Option.bind_eq_Some_conv dest: call_driver_objs split: option.splits)
  with controlled show ?case by simp
next
  case (driver_set s v)
  then show ?case by simp
qed

section \<open>The theorems\<close>

text \<open>Registering a device. In a well-formed object system whose devices have different names,
  \<open>rt_device_register\<close> returns: if a device with the same first 8 characters is registered it fails with
  \<open>-RT_ERROR\<close> and changes nothing; otherwise the device is entered with its flags and without references, and
  later calls accept its address. In both cases the names of the devices stay different from each other.\<close>
theorem device_names_unique:
  assumes "objsys_ok (objs s)" "distinct (List.map snd (registry RT_Object_Class_Device (objs s)))"
    and "fresh_object (objs s) dev 20" "name \<noteq> 0" "name_at (omem (objs s)) name xs" "disjoint dev 20 name 8"
    and "sysinv b k" "lock_ok k" "not_in_interrupt k"
  shows "\<exists>r s' k'. rt_device_register dev name flags s k = Some (r, s', k') \<and> sysinv b k' \<and> objsys_ok (objs s') \<and>
    distinct (List.map snd (registry RT_Object_Class_Device (objs s'))) \<and>
    (if take 8 xs \<in> snd ` set (registry RT_Object_Class_Device (objs s)) then r = - RT_ERROR \<and> s' = s
     else r = RT_EOK \<and>
       registry RT_Object_Class_Device (objs s') = (dev, take 8 xs) # registry RT_Object_Class_Device (objs s) \<and>
       assert_device dev s' = Some () \<and> ref_count (devices s' dev) = 0 \<and> dev_flag (devices s' dev) = flags)"
proof -
  obtain r s' k' where r: "rt_device_register dev name flags s k = Some (r, s', k')" "sysinv b k'" "objsys_ok (objs s')"
    "if take 8 xs \<in> snd ` set (registry RT_Object_Class_Device (objs s)) then r = - RT_ERROR \<and> s' = s
     else r = RT_EOK \<and>
       registry RT_Object_Class_Device (objs s') = (dev, take 8 xs) # registry RT_Object_Class_Device (objs s) \<and>
       assert_device dev s' = Some () \<and> ref_count (devices s' dev) = 0 \<and> dev_flag (devices s' dev) = flags \<and>
       drivers s' = drivers s"
    using rt_device_register_effect[OF assms(1,3-9), of flags] by blast
  then have "distinct (List.map snd (registry RT_Object_Class_Device (objs s')))"
    using assms(2) by (auto split: if_splits)
  with r show ?thesis by (intro exI[of _ r] exI[of _ s'] exI[of _ k'] conjI) (simp_all split: if_splits)
qed

text \<open>C31: opening and closing. For a registered device whose driver keeps to its contract, after every sequence of
  opens and closes in any order the reference count and the mark of the device are exactly what the callers can tell
  from the results of their calls: each open that succeeded adds a reference and leaves the device marked open, each
  close takes one away while there is one and fails otherwise, and the close of the last reference leaves the device
  unmarked unless its driver failed to close. So if it was marked exactly when referenced and all closes returned
  \<open>RT_EOK\<close>, it still is. The only call that stops the system is an open that would be the 256th reference in use.\<close>
theorem device_references_counted:
  assumes "assert_device dev s = Some ()" "driver_ok (drivers s dev)"
  shows "case dev_run dev cs s of
      Some (rs, s') \<Rightarrow> dev_log (dev_view dev s) cs rs (dev_view dev s') \<and>
        ((\<forall>(c, r) \<in> set (zip cs rs). c = Close \<longrightarrow> r = RT_EOK) \<longrightarrow>
         opened (devices s dev) = (ref_count (devices s dev) \<noteq> 0) \<longrightarrow>
         opened (devices s' dev) = (ref_count (devices s' dev) \<noteq> 0))
    | None \<Rightarrow> \<exists>cs1 oflag cs2 rs s1. cs = cs1 @ Open oflag # cs2 \<and> dev_run dev cs1 s = Some (rs, s1) \<and>
        dev_log (dev_view dev s) cs1 rs (dev_view dev s1) \<and> fst (dev_view dev s1) = 255"
proof (cases "dev_run dev cs s")
  case None
  then show ?thesis using dev_run_log[OF assms, of cs] by simp
next
  case (Some p)
  obtain rs s' where p: "p = (rs, s')" by force
  have l: "dev_log (dev_view dev s) cs rs (dev_view dev s')"
    using dev_run_log[OF assms, of cs] Some p by simp
  show ?thesis
    using l dev_log_marked[OF l[unfolded dev_view_def]] by (simp add: Some p unat_gt_0)
qed

text \<open>C32: destroying a device. \<open>rt_device_destroy\<close> accepts only an object of the class of devices that is not a
  static one; but a device from \<open>rt_device_create\<close> has no class until it is registered, registering makes it a
  static object, and unregistering takes its class away again. So in every state such a device can reach through
  the functions of the framework the call stops in an assertion, and its memory can never be released.\<close>
theorem device_destroy_fails:
  assumes "dev_life dev s"
  shows "rt_device_destroy dev s = None"
proof -
  consider "omem (objs s) (dev + 8) = Some 0"
    | "omem (objs s) (dev + 8) = Some (RT_Object_Class_Device OR RT_Object_Class_Static)"
    using dev_life_type[OF assms] by blast
  then show ?thesis
    by cases (auto simp: rt_device_destroy_def assert_device_def rt_object_get_type_def rt_object_is_systemobject_def rt_assert_def)
qed

text \<open>A stand-alone device whose driver fails to close it when the last reference goes has no reference left but stays
  marked: it can be neither opened nor closed again.\<close>
theorem failed_close_locks_device:
  assumes "assert_device dev s = Some ()" "ref_count (devices s dev) = 1" "device_close (drivers s dev) = Some f"
    and "f ((devices s dev)\<lparr>ref_count := 0\<rparr>) (hardware s) = (r, d, h)" "\<not> succeeded r"
    and "ref_count d = 0" "opened d" "dev_flag d AND RT_DEVICE_FLAG_STANDALONE \<noteq> 0"
    and "dev_flag d AND RT_DEVICE_FLAG_ACTIVATED \<noteq> 0"
  shows "\<exists>s'. rt_device_close dev s = Some (r, s') \<and>
    (\<forall>oflag. rt_device_open dev oflag s' = Some (- RT_EBUSY, s')) \<and> rt_device_close dev s' = Some (- RT_ERROR, s')"
proof -
  let ?s = "s\<lparr>devices := (devices s)(dev := d), hardware := h\<rparr>"
  have a: "assert_device dev ?s = Some ()" using assms(1) assert_device_cong[of ?s s dev] by simp
  have "rt_device_close dev s = Some (r, ?s)"
    using assms(1-5) by (simp add: rt_device_close_def call_driver_def upd_dev_def succeeded_def)
  moreover have "rt_device_open dev oflag ?s = Some (- RT_EBUSY, ?s)" for oflag
    using a assms(7-9) by (simp add: rt_device_open_def open_init_def opened_def)
  moreover have "rt_device_close dev ?s = Some (- RT_ERROR, ?s)"
    using a assms(6) by (simp add: rt_device_close_def)
  ultimately show ?thesis by blast
qed

text \<open>Opening an open device again calls the driver again, also with the same flags.\<close>
theorem device_reopen_calls_driver:
  assumes "oflag AND RT_DEVICE_OFLAG_OPEN = 0" "device_open (drivers s dev) = Some f"
  shows "open_driver dev oflag s = call_driver dev (f oflag) s"
  by (rule open_driver_again[OF assms])

definition example_devices :: "nat devsys" where
  "example_devices = \<lparr>objs = example_objects,
     devices = (\<lambda>_. \<lparr>device_class = 0, dev_flag = 0, open_flag = 0, ref_count = 0, rx_indicate = 0, tx_complete = 0\<rparr>),
     drivers = (\<lambda>_. \<lparr>device_init = None, device_open = Some (\<lambda>oflag d h. (RT_EOK, d, h + 1)),
       device_close = Some (\<lambda>d h. (RT_EOK, d, h - 1)), device_read = None, device_write = None, device_control = None\<rparr>),
     hardware = 0\<rparr>"

theorem device_names_unique_witness:
  "\<exists>s' k'. rt_device_register 100 200 3 example_devices example_kernel = Some (RT_EOK, s', k') \<and>
    registry RT_Object_Class_Device (objs s') = [(100, [115, 101, 109])]"
proof -
  have o1: "objs example_devices = example_objects" by (simp add: example_devices_def)
  have r: "registry RT_Object_Class_Device example_objects = []"
    by (simp add: registry_def rt_object_get_information_def objects_at_def example_objects_def object_container_def
        object_classes_def)
  show ?thesis
    using device_names_unique[of example_devices 100 200 "[115, 101, 109]" 100 example_kernel 3]
      example_objects_ok(1) example_fresh[of 20] example_name(1,3) example_sysinv example_critical
    by (simp add: o1 r) blast
qed

text \<open>Two opens and two closes: the device ends without references and unmarked.\<close>

theorem device_references_counted_witness:
  "\<exists>rs s'. dev_run 100 [Open 3, Open 3, Close, Close] (example_devices\<lparr>objs := example_objects\<lparr>omem := (\<lambda>_. Some 0x89)\<rparr>\<rparr>) =
    Some (rs, s') \<and> rs = [RT_EOK, RT_EOK, RT_EOK, RT_EOK] \<and> dev_view 100 s' = (0, False)"
proof -
  let ?s = "example_devices\<lparr>objs := example_objects\<lparr>omem := (\<lambda>_. Some 0x89)\<rparr>\<rparr>"
  have h: "assert_device 100 ?s = Some ()" "driver_ok (drivers ?s 100)"
    by (auto simp: assert_device_def rt_object_get_type_def driver_ok_def example_devices_def)
  have v: "dev_view 100 ?s = (0, False)" by (simp add: dev_view_def opened_def example_devices_def)
  have "\<exists>s'. dev_run 100 [Open 3, Open 3, Close, Close] ?s = Some ([RT_EOK, RT_EOK, RT_EOK, RT_EOK], s')"
    by (simp add: rt_device_open_def rt_device_close_def open_init_def open_driver_def open_count_def call_driver_def
        upd_dev_def assert_device_def rt_object_get_type_def example_devices_def Let_def)
  with device_references_counted[OF h, of "[Open 3, Open 3, Close, Close]"] show ?thesis
    by (auto simp: v succeeded_def)
qed

theorem device_destroy_fails_witness:
  "\<exists>s. rt_device_create 100 64 0 example_devices = Some (100, s) \<and> rt_device_destroy 100 s = None"
proof -
  have "mapped (omem (objs example_devices)) 100 (unat (64 :: u32))"
    by (simp add: mapped_def example_devices_def example_objects_def)
  from rt_memset_write[OF this] obtain s where s: "rt_device_create 100 64 0 example_devices = Some (100, s)"
    by (simp add: rt_device_create_def)
  then have "dev_life 100 s" by (rule dev_life.created) simp_all
  then have "rt_device_destroy 100 s = None" by (rule device_destroy_fails)
  with s show ?thesis by blast
qed

end
