(* ===== verification/Completion.thy ===== *)
theory Completion
  imports IpcList
begin

text \<open>
  Completions, \<open>components/drivers/ipc/completion.c\<close>: one thread waits until another one, or an interrupt, says
  that something is done. Also what the objects of \<open>components/drivers/ipc\<close> share: they suspend and resume
  threads on lists of their own, without the functions \<open>_ipc_list_*\<close> of the kernel.
\<close>

section \<open>Suspending and resuming\<close>

text \<open>The result of the suspension is not looked at.\<close>

definition suspend_on :: "qid \<Rightarrow> tid \<Rightarrow> kernel \<Rightarrow> kernel option" where
  "suspend_on q t k =
     do { (_, k) \<leftarrow> rt_thread_suspend_with_flag t RT_UNINTERRUPTIBLE k;
          Some (k\<lparr>queues := q_push_back q t (queues k)\<rparr>) }"

text \<open>Resuming the first thread and scheduling; an empty list would be read past its head.\<close>

definition resume_head :: "qid \<Rightarrow> kernel \<Rightarrow> kernel option" where
  "resume_head q k =
     (case queues k q of [] \<Rightarrow> None | t # _ \<Rightarrow> rt_schedule (snd (rt_thread_resume t k)))"

text \<open>The waiting threads of these objects wait with the error code \<open>RT_EOK\<close>.\<close>

definition no_error :: "qid \<Rightarrow> kernel \<Rightarrow> bool" where
  "no_error q k \<longleftrightarrow> (\<forall>t \<in> set (queues k q). error (threads k t) = RT_EOK)"

lemma set_error_same: "error (threads k t) = e \<Longrightarrow> set_error t e k = k"
proof -
  assume "error (threads k t) = e"
  then have "(threads k t)\<lparr>error := e\<rparr> = threads k t" by (cases "threads k t") simp
  then have "(threads k)(t := (threads k t)\<lparr>error := e\<rparr>) = threads k" by (simp only: fun_upd_triv)
  then show ?thesis by (simp add: set_error_def upd_thread_def)
qed

context ipc_object begin

lemma suspend_on_eq:
  assumes "runs b t k"
  shows "suspend_on q t k = Some (blocked q RT_IPC_FLAG_FIFO t RT_UNINTERRUPTIBLE k)"
proof -
  have r: "kinv k" "cur k = Some t" "tstat k t = RT_THREAD_RUNNING" using assms by (simp_all add: runs_def sysinv_def)
  from suspend_running[OF r, of RT_UNINTERRUPTIBLE] show ?thesis
    by (simp add: suspend_on_def blocked_def wait_insert_def q_push_back_def Let_def)
qed

lemma suspend_path:
  assumes "runs b t k" "timeout < 2 ^ 31 - 1"
  obtains k1 k2 k' where "suspend_on q t k = Some k1" "arm_if t timeout k1 = Some k2" "rt_schedule k2 = Some k'"
    "sysinv b k'" "waits_on q RT_IPC_FLAG_FIFO t timeout k k'" "interrupt_nest k1 = interrupt_nest k"
proof -
  have r: "sysinv b k" "cur k = Some t" "tstat k t = RT_THREAD_RUNNING" using assms(1) by (simp_all add: runs_def)
  from block_tail[OF r assms(2), of RT_IPC_FLAG_FIFO RT_UNINTERRUPTIBLE] obtain k2 k' where
    "arm_if t timeout (blocked q RT_IPC_FLAG_FIFO t RT_UNINTERRUPTIBLE k) = Some k2" "rt_schedule k2 = Some k'"
    "sysinv b k'" "waits_on q RT_IPC_FLAG_FIFO t timeout k k'"
    by (auto simp: ok_iff Option.bind_eq_Some_conv)
  moreover have "interrupt_nest (blocked q RT_IPC_FLAG_FIFO t RT_UNINTERRUPTIBLE k) = interrupt_nest k"
    by (simp add: blocked_def Let_def)
  ultimately show ?thesis using suspend_on_eq[OF assms(1)] by (intro that)
qed

lemma resume_head_ok:
  assumes "sysinv b k" "cur k = Some c" "queues k q = t # ts" "no_error q k"
  obtains k' where "resume_head q k = Some k'" "sysinv b k'" "cur k' \<noteq> None" "wakes q t k k'" "queues k' q = ts"
proof -
  have e: "set_error t RT_EOK k = k" using assms(3,4) by (simp add: no_error_def set_error_same)
  have s: "suspended k t" using head_suspended[OF _ assms(3)] assms(1) by (simp add: sysinv_def)
  obtain k' where k': "rt_schedule (resumed t k) = Some k'" "sysinv b k'" "cur k' \<noteq> None" "wakes q t k k'"
    using resume_member[OF assms(1,2), of t] assms(3) by (auto simp: ok_iff e)
  have "distinct (queues k q)" using assms(1) qinvD(1)[of "{}" k] by (simp add: sysinv_def kinv_def)
  then have "queues k' q = ts" using wakesD(1)[OF k'(4)] assms(3) by (simp add: removeAll_id)
  with k' show ?thesis using assms(3) s by (intro that) (simp_all add: resume_head_def rt_thread_resume_eq)
qed

lemma no_error_wakes:
  assumes "wakes q t k k'" "no_error g k" "waitq g"
  shows "no_error g k'"
  unfolding no_error_def
proof
  fix u assume u: "u \<in> set (queues k' g)"
  show "error (threads k' u) = RT_EOK"
  proof (cases "u = t")
    case True
    then show ?thesis using wakesD(3)[OF assms(1)] by simp
  next
    case False
    have "set (queues k' g) \<subseteq> set (queues k g)"
      using wakesD(1)[OF assms(1)] wakesD(4)[OF assms(1,3)] by (cases "g = q") auto
    with u have "error (threads k u) = RT_EOK" using assms(2) by (auto simp: no_error_def)
    then show ?thesis using stat_onlyD(1)[OF wakesD(5)[OF assms(1) False]] by simp
  qed
qed

lemma no_error_waits:
  assumes "waits_on q flag t timeout (set_error t RT_EOK k) k'" "no_error g k" "waitq g"
  shows "no_error g k'"
  unfolding no_error_def
proof
  fix u assume u: "u \<in> set (queues k' g)"
  show "error (threads k' u) = RT_EOK"
  proof (cases "u = t")
    case True
    then show ?thesis using waits_on_error(1)[OF assms(1)] by simp
  next
    case False
    with u have "u \<in> set (queues k g)"
      using waits_on_error(2)[OF assms(1)] waits_on_error(3)[OF assms(1,3)] by (cases "g = q") (auto simp: set_wait_insert)
    then have "error (threads k u) = RT_EOK" using assms(2) by (auto simp: no_error_def)
    then show ?thesis using stat_onlyD(1)[OF waits_onD(5)[OF assms(1), of u]] False by (simp add: set_error_def upd_thread_def)
  qed
qed

end

interpretation completionq: ipc_object "CompletionQ c" for c
  by unfold_locales (simp add: waitq_def)

section \<open>Operations\<close>

text \<open>The flags of all completions; the suspended lists are in the kernel.\<close>

type_synonym completions = "nat \<Rightarrow> u32"

abbreviation RT_UNCOMPLETED :: u32 where "RT_UNCOMPLETED \<equiv> 0"
abbreviation RT_COMPLETED :: u32 where "RT_COMPLETED \<equiv> 1"

definition rt_completion_init :: "nat \<Rightarrow> completions \<Rightarrow> kernel \<Rightarrow> completions \<times> kernel" where
  "rt_completion_init c flags k = (flags(c := RT_UNCOMPLETED), ipc_object_init (CompletionQ c) k)"

definition rt_completion_wait :: "nat \<Rightarrow> int \<Rightarrow> completions \<Rightarrow> kernel \<Rightarrow> (outcome \<times> completions \<times> kernel) option" where
  "rt_completion_wait c timeout flags k =
     do { rt_assert (timeout \<noteq> 0 \<longrightarrow> scheduler_available k);
          if flags c \<noteq> RT_COMPLETED then do {
            rt_assert (queues k (CompletionQ c) = []);
            if timeout = 0 then Some (Done (- RT_ETIMEOUT), flags, k)
            else do {
              t \<leftarrow> rt_thread_self k;
              k \<leftarrow> suspend_on (CompletionQ c) t (set_error t RT_EOK k);
              rt_assert (not_in_interrupt k);
              k \<leftarrow> arm_if t timeout k;
              k \<leftarrow> rt_schedule k;
              Some (Waiting, flags, k) } }
          else Some (Done RT_EOK, flags(c := RT_UNCOMPLETED), k) }"

text \<open>The rest of the call, when the thread runs again.\<close>

definition completion_wait_resume :: "nat \<Rightarrow> tid \<Rightarrow> completions \<Rightarrow> kernel \<Rightarrow> rt_err_t \<times> completions" where
  "completion_wait_resume c t flags k = (error (threads k t), flags(c := RT_UNCOMPLETED))"

definition rt_completion_done :: "nat \<Rightarrow> completions \<Rightarrow> kernel \<Rightarrow> (completions \<times> kernel) option" where
  "rt_completion_done c flags k =
     (if flags c = RT_COMPLETED then Some (flags, k)
      else do {
        let flags = flags(c := RT_COMPLETED);
        if queues k (CompletionQ c) \<noteq> [] then do { k \<leftarrow> resume_head (CompletionQ c) k; Some (flags, k) }
        else Some (flags, k) })"

section \<open>Invariant\<close>

definition completion_wf :: "nat \<Rightarrow> completions \<Rightarrow> kernel \<Rightarrow> bool" where
  "completion_wf c flags k \<longleftrightarrow>
     flags c \<in> {RT_UNCOMPLETED, RT_COMPLETED} \<and> length (queues k (CompletionQ c)) \<le> 1 \<and>
     (queues k (CompletionQ c) \<noteq> [] \<longrightarrow> flags c = RT_UNCOMPLETED) \<and> no_error (CompletionQ c) k"

text \<open>What the caller of a wait sees.\<close>

definition completion_waited :: "nat \<Rightarrow> int \<Rightarrow> tid \<Rightarrow> completions \<Rightarrow> kernel \<Rightarrow> outcome \<times> completions \<times> kernel \<Rightarrow> bool" where
  "completion_waited c timeout t flags k = (\<lambda>(r, flags', k').
     if flags c = RT_COMPLETED then r = Done RT_EOK \<and> flags' = flags(c := RT_UNCOMPLETED) \<and> k' = k
     else if timeout = 0 then r = Done (- RT_ETIMEOUT) \<and> flags' = flags \<and> k' = k
     else r = Waiting \<and> flags' = flags \<and> suspended k' t \<and> queues k' (CompletionQ c) = [t] \<and>
       (timeout > 0 \<longrightarrow> timeout_tick (timers k' (ThreadTimer t)) = tick k + of_int timeout))"

lemma completion_wait_correct:
  assumes run: "runs b t k" and wf: "completion_wf c flags k" and to: "timeout < 2 ^ 31 - 1"
    and av: "timeout \<noteq> 0 \<longrightarrow> scheduler_available k" and free: "queues k (CompletionQ c) = []"
  shows "ok (rt_completion_wait c timeout flags k) (\<lambda>(r, flags', k'). sysinv b k' \<and> cur k' \<noteq> None \<and>
    completion_wf c flags' k' \<and> completion_waited c timeout t flags k (r, flags', k'))"
proof -
  have inv: "sysinv b k" "cur k = Some t" using run by (simp_all add: runs_def)
  consider "flags c = RT_COMPLETED" | "flags c \<noteq> RT_COMPLETED" "timeout = 0" | "flags c \<noteq> RT_COMPLETED" "timeout \<noteq> 0" by blast
  then show ?thesis
  proof cases
    case 3
    have "runs b t (set_error t RT_EOK k)" using run by simp
    then obtain k1 k2 k' where p: "suspend_on (CompletionQ c) t (set_error t RT_EOK k) = Some k1"
      "arm_if t timeout k1 = Some k2" "rt_schedule k2 = Some k'" "sysinv b k'"
      "waits_on (CompletionQ c) RT_IPC_FLAG_FIFO t timeout (set_error t RT_EOK k) k'"
      "interrupt_nest k1 = interrupt_nest (set_error t RT_EOK k)"
      using to by (rule completionq.suspend_path)
    note E = waits_on_error[OF p(5)]
    have "not_in_interrupt k" using av 3(2) by (simp add: scheduler_available_def in_thread_context_def)
    then have "not_in_interrupt k1" using p(6) by (simp add: not_in_interrupt_def rt_interrupt_get_nest_def)
    with 3 av free inv(2) p have e: "rt_completion_wait c timeout flags k = Some (Waiting, flags, k')"
      by (simp add: rt_completion_wait_def rt_thread_self_def)
    have q: "queues k' (CompletionQ c) = [t]" using E(2) free by (simp add: wait_insert_def)
    have "no_error (CompletionQ c) k'"
      using completionq.no_error_waits[OF p(5), of "CompletionQ c"] wf by (simp add: completion_wf_def waitq_def)
    then have "completion_wf c flags k'" using wf q 3(1) by (auto simp: completion_wf_def)
    then show ?thesis using e p(4) 3 q waits_onD(1,2)[OF p(5)] E(6) by (simp add: completion_waited_def)
  qed (use inv wf free av in \<open>auto simp: rt_completion_wait_def completion_waited_def completion_wf_def\<close>)
qed

lemma completion_done_correct:
  assumes inv: "sysinv b k" and wf: "completion_wf c flags k" and cur: "cur k = Some x"
  shows "ok (rt_completion_done c flags k) (\<lambda>(flags', k'). sysinv b k' \<and> completion_wf c flags' k' \<and>
    flags' = flags(c := RT_COMPLETED) \<and> queues k' (CompletionQ c) = [] \<and>
    (\<forall>t \<in> set (queues k (CompletionQ c)). runnable k' t \<and> error (threads k' t) = RT_EOK))"
proof (cases "queues k (CompletionQ c)")
  case Nil
  have u: "flags(c := RT_COMPLETED) = flags" if "flags c = RT_COMPLETED" using that by auto
  show ?thesis using Nil inv wf u by (auto simp: rt_completion_done_def completion_wf_def no_error_def Let_def)
next
  case (Cons t ts)
  then have w: "ts = []" "flags c = RT_UNCOMPLETED" "no_error (CompletionQ c) k" using wf by (auto simp: completion_wf_def)
  obtain k' where k': "resume_head (CompletionQ c) k = Some k'" "sysinv b k'" "cur k' \<noteq> None"
    "wakes (CompletionQ c) t k k'" "queues k' (CompletionQ c) = ts"
    by (rule completionq.resume_head_ok[OF inv cur Cons w(3)])
  then show ?thesis
    using Cons w wakesD(2,3)[OF k'(4)] by (simp add: rt_completion_done_def completion_wf_def no_error_def Let_def)
qed

section \<open>The theorems\<close>

text \<open>C30: waiting for a completion. For the running thread, when nobody else waits: if the completion is done the
  call takes it and returns \<open>RT_EOK\<close>; with time-out 0 it returns \<open>-RT_ETIMEOUT\<close>; otherwise the caller is suspended
  as the only waiter, with its timer due in exactly the time-out. When another thread waits already, the call
  stops in an assertion.\<close>
theorem completion_wait_refines:
  assumes "runs b t k" "completion_wf c flags k" "timeout < 2 ^ 31 - 1"
    and "timeout \<noteq> 0 \<longrightarrow> scheduler_available k"
  shows "if queues k (CompletionQ c) = []
    then ok (rt_completion_wait c timeout flags k) (\<lambda>(r, flags', k'). sysinv b k' \<and> completion_wf c flags' k' \<and>
      completion_waited c timeout t flags k (r, flags', k'))
    else rt_completion_wait c timeout flags k = None"
proof (cases "queues k (CompletionQ c) = []")
  case True
  from ok_mono[OF completion_wait_correct[OF assms this]] True show ?thesis by auto
next
  case False
  with assms(2) have "flags c \<noteq> RT_COMPLETED" by (auto simp: completion_wf_def)
  with False show ?thesis by (simp add: rt_completion_wait_def rt_assert_def)
qed

text \<open>Completing. \<open>rt_completion_done\<close> marks the completion as done and makes the waiting thread, if there is
  one, runnable, whose call will return \<open>RT_EOK\<close> and clear the mark. But the mark stays until that thread has run:
  another running thread that waits in between takes it and returns \<open>RT_EOK\<close> as well, so one completion can serve
  two waiters.\<close>
theorem completion_done_wakes:
  assumes "sysinv b k" "completion_wf c flags k" "cur k = Some x"
  shows "ok (rt_completion_done c flags k) (\<lambda>(flags', k'). sysinv b k' \<and> completion_wf c flags' k' \<and>
    flags' c = RT_COMPLETED \<and>
    (\<forall>t \<in> set (queues k (CompletionQ c)). runnable k' t \<and>
      completion_wait_resume c t flags' k' = (RT_EOK, flags'(c := RT_UNCOMPLETED)) \<and>
      rt_completion_wait c 0 flags' k' = Some (Done RT_EOK, flags'(c := RT_UNCOMPLETED), k') \<and>
      completion_wait_resume c t (flags'(c := RT_UNCOMPLETED)) k' = (RT_EOK, flags'(c := RT_UNCOMPLETED))))"
  by (rule ok_mono[OF completion_done_correct[OF assms]]) (auto simp: completion_wait_resume_def rt_completion_wait_def)

lemma example_completion: "completion_wf 0 (\<lambda>_. 0) example_kernel" "queues example_kernel (CompletionQ 0) = []"
  by (simp_all add: completion_wf_def no_error_def example_kernel_def)

theorem completion_wait_refines_witness:
  "ok (rt_completion_wait 0 20 (\<lambda>_. 0) example_kernel) (\<lambda>(r, flags', k'). sysinv 100 k' \<and>
    completion_wf 0 flags' k' \<and> completion_waited 0 20 0 (\<lambda>_. 0) example_kernel (r, flags', k'))"
  using completion_wait_refines[OF example_runs example_completion(1), of 20] example_completion(2)
  by (simp add: example_available)

theorem completion_done_wakes_witness:
  "\<exists>k. queues k (CompletionQ 0) = [0] \<and>
    ok (rt_completion_done 0 (\<lambda>_. 0) k) (\<lambda>(flags', k'). flags' 0 = RT_COMPLETED \<and> runnable k' 0)"
proof -
  from completion_wait_correct[OF example_runs example_completion(1), of 20] example_completion(2)
  obtain k where k: "sysinv 100 k" "cur k \<noteq> None" "completion_wf 0 (\<lambda>_. 0) k" "queues k (CompletionQ 0) = [0]"
    by (auto simp: example_available completion_waited_def ok_iff)
  then obtain x where "cur k = Some x" by blast
  from completion_done_wakes[OF k(1,3) this] k(4)
  have "ok (rt_completion_done 0 (\<lambda>_. 0) k) (\<lambda>(flags', k'). flags' 0 = RT_COMPLETED \<and> runnable k' 0)"
    by (auto simp: ok_iff)
  with k(4) show ?thesis by blast
qed

end
