(* ===== verification/DataQueue.thy ===== *)
theory DataQueue
  imports Completion Fifo
begin

text \<open>
  The data queue of device drivers, \<open>components/drivers/ipc/dataqueue.c\<close>: a ring of pointers with sizes. Threads
  that push into a full queue or pop from an empty one wait; pushers are woken when the number of items has
  fallen to the low water mark. The indices are bit fields of 15 bits. The notification function is not called
  but its event is a result.
\<close>

section \<open>Data\<close>

type_synonym u15 = "15 word"

abbreviation DATAQUEUE_MAGIC :: u32 where "DATAQUEUE_MAGIC \<equiv> 0xbead0e0e"

datatype dq_event = RT_DATAQUEUE_EVENT_POP | RT_DATAQUEUE_EVENT_PUSH | RT_DATAQUEUE_EVENT_LWM

text \<open>An item is the pointer and the size of the data. \<open>dq_notify\<close> says that there is a notification function.\<close>

record rt_data_queue =
  dq_magic :: u32
  dq_size :: u16
  dq_lwm :: u16
  get_index :: u15
  is_empty :: bool
  put_index :: u15
  is_full :: bool
  dq_queue :: "nat \<Rightarrow> u32 \<times> u32"
  dq_notify :: bool

type_synonym data_queues = "nat \<Rightarrow> rt_data_queue"

section \<open>The ring\<close>

definition next_index :: "rt_data_queue \<Rightarrow> u15 \<Rightarrow> u15" where
  "next_index d i = (let i = i + 1 in if unat i = unat (dq_size d) then 0 else i)"

definition dq_put :: "u32 \<times> u32 \<Rightarrow> rt_data_queue \<Rightarrow> rt_data_queue" where
  "dq_put x d =
     (let d = d\<lparr>dq_queue := (dq_queue d)(unat (put_index d) := x)\<rparr>;
          d = d\<lparr>put_index := next_index d (put_index d), is_empty := False\<rparr>
      in if put_index d = get_index d then d\<lparr>is_full := True\<rparr> else d)"

definition dq_get :: "rt_data_queue \<Rightarrow> (u32 \<times> u32) \<times> rt_data_queue" where
  "dq_get d =
     (let x = dq_queue d (unat (get_index d));
          d = d\<lparr>get_index := next_index d (get_index d), is_full := False\<rparr>
      in (x, if put_index d = get_index d then d\<lparr>is_empty := True\<rparr> else d))"

text \<open>The length, a signed 16-bit number that is returned as an unsigned one.\<close>

definition dq_len :: "rt_data_queue \<Rightarrow> u16" where
  "dq_len d =
     (if is_empty d then 0
      else if put_index d > get_index d then of_int (uint (put_index d) - uint (get_index d))
      else of_int (uint (dq_size d) + uint (put_index d) - uint (get_index d)))"

definition rt_data_queue_len :: "nat \<Rightarrow> data_queues \<Rightarrow> u16 option" where
  "rt_data_queue_len n ds = do { rt_assert (dq_magic (ds n) = DATAQUEUE_MAGIC); Some (dq_len (ds n)) }"

definition rt_data_queue_peek :: "nat \<Rightarrow> data_queues \<Rightarrow> (rt_err_t \<times> (u32 \<times> u32) option) option" where
  "rt_data_queue_peek n ds =
     do { rt_assert (dq_magic (ds n) = DATAQUEUE_MAGIC);
          if is_empty (ds n) then Some (- RT_EEMPTY, None)
          else Some (RT_EOK, Some (dq_queue (ds n) (unat (get_index (ds n))))) }"

section \<open>Operations\<close>

text \<open>\<open>memory\<close> is the result of the allocation of the ring.\<close>

definition rt_data_queue_init ::
  "nat \<Rightarrow> u16 \<Rightarrow> u16 \<Rightarrow> bool \<Rightarrow> (nat \<Rightarrow> u32 \<times> u32) option \<Rightarrow> data_queues \<Rightarrow> kernel \<Rightarrow> (rt_err_t \<times> data_queues \<times> kernel) option"
where
  "rt_data_queue_init n sz lwm notify memory ds k =
     do { rt_assert (sz > 0);
          let d = (ds n)\<lparr>dq_notify := notify, dq_magic := DATAQUEUE_MAGIC, dq_size := sz, dq_lwm := lwm,
                    get_index := 0, put_index := 0, is_empty := True, is_full := False\<rparr>;
          let k = ipc_object_init (DqPopQ n) (ipc_object_init (DqPushQ n) k);
          case memory of
            None \<Rightarrow> Some (- RT_ENOMEM, ds(n := d), k)
          | Some q \<Rightarrow> Some (RT_EOK, ds(n := d\<lparr>dq_queue := q\<rparr>), k) }"

text \<open>Waiting on one of the two lists.\<close>

definition dq_wait :: "qid \<Rightarrow> int \<Rightarrow> kernel \<Rightarrow> kernel option" where
  "dq_wait q timeout k =
     do { t \<leftarrow> rt_thread_self k;
          k \<leftarrow> suspend_on q t (set_error t RT_EOK k);
          k \<leftarrow> arm_if t timeout k;
          rt_schedule k }"

definition notified :: "rt_data_queue \<Rightarrow> dq_event \<Rightarrow> dq_event option" where
  "notified d e = (if dq_notify d then Some e else None)"

text \<open>One pass of the loop of a push, with interrupts disabled, and of a pop.\<close>

definition dq_push_pass ::
  "nat \<Rightarrow> u32 \<times> u32 \<Rightarrow> int \<Rightarrow> data_queues \<Rightarrow> kernel \<Rightarrow> (outcome \<times> dq_event option \<times> data_queues \<times> kernel) option" where
  "dq_push_pass n x timeout ds k =
     (if is_full (ds n)
      then if timeout = 0 then Some (Done (- RT_ETIMEOUT), None, ds, k)
           else do { k \<leftarrow> dq_wait (DqPushQ n) timeout k; Some (Waiting, None, ds, k) }
      else do {
        let ds = ds(n := dq_put x (ds n));
        if queues k (DqPopQ n) \<noteq> [] then do { k \<leftarrow> resume_head (DqPopQ n) k; Some (Done RT_EOK, None, ds, k) }
        else Some (Done RT_EOK, notified (ds n) RT_DATAQUEUE_EVENT_PUSH, ds, k) })"

definition dq_pop_pass ::
  "nat \<Rightarrow> int \<Rightarrow> data_queues \<Rightarrow> kernel \<Rightarrow> (outcome \<times> (u32 \<times> u32) option \<times> dq_event option \<times> data_queues \<times> kernel) option" where
  "dq_pop_pass n timeout ds k =
     (if is_empty (ds n)
      then if timeout = 0 then Some (Done (- RT_ETIMEOUT), None, None, ds, k)
           else do { k \<leftarrow> dq_wait (DqPopQ n) timeout k; Some (Waiting, None, None, ds, k) }
      else do {
        let (x, d) = dq_get (ds n);
        let ds = ds(n := d);
        len \<leftarrow> rt_data_queue_len n ds;
        if len \<le> dq_lwm d then do {
          k \<leftarrow> (if queues k (DqPushQ n) \<noteq> [] then resume_head (DqPushQ n) k else Some k);
          Some (Done RT_EOK, Some x, notified d RT_DATAQUEUE_EVENT_LWM, ds, k) }
        else Some (Done RT_EOK, Some x, notified d RT_DATAQUEUE_EVENT_POP, ds, k) })"

definition rt_data_queue_push ::
  "nat \<Rightarrow> u32 \<times> u32 \<Rightarrow> int \<Rightarrow> data_queues \<Rightarrow> kernel \<Rightarrow> (outcome \<times> dq_event option \<times> data_queues \<times> kernel) option" where
  "rt_data_queue_push n x timeout ds k =
     do { rt_assert (dq_magic (ds n) = DATAQUEUE_MAGIC);
          rt_assert (timeout \<noteq> 0 \<longrightarrow> scheduler_available k);
          dq_push_pass n x timeout ds k }"

definition rt_data_queue_pop ::
  "nat \<Rightarrow> int \<Rightarrow> data_queues \<Rightarrow> kernel \<Rightarrow> (outcome \<times> (u32 \<times> u32) option \<times> dq_event option \<times> data_queues \<times> kernel) option" where
  "rt_data_queue_pop n timeout ds k =
     do { rt_assert (dq_magic (ds n) = DATAQUEUE_MAGIC);
          rt_assert (timeout \<noteq> 0 \<longrightarrow> scheduler_available k);
          dq_pop_pass n timeout ds k }"

text \<open>The rest of a call that waited: it gives up with an error, or goes around the loop again.\<close>

definition dq_push_resume ::
  "nat \<Rightarrow> tid \<Rightarrow> u32 \<times> u32 \<Rightarrow> int \<Rightarrow> data_queues \<Rightarrow> kernel \<Rightarrow> (outcome \<times> dq_event option \<times> data_queues \<times> kernel) option" where
  "dq_push_resume n t x timeout ds k =
     (if error (threads k t) \<noteq> RT_EOK then Some (Done (error (threads k t)), None, ds, k)
      else dq_push_pass n x timeout ds k)"

definition dq_pop_resume ::
  "nat \<Rightarrow> tid \<Rightarrow> int \<Rightarrow> data_queues \<Rightarrow> kernel \<Rightarrow> (outcome \<times> (u32 \<times> u32) option \<times> dq_event option \<times> data_queues \<times> kernel) option" where
  "dq_pop_resume n t timeout ds k =
     (if error (threads k t) \<noteq> RT_EOK then Some (Done (error (threads k t)), None, None, ds, k)
      else dq_pop_pass n timeout ds k)"

text \<open>The loops that resume all waiters are those of \<open>_ipc_list_resume_all\<close>.\<close>

definition rt_data_queue_reset :: "nat \<Rightarrow> data_queues \<Rightarrow> kernel \<Rightarrow> (data_queues \<times> kernel) option" where
  "rt_data_queue_reset n ds k =
     do { rt_assert (dq_magic (ds n) = DATAQUEUE_MAGIC);
          let ds = ds(n := (ds n)\<lparr>get_index := 0, put_index := 0, is_empty := True, is_full := False\<rparr>);
          let k = rt_enter_critical k;
          k \<leftarrow> ipc_list_resume_all (DqPopQ n) k;
          k \<leftarrow> ipc_list_resume_all (DqPushQ n) k;
          k \<leftarrow> rt_exit_critical k;
          k \<leftarrow> rt_schedule k;
          Some (ds, k) }"

definition rt_data_queue_deinit :: "nat \<Rightarrow> data_queues \<Rightarrow> kernel \<Rightarrow> (rt_err_t \<times> data_queues \<times> kernel) option" where
  "rt_data_queue_deinit n ds k =
     do { rt_assert (dq_magic (ds n) = DATAQUEUE_MAGIC);
          (ds, k) \<leftarrow> rt_data_queue_reset n ds k;
          Some (RT_EOK, ds(n := (ds n)\<lparr>dq_magic := 0\<rparr>), k) }"

section \<open>The ring is a bounded queue\<close>

definition dq_cap :: "rt_data_queue \<Rightarrow> nat" where
  "dq_cap d = unat (dq_size d)"

definition dq_count :: "rt_data_queue \<Rightarrow> nat" where
  "dq_count d =
     (if is_full d then dq_cap d
      else (unat (put_index d) + dq_cap d - unat (get_index d)) mod dq_cap d)"

definition dq_items :: "rt_data_queue \<Rightarrow> (u32 \<times> u32) list" where
  "dq_items d = map (\<lambda>i. dq_queue d ((unat (get_index d) + i) mod dq_cap d)) [0..<dq_count d]"

definition dq_ok :: "rt_data_queue \<Rightarrow> bool" where
  "dq_ok d \<longleftrightarrow> 0 < dq_cap d \<and> dq_cap d \<le> 2 ^ 15 \<and> unat (get_index d) < dq_cap d \<and> unat (put_index d) < dq_cap d \<and>
     \<not> (is_empty d \<and> is_full d) \<and> (put_index d = get_index d \<longleftrightarrow> is_empty d \<or> is_full d)"

lemma dq_okD:
  assumes "dq_ok d"
  shows "0 < dq_cap d" "dq_cap d \<le> 2 ^ 15" "unat (get_index d) < dq_cap d" "unat (put_index d) < dq_cap d"
    "\<not> (is_empty d \<and> is_full d)" "put_index d = get_index d \<longleftrightarrow> is_empty d \<or> is_full d"
  using assms by (simp_all add: dq_ok_def)

lemma ring_offset: "c < N \<Longrightarrow> g < N \<Longrightarrow> ((g + c) mod N + N - g) mod N = (c :: nat)"
proof -
  assume a: "c < N" "g < N"
  show ?thesis
  proof (cases "g + c < N")
    case True
    then have "(g + c) mod N + N - g = c + N" by simp
    with a show ?thesis by simp
  next
    case False
    then have "(g + c) mod N = g + c - N" using a by (simp add: mod_if)
    with False a show ?thesis by simp
  qed
qed

lemma ring_inj: "i < N \<Longrightarrow> j < N \<Longrightarrow> (g + i) mod N = (g + j) mod N \<Longrightarrow> i = (j :: nat)"
proof -
  assume a: "i < N" "j < N" "(g + i) mod N = (g + j) mod N"
  have m: "(g mod N + i) mod N = (g mod N + j) mod N" using a(3) by (simp add: mod_add_left_eq)
  have g: "g mod N < N" using a(1) by simp
  have "i = ((g mod N + i) mod N + N - g mod N) mod N" by (rule ring_offset[OF a(1) g, symmetric])
  also have "\<dots> = j" unfolding m by (rule ring_offset[OF a(2) g])
  finally show ?thesis .
qed

lemma put_position: "dq_ok d \<Longrightarrow> unat (put_index d) = (unat (get_index d) + dq_count d) mod dq_cap d"
proof -
  assume "dq_ok d"
  note D = dq_okD[OF this]
  show ?thesis
  proof (cases "is_full d")
    case True
    then have "put_index d = get_index d" using D(6) by simp
    with True D(3) show ?thesis by (simp add: dq_count_def)
  next
    case False
    have "(unat (get_index d) + (unat (put_index d) + dq_cap d - unat (get_index d))) mod dq_cap d = unat (put_index d)"
      using D(3,4) by simp
    then show ?thesis using False by (simp add: dq_count_def mod_add_right_eq)
  qed
qed

lemma dq_count_bound: "dq_ok d \<Longrightarrow> dq_count d \<le> dq_cap d"
  using dq_okD(1)[of d] by (simp add: dq_count_def less_imp_le)

lemma dq_count_full:
  assumes "dq_ok d"
  shows "dq_count d = dq_cap d \<longleftrightarrow> is_full d"
proof -
  have "(unat (put_index d) + dq_cap d - unat (get_index d)) mod dq_cap d < dq_cap d"
    using dq_okD(1)[OF assms] by (rule mod_less_divisor)
  then show ?thesis by (auto simp: dq_count_def)
qed

lemma dq_count_empty: "dq_ok d \<Longrightarrow> dq_count d = 0 \<longleftrightarrow> is_empty d"
proof -
  assume ok: "dq_ok d"
  note D = dq_okD[OF ok]
  show ?thesis
  proof (cases "is_full d")
    case False
    show ?thesis
    proof
      assume "dq_count d = 0"
      with put_position[OF ok] D(3) have "put_index d = get_index d" by (simp add: word_unat_eq_iff)
      with D(6) False show "is_empty d" by simp
    next
      assume "is_empty d"
      then have "put_index d = get_index d" using D(6) by simp
      with False D(3) show "dq_count d = 0" by (simp add: dq_count_def)
    qed
  qed (use D(1,5) in \<open>simp add: dq_count_def\<close>)
qed

lemma length_dq_items [simp]: "length (dq_items d) = dq_count d"
  by (simp add: dq_items_def)

lemma unat_next_index:
  assumes "unat i < dq_cap d" "dq_cap d \<le> 2 ^ 15"
  shows "unat (next_index d i) = (unat i + 1) mod dq_cap d"
proof -
  have s: "unat (i + 1) = (unat i + 1) mod 2 ^ 15" by (simp add: unat_word_ariths)
  show ?thesis
  proof (cases "unat i + 1 = dq_cap d")
    case True
    then have "unat (i + 1) = dq_cap d \<or> unat (i + 1) = 0" using s assms by (cases "dq_cap d = 2 ^ 15") simp_all
    then have "unat (next_index d i) = 0" by (auto simp: next_index_def dq_cap_def Let_def)
    then show ?thesis using True by simp
  next
    case False
    then have "unat i + 1 < dq_cap d" using assms(1) by simp
    moreover from this have "unat (i + 1) = unat i + 1" using s assms(2) by simp
    ultimately show ?thesis by (simp add: next_index_def dq_cap_def Let_def)
  qed
qed

lemma dq_put_fields [simp]:
  "dq_cap (dq_put x d) = dq_cap d" "get_index (dq_put x d) = get_index d" "is_empty (dq_put x d) = False"
  "put_index (dq_put x d) = next_index d (put_index d)" "dq_magic (dq_put x d) = dq_magic d" "dq_notify (dq_put x d) = dq_notify d"
  "dq_lwm (dq_put x d) = dq_lwm d" "dq_queue (dq_put x d) = (dq_queue d)(unat (put_index d) := x)"
  "is_full (dq_put x d) \<longleftrightarrow> is_full d \<or> next_index d (put_index d) = get_index d"
  by (auto simp: dq_put_def dq_cap_def next_index_def Let_def)

lemma dq_get_fields [simp]:
  "dq_cap (snd (dq_get d)) = dq_cap d" "get_index (snd (dq_get d)) = next_index d (get_index d)"
  "is_full (snd (dq_get d)) = False" "put_index (snd (dq_get d)) = put_index d" "dq_magic (snd (dq_get d)) = dq_magic d"
  "dq_lwm (snd (dq_get d)) = dq_lwm d" "dq_queue (snd (dq_get d)) = dq_queue d" "dq_notify (snd (dq_get d)) = dq_notify d"
  "is_empty (snd (dq_get d)) \<longleftrightarrow> is_empty d \<or> put_index d = next_index d (get_index d)"
  "fst (dq_get d) = dq_queue d (unat (get_index d))"
  by (auto simp: dq_get_def dq_cap_def next_index_def Let_def)

lemma dq_put_ok:
  assumes ok: "dq_ok d" and room: "dq_count d < dq_cap d"
  shows "dq_ok (dq_put x d)" "dq_count (dq_put x d) = dq_count d + 1" "dq_items (dq_put x d) = dq_items d @ [x]"
proof -
  note D = dq_okD[OF ok]
  have nf: "\<not> is_full d" using room dq_count_full[OF ok] by auto
  have p: "unat (put_index d) = (unat (get_index d) + dq_count d) mod dq_cap d" by (rule put_position[OF ok])
  have p': "unat (next_index d (put_index d)) = (unat (get_index d) + (dq_count d + 1)) mod dq_cap d"
    by (simp add: unat_next_index[OF D(4,2)] p mod_Suc_eq)
  have "unat (next_index d (put_index d)) < dq_cap d" unfolding p' using D(1) by simp
  then show ok': "dq_ok (dq_put x d)" using D nf by (simp add: dq_ok_def)
  show c: "dq_count (dq_put x d) = dq_count d + 1"
  proof (cases "dq_count d + 1 = dq_cap d")
    case True
    then have "unat (next_index d (put_index d)) = unat (get_index d)" using p' D(3) by simp
    then have "is_full (dq_put x d)" by (simp add: word_unat_eq_iff)
    with True show ?thesis by (simp add: dq_count_def)
  next
    case False
    with room have lt: "dq_count d + 1 < dq_cap d" by simp
    have "next_index d (put_index d) \<noteq> get_index d"
    proof
      assume "next_index d (put_index d) = get_index d"
      then have "(unat (get_index d) + (dq_count d + 1)) mod dq_cap d = (unat (get_index d) + 0) mod dq_cap d"
        using p' D(3) by simp
      from ring_inj[OF lt D(1) this] show False by simp
    qed
    then have "dq_count (dq_put x d) = ((unat (get_index d) + (dq_count d + 1)) mod dq_cap d + dq_cap d - unat (get_index d)) mod dq_cap d"
      using nf by (simp add: dq_count_def[of "dq_put x d"] p')
    also have "\<dots> = dq_count d + 1" by (rule ring_offset[OF lt D(3)])
    finally show ?thesis .
  qed
  have old: "((dq_queue d)(unat (put_index d) := x)) ((unat (get_index d) + i) mod dq_cap d) =
      dq_queue d ((unat (get_index d) + i) mod dq_cap d)" if "i < dq_count d" for i
  proof -
    have "(unat (get_index d) + i) mod dq_cap d \<noteq> unat (put_index d)"
      unfolding p using ring_inj[of i "dq_cap d" "dq_count d" "unat (get_index d)"] that room by auto
    then show ?thesis by simp
  qed
  have "dq_items (dq_put x d) = map (\<lambda>i. ((dq_queue d)(unat (put_index d) := x)) ((unat (get_index d) + i) mod dq_cap d)) [0..<dq_count d] @ [x]"
    by (simp only: dq_items_def c) (simp add: p)
  also have "map (\<lambda>i. ((dq_queue d)(unat (put_index d) := x)) ((unat (get_index d) + i) mod dq_cap d)) [0..<dq_count d] = dq_items d"
    unfolding dq_items_def by (rule map_cong) (simp_all add: old del: fun_upd_apply)
  finally show "dq_items (dq_put x d) = dq_items d @ [x]" .
qed

lemma dq_get_ok:
  assumes ok: "dq_ok d" and some: "0 < dq_count d"
  shows "dq_ok (snd (dq_get d))" "dq_count (snd (dq_get d)) = dq_count d - 1"
    "dq_items d = fst (dq_get d) # dq_items (snd (dq_get d))"
proof -
  note D = dq_okD[OF ok]
  let ?d = "snd (dq_get d)"
  have ne: "\<not> is_empty d" using some dq_count_empty[OF ok] by auto
  have g': "unat (next_index d (get_index d)) = (unat (get_index d) + 1) mod dq_cap d" by (rule unat_next_index[OF D(3,2)])
  then have "unat (next_index d (get_index d)) < dq_cap d" using D(1) by simp
  then show ok': "dq_ok ?d" using D ne by (auto simp: dq_ok_def)
  obtain c where c: "dq_count d = Suc c" using some by (cases "dq_count d") auto
  have le: "dq_count d \<le> dq_cap d" by (rule dq_count_bound[OF ok])
  show c': "dq_count ?d = dq_count d - 1"
  proof -
    have "unat (put_index d) = (unat (get_index d) + Suc c) mod dq_cap d" using put_position[OF ok] c by simp
    also have "\<dots> = (unat (next_index d (get_index d)) + c) mod dq_cap d" unfolding g' by (simp add: mod_add_left_eq)
    finally have p: "unat (put_index d) = (unat (next_index d (get_index d)) + c) mod dq_cap d" .
    have "c < dq_cap d" using c le by simp
    from ring_offset[OF this \<open>unat (next_index d (get_index d)) < dq_cap d\<close>]
    have "dq_count ?d = c" unfolding dq_count_def[of ?d] by (simp add: p)
    with c show ?thesis by simp
  qed
  have shift: "(unat (next_index d (get_index d)) + i) mod dq_cap d = (unat (get_index d) + Suc i) mod dq_cap d" for i
    unfolding g' by (simp add: mod_add_left_eq)
  have "dq_items d = dq_queue d (unat (get_index d)) # map (\<lambda>i. dq_queue d ((unat (get_index d) + Suc i) mod dq_cap d)) [0..<c]"
    unfolding dq_items_def c using D(3) by (simp add: upt_conv_Cons map_Suc_upt[symmetric] del: upt_Suc)
  also have "map (\<lambda>i. dq_queue d ((unat (get_index d) + Suc i) mod dq_cap d)) [0..<c] = dq_items ?d"
    unfolding dq_items_def c' c by (simp add: shift)
  finally show "dq_items d = fst (dq_get d) # dq_items ?d" by simp
qed

interpretation dqring: bounded_queue dq_ok dq_items dq_cap "\<lambda>_ _. True" dq_put dq_get
proof unfold_locales
  fix q x xs assume a: "dq_ok q" "dq_items q = x # xs"
  then have n: "0 < dq_count q" using length_dq_items[of q] by simp
  show "dq_ok (snd (dq_get q))" "dq_items (snd (dq_get q)) = xs" "fst (dq_get q) = x"
    using dq_get_ok[OF a(1) n] a(2) by simp_all
qed (simp_all add: dq_put_ok dq_count_bound)

lemma dq_len_count: "dq_ok d \<Longrightarrow> unat (dq_len d) = dq_count d"
proof -
  assume ok: "dq_ok d"
  note D = dq_okD[OF ok]
  have u: "uint (get_index d) = int (unat (get_index d))" "uint (put_index d) = int (unat (put_index d))"
    "uint (dq_size d) = int (dq_cap d)" by (simp_all add: dq_cap_def)
  have small: "unat (of_int (int c) :: u16) = c" if "c \<le> 2 ^ 15" for c
  proof -
    have "c < 2 ^ LENGTH(16)" using that by simp
    then show ?thesis by (simp only: of_int_of_nat_eq unat_of_nat mod_less)
  qed
  consider (e) "is_empty d" | (f) "is_full d" "\<not> is_empty d" | (m) "\<not> is_empty d" "\<not> is_full d" by blast
  then show ?thesis
  proof cases
    case e
    then show ?thesis using dq_count_empty[OF ok] by (simp add: dq_len_def)
  next
    case f
    then have "put_index d = get_index d" using D(6) by simp
    then have "uint (dq_size d) + uint (put_index d) - uint (get_index d) = int (dq_cap d)" using u(3) by simp
    then have "dq_len d = of_int (int (dq_cap d))"
      unfolding dq_len_def using f(2) \<open>put_index d = get_index d\<close> by (simp only: if_False order_less_irrefl)
    moreover have "dq_count d = dq_cap d" using f(1) by (simp add: dq_count_def)
    ultimately show ?thesis by (simp only: small[OF D(2)])
  next
    case m
    show ?thesis
    proof (cases "put_index d > get_index d")
      case True
      then have lt: "unat (get_index d) < unat (put_index d)" by (simp add: word_less_nat_alt)
      have "uint (put_index d) - uint (get_index d) = int (unat (put_index d) - unat (get_index d))"
        unfolding u by (subst of_nat_diff) (use lt in simp_all)
      then have "dq_len d = of_int (int (unat (put_index d) - unat (get_index d)))"
        unfolding dq_len_def using m True by (simp only: if_True if_False)
      moreover have "dq_count d = unat (put_index d) - unat (get_index d)"
      proof -
        have "unat (put_index d) + dq_cap d - unat (get_index d) = (unat (put_index d) - unat (get_index d)) + dq_cap d"
          using lt by simp
        then have "dq_count d = (unat (put_index d) - unat (get_index d) + dq_cap d) mod dq_cap d"
          unfolding dq_count_def using m by (simp only: if_False)
        moreover have "unat (put_index d) - unat (get_index d) < dq_cap d" using D(4) by simp
        ultimately show ?thesis by (simp only: mod_add_self2 mod_less)
      qed
      moreover have "unat (put_index d) - unat (get_index d) \<le> 2 ^ 15" using D(2,4) by simp
      ultimately show ?thesis by (simp only: small)
    next
      case False
      with m D(6) have lt: "unat (put_index d) < unat (get_index d)"
        by (metis linorder_neqE_nat word_less_nat_alt word_unat_eq_iff)
      have "uint (dq_size d) + uint (put_index d) - uint (get_index d) =
          int (dq_cap d + unat (put_index d) - unat (get_index d))"
        unfolding u by (subst of_nat_diff) (use lt D(3) in simp_all)
      then have "dq_len d = of_int (int (dq_cap d + unat (put_index d) - unat (get_index d)))"
        unfolding dq_len_def using m False by (simp only: if_False)
      moreover have "dq_count d = dq_cap d + unat (put_index d) - unat (get_index d)"
      proof -
        have "dq_cap d + unat (put_index d) - unat (get_index d) < dq_cap d" using lt D(3) by simp
        then show ?thesis unfolding dq_count_def using m by (simp only: if_False add.commute mod_less)
      qed
      moreover have "dq_cap d + unat (put_index d) - unat (get_index d) \<le> 2 ^ 15" using lt D(2) by simp
      ultimately show ?thesis by (simp only: small)
    qed
  qed
qed

section \<open>Pushing and popping\<close>

interpretation dqpushq: ipc_object "DqPushQ n" for n
  by unfold_locales (simp add: waitq_def)

interpretation dqpopq: ipc_object "DqPopQ n" for n
  by unfold_locales (simp add: waitq_def)

definition dq_wf :: "nat \<Rightarrow> data_queues \<Rightarrow> kernel \<Rightarrow> bool" where
  "dq_wf n ds k \<longleftrightarrow> dq_magic (ds n) = DATAQUEUE_MAGIC \<and> dq_ok (ds n) \<and>
     no_error (DqPushQ n) k \<and> no_error (DqPopQ n) k"

lemma dq_queues_wait [simp]: "waitq (DqPushQ n)" "waitq (DqPopQ n)"
  by (simp_all add: waitq_def)

text \<open>The caller waits at the end of the list, with its timer armed.\<close>

definition dq_waits :: "qid \<Rightarrow> tid \<Rightarrow> int \<Rightarrow> kernel \<Rightarrow> kernel \<Rightarrow> bool" where
  "dq_waits q t timeout k k' \<longleftrightarrow>
     suspended k' t \<and> error (threads k' t) = RT_EOK \<and> queues k' q = queues k q @ [t] \<and>
     (timeout > 0 \<longrightarrow> timeout_tick (timers k' (ThreadTimer t)) = tick k + of_int timeout)"

context ipc_object begin

lemma dq_wait_ok:
  assumes "runs b t k" "timeout < 2 ^ 31 - 1"
  obtains k' where "dq_wait q timeout k = Some k'" "sysinv b k'" "dq_waits q t timeout k k'"
    "\<And>g. waitq g \<Longrightarrow> no_error g k \<Longrightarrow> no_error g k'"
proof -
  have r: "runs b t (set_error t RT_EOK k)" "cur k = Some t" using assms(1) by (simp_all add: runs_def)
  obtain k1 k2 k' where p: "suspend_on q t (set_error t RT_EOK k) = Some k1"
    "arm_if t timeout k1 = Some k2" "rt_schedule k2 = Some k'" "sysinv b k'"
    "waits_on q RT_IPC_FLAG_FIFO t timeout (set_error t RT_EOK k) k'"
    by (rule suspend_path[OF r(1) assms(2)])
  have "dq_wait q timeout k = Some k'" using p(1-3) r(2) by (simp add: dq_wait_def rt_thread_self_def)
  moreover have "dq_waits q t timeout k k'"
    using waits_onD(1)[OF p(5)] waits_on_error(1,2,6)[OF p(5)] by (simp add: dq_waits_def wait_insert_def)
  ultimately show ?thesis using p(4) no_error_waits[OF p(5)] by (intro that)
qed

text \<open>Resuming the first thread, if there is one.\<close>

lemma resume_if_ok:
  assumes "sysinv b k" "cur k = Some c" "no_error q k"
  obtains k' where "(if queues k q \<noteq> [] then resume_head q k else Some k) = Some k'" "sysinv b k'"
    "first_woken q k k'" "\<And>g. waitq g \<Longrightarrow> no_error g k \<Longrightarrow> no_error g k'"
proof (cases "queues k q")
  case Nil
  then show ?thesis using assms by (intro that[of k]) (simp_all add: first_woken_def)
next
  case (Cons w ws)
  obtain k' where k': "resume_head q k = Some k'" "sysinv b k'" "cur k' \<noteq> None" "wakes q w k k'" "queues k' q = ws"
    by (rule resume_head_ok[OF assms(1,2) Cons assms(3)])
  then show ?thesis
    using Cons no_error_wakes[OF k'(4)] wakesD(2,3)[OF k'(4)]
    by (intro that[of k']) (simp_all add: first_woken_def)
qed

end

definition dq_pushed ::
  "nat \<Rightarrow> u32 \<times> u32 \<Rightarrow> int \<Rightarrow> tid \<Rightarrow> data_queues \<Rightarrow> kernel \<Rightarrow> outcome \<times> dq_event option \<times> data_queues \<times> kernel \<Rightarrow> bool" where
  "dq_pushed n x timeout t ds k = (\<lambda>(r, ev, ds', k').
     if length (dq_items (ds n)) < dq_cap (ds n)
     then r = Done RT_EOK \<and> dq_items (ds' n) = dq_items (ds n) @ [x] \<and> dq_cap (ds' n) = dq_cap (ds n) \<and>
       first_woken (DqPopQ n) k k' \<and>
       ev = (if queues k (DqPopQ n) = [] \<and> dq_notify (ds n) then Some RT_DATAQUEUE_EVENT_PUSH else None)
     else ds' = ds \<and> ev = None \<and>
       (if timeout = 0 then r = Done (- RT_ETIMEOUT) \<and> k' = k else r = Waiting \<and> dq_waits (DqPushQ n) t timeout k k'))"

definition dq_popped ::
  "nat \<Rightarrow> int \<Rightarrow> tid \<Rightarrow> data_queues \<Rightarrow> kernel \<Rightarrow>
   outcome \<times> (u32 \<times> u32) option \<times> dq_event option \<times> data_queues \<times> kernel \<Rightarrow> bool" where
  "dq_popped n timeout t ds k = (\<lambda>(r, v, ev, ds', k').
     case dq_items (ds n) of
       x # xs \<Rightarrow> r = Done RT_EOK \<and> v = Some x \<and> dq_items (ds' n) = xs \<and> dq_cap (ds' n) = dq_cap (ds n) \<and>
         (if length xs \<le> unat (dq_lwm (ds n))
          then first_woken (DqPushQ n) k k' \<and> ev = (if dq_notify (ds n) then Some RT_DATAQUEUE_EVENT_LWM else None)
          else k' = k \<and> ev = (if dq_notify (ds n) then Some RT_DATAQUEUE_EVENT_POP else None))
     | [] \<Rightarrow> ds' = ds \<and> v = None \<and> ev = None \<and>
         (if timeout = 0 then r = Done (- RT_ETIMEOUT) \<and> k' = k
          else r = Waiting \<and> dq_waits (DqPopQ n) t timeout k k'))"

lemma dq_push_pass_ok:
  assumes wf: "dq_wf n ds k" and inv: "sysinv b k" "cur k = Some t" and to: "timeout < 2 ^ 31 - 1"
    and run: "timeout \<noteq> 0 \<longrightarrow> tstat k t = RT_THREAD_RUNNING"
  shows "ok (dq_push_pass n x timeout ds k) (\<lambda>(r, ev, ds', k'). sysinv b k' \<and> dq_wf n ds' k' \<and>
    dq_pushed n x timeout t ds k (r, ev, ds', k'))"
proof -
  have d: "dq_ok (ds n)" "no_error (DqPushQ n) k" "no_error (DqPopQ n) k" using wf by (simp_all add: dq_wf_def)
  note full = dq_count_full[OF d(1)] and le = dq_count_bound[OF d(1)]
  consider "is_full (ds n)" "timeout = 0" | "is_full (ds n)" "timeout \<noteq> 0" | "\<not> is_full (ds n)" by blast
  then show ?thesis
  proof cases
    case 1
    then show ?thesis using inv wf full by (simp add: dq_push_pass_def dq_pushed_def)
  next
    case 2
    then have "runs b t k" using inv run by (simp add: runs_def)
    then obtain k' where k': "dq_wait (DqPushQ n) timeout k = Some k'" "sysinv b k'" "dq_waits (DqPushQ n) t timeout k k'"
      "\<And>g. waitq g \<Longrightarrow> no_error g k \<Longrightarrow> no_error g k'"
      using to by (rule dqpushq.dq_wait_ok) (rule that)
    then show ?thesis using 2 wf full d by (simp add: dq_push_pass_def dq_pushed_def dq_wf_def)
  next
    case 3
    then have room: "dq_count (ds n) < dq_cap (ds n)" using full le by simp
    note P = dq_put_ok[OF d(1) room, of x]
    obtain k' where k': "(if queues k (DqPopQ n) \<noteq> [] then resume_head (DqPopQ n) k else Some k) = Some k'" "sysinv b k'"
      "first_woken (DqPopQ n) k k'" "\<And>g. waitq g \<Longrightarrow> no_error g k \<Longrightarrow> no_error g k'"
      by (rule dqpopq.resume_if_ok[OF inv d(3)]) (rule that)
    have "dq_wf n (ds(n := dq_put x (ds n))) k'" using P(1) wf k'(4) by (simp add: dq_wf_def)
    moreover have "dq_pushed n x timeout t ds k (Done RT_EOK,
        if queues k (DqPopQ n) = [] \<and> dq_notify (ds n) then Some RT_DATAQUEUE_EVENT_PUSH else None,
        ds(n := dq_put x (ds n)), k')"
      using room P k'(3) by (simp add: dq_pushed_def)
    ultimately show ?thesis
      using 3 k'(1,2) by (cases "queues k (DqPopQ n) = []") (auto simp: dq_push_pass_def notified_def)
  qed
qed

lemma dq_pop_pass_ok:
  assumes wf: "dq_wf n ds k" and inv: "sysinv b k" "cur k = Some t" and to: "timeout < 2 ^ 31 - 1"
    and run: "timeout \<noteq> 0 \<longrightarrow> tstat k t = RT_THREAD_RUNNING"
  shows "ok (dq_pop_pass n timeout ds k) (\<lambda>(r, v, ev, ds', k'). sysinv b k' \<and> dq_wf n ds' k' \<and>
    dq_popped n timeout t ds k (r, v, ev, ds', k'))"
proof -
  have d: "dq_ok (ds n)" "no_error (DqPushQ n) k" "no_error (DqPopQ n) k" "dq_magic (ds n) = DATAQUEUE_MAGIC"
    using wf by (simp_all add: dq_wf_def)
  note empty = dq_count_empty[OF d(1)]
  consider "is_empty (ds n)" "timeout = 0" | "is_empty (ds n)" "timeout \<noteq> 0" | "\<not> is_empty (ds n)" by blast
  then show ?thesis
  proof cases
    case 1
    then have "dq_items (ds n) = []" using empty by (metis length_0_conv length_dq_items)
    with 1 show ?thesis using inv wf by (simp add: dq_pop_pass_def dq_popped_def)
  next
    case 2
    then have "runs b t k" using inv run by (simp add: runs_def)
    then obtain k' where k': "dq_wait (DqPopQ n) timeout k = Some k'" "sysinv b k'" "dq_waits (DqPopQ n) t timeout k k'"
      "\<And>g. waitq g \<Longrightarrow> no_error g k \<Longrightarrow> no_error g k'"
      using to by (rule dqpopq.dq_wait_ok) (rule that)
    have "dq_items (ds n) = []" using 2 empty by (metis length_0_conv length_dq_items)
    with 2 k' d show ?thesis by (simp add: dq_pop_pass_def dq_popped_def dq_wf_def)
  next
    case 3
    then have some: "0 < dq_count (ds n)" using empty by simp
    note G = dq_get_ok[OF d(1) some]
    obtain x d' where g: "dq_get (ds n) = (x, d')" by (cases "dq_get (ds n)")
    note G' = G[unfolded g, simplified]
    have len: "rt_data_queue_len n (ds(n := d')) = Some (dq_len d')"
      using d(4) dq_get_fields(5)[of "ds n"] g by (simp add: rt_data_queue_len_def)
    have low: "dq_len d' \<le> dq_lwm d' \<longleftrightarrow> length (dq_items d') \<le> unat (dq_lwm (ds n))"
      using dq_len_count[OF G'(1)] dq_get_fields(6)[of "ds n"] g by (simp add: word_le_nat_alt)
    have f: "dq_cap d' = dq_cap (ds n)" "dq_notify d' = dq_notify (ds n)" "dq_magic d' = DATAQUEUE_MAGIC"
      using dq_get_fields(1,5,8)[of "ds n"] g d(4) by simp_all
    show ?thesis
    proof (cases "dq_len d' \<le> dq_lwm d'")
      case True
      obtain k' where k': "(if queues k (DqPushQ n) \<noteq> [] then resume_head (DqPushQ n) k else Some k) = Some k'" "sysinv b k'"
        "first_woken (DqPushQ n) k k'" "\<And>g. waitq g \<Longrightarrow> no_error g k \<Longrightarrow> no_error g k'"
        by (rule dqpushq.resume_if_ok[OF inv d(2)]) (rule that)
      have "dq_pop_pass n timeout ds k = Some (Done RT_EOK, Some x, notified d' RT_DATAQUEUE_EVENT_LWM, ds(n := d'), k')"
        using 3 True k'(1) len g by (simp add: dq_pop_pass_def)
      moreover have "dq_wf n (ds(n := d')) k'" using G'(1) d f k'(4) by (simp add: dq_wf_def)
      moreover have "dq_popped n timeout t ds k (Done RT_EOK, Some x, notified d' RT_DATAQUEUE_EVENT_LWM, ds(n := d'), k')"
        using True low G'(3) k'(3) f by (simp add: dq_popped_def notified_def)
      ultimately show ?thesis using k'(2) by simp
    next
      case False
      have "dq_pop_pass n timeout ds k = Some (Done RT_EOK, Some x, notified d' RT_DATAQUEUE_EVENT_POP, ds(n := d'), k)"
        using 3 False len g by (simp add: dq_pop_pass_def)
      moreover have "dq_wf n (ds(n := d')) k" using G'(1) d f by (simp add: dq_wf_def)
      moreover have "dq_popped n timeout t ds k (Done RT_EOK, Some x, notified d' RT_DATAQUEUE_EVENT_POP, ds(n := d'), k)"
        using False low G'(3) f by (simp add: dq_popped_def notified_def)
      ultimately show ?thesis using inv(1) by simp
    qed
  qed
qed

section \<open>The theorems\<close>

text \<open>C29: pushing. A push into a data queue with room appends the item, wakes the first thread that waits to pop, if
  there is one, and otherwise reports the event; into a full queue it fails with \<open>-RT_ETIMEOUT\<close> without waiting, or
  suspends the caller behind the other pushers with its timer due in exactly the time-out. It fails no assertion
  and keeps the ring and the system sound.\<close>
theorem dq_push_refines:
  assumes "dq_wf n ds k" "may_call b t timeout k"
  shows "ok (rt_data_queue_push n x timeout ds k) (\<lambda>(r, ev, ds', k'). sysinv b k' \<and> dq_wf n ds' k' \<and>
    dq_pushed n x timeout t ds k (r, ev, ds', k'))"
proof -
  have "rt_data_queue_push n x timeout ds k = dq_push_pass n x timeout ds k"
    using assms by (auto simp: rt_data_queue_push_def dq_wf_def may_call_def rt_assert_def)
  then show ?thesis using dq_push_pass_ok[of n ds k b t timeout x] assms by (simp add: may_call_def)
qed

text \<open>Popping. A pop from a data queue with items returns the oldest one; if what is left does not exceed the low
  water mark it wakes the first thread that waits to push and reports the low water event, otherwise it wakes
  nobody. From an empty queue it fails with \<open>-RT_ETIMEOUT\<close> without waiting, or suspends the caller behind the other
  poppers with its timer due in exactly the time-out.\<close>
theorem dq_pop_refines:
  assumes "dq_wf n ds k" "may_call b t timeout k"
  shows "ok (rt_data_queue_pop n timeout ds k) (\<lambda>(r, v, ev, ds', k'). sysinv b k' \<and> dq_wf n ds' k' \<and>
    dq_popped n timeout t ds k (r, v, ev, ds', k'))"
proof -
  have "rt_data_queue_pop n timeout ds k = dq_pop_pass n timeout ds k"
    using assms by (auto simp: rt_data_queue_pop_def dq_wf_def may_call_def rt_assert_def)
  then show ?thesis using dq_pop_pass_ok[of n ds k b t timeout] assms by (simp add: may_call_def)
qed

text \<open>A thread that was woken goes around the loop again, with the same result as a new call.\<close>

theorem dq_woken_retries:
  assumes "dq_wf n ds k" "may_call b t timeout k" "error (threads k t) = RT_EOK"
  shows "dq_push_resume n t x timeout ds k = rt_data_queue_push n x timeout ds k"
    and "dq_pop_resume n t timeout ds k = rt_data_queue_pop n timeout ds k"
  using assms by (auto simp: dq_push_resume_def dq_pop_resume_def rt_data_queue_push_def rt_data_queue_pop_def dq_wf_def
      may_call_def rt_assert_def)

text \<open>Items come out in the order in which they went in.\<close>

theorem dq_in_order:
  assumes "dq_ok d" "dq_items d = []" "length xs \<le> dq_cap d"
  shows "fst (dqring.take_n (length xs) (fold dq_put xs d)) = xs"
  by (rule dqring.first_in_first_out) (use assms in auto)

text \<open>Initialising.\<close>

lemma dq_init_ok:
  assumes "0 < sz" "sz \<le> 0x8000"
  shows "\<exists>ds' k'. rt_data_queue_init n sz lwm notify (Some q) ds k = Some (RT_EOK, ds', k') \<and> dq_ok (ds' n) \<and>
    dq_items (ds' n) = [] \<and> dq_cap (ds' n) = unat sz \<and> dq_wf n ds' k'"
proof -
  have "0 < unat sz" "unat sz \<le> 2 ^ 15" using assms by (simp_all add: unat_gt_0 word_le_nat_alt)
  then show ?thesis
    using assms(1) by (simp add: rt_data_queue_init_def dq_ok_def dq_cap_def dq_items_def dq_count_def dq_wf_def no_error_def
        ipc_object_init_def Let_def)
qed

section \<open>Resetting\<close>

text \<open>A waiter that has been told of the reset.\<close>

definition told :: "tid \<Rightarrow> kernel \<Rightarrow> bool" where
  "told t k \<longleftrightarrow> runnable k t \<and> error (threads k t) = - RT_ERROR"

lemma told_scheduled: "only_scheduled (k\<lparr>lock_nest := l\<rparr>) k' \<Longrightarrow> told t k \<Longrightarrow> told t k'"
  using only_scheduledD(3)[of "k\<lparr>lock_nest := l\<rparr>" k' t] stat_onlyD(1)[OF only_scheduledD(1)[of "k\<lparr>lock_nest := l\<rparr>" k' t]]
  by (simp add: told_def runnable_def tstat_def)

lemma told_all_woken: "all_woken q k k' \<Longrightarrow> t \<in> set (queues k q) \<or> told t k \<Longrightarrow> told t k'"
proof -
  assume a: "all_woken q k k'" "t \<in> set (queues k q) \<or> told t k"
  show ?thesis
  proof (cases "t \<in> set (queues k q)")
    case True
    then show ?thesis using a(1) by (simp add: all_woken_def told_def)
  next
    case False
    then have "threads k' t = threads k t" using a(1) by (simp add: all_woken_def)
    then show ?thesis using a(2) False by (simp add: told_def runnable_def tstat_def)
  qed
qed

text \<open>Resetting. A reset empties the data queue and wakes every thread that waits to push or to pop; all of them
  return \<open>-RT_ERROR\<close>. It ends and keeps the system sound.\<close>
theorem dq_reset_wakes_all:
  assumes "dq_wf n ds k" "sysinv b k" "cur k = Some c"
  shows "ok (rt_data_queue_reset n ds k) (\<lambda>(ds', k'). sysinv b k' \<and> dq_ok (ds' n) \<and> dq_items (ds' n) = [] \<and>
    queues k' (DqPopQ n) = [] \<and> queues k' (DqPushQ n) = [] \<and>
    (\<forall>t \<in> set (queues k (DqPopQ n)) \<union> set (queues k (DqPushQ n)). runnable k' t \<and>
      dq_push_resume n t x timeout ds' k' = Some (Done (- RT_ERROR), None, ds', k') \<and>
      dq_pop_resume n t timeout ds' k' = Some (Done (- RT_ERROR), None, None, ds', k')))"
proof -
  let ?d = "(ds n)\<lparr>get_index := 0, put_index := 0, is_empty := True, is_full := False\<rparr>"
  have d: "dq_ok ?d" "dq_items ?d = []"
    using assms(1) by (simp_all add: dq_wf_def dq_ok_def dq_cap_def dq_items_def dq_count_def)
  let ?k0 = "rt_enter_critical k"
  have k0: "sysinv b ?k0" "cur ?k0 = Some c" "queues ?k0 = queues k" using assms by (simp_all add: rt_enter_critical_def)
  obtain k1 where k1: "ipc_list_resume_all (DqPopQ n) ?k0 = Some k1" "sysinv b k1" "all_woken (DqPopQ n) ?k0 k1"
    using dqpopq.resume_all_ok[OF k0(1)] by (auto simp: ok_iff)
  obtain k2 where k2: "ipc_list_resume_all (DqPushQ n) k1 = Some k2" "sysinv b k2" "all_woken (DqPushQ n) k1 k2"
    using dqpushq.resume_all_ok[OF k1(2)] by (auto simp: ok_iff)
  have q: "queues k2 (DqPopQ n) = []" "queues k2 (DqPushQ n) = []" "cur k2 = Some c"
    "queues k1 (DqPushQ n) = queues k (DqPushQ n)"
    using k1(3) k2(3) k0 by (simp_all add: all_woken_def)
  have t2: "told t k2" if "t \<in> set (queues k (DqPopQ n)) \<union> set (queues k (DqPushQ n))" for t
    using told_all_woken[OF k1(3), of t] told_all_woken[OF k2(3), of t] that q(4) k0(3) by auto
  obtain k3 l where k3: "rt_exit_critical k2 = Some k3" "sysinv b k3" "cur k3 \<noteq> None" "only_scheduled (k2\<lparr>lock_nest := l\<rparr>) k3"
    by (rule exit_critical_ok[OF k2(2) q(3)])
  then obtain c3 where "cur k3 = Some c3" by blast
  from rt_schedule_sys[OF k3(2) this] obtain k4 where k4: "rt_schedule k3 = Some k4" "sysinv b k4" "sched_frame k3 k4"
    by (auto simp: ok_iff)
  have s4: "only_scheduled (k3\<lparr>lock_nest := lock_nest k3\<rparr>) k4" using sched_frame_only[OF k4(3)] by simp
  have "rt_data_queue_reset n ds k = Some (ds(n := ?d), k4)"
    using assms(1) k1(1) k2(1) k3(1) k4(1) by (simp add: rt_data_queue_reset_def dq_wf_def Let_def)
  moreover have "queues k4 (DqPopQ n) = []" "queues k4 (DqPushQ n) = []"
    using only_scheduledD(4)[OF s4] only_scheduledD(4)[OF k3(4)] q by simp_all
  moreover have "told t k4" if "t \<in> set (queues k (DqPopQ n)) \<union> set (queues k (DqPushQ n))" for t
    by (rule told_scheduled[OF s4 told_scheduled[OF k3(4) t2[OF that]]])
  ultimately show ?thesis
    using k4(2) d by (auto simp: told_def dq_push_resume_def dq_pop_resume_def)
qed

section \<open>Examples\<close>

definition example_dq :: data_queues where
  "example_dq = (\<lambda>_. \<lparr>dq_magic = DATAQUEUE_MAGIC, dq_size = 2, dq_lwm = 1, get_index = 1, is_empty = False, put_index = 0,
     is_full = False, dq_queue = (\<lambda>_. (7, 8)), dq_notify = True\<rparr>)"

lemma example_dq_wf: "dq_wf 0 example_dq example_kernel" "dq_items (example_dq 0) = [(7, 8)]" "dq_cap (example_dq 0) = 2"
  by (simp_all add: dq_wf_def example_dq_def dq_ok_def dq_cap_def no_error_def example_kernel_def dq_items_def dq_count_def)

theorem dq_push_refines_witness:
  "ok (rt_data_queue_push 0 (1, 2) 20 example_dq example_kernel) (\<lambda>(r, ev, ds', k'). r = Done RT_EOK \<and>
    dq_items (ds' 0) = [(7, 8), (1, 2)])"
  by (rule ok_mono[OF dq_push_refines[OF example_dq_wf(1) example_may_call]])
    (auto simp: dq_pushed_def example_dq_wf example_dq_wf(2)[THEN arg_cong[of _ _ length], simplified])

theorem dq_pop_refines_witness:
  "ok (rt_data_queue_pop 0 20 example_dq example_kernel) (\<lambda>(r, v, ev, ds', k'). r = Done RT_EOK \<and> v = Some (7, 8) \<and>
    dq_items (ds' 0) = [])"
  by (rule ok_mono[OF dq_pop_refines[OF example_dq_wf(1) example_may_call]]) (auto simp: dq_popped_def example_dq_wf)

theorem dq_reset_wakes_all_witness:
  "ok (rt_data_queue_reset 0 example_dq example_kernel) (\<lambda>(ds', k'). dq_items (ds' 0) = [])"
  by (rule ok_mono[OF dq_reset_wakes_all[OF example_dq_wf(1) example_sysinv example_available(2), of "(0, 0)" 0]]) auto

end
