(* ===== verification/WorkQueue.thy ===== *)
theory WorkQueue
  imports ThreadEnd Sem
begin

text \<open>
  Work queues, \<open>components/drivers/ipc/workqueue.c\<close>: a thread that runs the functions of work items, one after the
  other; items may be submitted at once, in front of all others, or after a delay, for which every item has a
  timer. Work items and queues are numbers; the timer of item \<open>w\<close> is \<open>UserTimer w\<close>. The functions of the items
  are a parameter of the pass of the thread.
\<close>

section \<open>Data\<close>

abbreviation RT_WORK_STATE_PENDING :: u16 where "RT_WORK_STATE_PENDING \<equiv> 1"
abbreviation RT_WORK_STATE_SUBMITTING :: u16 where "RT_WORK_STATE_SUBMITTING \<equiv> 2"
abbreviation RT_TIMER_FLAG_SOFT_TIMER :: u8 where "RT_TIMER_FLAG_SOFT_TIMER \<equiv> 4"

record rt_work =
  work_flags :: u16
  workqueue :: "nat option"

record rt_workqueue =
  work_list :: "nat list"
  delayed_list :: "nat list"
  work_current :: "nat option"
  wq_sem :: nat
  work_thread :: tid

record workqs =
  works :: "nat \<Rightarrow> rt_work"
  wqs :: "nat \<Rightarrow> rt_workqueue"

text \<open>The number of the timer function of this file.\<close>

abbreviation delayed_work_timeout :: timeout_fn where "delayed_work_timeout \<equiv> UserTimeout 0"

definition upd_work :: "nat \<Rightarrow> (rt_work \<Rightarrow> rt_work) \<Rightarrow> workqs \<Rightarrow> workqs" where
  "upd_work w f s = s\<lparr>works := (works s)(w := f (works s w))\<rparr>"

definition upd_wq :: "nat \<Rightarrow> (rt_workqueue \<Rightarrow> rt_workqueue) \<Rightarrow> workqs \<Rightarrow> workqs" where
  "upd_wq q f s = s\<lparr>wqs := (wqs s)(q := f (wqs s q))\<rparr>"

text \<open>\<open>rt_list_remove\<close> takes an item out of the list it is in.\<close>

definition unlink_work :: "nat \<Rightarrow> workqs \<Rightarrow> workqs" where
  "unlink_work w s =
     s\<lparr>wqs := (\<lambda>q. (wqs s q)\<lparr>work_list := removeAll w (work_list (wqs s q)),
                             delayed_list := removeAll w (delayed_list (wqs s q))\<rparr>)\<rparr>"

definition set_flag :: "nat \<Rightarrow> u16 \<Rightarrow> workqs \<Rightarrow> workqs" where
  "set_flag w f = upd_work w (\<lambda>x. x\<lparr>work_flags := work_flags x OR f\<rparr>)"

definition clear_flag :: "nat \<Rightarrow> u16 \<Rightarrow> workqs \<Rightarrow> workqs" where
  "clear_flag w f = upd_work w (\<lambda>x. x\<lparr>work_flags := work_flags x AND NOT f\<rparr>)"

definition submitting :: "nat \<Rightarrow> workqs \<Rightarrow> bool" where
  "submitting w s \<longleftrightarrow> work_flags (works s w) AND RT_WORK_STATE_SUBMITTING \<noteq> 0"

section \<open>Operations\<close>

text \<open>The acknowledgement of a completed work: it wakes every thread that waits for it.\<close>

partial_function (option) completion_loop :: "nat \<Rightarrow> kernel \<Rightarrow> (rt_err_t \<times> kernel) option" where
  "completion_loop sem k =
     do { (result, k) \<leftarrow> rt_sem_trytake sem k;
          if result = Done (- RT_ETIMEOUT)
          then do { (_, k) \<leftarrow> rt_sem_release sem k; completion_loop sem k }
          else if result = Done RT_EOK then Some (RT_EOK, k)
          else Some (- RT_ERROR, k) }"

definition workqueue_work_completion :: "nat \<Rightarrow> workqs \<Rightarrow> kernel \<Rightarrow> (rt_err_t \<times> kernel) option" where
  "workqueue_work_completion q s k =
     do { let k = rt_enter_critical k;
          (result, k) \<leftarrow> completion_loop (wq_sem (wqs s q)) k;
          k \<leftarrow> rt_exit_critical k;
          Some (result, k) }"

definition take_work :: "nat \<Rightarrow> nat \<Rightarrow> workqs \<Rightarrow> workqs" where
  "take_work q w s =
     (let s = upd_wq q (\<lambda>x. x\<lparr>work_current := Some w\<rparr>) (unlink_work w s)
      in upd_work w (\<lambda>x. x\<lparr>workqueue := None\<rparr>) (clear_flag w RT_WORK_STATE_PENDING s))"

text \<open>One pass of the loop of the work thread.\<close>

definition workqueue_thread_pass ::
  "nat \<Rightarrow> (nat \<Rightarrow> workqs \<Rightarrow> kernel \<Rightarrow> (workqs \<times> kernel) option) \<Rightarrow> workqs \<Rightarrow> kernel \<Rightarrow> (workqs \<times> kernel) option" where
  "workqueue_thread_pass q work_func s k =
     (case work_list (wqs s q) of
        [] \<Rightarrow> do { t \<leftarrow> rt_thread_self k;
                   (_, k) \<leftarrow> rt_thread_suspend_with_flag t RT_UNINTERRUPTIBLE k;
                   k \<leftarrow> rt_schedule k;
                   Some (s, k) }
      | w # _ \<Rightarrow> do {
          (s, k) \<leftarrow> work_func w (take_work q w s) k;
          let s = upd_wq q (\<lambda>x. x\<lparr>work_current := None\<rparr>) s;
          (_, k) \<leftarrow> workqueue_work_completion q s k;
          Some (s, k) })"

text \<open>Whether the work queue is doing work.\<close>

definition wake_worker :: "nat \<Rightarrow> workqs \<Rightarrow> kernel \<Rightarrow> kernel option" where
  "wake_worker q s k =
     (if work_current (wqs s q) = None \<and> suspended k (work_thread (wqs s q))
      then rt_schedule (snd (rt_thread_resume (work_thread (wqs s q)) k))
      else Some k)"

definition append_work :: "nat \<Rightarrow> nat \<Rightarrow> workqs \<Rightarrow> workqs" where
  "append_work q w = upd_wq q (\<lambda>x. x\<lparr>work_list := work_list x @ [w]\<rparr>)"

definition workqueue_submit_work :: "nat \<Rightarrow> nat \<Rightarrow> u32 \<Rightarrow> workqs \<Rightarrow> kernel \<Rightarrow> (rt_err_t \<times> workqs \<times> kernel) option" where
  "workqueue_submit_work q w ticks s k =
     (let s = clear_flag w RT_WORK_STATE_PENDING (unlink_work w s) in
      if ticks = 0 then do {
        let s = set_flag w RT_WORK_STATE_PENDING (append_work q w s);
        let s = upd_work w (\<lambda>x. x\<lparr>workqueue := Some q\<rparr>) s;
        k \<leftarrow> wake_worker q s k;
        Some (RT_EOK, s, k) }
      else if ticks < RT_TICK_MAX div 2 then do {
        (s, k) \<leftarrow> (if submitting w s
                  then do { (_, k) \<leftarrow> rt_timer_control (UserTimer w) (TimerSetTime ticks) (snd (rt_timer_stop (UserTimer w) k));
                            Some (s, k) }
                  else do { k \<leftarrow> rt_timer_init (UserTimer w) delayed_work_timeout w ticks RT_TIMER_FLAG_SOFT_TIMER k;
                            Some (set_flag w RT_WORK_STATE_SUBMITTING s, k) });
        let s = upd_work w (\<lambda>x. x\<lparr>workqueue := Some q\<rparr>) s;
        let s = upd_wq q (\<lambda>x. x\<lparr>delayed_list := delayed_list x @ [w]\<rparr>) s;
        Some (RT_EOK, s, rt_timer_start (UserTimer w) k) }
      else Some (- RT_ERROR, s, k))"

definition workqueue_cancel_work :: "nat \<Rightarrow> nat \<Rightarrow> workqs \<Rightarrow> kernel \<Rightarrow> rt_err_t \<times> workqs \<times> kernel" where
  "workqueue_cancel_work q w s k =
     (let s = clear_flag w RT_WORK_STATE_PENDING (unlink_work w s);
          (s, k) = (if submitting w s
                    then (clear_flag w RT_WORK_STATE_SUBMITTING s,
                          rt_timer_detach (UserTimer w) (snd (rt_timer_stop (UserTimer w) k)))
                    else (s, k));
          err = (if work_current (wqs s q) \<noteq> Some w then RT_EOK else - RT_EBUSY)
      in (err, upd_work w (\<lambda>x. x\<lparr>workqueue := None\<rparr>) s, k))"

definition delayed_work_timeout_handler :: "nat \<Rightarrow> workqs \<Rightarrow> kernel \<Rightarrow> (workqs \<times> kernel) option" where
  "delayed_work_timeout_handler w s k =
     do { q \<leftarrow> workqueue (works s w);
          let k = rt_timer_detach (UserTimer w) k;
          let s = unlink_work w (clear_flag w RT_WORK_STATE_SUBMITTING s);
          let s = (if work_current (wqs s q) \<noteq> Some w
                   then set_flag w RT_WORK_STATE_PENDING (append_work q w s) else s);
          k \<leftarrow> wake_worker q s k;
          Some (s, k) }"

text \<open>For an item that is in no list: \<open>rt_list_init\<close> does not unlink it.\<close>

definition rt_work_init :: "nat \<Rightarrow> workqs \<Rightarrow> workqs" where
  "rt_work_init w = upd_work w (\<lambda>_. \<lparr>work_flags = 0, workqueue = None\<rparr>)"

definition rt_workqueue_dowork :: "nat \<Rightarrow> nat \<Rightarrow> workqs \<Rightarrow> kernel \<Rightarrow> (rt_err_t \<times> workqs \<times> kernel) option" where
  "rt_workqueue_dowork q w s k = workqueue_submit_work q w 0 s k"

definition rt_workqueue_submit_work :: "nat \<Rightarrow> nat \<Rightarrow> u32 \<Rightarrow> workqs \<Rightarrow> kernel \<Rightarrow> (rt_err_t \<times> workqs \<times> kernel) option" where
  "rt_workqueue_submit_work q w ticks s k =
     do { rt_assert (ticks < RT_TICK_MAX div 2); workqueue_submit_work q w ticks s k }"

definition rt_workqueue_urgent_work :: "nat \<Rightarrow> nat \<Rightarrow> workqs \<Rightarrow> kernel \<Rightarrow> (rt_err_t \<times> workqs \<times> kernel) option" where
  "rt_workqueue_urgent_work q w s k =
     do { let s = upd_wq q (\<lambda>x. x\<lparr>work_list := w # work_list x\<rparr>) (unlink_work w s);
          k \<leftarrow> wake_worker q s k;
          Some (RT_EOK, s, k) }"

definition rt_workqueue_cancel_work :: "nat \<Rightarrow> nat \<Rightarrow> workqs \<Rightarrow> kernel \<Rightarrow> rt_err_t \<times> workqs \<times> kernel" where
  "rt_workqueue_cancel_work q w s k = workqueue_cancel_work q w s k"

definition rt_workqueue_cancel_work_sync :: "nat \<Rightarrow> nat \<Rightarrow> workqs \<Rightarrow> kernel \<Rightarrow> (outcome \<times> workqs \<times> kernel) option" where
  "rt_workqueue_cancel_work_sync q w s k =
     (if work_current (wqs s q) = Some w
      then do { (r, k) \<leftarrow> rt_sem_take (wq_sem (wqs s q)) (- 1) k;
                Some (case r of Waiting \<Rightarrow> Waiting | Done _ \<Rightarrow> Done RT_EOK, s, k) }
      else (let (_, s, k) = workqueue_cancel_work q w s k in Some (Done RT_EOK, s, k)))"

partial_function (option) cancel_loop :: "(rt_workqueue \<Rightarrow> nat list) \<Rightarrow> nat \<Rightarrow> workqs \<Rightarrow> kernel \<Rightarrow> (workqs \<times> kernel) option" where
  "cancel_loop lst q s k =
     (case lst (wqs s q) of
        [] \<Rightarrow> Some (s, k)
      | w # _ \<Rightarrow> (let (_, s, k) = workqueue_cancel_work q w s k in cancel_loop lst q s k))"

definition rt_workqueue_cancel_all_work :: "nat \<Rightarrow> workqs \<Rightarrow> kernel \<Rightarrow> (rt_err_t \<times> workqs \<times> kernel) option" where
  "rt_workqueue_cancel_all_work q s k =
     do { let k = rt_enter_critical k;
          (s, k) \<leftarrow> cancel_loop work_list q s k;
          (s, k) \<leftarrow> cancel_loop delayed_list q s k;
          k \<leftarrow> rt_exit_critical k;
          Some (RT_EOK, s, k) }"

text \<open>\<open>queue\<close>, \<open>object\<close> and \<open>stack_ok\<close> are the results of the allocations, \<open>sem\<close> is the semaphore of the queue.\<close>

definition rt_workqueue_create ::
  "nat option \<Rightarrow> nat \<Rightarrow> tid option \<Rightarrow> bool \<Rightarrow> u8 \<Rightarrow> workqs \<Rightarrow> kernel \<Rightarrow> (nat option \<times> workqs \<times> kernel) option" where
  "rt_workqueue_create queue sem object stack_ok priority s k =
     (case queue of
        None \<Rightarrow> Some (None, s, k)
      | Some q \<Rightarrow> do {
          let s = upd_wq q (\<lambda>x. x\<lparr>work_list := [], delayed_list := [], work_current := None, wq_sem := sem\<rparr>) s;
          (_, k) \<leftarrow> rt_sem_init sem 0 RT_IPC_FLAG_FIFO k;
          (thread, k) \<leftarrow> rt_thread_create object stack_ok priority 10 k;
          case thread of
            None \<Rightarrow> Some (None, s, k)
          | Some t \<Rightarrow> do {
              let s = upd_wq q (\<lambda>x. x\<lparr>work_thread := t\<rparr>) s;
              (_, k) \<leftarrow> rt_thread_startup t k;
              Some (Some q, s, k) } })"

definition rt_workqueue_destroy :: "nat \<Rightarrow> workqs \<Rightarrow> kernel \<Rightarrow> (rt_err_t \<times> workqs \<times> kernel) option" where
  "rt_workqueue_destroy q s k =
     do { (_, s, k) \<leftarrow> rt_workqueue_cancel_all_work q s k;
          (_, k) \<leftarrow> rt_thread_delete (work_thread (wqs s q)) k;
          (_, k) \<leftarrow> rt_sem_detach (wq_sem (wqs s q)) k;
          Some (RT_EOK, s, k) }"

section \<open>Acknowledging\<close>

text \<open>A thread that has been given its unit.\<close>

definition served :: "tid \<Rightarrow> kernel \<Rightarrow> bool" where
  "served t k \<longleftrightarrow> runnable k t \<and> sem_take_resume t k = RT_EOK"

lemma served_wakes: "wakes q w k k' \<Longrightarrow> served t k \<or> t = w \<Longrightarrow> served t k'"
  using wakesD(2,3)[of q w k k'] wakesD(6)[of q w k k' t] stat_onlyD(1)[OF wakesD(5)[of q w k k' t]]
  by (cases "t = w") (auto simp: served_def sem_take_resume_def split: if_splits)

lemma trytake_cases:
  "rt_sem_trytake s k =
     (if sem_value (sems k s) > 0 then Some (Done RT_EOK, upd_sem s (\<lambda>sm. sm\<lparr>sem_value := sem_value sm - 1\<rparr>) k)
      else Some (Done (- RT_ETIMEOUT), k))"
  by (simp add: rt_sem_trytake_def rt_sem_take_def sem_take_def)

lemma served_upd_sem [simp]: "served t (upd_sem s f k) = served t k"
  by (simp add: served_def sem_take_resume_def)

lemma completion_loop_ok:
  assumes "sysinv b k" "sem_wf s k" "cur k \<noteq> None"
  shows "ok (completion_loop s k) (\<lambda>(r, k'). r = RT_EOK \<and> sysinv b k' \<and> sem_wf s k' \<and> cur k' \<noteq> None \<and>
    sem_view s k' = (fst (sem_view s k) - 1, []) \<and>
    (\<forall>t. t \<in> set (snd (sem_view s k)) \<or> served t k \<longrightarrow> served t k'))"
  using assms
proof (induction "queues k (SemQ s)" arbitrary: k)
  case Nil
  show ?case
  proof (cases "sem_value (sems k s) > 0")
    case True
    then have "unat (sem_value (sems k s) - 1) = unat (sem_value (sems k s)) - 1"
      by (simp add: unat_minus_one word_gt_0)
    then show ?thesis
      using True Nil by (subst completion_loop.simps) (simp add: trytake_cases sem_view_def sem_wf_def)
  next
    case False
    then have z: "sem_value (sems k s) = 0" by (simp add: word_gt_0)
    let ?k1 = "upd_sem s (\<lambda>sm. sm\<lparr>sem_value := sem_value sm + 1\<rparr>) k"
    have "completion_loop s k = completion_loop s ?k1"
      by (subst completion_loop.simps) (use z Nil(1)[symmetric] in \<open>simp add: trytake_cases rt_sem_release_def\<close>)
    also have "\<dots> = Some (RT_EOK, upd_sem s (\<lambda>sm. sm\<lparr>sem_value := sem_value sm - 1\<rparr>) ?k1)"
      by (subst completion_loop.simps) (simp add: trytake_cases z)
    finally show ?thesis using Nil z by (simp add: sem_view_def sem_wf_def)
  qed
next
  case (Cons w ws)
  from Cons.prems(2) Cons.hyps(2) have z: "sem_value (sems k s) = 0" by (auto simp: sem_wf_def)
  obtain c where "cur k = Some c" using Cons.prems(3) by blast
  then obtain k1 k2 where k2: "ipc_list_resume (SemQ s) k = Some k1" "rt_schedule k1 = Some k2" "sysinv b k2"
    "cur k2 \<noteq> None" "wakes (SemQ s) w k k2"
    by (rule semq.resume_path[OF Cons.prems(1) _ Cons.hyps(2)[symmetric]])
  note W = wakesD[OF k2(5)]
  have "distinct (queues k (SemQ s))" using Cons.prems(1) qinvD(1)[of "{}" k] by (simp add: sysinv_def kinv_def)
  then have q: "queues k2 (SemQ s) = ws" using W(1) Cons.hyps(2)[symmetric] by (simp add: removeAll_id)
  have se: "sems k2 = sems k" by (rule objectsD(1)[OF W(7)])
  have wf: "sem_wf s k2" using Cons.prems(2) z by (simp add: sem_wf_def se)
  have step: "completion_loop s k = completion_loop s k2"
    by (subst completion_loop.simps) (use z Cons.hyps(2)[symmetric] k2(1,2) in \<open>simp add: trytake_cases rt_sem_release_def\<close>)
  have sv: "served t k2" if "t = w \<or> served t k" for t using served_wakes[OF k2(5)] that by blast
  show ?case
    unfolding step
    by (rule ok_mono[OF Cons.hyps(1)[OF q[symmetric] k2(3) wf k2(4)]])
      (use sv Cons.hyps(2)[symmetric] in \<open>auto simp: sem_view_def q se\<close>)
qed

lemma lock_views [simp]:
  "sem_view s (k\<lparr>lock_nest := l\<rparr>) = sem_view s k" "sem_wf s (k\<lparr>lock_nest := l\<rparr>) = sem_wf s k"
  "served t (k\<lparr>lock_nest := l\<rparr>) = served t k"
  by (simp_all add: sem_view_def sem_wf_def served_def sem_take_resume_def runnable_def tstat_def)

lemma served_scheduled: "only_scheduled k k' \<Longrightarrow> served t k \<Longrightarrow> served t k'"
  using only_scheduledD(3)[of k k' t] stat_onlyD(1)[OF only_scheduledD(1)[of k k' t]]
  by (auto simp: served_def sem_take_resume_def split: if_splits)

lemma view_scheduled: "only_scheduled k k' \<Longrightarrow> sem_view s k' = sem_view s k"
  using only_scheduledD(4)[of k k' "SemQ s"] objectsD(1)[OF only_scheduledD(5)[of k k']]
  by (simp add: sem_view_def waitq_def)

section \<open>Submitting\<close>

lemma upd_wq_simps [simp]:
  "works (upd_wq q f s) = works s" "wqs (upd_wq q f s) x = (if x = q then f (wqs s q) else wqs s x)"
  "wqs (upd_work w g s) = wqs s" "works (upd_work w g s) x = (if x = w then g (works s w) else works s x)"
  "works (unlink_work w s) = works s"
  by (simp_all add: upd_wq_def upd_work_def unlink_work_def)

lemma unlink_work_simps [simp]:
  "work_list (wqs (unlink_work w s) q) = removeAll w (work_list (wqs s q))"
  "delayed_list (wqs (unlink_work w s) q) = removeAll w (delayed_list (wqs s q))"
  "work_current (wqs (unlink_work w s) q) = work_current (wqs s q)"
  "work_thread (wqs (unlink_work w s) q) = work_thread (wqs s q)" "wq_sem (wqs (unlink_work w s) q) = wq_sem (wqs s q)"
  by (simp_all add: unlink_work_def)

lemma flag_simps [simp]:
  "wqs (set_flag w f s) = wqs s" "wqs (clear_flag w f s) = wqs s"
  "workqueue (works (set_flag w f s) x) = workqueue (works s x)"
  "workqueue (works (clear_flag w f s) x) = workqueue (works s x)"
  by (simp_all add: set_flag_def clear_flag_def)

lemma u16_flags:
  "(x AND - 2) AND 2 = x AND (2 :: u16)" "(x OR 1) AND 2 = x AND (2 :: u16)" "(x OR 2) AND 2 = (2 :: u16)"
  "(x AND - 3) AND 2 = (0 :: u16)"
  by (simp_all add: and.assoc and.commute[of "- 2"] bit.conj_disj_distrib2)

lemma submitting_simps [simp]:
  "submitting x (upd_wq q f s) = submitting x s" "submitting x (unlink_work w s) = submitting x s"
  "submitting x (set_flag w RT_WORK_STATE_PENDING s) = submitting x s"
  "submitting x (clear_flag w RT_WORK_STATE_PENDING s) = submitting x s"
  "submitting x (set_flag w RT_WORK_STATE_SUBMITTING s) \<longleftrightarrow> x = w \<or> submitting x s"
  "submitting x (clear_flag w RT_WORK_STATE_SUBMITTING s) \<longleftrightarrow> x \<noteq> w \<and> submitting x s"
  "submitting x (upd_work w (\<lambda>y. y\<lparr>workqueue := v\<rparr>) s) = submitting x s"
  by (auto simp: submitting_def set_flag_def clear_flag_def u16_flags)

text \<open>The timer of a work item, new or started before.\<close>

lemma tinv_work_timer_init:
  assumes "tinv b k" "ticks < RT_TICK_MAX div 2"
  shows "tinv b (timer_object_init (UserTimer w) delayed_work_timeout w ticks flag k)" (is "tinv b ?k'")
proof -
  note T = tinvD[OF assms(1)]
  define k1 where "k1 = upd_timer (UserTimer w) (\<lambda>_. \<lparr>timer_flag = flag AND NOT RT_TIMER_FLAG_ACTIVATED,
      timeout_func = delayed_work_timeout, parameter = w, timer_init_tick = ticks, timeout_tick = 0\<rparr>) k"
  have k': "?k' = timer_remove (UserTimer w) k1"
    by (simp add: timer_object_init_def k1_def timer_remove_def Let_def)
  have tm: "timers ?k' x = timers k x" if "x \<noteq> UserTimer w" for x using that by (simp add: k' k1_def upd_timer_def)
  have lst: "timer_lists ?k' TimerList = removeAll (UserTimer w) (timer_lists k TimerList)"
    by (simp add: k' k1_def upd_timer_def q_remove_def)
  have to: "timer_only k ?k'"
    unfolding k' by (rule timer_only_trans[OF _ timer_only_ops(2)]) (simp add: k1_def)
  have due: "map (due b ?k') (timer_lists ?k' TimerList) = map (due b k) (timer_lists ?k' TimerList)"
    unfolding lst by (rule map_cong) (auto simp: due_def tm)
  have "timers_ok b ?k'"
    unfolding timers_ok_def timer_onlyD(9)[OF to] due
    using T(1) by (auto simp: timers_ok_def lst sorted_removeAll distinct_removeAll due_def tm)
  moreover have "unat ticks < 2 ^ 31 - 1" using assms(2) by (simp add: word_less_nat_alt)
  then have "unat (timer_init_tick (timers ?k' x)) < 2 ^ 31 - 1" for x
    using T(2) by (cases "x = UserTimer w") (simp_all add: tm, simp add: k' k1_def upd_timer_def)
  moreover have "timeout_func (timers ?k' (UserTimer n)) \<noteq> ThreadTimeout" for n
    using assms(1) by (cases "n = w") (simp_all add: tm tinv_def, simp add: k' k1_def upd_timer_def)
  ultimately show ?thesis
    using assms(1) timer_only_kinv(3)[OF to] by (auto simp: tinv_def lst tm activated_def periodic_def)
qed

lemma start_user_timer:
  assumes "tinv b k" "timer_init_tick (timers k (UserTimer w)) = ticks"
  shows "tinv b (rt_timer_start (UserTimer w) k)"
    "UserTimer w \<in> set (timer_lists (rt_timer_start (UserTimer w) k) TimerList)"
    "timeout_tick (timers (rt_timer_start (UserTimer w) k) (UserTimer w)) = tick k + ticks"
proof -
  show "tinv b (rt_timer_start (UserTimer w) k)" by (rule tinv_start[OF assms(1)]) simp
  show "UserTimer w \<in> set (timer_lists (rt_timer_start (UserTimer w) k) TimerList)"
    by (simp add: timer_lists_start set_timer_insert)
  show "timeout_tick (timers (rt_timer_start (UserTimer w) k) (UserTimer w)) = tick k + ticks"
    using assms(2) by (simp add: timers_start start_tick_def)
qed

lemma sysinv_timer_only: "timer_only k k' \<Longrightarrow> sysinv b k \<Longrightarrow> tinv b k' \<Longrightarrow> sysinv b k'"
  by (simp add: sysinv_def timer_only_kinv(7))

text \<open>Waking the work thread leaves the timers of the items alone.\<close>

lemma resumed_user_timer:
  "UserTimer w \<in> set (timer_lists (resumed t k) TimerList) \<longleftrightarrow> UserTimer w \<in> set (timer_lists k TimerList)"
proof -
  have "timer_lists (rt_schedule_insert_thread t k1) = timer_lists k1" for k1
    by (simp add: rt_schedule_insert_thread_def Let_def upd_thread_def)
  then show ?thesis by (simp add: resumed_def rt_timer_stop_def q_remove_def)
qed

lemma wake_worker_ok:
  assumes "sysinv b k" "cur k = Some c"
  obtains k' where "wake_worker q s k = Some k'" "sysinv b k'" "cur k' \<noteq> None"
    "work_current (wqs s q) = None \<and> suspended k (work_thread (wqs s q)) \<longrightarrow> runnable k' (work_thread (wqs s q))"
    "UserTimer w \<in> set (timer_lists k' TimerList) \<longleftrightarrow> UserTimer w \<in> set (timer_lists k TimerList)"
proof (cases "work_current (wqs s q) = None \<and> suspended k (work_thread (wqs s q))")
  case True
  let ?t = "work_thread (wqs s q)" let ?k = "resumed ?t k"
  have "sysinv b ?k" "cur ?k = Some c" using resumed_sys[OF assms(1)] True assms(2) by simp_all
  from rt_schedule_sys[OF this] obtain k' where k': "rt_schedule ?k = Some k'" "sysinv b k'" "sched_frame ?k k'" "cur k' \<noteq> None"
    by (auto simp: ok_iff)
  have "runnable ?k ?t" by (simp add: runnable_def resumed_state)
  then have "runnable k' ?t" using sched_frameD(19)[OF k'(3)] by simp
  moreover have "UserTimer w \<in> set (timer_lists k' TimerList) \<longleftrightarrow> UserTimer w \<in> set (timer_lists k TimerList)"
    using sched_frameD(6)[OF k'(3)] resumed_user_timer by simp
  moreover have "wake_worker q s k = Some k'" using True k'(1) by (simp add: wake_worker_def rt_thread_resume_eq)
  ultimately show ?thesis using k'(2,4) by (intro that[of k']) simp_all
next
  case False
  then have "wake_worker q s k = Some k" unfolding wake_worker_def by (simp only: if_False)
  then show ?thesis using False assms by (intro that[of k]) auto
qed

section \<open>Every item is listed once\<close>

text \<open>The invariant of the lists: an item is in at most one list of one queue, once.\<close>

definition listed :: "nat \<Rightarrow> workqs \<Rightarrow> nat list" where
  "listed q s = work_list (wqs s q) @ delayed_list (wqs s q)"

definition work_once :: "workqs \<Rightarrow> bool" where
  "work_once s \<longleftrightarrow> (\<forall>q. distinct (listed q s)) \<and> (\<forall>q q'. q \<noteq> q' \<longrightarrow> set (listed q s) \<inter> set (listed q' s) = {})"

lemma listed_unlink [simp]: "listed q (unlink_work w s) = removeAll w (listed q s)"
  by (simp add: listed_def)

lemma listed_other [simp]:
  "listed q (upd_work w g s) = listed q s" "listed q (set_flag w f s) = listed q s" "listed q (clear_flag w f s) = listed q s"
  "listed q (upd_wq p (\<lambda>x. x\<lparr>work_current := c\<rparr>) s) = listed q s"
  by (simp_all add: listed_def)

lemma work_once_cong: "(\<And>q. listed q s' = listed q s) \<Longrightarrow> work_once s' = work_once s"
  by (simp add: work_once_def)

lemma work_once_unlink: "work_once s \<Longrightarrow> work_once (unlink_work w s)"
  by (auto simp: work_once_def distinct_removeAll)

lemma work_once_insert:
  assumes "work_once s" "\<And>q. w \<notin> set (listed q s)" "set (listed p s') = insert w (set (listed p s))"
    "distinct (listed p s')" "\<And>q. q \<noteq> p \<Longrightarrow> listed q s' = listed q s"
  shows "work_once s'"
  unfolding work_once_def
proof (intro conjI allI impI)
  fix q q' :: nat
  show "distinct (listed q s')" using assms by (cases "q = p") (simp_all add: work_once_def)
  assume "q \<noteq> q'"
  then show "set (listed q s') \<inter> set (listed q' s') = {}"
    using assms(1,2,3,5) by (cases "q = p"; cases "q' = p") (auto simp: work_once_def)
qed

lemma work_once_other [simp]:
  "work_once (upd_work w g s) = work_once s" "work_once (set_flag w f s) = work_once s"
  "work_once (clear_flag w f s) = work_once s" "work_once (upd_wq p (\<lambda>x. x\<lparr>work_current := c\<rparr>) s) = work_once s"
  by (rule work_once_cong, simp)+

lemma listed_added:
  "listed q (append_work p w s) = (if q = p then work_list (wqs s p) @ w # delayed_list (wqs s p) else listed q s)"
  "listed q (upd_wq p (\<lambda>x. x\<lparr>work_list := w # work_list x\<rparr>) s) = (if q = p then w # listed p s else listed q s)"
  "listed q (upd_wq p (\<lambda>x. x\<lparr>delayed_list := delayed_list x @ [w]\<rparr>) s) = (if q = p then listed p s @ [w] else listed q s)"
  by (simp_all add: listed_def append_work_def)

lemma work_once_add:
  assumes "work_once s" "\<And>q. w \<notin> set (listed q s)"
  shows "work_once (append_work p w s)" "work_once (upd_wq p (\<lambda>x. x\<lparr>work_list := w # work_list x\<rparr>) s)"
    "work_once (upd_wq p (\<lambda>x. x\<lparr>delayed_list := delayed_list x @ [w]\<rparr>) s)"
proof -
  have "distinct (listed p s)" "w \<notin> set (listed p s)" using assms by (simp_all add: work_once_def)
  then show "work_once (append_work p w s)" "work_once (upd_wq p (\<lambda>x. x\<lparr>work_list := w # work_list x\<rparr>) s)"
    "work_once (upd_wq p (\<lambda>x. x\<lparr>delayed_list := delayed_list x @ [w]\<rparr>) s)"
    by (intro work_once_insert[OF assms, of p]; auto simp: listed_added; auto simp: listed_def)+
qed

section \<open>The operations on the lists and the timers\<close>

lemma submit_now:
  assumes "sysinv b k" "cur k = Some c"
  obtains s' k' where "workqueue_submit_work q w 0 s k = Some (RT_EOK, s', k')" "sysinv b k'" "cur k' \<noteq> None"
    "work_list (wqs s' q) = removeAll w (work_list (wqs s q)) @ [w]"
    "workqueue (works s' w) = Some q" "work_flags (works s' w) AND RT_WORK_STATE_PENDING \<noteq> 0"
    "work_once s \<longrightarrow> work_once s'" "submitting w s' = submitting w s"
    "work_current (wqs s q) = None \<and> suspended k (work_thread (wqs s q)) \<longrightarrow> runnable k' (work_thread (wqs s q))"
    "UserTimer w \<in> set (timer_lists k' TimerList) \<longleftrightarrow> UserTimer w \<in> set (timer_lists k TimerList)"
proof -
  let ?s0 = "clear_flag w RT_WORK_STATE_PENDING (unlink_work w s)"
  let ?s = "upd_work w (\<lambda>x. x\<lparr>workqueue := Some q\<rparr>) (set_flag w RT_WORK_STATE_PENDING (append_work q w ?s0))"
  obtain k' where k': "wake_worker q ?s k = Some k'" "sysinv b k'" "cur k' \<noteq> None"
    "work_current (wqs ?s q) = None \<and> suspended k (work_thread (wqs ?s q)) \<longrightarrow> runnable k' (work_thread (wqs ?s q))"
    "UserTimer w \<in> set (timer_lists k' TimerList) \<longleftrightarrow> UserTimer w \<in> set (timer_lists k TimerList)"
    by (rule wake_worker_ok[OF assms])
  have fl: "(x OR 1) AND 1 = (1 :: u16)" for x
    by (rule bit_eqI) (auto simp: bit_simps bit_1_iff dest: bit_imp_le_length)
  have once: "work_once ?s" if "work_once s"
  proof -
    have o: "work_once (clear_flag w RT_WORK_STATE_PENDING (unlink_work w s))"
      using work_once_unlink[OF that, of w] by simp
    show ?thesis using work_once_add(1)[OF o, of w q] by simp
  qed
  show ?thesis
    by (rule that[of ?s k'])
      (use k' once in \<open>simp_all add: workqueue_submit_work_def append_work_def set_flag_def fl\<close>,
       simp add: set_flag_def[symmetric])
qed

text \<open>The kernel after the timer of a delayed item has been set up and started.\<close>

definition armed_work :: "nat \<Rightarrow> u32 \<Rightarrow> bool \<Rightarrow> kernel \<Rightarrow> kernel" where
  "armed_work w ticks again k =
     (if again then upd_timer (UserTimer w) (\<lambda>tm. tm\<lparr>timer_init_tick := ticks\<rparr>) (snd (rt_timer_stop (UserTimer w) k))
      else timer_object_init (UserTimer w) delayed_work_timeout w ticks RT_TIMER_FLAG_SOFT_TIMER k)"

lemma armed_work_ok:
  assumes "tinv b k" "ticks < RT_TICK_MAX div 2"
  shows "tinv b (armed_work w ticks again k)" "timer_init_tick (timers (armed_work w ticks again k) (UserTimer w)) = ticks"
    "timer_only k (armed_work w ticks again k)"
proof -
  show "tinv b (armed_work w ticks again k)"
    using tinv_set_time[OF tinv_timer_stop[OF assms(1)] assms(2)] tinv_work_timer_init[OF assms]
    by (simp add: armed_work_def)
  show "timer_init_tick (timers (armed_work w ticks again k) (UserTimer w)) = ticks"
    by (simp add: armed_work_def timer_object_init_def)
  show "timer_only k (armed_work w ticks again k)"
    unfolding armed_work_def timer_object_init_def
    using timer_only_trans[OF timer_only_ops(5) timer_only_ops(1)] timer_only_trans[OF timer_only_ops(1) timer_only_ops(2)]
    by (auto simp: timer_remove_def)
qed

lemma submit_delayed:
  assumes "sysinv b k" "0 < ticks" "ticks < RT_TICK_MAX div 2"
  obtains s' k' where "workqueue_submit_work q w ticks s k = Some (RT_EOK, s', k')" "sysinv b k'" "cur k' = cur k"
    "work_list (wqs s' q) = removeAll w (work_list (wqs s q))"
    "delayed_list (wqs s' q) = removeAll w (delayed_list (wqs s q)) @ [w]"
    "workqueue (works s' w) = Some q" "submitting w s'" "work_once s \<longrightarrow> work_once s'"
    "UserTimer w \<in> set (timer_lists k' TimerList)"
    "timeout_tick (timers k' (UserTimer w)) = tick k + ticks" "tick k' = tick k"
proof -
  let ?s0 = "clear_flag w RT_WORK_STATE_PENDING (unlink_work w s)"
  let ?s1 = "if submitting w s then ?s0 else set_flag w RT_WORK_STATE_SUBMITTING ?s0"
  let ?s2 = "upd_work w (\<lambda>x. x\<lparr>workqueue := Some q\<rparr>) ?s1"
  let ?s = "upd_wq q (\<lambda>x. x\<lparr>delayed_list := delayed_list x @ [w]\<rparr>) ?s2"
  let ?k1 = "armed_work w ticks (submitting w s) k"
  let ?k = "rt_timer_start (UserTimer w) ?k1"
  have ti: "tinv b k" using assms(1) by (simp add: sysinv_def)
  note A = armed_work_ok[OF ti assms(3), of w "submitting w s"]
  note T = start_user_timer[OF A(1,2)]
  have to: "timer_only k ?k" by (rule timer_only_trans[OF A(3)]) simp
  have nz: "ticks \<noteq> 0" using assms(2) by auto
  have eq: "workqueue_submit_work q w ticks s k = Some (RT_EOK, ?s, ?k)"
    using nz assms(3) by (simp add: workqueue_submit_work_def armed_work_def rt_timer_init_def rt_timer_control_def)
  have once: "work_once ?s" if "work_once s"
  proof -
    have o: "work_once ?s2" using work_once_unlink[OF that, of w] by simp
    show ?thesis using work_once_add(3)[OF o, of w q] by simp
  qed
  show ?thesis
    by (rule that[OF eq sysinv_timer_only[OF to assms(1) T(1)]])
      (use once T(2,3) timer_onlyD[OF to] timer_onlyD(9)[OF A(3)] in simp_all)
qed

lemma cancel_work_ok:
  assumes "sysinv b k"
  obtains s' k' where "workqueue_cancel_work q w s k =
      (if work_current (wqs s q) = Some w then - RT_EBUSY else RT_EOK, s', k')"
    "sysinv b k'" "cur k' = cur k" "lock_nest k' = lock_nest k"
    "\<And>p. work_list (wqs s' p) = removeAll w (work_list (wqs s p))"
    "\<And>p. delayed_list (wqs s' p) = removeAll w (delayed_list (wqs s p))"
    "\<not> submitting w s'" "workqueue (works s' w) = None" "work_once s \<longrightarrow> work_once s'"
    "submitting w s \<longrightarrow> UserTimer w \<notin> set (timer_lists k' TimerList)"
proof -
  let ?s0 = "clear_flag w RT_WORK_STATE_PENDING (unlink_work w s)"
  let ?s1 = "if submitting w s then clear_flag w RT_WORK_STATE_SUBMITTING ?s0 else ?s0"
  let ?s = "upd_work w (\<lambda>x. x\<lparr>workqueue := None\<rparr>) ?s1"
  let ?k = "if submitting w s then rt_timer_detach (UserTimer w) (snd (rt_timer_stop (UserTimer w) k)) else k"
  have ti: "tinv b k" using assms(1) by (simp add: sysinv_def)
  have "tinv b (rt_timer_detach (UserTimer w) (snd (rt_timer_stop (UserTimer w) k)))"
    unfolding rt_timer_detach_def by (rule tinv_stop[OF tinv_timer_stop[OF ti]])
  moreover have to: "timer_only k (rt_timer_detach (UserTimer w) (snd (rt_timer_stop (UserTimer w) k)))"
    by (rule timer_only_trans[OF timer_only_ops(5)[of k "UserTimer w"]]) simp
  ultimately have "sysinv b ?k" using sysinv_timer_only[OF to assms] assms by simp
  moreover have "UserTimer w \<notin> set (timer_lists (rt_timer_detach (UserTimer w) k1) TimerList)" for k1
    by (simp add: rt_timer_detach_def timer_remove_def q_remove_def)
  moreover have "work_once ?s" if "work_once s" using work_once_unlink[OF that, of w] by simp
  ultimately show ?thesis
    by (intro that[of ?s ?k]) (simp_all add: workqueue_cancel_work_def Let_def)
qed

lemma cancel_loop_ok:
  assumes "sysinv b k" "distinct (lst (wqs s q))"
    and lst: "lst = work_list \<or> lst = delayed_list"
  shows "ok (cancel_loop lst q s k) (\<lambda>(s', k'). sysinv b k' \<and> cur k' = cur k \<and> lst (wqs s' q) = [] \<and>
    (\<forall>p. set (work_list (wqs s' p)) \<subseteq> set (work_list (wqs s p)) \<and>
      set (delayed_list (wqs s' p)) \<subseteq> set (delayed_list (wqs s p))))"
  using assms(1,2)
proof (induction "lst (wqs s q)" arbitrary: s k)
  case Nil
  then show ?case by (subst cancel_loop.simps) simp
next
  case (Cons w ws)
  obtain s1 k1 where c: "workqueue_cancel_work q w s k =
      (if work_current (wqs s q) = Some w then - RT_EBUSY else RT_EOK, s1, k1)"
    "sysinv b k1" "cur k1 = cur k"
    "\<And>p. work_list (wqs s1 p) = removeAll w (work_list (wqs s p))"
    "\<And>p. delayed_list (wqs s1 p) = removeAll w (delayed_list (wqs s p))"
    by (rule cancel_work_ok[OF Cons.prems(1), of q w s]) (rule that)
  have l: "lst (wqs s1 q) = removeAll w (lst (wqs s q))" using lst c(4,5) by auto
  have ws: "ws = lst (wqs s1 q)" "distinct (lst (wqs s1 q))"
    using Cons.prems(2) Cons.hyps(2)[symmetric] by (simp_all add: l removeAll_id)
  have sub: "set (work_list (wqs s1 p)) \<subseteq> set (work_list (wqs s p))"
    "set (delayed_list (wqs s1 p)) \<subseteq> set (delayed_list (wqs s p))" for p by (auto simp: c(4,5))
  have step: "cancel_loop lst q s k = cancel_loop lst q s1 k1"
    by (subst cancel_loop.simps) (simp add: Cons.hyps(2)[symmetric] c(1) Let_def)
  show ?case
    unfolding step by (rule ok_mono[OF Cons.hyps(1)[OF ws(1) c(2) ws(2)]]) (use c(3) sub in fastforce)
qed

section \<open>All sequences of operations\<close>

text \<open>The steps of the work queues: calls by any thread, the work thread taking an item and finishing it, timers,
  and everything else the kernel does.\<close>

inductive work_step :: "workqs \<times> kernel \<Rightarrow> workqs \<times> kernel \<Rightarrow> bool" where
  init: "(\<And>q. w \<notin> set (listed q s)) \<Longrightarrow> work_step (s, k) (rt_work_init w s, k)"
| dowork: "rt_workqueue_dowork q w s k = Some (r, s', k') \<Longrightarrow> work_step (s, k) (s', k')"
| submit: "rt_workqueue_submit_work q w ticks s k = Some (r, s', k') \<Longrightarrow> work_step (s, k) (s', k')"
| urgent: "rt_workqueue_urgent_work q w s k = Some (r, s', k') \<Longrightarrow> work_step (s, k) (s', k')"
| cancel: "rt_workqueue_cancel_work q w s k = (r, s', k') \<Longrightarrow> work_step (s, k) (s', k')"
| cancel_all: "rt_workqueue_cancel_all_work q s k = Some (r, s', k') \<Longrightarrow> work_step (s, k) (s', k')"
| take: "work_list (wqs s q) = w # ws \<Longrightarrow> work_step (s, k) (take_work q w s, k)"
| finish: "work_step (s, k) (upd_wq q (\<lambda>x. x\<lparr>work_current := None\<rparr>) s, k)"
| timeout: "delayed_work_timeout_handler w s k = Some (s', k') \<Longrightarrow> work_step (s, k) (s', k')"
| other: "work_step (s, k) (s, k')"

definition work_inv :: "workqs \<Rightarrow> bool" where
  "work_inv s \<longleftrightarrow> work_once s \<and>
     (\<forall>q. \<forall>w \<in> set (delayed_list (wqs s q)). submitting w s \<and> workqueue (works s w) = Some q)"

text \<open>An item out of all lists may be changed and put into a list.\<close>

definition work_free :: "nat \<Rightarrow> workqs \<Rightarrow> bool" where
  "work_free w s \<longleftrightarrow> work_inv s \<and> (\<forall>q. w \<notin> set (listed q s))"

lemma free_unlink: "work_inv s \<Longrightarrow> work_free w (unlink_work w s)"
  by (auto simp: work_free_def work_inv_def work_once_unlink)

lemma free_upd:
  assumes "work_free w s"
  shows "work_free w (upd_work w g s)" "work_free w (set_flag w f s)" "work_free w (clear_flag w f s)"
    "work_free w (upd_wq p (\<lambda>x. x\<lparr>work_current := c\<rparr>) s)"
proof -
  have "w \<notin> set (delayed_list (wqs s q))" for q using assms by (auto simp: work_free_def listed_def)
  then show upd: "work_free w (upd_work w g s)" for g
    using assms by (auto simp: work_free_def work_inv_def submitting_def)
  show "work_free w (set_flag w f s)" "work_free w (clear_flag w f s)" unfolding set_flag_def clear_flag_def by (rule upd)+
  show "work_free w (upd_wq p (\<lambda>x. x\<lparr>work_current := c\<rparr>) s)"
    using assms by (simp add: work_free_def work_inv_def)
qed

lemma free_inv: "work_free w s \<Longrightarrow> work_inv s"
  by (simp add: work_free_def)

lemma inv_append:
  assumes "work_free w s"
  shows "work_inv (append_work q w s)" "work_inv (upd_wq q (\<lambda>x. x\<lparr>work_list := w # work_list x\<rparr>) s)"
proof -
  have o: "work_once s" "\<And>q. w \<notin> set (listed q s)" using assms by (simp_all add: work_free_def work_inv_def)
  show "work_inv (append_work q w s)" "work_inv (upd_wq q (\<lambda>x. x\<lparr>work_list := w # work_list x\<rparr>) s)"
    using work_once_add[OF o, of q] assms
    by (simp_all add: work_free_def work_inv_def append_work_def)
qed

lemma inv_delay:
  assumes "work_free w s" "submitting w s" "workqueue (works s w) = Some q"
  shows "work_inv (upd_wq q (\<lambda>x. x\<lparr>delayed_list := delayed_list x @ [w]\<rparr>) s)"
proof -
  have o: "work_once s" "\<And>q. w \<notin> set (listed q s)" using assms by (simp_all add: work_free_def work_inv_def)
  show ?thesis
    using work_once_add(3)[OF o, of q] assms by (auto simp: work_free_def work_inv_def)
qed

lemma append_commutes:
  "upd_work w g (append_work q v s) = append_work q v (upd_work w g s)"
  "set_flag w f (append_work q v s) = append_work q v (set_flag w f s)"
  by (simp_all add: append_work_def upd_work_def upd_wq_def set_flag_def)

lemmas work_inv_intros = free_unlink free_upd inv_append free_inv[OF free_unlink] free_inv[OF free_upd(1)]
  free_inv[OF free_upd(2)] free_inv[OF free_upd(3)] free_inv[OF free_upd(4)]

lemma inv_submit:
  assumes "work_inv s" "workqueue_submit_work q w ticks s k = Some (r, s', k')"
  shows "work_inv s'"
proof -
  let ?s0 = "clear_flag w RT_WORK_STATE_PENDING (unlink_work w s)"
  have f: "work_free w (clear_flag w RT_WORK_STATE_PENDING (unlink_work w s))"
    using assms(1) by (intro work_inv_intros)
  have d: "work_inv (upd_wq q (\<lambda>x. x\<lparr>delayed_list := delayed_list x @ [w]\<rparr>) (upd_work w (\<lambda>x. x\<lparr>workqueue := Some q\<rparr>) s1))"
    if "work_free w s1" "submitting w s1" for s1
    using that by (intro inv_delay free_upd) simp_all
  consider "ticks = 0" | "ticks \<noteq> 0" "ticks < RT_TICK_MAX div 2" | "ticks \<noteq> 0" "\<not> ticks < RT_TICK_MAX div 2" by blast
  then show ?thesis
  proof cases
    case 1
    with assms(2) have "s' = append_work q w (upd_work w (\<lambda>x. x\<lparr>workqueue := Some q\<rparr>)
        (set_flag w RT_WORK_STATE_PENDING (clear_flag w RT_WORK_STATE_PENDING (unlink_work w s))))"
      by (auto simp: workqueue_submit_work_def append_commutes bind_eq_Some_conv Let_def)
    with f show ?thesis by (simp add: inv_append free_upd)
  next
    case 2
    with assms(2) show ?thesis
      using d[OF f] d[OF free_upd(2)[OF f, of RT_WORK_STATE_SUBMITTING]]
      by (auto simp: workqueue_submit_work_def bind_eq_Some_conv Let_def split: if_splits)
  next
    case 3
    with assms(2) f show ?thesis by (auto simp: workqueue_submit_work_def free_inv)
  qed
qed

lemma inv_cancel:
  assumes "work_inv s" "workqueue_cancel_work q w s k = (r, s', k')"
  shows "work_inv s'"
proof -
  have f: "work_free w (clear_flag w RT_WORK_STATE_PENDING (unlink_work w s))"
    using assms(1) by (intro work_inv_intros)
  then show ?thesis
    using assms(2) by (auto simp: workqueue_cancel_work_def Let_def free_inv[OF free_upd(1)] free_upd split: if_splits)
qed

lemma inv_cancel_loop: "cancel_loop lst q s k = Some (s', k') \<Longrightarrow> work_inv s \<Longrightarrow> work_inv s'"
  by (rule cancel_loop.raw_induct[where P = "\<lambda>lst q s k r. work_inv s \<longrightarrow> work_inv (fst r)", THEN mp, of lst q s k "(s', k')", simplified])
    (auto split: list.splits prod.splits dest: inv_cancel)

lemma unlink_clear: "unlink_work w (clear_flag w f s) = clear_flag w f (unlink_work w s)"
  by (simp add: unlink_work_def clear_flag_def upd_work_def)

lemma inv_timeout:
  assumes "work_inv s" "delayed_work_timeout_handler w s k = Some (s', k')"
  shows "work_inv s'"
proof -
  have f: "work_free w (clear_flag w RT_WORK_STATE_SUBMITTING (unlink_work w s))"
    using free_upd(3)[OF free_unlink[OF assms(1)]] .
  then have "work_inv (append_work q w (set_flag w g (clear_flag w RT_WORK_STATE_SUBMITTING (unlink_work w s))))" for q g
    by (intro inv_append free_upd(2))
  with free_inv[OF f] assms(2) show ?thesis
    by (auto simp: delayed_work_timeout_handler_def Let_def bind_eq_Some_conv unlink_clear append_commutes split: if_splits)
qed

lemma inv_step: "work_step x x' \<Longrightarrow> work_inv (fst x) \<Longrightarrow> work_inv (fst x')"
proof (induction rule: work_step.induct)
  case (init w s k)
  then have "work_free w s" by (simp add: work_free_def)
  then show ?case by (simp add: rt_work_init_def free_inv[OF free_upd(1)])
next
  case (dowork q w s k r s' k')
  then show ?case using inv_submit[of s q w 0 k r s' k'] by (simp add: rt_workqueue_dowork_def)
next
  case (submit q w ticks s k r s' k')
  then show ?case
    using inv_submit[of s q w ticks k r s' k'] by (simp add: rt_workqueue_submit_work_def rt_assert_def split: if_splits)
next
  case (urgent q w s k r s' k')
  then show ?case using inv_append(2)[OF free_unlink, of s q w]
    by (auto simp: rt_workqueue_urgent_work_def bind_eq_Some_conv Let_def)
next
  case (cancel q w s k r s' k')
  then show ?case using inv_cancel[of s q w k r s' k'] by (simp add: rt_workqueue_cancel_work_def)
next
  case (cancel_all q s k r s' k')
  then obtain s1 k1 k2 where "cancel_loop work_list q s (rt_enter_critical k) = Some (s1, k1)"
    "cancel_loop delayed_list q s1 k1 = Some (s', k2)"
    by (auto simp: rt_workqueue_cancel_all_work_def bind_eq_Some_conv Let_def)
  then show ?case using inv_cancel_loop cancel_all.prems by simp
next
  case (take s q w ws k)
  have "work_free w (upd_wq q (\<lambda>x. x\<lparr>work_current := Some w\<rparr>) (unlink_work w s))"
    using take.prems by (simp add: free_unlink free_upd(4))
  then show ?case by (simp add: take_work_def Let_def free_inv[OF free_upd(1)] free_upd(3))
next
  case (finish s k q)
  then show ?case by (simp add: work_inv_def)
next
  case (timeout w s k s' k')
  then show ?case using inv_timeout[of s w k s' k'] by simp
qed simp

lemma inv_steps: "work_step\<^sup>*\<^sup>* x x' \<Longrightarrow> work_inv (fst x) \<Longrightarrow> work_inv (fst x')"
  by (induction rule: rtranclp_induct) (auto intro: inv_step)

section \<open>Properties\<close>

text \<open>C34: work items. Start with empty work queues and let threads initialise, submit, delay, hurry and cancel items
  in any order, the work threads take and finish them and the timers expire: an item is always in at most one list of
  one queue, once, and every item that waits for its delay is marked as submitting and knows its queue.\<close>
theorem works_listed_once:
  assumes "work_step\<^sup>*\<^sup>* (s0, k0) (s, k)" "\<And>q. listed q s0 = []"
  shows "work_once s \<and> (\<forall>q. \<forall>w \<in> set (delayed_list (wqs s q)). submitting w s \<and> workqueue (works s w) = Some q)"
proof -
  have d: "delayed_list (wqs s0 q) = []" for q using assms(2)[of q] by (simp add: listed_def)
  have "work_inv (fst (s0, k0))" by (simp add: work_inv_def work_once_def assms(2) d)
  from inv_steps[OF assms(1) this] have "work_inv (fst (s, k))" .
  then show ?thesis by (simp add: work_inv_def)
qed

text \<open>C35: submitting. An item submitted without delay goes to the end of the list of works and an idle work
  thread becomes runnable; an item submitted with a delay leaves every list for the delayed items and its timer runs
  and is due in exactly that many ticks, whether it ran before or not.\<close>
theorem submit_work_correct:
  assumes "sysinv b k" "cur k = Some c" "ticks < RT_TICK_MAX div 2"
  shows "ok (rt_workqueue_submit_work q w ticks s k) (\<lambda>(r, s', k'). r = RT_EOK \<and> sysinv b k' \<and>
    (work_once s \<longrightarrow> work_once s') \<and> workqueue (works s' w) = Some q \<and>
    (if ticks = 0
     then work_list (wqs s' q) = removeAll w (work_list (wqs s q)) @ [w] \<and>
       (work_current (wqs s q) = None \<and> suspended k (work_thread (wqs s q)) \<longrightarrow> runnable k' (work_thread (wqs s q)))
     else work_list (wqs s' q) = removeAll w (work_list (wqs s q)) \<and> submitting w s' \<and>
       delayed_list (wqs s' q) = removeAll w (delayed_list (wqs s q)) @ [w] \<and>
       UserTimer w \<in> set (timer_lists k' TimerList) \<and> timeout_tick (timers k' (UserTimer w)) = tick k' + ticks))"
proof (cases "ticks = 0")
  case True
  show ?thesis
    by (rule submit_now[OF assms(1,2), of q w s]) (use True assms(3) in \<open>auto simp: rt_workqueue_submit_work_def ok_iff\<close>)
next
  case False
  then have "0 < ticks" by (simp add: word_gt_0)
  from assms(1) this assms(3) show ?thesis
    by (rule submit_delayed[of b k ticks q w s]) (use False assms(3) in \<open>auto simp: rt_workqueue_submit_work_def ok_iff\<close>)
qed

text \<open>C36: the end of a delay. When the timer of a delayed item expires, its function finds the queue of the item, and
  puts the item at the end of the list of works and wakes an idle work thread. But when the item is being executed at
  that time, it is dropped from every list: a submission that has returned \<open>RT_EOK\<close> is lost.\<close>
theorem delay_ends:
  assumes "work_inv s" "w \<in> set (delayed_list (wqs s q))" "sysinv b k" "cur k = Some c"
  shows "ok (delayed_work_timeout_handler w s k) (\<lambda>(s', k'). sysinv b k' \<and> work_inv s' \<and> \<not> submitting w s' \<and>
    UserTimer w \<notin> set (timer_lists k' TimerList) \<and> delayed_list (wqs s' q) = removeAll w (delayed_list (wqs s q)) \<and>
    (if work_current (wqs s q) = Some w then \<forall>p. w \<notin> set (listed p s')
     else work_list (wqs s' q) = work_list (wqs s q) @ [w] \<and>
       (work_current (wqs s q) = None \<and> suspended k (work_thread (wqs s q)) \<longrightarrow> runnable k' (work_thread (wqs s q)))))"
proof -
  have q: "workqueue (works s w) = Some q" using assms(1,2) by (auto simp: work_inv_def)
  have nw: "w \<notin> set (work_list (wqs s q))"
  proof -
    have "distinct (listed q s)" using assms(1) by (simp add: work_inv_def work_once_def)
    then show ?thesis using assms(2) by (auto simp: listed_def)
  qed
  let ?k = "rt_timer_detach (UserTimer w) k"
  let ?s0 = "unlink_work w (clear_flag w RT_WORK_STATE_SUBMITTING s)"
  define s' where "s' = (if work_current (wqs s q) \<noteq> Some w then set_flag w RT_WORK_STATE_PENDING (append_work q w ?s0) else ?s0)"
  have ti: "tinv b k" using assms(3) by (simp add: sysinv_def)
  have "sysinv b ?k"
    by (rule sysinv_timer_only[OF timer_only_ops(3) assms(3)]) (simp add: rt_timer_detach_def tinv_stop[OF ti])
  moreover have "cur ?k = Some c" using assms(4) by simp
  ultimately obtain k' where k': "wake_worker q s' ?k = Some k'" "sysinv b k'" "cur k' \<noteq> None"
    "work_current (wqs s' q) = None \<and> suspended ?k (work_thread (wqs s' q)) \<longrightarrow> runnable k' (work_thread (wqs s' q))"
    "UserTimer w \<in> set (timer_lists k' TimerList) \<longleftrightarrow> UserTimer w \<in> set (timer_lists ?k TimerList)"
    by (rule wake_worker_ok[of b ?k c q s' w])
  have eq: "delayed_work_timeout_handler w s k = Some (s', k')"
    using k'(1) q by (simp add: delayed_work_timeout_handler_def Let_def s'_def)
  have fields: "work_current (wqs s' q) = work_current (wqs s q)" "work_thread (wqs s' q) = work_thread (wqs s q)"
    "delayed_list (wqs s' q) = removeAll w (delayed_list (wqs s q))"
    "work_current (wqs s q) \<noteq> Some w \<longrightarrow> work_list (wqs s' q) = work_list (wqs s q) @ [w]"
    "\<not> submitting w s'" "work_current (wqs s q) = Some w \<longrightarrow> (\<forall>p. w \<notin> set (listed p s'))"
    using nw by (simp_all add: append_work_def removeAll_id s'_def)
  moreover have "UserTimer w \<notin> set (timer_lists ?k TimerList)"
    by (simp add: rt_timer_detach_def timer_remove_def q_remove_def)
  ultimately show ?thesis
    unfolding eq using k'(2,4,5) inv_timeout[OF assms(1) eq] timer_only_kinv(3)[OF timer_only_ops(3)[of k "UserTimer w"]]
    by simp
qed

lemma work_completion_ok:
  assumes "sysinv b k" "cur k = Some c" "sem_wf (wq_sem (wqs s q)) k"
  shows "ok (workqueue_work_completion q s k) (\<lambda>(r, k'). r = RT_EOK \<and> sysinv b k' \<and>
    sem_view (wq_sem (wqs s q)) k' = (fst (sem_view (wq_sem (wqs s q)) k) - 1, []) \<and>
    (\<forall>t \<in> set (snd (sem_view (wq_sem (wqs s q)) k)). served t k'))"
proof -
  let ?n = "wq_sem (wqs s q)" let ?k = "rt_enter_critical k"
  have k: "sysinv b ?k" "sem_wf ?n ?k" "cur ?k \<noteq> None" "sem_view ?n ?k = sem_view ?n k"
    using assms by (simp_all add: rt_enter_critical_def)
  from completion_loop_ok[OF k(1-3)] obtain k1 where k1: "completion_loop ?n ?k = Some (RT_EOK, k1)" "sysinv b k1"
    "cur k1 \<noteq> None" "sem_view ?n k1 = (fst (sem_view ?n k) - 1, [])" "\<forall>t \<in> set (snd (sem_view ?n k)). served t k1"
    by (auto simp: ok_iff k(4))
  then obtain x where "cur k1 = Some x" by blast
  then obtain k2 l where k2: "rt_exit_critical k1 = Some k2" "sysinv b k2" "only_scheduled (k1\<lparr>lock_nest := l\<rparr>) k2"
    by (rule exit_critical_ok[OF k1(2)])
  have "sem_view ?n k2 = sem_view ?n k1" using view_scheduled[OF k2(3)] by simp
  moreover have "served t k2" if "served t k1" for t using served_scheduled[OF k2(3)] that by simp
  ultimately show ?thesis using k1 k2(1,2) by (simp add: workqueue_work_completion_def)
qed

text \<open>The work thread. One pass of its loop takes the first item off the list and runs its function while the
  item is current. When the function has returned, no item is current any more, and every thread that
  waits for the completion is made runnable and its call will return \<open>RT_EOK\<close>; the loop that wakes them ends and leaves no unit
  behind when the semaphore held none or one.\<close>
theorem worker_runs_first:
  assumes "work_list (wqs s q) = w # ws" "work_func w (take_work q w s) k = Some (s1, k1)"
    and "sysinv b k1" "cur k1 = Some c" "sem_wf (wq_sem (wqs s1 q)) k1"
  shows "work_current (wqs (take_work q w s) q) = Some w \<and> work_list (wqs (take_work q w s) q) = removeAll w ws \<and>
    ok (workqueue_thread_pass q work_func s k) (\<lambda>(s', k'). s' = upd_wq q (\<lambda>x. x\<lparr>work_current := None\<rparr>) s1 \<and> sysinv b k' \<and>
      sem_view (wq_sem (wqs s1 q)) k' = (fst (sem_view (wq_sem (wqs s1 q)) k1) - 1, []) \<and>
      (\<forall>t \<in> set (snd (sem_view (wq_sem (wqs s1 q)) k1)). served t k'))"
proof -
  let ?s = "upd_wq q (\<lambda>x. x\<lparr>work_current := None\<rparr>) s1"
  have "sem_wf (wq_sem (wqs ?s q)) k1" using assms(5) by simp
  from work_completion_ok[OF assms(3,4) this] show ?thesis
    using assms(1,2) by (auto simp: workqueue_thread_pass_def take_work_def Let_def ok_iff)
qed

text \<open>\<open>rt_workqueue_cancel_all_work\<close> comes to an end, empties both lists of the queue and puts no item into any
  other list.\<close>
theorem cancel_all_empties:
  assumes "sysinv b k" "cur k = Some c" "work_inv s"
  shows "ok (rt_workqueue_cancel_all_work q s k) (\<lambda>(r, s', k'). r = RT_EOK \<and> sysinv b k' \<and> work_inv s' \<and>
    listed q s' = [] \<and> (\<forall>p. set (listed p s') \<subseteq> set (listed p s)))"
proof -
  have d: "distinct (listed q s)" using assms(3) by (simp add: work_inv_def work_once_def)
  have "sysinv b (rt_enter_critical k)" using assms(1) by (simp add: rt_enter_critical_def)
  from cancel_loop_ok[OF this, of work_list s q] d obtain s1 k1 where
    1: "cancel_loop work_list q s (rt_enter_critical k) = Some (s1, k1)" "sysinv b k1" "cur k1 = Some c"
    "work_list (wqs s1 q) = []" "\<forall>p. set (work_list (wqs s1 p)) \<subseteq> set (work_list (wqs s p)) \<and>
      set (delayed_list (wqs s1 p)) \<subseteq> set (delayed_list (wqs s p))"
    using assms(2) by (auto simp: ok_iff listed_def rt_enter_critical_def)
  have i1: "work_inv s1" by (rule inv_cancel_loop[OF 1(1) assms(3)])
  then have "distinct (listed q s1)" by (simp add: work_inv_def work_once_def)
  with cancel_loop_ok[OF 1(2), of delayed_list s1 q] obtain s2 k2 where
    2: "cancel_loop delayed_list q s1 k1 = Some (s2, k2)" "sysinv b k2" "cur k2 = Some c"
    "delayed_list (wqs s2 q) = []" "\<forall>p. set (work_list (wqs s2 p)) \<subseteq> set (work_list (wqs s1 p)) \<and>
      set (delayed_list (wqs s2 p)) \<subseteq> set (delayed_list (wqs s1 p))"
    using 1(3) by (auto simp: ok_iff listed_def)
  obtain k3 l where 3: "rt_exit_critical k2 = Some k3" "sysinv b k3" by (rule exit_critical_ok[OF 2(2,3)])
  have "set (work_list (wqs s2 q)) \<subseteq> set (work_list (wqs s1 q))" using 2(5) by blast
  then have "work_list (wqs s2 q) = []" using 1(4) by simp
  then show ?thesis
    using 1(1,5) 2(1,4,5) 3 inv_cancel_loop[OF 2(1) i1]
    by (simp add: rt_workqueue_cancel_all_work_def Let_def listed_def) blast
qed

text \<open>An item that is submitted with a delay and then again without one, before the delay has ended: its timer goes on
  running. When the work thread has taken the item, the item knows no queue any more, and when the timer
  expires its function stops in an assertion. So a legal sequence of calls halts the system.\<close>
theorem delayed_then_now_asserts:
  assumes "sysinv b k" "cur k = Some c" "0 < ticks" "ticks < RT_TICK_MAX div 2" "work_list (wqs s q) = []"
  shows "\<exists>s1 k1 s2 k2. rt_workqueue_submit_work q w ticks s k = Some (RT_EOK, s1, k1) \<and>
    rt_workqueue_dowork q w s1 k1 = Some (RT_EOK, s2, k2) \<and> work_list (wqs s2 q) = [w] \<and>
    UserTimer w \<in> set (timer_lists k2 TimerList) \<and> (\<forall>k'. delayed_work_timeout_handler w (take_work q w s2) k' = None)"
proof -
  obtain s1 k1 where 1: "workqueue_submit_work q w ticks s k = Some (RT_EOK, s1, k1)" "sysinv b k1" "cur k1 = cur k"
    "UserTimer w \<in> set (timer_lists k1 TimerList)" "work_list (wqs s1 q) = removeAll w (work_list (wqs s q))"
    by (rule submit_delayed[OF assms(1,3,4), of q w s]) (rule that)
  have "cur k1 = Some c" using 1(3) assms(2) by simp
  then obtain s2 k2 where 2: "workqueue_submit_work q w 0 s1 k1 = Some (RT_EOK, s2, k2)"
    "work_list (wqs s2 q) = removeAll w (work_list (wqs s1 q)) @ [w]"
    "UserTimer w \<in> set (timer_lists k2 TimerList) \<longleftrightarrow> UserTimer w \<in> set (timer_lists k1 TimerList)"
    by (rule submit_now[OF 1(2), of c q w s1]) (rule that)
  have "delayed_work_timeout_handler w (take_work q w s2) k' = None" for k'
    by (simp add: delayed_work_timeout_handler_def take_work_def Let_def)
  then show ?thesis
    using 1(1,4,5) 2 assms(4,5) by (simp add: rt_workqueue_submit_work_def rt_workqueue_dowork_def)
qed

section \<open>Witnesses\<close>

text \<open>One queue, whose thread is thread 1, with item 0 in the list of works and item 1 delayed; its semaphore is 0.\<close>

definition example_works :: workqs where
  "example_works = \<lparr>works = (\<lambda>w. \<lparr>work_flags = (if w = 0 then 1 else 2), workqueue = Some 0\<rparr>),
     wqs = (\<lambda>q. \<lparr>work_list = (if q = 0 then [0] else []), delayed_list = (if q = 0 then [1] else []),
       work_current = None, wq_sem = 0, work_thread = 1\<rparr>)\<rparr>"

definition example_idle_works :: workqs where
  "example_idle_works = \<lparr>works = (\<lambda>w. \<lparr>work_flags = 0, workqueue = None\<rparr>),
     wqs = (\<lambda>q. \<lparr>work_list = [], delayed_list = [], work_current = None, wq_sem = 0, work_thread = 1\<rparr>)\<rparr>"

lemma example_work_inv: "work_inv example_works"
  by (auto simp: work_inv_def work_once_def listed_def example_works_def submitting_def)

theorem works_listed_once_witness: "work_once (rt_work_init 3 example_idle_works)"
proof -
  have e: "listed q example_idle_works = []" for q by (simp add: listed_def example_idle_works_def)
  have "work_step (example_idle_works, example_kernel) (rt_work_init 3 example_idle_works, example_kernel)"
    by (rule work_step.init) (simp add: e)
  then have "work_step\<^sup>*\<^sup>* (example_idle_works, example_kernel) (rt_work_init 3 example_idle_works, example_kernel)" by blast
  from works_listed_once[OF this e] show ?thesis by simp
qed

theorem submit_work_correct_witness:
  "ok (rt_workqueue_submit_work 0 2 5 example_works example_kernel) (\<lambda>(r, s', k'). r = RT_EOK \<and>
     work_list (wqs s' 0) = [0] \<and> delayed_list (wqs s' 0) = [1, 2])"
  by (rule ok_mono[OF submit_work_correct[OF example_sysinv example_available(2), of 5 0 2 example_works]])
    (auto simp: example_works_def)

theorem delay_ends_witness:
  "ok (delayed_work_timeout_handler 1 example_works example_kernel) (\<lambda>(s', k'). sysinv 100 k' \<and>
     delayed_list (wqs s' 0) = [] \<and> work_list (wqs s' 0) = [0, 1])"
proof -
  have "(1 :: nat) \<in> set (delayed_list (wqs example_works 0))" by (simp add: example_works_def)
  from delay_ends[OF example_work_inv this example_sysinv example_available(2)] show ?thesis
    by (rule ok_mono) (auto simp: example_works_def)
qed

theorem worker_runs_first_witness:
  "ok (workqueue_thread_pass 0 (\<lambda>w s k. Some (s, k)) example_works example_kernel) (\<lambda>(s', k'). sysinv 100 k' \<and>
     work_list (wqs s' 0) = [] \<and> work_current (wqs s' 0) = None)"
proof -
  have l: "work_list (wqs example_works 0) = [0]" by (simp add: example_works_def)
  from worker_runs_first[OF l, of "\<lambda>w s k. Some (s, k)", OF refl example_sysinv example_available(2) example_sem_wf] l
  show ?thesis by (auto simp: ok_iff)
qed

theorem cancel_all_empties_witness:
  "ok (rt_workqueue_cancel_all_work 0 example_works example_kernel) (\<lambda>(r, s', k'). r = RT_EOK \<and> listed 0 s' = [])"
  by (rule ok_mono[OF cancel_all_empties[OF example_sysinv example_available(2) example_work_inv, of 0]]) auto

theorem delayed_then_now_asserts_witness:
  "\<exists>s1 k1 s2 k2. rt_workqueue_submit_work 0 7 5 example_idle_works example_kernel = Some (RT_EOK, s1, k1) \<and>
     rt_workqueue_dowork 0 7 s1 k1 = Some (RT_EOK, s2, k2) \<and> work_list (wqs s2 0) = [7] \<and>
     UserTimer 7 \<in> set (timer_lists k2 TimerList) \<and> (\<forall>k'. delayed_work_timeout_handler 7 (take_work 0 7 s2) k' = None)"
  by (rule delayed_then_now_asserts[OF example_sysinv example_available(2)]) (simp_all add: example_idle_works_def)

end
