(* ===== verification/Msh.thy ===== *)
theory Msh
  imports Prelude "HOL-Library.Sublist"
begin

text \<open>
  The command line of the shell, \<open>components/finsh/msh.c\<close> and \<open>msh_parse.c\<close>: splitting a line into arguments,
  finding the command, completing names and options, and the numbers in arguments. A character array of C is a
  list of bytes of its length; an access outside it is the value None. The names of commands are lists without
  zero bytes. The table of commands is a parameter, a command is the number of its function.
\<close>

section \<open>Arrays and strings\<close>

definition arr_get :: "u8 list \<Rightarrow> nat \<Rightarrow> u8 option" where
  "arr_get a i = (if i < length a then Some (a ! i) else None)"

definition arr_set :: "u8 list \<Rightarrow> nat \<Rightarrow> u8 list \<Rightarrow> u8 list option" where
  "arr_set a i bs = (if i + length bs \<le> length a then Some (take i a @ bs @ drop (i + length bs) a) else None)"

text \<open>The string that a reader of the array sees from an index on.\<close>

definition cstr :: "u8 list \<Rightarrow> nat \<Rightarrow> u8 list" where
  "cstr a i = takeWhile (\<lambda>c. c \<noteq> 0) (drop i a)"

definition strlen_at :: "u8 list \<Rightarrow> nat \<Rightarrow> nat option" where
  "strlen_at a i = (if 0 \<in> set (drop i a) then Some (length (cstr a i)) else None)"

text \<open>Whether \<open>strncmp\<close> of a name and the array is 0.\<close>

fun strncmp_equal :: "u8 list \<Rightarrow> u8 list \<Rightarrow> nat \<Rightarrow> nat \<Rightarrow> bool option" where
  "strncmp_equal s a p 0 = Some True"
| "strncmp_equal s a p (Suc n) =
     do { c \<leftarrow> arr_get a p;
          let b = (case s of [] \<Rightarrow> 0 | x # _ \<Rightarrow> x);
          if b \<noteq> c then Some False else if b = 0 then Some True else strncmp_equal (tl s) a (p + 1) n }"

fun str_common :: "u8 list \<Rightarrow> u8 list \<Rightarrow> nat" where
  "str_common (x # xs) (y # ys) = (if x = y then Suc (str_common xs ys) else 0)"
| "str_common _ _ = 0"

abbreviation blank :: "u8 \<Rightarrow> bool" where "blank c \<equiv> c = 32 \<or> c = 9"

section \<open>Splitting a line\<close>

abbreviation FINSH_ARG_MAX :: nat where "FINSH_ARG_MAX \<equiv> 10"

text \<open>\<open>ptr\<close> and \<open>position\<close> advance together, so \<open>position < length\<close> is \<open>ptr < e\<close> for the end \<open>e\<close> of the line.\<close>

function strip_blanks :: "u8 list \<Rightarrow> nat \<Rightarrow> nat \<Rightarrow> (u8 list \<times> nat) option" where
  "strip_blanks a p e =
     do { c \<leftarrow> arr_get a p; if blank c \<and> p < e then strip_blanks (a[p := 0]) (p + 1) e else Some (a, p) }"
  by pat_completeness auto
termination
  by (relation "measure (\<lambda>(a, p, e). e - p)") auto

function skip_string :: "u8 list \<Rightarrow> nat \<Rightarrow> nat \<Rightarrow> nat option" where
  "skip_string a p e =
     do { c \<leftarrow> arr_get a p;
          if c \<noteq> 34 \<and> p < e
          then if c = 92
               then do { d \<leftarrow> arr_get a (p + 1); skip_string a (if d = 34 then p + 2 else p + 1) e }
               else skip_string a (p + 1) e
          else Some p }"
  by pat_completeness auto
termination
  by (relation "measure (\<lambda>(a, p, e). e - p)") auto

function skip_word :: "u8 list \<Rightarrow> nat \<Rightarrow> nat \<Rightarrow> nat option" where
  "skip_word a p e = do { c \<leftarrow> arr_get a p; if \<not> blank c \<and> p < e then skip_word a (p + 1) e else Some p }"
  by pat_completeness auto
termination
  by (relation "measure (\<lambda>(a, p, e). e - p)") auto

partial_function (option) split_loop :: "nat \<Rightarrow> u8 list \<Rightarrow> nat \<Rightarrow> nat list \<Rightarrow> (u8 list \<times> nat list) option" where
  "split_loop e a p argv =
     (if p < e then do {
        (a, p) \<leftarrow> strip_blanks a p e;
        if FINSH_ARG_MAX \<le> length argv then Some (a, argv)
        else if e \<le> p then Some (a, argv)
        else do {
          c \<leftarrow> arr_get a p;
          if c = 34 then do {
            p' \<leftarrow> skip_string a (p + 1) e;
            if e \<le> p' then Some (a, argv @ [p + 1])
            else split_loop e (a[p' := 0]) (p' + 1) (argv @ [p + 1]) }
          else do {
            p' \<leftarrow> skip_word a p e;
            if e \<le> p' then Some (a, argv @ [p]) else split_loop e a p' (argv @ [p]) } } }
      else Some (a, argv))"

text \<open>The arguments are indices of their first characters.\<close>

definition msh_split :: "u8 list \<Rightarrow> nat \<Rightarrow> nat \<Rightarrow> (u8 list \<times> nat list) option" where
  "msh_split a cmd len = split_loop (cmd + len) a cmd []"

section \<open>Commands\<close>

record msh_cmd_opt =
  opt_id :: u32
  opt_name :: "u8 list"

record finsh_syscall =
  cmd_name :: "u8 list"
  cmd_opt :: "msh_cmd_opt list"
  cmd_func :: nat

fun msh_get_cmd :: "finsh_syscall list \<Rightarrow> u8 list \<Rightarrow> nat \<Rightarrow> nat \<Rightarrow> nat option option" where
  "msh_get_cmd [] a cmd n = Some None"
| "msh_get_cmd (x # xs) a cmd n =
     do { b \<leftarrow> strncmp_equal (cmd_name x) a cmd n;
          b \<leftarrow> (if b then do { c \<leftarrow> arr_get (cmd_name x @ [0]) n; Some (c = 0) } else Some False);
          if b then Some (Some (cmd_func x)) else msh_get_cmd xs a cmd n }"

fun cmd0_size :: "u8 list \<Rightarrow> nat \<Rightarrow> nat \<Rightarrow> nat option" where
  "cmd0_size a cmd 0 = Some 0"
| "cmd0_size a cmd (Suc n) =
     do { c \<leftarrow> arr_get a cmd; if blank c then Some 0 else do { m \<leftarrow> cmd0_size a (cmd + 1) n; Some (Suc m) } }"

text \<open>The result is the function to call with its arguments, or None for \<open>-RT_ERROR\<close>, and the line.\<close>

definition msh_exec_cmd ::
  "finsh_syscall list \<Rightarrow> u8 list \<Rightarrow> nat \<Rightarrow> nat \<Rightarrow> ((nat \<times> nat list) option \<times> u8 list) option" where
  "msh_exec_cmd tab a cmd len =
     do { n \<leftarrow> cmd0_size a cmd len;
          if n = 0 then Some (None, a)
          else do {
            f \<leftarrow> msh_get_cmd tab a cmd n;
            case f of
              None \<Rightarrow> Some (None, a)
            | Some f \<Rightarrow> do {
                (a, argv) \<leftarrow> msh_split a cmd len;
                Some (if argv = [] then None else Some (f, argv), a) } } }"

text \<open>What a line does: nothing, a call of a command with the indices of its arguments, or a message.\<close>

datatype msh_result = NoCommand | Call nat "nat list" | NotFound "u8 list"

fun trim_front :: "u8 list \<Rightarrow> nat \<Rightarrow> nat \<Rightarrow> (nat \<times> nat) option" where
  "trim_front a cmd 0 = Some (cmd, 0)"
| "trim_front a cmd (Suc n) =
     do { c \<leftarrow> arr_get a cmd; if blank c then trim_front a (cmd + 1) n else Some (cmd, Suc n) }"

function first_space :: "u8 list \<Rightarrow> nat \<Rightarrow> nat option" where
  "first_space a p = do { c \<leftarrow> arr_get a p; if c \<noteq> 32 \<and> c \<noteq> 0 then first_space a (p + 1) else Some p }"
  by pat_completeness auto
termination
  by (relation "measure (\<lambda>(a, p). length a - p)") (auto simp: arr_get_def split: if_splits)

text \<open>\<open>msh_exec\<close> trims the line, runs the command, or reports it, cut at the first space, as not found.\<close>

definition msh_not_found :: "u8 list \<Rightarrow> nat \<Rightarrow> (msh_result \<times> u8 list) option" where
  "msh_not_found a cmd = do { p \<leftarrow> first_space a cmd; let a = a[p := 0]; Some (NotFound (cstr a cmd), a) }"

definition msh_exec :: "finsh_syscall list \<Rightarrow> u8 list \<Rightarrow> nat \<Rightarrow> nat \<Rightarrow> (msh_result \<times> u8 list) option" where
  "msh_exec tab a cmd len =
     do { (cmd, len) \<leftarrow> trim_front a cmd len;
          if len = 0 then Some (NoCommand, a)
          else do {
            (r, a) \<leftarrow> msh_exec_cmd tab a cmd len;
            case r of
              Some (f, argv) \<Rightarrow> Some (Call f argv, a)
            | None \<Rightarrow> msh_not_found a cmd } }"

declare strip_blanks.simps [simp del] skip_string.simps [simp del] skip_word.simps [simp del]
  first_space.simps [simp del]

section \<open>Completion\<close>

text \<open>The loop over the names: the first match, the length of the common prefix so far, the names printed.\<close>

fun complete_loop :: "u8 list \<Rightarrow> nat \<Rightarrow> nat \<Rightarrow> u8 list list \<Rightarrow> u8 list option \<times> nat \<times> u8 list list \<Rightarrow>
    (u8 list option \<times> nat \<times> u8 list list) option" where
  "complete_loop a p n [] st = Some st"
| "complete_loop a p n (x # xs) (name_ptr, min_length, out) =
     do { b \<leftarrow> strncmp_equal x a p n;
          if b then
            (let (name_ptr, min_length) = (if min_length = 0 then (Some x, length x) else (name_ptr, min_length));
                 len = str_common (the name_ptr) x
             in complete_loop a p n xs (name_ptr, min len min_length, out @ [x]))
          else complete_loop a p n xs (name_ptr, min_length, out) }"

text \<open>The names that match are completed in place; they are printed.\<close>

definition complete_at :: "u8 list \<Rightarrow> nat \<Rightarrow> u8 list list \<Rightarrow> (u8 list list \<times> u8 list) option" where
  "complete_at a p names =
     do { n \<leftarrow> strlen_at a p;
          (name_ptr, min_length, out) \<leftarrow> complete_loop a p n names (None, 0, []);
          a \<leftarrow> (case name_ptr of None \<Rightarrow> Some a | Some name \<Rightarrow> arr_set a p (take min_length name));
          Some (out, a) }"

datatype shown = Help | Names "u8 list list"

definition msh_auto_complete :: "finsh_syscall list \<Rightarrow> u8 list \<Rightarrow> (shown \<times> u8 list) option" where
  "msh_auto_complete tab a =
     do { c \<leftarrow> arr_get a 0;
          if c = 0 then Some (Help, a)
          else do { (out, a) \<leftarrow> complete_at a 0 (map cmd_name tab); Some (Names out, a) } }"

text \<open>The options of the command before the first space; the null pointer and an empty list are the same to the callers.\<close>

fun opt_search :: "finsh_syscall list \<Rightarrow> u8 list \<Rightarrow> nat \<Rightarrow> msh_cmd_opt list option" where
  "opt_search [] a len = Some []"
| "opt_search (x # xs) a len =
     do { b \<leftarrow> strncmp_equal (cmd_name x) a 0 len;
          b \<leftarrow> (if b then do { c \<leftarrow> arr_get (cmd_name x @ [0]) len; Some (c = 0) } else Some False);
          if b then Some (cmd_opt x) else opt_search xs a len }"

definition msh_get_cmd_opt :: "finsh_syscall list \<Rightarrow> u8 list \<Rightarrow> msh_cmd_opt list option" where
  "msh_get_cmd_opt tab a =
     do { n \<leftarrow> strlen_at a 0;
          opt_search tab a (length (takeWhile (\<lambda>c. c \<noteq> 32) (take n a))) }"

text \<open>The number of words after the first and the index of the last one.\<close>

fun argc_loop :: "u8 list \<Rightarrow> nat \<Rightarrow> nat \<times> nat \<Rightarrow> nat \<times> nat" where
  "argc_loop (c # d # s) i (argc, arg) =
     argc_loop (d # s) (i + 1) (if c = 32 \<and> d \<noteq> 32 then (argc + 1, i + 1) else (argc, arg))"
| "argc_loop _ i r = r"

definition msh_get_argc :: "u8 list \<Rightarrow> (nat \<times> nat) option" where
  "msh_get_argc a = do { _ \<leftarrow> strlen_at a 0; Some (argc_loop (cstr a 0) 0 (0, 0)) }"

text \<open>\<open>prefix[strlen(prefix) - 1]\<close> is a byte in front of the array when the line is empty.\<close>

definition last_char :: "u8 list \<Rightarrow> nat \<Rightarrow> u8 option" where
  "last_char a n = (if n = 0 then None else arr_get a (n - 1))"

definition msh_opt_auto_complete :: "finsh_syscall list \<Rightarrow> u8 list \<Rightarrow> (shown option \<times> u8 list) option" where
  "msh_opt_auto_complete tab a =
     do { n \<leftarrow> strlen_at a 0;
          (argc, opt_str) \<leftarrow> msh_get_argc a;
          opt \<leftarrow> (if argc \<noteq> 0 then msh_get_cmd_opt tab a
                 else do { f \<leftarrow> msh_get_cmd tab a 0 n;
                           if f \<noteq> None then Some []
                           else do { c \<leftarrow> last_char a n; if c = 32 then msh_get_cmd_opt tab a else Some [] } });
          if opt = [] then Some (None, a)
          else if argc = 0 then Some (Some Help, a)
          else if argc = 1 then do { (out, a) \<leftarrow> complete_at a opt_str (map opt_name opt); Some (Some (Names out), a) }
          else Some (None, a) }"

fun opt_id_loop :: "u8 list \<Rightarrow> msh_cmd_opt list \<Rightarrow> u32" where
  "opt_id_loop arg [] = 0"
| "opt_id_loop arg (opt # opts) = (if opt_name opt = arg then opt_id opt else opt_id_loop arg opts)"

definition msh_cmd_opt_id_get :: "u8 list list \<Rightarrow> msh_cmd_opt list \<Rightarrow> u32" where
  "msh_cmd_opt_id_get argv options = (case argv of _ # arg # _ \<Rightarrow> opt_id_loop arg options | _ \<Rightarrow> 0)"

section \<open>Numbers\<close>

text \<open>\<open>msh_parse.c\<close>, on the string of the argument; \<open>int\<close> is a word of 32 bits.\<close>

abbreviation isdigit :: "u8 \<Rightarrow> bool" where "isdigit c \<equiv> 48 \<le> c \<and> c \<le> 57"
abbreviation tolower :: "u8 \<Rightarrow> u8" where "tolower c \<equiv> (if 65 \<le> c \<and> c \<le> 90 then c + 32 else c)"
abbreviation isxdigit :: "u8 \<Rightarrow> bool" where "isxdigit c \<equiv> isdigit c \<or> 97 \<le> c \<and> c \<le> 102 \<or> 65 \<le> c \<and> c \<le> 70"

definition msh_isint :: "u8 list \<Rightarrow> bool" where
  "msh_isint s = (case s of [] \<Rightarrow> False | c # r \<Rightarrow> list_all isdigit (if c = 43 \<or> c = 45 then r else s))"

definition msh_ishex :: "u8 list \<Rightarrow> bool" where
  "msh_ishex s = (case s of a # b # r \<Rightarrow> a = 48 \<and> b = 120 \<and> list_all (\<lambda>c. isxdigit (tolower c)) r | _ \<Rightarrow> False)"

definition strtohex_step :: "u32 \<Rightarrow> u8 \<Rightarrow> u32" where
  "strtohex_step value ch = value * 16 + (let c = tolower ch in if isdigit c then ucast c - 48 else ucast c - 97 + 10)"

definition msh_strtohex :: "u8 list \<Rightarrow> u32" where
  "msh_strtohex s = foldl strtohex_step 0 (drop 2 s)"

section \<open>The words of a line\<close>

text \<open>The specification of splitting: words between blanks, or between quotes, where a backslash keeps a quote.\<close>

fun quoted :: "u8 list \<Rightarrow> u8 list \<times> u8 list" where
  "quoted [] = ([], [])"
| "quoted [c] = (if c = 34 then ([], []) else ([c], []))"
| "quoted (c # d # r) =
     (if c = 34 then ([], d # r)
      else if c = 92 \<and> d = 34 then apfst (\<lambda>s. c # d # s) (quoted r)
      else apfst ((#) c) (quoted (d # r)))"

lemma quoted_length: "length (snd (quoted r)) \<le> length r"
  by (induction r rule: quoted.induct) auto

function tokens :: "u8 list \<Rightarrow> u8 list list" where
  "tokens t =
     (case dropWhile blank t of
        [] \<Rightarrow> []
      | c # r \<Rightarrow> if c = 34 then fst (quoted r) # tokens (snd (quoted r))
                else takeWhile (\<lambda>c. \<not> blank c) (c # r) # tokens (dropWhile (\<lambda>c. \<not> blank c) (c # r)))"
  by pat_completeness auto
termination
proof (relation "measure length")
  fix t c r
  assume a: "dropWhile blank t = c # r"
  have l: "length (c # r) \<le> length t" using length_dropWhile_le[of blank t] by (simp add: a)
  show "(snd (quoted r), t) \<in> measure length" using quoted_length[of r] l by simp
  have "\<not> blank c" using hd_dropWhile[of blank t] by (simp add: a)
  then show "(dropWhile (\<lambda>c. \<not> blank c) (c # r), t) \<in> measure length"
    using length_dropWhile_le[of "\<lambda>c. \<not> blank c" r] l by simp
qed simp

declare tokens.simps [simp del]

lemma arr_get_app [simp]: "arr_get (xs @ y # ys) (length xs) = Some y"
  by (simp add: arr_get_def)

lemma arr_get_app1 [simp]: "arr_get (xs @ y # z # ys) (Suc (length xs)) = Some z"
  by (simp add: arr_get_def nth_append)

lemma strip_blanks_eq:
  "strip_blanks (pre @ t @ 0 # post) (length pre) (length pre + length t) =
     Some (pre @ replicate (length (takeWhile blank t)) 0 @ dropWhile blank t @ 0 # post,
       length pre + length (takeWhile blank t))"
proof (induction t arbitrary: pre)
  case Nil
  then show ?case by (subst strip_blanks.simps) simp
next
  case (Cons c t)
  show ?case
  proof (cases "blank c")
    case True
    then show ?thesis using Cons.IH[of "pre @ [0]"] by (subst strip_blanks.simps) auto
  next
    case False
    then show ?thesis by (subst strip_blanks.simps) auto
  qed
qed

lemma skip_word_eq:
  "skip_word (pre @ t @ 0 # post) (length pre) (length pre + length t) =
     Some (length pre + length (takeWhile (\<lambda>c. \<not> blank c) t))"
proof (induction t arbitrary: pre)
  case Nil
  then show ?case by (subst skip_word.simps) simp
next
  case (Cons c t)
  show ?case
  proof (cases "blank c")
    case True
    then show ?thesis by (subst skip_word.simps) auto
  next
    case False
    with Cons.IH[of "pre @ [c]"] show ?thesis by (subst skip_word.simps) simp
  qed
qed

lemma skip_string_eq:
  assumes "0 \<notin> set t"
  shows "skip_string (pre @ t @ 0 # post) (length pre) (length pre + length t) =
     Some (length pre + length (fst (quoted t)))"
  using assms
proof (induction t arbitrary: pre rule: quoted.induct)
  case 1
  then show ?case by (subst skip_string.simps) simp
next
  case (2 c)
  have "skip_string (pre @ [c] @ 0 # post) (Suc (length pre)) (Suc (length pre)) = Some (Suc (length pre))"
    by (subst skip_string.simps) simp
  then show ?case by (subst skip_string.simps) auto
next
  case (3 c d r)
  consider "c = 34" | "c = 92" "d = 34" | "c \<noteq> 34" "\<not> (c = 92 \<and> d = 34)" by blast
  then show ?case
  proof cases
    case 1
    then show ?thesis by (subst skip_string.simps) simp
  next
    case 2
    with 3(1)[of "pre @ [c, d]"] 3(3) show ?thesis by (subst skip_string.simps) auto
  next
    case 3
    with "3.IH"(2)[of "pre @ [c]"] "3.prems" show ?thesis by (subst skip_string.simps) auto
  qed
qed

lemma quoted_split: "t = fst (quoted t) @ 34 # snd (quoted t) \<or> fst (quoted t) = t \<and> snd (quoted t) = []"
  by (induction t rule: quoted.induct) auto

lemma quoted_subset: "set (fst (quoted t)) \<union> set (snd (quoted t)) \<subseteq> set t"
  by (induction t rule: quoted.induct) auto

lemma cstr_here:
  assumes "0 \<notin> set w" "x = [] \<or> hd x = 0"
  shows "cstr (pre @ w @ x) (length pre) = w"
proof -
  have "takeWhile (\<lambda>c. c \<noteq> 0) (w @ x) = w @ takeWhile (\<lambda>c. c \<noteq> 0) x"
    using assms(1) by (intro takeWhile_append2) auto
  then show ?thesis using assms(2) by (cases x) (auto simp: cstr_def)
qed

lemma hd_blanks: "t \<noteq> [] \<Longrightarrow> blank (hd t) \<Longrightarrow> hd (replicate (length (takeWhile blank t)) 0 @ x) = (0 :: u8)"
  by (cases t) auto

text \<open>The state of the loop between words: the array, with the rest of the line between what has been split and
  the zero byte that ends it.\<close>

definition splits :: "u8 list \<Rightarrow> u8 list \<Rightarrow> u8 list \<Rightarrow> nat list \<Rightarrow> bool" where
  "splits pre t post argv \<longleftrightarrow> (\<exists>t' new.
     split_loop (length pre + length t) (pre @ t @ 0 # post) (length pre) argv = Some (pre @ t' @ 0 # post, argv @ new) \<and>
     length t' = length t \<and> map (cstr (pre @ t' @ 0 # post)) new = take (FINSH_ARG_MAX - length argv) (tokens t) \<and>
     (t \<noteq> [] \<and> blank (hd t) \<longrightarrow> hd t' = 0))"

lemma splits_stop:
  assumes "t \<noteq> []" "FINSH_ARG_MAX \<le> length argv \<or> dropWhile blank t = []"
  shows "splits pre t post argv"
  unfolding splits_def
proof (intro exI conjI)
  let ?n = "length (takeWhile blank t)"
  let ?t = "replicate ?n 0 @ dropWhile blank t"
  have l: "length pre < length pre + length t" using assms(1) by simp
  have n: "?n + length (dropWhile blank t) = length t" by (metis length_append takeWhile_dropWhile_id)
  show "split_loop (length pre + length t) (pre @ t @ 0 # post) (length pre) argv = Some (pre @ ?t @ 0 # post, argv @ [])"
  proof (cases "FINSH_ARG_MAX \<le> length argv")
    case True
    then show ?thesis using l by (subst split_loop.simps) (simp add: strip_blanks_eq)
  next
    case False
    then have d: "dropWhile blank t = []" using assms(2) by blast
    with n have "length (takeWhile blank t) = length t" by simp
    then show ?thesis unfolding d using l False by (subst split_loop.simps) (simp add: strip_blanks_eq d)
  qed
  show "length ?t = length t" using n by simp
  show "map (cstr (pre @ ?t @ 0 # post)) [] = take (FINSH_ARG_MAX - length argv) (tokens t)"
    using assms(2) by (subst tokens.simps) (auto simp del: dropWhile_eq_Nil_conv)
  show "t \<noteq> [] \<and> blank (hd t) \<longrightarrow> hd ?t = 0" by (simp add: hd_blanks)
qed

text \<open>One word has been found and terminated, the rest is split after it.\<close>

lemma splits_word:
  assumes t: "dropWhile blank t = u @ w @ x" "t \<noteq> []" "length argv < FINSH_ARG_MAX" "0 \<notin> set t"
    and step: "split_loop (length pre + length t) (pre @ t @ 0 # post) (length pre) argv =
      split_loop (length pre1 + length y) (pre1 @ y @ 0 # post) (length pre1) (argv @ [i])"
    and pre1: "pre1 = pre @ replicate (length (takeWhile blank t)) 0 @ u @ w @ z" "length z + length y = length x"
    and i: "i = length pre + length (takeWhile blank t) + length u"
    and z: "hd (z @ [0]) = 0" "z = [] \<longrightarrow> y = [] \<or> blank (hd y)"
    and tok: "tokens t = w # tokens y" and rest: "splits pre1 y post (argv @ [i])"
  shows "splits pre t post argv"
proof -
  let ?n = "length (takeWhile blank t)"
  from rest obtain t' new where r:
    "split_loop (length pre1 + length y) (pre1 @ y @ 0 # post) (length pre1) (argv @ [i]) =
       Some (pre1 @ t' @ 0 # post, (argv @ [i]) @ new)" "length t' = length y"
    "map (cstr (pre1 @ t' @ 0 # post)) new = take (FINSH_ARG_MAX - length (argv @ [i])) (tokens y)"
    "y \<noteq> [] \<and> blank (hd y) \<longrightarrow> hd t' = 0"
    unfolding splits_def by blast
  let ?t = "replicate ?n 0 @ u @ w @ z @ t'"
  have arr: "pre1 @ t' @ 0 # post = pre @ ?t @ 0 # post" by (simp add: pre1)
  have n: "?n + length (dropWhile blank t) = length t" by (metis length_append takeWhile_dropWhile_id)
  have w: "0 \<notin> set w" using t(1,4) set_dropWhileD[of _ blank t] by auto
  have "hd (z @ t' @ 0 # post) = 0"
    using z r(2,4) by (cases z; cases t') auto
  then have c: "cstr ((pre @ replicate ?n 0 @ u) @ w @ z @ t' @ 0 # post) (length (pre @ replicate ?n 0 @ u)) = w"
    by (intro cstr_here[OF w]) simp
  show ?thesis
    unfolding splits_def
  proof (intro exI conjI)
    show "split_loop (length pre + length t) (pre @ t @ 0 # post) (length pre) argv =
        Some (pre @ ?t @ 0 # post, argv @ (i # new))" using step r(1) by (simp add: arr)
    show "length ?t = length t" using n t(1) pre1(2) r(2) by simp
    have "FINSH_ARG_MAX - length argv = Suc (FINSH_ARG_MAX - length (argv @ [i]))" using t(3) by simp
    then show "map (cstr (pre @ ?t @ 0 # post)) (i # new) = take (FINSH_ARG_MAX - length argv) (tokens t)"
      using c r(3) by (simp add: tok i arr add.assoc)
    show "t \<noteq> [] \<and> blank (hd t) \<longrightarrow> hd ?t = 0" by (simp add: hd_blanks)
  qed
qed

text \<open>A bundle for one pass of the loop on a line that is not blank.\<close>

lemma split_pass:
  assumes "dropWhile blank t = c # r" "length argv < FINSH_ARG_MAX"
    and pre1_def: "pre1 = pre @ replicate (length (takeWhile blank t)) 0"
  shows "split_loop (length pre + length t) (pre @ t @ 0 # post) (length pre) argv =
    (if c = 34
     then do { p' \<leftarrow> skip_string ((pre1 @ [c]) @ r @ 0 # post) (length (pre1 @ [c])) (length (pre1 @ [c]) + length r);
          if length (pre1 @ [c]) + length r \<le> p' then Some ((pre1 @ [c]) @ r @ 0 # post, argv @ [length pre1 + 1])
          else split_loop (length (pre1 @ [c]) + length r) (((pre1 @ [c]) @ r @ 0 # post)[p' := 0]) (p' + 1) (argv @ [length pre1 + 1]) }
     else do { p' \<leftarrow> skip_word (pre1 @ (c # r) @ 0 # post) (length pre1) (length pre1 + length (c # r));
          if length pre1 + length (c # r) \<le> p' then Some (pre1 @ (c # r) @ 0 # post, argv @ [length pre1])
          else split_loop (length pre1 + length (c # r)) (pre1 @ (c # r) @ 0 # post) p' (argv @ [length pre1]) })"
proof -
  have "length (takeWhile blank t) + length (dropWhile blank t) = length t"
    by (metis length_append takeWhile_dropWhile_id)
  then have n: "length (pre1 @ [c]) + length r = length pre + length t" "length pre1 + length (c # r) = length pre + length t"
    using assms(1) by (simp_all add: pre1_def)
  have l: "length pre < length pre + length t" using n(1) by (cases t) (simp_all add: pre1_def)
  have s: "strip_blanks (pre @ t @ 0 # post) (length pre) (length pre + length t) = Some (pre1 @ (c # r) @ 0 # post, length pre1)"
    by (simp add: strip_blanks_eq assms(1) pre1_def)
  have "\<not> length pre + length t \<le> length pre1" using n(1) by simp
  moreover have e: "(pre1 @ [c]) @ r @ 0 # post = pre1 @ c # r @ 0 # post" "pre1 @ (c # r) @ 0 # post = pre1 @ c # r @ 0 # post"
    by simp_all
  ultimately show ?thesis
    unfolding n e using l s assms(2) by (subst split_loop.simps) simp
qed

lemma splits_all: "0 \<notin> set t \<Longrightarrow> length argv \<le> FINSH_ARG_MAX \<Longrightarrow> splits pre t post argv"
proof (induction t arbitrary: pre argv rule: tokens.induct)
  case (1 t)
  let ?pre1 = "pre @ replicate (length (takeWhile blank t)) 0"
  consider "t = []" | "t \<noteq> []" "FINSH_ARG_MAX \<le> length argv \<or> dropWhile blank t = []"
    | c r where "t \<noteq> []" "length argv < FINSH_ARG_MAX" "dropWhile blank t = c # r"
    by (cases "dropWhile blank t") (force simp: not_le)+
  then show ?case
  proof cases
    case 1
    then show ?thesis unfolding splits_def by (subst split_loop.simps) (simp add: tokens.simps)
  next
    case 2
    then show ?thesis by (rule splits_stop)
  next
    case (3 c r)
    have nz: "0 \<notin> set r" "c \<noteq> 0" using "1.prems"(1) set_dropWhileD[of _ blank t] 3(3) by auto
    note pass = split_pass[OF 3(3,2) refl, of pre post]
    show ?thesis
    proof (cases "c = 34")
      case True
      let ?w = "fst (quoted r)" and ?y = "snd (quoted r)" and ?i = "length ?pre1 + 1"
      have tok: "tokens t = ?w # tokens ?y" by (subst tokens.simps) (simp add: 3(3) True)
      have rest: "splits p1 ?y post (argv @ [?i])" for p1
        using "1.IH"(1)[OF 3(3) True, of "argv @ [?i]"] nz 3(2) quoted_subset[of r] by auto
      note sk = skip_string_eq[OF nz(1), of "?pre1 @ [c]" post]
      show ?thesis
      proof (cases "r = ?w @ 34 # ?y")
        case closed: True
        let ?p1 = "pre @ replicate (length (takeWhile blank t)) 0 @ [c] @ ?w @ [0]"
        have "((?pre1 @ [c]) @ r @ 0 # post)[length (?pre1 @ [c]) + length ?w := 0] = ?p1 @ ?y @ 0 # post"
          by (subst closed) (simp add: list_update_append)
        then have st: "split_loop (length pre + length t) (pre @ t @ 0 # post) (length pre) argv =
            split_loop (length ?p1 + length ?y) (?p1 @ ?y @ 0 # post) (length ?p1) (argv @ [?i])"
          using True sk arg_cong[OF closed, of length] by (simp only: pass) (simp add: add.assoc)
        show ?thesis
          by (rule splits_word[where u = "[c]" and z = "[0]" and x = "34 # ?y", OF _ 3(1,2) "1.prems"(1) st])
            (use 3(3) closed tok rest in simp_all)
      next
        case unclosed: False
        then have w: "?w = r" "?y = []" using quoted_split[of r] by auto
        let ?p1 = "pre @ replicate (length (takeWhile blank t)) 0 @ [c] @ r"
        have st: "split_loop (length pre + length t) (pre @ t @ 0 # post) (length pre) argv =
            split_loop (length ?p1 + length []) (?p1 @ [] @ 0 # post) (length ?p1) (argv @ [?i])"
          using True sk w by (simp only: pass) (subst (2) split_loop.simps, simp)
        show ?thesis
          by (rule splits_word[where u = "[c]" and z = "[]" and x = "[]" and w = r, OF _ 3(1,2) "1.prems"(1) st])
            (use 3(3) tok rest w in simp_all)
      qed
    next
      case False
      let ?w = "takeWhile (\<lambda>c. \<not> blank c) (c # r)" and ?y = "dropWhile (\<lambda>c. \<not> blank c) (c # r)"
      let ?p1 = "pre @ replicate (length (takeWhile blank t)) 0 @ ?w" and ?i = "length ?pre1"
      have tok: "tokens t = ?w # tokens ?y" by (subst tokens.simps) (simp add: 3(3) False)
      have "0 \<notin> set ?y" using nz set_dropWhileD[of 0 "\<lambda>c. \<not> blank c" "c # r"] by auto
      then have rest: "splits p1 ?y post (argv @ [?i])" for p1
        using "1.IH"(2)[OF 3(3) False, of "argv @ [?i]"] 3(2) by simp
      have wy: "c # r = ?w @ ?y" by simp
      have nb: "c \<noteq> 32" "c \<noteq> 9" using hd_dropWhile[of blank t] by (simp_all add: 3(3))
      from wy have ly: "length ?w + length ?y = length (c # r)" by (metis length_append)
      have arr: "?pre1 @ (c # r) @ 0 # post = ?p1 @ ?y @ 0 # post" by simp
      have st: "split_loop (length pre + length t) (pre @ t @ 0 # post) (length pre) argv =
          split_loop (length ?p1 + length ?y) (?p1 @ ?y @ 0 # post) (length ?p1) (argv @ [?i])"
      proof (cases "?y = []")
        case True
        then have w: "?w = c # r" using takeWhile_dropWhile_id[of "\<lambda>c. \<not> blank c" "c # r"] by (simp only: append_Nil2)
        have "skip_word (?pre1 @ (c # r) @ 0 # post) (length ?pre1) (length ?pre1 + length (c # r)) =
            Some (length ?pre1 + length (c # r))" using skip_word_eq[of ?pre1 "c # r" post] unfolding w .
        then show ?thesis using False unfolding True w by (simp only: pass) (subst (2) split_loop.simps, simp)
      next
        case ne: False
        then have lt: "\<not> length ?pre1 + length (c # r) \<le> length ?pre1 + length ?w" using ly by (cases ?y) simp_all
        have e: "length ?pre1 + length (c # r) = length ?p1 + length ?y" "length ?pre1 + length ?w = length ?p1"
          using ly by simp_all
        show ?thesis
          unfolding pass skip_word_eq[of ?pre1 "c # r" post] using False lt by (simp only: bind.bind_lunit if_False arr e)
      qed
      show ?thesis
        by (rule splits_word[where u = "[]" and z = "[]" and x = ?y and w = ?w, OF _ 3(1,2) "1.prems"(1) st])
          (use 3(3) tok rest nb hd_dropWhile[of "\<lambda>c. \<not> blank c" r] in \<open>auto simp del: dropWhile_eq_Nil_conv\<close>)
    qed
  qed
qed

section \<open>Commands and completion\<close>

text \<open>Splitting. \<open>msh_split\<close> of a line without zero bytes that a zero byte ends stores the first ten words of
  the line, without blanks between them and with quoted parts as one word, each as a string of its own, and writes
  nothing outside the line. It stops in no line.\<close>
theorem split_finds_words:
  assumes "0 \<notin> set t"
  shows "\<exists>t' argv. msh_split (pre @ t @ 0 # post) (length pre) (length t) = Some (pre @ t' @ 0 # post, argv) \<and>
    length t' = length t \<and> map (cstr (pre @ t' @ 0 # post)) argv = take FINSH_ARG_MAX (tokens t)"
proof -
  have "splits pre t post []" by (rule splits_all[OF assms]) simp
  then show ?thesis unfolding splits_def msh_split_def by auto
qed

lemma arr_get_in: "0 \<notin> set t \<Longrightarrow> i < length t \<Longrightarrow> arr_get (pre @ t @ x) (length pre + i) = Some (t ! i)"
  by (simp add: arr_get_def nth_append)

lemma cmd0_eq: "cmd0_size (pre @ t @ post) (length pre) (length t) = Some (length (takeWhile (\<lambda>c. \<not> blank c) t))"
proof (induction t arbitrary: pre)
  case (Cons c t)
  show ?case
  proof (cases "blank c")
    case True
    then show ?thesis by auto
  next
    case False
    then show ?thesis using Cons.IH[of "pre @ [c]"] by simp
  qed
qed simp

lemma trim_eq:
  "trim_front (pre @ t @ post) (length pre) (length t) =
     Some (length pre + length (takeWhile blank t), length (dropWhile blank t))"
proof (induction t arbitrary: pre)
  case (Cons c t)
  show ?case
  proof (cases "blank c")
    case True
    then show ?thesis using Cons.IH[of "pre @ [c]"] by auto
  next
    case False
    then show ?thesis by auto
  qed
qed simp

text \<open>\<open>strncmp\<close> of a name with a word of the line.\<close>

lemma strncmp_equal_eq:
  assumes "0 \<notin> set s" "0 \<notin> set w"
  shows "strncmp_equal s (pre @ w @ x) (length pre) (length w) = Some (prefix w s)"
  using assms
proof (induction w arbitrary: s pre)
  case (Cons c w)
  from Cons.IH[of "tl s" "pre @ [c]"] Cons.prems show ?case by (cases s) auto
qed simp

lemma get_cmd_eq:
  assumes "0 \<notin> set w" "\<forall>x \<in> set tab. 0 \<notin> set (cmd_name x)"
  shows "msh_get_cmd tab (pre @ w @ y) (length pre) (length w) =
    Some (map_option cmd_func (find (\<lambda>x. cmd_name x = w) tab))"
  using assms(2)
proof (induction tab)
  case (Cons x tab)
  have "arr_get (cmd_name x @ [0]) (length w) = Some 0 \<longleftrightarrow> cmd_name x = w"
    "arr_get (cmd_name x @ [0]) (length w) \<noteq> None" if "prefix w (cmd_name x)"
    using that Cons.prems by (auto simp: arr_get_def prefix_def nth_append in_set_conv_nth split: if_splits)
  then show ?case
    using Cons strncmp_equal_eq[of "cmd_name x" w pre y] assms(1) by (cases "prefix w (cmd_name x)") auto
qed simp

lemma tokens_trim: "tokens (dropWhile blank t) = tokens t"
  by (subst (1 2) tokens.simps) simp

lemma tokens_nonempty: "dropWhile blank t \<noteq> [] \<Longrightarrow> tokens t \<noteq> []"
  by (subst tokens.simps) (auto split: list.split simp del: dropWhile_eq_Nil_conv)

lemma first_space_eq:
  "0 \<notin> set t \<Longrightarrow> first_space (pre @ t @ 0 # post) (length pre) = Some (length pre + length (takeWhile (\<lambda>c. c \<noteq> 32) t))"
proof (induction t arbitrary: pre)
  case Nil
  then show ?case by (subst first_space.simps) simp
next
  case (Cons c t)
  then show ?case using Cons.IH[of "pre @ [c]"] by (subst first_space.simps) auto
qed

lemma update_here: "(p @ q @ x)[length p + length q := v] = p @ q @ x[0 := v]"
  by (simp add: list_update_append)

text \<open>Executing a line. A blank line does nothing. When the first word is the name of a command, the first entry
  of that name in the table is called with the words of the line, at most ten, as its arguments, which are strings
  of their own. Otherwise the text up to the first space is reported as not found.\<close>
theorem exec_calls_command:
  assumes "0 \<notin> set t" "\<forall>x \<in> set tab. 0 \<notin> set (cmd_name x)"
  defines "u \<equiv> dropWhile blank t"
  shows "\<exists>r a'. msh_exec tab (t @ 0 # post) 0 (length t) = Some (r, a') \<and> length a' = length (t @ 0 # post) \<and>
    (if u = [] then r = NoCommand
     else case find (\<lambda>x. cmd_name x = takeWhile (\<lambda>c. \<not> blank c) u) tab of
       Some x \<Rightarrow> (\<exists>argv. r = Call (cmd_func x) argv \<and> map (cstr a') argv = take FINSH_ARG_MAX (tokens t))
     | None \<Rightarrow> r = NotFound (takeWhile (\<lambda>c. c \<noteq> 32) u))"
proof -
  define z where "z = takeWhile blank t"
  have t: "t = z @ u" by (simp add: z_def u_def)
  let ?a = "z @ u @ 0 # post" and ?w = "takeWhile (\<lambda>c. \<not> blank c) u" and ?d = "dropWhile (\<lambda>c. \<not> blank c) u"
  have a: "t @ 0 # post = ?a" by (simp add: t)
  have nz: "0 \<notin> set u" using assms(1) t by (metis Un_iff set_append)
  have tr: "trim_front (t @ 0 # post) 0 (length t) = Some (length z, length u)"
    using trim_eq[of "[]" t "0 # post"] by (simp add: z_def u_def)
  show ?thesis
  proof (cases "u = []")
    case True
    then show ?thesis using tr by (simp add: msh_exec_def)
  next
    case ne: False
    then have "\<not> blank (hd u)" using hd_dropWhile[of blank t] by (simp add: u_def)
    then have w0: "?w \<noteq> []" using ne by (cases u) auto
    have n: "cmd0_size ?a (length z) (length u) = Some (length ?w)" by (rule cmd0_eq)
    have wn: "0 \<notin> set ?w" using nz set_takeWhileD[of 0 _ u] by blast
    have "(?w @ ?d) @ 0 # post = u @ 0 # post" by (simp only: takeWhile_dropWhile_id)
    then have e: "?w @ ?d @ 0 # post = u @ 0 # post" by (simp only: append_assoc)
    have g: "msh_get_cmd tab ?a (length z) (length ?w) = Some (map_option cmd_func (find (\<lambda>x. cmd_name x = ?w) tab))"
      using get_cmd_eq[OF wn assms(2), of z "?d @ 0 # post"] unfolding e .
    show ?thesis
    proof (cases "find (\<lambda>x. cmd_name x = ?w) tab")
      case (Some x)
      obtain t' argv where s: "msh_split ?a (length z) (length u) = Some (z @ t' @ 0 # post, argv)" "length t' = length u"
        "map (cstr (z @ t' @ 0 # post)) argv = take FINSH_ARG_MAX (tokens u)"
        using splits_all[OF nz, of "[]" z post] unfolding splits_def msh_split_def by auto
      have tk: "tokens u = tokens t" unfolding u_def by (rule tokens_trim)
      then have "argv \<noteq> []" using s(3) tokens_nonempty[of t] ne by (auto simp: u_def)
      then have "msh_exec tab (t @ 0 # post) 0 (length t) = Some (Call (cmd_func x) argv, z @ t' @ 0 # post)"
        using tr ne n g w0 s(1) Some by (simp add: msh_exec_def msh_exec_cmd_def a)
      then show ?thesis using ne Some s(2,3) tk by (simp add: t)
    next
      case None
      let ?v = "takeWhile (\<lambda>c. c \<noteq> 32) u"
      let ?x = "dropWhile (\<lambda>c. c \<noteq> 32) u @ 0 # post"
      have v: "0 \<notin> set ?v" using nz set_takeWhileD[of 0 _ u] by blast
      have "(?v @ dropWhile (\<lambda>c. c \<noteq> 32) u) @ 0 # post = u @ 0 # post" by (simp only: takeWhile_dropWhile_id)
      then have "z @ ?v @ ?x = ?a" by (simp only: append_assoc)
      then have e: "?a[length z + length ?v := 0] = z @ ?v @ ?x[0 := 0]" using update_here[of z ?v ?x 0] by (simp only:)
      have "hd (?x[0 := 0]) = 0" by (cases ?x; simp)
      then have "cstr (?a[length z + length ?v := 0]) (length z) = ?v" unfolding e by (rule cstr_here[OF v disjI2])
      moreover have "first_space ?a (length z) = Some (length z + length ?v)" by (rule first_space_eq[OF nz])
      ultimately have "msh_exec tab (t @ 0 # post) 0 (length t) = Some (NotFound ?v, ?a[length z + length ?v := 0])"
        using tr ne n g w0 None by (simp add: msh_exec_def msh_exec_cmd_def msh_not_found_def a)
      then show ?thesis using ne None by (simp add: t)
    qed
  qed
qed

text \<open>No line stops the execution, even when the byte behind it is not zero, as long as two bytes follow it and
  one of them is zero.\<close>

definition keeps_zeros :: "u8 list \<Rightarrow> u8 list \<Rightarrow> bool" where
  "keeps_zeros a a' \<longleftrightarrow> length a' = length a \<and> (\<forall>i < length a. a ! i = 0 \<longrightarrow> a' ! i = 0)"

lemma keeps_zeros_refl: "keeps_zeros a a"
  by (simp add: keeps_zeros_def)

lemma keeps_zeros_update: "keeps_zeros (a[i := 0]) b \<Longrightarrow> keeps_zeros a b"
  by (cases "i < length a") (simp_all add: keeps_zeros_def nth_list_update)

lemma keeps_zeros_trans: "keeps_zeros a b \<Longrightarrow> keeps_zeros b c \<Longrightarrow> keeps_zeros a c"
  by (auto simp: keeps_zeros_def)

lemma keeps_zeros_behind:
  assumes "keeps_zeros a b" "0 \<in> set (drop p a)"
  shows "0 \<in> set (drop p b)"
proof -
  from assms(2) obtain i where "i < length a - p" "a ! (p + i) = 0" by (auto simp: in_set_conv_nth)
  with assms(1) have "i < length (drop p b)" "drop p b ! i = 0" by (auto simp: keeps_zeros_def)
  then show ?thesis by (metis nth_mem)
qed

lemma strip_safe:
  "p \<le> e \<Longrightarrow> e < length a \<Longrightarrow> \<exists>a' q. strip_blanks a p e = Some (a', q) \<and> keeps_zeros a a' \<and> p \<le> q \<and> q \<le> e \<and>
    (q < e \<longrightarrow> \<not> blank (a' ! q))"
proof (induction a p e rule: strip_blanks.induct)
  case (1 a p e)
  show ?case
  proof (cases "blank (a ! p) \<and> p < e")
    case True
    have g: "arr_get a p = Some (a ! p)" using "1.prems" by (simp add: arr_get_def)
    from "1.IH"[OF g True] True "1.prems"(2) obtain a' q where
      "strip_blanks (a[p := 0]) (p + 1) e = Some (a', q)" "keeps_zeros (a[p := 0]) a'" "p + 1 \<le> q" "q \<le> e"
      "q < e \<longrightarrow> \<not> blank (a' ! q)" by auto
    then show ?thesis using True g keeps_zeros_update by (subst strip_blanks.simps) auto
  next
    case False
    with "1.prems" keeps_zeros_refl show ?thesis by (subst strip_blanks.simps) (auto simp: arr_get_def)
  qed
qed

lemma string_safe: "p \<le> e + 1 \<Longrightarrow> e + 1 < length a \<Longrightarrow> \<exists>q. skip_string a p e = Some q \<and> p \<le> q \<and> q \<le> e + 1"
proof (induction a p e rule: skip_string.induct)
  case (1 a p e)
  show ?case
  proof (cases "a ! p \<noteq> 34 \<and> p < e")
    case True
    then have le: "(if a ! (p + 1) = 34 then p + 2 else p + 1) \<le> e + 1" "p + 1 \<le> e + 1" by simp_all
    have g: "arr_get a p = Some (a ! p)" "arr_get a (p + 1) = Some (a ! (p + 1))" using "1.prems" True by (simp_all add: arr_get_def)
    show ?thesis
    proof (cases "a ! p = 92")
      case esc: True
      from "1.IH"(1)[OF g(1) True esc g(2) le(1) "1.prems"(2)] obtain q where
        "skip_string a (if a ! (p + 1) = 34 then p + 2 else p + 1) e = Some q" "p + 1 \<le> q" "q \<le> e + 1"
        by (auto split: if_splits)
      then show ?thesis using True esc g by (subst skip_string.simps) simp
    next
      case False
      from "1.IH"(2)[OF g(1) True False le(2) "1.prems"(2)] obtain q where
        "skip_string a (p + 1) e = Some q" "p + 1 \<le> q" "q \<le> e + 1" by blast
      then show ?thesis using True False g by (subst skip_string.simps) simp
    qed
  next
    case False
    with "1.prems" show ?thesis by (subst skip_string.simps) (auto simp: arr_get_def)
  qed
qed

lemma word_safe:
  "p \<le> e \<Longrightarrow> e < length a \<Longrightarrow> \<exists>q. skip_word a p e = Some q \<and> p \<le> q \<and> q \<le> e \<and> (p < e \<and> \<not> blank (a ! p) \<longrightarrow> p < q)"
proof (induction a p e rule: skip_word.induct)
  case (1 a p e)
  show ?case
  proof (cases "\<not> blank (a ! p) \<and> p < e")
    case True
    have g: "arr_get a p = Some (a ! p)" using "1.prems" by (simp add: arr_get_def)
    from "1.IH"[OF g True] True "1.prems"(2) obtain q where "skip_word a (p + 1) e = Some q" "p + 1 \<le> q" "q \<le> e" by auto
    then show ?thesis using True g by (subst skip_word.simps) auto
  next
    case False
    with "1.prems" show ?thesis by (subst skip_word.simps) (auto simp: arr_get_def)
  qed
qed

lemma split_safe:
  "p \<le> e \<Longrightarrow> e + 1 < length a \<Longrightarrow> \<exists>a' argv'. split_loop e a p argv = Some (a', argv') \<and> keeps_zeros a a'"
proof (induction "e - p" arbitrary: a p argv rule: less_induct)
  case less
  show ?case
  proof (cases "p < e")
    case False
    then show ?thesis using keeps_zeros_refl by (subst split_loop.simps) simp
  next
    case True
    obtain b q where b: "strip_blanks a p e = Some (b, q)" "keeps_zeros a b" "p \<le> q" "q \<le> e" "q < e \<longrightarrow> \<not> blank (b ! q)"
      using strip_safe[of p e a] less.prems by auto
    have lb: "length b = length a" using b(2) by (simp add: keeps_zeros_def)
    then have g: "arr_get b q = Some (b ! q)" using b(4) less.prems(2) by (simp add: arr_get_def)
    consider "FINSH_ARG_MAX \<le> length argv \<or> e \<le> q" | "length argv < FINSH_ARG_MAX" "q < e" "b ! q = 34"
      | "length argv < FINSH_ARG_MAX" "q < e" "b ! q \<noteq> 34" by linarith
    then show ?thesis
    proof cases
      case 1
      then show ?thesis using True b(1,2) by (subst split_loop.simps) auto
    next
      case 2
      obtain r where r: "skip_string b (q + 1) e = Some r" "q + 1 \<le> r"
        using string_safe[of "q + 1" e b] 2 lb less.prems(2) by auto
      have "r < e \<Longrightarrow> \<exists>a' argv'. split_loop e (b[r := 0]) (r + 1) (argv @ [q + 1]) = Some (a', argv') \<and> keeps_zeros (b[r := 0]) a'"
        by (rule less.hyps) (use r b(3) lb True less.prems(2) in auto)
      then have "e \<le> r \<or> (\<exists>a' argv'. split_loop e (b[r := 0]) (r + 1) (argv @ [q + 1]) = Some (a', argv') \<and> keeps_zeros a a')"
        using keeps_zeros_trans[OF b(2)] keeps_zeros_update[of b r] by (metis not_le)
      then show ?thesis using True b(1,2) 2 g r(1) by (subst split_loop.simps) auto
    next
      case 3
      obtain r where r: "skip_word b q e = Some r" "q < r" using word_safe[of q e b] 3 b lb less.prems(2) by auto
      have "r < e \<Longrightarrow> \<exists>a' argv'. split_loop e b r (argv @ [q]) = Some (a', argv') \<and> keeps_zeros b a'"
        by (rule less.hyps) (use r b(3) lb True less.prems(2) in auto)
      then have "e \<le> r \<or> (\<exists>a' argv'. split_loop e b r (argv @ [q]) = Some (a', argv') \<and> keeps_zeros a a')"
        using keeps_zeros_trans[OF b(2)] by (metis not_le)
      then show ?thesis using True b(1,2) 3 g r(1) by (subst split_loop.simps) auto
    qed
  qed
qed

lemma space_safe: "0 \<in> set (drop p a) \<Longrightarrow> \<exists>q. first_space a p = Some q"
proof (induction a p rule: first_space.induct)
  case (1 a p)
  then have p: "p < length a" by (metis drop_all empty_iff list.set(1) not_le)
  have d: "drop p a = a ! p # drop (p + 1) a" using p by (simp add: Cons_nth_drop_Suc)
  show ?case
  proof (cases "a ! p \<noteq> 32 \<and> a ! p \<noteq> 0")
    case True
    have "0 \<in> set (drop (p + 1) a)" using "1.prems" True unfolding d by simp
    with "1.IH"[of "a ! p"] True p show ?thesis by (subst first_space.simps) (simp add: arr_get_def)
  next
    case False
    with p show ?thesis by (subst first_space.simps) (auto simp: arr_get_def)
  qed
qed

lemma exec_returns:
  assumes "0 \<notin> set t" "\<forall>x \<in> set tab. 0 \<notin> set (cmd_name x)" "2 \<le> length post" "0 \<in> set post"
  shows "\<exists>r a'. msh_exec tab (t @ post) 0 (length t) = Some (r, a') \<and> length a' = length (t @ post)"
proof -
  define z where "z = takeWhile blank t"
  define u where "u = dropWhile blank t"
  have t: "t = z @ u" by (simp add: z_def u_def)
  let ?a = "z @ u @ post" and ?w = "takeWhile (\<lambda>c. \<not> blank c) u" and ?d = "dropWhile (\<lambda>c. \<not> blank c) u"
  have tr: "trim_front (t @ post) 0 (length t) = Some (length z, length u)"
    using trim_eq[of "[]" t post] by (simp add: z_def u_def)
  have n: "cmd0_size ?a (length z) (length u) = Some (length ?w)" by (rule cmd0_eq)
  have "0 \<notin> set ?w" using assms(1) t set_takeWhileD[of 0 _ u] by auto
  moreover have "(?w @ ?d) @ post = u @ post" by (simp only: takeWhile_dropWhile_id)
  ultimately obtain f where g: "msh_get_cmd tab ?a (length z) (length ?w) = Some f"
    using get_cmd_eq[of ?w tab z "?d @ post"] assms(2) by (metis append_assoc)
  obtain a' argv where s: "msh_split ?a (length z) (length u) = Some (a', argv)" "keeps_zeros ?a a'"
    using split_safe[of "length z" "length z + length u" ?a "[]"] assms(3) by (auto simp: msh_split_def)
  have z0: "0 \<in> set (drop (length z) ?a)" using assms(4) by simp
  obtain p q where p: "first_space ?a (length z) = Some p" "first_space a' (length z) = Some q"
    using space_safe[OF z0] space_safe[OF keeps_zeros_behind[OF s(2) z0]] by blast
  have "length a' = length ?a" using s(2) by (simp add: keeps_zeros_def)
  then show ?thesis
    using tr n g s(1) p by (auto simp: msh_exec_def msh_exec_cmd_def msh_not_found_def t Let_def split: option.split)
qed

text \<open>The common prefixes of a set of names are the prefixes of one name, their longest common prefix.\<close>

definition is_lcp :: "u8 list list \<Rightarrow> u8 list \<Rightarrow> bool" where
  "is_lcp ms c \<longleftrightarrow> (\<forall>q. (\<forall>m \<in> set ms. prefix q m) \<longleftrightarrow> prefix q c)"

lemma str_common_prefix: "prefix q m \<and> prefix q x \<longleftrightarrow> prefix q (take (str_common m x) m)"
proof (induction m x arbitrary: q rule: str_common.induct)
  case (1 x xs y ys)
  then show ?case by (cases q) auto
qed auto

lemma prefix_take: "k \<le> length m \<Longrightarrow> prefix q (take k m) \<longleftrightarrow> prefix q m \<and> length q \<le> k"
proof (induction m arbitrary: q k)
  case (Cons y m)
  then show ?case by (cases q; cases k) auto
qed simp

lemma str_common_le: "str_common m x \<le> length m"
  by (induction m x rule: str_common.induct) auto

lemma is_lcp_step:
  assumes "is_lcp ms (take k m)" "k \<le> length m"
  shows "is_lcp (ms @ [x]) (take (min (str_common m x) k) m)"
proof -
  have "prefix q (take k m) \<and> prefix q x \<longleftrightarrow> prefix q (take (min (str_common m x) k) m)" for q
  proof -
    have "prefix q (take k m) \<and> prefix q x \<longleftrightarrow> (prefix q m \<and> prefix q x) \<and> length q \<le> k"
      using prefix_take[OF assms(2)] by blast
    also have "\<dots> \<longleftrightarrow> prefix q m \<and> length q \<le> str_common m x \<and> length q \<le> k"
      using str_common_prefix[of q m x] prefix_take[OF str_common_le[of m x]] by blast
    also have "\<dots> \<longleftrightarrow> prefix q (take (min (str_common m x) k) m)"
      using prefix_take[of "min (str_common m x) k" m q] assms(2) by auto
    finally show ?thesis .
  qed
  then show ?thesis using assms(1) by (auto simp: is_lcp_def)
qed

text \<open>The loop has seen the matches \<open>ms\<close>; a match is not empty because the text to complete is not.\<close>

lemma complete_loop_eq:
  assumes "s \<noteq> []" "0 \<notin> set s" "\<forall>x \<in> set xs. 0 \<notin> set x" "ms \<noteq> []" "\<forall>m \<in> set ms. prefix s m"
    and "is_lcp ms (take k m)" "k \<le> length m" "k > 0"
  shows "\<exists>k' \<le> length m. complete_loop (pre @ s @ x) (length pre) (length s) xs (Some m, k, ms) =
    Some (Some m, k', ms @ filter (prefix s) xs) \<and> is_lcp (ms @ filter (prefix s) xs) (take k' m)"
  using assms(3-)
proof (induction xs arbitrary: ms k)
  case Nil
  then show ?case by auto
next
  case (Cons y ys)
  have eq: "strncmp_equal y (pre @ s @ x) (length pre) (length s) = Some (prefix s y)"
    using strncmp_equal_eq[of y s pre x] Cons.prems(1) assms(2) by simp
  show ?case
  proof (cases "prefix s y")
    case True
    let ?k = "min (str_common m y) k"
    have l: "is_lcp (ms @ [y]) (take ?k m)" by (rule is_lcp_step[OF Cons.prems(4,5)])
    have "prefix s (take ?k m)" using l True Cons.prems(3) unfolding is_lcp_def by auto
    then have "?k > 0" using assms(1) prefix_length_le[of s "take ?k m"] by (cases s) auto
    then show ?thesis
      using Cons.IH[of "ms @ [y]" ?k] Cons.prems l True eq by (auto simp: Let_def)
  next
    case False
    then show ?thesis using Cons.IH[of ms k] Cons.prems eq by auto
  qed
qed

lemma is_lcp_one: "is_lcp [m] m"
  by (simp add: is_lcp_def)

lemma complete_loop_start:
  assumes "s \<noteq> []" "0 \<notin> set s" "\<forall>x \<in> set xs. 0 \<notin> set x"
  shows "case filter (prefix s) xs of
      [] \<Rightarrow> complete_loop (pre @ s @ x) (length pre) (length s) xs (None, 0, []) = Some (None, 0, [])
    | m # _ \<Rightarrow> \<exists>k' \<le> length m. complete_loop (pre @ s @ x) (length pre) (length s) xs (None, 0, []) =
        Some (Some m, k', filter (prefix s) xs) \<and> is_lcp (filter (prefix s) xs) (take k' m)"
  using assms(3)
proof (induction xs)
  case (Cons y ys)
  have eq: "strncmp_equal y (pre @ s @ x) (length pre) (length s) = Some (prefix s y)"
    using strncmp_equal_eq[of y s pre x] Cons.prems assms(2) by simp
  show ?case
  proof (cases "prefix s y")
    case True
    have "y \<noteq> []" using True assms(1) by auto
    moreover have "str_common y y = length y" by (induction y) simp_all
    ultimately show ?thesis
      using complete_loop_eq[of s ys "[y]" "length y" y pre x] assms(1,2) Cons.prems True eq is_lcp_one[of y]
      by (auto simp: Let_def)
  next
    case False
    then show ?thesis using Cons eq by (auto split: list.splits)
  qed
qed simp

lemma is_lcp_single: "is_lcp [m] c \<longleftrightarrow> c = m"
  by (auto simp: is_lcp_def intro: prefix_order.antisym)

text \<open>Completion. The names that continue the text at a position are shown, and the text is replaced by their longest
  common prefix, which continues it; without such a name the line stays as it is. The write is refused by the model
  exactly when it runs over the end of the array.\<close>
theorem completes_longest_prefix:
  assumes "s \<noteq> []" "0 \<notin> set s" "\<forall>x \<in> set names. 0 \<notin> set x"
  shows "if filter (prefix s) names = [] then complete_at (pre @ s @ 0 # post) (length pre) names = Some ([], pre @ s @ 0 # post)
    else \<exists>c. is_lcp (filter (prefix s) names) c \<and> prefix s c \<and>
      complete_at (pre @ s @ 0 # post) (length pre) names =
        (if length c \<le> length s + 1 + length post
         then Some (filter (prefix s) names, pre @ c @ drop (length c) (s @ 0 # post)) else None)"
proof -
  let ?ms = "filter (prefix s) names" and ?a = "pre @ s @ 0 # post"
  have n: "strlen_at ?a (length pre) = Some (length s)"
    using cstr_here[of s "0 # post" pre] assms(2) by (simp add: strlen_at_def)
  note L = complete_loop_start[OF assms, of pre "0 # post"]
  show ?thesis
  proof (cases ?ms)
    case Nil
    then show ?thesis using L n by (simp add: complete_at_def)
  next
    case (Cons m ms)
    with L obtain k where k: "k \<le> length m" "is_lcp ?ms (take k m)"
      "complete_loop ?a (length pre) (length s) names (None, 0, []) = Some (Some m, k, ?ms)" by auto
    have "\<forall>m \<in> set ?ms. prefix s m" by simp
    then have "prefix s (take k m)" using k(2) unfolding is_lcp_def by blast
    moreover have "arr_set ?a (length pre) (take k m) = (if length (take k m) \<le> length s + 1 + length post
        then Some (pre @ take k m @ drop (length (take k m)) (s @ 0 # post)) else None)"
      by (auto simp: arr_set_def)
    ultimately show ?thesis
      using n k(2,3) Cons by (intro if_not_P[THEN iffD2] exI[of _ "take k m"]) (simp_all add: complete_at_def)
  qed
qed

text \<open>The specification of both completions. A text is completed to the longest common prefix of the names that continue
  it, if there are any. The option completion works on the last word of a text of two words, with the options of the
  command named by the first; \<open>next_word\<close> is the rest of a text from its second word on.\<close>

definition completion :: "u8 list list \<Rightarrow> u8 list \<Rightarrow> u8 list \<Rightarrow> bool" where
  "completion names w c \<longleftrightarrow> (if filter (prefix w) names = [] then c = w else is_lcp (filter (prefix w) names) c)"

definition next_word :: "u8 list \<Rightarrow> u8 list" where
  "next_word s = dropWhile (\<lambda>c. c = 32) (dropWhile (\<lambda>c. c \<noteq> 32) s)"

definition option_names :: "finsh_syscall list \<Rightarrow> u8 list \<Rightarrow> u8 list list" where
  "option_names tab w = (case find (\<lambda>x. cmd_name x = w) tab of None \<Rightarrow> [] | Some x \<Rightarrow> map opt_name (cmd_opt x))"

definition option_completion :: "finsh_syscall list \<Rightarrow> u8 list \<Rightarrow> u8 list \<Rightarrow> bool" where
  "option_completion tab c t \<longleftrightarrow>
     (let w = next_word c
      in if w \<noteq> [] \<and> next_word w = []
         then \<exists>d. completion (option_names tab (takeWhile (\<lambda>c. c \<noteq> 32) c)) w d \<and> t = take (length c - length w) c @ d
         else t = c)"

lemma completion_prefix: "completion names w c \<Longrightarrow> prefix w c"
  by (auto simp: completion_def is_lcp_def split: if_splits)

lemma completion_of_name:
  assumes "completion names w c" "c \<noteq> w"
  obtains m where "m \<in> set names" "prefix c m"
proof -
  have l: "is_lcp (filter (prefix w) names) c" and "filter (prefix w) names \<noteq> []"
    using assms by (auto simp: completion_def split: if_splits)
  then obtain m where "m \<in> set (filter (prefix w) names)" by (cases "filter (prefix w) names") auto
  with l show ?thesis by (intro that[of m]) (auto simp: is_lcp_def)
qed

lemma completion_nonzero: "completion names w c \<Longrightarrow> 0 \<notin> set w \<Longrightarrow> \<forall>m \<in> set names. 0 \<notin> set m \<Longrightarrow> 0 \<notin> set c"
  by (cases "c = w") (auto elim!: completion_of_name dest: set_mono_prefix)

lemma complete_at_spec:
  assumes "s \<noteq> []" "0 \<notin> set s" "\<forall>x \<in> set names. 0 \<notin> set x"
  obtains c where "completion names s c" "complete_at (pre @ s @ 0 # post) (length pre) names =
    (if length c \<le> length s + 1 + length post
     then Some (filter (prefix s) names, pre @ c @ drop (length c) (s @ 0 # post)) else None)"
proof (cases "filter (prefix s) names = []")
  case True
  then show ?thesis
    using completes_longest_prefix[OF assms, of pre post] by (intro that[of s]) (simp_all add: completion_def)
next
  case False
  then obtain c where "is_lcp (filter (prefix s) names) c" "complete_at (pre @ s @ 0 # post) (length pre) names =
    (if length c \<le> length s + 1 + length post
     then Some (filter (prefix s) names, pre @ c @ drop (length c) (s @ 0 # post)) else None)"
    using completes_longest_prefix[OF assms, of pre post] by auto
  with False show ?thesis by (intro that[of c]) (simp_all only: completion_def if_False)
qed

subsection \<open>Counting words\<close>

lemma argc_skip: "c \<noteq> 32 \<Longrightarrow> argc_loop (c # s) i p = argc_loop s (i + 1) p"
  by (cases s; cases p) simp_all

lemma argc_word: "32 \<notin> set u \<Longrightarrow> argc_loop (u @ s) i p = argc_loop s (i + length u) p"
proof (induction u arbitrary: i)
  case (Cons c u)
  then show ?case using argc_skip[of c "u @ s" i p] by simp
qed simp

lemma argc_spaces:
  "r \<noteq> [] \<Longrightarrow> hd r \<noteq> 32 \<Longrightarrow>
    argc_loop (replicate (Suc k) 32 @ r) i (n, a) = argc_loop r (i + Suc k) (n + 1, i + Suc k)"
proof (induction k arbitrary: i)
  case 0
  then show ?case by (cases r) simp_all
next
  case (Suc k)
  then show ?case using Suc.IH[of "i + 1"] by simp
qed

lemma argc_end: "argc_loop (replicate k 32) i p = p"
proof (induction k arbitrary: i)
  case (Suc k)
  then show ?case by (cases k; cases p) simp_all
qed simp

lemma argc_more: "fst p \<le> fst (argc_loop s i p)"
  by (induction s i p rule: argc_loop.induct) (auto split: if_splits)

text \<open>A text is its first word, spaces, and the rest.\<close>

lemma next_word_split:
  obtains k where "s = takeWhile (\<lambda>c. c \<noteq> 32) s @ replicate k 32 @ next_word s" "next_word s \<noteq> [] \<Longrightarrow> 0 < k"
    "next_word s \<noteq> [] \<Longrightarrow> hd (next_word s) \<noteq> 32"
proof -
  let ?d = "dropWhile (\<lambda>c. c \<noteq> 32) s"
  define k where "k = length (takeWhile (\<lambda>c. c = 32) ?d)"
  have "\<forall>x \<in> set (takeWhile (\<lambda>c. c = 32) ?d). x = 32" by (auto dest: set_takeWhileD)
  then have r: "takeWhile (\<lambda>c. c = 32) ?d = replicate k 32" unfolding k_def by (rule replicate_length_same[symmetric])
  have "s = takeWhile (\<lambda>c. c \<noteq> 32) s @ takeWhile (\<lambda>c. c = 32) ?d @ next_word s" by (simp add: next_word_def)
  note this[unfolded r]
  moreover have "0 < k" if "next_word s \<noteq> []"
    using that hd_dropWhile[of "\<lambda>c. c \<noteq> 32" s] unfolding k_def by (cases ?d) (auto simp: next_word_def)
  moreover have "hd (next_word s) \<noteq> 32" if "next_word s \<noteq> []"
    using that hd_dropWhile[of "\<lambda>c. c = 32" ?d] by (simp add: next_word_def)
  ultimately show ?thesis by (rule that)
qed

lemma argc_next:
  "argc_loop s i (n, a) = (if next_word s = [] then (n, a)
     else let j = i + (length s - length (next_word s)) in argc_loop (next_word s) j (n + 1, j))"
proof -
  let ?w = "takeWhile (\<lambda>c. c \<noteq> 32) s"
  obtain k where k: "s = ?w @ replicate k 32 @ next_word s" "next_word s \<noteq> [] \<Longrightarrow> 0 < k"
    "next_word s \<noteq> [] \<Longrightarrow> hd (next_word s) \<noteq> 32" by (rule next_word_split[of s]) (rule that)
  have w: "32 \<notin> set ?w" using set_takeWhileD by fastforce
  have l: "length s = length ?w + k + length (next_word s)" using arg_cong[OF k(1), of length] by simp
  have "argc_loop s i (n, a) = argc_loop (replicate k 32 @ next_word s) (i + length ?w) (n, a)"
    using argc_word[OF w] k(1) by metis
  also have "\<dots> = (if next_word s = [] then (n, a)
     else let j = i + (length s - length (next_word s)) in argc_loop (next_word s) j (n + 1, j))"
  proof (cases "next_word s = []")
    case True
    then show ?thesis by (simp add: argc_end)
  next
    case False
    then obtain k' where "k = Suc k'" using k(2) gr0_implies_Suc by blast
    then show ?thesis
      using argc_spaces[OF False k(3)[OF False], of k'] False l by (simp add: Let_def add.assoc del: replicate_Suc)
  qed
  finally show ?thesis .
qed

subsection \<open>The options of a command\<close>

lemma opt_search_eq:
  assumes "0 \<notin> set w" "\<forall>x \<in> set tab. 0 \<notin> set (cmd_name x)"
  shows "opt_search tab (w @ y) (length w) =
    Some (case find (\<lambda>x. cmd_name x = w) tab of None \<Rightarrow> [] | Some x \<Rightarrow> cmd_opt x)"
  using assms(2)
proof (induction tab)
  case (Cons x tab)
  let ?n = "cmd_name x"
  have eq: "strncmp_equal ?n (w @ y) 0 (length w) = Some (prefix w ?n)"
    using strncmp_equal_eq[of ?n w "[]" y] assms(1) Cons.prems by simp
  show ?case
  proof (cases "prefix w ?n")
    case True
    then obtain z where z: "?n = w @ z" by (rule prefixE)
    have "arr_get (?n @ [0]) (length w) = Some (if z = [] then 0 else hd z)"
      by (cases z) (simp_all add: z arr_get_def nth_append)
    moreover have "hd z \<noteq> 0" if "z \<noteq> []" using that Cons.prems z by (cases z) auto
    ultimately show ?thesis using Cons eq True z by auto
  next
    case False
    then have "?n \<noteq> w" by auto
    then show ?thesis using Cons eq False by simp
  qed
qed simp

text \<open>The option completion has a value unless the completed option does not fit into the array.\<close>

lemma opt_completes:
  assumes "c \<noteq> []" "0 \<notin> set c" "\<forall>x \<in> set tab. 0 \<notin> set (cmd_name x) \<and> (\<forall>opt \<in> set (cmd_opt x). 0 \<notin> set (opt_name opt))"
  obtains t shown where "option_completion tab c t" "prefix c t" "0 \<notin> set t"
    "msh_opt_auto_complete tab (c @ 0 # z) =
      (if length t \<le> length c + 1 + length z then Some (shown, t @ drop (length t) (c @ 0 # z)) else None)"
proof -
  let ?a = "c @ 0 # z" and ?w = "takeWhile (\<lambda>c. c \<noteq> 32) c" and ?r = "next_word c"
  let ?opts = "case find (\<lambda>x. cmd_name x = ?w) tab of None \<Rightarrow> [] | Some x \<Rightarrow> cmd_opt x"
  have cs: "cstr ?a 0 = c" using cstr_here[OF assms(2), of "0 # z" "[]"] by simp
  then have n: "strlen_at ?a 0 = Some (length c)" by (simp add: strlen_at_def)
  have w0: "0 \<notin> set ?w" using assms(2) set_takeWhileD[of 0 _ c] by blast
  have names: "\<forall>x \<in> set tab. 0 \<notin> set (cmd_name x)" using assms(3) by blast
  have a: "?a = ?w @ (dropWhile (\<lambda>c. c \<noteq> 32) c @ 0 # z)" by (simp flip: append_assoc)
  have "opt_search tab ?a (length ?w) = Some ?opts" by (subst a) (rule opt_search_eq[OF w0 names])
  then have o: "msh_get_cmd_opt tab ?a = Some ?opts" using n by (simp add: msh_get_cmd_opt_def)
  have names_opts: "map opt_name ?opts = option_names tab ?w" by (simp add: option_names_def split: option.splits)
  have f: "msh_get_cmd tab ?a 0 (length c) \<noteq> None" using get_cmd_eq[OF assms(2) names, of "[]" "0 # z"] by simp
  have lc: "last_char ?a (length c) \<noteq> None" using assms(1) by (simp add: last_char_def arr_get_def)
  have argc: "msh_get_argc ?a = Some (argc_loop c 0 (0, 0))" using n cs by (simp add: msh_get_argc_def)
  note result = that
  have same: ?thesis if "option_completion tab c c" "msh_opt_auto_complete tab ?a = Some (sh, ?a)" for sh
    using that assms(2) by (intro result[of c sh]) simp_all
  consider (none) "?r = []" | (one) "?r \<noteq> []" "next_word ?r = []" | (more) "?r \<noteq> []" "next_word ?r \<noteq> []" by blast
  then show ?thesis
  proof cases
    case none
    then have "argc_loop c 0 (0, 0) = (0, 0)" by (subst argc_next) simp
    then have "\<exists>sh. msh_opt_auto_complete tab ?a = Some (sh, ?a)"
      using n argc o f lc by (auto simp: msh_opt_auto_complete_def)
    then show ?thesis using same none by (auto simp: option_completion_def)
  next
    case more
    let ?j = "length c - length ?r"
    have "argc_loop c 0 (0, 0) = argc_loop ?r ?j (1, ?j)" using more by (subst argc_next) (simp add: Let_def)
    moreover have "2 \<le> fst (argc_loop ?r ?j (1, ?j))"
      using more argc_more[of "(2, _)" "next_word ?r"] by (subst argc_next) (simp add: Let_def numeral_2_eq_2)
    ultimately have "2 \<le> fst (argc_loop c 0 (0, 0))" by simp
    then have "\<exists>sh. msh_opt_auto_complete tab ?a = Some (sh, ?a)"
      using n argc o by (auto simp: msh_opt_auto_complete_def split: prod.splits)
    then show ?thesis using same more by (auto simp: option_completion_def)
  next
    case one
    let ?j = "length c - length ?r"
    have "argc_loop c 0 (0, 0) = (1, ?j)"
      using one by (subst argc_next, subst argc_next) (simp add: Let_def)
    then have m: "msh_opt_auto_complete tab ?a = (if ?opts = [] then Some (None, ?a)
        else do { (out, a) \<leftarrow> complete_at ?a ?j (option_names tab ?w); Some (Some (Names out), a) })"
      using n argc o names_opts by (simp add: msh_opt_auto_complete_def)
    obtain k where k: "c = ?w @ replicate k 32 @ ?r" by (rule next_word_split[of c])
    define p where "p = ?w @ replicate k 32"
    have cp: "c = p @ ?r" using k by (simp add: p_def)
    then have j: "?j = length p" "take ?j c = p" by (metis add_diff_cancel_right' length_append, metis add_diff_cancel_right' append_eq_conv_conj length_append)
    have r0: "0 \<notin> set ?r" using assms(2) cp by (metis Un_iff set_append)
    have on: "\<forall>x \<in> set (option_names tab ?w). 0 \<notin> set x"
    proof (cases "find (\<lambda>x. cmd_name x = ?w) tab")
      case (Some x)
      then have "x \<in> set tab" by (auto simp: find_Some_iff)
      then show ?thesis using Some assms(3) by (simp add: option_names_def)
    qed (simp add: option_names_def)
    obtain d where d: "completion (option_names tab ?w) ?r d" "complete_at (p @ ?r @ 0 # z) (length p) (option_names tab ?w) =
        (if length d \<le> length ?r + 1 + length z
         then Some (filter (prefix ?r) (option_names tab ?w), p @ d @ drop (length d) (?r @ 0 # z)) else None)"
      by (rule complete_at_spec[OF one(1) r0 on])
    have oc: "option_completion tab c (p @ d)" using one d(1) j(2) by (auto simp: option_completion_def Let_def)
    have "prefix c (p @ d)" using cp completion_prefix[OF d(1)] by (metis same_prefix_prefix)
    moreover have "0 \<notin> set (p @ d)"
      using assms(2) cp completion_nonzero[OF d(1) r0 on] by (metis Un_iff set_append)
    moreover have "\<exists>sh. msh_opt_auto_complete tab ?a =
        (if length (p @ d) \<le> length c + 1 + length z then Some (sh, (p @ d) @ drop (length (p @ d)) ?a) else None)"
    proof (cases "?opts = []")
      case True
      then have "option_names tab ?w = []" using names_opts by simp
      then have "d = ?r" using d(1) by (simp add: completion_def)
      then have "p @ d = c" using cp by simp
      then show ?thesis using m True by (simp only: if_True) simp
    next
      case False
      have eq: "p @ ?r @ 0 # z = ?a" by (subst cp) simp
      have l: "length c = length p + length ?r" using cp length_append by metis
      have dr: "drop (length (p @ d)) ?a = drop (length d) (?r @ 0 # z)" unfolding eq[symmetric] by simp
      have "complete_at ?a ?j (option_names tab ?w) = (if length (p @ d) \<le> length c + 1 + length z
         then Some (filter (prefix ?r) (option_names tab ?w), (p @ d) @ drop (length (p @ d)) ?a) else None)"
        using d(2) unfolding j(1) eq dr l by simp
      then show ?thesis using m False by (simp only: if_False) simp
    qed
    ultimately show ?thesis using oc result by blast
  qed
qed

text \<open>The hexadecimal digits of a number, the letters in upper or lower case.\<close>

definition hex_digit :: "bool \<Rightarrow> nat \<Rightarrow> u8" where
  "hex_digit upper n = (if n < 10 then 48 + of_nat n else (if upper then 55 else 87) + of_nat n)"

fun hex_digits :: "bool \<Rightarrow> nat \<Rightarrow> u8 list" where
  "hex_digits upper n = (if n < 16 then [hex_digit upper n] else hex_digits upper (n div 16) @ [hex_digit upper (n mod 16)])"

declare hex_digits.simps [simp del]

lemma below_16: "n < 16 \<Longrightarrow> P 0 \<Longrightarrow> P 1 \<Longrightarrow> P 2 \<Longrightarrow> P 3 \<Longrightarrow> P 4 \<Longrightarrow> P 5 \<Longrightarrow> P 6 \<Longrightarrow> P 7 \<Longrightarrow> P 8 \<Longrightarrow> P 9 \<Longrightarrow>
  P 10 \<Longrightarrow> P 11 \<Longrightarrow> P 12 \<Longrightarrow> P 13 \<Longrightarrow> P 14 \<Longrightarrow> P 15 \<Longrightarrow> P (n :: nat)"
  by (simp add: eval_nat_numeral less_Suc_eq) blast

lemma hex_digit_facts:
  assumes "n < 16"
  shows "strtohex_step v (hex_digit upper n) = v * 16 + of_nat n" "isxdigit (tolower (hex_digit upper n))"
  by (cases upper; rule below_16[OF assms, where P = "\<lambda>n. strtohex_step v (hex_digit upper n) = v * 16 + of_nat n"];
      simp add: strtohex_step_def hex_digit_def)
    (cases upper; rule below_16[OF assms, where P = "\<lambda>n. isxdigit (tolower (hex_digit upper n))"]; simp add: hex_digit_def)

text \<open>Numbers: an integer written in hexadecimal behind \<open>0x\<close> is recognised and read back modulo \<open>2 ^ 32\<close>.\<close>
theorem hex_reads_back:
  "msh_ishex ([48, 120] @ hex_digits upper n) \<and> msh_strtohex ([48, 120] @ hex_digits upper n) = of_nat n"
proof -
  have "foldl strtohex_step 0 (hex_digits upper n) = of_nat n \<and> list_all (\<lambda>c. isxdigit (tolower c)) (hex_digits upper n)"
  proof (induction upper n rule: hex_digits.induct)
    case (1 upper n)
    show ?case
    proof (cases "n < 16")
      case True
      then show ?thesis using hex_digit_facts(1)[of n 0 upper] hex_digit_facts(2)[of n upper] by (subst (1 2) hex_digits.simps) simp
    next
      case False
      have m: "n mod 16 < 16" by simp
      have "of_nat (n div 16) * 16 + of_nat (n mod 16) = (of_nat n :: u32)"
        by (metis div_mult_mod_eq of_nat_add of_nat_mult of_nat_numeral)
      then show ?thesis
        using 1[OF False] False hex_digit_facts(1)[OF m, of "of_nat (n div 16)" upper] hex_digit_facts(2)[OF m, of upper]
        by (subst (1 2) hex_digits.simps) simp
    qed
  qed
  then show ?thesis by (simp add: msh_ishex_def msh_strtohex_def)
qed

text \<open>\<open>msh_ishex\<close> accepts \<open>0x\<close> without a digit, \<open>msh_isint\<close> a sign without a digit.\<close>
theorem numbers_without_digits: "msh_ishex [48, 120] \<and> msh_isint [45] \<and> msh_isint [43]"
  by (simp add: msh_ishex_def msh_isint_def)

section \<open>Completion outside the line\<close>

text \<open>Completion of an option reads in front of the line when the line is empty, so in the model it has no value: the
  code compares \<open>prefix[strlen(prefix) - 1]\<close>, the byte before the array, with a space.\<close>
theorem tab_reads_before_line:
  assumes "\<forall>x \<in> set tab. cmd_name x \<noteq> [] \<and> 0 \<notin> set (cmd_name x)"
  shows "msh_opt_auto_complete tab (0 # post) = None"
proof -
  have "msh_get_cmd tab (0 # post) 0 0 = Some None"
    using assms
  proof (induction tab)
    case (Cons x tab)
    then show ?case by (cases "cmd_name x") (auto simp: arr_get_def)
  qed simp
  then show ?thesis
    by (simp add: msh_opt_auto_complete_def msh_get_argc_def strlen_at_def cstr_def last_char_def)
qed

theorem tab_reads_before_line_witness:
  "msh_opt_auto_complete [\<lparr>cmd_name = [112, 115], cmd_opt = [], cmd_func = 1\<rparr>] [0, 0, 0] = None"
  by (rule tab_reads_before_line) simp

text \<open>A line of 79 characters whose last word begins an option of the command: the completed option is written over the end
  of the array of 81 bytes.\<close>

definition long_option_line :: "u8 list" where
  "long_option_line = [112, 115] @ replicate 76 32 @ [45, 0, 0]"

definition option_table :: "finsh_syscall list" where
  "option_table = [\<lparr>cmd_name = [112, 115], cmd_opt = [\<lparr>opt_id = 1, opt_name = [45, 45, 104, 101, 108, 112]\<rparr>], cmd_func = 1\<rparr>]"

theorem option_completion_overruns:
  "length long_option_line = 81 \<and> msh_opt_auto_complete option_table long_option_line = None"
proof -
  have s: "cstr long_option_line 0 = [112, 115] @ replicate 76 32 @ [45]"
    by (simp add: cstr_def long_option_line_def takeWhile_append takeWhile_replicate)
  have n: "strlen_at long_option_line 0 = Some 79" using s by (simp add: strlen_at_def long_option_line_def)
  have sp: "argc_loop (replicate (Suc m) 32 @ [45]) i r = (fst r + 1, i + Suc m)" for m i r
  proof (induction m arbitrary: i r)
    case 0
    then show ?case by (cases r) simp
  next
    case (Suc m)
    then show ?case by (cases r) simp
  qed
  then have "argc_loop ([112, 115] @ replicate (Suc m) 32 @ [45]) 0 (0, 0) = (1, m + 3)" for m
    using sp[of m 2 "(0, 0)"] by simp
  from this[of 75] have "argc_loop (cstr long_option_line 0) 0 (0, 0) = (1, 78)" by (simp add: s)
  then have argc: "msh_get_argc long_option_line = Some (1, 78)" using n by (simp add: msh_get_argc_def)
  have "takeWhile (\<lambda>c. c \<noteq> 32) (take 79 long_option_line) = [112, 115]"
    by (simp add: long_option_line_def)
  then have opt: "msh_get_cmd_opt option_table long_option_line = Some (cmd_opt (hd option_table))"
    using n by (simp add: msh_get_cmd_opt_def option_table_def arr_get_def long_option_line_def)
  have "long_option_line = ([112, 115] @ replicate 76 32) @ [45] @ 0 # [0]" by (simp add: long_option_line_def)
  then have "complete_at long_option_line 78 [[45, 45, 104, 101, 108, 112]] = None"
    using completes_longest_prefix[of "[45]" "[[45, 45, 104, 101, 108, 112]]" "[112, 115] @ replicate 76 32" "[0]"]
    by (simp add: is_lcp_single)
  then show ?thesis
    using argc opt n by (simp add: msh_opt_auto_complete_def option_table_def long_option_line_def)
qed

section \<open>Witnesses\<close>

text \<open>The line \<open>ps  "a b" c\<close>.\<close>

definition example_line :: "u8 list" where
  "example_line = [112, 115, 32, 32, 34, 97, 32, 98, 34, 32, 99]"

lemma example_tokens: "tokens example_line = [[112, 115], [97, 32, 98], [99]]"
  by (simp add: example_line_def tokens.simps)

theorem split_finds_words_witness:
  "\<exists>t' argv. msh_split (example_line @ [0, 0]) 0 11 = Some (t' @ [0, 0], argv) \<and>
     map (cstr (t' @ [0, 0])) argv = [[112, 115], [97, 32, 98], [99]]"
proof -
  have l: "0 \<notin> set example_line" "length example_line = 11" by (simp_all add: example_line_def)
  from split_finds_words[OF l(1), of "[]" "[0]"] show ?thesis by (auto simp: l(2) example_tokens)
qed

theorem exec_calls_command_witness:
  "\<exists>a' argv. msh_exec option_table (example_line @ [0]) 0 11 = Some (Call 1 argv, a') \<and>
     map (cstr a') argv = [[112, 115], [97, 32, 98], [99]]"
proof -
  have l: "0 \<notin> set example_line" "length example_line = 11" "dropWhile blank example_line = example_line"
    "takeWhile (\<lambda>c. \<not> blank c) example_line = [112, 115]" "example_line \<noteq> []"
    by (simp_all add: example_line_def)
  have t: "\<forall>x \<in> set option_table. 0 \<notin> set (cmd_name x)" by (simp add: option_table_def)
  have f: "find (\<lambda>x. cmd_name x = [112, 115]) option_table = Some (hd option_table)" "cmd_func (hd option_table) = 1"
    by (simp_all add: option_table_def)
  from exec_calls_command[OF l(1) t, of "[]"] show ?thesis
    unfolding l(2-4) f by (auto simp: l(5) f example_tokens)
qed

theorem completes_longest_prefix_witness:
  "complete_at [112, 0, 0, 0] 0 [[112, 105, 110], [112, 105, 112], [120]] =
     Some ([[112, 105, 110], [112, 105, 112]], [112, 105, 0, 0])"
proof -
  have f: "filter (prefix [112]) [[112, 105, 110], [112, 105, 112], [120]] = [[112, 105, 110], [112, 105, 112 :: u8]]" by simp
  have "is_lcp [[112, 105, 110], [112, 105, 112]] ([112, 105] :: u8 list)"
    using is_lcp_step[of "[[112, 105, 110]]" 3 "[112, 105, 110]" "[112, 105, 112]"] is_lcp_one by simp
  then have u: "is_lcp [[112, 105, 110], [112, 105, 112]] c \<longleftrightarrow> c = ([112, 105] :: u8 list)" for c
    unfolding is_lcp_def by (meson prefix_order.antisym prefix_order.refl)
  from completes_longest_prefix[of "[112]" "[[112, 105, 110], [112, 105, 112], [120]]" "[]" "[0, 0]"]
  show ?thesis unfolding f u by simp
qed

end
