(* ===== verification/Shell.thy ===== *)
theory Shell
  imports Msh
begin

text \<open>
  The line editor of the shell, \<open>components/finsh/shell.c\<close>: the bytes from the console, with the keys that arrive as
  sequences of three bytes, edit a line, recall lines that were entered before, complete names and execute the
  line. What the editor prints is part of the result. The device it reads from is not modelled: a key is one byte.
\<close>

section \<open>State\<close>

abbreviation FINSH_CMD_SIZE :: nat where "FINSH_CMD_SIZE \<equiv> 80"
abbreviation FINSH_HISTORY_LINES :: nat where "FINSH_HISTORY_LINES \<equiv> 5"

datatype input_stat = WAIT_NORMAL | WAIT_SPEC_KEY | WAIT_FUNC_KEY

record finsh_shell =
  shell_stat :: input_stat
  echo_mode :: bool
  prompt_mode :: bool
  current_history :: "16 word"
  history_count :: "16 word"
  cmd_history :: "u8 list list"
  line :: "u8 list"
  line_position :: "16 word"
  line_curpos :: "16 word"

text \<open>The shell after \<open>rt_calloc\<close>, with the modes that \<open>finsh_system_init\<close> and \<open>finsh_thread_entry\<close> set.\<close>

definition shell_init :: finsh_shell where
  "shell_init = \<lparr>shell_stat = WAIT_NORMAL, echo_mode = True, prompt_mode = True, current_history = 0, history_count = 0,
     cmd_history = replicate FINSH_HISTORY_LINES (replicate FINSH_CMD_SIZE 0),
     line = replicate (FINSH_CMD_SIZE + 1) 0, line_position = 0, line_curpos = 0\<rparr>"

text \<open>The effects of a key in their order: bytes printed, names shown by a completion, and a line executed, with the array
  of the line as the function that is called sees it: its arguments are indices into this array.\<close>

datatype effect = Print "u8 list" | Shown shown | Exec msh_result "u8 list"

text \<open>\<open>rt_kprintf\<close> hands a text of at most 126 bytes to the console as it is.\<close>

definition kputs :: "u8 list \<Rightarrow> effect" where
  "kputs t = Print (if length t \<le> 126 then t else take 126 t @ [0])"

definition arr_read :: "u8 list \<Rightarrow> nat \<Rightarrow> nat \<Rightarrow> u8 list option" where
  "arr_read a i n = (if i + n \<le> length a then Some (take n (drop i a)) else None)"

definition string_at :: "u8 list \<Rightarrow> nat \<Rightarrow> u8 list option" where
  "string_at a i = do { _ \<leftarrow> strlen_at a i; Some (cstr a i) }"

section \<open>Modes and prompt\<close>

text \<open>The modes are bit fields of one bit.\<close>

definition finsh_set_prompt_mode :: "u32 \<Rightarrow> finsh_shell \<Rightarrow> finsh_shell" where
  "finsh_set_prompt_mode mode sh = sh\<lparr>prompt_mode := bit mode 0\<rparr>"

definition finsh_get_prompt_mode :: "finsh_shell \<Rightarrow> u32" where
  "finsh_get_prompt_mode sh = of_bool (prompt_mode sh)"

definition finsh_set_echo :: "u32 \<Rightarrow> finsh_shell \<Rightarrow> finsh_shell" where
  "finsh_set_echo echo sh = sh\<lparr>echo_mode := bit echo 0\<rparr>"

definition finsh_get_echo :: "finsh_shell \<Rightarrow> u32" where
  "finsh_get_echo sh = of_bool (echo_mode sh)"

text \<open>The custom prompt, if there is one; \<open>mem\<close> says whether its allocation succeeds.\<close>

definition finsh_set_prompt :: "bool \<Rightarrow> u8 list option \<Rightarrow> u8 list option" where
  "finsh_set_prompt mem prompt = (case prompt of None \<Rightarrow> None | Some p \<Rightarrow> if mem then Some p else None)"

text \<open>The prompt is made in a static array of 129 bytes; \<open>strncpy\<close> pads with zero bytes, \<open>strcat\<close> appends.\<close>

definition finsh_get_prompt :: "u8 list option \<Rightarrow> finsh_shell \<Rightarrow> u8 list \<Rightarrow> u8 list option" where
  "finsh_get_prompt custom sh buf =
     (if \<not> prompt_mode sh then arr_set buf 0 [0]
      else do {
        buf \<leftarrow> (case custom of
                  Some p \<Rightarrow> arr_set buf 0 (take 128 p @ replicate (128 - length p) 0)
                | None \<Rightarrow> arr_set buf 0 [109, 115, 104, 32, 0]);
        n \<leftarrow> strlen_at buf 0;
        arr_set buf n [62, 0] })"

section \<open>History\<close>

definition hist_get :: "nat \<Rightarrow> finsh_shell \<Rightarrow> u8 list option" where
  "hist_get i sh = (if i < length (cmd_history sh) then Some (cmd_history sh ! i) else None)"

definition history_entry :: "finsh_shell \<Rightarrow> u8 list option" where
  "history_entry sh =
     (let n = unat (line_position sh) in
      if n \<le> FINSH_CMD_SIZE then Some (take n (line sh) @ replicate (FINSH_CMD_SIZE - n) 0) else None)"

definition shell_push_history :: "finsh_shell \<Rightarrow> finsh_shell option" where
  "shell_push_history sh =
     do { sh \<leftarrow>
            (if line_position sh = 0 then Some sh
             else if FINSH_HISTORY_LINES \<le> unat (history_count sh) then do {
               last \<leftarrow> hist_get (FINSH_HISTORY_LINES - 1) sh;
               if last \<noteq> take FINSH_CMD_SIZE (line sh) then do {
                 e \<leftarrow> history_entry sh;
                 Some (sh\<lparr>cmd_history := tl (cmd_history sh) @ [e], history_count := of_nat FINSH_HISTORY_LINES\<rparr>) }
               else Some sh }
             else do {
               same \<leftarrow> (if history_count sh = 0 then Some False
                        else do { last \<leftarrow> hist_get (unat (history_count sh) - 1) sh;
                                  Some (last = take FINSH_CMD_SIZE (line sh)) });
               if same then Some sh
               else do {
                 e \<leftarrow> history_entry sh;
                 Some (sh\<lparr>cmd_history := (cmd_history sh)[unat (history_count sh) := e],
                          history_count := history_count sh + 1\<rparr>) } });
          Some (sh\<lparr>current_history := history_count sh\<rparr>) }"

definition shell_handle_history :: "u8 list \<Rightarrow> finsh_shell \<Rightarrow> effect list" where
  "shell_handle_history prompt sh = [kputs [27, 91, 50, 75, 13], kputs (prompt @ cstr (line sh) 0)]"

definition copy_history :: "u8 list \<Rightarrow> finsh_shell \<Rightarrow> (finsh_shell \<times> effect list) option" where
  "copy_history prompt sh =
     do { h \<leftarrow> hist_get (unat (current_history sh)) sh;
          l \<leftarrow> arr_set (line sh) 0 h;
          n \<leftarrow> strlen_at l 0;
          let sh = sh\<lparr>line := l, line_position := of_nat n, line_curpos := of_nat n\<rparr>;
          Some (sh, shell_handle_history prompt sh) }"

section \<open>Keys\<close>

definition up_key :: "u8 list \<Rightarrow> finsh_shell \<Rightarrow> (finsh_shell \<times> effect list) option" where
  "up_key prompt sh =
     (if current_history sh > 0 then copy_history prompt (sh\<lparr>current_history := current_history sh - 1\<rparr>)
      else Some (sh\<lparr>current_history := 0\<rparr>, []))"

definition down_key :: "u8 list \<Rightarrow> finsh_shell \<Rightarrow> (finsh_shell \<times> effect list) option" where
  "down_key prompt sh =
     (if int (unat (current_history sh)) < int (unat (history_count sh)) - 1
      then copy_history prompt (sh\<lparr>current_history := current_history sh + 1\<rparr>)
      else if history_count sh \<noteq> 0 then copy_history prompt (sh\<lparr>current_history := history_count sh - 1\<rparr>)
      else Some (sh, []))"

definition left_key :: "finsh_shell \<Rightarrow> finsh_shell \<times> effect list" where
  "left_key sh = (if line_curpos sh \<noteq> 0 then (sh\<lparr>line_curpos := line_curpos sh - 1\<rparr>, [kputs [8]]) else (sh, []))"

definition right_key :: "finsh_shell \<Rightarrow> (finsh_shell \<times> effect list) option" where
  "right_key sh =
     (if line_curpos sh < line_position sh
      then do { c \<leftarrow> arr_get (line sh) (unat (line_curpos sh));
                Some (sh\<lparr>line_curpos := line_curpos sh + 1\<rparr>, [kputs [c]]) }
      else Some (sh, []))"

definition tab_key :: "finsh_syscall list \<Rightarrow> u8 list \<Rightarrow> finsh_shell \<Rightarrow> (finsh_shell \<times> effect list) option" where
  "tab_key tab prompt sh =
     do { let back = replicate (unat (line_curpos sh)) (kputs [8]);
          (shown, l) \<leftarrow> msh_auto_complete tab (line sh);
          (opt_shown, l) \<leftarrow> msh_opt_auto_complete tab l;
          s \<leftarrow> string_at l 0;
          let n = of_nat (length s);
          Some (sh\<lparr>line := l, line_position := n, line_curpos := n\<rparr>,
            back @ [kputs [10], Shown shown] @ (case opt_shown of None \<Rightarrow> [] | Some x \<Rightarrow> [Shown x]) @ [kputs (prompt @ s)]) }"

definition backspace_key :: "finsh_shell \<Rightarrow> (finsh_shell \<times> effect list) option" where
  "backspace_key sh =
     (if line_curpos sh = 0 then Some (sh, [])
      else do {
        let sh = sh\<lparr>line_position := line_position sh - 1, line_curpos := line_curpos sh - 1\<rparr>;
        let p = unat (line_position sh);
        let c = unat (line_curpos sh);
        if c < p then do {
          rest \<leftarrow> arr_read (line sh) (c + 1) (p - c);
          l \<leftarrow> arr_set (line sh) c rest;
          l \<leftarrow> arr_set l p [0];
          s \<leftarrow> string_at l c;
          Some (sh\<lparr>line := l\<rparr>, kputs ([8] @ s @ [32, 32, 8]) # replicate (p - c + 1) (kputs [8])) }
        else do {
          l \<leftarrow> arr_set (line sh) p [0];
          Some (sh\<lparr>line := l\<rparr>, [kputs [8, 32, 8]]) } })"

definition enter_key :: "finsh_syscall list \<Rightarrow> u8 list \<Rightarrow> finsh_shell \<Rightarrow> (finsh_shell \<times> effect list) option" where
  "enter_key tab prompt sh =
     do { sh \<leftarrow> shell_push_history sh;
          (r, l) \<leftarrow> msh_exec tab (line sh) 0 (unat (line_position sh));
          Some (sh\<lparr>line := replicate (length l) 0, line_position := 0, line_curpos := 0\<rparr>,
            (if echo_mode sh then [kputs [10]] else []) @ [Exec r l, kputs prompt]) }"

definition insert_key :: "u8 \<Rightarrow> finsh_shell \<Rightarrow> (finsh_shell \<times> effect list) option" where
  "insert_key ch sh =
     do { let sh = (if FINSH_CMD_SIZE \<le> unat (line_position sh) then sh\<lparr>line_position := 0\<rparr> else sh);
          let p = unat (line_position sh);
          let c = unat (line_curpos sh);
          (l, out) \<leftarrow>
            (if c < p then do {
               rest \<leftarrow> arr_read (line sh) c (p - c);
               l \<leftarrow> arr_set (line sh) (c + 1) rest;
               l \<leftarrow> arr_set l c [ch];
               s \<leftarrow> string_at l c;
               Some (l, (if echo_mode sh then [kputs s] else []) @ replicate (p - c) (kputs [8])) }
             else do {
               l \<leftarrow> arr_set (line sh) p [ch];
               Some (l, if echo_mode sh then [kputs [ch]] else []) });
          let sh = sh\<lparr>line := l, line_position := line_position sh + 1, line_curpos := line_curpos sh + 1\<rparr>;
          let sh = (if FINSH_CMD_SIZE \<le> unat (line_position sh) then sh\<lparr>line_position := 0, line_curpos := 0\<rparr> else sh);
          Some (sh, out) }"

text \<open>The part of the loop that is common to all bytes that are not control keys.\<close>

definition plain_key :: "finsh_syscall list \<Rightarrow> u8 list \<Rightarrow> u8 \<Rightarrow> finsh_shell \<Rightarrow> (finsh_shell \<times> effect list) option" where
  "plain_key tab prompt ch sh =
     (if ch = 0 \<or> ch = 0xFF then Some (sh, [])
      else if ch = 9 then tab_key tab prompt sh
      else if ch = 0x7F \<or> ch = 8 then backspace_key sh
      else if ch = 13 \<or> ch = 10 then enter_key tab prompt sh
      else insert_key ch sh)"

text \<open>One pass of the loop of \<open>finsh_thread_entry\<close>.\<close>

definition finsh_key :: "finsh_syscall list \<Rightarrow> u8 list \<Rightarrow> u8 \<Rightarrow> finsh_shell \<Rightarrow> (finsh_shell \<times> effect list) option" where
  "finsh_key tab prompt ch sh =
     (if ch = 0x1B then Some (sh\<lparr>shell_stat := WAIT_SPEC_KEY\<rparr>, [])
      else if shell_stat sh = WAIT_SPEC_KEY then
        if ch = 0x5B then Some (sh\<lparr>shell_stat := WAIT_FUNC_KEY\<rparr>, [])
        else plain_key tab prompt ch (sh\<lparr>shell_stat := WAIT_NORMAL\<rparr>)
      else if shell_stat sh = WAIT_FUNC_KEY then
        (let sh = sh\<lparr>shell_stat := WAIT_NORMAL\<rparr> in
         if ch = 0x41 then up_key prompt sh
         else if ch = 0x42 then down_key prompt sh
         else if ch = 0x44 then Some (left_key sh)
         else if ch = 0x43 then right_key sh
         else plain_key tab prompt ch sh)
      else plain_key tab prompt ch sh)"

text \<open>A sequence of bytes from the console.\<close>

fun finsh_keys :: "finsh_syscall list \<Rightarrow> u8 list \<Rightarrow> u8 list \<Rightarrow> finsh_shell \<Rightarrow> (finsh_shell \<times> effect list) option" where
  "finsh_keys tab prompt [] sh = Some (sh, [])"
| "finsh_keys tab prompt (ch # chs) sh =
     do { (sh, out) \<leftarrow> finsh_key tab prompt ch sh;
          (sh, out') \<leftarrow> finsh_keys tab prompt chs sh;
          Some (sh, out @ out') }"

section \<open>The editor as its user sees it\<close>

text \<open>The text before and after the cursor, the lines entered before, the position among them, and whether the array
  still holds an older line behind the text because that line was too long.\<close>

record ed =
  ed_stat :: input_stat
  before :: "u8 list"
  after :: "u8 list"
  past :: "u8 list list"
  past_pos :: nat
  stale :: bool

datatype key = NoKey | Char u8 | Backspace | ToLeft | ToRight | Up | Down | Enter

definition plain :: "u8 \<Rightarrow> key" where
  "plain ch = (if ch = 0 \<or> ch = 0xFF then NoKey else if ch = 0x7F \<or> ch = 8 then Backspace
     else if ch = 13 \<or> ch = 10 then Enter else Char ch)"

text \<open>The escape sequences.\<close>

definition decode :: "input_stat \<Rightarrow> u8 \<Rightarrow> input_stat \<times> key" where
  "decode st ch =
     (if ch = 0x1B then (WAIT_SPEC_KEY, NoKey)
      else if st = WAIT_SPEC_KEY \<and> ch = 0x5B then (WAIT_FUNC_KEY, NoKey)
      else if st = WAIT_FUNC_KEY \<and> ch = 0x41 then (WAIT_NORMAL, Up)
      else if st = WAIT_FUNC_KEY \<and> ch = 0x42 then (WAIT_NORMAL, Down)
      else if st = WAIT_FUNC_KEY \<and> ch = 0x43 then (WAIT_NORMAL, ToRight)
      else if st = WAIT_FUNC_KEY \<and> ch = 0x44 then (WAIT_NORMAL, ToLeft)
      else (WAIT_NORMAL, plain ch))"

abbreviation ed_text :: "ed \<Rightarrow> u8 list" where "ed_text e \<equiv> before e @ after e"

definition recall :: "nat \<Rightarrow> ed \<Rightarrow> ed" where
  "recall i e = e\<lparr>before := past e ! i, after := [], past_pos := i, stale := False\<rparr>"

definition enter :: "ed \<Rightarrow> ed" where
  "enter e =
     (let t = ed_text e;
          p = (if t = [] \<or> \<not> stale e \<and> past e \<noteq> [] \<and> last (past e) = t then past e
               else (if length (past e) < FINSH_HISTORY_LINES then past e else tl (past e)) @ [t])
      in e\<lparr>before := [], after := [], past := p, past_pos := length p, stale := False\<rparr>)"

fun ed_key :: "key \<Rightarrow> ed \<Rightarrow> ed" where
  "ed_key NoKey e = e"
| "ed_key (Char c) e =
     (if length (ed_text e) = FINSH_CMD_SIZE - 1 then e\<lparr>before := [], after := [], stale := True\<rparr>
      else e\<lparr>before := before e @ [c]\<rparr>)"
| "ed_key Backspace e = e\<lparr>before := butlast (before e)\<rparr>"
| "ed_key ToLeft e =
     (if before e = [] then e else e\<lparr>before := butlast (before e), after := last (before e) # after e\<rparr>)"
| "ed_key ToRight e = (if after e = [] then e else e\<lparr>before := before e @ [hd (after e)], after := tl (after e)\<rparr>)"
| "ed_key Up e = (if past_pos e = 0 then e else recall (past_pos e - 1) e)"
| "ed_key Down e = (if past e = [] then e else recall (min (past_pos e + 1) (length (past e) - 1)) e)"
| "ed_key Enter e = enter e"

definition ed_byte :: "u8 \<Rightarrow> ed \<Rightarrow> ed" where
  "ed_byte ch e = (let (st, k) = decode (ed_stat e) ch in ed_key k (e\<lparr>ed_stat := st\<rparr>))"

section \<open>The code implements the editor\<close>

text \<open>A line: the text, what lies behind it, and the last two bytes, which show whether the line is stale.\<close>

definition line_rel :: "u8 list \<Rightarrow> u8 list \<Rightarrow> bool \<Rightarrow> u8 list \<Rightarrow> bool" where
  "line_rel b a st l \<longleftrightarrow> (\<exists>r x. l = b @ a @ r @ [x, 0] \<and> length b + length a + length r = FINSH_CMD_SIZE - 1 \<and>
     0 \<notin> set b \<and> 0 \<notin> set a \<and> (if st then x \<noteq> 0 else x = 0 \<and> r = replicate (length r) 0))"

definition pad :: "u8 list \<Rightarrow> u8 list" where
  "pad t = t @ replicate (FINSH_CMD_SIZE - length t) 0"

definition good_line :: "u8 list \<Rightarrow> bool" where
  "good_line t \<longleftrightarrow> 0 \<notin> set t \<and> t \<noteq> [] \<and> length t < FINSH_CMD_SIZE"

definition past_rel :: "u8 list list \<Rightarrow> u8 list list \<Rightarrow> bool" where
  "past_rel ps h \<longleftrightarrow> length h = FINSH_HISTORY_LINES \<and> length ps \<le> FINSH_HISTORY_LINES \<and>
     take (length ps) h = map pad ps \<and> list_all good_line ps"

definition ed_rel :: "finsh_shell \<Rightarrow> ed \<Rightarrow> bool" where
  "ed_rel sh e \<longleftrightarrow> shell_stat sh = ed_stat e \<and> line_rel (before e) (after e) (stale e) (line sh) \<and>
     unat (line_position sh) = length (ed_text e) \<and> unat (line_curpos sh) = length (before e) \<and>
     past_rel (past e) (cmd_history sh) \<and> unat (history_count sh) = length (past e) \<and>
     unat (current_history sh) = past_pos e \<and> past_pos e \<le> length (past e)"

lemma arr_set_app: "length y = length x \<Longrightarrow> arr_set (p @ x @ q) (length p) y = Some (p @ y @ q)"
  by (simp add: arr_set_def)

lemma arr_read_app: "arr_read (p @ x @ q) (length p) (length x) = Some x"
  by (simp add: arr_read_def)

lemma string_at_zero: "0 \<in> set (drop i a) \<Longrightarrow> string_at a i = Some (cstr a i)"
  by (simp add: string_at_def strlen_at_def)

lemma line_rel_string:
  assumes "line_rel b a st l" "i \<le> FINSH_CMD_SIZE"
  shows "string_at l i = Some (cstr l i)"
proof (rule string_at_zero)
  obtain r x where l: "l = b @ a @ r @ [x, 0]" "length b + length a + length r = FINSH_CMD_SIZE - 1"
    using assms(1) unfolding line_rel_def by blast
  define p where "p = b @ a @ r @ [x]"
  have "l = p @ [0]" "i \<le> length p" using l assms(2) by (simp_all add: p_def)
  then have "drop i l = drop i p @ [0]" by simp
  then show "0 \<in> set (drop i l)" by simp
qed

text \<open>Unsigned arithmetic of the two positions.\<close>

lemma unat_small: "n < 1000 \<Longrightarrow> unat (of_nat n :: u16) = n"
  by (simp add: unat_of_nat take_bit_eq_mod)

lemma unat_inc: "unat (x :: u16) < 1000 \<Longrightarrow> unat (x + 1) = unat x + 1"
  by (simp add: unat_word_ariths)

lemma unat_dec: "x \<noteq> 0 \<Longrightarrow> unat (x - 1 :: u16) = unat x - 1"
  by (rule unat_minus_one)

subsection \<open>Moving and deleting\<close>

lemma line_rel_left: "line_rel (b @ [c]) a st l \<longleftrightarrow> line_rel b (c # a) st l"
  unfolding line_rel_def by auto

lemma left_key_rel:
  assumes "ed_rel sh e"
  shows "ed_rel (fst (left_key sh)) (ed_key ToLeft e)"
proof (cases "before e" rule: rev_cases)
  case Nil
  with assms have "unat (line_curpos sh) = 0" by (simp add: ed_rel_def)
  then have "line_curpos sh = 0" by (simp add: unat_eq_0)
  with assms Nil show ?thesis by (simp add: left_key_def)
next
  case (snoc b c)
  then have "line_curpos sh \<noteq> 0" using assms by (auto simp: ed_rel_def)
  with assms snoc show ?thesis by (simp add: left_key_def ed_rel_def unat_dec line_rel_left)
qed

lemma right_key_rel:
  assumes "ed_rel sh e"
  obtains sh' out where "right_key sh = Some (sh', out)" "ed_rel sh' (ed_key ToRight e)"
proof (cases "after e")
  case Nil
  then have "\<not> line_curpos sh < line_position sh" using assms by (simp add: ed_rel_def word_less_nat_alt)
  with assms Nil show ?thesis by (intro that[of sh "[]"]) (simp_all add: right_key_def)
next
  case (Cons c a)
  obtain r x where l: "line sh = before e @ (c # a) @ r @ [x, 0]"
    and len: "length (before e) + length (c # a) + length r = FINSH_CMD_SIZE - 1"
    using assms Cons unfolding ed_rel_def line_rel_def by auto
  have "line_curpos sh < line_position sh" using assms Cons by (simp add: ed_rel_def word_less_nat_alt)
  moreover have "arr_get (line sh) (unat (line_curpos sh)) = Some c" using assms l by (simp add: ed_rel_def)
  moreover have "unat (line_curpos sh) < 1000" using assms len by (simp add: ed_rel_def)
  ultimately show ?thesis
    using assms Cons
    by (intro that[of "sh\<lparr>line_curpos := line_curpos sh + 1\<rparr>" "[kputs [c]]"])
      (simp_all add: right_key_def ed_rel_def unat_inc line_rel_left)
qed

definition backspace_out :: "u8 list \<Rightarrow> u8 list \<Rightarrow> u8 list \<Rightarrow> effect list" where
  "backspace_out b a z =
     (if a = [] then [kputs [8, 32, 8]]
      else kputs ([8] @ cstr (b @ a @ z) (length b) @ [32, 32, 8]) # replicate (length a + 1) (kputs [8]))"

lemma backspace_line:
  assumes "line sh = b @ [c] @ a @ z" "0 \<in> set z"
    and "unat (line_position sh) = length b + length a + 1" "unat (line_curpos sh) = length b + 1"
  shows "backspace_key sh = Some (sh\<lparr>line_position := line_position sh - 1, line_curpos := line_curpos sh - 1,
    line := b @ a @ 0 # z\<rparr>, backspace_out b a (0 # z))"
proof -
  have nz: "line_curpos sh \<noteq> 0" "line_position sh \<noteq> 0" using assms(3,4) by auto
  then have p: "unat (line_position sh - 1) = length b + length a" "unat (line_curpos sh - 1) = length b"
    using assms(3,4) by (simp_all add: unat_dec)
  show ?thesis
  proof (cases "a = []")
    case True
    have "arr_set (line sh) (length b) [0] = Some (b @ 0 # z)" using arr_set_app[of "[0]" "[c]" b] assms(1) True by simp
    then show ?thesis using nz p True by (simp add: backspace_key_def backspace_out_def Let_def)
  next
    case False
    have "arr_read (line sh) (length b + 1) (length a) = Some a"
      using arr_read_app[of "b @ [c]" a z] by (simp add: assms(1))
    moreover obtain d u where d: "c # a = u @ [d]" by (cases "c # a" rule: rev_cases) auto
    then have "length u = length a" by (metis length_Cons length_append_singleton nat.inject)
    then have "arr_set (b @ (u @ [d]) @ z) (length b) a = Some (b @ a @ d # z)"
      using arr_set_app[of a u b "d # z"] by simp
    then have "arr_set (line sh) (length b) a = Some (b @ a @ d # z)" unfolding d[symmetric] assms(1) by simp
    moreover have "arr_set (b @ a @ d # z) (length b + length a) [0] = Some (b @ a @ 0 # z)"
      using arr_set_app[of "[0]" "[d]" "b @ a" z] by simp
    moreover have "string_at (b @ a @ 0 # z) (length b) = Some (cstr (b @ a @ 0 # z) (length b))"
      by (rule string_at_zero) simp
    ultimately show ?thesis using nz p False by (simp add: backspace_key_def backspace_out_def Let_def)
  qed
qed

lemma backspace_key_rel:
  assumes "ed_rel sh e"
  obtains sh' out where "backspace_key sh = Some (sh', out)" "ed_rel sh' (ed_key Backspace e)"
proof (cases "before e" rule: rev_cases)
  case Nil
  with assms have "unat (line_curpos sh) = 0" by (simp add: ed_rel_def)
  then have "line_curpos sh = 0" by (simp add: unat_eq_0)
  moreover have "ed_key Backspace e = e" using Nil by (cases e) simp
  ultimately show ?thesis using assms by (intro that[of sh "[]"]) (simp_all add: backspace_key_def del: ed_key.simps)
next
  case (snoc b c)
  let ?a = "after e"
  obtain r x where l: "line sh = b @ [c] @ ?a @ r @ [x, 0]" "length b + 1 + length ?a + length r = FINSH_CMD_SIZE - 1"
    "0 \<notin> set b" "0 \<notin> set ?a" "if stale e then x \<noteq> 0 else x = 0 \<and> r = replicate (length r) 0"
    using assms snoc unfolding ed_rel_def line_rel_def by auto
  let ?l = "b @ ?a @ (0 # r) @ [x, 0]"
  have rel: "line_rel b ?a (stale e) ?l"
    unfolding line_rel_def using l by (intro exI[of _ "0 # r"] exI[of _ x]) auto
  have nz: "line_curpos sh \<noteq> 0" "line_position sh \<noteq> 0" using assms snoc by (auto simp: ed_rel_def)
  have p: "unat (line_position sh - 1) = length b + length ?a" "unat (line_curpos sh - 1) = length b"
    using assms snoc nz by (simp_all add: ed_rel_def unat_dec)
  have "backspace_key sh = Some (sh\<lparr>line_position := line_position sh - 1, line_curpos := line_curpos sh - 1, line := ?l\<rparr>,
      backspace_out b ?a (0 # r @ [x, 0]))"
    using backspace_line[of sh b c ?a "r @ [x, 0]"] l(1) assms snoc by (simp add: ed_rel_def)
  with assms snoc rel p show ?thesis
    by (intro that[of "sh\<lparr>line_position := line_position sh - 1, line_curpos := line_curpos sh - 1, line := ?l\<rparr>"])
      (simp_all add: ed_rel_def)
qed

subsection \<open>Inserting\<close>

definition insert_out :: "u8 \<Rightarrow> u8 list \<Rightarrow> u8 list \<Rightarrow> u8 list \<Rightarrow> bool \<Rightarrow> effect list" where
  "insert_out ch b a z echo =
     (if a = [] then if echo then [kputs [ch]] else []
      else (if echo then [kputs (cstr (b @ [ch] @ a @ z) (length b))] else []) @ replicate (length a) (kputs [8]))"

lemma insert_line:
  assumes "line sh = b @ a @ y # z" "0 \<in> set z" "unat (line_position sh) = length b + length a"
    and "unat (line_curpos sh) = length b" "length b + length a < FINSH_CMD_SIZE"
  shows "insert_key ch sh = (let sh = sh\<lparr>line := b @ [ch] @ a @ z, line_position := line_position sh + 1,
      line_curpos := line_curpos sh + 1\<rparr>
    in Some (if FINSH_CMD_SIZE \<le> unat (line_position sh) then sh\<lparr>line_position := 0, line_curpos := 0\<rparr> else sh,
         insert_out ch b a z (echo_mode sh)))"
proof (cases "a = []")
  case True
  have "arr_set (line sh) (length b) [ch] = Some (b @ [ch] @ z)"
    using arr_set_app[of "[ch]" "[y]" b z] assms(1) True by simp
  with True assms(3-) show ?thesis by (simp add: insert_key_def insert_out_def Let_def)
next
  case False
  then obtain d u where a: "a = d # u" by (cases a) auto
  have "arr_read (line sh) (length b) (length a) = Some a"
    using arr_read_app[of b a "y # z"] by (simp add: assms(1))
  moreover have "arr_set (line sh) (length b + 1) a = Some (b @ d # a @ z)"
    using arr_set_app[of a "u @ [y]" "b @ [d]" z] assms(1) a by simp
  moreover have "arr_set (b @ d # a @ z) (length b) [ch] = Some (b @ [ch] @ a @ z)"
    using arr_set_app[of "[ch]" "[d]" b "a @ z"] by simp
  moreover have "string_at (b @ [ch] @ a @ z) (length b) = Some (cstr (b @ [ch] @ a @ z) (length b))"
    by (rule string_at_zero) (use assms(2) in simp)
  ultimately show ?thesis using False assms(3-) by (simp add: insert_key_def insert_out_def Let_def)
qed

lemma insert_key_rel:
  assumes "ed_rel sh e" "ch \<noteq> 0"
  obtains sh' out where "insert_key ch sh = Some (sh', out)" "ed_rel sh' (ed_key (Char ch) e)"
proof -
  let ?b = "before e" and ?a = "after e"
  obtain r x where l: "line sh = ?b @ ?a @ r @ [x, 0]" "length ?b + length ?a + length r = FINSH_CMD_SIZE - 1"
    "0 \<notin> set ?b" "0 \<notin> set ?a" "if stale e then x \<noteq> 0 else x = 0 \<and> r = replicate (length r) 0"
    using assms unfolding ed_rel_def line_rel_def by auto
  obtain y z where yz: "r @ [x, 0] = y # z" by (cases r) auto
  then have z0: "0 \<in> set z" by (cases r) auto
  have pos: "unat (line_position sh) = length ?b + length ?a" "unat (line_curpos sh) = length ?b"
    using assms(1) by (simp_all add: ed_rel_def)
  have small: "length ?b + length ?a < FINSH_CMD_SIZE" using l(2) by simp
  then have inc: "unat (line_position sh + 1) = length ?b + length ?a + 1" "unat (line_curpos sh + 1) = length ?b + 1"
    using pos unat_inc[of "line_position sh"] unat_inc[of "line_curpos sh"] by simp_all
  have ins: "insert_key ch sh = (let sh = sh\<lparr>line := ?b @ [ch] @ ?a @ z, line_position := line_position sh + 1,
      line_curpos := line_curpos sh + 1\<rparr>
    in Some (if FINSH_CMD_SIZE \<le> unat (line_position sh) then sh\<lparr>line_position := 0, line_curpos := 0\<rparr> else sh,
         insert_out ch ?b ?a z (echo_mode sh)))"
    by (rule insert_line) (use l(1) yz z0 pos small in simp_all)
  show ?thesis
  proof (cases "length ?b + length ?a = FINSH_CMD_SIZE - 1")
    case True
    then have r: "r = []" using l(2) by simp
    then have z: "z = [0]" using yz by simp
    obtain q w where qw: "?b @ [ch] @ ?a = q @ [w]" by (cases "?b @ [ch] @ ?a" rule: rev_cases) auto
    have "w \<in> set (?b @ [ch] @ ?a)" unfolding qw by simp
    then have "w \<noteq> 0" using assms(2) l(3,4) by auto
    moreover have "length q = FINSH_CMD_SIZE - 1" using arg_cong[OF qw, of length] True by simp
    moreover have "?b @ [ch] @ ?a @ z = q @ [w, 0]" using qw z by (metis append.assoc append_Cons append_Nil)
    ultimately have "line_rel [] [] True (?b @ [ch] @ ?a @ z)"
      unfolding line_rel_def by (intro exI[of _ q] exI[of _ w]) simp
    then show ?thesis
      using assms(1) True inc
      by (intro that[of "sh\<lparr>line := ?b @ [ch] @ ?a @ z, line_position := 0, line_curpos := 0\<rparr>"])
        (simp_all add: ins Let_def ed_rel_def)
  next
    case False
    then obtain y' r' where r: "r = y' # r'" using l(2) by (cases r) auto
    then have z: "z = r' @ [x, 0]" using yz by simp
    have "line_rel (?b @ [ch]) ?a (stale e) (?b @ [ch] @ ?a @ z)"
      unfolding line_rel_def using l(2-5) assms(2) r z by (intro exI[of _ r'] exI[of _ x]) auto
    then show ?thesis
      using assms(1) False inc small
      by (intro that[of "sh\<lparr>line := ?b @ [ch] @ ?a @ z, line_position := line_position sh + 1,
          line_curpos := line_curpos sh + 1\<rparr>"]) (simp_all add: ins Let_def ed_rel_def)
  qed
qed

subsection \<open>Recalling\<close>

lemma hist_get_past:
  assumes "past_rel ps (cmd_history sh)" "i < length ps"
  shows "hist_get i sh = Some (pad (ps ! i))" "good_line (ps ! i)"
proof -
  have "take (length ps) (cmd_history sh) ! i = map pad ps ! i" using assms(1) by (simp add: past_rel_def)
  then have "cmd_history sh ! i = pad (ps ! i)" using assms(2) by simp
  then show "hist_get i sh = Some (pad (ps ! i))" using assms by (simp add: hist_get_def past_rel_def)
  show "good_line (ps ! i)" using assms by (simp add: past_rel_def list_all_length)
qed

lemma line_rel_pad:
  assumes "good_line t"
  shows "line_rel t [] False (pad t @ [0])"
proof -
  define n where "n = FINSH_CMD_SIZE - 1 - length t"
  have "length t < FINSH_CMD_SIZE" using assms by (simp add: good_line_def)
  then have "FINSH_CMD_SIZE - length t = Suc n" unfolding n_def by arith
  then have "pad t @ [0] = t @ [] @ replicate n 0 @ [0, 0]"
    by (simp add: pad_def replicate_append_same replicate_app_Cons_same)
  moreover have "length t + n = FINSH_CMD_SIZE - 1" using assms by (simp add: n_def good_line_def)
  ultimately show ?thesis
    using assms unfolding line_rel_def good_line_def by (intro exI[of _ "replicate n 0"] exI[of _ 0]) simp
qed

lemma copy_history_rel:
  assumes "ed_rel sh e" "i < length (past e)"
  obtains sh' out where "copy_history prompt (sh\<lparr>current_history := of_nat i\<rparr>) = Some (sh', out)" "ed_rel sh' (recall i e)"
proof -
  let ?h = "past e ! i"
  have pr: "past_rel (past e) (cmd_history sh)" using assms(1) by (simp add: ed_rel_def)
  note h = hist_get_past[OF pr assms(2)]
  have "length (past e) \<le> 5" using pr by (simp add: past_rel_def)
  then have i: "unat (of_nat i :: u16) = i" using assms(2) by (simp add: unat_small)
  obtain q where q: "line sh = q @ [0]" "length q = FINSH_CMD_SIZE"
    using assms(1) unfolding ed_rel_def line_rel_def by (elim conjE exE) (rule that[of "_ @ _ @ _ @ [_]"], auto)
  have lp: "length (pad ?h) = FINSH_CMD_SIZE" using h(2) by (simp add: pad_def good_line_def)
  then have "arr_set (line sh) 0 (pad ?h) = Some (pad ?h @ [0])"
    using arr_set_app[of "pad ?h" q "[]" "[0]"] q by simp
  moreover have "cstr (pad ?h @ [0]) 0 = ?h"
    using cstr_here[of ?h "replicate (FINSH_CMD_SIZE - length ?h) 0 @ [0]" "[]"] h(2)
    by (simp add: pad_def good_line_def)
  then have "strlen_at (pad ?h @ [0]) 0 = Some (length ?h)" by (simp add: strlen_at_def)
  moreover have "hist_get i (sh\<lparr>current_history := of_nat i\<rparr>) = Some (pad ?h)" using h(1) by (simp add: hist_get_def split: if_splits)
  moreover have "unat (of_nat (length ?h) :: u16) = length ?h"
    using h(2) by (simp add: good_line_def unat_small)
  moreover define sh' where "sh' = sh\<lparr>current_history := of_nat i, line := pad ?h @ [0], line_position := of_nat (length ?h),
      line_curpos := of_nat (length ?h)\<rparr>"
  ultimately have "copy_history prompt (sh\<lparr>current_history := of_nat i\<rparr>) = Some (sh', shell_handle_history prompt sh')"
    using i by (simp add: copy_history_def Let_def)
  moreover have "ed_rel sh' (recall i e)"
    using assms h(2) i line_rel_pad[OF h(2)] \<open>unat (of_nat (length ?h) :: u16) = length ?h\<close>
    by (simp add: ed_rel_def recall_def sh'_def)
  ultimately show ?thesis by (rule that)
qed

lemma word_pred:
  assumes "(x :: u16) \<noteq> 0"
  shows "x - 1 = of_nat (unat x - 1)"
proof -
  have "of_nat (unat (x - 1)) = x - 1" by simp
  then show ?thesis unfolding unat_dec[OF assms] by (rule sym)
qed

lemma word_succ: "(x :: u16) + 1 = of_nat (unat x + 1)"
  by simp

lemma up_key_rel:
  assumes "ed_rel sh e"
  obtains sh' out where "up_key prompt sh = Some (sh', out)" "ed_rel sh' (ed_key Up e)"
proof (cases "past_pos e = 0")
  case True
  then have "current_history sh = 0" using assms by (simp add: ed_rel_def unat_eq_0)
  moreover from this have "sh\<lparr>current_history := 0\<rparr> = sh" by (cases sh) simp
  ultimately show ?thesis using True assms by (intro that[of sh "[]"]) (simp_all add: up_key_def)
next
  case False
  then have n: "unat (current_history sh) \<noteq> 0" using assms by (simp add: ed_rel_def)
  then have c: "current_history sh \<noteq> 0" by auto
  have u: "unat (current_history sh) = past_pos e" "past_pos e \<le> length (past e)" using assms by (simp_all add: ed_rel_def)
  have "past_pos e - 1 < length (past e)" using False u(2) by simp
  then obtain sh' out where
    "copy_history prompt (sh\<lparr>current_history := of_nat (past_pos e - 1)\<rparr>) = Some (sh', out)" "ed_rel sh' (recall (past_pos e - 1) e)"
    by (rule copy_history_rel[OF assms]) (rule that)
  then show ?thesis using False c by (intro that[of sh' out]) (simp_all add: up_key_def word_pred u word_gt_0)
qed

lemma down_key_rel:
  assumes "ed_rel sh e"
  obtains sh' out where "down_key prompt sh = Some (sh', out)" "ed_rel sh' (ed_key Down e)"
proof (cases "past e = []")
  case True
  then have "unat (history_count sh) = 0" "unat (current_history sh) = 0" using assms by (simp_all add: ed_rel_def)
  then have "history_count sh = 0" "current_history sh = 0" by (simp_all add: unat_eq_0)
  with True assms show ?thesis by (intro that[of sh "[]"]) (simp_all add: down_key_def)
next
  case False
  let ?i = "min (past_pos e + 1) (length (past e) - 1)"
  have u: "unat (current_history sh) = past_pos e" "unat (history_count sh) = length (past e)"
    using assms by (simp_all add: ed_rel_def)
  then have "unat (history_count sh) \<noteq> 0" using False by simp
  then have c: "history_count sh \<noteq> 0" by auto
  have "?i < length (past e)" using False by (cases "past e") auto
  then obtain sh' out where
    "copy_history prompt (sh\<lparr>current_history := of_nat ?i\<rparr>) = Some (sh', out)" "ed_rel sh' (recall ?i e)"
    by (rule copy_history_rel[OF assms]) (rule that)
  moreover have "down_key prompt sh = copy_history prompt (sh\<lparr>current_history := of_nat ?i\<rparr>)"
  proof (cases "past_pos e + 1 < length (past e)")
    case True
    then have i: "?i = past_pos e + 1" by simp
    show ?thesis unfolding i using True by (simp add: down_key_def u word_succ del: of_nat_add)
  next
    case no: False
    then have i: "?i = length (past e) - 1" by simp
    show ?thesis unfolding i using no c by (simp add: down_key_def u word_pred)
  qed
  ultimately show ?thesis using False by (intro that[of sh' out]) simp_all
qed

subsection \<open>Entering\<close>

lemma pad_inj:
  assumes "0 \<notin> set u" "length u < FINSH_CMD_SIZE" "0 \<notin> set t" "length t < FINSH_CMD_SIZE"
  shows "pad u = pad t \<longleftrightarrow> u = t"
proof
  have tw: "takeWhile (\<lambda>c. c \<noteq> 0) (pad v) = v" if "0 \<notin> set v" "length v < FINSH_CMD_SIZE" for v
  proof -
    have "takeWhile (\<lambda>c. c \<noteq> 0) (v @ x) = v @ takeWhile (\<lambda>c. c \<noteq> 0) x" for x
      by (rule takeWhile_append2) (use that(1) in auto)
    then show ?thesis by (simp add: pad_def takeWhile_replicate)
  qed
  assume "pad u = pad t"
  then show "u = t" using tw[OF assms(1,2)] tw[OF assms(3,4)] by metis
qed simp

lemma line_take:
  assumes "line_rel b a st l"
  shows "take (length (b @ a)) l = b @ a" "length l = FINSH_CMD_SIZE + 1" "length (b @ a) < FINSH_CMD_SIZE"
    "0 \<notin> set (b @ a)" "good_line u \<Longrightarrow> pad u = take FINSH_CMD_SIZE l \<longleftrightarrow> \<not> st \<and> u = b @ a"
proof -
  obtain r x where l: "l = (b @ a) @ r @ [x, 0]" "length b + length a + length r = FINSH_CMD_SIZE - 1"
    "0 \<notin> set b" "0 \<notin> set a" "if st then x \<noteq> 0 else x = 0 \<and> r = replicate (length r) 0"
    using assms unfolding line_rel_def by auto
  show "take (length (b @ a)) l = b @ a" "length l = FINSH_CMD_SIZE + 1" "length (b @ a) < FINSH_CMD_SIZE"
    "0 \<notin> set (b @ a)" using l by simp_all
  have t: "take FINSH_CMD_SIZE l = (b @ a) @ r @ [x]"
  proof -
    have "l = ((b @ a) @ r @ [x]) @ [0]" "length ((b @ a) @ r @ [x]) = FINSH_CMD_SIZE" using l(1,2) by simp_all
    moreover have "take FINSH_CMD_SIZE (p @ [0]) = p" if "length p = FINSH_CMD_SIZE" for p :: "u8 list" using that by simp
    ultimately show ?thesis by (simp only:)
  qed
  assume u: "good_line u"
  show "pad u = take FINSH_CMD_SIZE l \<longleftrightarrow> \<not> st \<and> u = b @ a"
  proof (cases st)
    case True
    have "last (pad u) = 0" using u by (simp add: pad_def good_line_def)
    moreover have "last (take FINSH_CMD_SIZE l) \<noteq> 0" using t l(5) True by simp
    ultimately show ?thesis using True by metis
  next
    case False
    have n: "FINSH_CMD_SIZE - length (b @ a) = Suc (length r)" using l(2) by simp
    have "x = 0" "r = replicate (length r) 0" using l(5) False by simp_all
    then have "r @ [x] = replicate (Suc (length r)) 0" by (metis replicate_append_same replicate_Suc)
    then have "take FINSH_CMD_SIZE l = pad (b @ a)" unfolding t pad_def n by simp
    then show ?thesis using pad_inj[of u "b @ a"] u l False by (simp add: good_line_def)
  qed
qed

lemma past_rel_add:
  assumes "past_rel ps h" "good_line t"
  shows "length ps < FINSH_HISTORY_LINES \<Longrightarrow> past_rel (ps @ [t]) (h[length ps := pad t])"
    "length ps = FINSH_HISTORY_LINES \<Longrightarrow> past_rel (tl ps @ [t]) (tl h @ [pad t])"
proof -
  note p = assms(1)[unfolded past_rel_def]
  show "past_rel (ps @ [t]) (h[length ps := pad t])" if "length ps < FINSH_HISTORY_LINES"
  proof -
    have "take (length (ps @ [t])) (h[length ps := pad t]) = take (length ps) h @ [pad t]"
      using that p by (simp add: take_Suc_conv_app_nth)
    then show ?thesis using that p assms(2) by (simp add: past_rel_def)
  qed
  show "past_rel (tl ps @ [t]) (tl h @ [pad t])" if "length ps = FINSH_HISTORY_LINES"
  proof -
    have "take (length ps) h = h" using that conjunct1[OF p] by simp
    then have "h = map pad ps" using p by metis
    then show ?thesis using that p assms(2) by (cases ps) (simp_all add: past_rel_def)
  qed
qed

lemma push_history_rel:
  assumes "ed_rel sh e"
  obtains h c where "shell_push_history sh = Some (sh\<lparr>cmd_history := h, history_count := c, current_history := c\<rparr>)"
    "past_rel (past (enter e)) h" "unat c = length (past (enter e))"
proof -
  let ?t = "ed_text e" and ?n = "length (past e)"
  have lr: "line_rel (before e) (after e) (stale e) (line sh)" and pr: "past_rel (past e) (cmd_history sh)"
    and pos: "unat (line_position sh) = length ?t" and cnt: "unat (history_count sh) = ?n"
    using assms by (simp_all add: ed_rel_def)
  note lt = line_take[OF lr]
  have n5: "?n \<le> FINSH_HISTORY_LINES" using pr by (simp add: past_rel_def)
  have c5: "FINSH_HISTORY_LINES \<le> unat (history_count sh) \<longleftrightarrow> ?n = FINSH_HISTORY_LINES" using cnt n5 by auto
  have c0: "history_count sh = 0 \<longleftrightarrow> past e = []" using cnt by (metis length_0_conv unat_eq_0)
  have entry: "history_entry sh = Some (pad ?t)"
    using lt(1,3) pos by (simp add: history_entry_def pad_def)
  show ?thesis
  proof (cases "?t = []")
    case True
    then have "line_position sh = 0" using pos by (simp add: unat_eq_0)
    with True show ?thesis
      using pr cnt by (intro that[of "history_count sh" "cmd_history sh"]) (simp_all add: shell_push_history_def enter_def)
  next
    case False
    then have p0: "line_position sh \<noteq> 0" using pos by auto
    have gt: "good_line ?t" using False lt(3,4) by (simp add: good_line_def)
    let ?dup = "past e \<noteq> [] \<and> \<not> stale e \<and> last (past e) = ?t"
    have last: "hist_get (?n - 1) sh = Some (pad (last (past e)))"
      "pad (last (past e)) = take FINSH_CMD_SIZE (line sh) \<longleftrightarrow> ?dup" if "past e \<noteq> []"
    proof -
      have i: "?n - 1 < ?n" "past e ! (?n - 1) = last (past e)" using that by (simp_all add: last_conv_nth)
      show "hist_get (?n - 1) sh = Some (pad (last (past e)))" using hist_get_past(1)[OF pr i(1)] i(2) by simp
      have "good_line (last (past e))" using hist_get_past(2)[OF pr i(1)] i(2) by simp
      from lt(5)[OF this] that show "pad (last (past e)) = take FINSH_CMD_SIZE (line sh) \<longleftrightarrow> ?dup" by blast
    qed
    consider (dup) "?dup" | (full) "\<not> ?dup" "?n = FINSH_HISTORY_LINES" | (room) "\<not> ?dup" "?n < FINSH_HISTORY_LINES"
      using n5 by linarith
    then show ?thesis
    proof cases
      case dup
      then have "shell_push_history sh = Some (sh\<lparr>current_history := history_count sh\<rparr>)"
        using last p0 c5 c0 cnt by (cases "?n = FINSH_HISTORY_LINES") (simp_all add: shell_push_history_def)
      with dup show ?thesis
        using pr cnt by (intro that[of "history_count sh" "cmd_history sh"]) (simp_all add: enter_def)
    next
      case full
      then have ne: "past e \<noteq> []" by auto
      have "shell_push_history sh = Some (sh\<lparr>cmd_history := tl (cmd_history sh) @ [pad ?t],
          history_count := of_nat FINSH_HISTORY_LINES, current_history := of_nat FINSH_HISTORY_LINES\<rparr>)"
        using last[OF ne] full p0 c5 entry by (simp add: shell_push_history_def)
      then show ?thesis
        using past_rel_add(2)[OF pr gt full(2)] full False ne
        by (intro that[of "of_nat FINSH_HISTORY_LINES" "tl (cmd_history sh) @ [pad ?t]"]) (auto simp: enter_def Let_def)
    next
      case room
      have "unat (history_count sh + 1) = ?n + 1" using unat_inc[of "history_count sh"] cnt n5 by simp
      moreover have "shell_push_history sh = Some (sh\<lparr>cmd_history := (cmd_history sh)[?n := pad ?t],
          history_count := history_count sh + 1, current_history := history_count sh + 1\<rparr>)"
        using last room p0 c5 c0 cnt entry by (cases "past e = []") (auto simp: shell_push_history_def)
      ultimately show ?thesis
        using past_rel_add(1)[OF pr gt room(2)] room False
        by (intro that[of "history_count sh + 1" "(cmd_history sh)[?n := pad ?t]"]) (auto simp: enter_def Let_def)
    qed
  qed
qed

lemma line_rel_cleared:
  assumes "n = FINSH_CMD_SIZE + 1"
  shows "line_rel [] [] False (replicate n 0)"
proof -
  define m where "m = n - 2"
  have n: "n = Suc (Suc m)" and m: "m = FINSH_CMD_SIZE - 1" using assms by (simp_all add: m_def)
  have "replicate n 0 = [] @ [] @ replicate m 0 @ [0 :: u8, 0]" unfolding n by (simp add: replicate_app_Cons_same)
  moreover have "length (replicate m (0 :: u8)) = FINSH_CMD_SIZE - 1" using m by simp
  ultimately show ?thesis unfolding line_rel_def by (intro exI[of _ "replicate m 0"] exI[of _ 0]) simp
qed

definition good_table :: "finsh_syscall list \<Rightarrow> bool" where
  "good_table tab \<longleftrightarrow> (\<forall>x \<in> set tab. 0 \<notin> set (cmd_name x))"

lemma enter_key_rel:
  assumes "ed_rel sh e" "good_table tab"
  obtains sh' out r a' where "enter_key tab prompt sh = Some (sh', out)" "ed_rel sh' (ed_key Enter e)"
    "out = (if echo_mode sh then [kputs [10]] else []) @ [Exec r a', kputs prompt]"
    "\<not> stale e \<longrightarrow> msh_exec tab (ed_text e @ 0 # replicate (FINSH_CMD_SIZE - length (ed_text e)) 0) 0
       (length (ed_text e)) = Some (r, a')"
proof -
  let ?t = "ed_text e"
  obtain h c where p: "shell_push_history sh = Some (sh\<lparr>cmd_history := h, history_count := c, current_history := c\<rparr>)"
    "past_rel (past (enter e)) h" "unat c = length (past (enter e))"
    by (rule push_history_rel[OF assms(1)])
  obtain r x where l: "line sh = ?t @ r @ [x, 0]" "length ?t + length r = FINSH_CMD_SIZE - 1" "0 \<notin> set ?t"
    "if stale e then x \<noteq> 0 else x = 0 \<and> r = replicate (length r) 0"
    using assms(1) unfolding ed_rel_def line_rel_def by auto
  obtain res a' where ex: "msh_exec tab (?t @ r @ [x, 0]) 0 (length ?t) = Some (res, a')" "length a' = length (?t @ r @ [x, 0])"
    using exec_returns[OF l(3), of tab "r @ [x, 0]"] assms(2) by (auto simp: good_table_def)
  let ?sh = "sh\<lparr>cmd_history := h, history_count := c, current_history := c, line := replicate (length a') 0,
    line_position := 0, line_curpos := 0\<rparr>"
  have pos: "unat (line_position sh) = length ?t" using assms(1) by (simp add: ed_rel_def)
  have "enter_key tab prompt sh =
      Some (?sh, (if echo_mode sh then [kputs [10]] else []) @ [Exec res a', kputs prompt])"
    using p(1) ex(1) pos by (simp add: enter_key_def l(1))
  moreover have "line_rel [] [] False (replicate (length a') 0)"
    by (rule line_rel_cleared) (use ex(2) l(2) in simp)
  then have "ed_rel ?sh (ed_key Enter e)"
    using assms(1) p(2,3) by (simp add: ed_rel_def enter_def Let_def)
  moreover have "msh_exec tab (?t @ 0 # replicate (FINSH_CMD_SIZE - length ?t) 0) 0 (length ?t) = Some (res, a')" if ns: "\<not> stale e"
  proof -
    have "FINSH_CMD_SIZE - length ?t = Suc (length r)" using l(2) by simp
    moreover obtain m where m: "r = replicate m 0" "x = 0" using l(4) ns by (metis (full_types))
    then have "r @ [x, 0] = 0 # replicate (Suc (length r)) 0" by (simp add: replicate_app_Cons_same)
    ultimately show ?thesis using ex(1) by simp
  qed
  ultimately show ?thesis by (intro that) auto
qed

subsection \<open>All keys\<close>

lemma ed_rel_stat: "ed_rel sh e \<Longrightarrow> ed_rel (sh\<lparr>shell_stat := st\<rparr>) (e\<lparr>ed_stat := st\<rparr>)"
  by (simp add: ed_rel_def)

lemma plain_key_rel:
  assumes "ed_rel sh e" "good_table tab" "ch \<noteq> 9"
  obtains sh' out where "plain_key tab prompt ch sh = Some (sh', out)" "ed_rel sh' (ed_key (plain ch) e)"
proof -
  consider "ch = 0 \<or> ch = 0xFF" | "ch = 0x7F \<or> ch = 8" | "ch = 13 \<or> ch = 10"
    | "ch \<noteq> 0" "ch \<noteq> 0xFF" "ch \<noteq> 0x7F" "ch \<noteq> 8" "ch \<noteq> 13" "ch \<noteq> 10" by blast
  then show ?thesis
  proof cases
    case 1
    then show ?thesis using assms(1) by (intro that[of sh "[]"]) (auto simp: plain_key_def plain_def)
  next
    case 2
    obtain sh' out where "backspace_key sh = Some (sh', out)" "ed_rel sh' (ed_key Backspace e)"
      by (rule backspace_key_rel[OF assms(1)])
    with 2 show ?thesis by (intro that[of sh' out]) (auto simp: plain_key_def plain_def)
  next
    case 3
    obtain sh' out where "enter_key tab prompt sh = Some (sh', out)" "ed_rel sh' (ed_key Enter e)"
      by (rule enter_key_rel[OF assms(1,2), of prompt])
    with 3 show ?thesis by (intro that[of sh' out]) (auto simp: plain_key_def plain_def)
  next
    case 4
    obtain sh' out where "insert_key ch sh = Some (sh', out)" "ed_rel sh' (ed_key (Char ch) e)"
      by (rule insert_key_rel[OF assms(1) 4(1)])
    with 4 assms(3) show ?thesis by (intro that[of sh' out]) (simp_all add: plain_key_def plain_def del: ed_key.simps)
  qed
qed

lemma finsh_key_rel:
  assumes "ed_rel sh e" "good_table tab" "ch \<noteq> 9"
  obtains sh' out where "finsh_key tab prompt ch sh = Some (sh', out)" "ed_rel sh' (ed_byte ch e)"
proof -
  have st: "shell_stat sh = ed_stat e" using assms(1) by (simp add: ed_rel_def)
  note normal = ed_rel_stat[OF assms(1), of WAIT_NORMAL]
  show ?thesis
  proof (cases "ch = 0x1B")
    case True
    then show ?thesis
      using ed_rel_stat[OF assms(1)] by (intro that) (simp_all add: finsh_key_def ed_byte_def decode_def)
  next
    case esc: False
    show ?thesis
    proof (cases "fst (decode (ed_stat e) ch) = WAIT_FUNC_KEY")
      case True
      then have "ed_stat e = WAIT_SPEC_KEY" "ch = 0x5B" using esc by (auto simp: decode_def split: if_splits)
      then show ?thesis
        using ed_rel_stat[OF assms(1)] st by (intro that) (simp_all add: finsh_key_def ed_byte_def decode_def)
    next
      case spec: False
      show ?thesis
      proof (cases "ed_stat e = WAIT_FUNC_KEY \<and> ch \<in> {0x41, 0x42, 0x43, 0x44}")
        case True
        then consider "ch = 0x41" | "ch = 0x42" | "ch = 0x43" | "ch = 0x44" by blast
        then show ?thesis
        proof cases
          case 1
          obtain sh' out where "up_key prompt (sh\<lparr>shell_stat := WAIT_NORMAL\<rparr>) = Some (sh', out)"
            "ed_rel sh' (ed_key Up (e\<lparr>ed_stat := WAIT_NORMAL\<rparr>))" by (rule up_key_rel[OF normal])
          with 1 True st show ?thesis
            by (intro that[of sh' out]) (simp_all add: finsh_key_def ed_byte_def decode_def del: ed_key.simps)
        next
          case 2
          obtain sh' out where "down_key prompt (sh\<lparr>shell_stat := WAIT_NORMAL\<rparr>) = Some (sh', out)"
            "ed_rel sh' (ed_key Down (e\<lparr>ed_stat := WAIT_NORMAL\<rparr>))" by (rule down_key_rel[OF normal])
          with 2 True st show ?thesis
            by (intro that[of sh' out]) (simp_all add: finsh_key_def ed_byte_def decode_def del: ed_key.simps)
        next
          case 3
          obtain sh' out where "right_key (sh\<lparr>shell_stat := WAIT_NORMAL\<rparr>) = Some (sh', out)"
            "ed_rel sh' (ed_key ToRight (e\<lparr>ed_stat := WAIT_NORMAL\<rparr>))" by (rule right_key_rel[OF normal])
          with 3 True st show ?thesis
            by (intro that[of sh' out]) (simp_all add: finsh_key_def ed_byte_def decode_def del: ed_key.simps)
        next
          case 4
          with left_key_rel[OF normal] True st show ?thesis
            by (intro that[of "fst (left_key (sh\<lparr>shell_stat := WAIT_NORMAL\<rparr>))" "snd (left_key (sh\<lparr>shell_stat := WAIT_NORMAL\<rparr>))"])
              (simp_all add: finsh_key_def ed_byte_def decode_def del: ed_key.simps)
        qed
      next
        case False
        have d: "decode (ed_stat e) ch = (WAIT_NORMAL, plain ch)"
          using esc spec False by (auto simp: decode_def split: if_splits)
        obtain sh' out where p: "plain_key tab prompt ch (sh\<lparr>shell_stat := WAIT_NORMAL\<rparr>) = Some (sh', out)"
          "ed_rel sh' (ed_key (plain ch) (e\<lparr>ed_stat := WAIT_NORMAL\<rparr>))" by (rule plain_key_rel[OF normal assms(2,3)])
        have "finsh_key tab prompt ch sh = plain_key tab prompt ch (sh\<lparr>shell_stat := WAIT_NORMAL\<rparr>)"
        proof (cases "shell_stat sh")
          case WAIT_NORMAL
          then have eq: "sh\<lparr>shell_stat := WAIT_NORMAL\<rparr> = sh" by (cases sh) simp
          show ?thesis unfolding eq using WAIT_NORMAL esc by (simp add: finsh_key_def)
        next
          case WAIT_SPEC_KEY
          then show ?thesis using esc spec st by (auto simp: finsh_key_def decode_def)
        next
          case WAIT_FUNC_KEY
          then show ?thesis using esc False st by (simp add: finsh_key_def Let_def)
        qed
        with p show ?thesis by (intro that[of sh' out]) (simp_all add: ed_byte_def d)
      qed
    qed
  qed
qed

section \<open>Properties\<close>

definition ed_init :: ed where
  "ed_init = \<lparr>ed_stat = WAIT_NORMAL, before = [], after = [], past = [], past_pos = 0, stale = False\<rparr>"

lemma init_rel: "ed_rel shell_init ed_init"
  using line_rel_cleared[of "FINSH_CMD_SIZE + 1"] by (simp add: ed_rel_def shell_init_def ed_init_def past_rel_def)

lemma finsh_keys_rel:
  "ed_rel sh e \<Longrightarrow> good_table tab \<Longrightarrow> 9 \<notin> set chs \<Longrightarrow>
    \<exists>sh' out. finsh_keys tab prompt chs sh = Some (sh', out) \<and> ed_rel sh' (fold ed_byte chs e)"
proof (induction chs arbitrary: sh e)
  case (Cons ch chs)
  then have "ch \<noteq> 9" by auto
  then obtain sh1 out1 where 1: "finsh_key tab prompt ch sh = Some (sh1, out1)" "ed_rel sh1 (ed_byte ch e)"
    by (rule finsh_key_rel[OF Cons.prems(1,2)])
  from Cons.IH[OF 1(2) Cons.prems(2)] Cons.prems(3) 1(1) show ?case by auto
qed simp

text \<open>C37: the line editor. Whatever bytes arrive at the shell, tabulators apart, no access leaves an array, and the
  shell implements an editor with the text before and after the cursor and the lines entered before: characters
  are inserted, deleted and passed over at the cursor, arrow keys are recognised in their escape sequences, the arrows
  up and down recall the last five different lines, and an eightieth character discards the line.\<close>
theorem shell_edits_refine:
  assumes "good_table tab" "9 \<notin> set chs"
  shows "\<exists>sh out. finsh_keys tab prompt chs shell_init = Some (sh, out) \<and>
    (let e = fold ed_byte chs ed_init in ed_rel sh e \<and>
       take (unat (line_position sh)) (line sh) = before e @ after e \<and> unat (line_curpos sh) = length (before e) \<and>
       unat (line_position sh) < FINSH_CMD_SIZE)"
proof -
  obtain sh out where "finsh_keys tab prompt chs shell_init = Some (sh, out)" and r: "ed_rel sh (fold ed_byte chs ed_init)"
    using finsh_keys_rel[OF init_rel assms] by blast
  moreover from r have "line_rel (before (fold ed_byte chs ed_init)) (after (fold ed_byte chs ed_init))
      (stale (fold ed_byte chs ed_init)) (line sh)" by (simp add: ed_rel_def)
  note line_take(1,3)[OF this]
  ultimately show ?thesis using r by (simp add: ed_rel_def Let_def)
qed

text \<open>C38: entering. The Enter key on a line that is not stale executes exactly its text: a blank line does nothing, and otherwise
  the first command named by the first word is called with the words of the text, which are the strings its arguments
  point to in the line at the time of the call, or the text up to the first space is reported as not found. The line
  is remembered unless it repeats the last one, and the next line is empty.\<close>
theorem enter_executes_text:
  assumes "ed_rel sh e" "good_table tab" "\<not> stale e"
  defines "u \<equiv> dropWhile blank (before e @ after e)"
  shows "\<exists>sh' r l. enter_key tab prompt sh =
      Some (sh', (if echo_mode sh then [kputs [10]] else []) @ [Exec r l, kputs prompt]) \<and>
    ed_rel sh' (enter e) \<and> (\<forall>c \<in> set (line sh'). c = 0) \<and>
    (if u = [] then r = NoCommand
     else case find (\<lambda>x. cmd_name x = takeWhile (\<lambda>c. \<not> blank c) u) tab of
       Some x \<Rightarrow> (\<exists>argv. r = Call (cmd_func x) argv \<and> map (cstr l) argv = take FINSH_ARG_MAX (tokens (before e @ after e)))
     | None \<Rightarrow> r = NotFound (takeWhile (\<lambda>c. c \<noteq> 32) u))"
proof -
  let ?t = "before e @ after e"
  obtain sh' out r l where s: "enter_key tab prompt sh = Some (sh', out)" "ed_rel sh' (ed_key Enter e)"
    "out = (if echo_mode sh then [kputs [10]] else []) @ [Exec r l, kputs prompt]"
    and ex: "msh_exec tab (?t @ 0 # replicate (FINSH_CMD_SIZE - length ?t) 0) 0 (length ?t) = Some (r, l)"
    by (rule enter_key_rel[OF assms(1,2), of prompt]) (use assms(3) that in blast)
  have nz: "0 \<notin> set ?t" using assms(1) line_take(4) by (auto simp: ed_rel_def)
  have "line_rel [] [] False (line sh')" using s(2) by (simp add: ed_rel_def enter_def Let_def)
  then have "\<forall>c \<in> set (line sh'). c = 0" unfolding line_rel_def by (auto simp: in_set_conv_nth)
  moreover have gt: "\<forall>x \<in> set tab. 0 \<notin> set (cmd_name x)" using assms(2) by (simp add: good_table_def)
  obtain r' a' where E: "msh_exec tab (?t @ 0 # replicate (FINSH_CMD_SIZE - length ?t) 0) 0 (length ?t) = Some (r', a')"
    and C: "if u = [] then r' = NoCommand
     else case find (\<lambda>x. cmd_name x = takeWhile (\<lambda>c. \<not> blank c) u) tab of
       Some x \<Rightarrow> (\<exists>argv. r' = Call (cmd_func x) argv \<and> map (cstr a') argv = take FINSH_ARG_MAX (tokens ?t))
     | None \<Rightarrow> r' = NotFound (takeWhile (\<lambda>c. c \<noteq> 32) u)"
    using exec_calls_command[OF nz gt, of "replicate (FINSH_CMD_SIZE - length ?t) 0"] unfolding u_def by blast
  have "r' = r" "a' = l" using E ex by simp_all
  note C[unfolded this]
  ultimately show ?thesis using s(1,2) unfolding s(3) by (intro exI[of _ sh'] exI[of _ r] exI[of _ l]) simp
qed

declare split_loop.simps [code]

text \<open>Eighty characters \<open>x\<close>, which are discarded, then \<open>ps\<close> and Enter: the command \<open>ps\<close> is called, but its first
  argument is the string \<open>psxxx...\<close> of eighty characters, because the line is cleared by its length only.\<close>
theorem stale_text_is_passed:
  "(case finsh_keys option_table [] (replicate 80 120 @ [112, 115]) shell_init of
      None \<Rightarrow> False
    | Some (sh, _) \<Rightarrow> line_position sh = 2 \<and>
        (case msh_exec option_table (line sh) 0 (unat (line_position sh)) of
           Some (Call f [arg], l) \<Rightarrow> f = 1 \<and> cstr l arg = [112, 115] @ replicate 78 120
         | _ \<Rightarrow> False))"
  by code_simp

section \<open>The screen\<close>

text \<open>The line of a terminal: its characters and its column. A backspace moves the column, any other printed byte
  overwrites a character.\<close>

definition show_byte :: "u8 \<Rightarrow> u8 list \<times> nat \<Rightarrow> u8 list \<times> nat" where
  "show_byte c = (\<lambda>(scr, col). if c = 8 then (scr, col - 1) else (take col scr @ [c] @ drop (col + 1) scr, col + 1))"

fun show_effect :: "effect \<Rightarrow> u8 list \<times> nat \<Rightarrow> u8 list \<times> nat" where
  "show_effect (Print t) scr = fold show_byte t scr"
| "show_effect _ scr = scr"

text \<open>The screen shows the prompt and the text, followed by blanks, with the column at the cursor.\<close>

definition shows_line :: "u8 list \<Rightarrow> ed \<Rightarrow> u8 list \<times> nat \<Rightarrow> bool" where
  "shows_line prompt e = (\<lambda>(scr, col). \<exists>k. scr = prompt @ before e @ after e @ replicate k 32 \<and>
     col = length prompt + length (before e))"

definition printable :: "u8 list \<Rightarrow> bool" where
  "printable t \<longleftrightarrow> (\<forall>c \<in> set t. 32 \<le> c \<and> c < 127)"

text \<open>The functions of the code for the keys that edit the line.\<close>

fun edit_key :: "key \<Rightarrow> finsh_shell \<Rightarrow> (finsh_shell \<times> effect list) option" where
  "edit_key (Char c) sh = insert_key c sh"
| "edit_key Backspace sh = backspace_key sh"
| "edit_key ToLeft sh = Some (left_key sh)"
| "edit_key ToRight sh = right_key sh"
| "edit_key _ sh = None"

lemma show_text:
  "printable t \<Longrightarrow> fold show_byte t (p @ s, length p) = (p @ t @ drop (length t) s, length p + length t)"
proof (induction t arbitrary: p s)
  case (Cons c t)
  then have "c \<noteq> 8" by (auto simp: printable_def)
  then have "fold show_byte (c # t) (p @ s, length p) = fold show_byte t ((p @ [c]) @ drop 1 s, length (p @ [c]))"
    by (simp add: show_byte_def)
  also have "\<dots> = (p @ (c # t) @ drop (length (c # t)) s, length p + length (c # t))"
    using Cons by (subst Cons.IH) (simp_all add: printable_def)
  finally show ?case .
qed simp

lemma show_kputs: "length t \<le> 126 \<Longrightarrow> show_effect (kputs t) = fold show_byte t"
  by (rule ext) (simp add: kputs_def)

lemma show_back: "show_effect (kputs [8]) (scr, col) = (scr, col - 1)"
  by (simp add: show_kputs show_byte_def)

lemma show_backs: "(show_effect (kputs [8]) ^^ n) (scr, col) = (scr, col - n)"
  by (induction n) (simp_all add: show_back)

lemma printable_Nil [simp]: "printable []"
  by (simp add: printable_def)

lemma printable_Cons: "printable (c # t) \<longleftrightarrow> 32 \<le> c \<and> c < 127 \<and> printable t"
  by (simp add: printable_def)

lemma printable_append: "printable (s @ t) \<longleftrightarrow> printable s \<and> printable t"
  by (auto simp: printable_def)

lemma drop_blanks: "drop n (replicate k x) = replicate (k - n) x"
  by simp

lemma cstr_clean:
  assumes "0 \<notin> set t" "\<forall>c \<in> set z. c = 0"
  shows "cstr (b @ t @ z) (length b) = t"
  using cstr_here[OF assms(1), of z b] assms(2) by (cases z) auto

text \<open>C39: the screen. As long as the line is not stale, the echo is on and the characters are printable, inserting,
  deleting and moving leave the screen with the prompt and the text, and the column at the cursor: what the user sees is
  what will be executed.\<close>
theorem screen_shows_line:
  assumes "ed_rel sh e" "echo_mode sh" "\<not> stale e" "printable (before e @ after e)" "shows_line prompt e scr"
    and "k \<in> {Backspace, ToLeft, ToRight} \<or>
      (\<exists>c. k = Char c \<and> printable [c] \<and> length (before e @ after e) < FINSH_CMD_SIZE - 1)"
  shows "\<exists>sh' out. edit_key k sh = Some (sh', out) \<and> ed_rel sh' (ed_key k e) \<and>
    shows_line prompt (ed_key k e) (fold show_effect out scr)"
proof -
  let ?b = "before e" and ?a = "after e"
  obtain m where scr: "scr = (prompt @ ?b @ ?a @ replicate m 32, length prompt + length ?b)"
    using assms(5) by (auto simp: shows_line_def)
  obtain r x where l: "line sh = ?b @ ?a @ r @ [x, 0]" "length ?b + length ?a + length r = FINSH_CMD_SIZE - 1"
    "0 \<notin> set ?b" "0 \<notin> set ?a" "x = 0" "r = replicate (length r) 0"
    using assms(1,3) unfolding ed_rel_def line_rel_def by auto
  have zr: "\<forall>c \<in> set r. c = 0" using l(6) by (metis in_set_replicate)
  have pos: "unat (line_position sh) = length ?b + length ?a" "unat (line_curpos sh) = length ?b"
    using assms(1) by (simp_all add: ed_rel_def)
  from assms(6) consider "k = ToLeft" | "k = ToRight" | "k = Backspace"
    | c where "k = Char c" "printable [c]" "length (?b @ ?a) < FINSH_CMD_SIZE - 1" by blast
  then show ?thesis
  proof cases
    case 1
    show ?thesis
    proof (cases ?b rule: rev_cases)
      case Nil
      then have "unat (line_curpos sh) = 0" using pos by simp
      then have "line_curpos sh = 0" by (simp add: unat_eq_0)
      then show ?thesis using assms(1,5) Nil 1 by (simp add: left_key_def)
    next
      case (snoc b c)
      then have "line_curpos sh \<noteq> 0" using pos by auto
      then show ?thesis
        using left_key_rel[OF assms(1)] 1 snoc scr
        by (simp add: left_key_def show_kputs show_byte_def shows_line_def)
    qed
  next
    case 2
    obtain sh' out where s: "right_key sh = Some (sh', out)" "ed_rel sh' (ed_key ToRight e)"
      by (rule right_key_rel[OF assms(1)])
    show ?thesis
    proof (cases ?a)
      case Nil
      then have "out = []" using s(1) pos by (auto simp: right_key_def word_less_nat_alt)
      then show ?thesis using s 2 assms(5) Nil by simp
    next
      case (Cons c a)
      then have "out = [kputs [c]]" using s(1) pos l(1) by (auto simp: right_key_def word_less_nat_alt arr_get_def)
      moreover have "printable [c]" using assms(4) Cons by (simp add: printable_append printable_Cons)
      ultimately show ?thesis
        using s 2 Cons scr show_text[of "[c]" "prompt @ ?b" "?a @ replicate m 32"]
        by (simp add: show_kputs shows_line_def)
    qed
  next
    case 3
    show ?thesis
    proof (cases ?b rule: rev_cases)
      case Nil
      then have "unat (line_curpos sh) = 0" using pos by simp
      then have "line_curpos sh = 0" by (simp add: unat_eq_0)
      moreover have "ed_key Backspace e = e" using Nil by (cases e) simp
      ultimately show ?thesis using assms(1,5) 3 by (simp add: backspace_key_def del: ed_key.simps)
    next
      case (snoc b c)
      let ?p = "prompt @ b"
      have eq: "backspace_key sh = Some (sh\<lparr>line_position := line_position sh - 1, line_curpos := line_curpos sh - 1,
          line := b @ ?a @ 0 # r @ [x, 0]\<rparr>, backspace_out b ?a (0 # r @ [x, 0]))"
        by (rule backspace_line) (use l(1) snoc pos in simp_all)
      obtain sh' out where s: "backspace_key sh = Some (sh', out)" "ed_rel sh' (ed_key Backspace e)"
        by (rule backspace_key_rel[OF assms(1)])
      have out: "out = backspace_out b ?a (0 # r @ [x, 0])" using s(1) eq by simp
      have cs: "cstr (b @ ?a @ 0 # r @ [x, 0]) (length b) = ?a"
        by (rule cstr_clean) (use l(4,5) zr in auto)
      have pa: "printable ?a" using assms(4) by (simp add: printable_append)
      have scr': "scr = (?p @ c # ?a @ replicate m 32, length ?p + 1)" using scr snoc by simp
      have "\<exists>n. fold show_effect out scr = (?p @ ?a @ replicate n 32, length ?p)"
      proof (cases "?a = []")
        case True
        then show ?thesis
          unfolding out backspace_out_def scr'
          by (intro exI[of _ "Suc m"]) (simp add: show_kputs show_byte_def)
      next
        case False
        have len: "length ([8] @ ?a @ [32, 32, 8]) \<le> 126" using l(2) by simp
        have p2: "printable (?a @ [32, 32])" using pa by (simp add: printable_append printable_Cons)
        have "fold show_byte ([8] @ ?a @ [32, 32, 8]) scr = fold show_byte ((?a @ [32, 32]) @ [8]) (?p @ c # ?a @ replicate m 32, length ?p)"
          unfolding scr' by (simp add: show_byte_def)
        also have "\<dots> = fold show_byte [8] (?p @ (?a @ [32, 32]) @ drop (length (?a @ [32, 32])) (c # ?a @ replicate m 32),
            length ?p + length (?a @ [32, 32]))" 
          using show_text[OF p2, of ?p "c # ?a @ replicate m 32"] by (simp only: fold_append comp_apply)
        also have "\<dots> = (?p @ ?a @ [32, 32] @ replicate (m - 1) 32, length ?p + length ?a + 1)"
          by (simp add: show_byte_def)
        finally have st: "show_effect (kputs ([8] @ ?a @ [32, 32, 8])) scr =
            (?p @ ?a @ [32, 32] @ replicate (m - 1) 32, length ?p + length ?a + 1)" unfolding show_kputs[OF len] .
        have "fold show_effect out scr = (show_effect (kputs [8]) ^^ (length ?a + 1)) (show_effect (kputs ([8] @ ?a @ [32, 32, 8])) scr)"
          using False by (simp add: out backspace_out_def cs fold_replicate del: replicate_Suc funpow.simps)
        also have "\<dots> = (?p @ ?a @ replicate (Suc (Suc (m - 1))) 32, length ?p)"
          unfolding st show_backs by simp
        finally show ?thesis by blast
      qed
      then show ?thesis using s 3 snoc by (auto simp: shows_line_def simp del: replicate_Suc)
    qed
  next
    case (4 c)
    obtain y z where yz: "r @ [x, 0] = y # z" by (cases r) auto
    have z0: "0 \<in> set z" "\<forall>d \<in> set z. d = 0" using yz l(5) zr by (cases r; auto)+
    have lt: "length ?b + length ?a < FINSH_CMD_SIZE - 1" using 4(3) by simp
    have c: "c \<noteq> 0" "c \<noteq> 8" using 4(2) by (auto simp: printable_def)
    have eq: "insert_key c sh = (let sh = sh\<lparr>line := ?b @ [c] @ ?a @ z, line_position := line_position sh + 1,
        line_curpos := line_curpos sh + 1\<rparr>
      in Some (if FINSH_CMD_SIZE \<le> unat (line_position sh) then sh\<lparr>line_position := 0, line_curpos := 0\<rparr> else sh,
           insert_out c ?b ?a z (echo_mode sh)))"
      by (rule insert_line) (use l(1) yz z0 pos lt in simp_all)
    obtain sh' out where s: "insert_key c sh = Some (sh', out)" "ed_rel sh' (ed_key (Char c) e)"
      by (rule insert_key_rel[OF assms(1) c(1)])
    have out: "out = insert_out c ?b ?a z True" using s(1) eq assms(2) by (simp add: Let_def split: if_splits)
    have cs: "cstr (?b @ (c # ?a) @ z) (length ?b) = c # ?a"
      by (rule cstr_clean) (use l(4) c z0 in auto)
    have pa: "printable (c # ?a)" using assms(4) 4(2) by (simp add: printable_append printable_Cons)
    let ?p = "prompt @ ?b"
    have scr': "scr = (?p @ ?a @ replicate m 32, length ?p)" using scr by simp
    have st: "show_effect (kputs (c # ?a)) scr = (?p @ c # ?a @ replicate (m - 1) 32, length ?p + length ?a + 1)"
      using show_text[OF pa, of ?p "?a @ replicate m 32"] lt by (simp add: show_kputs scr' del: fold_Cons)
    have "fold show_effect out scr = (?p @ c # ?a @ replicate (m - 1) 32, length ?p + 1)"
    proof (cases "?a = []")
      case True
      then show ?thesis using st by (simp add: out insert_out_def)
    next
      case False
      then have "fold show_effect out scr = (show_effect (kputs [8]) ^^ length ?a) (show_effect (kputs (c # ?a)) scr)"
        using cs by (simp add: out insert_out_def fold_replicate)
      then show ?thesis unfolding st show_backs by simp
    qed
    then show ?thesis using s 4(1) lt by (auto simp: shows_line_def)
  qed
qed

section \<open>Tabulator and prompt\<close>

text \<open>What is needed of the options of the commands: their names are strings.\<close>

definition good_options :: "finsh_syscall list \<Rightarrow> bool" where
  "good_options tab \<longleftrightarrow> (\<forall>x \<in> set tab. \<forall>opt \<in> set (cmd_opt x). 0 \<notin> set (opt_name opt))"

text \<open>The text \<open>t\<close> in the array of the line, after the completions have written it over the shorter text \<open>c\<close>.\<close>

lemma completed_array:
  assumes "prefix c t" "0 \<notin> set t" "length t \<le> FINSH_CMD_SIZE + 1" "c \<noteq> []"
    and "length c + length z = FINSH_CMD_SIZE" "\<forall>x \<in> set z. x = 0"
  defines "l \<equiv> t @ drop (length t) (c @ 0 # z)"
  shows "length t \<le> FINSH_CMD_SIZE \<Longrightarrow> string_at l 0 = Some t" "length t \<le> FINSH_CMD_SIZE \<Longrightarrow> cstr l 0 = t"
    "FINSH_CMD_SIZE < length t \<Longrightarrow> string_at l 0 = None"
    "length t < FINSH_CMD_SIZE \<Longrightarrow> line_rel t [] False l"
proof -
  obtain n where n: "n = FINSH_CMD_SIZE + 1 - length t" by simp
  have "0 # z = replicate (Suc (length z)) 0" using assms(6) replicate_length_same[of z 0] by simp
  moreover have "length c \<le> length t" by (rule prefix_length_le[OF assms(1)])
  ultimately have l: "l = t @ replicate n 0"
    using assms(5) by (simp add: l_def n Suc_diff_le del: replicate_Suc)
  have c: "cstr l 0 = t" if "length t \<le> FINSH_CMD_SIZE"
  proof -
    have "replicate n (0 :: u8) = [] \<or> hd (replicate n (0 :: u8)) = 0" by (cases n) simp_all
    from cstr_here[OF assms(2) this, of "[]"] show ?thesis by (simp add: l)
  qed
  then show "length t \<le> FINSH_CMD_SIZE \<Longrightarrow> cstr l 0 = t" .
  show "length t \<le> FINSH_CMD_SIZE \<Longrightarrow> string_at l 0 = Some t"
    using c string_at_zero[of 0 l] by (simp add: l n)
  show "FINSH_CMD_SIZE < length t \<Longrightarrow> string_at l 0 = None"
    using assms(2,3) by (simp add: l n string_at_def strlen_at_def)
  assume t: "length t < FINSH_CMD_SIZE"
  moreover have "t \<noteq> []" using assms(1,4) by auto
  ultimately have "good_line t" using assms(2) by (simp add: good_line_def)
  moreover have "n = Suc (FINSH_CMD_SIZE - length t)" using t by (simp add: n)
  then have "l = pad t @ [0]"
    using replicate_append_same[of "FINSH_CMD_SIZE - length t" "0 :: u8"] by (simp add: l pad_def)
  ultimately show "line_rel t [] False l" using line_rel_pad by simp
qed

text \<open>C40: completion. The tabulator on a line that is neither empty nor stale, for any table of commands with or
  without options. The text becomes the longest common prefix \<open>c\<close> of the names of commands that continue it, if there
  are any; then, if \<open>c\<close> consists of two words, its second word becomes the longest common prefix of the options of
  the command named by the first that continue it, if there are any. The names are shown, then the prompt with the
  text, and the cursor goes to its end. Only a completed option can be too long: if it does not leave the text
  within \<open>FINSH_CMD_SIZE\<close> characters an access leaves the array.\<close>
theorem tab_completes_name:
  assumes "ed_rel sh e" "\<not> stale e" "before e @ after e = s" "s \<noteq> []" "good_table tab" "good_options tab"
    and "\<forall>x \<in> set tab. length (cmd_name x) < FINSH_CMD_SIZE"
  shows "\<exists>c t. completion (map cmd_name tab) s c \<and> option_completion tab c t \<and> prefix s c \<and> prefix c t \<and>
    (if FINSH_CMD_SIZE < length t then tab_key tab prompt sh = None
     else \<exists>sh' out. tab_key tab prompt sh = Some (sh', out) \<and>
       Shown (Names (filter (prefix s) (map cmd_name tab))) \<in> set out \<and> last out = kputs (prompt @ t) \<and>
       cstr (line sh') 0 = t \<and> unat (line_position sh') = length t \<and> unat (line_curpos sh') = length t \<and>
       (length t < FINSH_CMD_SIZE \<longrightarrow> ed_rel sh' (e\<lparr>before := t, after := []\<rparr>)))"
proof -
  let ?names = "map cmd_name tab"
  obtain r x where l: "line sh = s @ r @ [x, 0]" "length s + length r = FINSH_CMD_SIZE - 1" "0 \<notin> set s"
    "x = 0" "r = replicate (length r) 0"
    using assms(1-3) unfolding ed_rel_def line_rel_def by auto
  define z where "z = replicate (length r + 1) (0 :: u8)"
  have "r @ [x, 0] = 0 # z"
  proof -
    obtain k where k: "k = length r" by simp
    then show ?thesis using l(4,5) by (simp add: z_def) (metis replicate_app_Cons_same append_Nil2 append_Cons)
  qed
  then have line: "line sh = s @ 0 # z" using l(1) by simp
  have nz: "\<forall>n \<in> set ?names. 0 \<notin> set n" using assms(5) by (auto simp: good_table_def)
  obtain c where c: "completion ?names s c" "complete_at (s @ 0 # z) 0 ?names =
    (if length c \<le> length s + 1 + length z
     then Some (filter (prefix s) ?names, c @ drop (length c) (s @ 0 # z)) else None)"
    by (rule complete_at_spec[OF assms(4) l(3) nz, of "[]" z]) (rule that, assumption, simp only: append_Nil list.size)
  have pc: "prefix s c" by (rule completion_prefix[OF c(1)])
  have c0: "0 \<notin> set c" by (rule completion_nonzero[OF c(1) l(3) nz])
  have lc: "length c < FINSH_CMD_SIZE"
  proof (cases "c = s")
    case False
    then obtain m where "m \<in> set ?names" "prefix c m" by (rule completion_of_name[OF c(1)])
    then show ?thesis using assms(7) prefix_length_le by fastforce
  qed (use l(2) in simp)
  have cn: "c \<noteq> []" using pc assms(4) by auto
  define y where "y = replicate (FINSH_CMD_SIZE - length c) (0 :: u8)"
  have arr: "c @ drop (length c) (s @ 0 # z) = c @ 0 # y"
  proof -
    have "0 # z = replicate (Suc (Suc (length r))) 0" by (simp add: z_def)
    then have "drop (length c) (s @ 0 # z) = replicate (Suc (FINSH_CMD_SIZE - length c)) 0"
      using prefix_length_le[OF pc] lc l(2) by (simp add: Suc_diff_le[symmetric] del: replicate_Suc)
    then show ?thesis by (simp add: y_def)
  qed
  have "length c \<le> length s + 1 + length z" using lc l(2) by (simp add: z_def)
  then have auto: "msh_auto_complete tab (line sh) = Some (Names (filter (prefix s) ?names), c @ 0 # y)"
    using c(2) l(3) assms(4) arr by (cases s) (auto simp: msh_auto_complete_def line arr_get_def)
  have "\<forall>x \<in> set tab. 0 \<notin> set (cmd_name x) \<and> (\<forall>opt \<in> set (cmd_opt x). 0 \<notin> set (opt_name opt))"
    using assms(5,6) by (simp add: good_table_def good_options_def)
  then obtain t shown where t: "option_completion tab c t" "prefix c t" "0 \<notin> set t"
    "msh_opt_auto_complete tab (c @ 0 # y) =
      (if length t \<le> length c + 1 + length y then Some (shown, t @ drop (length t) (c @ 0 # y)) else None)"
    by (rule opt_completes[OF cn c0, of tab y])
  let ?l = "t @ drop (length t) (c @ 0 # y)"
  have fits: "length t \<le> length c + 1 + length y \<longleftrightarrow> length t \<le> FINSH_CMD_SIZE + 1"
    using lc by (simp add: y_def)
  have A: "length c + length y = FINSH_CMD_SIZE" "\<forall>x \<in> set y. x = 0" using lc by (simp_all add: y_def)
  note R = completed_array[OF t(2,3) _ cn A]
  show ?thesis
  proof (cases "FINSH_CMD_SIZE < length t")
    case True
    have "tab_key tab prompt sh = None"
    proof (cases "length t \<le> FINSH_CMD_SIZE + 1")
      case le: True
      then show ?thesis using auto t(4) R(3)[OF le True] fits by (simp add: tab_key_def)
    next
      case False
      then show ?thesis using auto t(4) fits by (simp add: tab_key_def)
    qed
    then show ?thesis using c(1) t(1,2) pc True by (intro exI[of _ c] exI[of _ t]) simp
  next
    case False
    then have lt: "length t \<le> FINSH_CMD_SIZE" "length t \<le> FINSH_CMD_SIZE + 1" by simp_all
    let ?sh = "sh\<lparr>line := ?l, line_position := of_nat (length t), line_curpos := of_nat (length t)\<rparr>"
    let ?out = "replicate (unat (line_curpos sh)) (kputs [8]) @
      [kputs [10], Shown (Names (filter (prefix s) ?names))] @
      (case shown of None \<Rightarrow> [] | Some x \<Rightarrow> [Shown x]) @ [kputs (prompt @ t)]"
    have k: "tab_key tab prompt sh = Some (?sh, ?out)"
      using auto t(4) fits lt R(1)[OF lt(2,1)] by (simp add: tab_key_def Let_def)
    have u: "unat (of_nat (length t) :: u16) = length t" using lt by (simp add: unat_small)
    have "ed_rel ?sh (e\<lparr>before := t, after := []\<rparr>)" if "length t < FINSH_CMD_SIZE"
      using assms(1,2) R(4)[OF lt(2) that] u by (simp add: ed_rel_def)
    then show ?thesis
      using c(1) t(1,2) pc False k R(2)[OF lt(2,1)] u
      by (intro exI[of _ c] exI[of _ t] conjI if_not_P[THEN iffD2] exI[of _ ?sh] exI[of _ ?out]) simp_all
  qed
qed

text \<open>The prompt: a custom prompt of at most 127 characters is shown with \<open>>\<close>; a longer one overruns the static array.\<close>
theorem prompt_fits:
  assumes "prompt_mode sh" "0 \<notin> set p"
  shows "case finsh_get_prompt (Some p) sh (replicate 129 0) of
      Some buf \<Rightarrow> length p < 128 \<and> cstr buf 0 = p @ [62]
    | None \<Rightarrow> 128 \<le> length p"
proof -
  let ?b = "take 128 p @ replicate (128 - length p) 0"
  have "length ?b = 128" by simp
  moreover have "replicate 129 (0 :: u8) = replicate (Suc 128) 0" by (rule arg_cong[of _ _ "\<lambda>n. replicate n 0"]) simp
  then have "replicate 129 (0 :: u8) = replicate 128 0 @ [0]" by (simp only: replicate_append_same replicate_Suc)
  ultimately have a: "arr_set (replicate 129 0) 0 ?b = Some (?b @ [0])"
    using arr_set_app[of ?b "replicate 128 0" "[]" "[0]"] by simp
  show ?thesis
  proof (cases "length p < 128")
    case True
    define k where "k = 127 - length p"
    have "128 - length p = Suc k" using True by (simp add: k_def)
    then have b: "?b @ [0] = p @ [0, 0] @ replicate (127 - length p) 0"
      unfolding k_def[symmetric] using True by (simp add: replicate_append_same)
    have "cstr (p @ [0, 0] @ replicate (127 - length p) 0) 0 = p"
      using cstr_here[OF assms(2), of "[0, 0] @ replicate (127 - length p) 0" "[]"] by simp
    then have "strlen_at (?b @ [0]) 0 = Some (length p)" unfolding b by (simp add: strlen_at_def)
    moreover have "arr_set (?b @ [0]) (length p) [62, 0] = Some (p @ [62, 0] @ replicate (127 - length p) 0)"
      unfolding b using arr_set_app[of "[62, 0]" "[0, 0]" p] by simp
    moreover have "cstr (p @ [62, 0] @ replicate (127 - length p) 0) 0 = p @ [62]"
      using cstr_here[of "p @ [62]" "0 # replicate (127 - length p) 0" "[]"] assms(2) by simp
    ultimately show ?thesis using True a assms(1) by (simp add: finsh_get_prompt_def)
  next
    case False
    have "0 \<notin> set (take 128 p)" using assms(2) by (meson in_set_takeD)
    then have "cstr (take 128 p @ [0]) 0 = take 128 p" using cstr_here[of "take 128 p" "[0]" "[]"] by simp
    then have "strlen_at (?b @ [0]) 0 = Some 128" using False by (simp add: strlen_at_def)
    moreover have "arr_set (?b @ [0]) 128 [62, 0] = None" using False by (simp add: arr_set_def)
    ultimately show ?thesis using False a assms(1) by (simp add: finsh_get_prompt_def)
  qed
qed

text \<open>The modes are fields of one bit: any even prompt mode switches the prompt off, though other values than 0
  are documented to switch it on.\<close>
theorem even_prompt_mode: "\<not> prompt_mode (finsh_set_prompt_mode 2 sh)"
  by (simp add: finsh_set_prompt_mode_def)

section \<open>Witnesses\<close>

lemma option_table_good: "good_table option_table"
  by (simp add: good_table_def option_table_def)

text \<open>The bytes of \<open>ps\<close>, the left arrow and \<open>x\<close>.\<close>

theorem shell_edits_refine_witness:
  "\<exists>sh out. finsh_keys option_table [62] [112, 115, 27, 91, 68, 120] shell_init = Some (sh, out) \<and>
     take (unat (line_position sh)) (line sh) = [112, 120, 115] \<and> unat (line_curpos sh) = 2"
proof -
  have e: "fold ed_byte [112, 115, 27, 91, 68, 120] ed_init = \<lparr>ed_stat = WAIT_NORMAL, before = [112, 120], after = [115],
      past = [], past_pos = 0, stale = False\<rparr>"
    by (simp add: ed_byte_def decode_def plain_def ed_init_def)
  have "(9 :: u8) \<notin> set [112, 115, 27, 91, 68, 120]" by simp
  from shell_edits_refine[OF option_table_good this, of "[62]"] show ?thesis
    unfolding e by (auto simp: Let_def)
qed

text \<open>Entering the line \<open>ps  "a b" c\<close>.\<close>

theorem enter_executes_text_witness:
  "\<exists>sh sh' l argv. ed_rel sh (ed_init\<lparr>before := example_line\<rparr>) \<and>
     enter_key option_table [62] sh = Some (sh', (if echo_mode sh then [kputs [10]] else []) @ [Exec (Call 1 argv) l, kputs [62]]) \<and>
     map (cstr l) argv = [[112, 115], [97, 32, 98], [99]]"
proof -
  let ?e = "ed_init\<lparr>before := example_line\<rparr>"
  have e: "fold ed_byte example_line ed_init = ?e"
    by (simp add: ed_byte_def decode_def plain_def ed_init_def example_line_def)
  have "9 \<notin> set example_line" by (simp add: example_line_def)
  then obtain sh where sh: "ed_rel sh ?e"
    using finsh_keys_rel[OF init_rel option_table_good, of example_line "[62]"] unfolding e by auto
  have f: "find (\<lambda>x. cmd_name x = [112, 115]) option_table = Some (hd option_table)" "cmd_func (hd option_table) = 1"
    by (simp_all add: option_table_def)
  have t: "before ?e @ after ?e = example_line" "dropWhile blank example_line = example_line"
    "takeWhile (\<lambda>c. \<not> blank c) example_line = [112, 115]" "example_line \<noteq> []"
    by (simp_all add: ed_init_def) (simp_all add: example_line_def)
  have "\<not> stale ?e" by (simp add: ed_init_def)
  from enter_executes_text[OF sh option_table_good this, of "[62]"]
  obtain sh' r l where r: "enter_key option_table [62] sh =
      Some (sh', (if echo_mode sh then [kputs [10]] else []) @ [Exec r l, kputs [62]])"
    "\<exists>argv. r = Call 1 argv \<and> map (cstr l) argv = take FINSH_ARG_MAX (tokens example_line)"
    unfolding t f using t(4) f(2) by auto
  then show ?thesis using sh by (auto simp: example_tokens)
qed

theorem screen_shows_line_witness:
  "\<exists>sh' out. edit_key (Char 97) shell_init = Some (sh', out) \<and>
     shows_line [62] (ed_init\<lparr>before := [97]\<rparr>) (fold show_effect out ([62], 1))"
proof -
  have "echo_mode shell_init" "\<not> stale ed_init" "printable (before ed_init @ after ed_init)" "shows_line [62] ed_init ([62], 1)"
    "printable [97]" by (simp_all add: shell_init_def ed_init_def shows_line_def printable_def)
  from screen_shows_line[OF init_rel this(1-4), of "Char 97"] this(5) show ?thesis by (auto simp: ed_init_def)
qed

theorem prompt_fits_witness:
  "\<exists>buf. finsh_get_prompt (Some [97]) shell_init (replicate 129 0) = Some buf \<and> cstr buf 0 = [97, 62]"
proof -
  have "prompt_mode shell_init" "(0 :: u8) \<notin> set [97]" by (simp_all add: shell_init_def)
  from prompt_fits[OF this] show ?thesis by (auto split: option.splits)
qed

text \<open>The tabulator behind \<open>ps -\<close>, for the command \<open>ps\<close> with the option \<open>--help\<close>.\<close>

theorem tab_completes_name_witness:
  "\<exists>sh sh' out. ed_rel sh (ed_init\<lparr>before := [112, 115, 32, 45]\<rparr>) \<and> tab_key option_table [62] sh = Some (sh', out) \<and>
     ed_rel sh' (ed_init\<lparr>before := [112, 115, 32, 45, 45, 104, 101, 108, 112]\<rparr>)"
proof -
  let ?s = "[112, 115, 32, 45]" and ?e = "ed_init\<lparr>before := [112, 115, 32, 45]\<rparr>"
  have h: "good_options option_table" "\<forall>x \<in> set option_table. length (cmd_name x) < FINSH_CMD_SIZE"
    by (simp_all add: good_options_def option_table_def)
  have e: "fold ed_byte ?s ed_init = ?e" by (simp add: ed_byte_def decode_def plain_def ed_init_def)
  obtain sh where sh: "ed_rel sh ?e"
    using finsh_keys_rel[OF init_rel option_table_good, of ?s "[62]"] unfolding e by auto
  have f: "\<not> stale ?e" "before ?e @ after ?e = ?s" "?s \<noteq> []" by (simp_all add: ed_init_def)
  have n: "completion (map cmd_name option_table) ?s c \<longleftrightarrow> c = ?s" for c
    by (simp add: completion_def option_table_def)
  have o: "option_completion option_table ?s t \<longleftrightarrow> t = [112, 115, 32, 45, 45, 104, 101, 108, 112]" for t
    by (auto simp: option_completion_def next_word_def completion_def option_names_def option_table_def is_lcp_single)
  from tab_completes_name[OF sh f option_table_good h, of "[62]"] sh show ?thesis
    by (auto simp: n o ed_init_def)
qed

end
