(* ===== verification/Spec2Isabelle.thy ===== *)
theory Spec2Isabelle
  imports Prelude RtList Kservice KernelState Scheduler Timer Thread IpcList Sem Event
    Fifo Mailbox MsgQueue Mutex MemPool RingBuffer ThreadEnd System
    SmallMem SmallMemOps ByteMem KString KPrintf Object Device Completion DataQueue WorkQueue Msh Shell
begin

text \<open>
  A model of the RT-Thread 5.0.2 kernel as this board support package configures it (ART-Pi, STM32H750, one
  Cortex-M7 core), with theorems about its scheduler, timers, threads, inter-process communication, memory
  management, object manager, device framework, work queues and shell. The code is under \<open>src/rt-thread\<close>, the configuration in \<open>src/rtconfig.h\<close>: 32 priorities, 1000
  ticks per second, alignment 8, one level of the timer list, no soft timers, no message priorities, no signals,
  one core, assertions on.

  THE PROGRAM. Threads with fixed priorities wait in one ready list per priority; a bitmap of the nonempty lists
  gives the scheduler the next thread. A tick interrupt counts down time slices and runs the timers that are due;
  every thread has a timer of its own that ends its waiting. Semaphores, mutexes, events, mailboxes, message
  queues and memory pools share a list of suspended threads and the same pattern: a call that cannot go on
  suspends its thread, arms its timer and schedules, and a later call, the timer or a reset resumes it. Mutexes
  pass priorities on to owners along chains. Threads that end are closed, taken off every list and cleaned up by
  the idle thread. The heap and the ring buffer are data structures below the kernel.

  THE STATE. KernelState has one record for the whole kernel: the threads, every intrusive thread list as an
  entry of one map \<open>queues\<close>, the bitmap, the scheduler lock, the interrupt nesting, the tick, the timers and
  their lists, and the objects of each class. Objects are numbers instead of addresses. RtList shows that the
  list values stand for the pointer code of \<open>rtservice.h\<close>. Machine integers are words of the width of the C
  types, so ticks wrap around, counters overflow and masks are bit operations. A failed assertion, an endless
  loop and a read of memory that is not there are the value None; \<open>ok m Q\<close> says that \<open>m\<close> returns, with a
  result in \<open>Q\<close>. A call that blocks returns \<open>Waiting\<close> with the state after the switch to the next thread; the
  rest of the C function, which runs when the thread is resumed, is a definition of its own, named
  \<open>..._resume\<close>.

  THE THEORIES, each with the files of \<open>src/rt-thread\<close> it models.
  \<^item> Prelude: word types and error codes, \<open>rt_assert\<close>, the alignment macros of \<open>include/rtdef.h\<close>.
  \<^item> RtList: \<open>include/rtservice.h\<close>, doubly and singly linked lists on a store of links, refined to lists. The
    locale \<open>list_family\<close> states the laws of a family of disjoint lists; it is interpreted on the pointer code and
    on the list functions the kernel state uses.
  \<^item> Kservice: the versions of \<open>__rt_ffs\<close> in \<open>src/kservice.c\<close> and \<open>libcpu/arm/cortex-m7/cpuport.c\<close>, one function.
  \<^item> KernelState: the records of \<open>include/rtdef.h\<close> and the scheduling invariant \<open>kinv\<close>: lists, bitmap and
    thread states agree, at most one thread runs, and it is the current one.
  \<^item> Scheduler: \<open>src/scheduler_up.c\<close>, \<open>src/irq.c\<close> and the context checks of \<open>include/rtthread.h\<close>.
  \<^item> Timer: \<open>src/timer.c\<close>. The list is sorted by the ticks to the timeout, across the wrap-around of the tick; a
    check ends and fires the timers that are due, once each and in order.
  \<^item> Thread: \<open>src/thread.c\<close> and \<open>src/clock.c\<close>, with \<open>sysinv\<close>, the scheduling and the timer invariant
    together: a running thread timer belongs to a suspended thread.
  \<^item> ThreadEnd: detaching, deleting and leaving threads, \<open>rt_thread_control\<close>, and the clean-up of \<open>src/idle.c\<close>.
  \<^item> IpcList: the functions \<open>_ipc_list_*\<close> of \<open>src/ipc.c\<close>. The locale \<open>ipc_object\<close> is the contract of a list of
    waiting threads (what suspending on it, waking its first thread and waking all threads do, and that they keep
    \<open>sysinv\<close>); it is interpreted on the queue of every object class, and each object rests on its interpretation.
  \<^item> Sem, Event, Mailbox, MsgQueue, Mutex: the objects of \<open>src/ipc.c\<close>. Each has an invariant, what its
    operations do on every branch, and the state of the object as its users see it (units and waiters, sets of
    events, queues of messages). Fifo has the locale of a bounded queue that the rings of mailboxes and the
    linked pools of message queues refine, and the one of a byte buffer.
  \<^item> MemPool: \<open>src/mempool.c\<close>, fixed blocks linked through the words in front of them.
  \<^item> SmallMem, SmallMemOps: \<open>src/mem.c\<close>, the heap. One memory of 32-bit words holds block headers and contents;
    it represents a list of free and used blocks, on which allocation is first fit, release merges neighbours
    and resizing keeps contents.
  \<^item> ByteMem, KString, KPrintf: the memory, string and output functions of \<open>src/kservice.c\<close> on a memory of bytes
    where an access to an unmapped address is a fault. The loops over words are the byte loops; the string
    functions are stated on lists of bytes; everything \<open>rt_vsnprintf\<close> prints is the text of its format, a list
    of characters that does not depend on the buffer, cut to the buffer.
  \<^item> Object: \<open>src/object.c\<close>, names, types and the list of objects of each class, on the same memory of bytes. It
    refines a registry: for every class the objects with their names, the newest first.
  \<^item> Device: \<open>components/drivers/core/device.c\<close>, devices as objects of Object with reference counts, flags and the
    functions of their drivers, which are parameters.
  \<^item> Completion, DataQueue: \<open>completion.c\<close> and \<open>dataqueue.c\<close> of \<open>components/drivers/ipc\<close>, which suspend and resume
    threads on lists of their own; these lists are interpretations of \<open>ipc_object\<close> too, and the ring of a data
    queue is one of the bounded queue of Fifo. Their states stand beside the kernel state.
  \<^item> WorkQueue: \<open>workqueue.c\<close>, items that a work thread executes, at once or after a delay. The steps of all calls,
    the work thread and the timers keep every item in at most one list; a delayed item that is submitted again without
    delay, and one whose delay ends while it is executed, show two errors of the code.
  \<^item> Msh: \<open>components/finsh/msh.c\<close> and \<open>msh_parse.c\<close>, the words of a command line, the search of the command, completion of
    names and of options.
  \<^item> Shell: \<open>components/finsh/shell.c\<close>, the line editor of the shell, from the bytes of the console to the execution of a
    line. It refines an editor with the text before and after the cursor; what it prints keeps the screen equal to
    the text. A line that was too long leaves its bytes behind the next one, which is an error of the code.
  \<^item> RingBuffer: \<open>components/drivers/ipc/ringbuffer.c\<close>, a byte stream through mirrored indices.
  \<^item> System: runs of semaphore calls, sleeps, yields and ticks in any order, as a step relation whose
    steps carry the results of their calls. The invariant of the system is preserved by every step, no permitted call
    stops the system, and units are conserved, counted by the results: releases that returned \<open>RT_EOK\<close> against takes
    that returned it and waiters that were woken to return it.

  WHAT IS ASSUMED. A kernel call is one step up to the point where it blocks: the code runs it with interrupts
  disabled, except in short windows (the copying of a message, the tests at the head of some functions), and
  what other threads or interrupts do in these windows is not modelled. Functions given by users (timer
  functions, clean-up functions of threads) are parameters; theorems name what they need of them (\<open>user_ok\<close>:
  they keep the invariants and leave timers alone). Results of object allocations are arguments. Time-outs are
  below \<open>2^31 - 1\<close> ticks, as the assertion in \<open>rt_timer_control\<close> demands.

  LOOPS. Loops over data that shrinks are structural recursion. Loops that C does not bound (the timer check, the
  searches of the heap, the clean-up of dead threads, waking every waiter, the update of priorities along a
  chain, the words of a command line, cancelling all works) are partial functions whose value is None when they do not end; the theorems prove that they return,
  and \<open>timer_check_zero_period\<close> that one of them does not in one case.

  NOT MODELLED. The kernel state does not hold the names and the registration of its objects: Object models the
  object manager by itself. Hooks. Stacks and the register switch (assembler). The allocators \<open>memheap.c\<close> and \<open>slab.c\<close>, signals
  and the multi-core scheduler: not configured. The drivers themselves, the hardware abstraction layer, the commands of the shell and the device it reads from, file
  systems, networking and the board files: register access and glue around what is modelled, or third-party code.
\<close>

end
